(* ===== verification/Prelude.thy ===== *)
theory Prelude
  imports Main "HOL-Library.Word" "HOL-Library.AList" "HOL-Library.Char_ord"
    "HOL-Library.List_Lexorder"
begin

text \<open>
  Shared material of the Bifrox development: the names of the model's machine types, the
  machine arithmetic of the release build (wrapping and saturating operations on unsigned
  integers kept as natural numbers), big-endian encodings, Rust strings as UTF-8 byte
  strings, and the ordered map and set that stand for \<open>BTreeMap\<close> and \<open>BTreeSet\<close>.

  Unsigned integers of the source are natural numbers; the operations that can overflow are
  written with the wrap-around of the width they have (\<open>add64\<close>, \<open>sub64\<close>, \<open>add16\<close>), so a
  component that needs them not to wrap has to prove it. Bytes are 8-bit words.
\<close>

named_theorems codec_simps \<open>rewriting of encoders and decoders on concatenated input\<close>
named_theorems arith_simps \<open>machine arithmetic in its non-wrapping range\<close>

type_synonym byte = "8 word"
type_synonym bytes = "8 word list"
type_synonym offset = nat
type_synonym instant = nat
type_synonym duration = nat

section \<open>Machine arithmetic\<close>

abbreviation U16_MAX :: nat where "U16_MAX \<equiv> 65535"
abbreviation U32_MAX :: nat where "U32_MAX \<equiv> 4294967295"
abbreviation U64_MAX :: nat where "U64_MAX \<equiv> 18446744073709551615"

definition add64 :: "nat \<Rightarrow> nat \<Rightarrow> nat" where
  "add64 a b = (a + b) mod 2 ^ 64"

definition sub64 :: "nat \<Rightarrow> nat \<Rightarrow> nat" where
  "sub64 a b = (a + 2 ^ 64 - b mod 2 ^ 64) mod 2 ^ 64"

definition add16 :: "nat \<Rightarrow> nat \<Rightarrow> nat" where
  "add16 a b = (a + b) mod 2 ^ 16"

definition saturating_add64 :: "nat \<Rightarrow> nat \<Rightarrow> nat" where
  "saturating_add64 a b = min (a + b) U64_MAX"

lemma add64_exact [arith_simps]: "a + b < 2 ^ 64 \<Longrightarrow> add64 a b = a + b"
  by (simp add: add64_def)

lemma add64_less: "add64 a b < 2 ^ 64"
  by (simp add: add64_def)

lemma sub64_exact [arith_simps]: "b \<le> a \<Longrightarrow> a < 2 ^ 64 \<Longrightarrow> sub64 a b = a - b"
proof -
  assume ab: "b \<le> a" "a < 2 ^ 64"
  then have b: "b mod 2 ^ 64 = b" by simp
  have eq: "a + 2 ^ 64 - b = (a - b) + 2 ^ 64" using ab(1) by simp
  have "sub64 a b = (a - b) mod 2 ^ 64"
    unfolding sub64_def b eq by (rule mod_add_self2)
  then show ?thesis using ab by simp
qed

lemma add16_exact [arith_simps]: "a + b < 2 ^ 16 \<Longrightarrow> add16 a b = a + b"
  by (simp add: add16_def)

lemma add16_less: "add16 a b < 2 ^ 16"
  by (simp add: add16_def)

lemma saturating_add64_le: "saturating_add64 a b \<le> U64_MAX"
  by (simp add: saturating_add64_def)

lemma saturating_add64_ge: "a \<le> U64_MAX \<Longrightarrow> a \<le> saturating_add64 a b"
  by (simp add: saturating_add64_def)

section \<open>Big-endian integers\<close>

text \<open>
  \<open>be_bytes k v\<close> is \<open>to_be_bytes\<close> of the \<open>k\<close>-byte integer \<open>v\<close> truncates to (the cast
  \<open>v as uN\<close>), \<open>be_val\<close> is \<open>from_be_bytes\<close>.
\<close>

primrec be_bytes :: "nat \<Rightarrow> nat \<Rightarrow> bytes" where
  "be_bytes 0 v = []"
| "be_bytes (Suc k) v = be_bytes k (v div 256) @ [of_nat v]"

definition be_val :: "bytes \<Rightarrow> nat" where
  "be_val bs = foldl (\<lambda>acc b. acc * 256 + unat b) 0 bs"

lemma length_be_bytes [simp, codec_simps]: "length (be_bytes k v) = k"
  by (induction k arbitrary: v) simp_all

lemma be_bytes_eq_Nil [simp]: "be_bytes k v = [] \<longleftrightarrow> k = 0"
  using length_be_bytes [of k v] by (metis length_0_conv)

lemma be_val_Nil [simp]: "be_val [] = 0"
  by (simp add: be_val_def)

lemma be_val_snoc [simp]: "be_val (bs @ [b]) = be_val bs * 256 + unat b"
  by (simp add: be_val_def)

lemma be_val_be_bytes: "be_val (be_bytes k v) = v mod 256 ^ k"
proof (induction k arbitrary: v)
  case 0
  then show ?case by simp
next
  case (Suc k)
  have "be_val (be_bytes (Suc k) v) = (v div 256) mod 256 ^ k * 256 + v mod 256"
    by (simp add: Suc unat_of_nat)
  also have "\<dots> = v mod (256 * 256 ^ k)"
    by (simp add: mod_mult2_eq)
  finally show ?case by simp
qed

lemma be_val_be_bytes_exact [codec_simps]: "v < 256 ^ k \<Longrightarrow> be_val (be_bytes k v) = v"
  by (simp add: be_val_be_bytes)

lemma be_val_less: "be_val bs < 256 ^ length bs"
proof (induction bs rule: rev_induct)
  case Nil
  then show ?case by simp
next
  case (snoc b bs)
  have b: "unat b < 256" using unsigned_less [where 'a = nat, of b] by simp
  have "be_val bs * 256 + unat b < (be_val bs + 1) * 256" using b by simp
  also have "\<dots> \<le> 256 ^ length bs * 256" using snoc by (intro mult_right_mono) simp_all
  finally show ?case by simp
qed

lemma be_bytes_be_val: "be_bytes (length bs) (be_val bs) = bs"
proof (induction bs rule: rev_induct)
  case Nil
  then show ?case by simp
next
  case (snoc b bs)
  have "unat b < 256" using unsigned_less [where 'a = nat, of b] by simp
  moreover have "of_nat (be_val bs * 256 + unat b) = b"
    by (rule word_unat_eq_iff [THEN iffD2], subst unat_of_nat)
      (simp add: \<open>unat b < 256\<close>)
  ultimately show ?case using snoc by simp
qed

text \<open>
  The cursor reads of the \<open>bytes\<close> crate: \<open>take_be k bs\<close> reads one big-endian integer of
  \<open>k\<close> bytes. A read past the end panics in the source; every decoder guards it with a
  length test, and the model's decoders carry the same tests.
\<close>

definition take_be :: "nat \<Rightarrow> bytes \<Rightarrow> nat \<times> bytes" where
  "take_be k bs = (be_val (take k bs), drop k bs)"

lemma take_be_append [codec_simps]:
  "v < 256 ^ k \<Longrightarrow> take_be k (be_bytes k v @ rest) = (v, rest)"
  by (simp add: take_be_def be_val_be_bytes_exact)

lemma take_be_be_bytes [codec_simps]:
  "v < 256 ^ k \<Longrightarrow> take_be k (be_bytes k v) = (v, [])"
  by (simp add: take_be_def be_val_be_bytes_exact)

section \<open>Strings\<close>

text \<open>
  A Rust \<open>String\<close> is its UTF-8 bytes: a HOL \<open>string\<close> holds one byte per character. A
  string of the program satisfies \<open>is_str\<close>; \<open>from_utf8\<close> is \<open>String::from_utf8\<close>, with
  the byte ranges of well-formed UTF-8.
\<close>

definition str_bytes :: "string \<Rightarrow> bytes" where
  "str_bytes s = map (\<lambda>c. of_nat (of_char c)) s"

definition bytes_str :: "bytes \<Rightarrow> string" where
  "bytes_str bs = map (\<lambda>b. char_of (unat b)) bs"

definition in_range :: "nat \<Rightarrow> nat \<Rightarrow> byte \<Rightarrow> bool" where
  "in_range lo hi b \<longleftrightarrow> lo \<le> unat b \<and> unat b \<le> hi"

definition utf8_char_len :: "bytes \<Rightarrow> nat" where
  "utf8_char_len bs =
     (case bs of
        [] \<Rightarrow> 0
      | b # r \<Rightarrow>
          if in_range 0 127 b then 1
          else (case r of
              [] \<Rightarrow> 0
            | c # r2 \<Rightarrow>
                if in_range 194 223 b then (if in_range 128 191 c then 2 else 0)
                else (case r2 of
                    [] \<Rightarrow> 0
                  | d # r3 \<Rightarrow>
                      if in_range 224 239 b
                      then (if in_range (if unat b = 224 then 160 else 128)
                                        (if unat b = 237 then 159 else 191) c
                               \<and> in_range 128 191 d then 3 else 0)
                      else (case r3 of
                          [] \<Rightarrow> 0
                        | e # _ \<Rightarrow>
                            if in_range 240 244 b
                               \<and> in_range (if unat b = 240 then 144 else 128)
                                          (if unat b = 244 then 143 else 191) c
                               \<and> in_range 128 191 d \<and> in_range 128 191 e
                            then 4 else 0))))"

function utf8_valid :: "bytes \<Rightarrow> bool" where
  "utf8_valid bs =
     (if bs = [] then True
      else if utf8_char_len bs = 0 then False
      else utf8_valid (drop (utf8_char_len bs) bs))"
  by pat_completeness auto
termination
  by (relation "measure length") auto

declare utf8_valid.simps [simp del]

definition is_str :: "string \<Rightarrow> bool" where
  "is_str s \<longleftrightarrow> utf8_valid (str_bytes s)"

definition from_utf8 :: "bytes \<Rightarrow> string option" where
  "from_utf8 bs = (if utf8_valid bs then Some (bytes_str bs) else None)"

lemma length_str_bytes [simp]: "length (str_bytes s) = length s"
  by (simp add: str_bytes_def)

lemma length_bytes_str [simp]: "length (bytes_str bs) = length bs"
  by (simp add: bytes_str_def)

lemma bytes_str_str_bytes [simp]: "bytes_str (str_bytes s) = s"
proof -
  have "char_of (unat (of_nat (of_char c) :: byte)) = c" for c
  proof -
    have "of_char c < (256 :: nat)" by simp
    then have "unat (of_nat (of_char c) :: byte) = of_char c"
      by (simp add: unat_of_nat)
    then show ?thesis by simp
  qed
  then show ?thesis
    by (simp add: str_bytes_def bytes_str_def map_idI)
qed

lemma str_bytes_bytes_str [simp]: "str_bytes (bytes_str bs) = bs"
proof -
  have "(of_nat (of_char (char_of (unat b) :: char)) :: byte) = b" for b
  proof -
    have "unat b < 256" using unsigned_less [where 'a = nat, of b] by simp
    then have "of_char (char_of (unat b) :: char) = unat b"
      by (simp add: of_char_of)
    then show ?thesis by simp
  qed
  then show ?thesis
    by (simp add: str_bytes_def bytes_str_def map_idI)
qed

lemma from_utf8_str_bytes [codec_simps]: "is_str s \<Longrightarrow> from_utf8 (str_bytes s) = Some s"
  by (simp add: from_utf8_def is_str_def)

lemma from_utf8_is_str: "from_utf8 bs = Some s \<Longrightarrow> is_str s \<and> str_bytes s = bs"
  by (auto simp: from_utf8_def is_str_def split: if_splits)

lemma utf8_valid_ascii: "\<forall>b\<in>set bs. unat b < 128 \<Longrightarrow> utf8_valid bs"
proof (induction bs)
  case Nil
  then show ?case by (simp add: utf8_valid.simps [of "[]"])
next
  case (Cons b bs)
  then have "utf8_char_len (b # bs) = 1" by (simp add: utf8_char_len_def in_range_def)
  with Cons show ?case by (simp add: utf8_valid.simps [of "b # bs"])
qed

lemma is_str_ascii [simp]: "\<forall>c\<in>set s. of_char c < (128::nat) \<Longrightarrow> is_str s"
  unfolding is_str_def
  by (rule utf8_valid_ascii) (auto simp: str_bytes_def unat_of_nat)

lemma is_str_Nil [simp]: "is_str []"
  by (simp add: is_str_def str_bytes_def utf8_valid.simps)

section \<open>Ordered maps and sets\<close>

text \<open>
  A \<open>BTreeMap\<close> is an association list with strictly ascending keys (\<open>bt_sorted\<close>): the
  list order is the iteration order, the head is \<open>first_key_value\<close>, lookup is \<open>map_of\<close>.
  A \<open>BTreeSet\<close> is a strictly ascending list with the library's \<open>insort_insert\<close> and
  \<open>remove1\<close>.
\<close>

fun bt_insert :: "'k::linorder \<Rightarrow> 'v \<Rightarrow> ('k \<times> 'v) list \<Rightarrow> ('k \<times> 'v) list" where
  "bt_insert k v [] = [(k, v)]"
| "bt_insert k v (e # m) =
     (if fst e < k then e # bt_insert k v m
      else if fst e = k then (k, v) # m
      else (k, v) # e # m)"

fun bt_remove :: "'k::linorder \<Rightarrow> ('k \<times> 'v) list \<Rightarrow> ('k \<times> 'v) list" where
  "bt_remove k [] = []"
| "bt_remove k (e # m) = (if fst e = k then m else e # bt_remove k m)"

definition bt_sorted :: "('k::linorder \<times> 'v) list \<Rightarrow> bool" where
  "bt_sorted m \<longleftrightarrow> sorted_wrt (<) (map fst m)"

lemma bt_sorted_Nil [simp]: "bt_sorted []"
  by (simp add: bt_sorted_def)

lemma bt_sorted_Cons [simp]:
  "bt_sorted (e # m) \<longleftrightarrow> (\<forall>x\<in>set m. fst e < fst x) \<and> bt_sorted m"
  by (auto simp: bt_sorted_def)

lemma bt_sorted_distinct: "bt_sorted m \<Longrightarrow> distinct (map fst m)"
  by (simp add: bt_sorted_def strict_sorted_iff)

lemma bt_lookup_iff: "bt_sorted m \<Longrightarrow> map_of m k = Some v \<longleftrightarrow> (k, v) \<in> set m"
  by (simp add: bt_sorted_distinct)

lemma set_bt_insert:
  "bt_sorted m \<Longrightarrow> set (bt_insert k v m) = insert (k, v) {e \<in> set m. fst e \<noteq> k}"
  by (induction m) auto

lemma set_bt_remove: "bt_sorted m \<Longrightarrow> set (bt_remove k m) = {e \<in> set m. fst e \<noteq> k}"
  by (induction m) auto

lemma bt_sorted_insert [simp]: "bt_sorted m \<Longrightarrow> bt_sorted (bt_insert k v m)"
  by (induction m) (auto simp: set_bt_insert)

lemma bt_sorted_remove [simp]: "bt_sorted m \<Longrightarrow> bt_sorted (bt_remove k m)"
  by (induction m) (auto simp: set_bt_remove)

lemma map_of_bt_insert [simp]: "map_of (bt_insert k v m) = (map_of m)(k \<mapsto> v)"
  by (induction m) (auto simp: fun_eq_iff)

lemma map_of_bt_remove [simp]: "bt_sorted m \<Longrightarrow> map_of (bt_remove k m) = (map_of m)(k := None)"
proof (induction m)
  case Nil
  then show ?case by simp
next
  case (Cons e m)
  then have "map_of m (fst e) = None"
    by (force simp: map_of_eq_None_iff)
  with Cons show ?case by (cases e) (auto simp: fun_eq_iff)
qed

lemma bt_remove_absent: "map_of m k = None \<Longrightarrow> bt_remove k m = m"
  by (induction m) (auto split: if_splits)

lemma bt_insert_remove [simp]:
  "bt_sorted m \<Longrightarrow> bt_insert k v (bt_remove k m) = bt_insert k v m"
proof (induction m)
  case Nil
  then show ?case by simp
next
  case (Cons e m)
  have "bt_insert (fst e) v m = (fst e, v) # m" if "\<forall>x\<in>set m. fst e < fst x"
    using that by (cases m) auto
  moreover have "bt_remove k m = m" if "\<forall>x\<in>set m. fst e < fst x" "\<not> fst e < k"
    using that by (intro bt_remove_absent) (force simp: map_of_eq_None_iff)
  ultimately show ?case using Cons by auto
qed

lemma bt_insert_same: "bt_sorted m \<Longrightarrow> map_of m k = Some v \<Longrightarrow> bt_insert k v m = m"
proof (induction m)
  case Nil
  then show ?case by simp
next
  case (Cons e m)
  show ?case
  proof (cases "fst e = k")
    case True
    with Cons.prems show ?thesis by (cases e) simp
  next
    case False
    with Cons.prems have some: "map_of m k = Some v" by (cases e) simp
    then have "(k, v) \<in> set m" by (rule map_of_SomeD)
    with Cons.prems have "fst e < k" by force
    with Cons some show ?thesis by simp
  qed
qed

abbreviation bset_sorted :: "'a::linorder list \<Rightarrow> bool" where
  "bset_sorted xs \<equiv> sorted_wrt (<) xs"

lemma bset_sorted_insert [simp]: "bset_sorted xs \<Longrightarrow> bset_sorted (insort_insert x xs)"
  by (simp add: strict_sorted_iff insort_insert_key_def sorted_insort distinct_insort)

lemma bset_sorted_remove1 [simp]: "bset_sorted xs \<Longrightarrow> bset_sorted (remove1 x xs)"
  by (simp add: strict_sorted_iff sorted_remove1)

lemma bset_set_remove1 [simp]: "bset_sorted xs \<Longrightarrow> set (remove1 x xs) = set xs - {x}"
  by (simp add: strict_sorted_iff)

section \<open>Binary search\<close>

text \<open>
  \<open>slice::binary_search_by_key\<close> of the Rust standard library on the list of keys: halving
  with the last probe deciding between \<open>Ok\<close> (here \<open>Inr\<close>, an index whose key is equal)
  and \<open>Err\<close> (here \<open>Inl\<close>, the insertion index).
\<close>

function bsearch_base :: "'k::linorder list \<Rightarrow> 'k \<Rightarrow> nat \<Rightarrow> nat \<Rightarrow> nat" where
  "bsearch_base ks x base len =
     (if len \<le> 1 then base
      else (let half = len div 2; mid = base + half in
            bsearch_base ks x (if x < ks ! mid then base else mid) (len - half)))"
  by pat_completeness auto
termination
  by (relation "measure (\<lambda>(ks, x, base, len). len)") auto

declare bsearch_base.simps [simp del]

definition binary_search :: "'k::linorder list \<Rightarrow> 'k \<Rightarrow> nat + nat" where
  "binary_search ks x =
     (if ks = [] then Inl 0
      else (let b = bsearch_base ks x 0 (length ks) in
            if ks ! b = x then Inr b
            else if ks ! b < x then Inl (b + 1) else Inl b))"

lemma bsearch_base_step:
  "\<not> len \<le> 1 \<Longrightarrow> bsearch_base ks x base len =
     bsearch_base ks x (if x < ks ! (base + len div 2) then base else base + len div 2)
       (len - len div 2)"
  by (simp only: bsearch_base.simps [of ks x base len] Let_def if_False)

lemma bsearch_base_bounds:
  "0 < len \<Longrightarrow> base \<le> bsearch_base ks x base len \<and> bsearch_base ks x base len < base + len"
proof (induction ks x base len rule: bsearch_base.induct)
  case (1 ks x base len)
  show ?case
  proof (cases "len \<le> 1")
    case True
    with 1 show ?thesis by (simp add: bsearch_base.simps [of ks x base len])
  next
    case False
    define half where "half = len div 2"
    define base' where "base' = (if x < ks ! (base + half) then base else base + half)"
    define r where "r = bsearch_base ks x base' (len - half)"
    have half: "0 < half" "half < len" using False by (auto simp: half_def)
    have "base' \<le> r \<and> r < base' + (len - half)"
      using "1.IH" [OF False refl refl] half unfolding r_def base'_def half_def by simp
    moreover have "base' + (len - half) \<le> base + len" "base \<le> base'"
      using half by (auto simp: base'_def)
    ultimately have "base \<le> r \<and> r < base + len" by linarith
    moreover have "bsearch_base ks x base len = r"
      by (simp only: bsearch_base_step [OF False] r_def base'_def half_def)
    ultimately show ?thesis by simp
  qed
qed

lemma bsearch_base_split:
  assumes "sorted ks" "base + len \<le> length ks" "0 < len"
    and "\<forall>i < base. ks ! i \<le> x" and "\<forall>i. base + len \<le> i \<and> i < length ks \<longrightarrow> x < ks ! i"
  shows "(\<forall>i < bsearch_base ks x base len. ks ! i \<le> x) \<and>
    (\<forall>i. bsearch_base ks x base len < i \<and> i < length ks \<longrightarrow> x < ks ! i)"
  using assms
proof (induction ks x base len rule: bsearch_base.induct)
  case (1 ks x base len)
  show ?case
  proof (cases "len \<le> 1")
    case True
    with "1.prems" show ?thesis by (simp add: bsearch_base.simps [of ks x base len])
  next
    case False
    define half where "half = len div 2"
    define mid where "mid = base + half"
    have half: "0 < half" "half < len" using False by (auto simp: half_def)
    have mid: "mid < length ks" using half "1.prems"(2) by (simp add: mid_def)
    let ?base = "if x < ks ! mid then base else mid"
    have lower: "\<forall>i < ?base. ks ! i \<le> x"
    proof (cases "x < ks ! mid")
      case False
      have "ks ! i \<le> x" if "i < mid" for i
        using sorted_nth_mono [OF \<open>sorted ks\<close> _ mid, of i] that False by simp
      with False show ?thesis by simp
    qed (use "1.prems" in simp)
    have upper: "\<forall>i. ?base + (len - half) \<le> i \<and> i < length ks \<longrightarrow> x < ks ! i"
    proof (cases "x < ks ! mid")
      case True
      have "x < ks ! i" if "mid \<le> i" "i < length ks" for i
        using True sorted_nth_mono [OF \<open>sorted ks\<close> that] by (rule less_le_trans)
      moreover have "mid \<le> base + (len - half)"
        using half by (auto simp: mid_def half_def)
      ultimately show ?thesis using True by auto
    qed (use "1.prems" half in \<open>simp add: mid_def\<close>)
    have "(\<forall>i < bsearch_base ks x ?base (len - half). ks ! i \<le> x) \<and>
      (\<forall>i. bsearch_base ks x ?base (len - half) < i \<and> i < length ks \<longrightarrow> x < ks ! i)"
    proof (rule "1.IH" [OF False half_def mid_def \<open>sorted ks\<close> _ _ lower upper])
      show "?base + (len - half) \<le> length ks" using half "1.prems"(2) by (auto simp: mid_def)
      show "0 < len - half" using half by simp
    qed
    then show ?thesis by (simp only: bsearch_base_step [OF False] half_def mid_def)
  qed
qed

lemma bsearch_base_moved:
  "bsearch_base ks x base len = base \<or> ks ! bsearch_base ks x base len \<le> x"
proof (induction ks x base len rule: bsearch_base.induct)
  case (1 ks x base len)
  show ?case
  proof (cases "len \<le> 1")
    case True
    then show ?thesis by (simp add: bsearch_base.simps [of ks x base len])
  next
    case False
    let ?half = "len div 2"
    let ?base = "if x < ks ! (base + ?half) then base else base + ?half"
    have "bsearch_base ks x ?base (len - ?half) = ?base \<or>
        ks ! bsearch_base ks x ?base (len - ?half) \<le> x"
      using "1.IH" [OF False refl refl] .
    then consider "bsearch_base ks x base len = ?base"
      | "ks ! bsearch_base ks x base len \<le> x"
      unfolding bsearch_base_step [OF False] by blast
    then show ?thesis
    proof cases
      case 1
      then show ?thesis by (cases "x < ks ! (base + ?half)") (simp_all add: not_less)
    qed simp
  qed
qed

lemma binary_search_Inr:
  "binary_search ks x = Inr i \<Longrightarrow> i < length ks \<and> ks ! i = x"
  using bsearch_base_bounds [of "length ks" 0 ks x]
  by (auto simp: binary_search_def Let_def split: if_splits)

lemma binary_search_Inl:
  assumes "sorted ks" "binary_search ks x = Inl i"
  shows "i \<le> length ks \<and> (\<forall>j < i. ks ! j < x) \<and> (\<forall>j. i \<le> j \<and> j < length ks \<longrightarrow> x < ks ! j)"
proof (cases "ks = []")
  case True
  with assms show ?thesis by (simp add: binary_search_def)
next
  case False
  define b where "b = bsearch_base ks x 0 (length ks)"
  have b: "b < length ks"
    using bsearch_base_bounds [of "length ks" 0 ks x] False by (simp add: b_def)
  have none: "\<forall>j. 0 + length ks \<le> j \<and> j < length ks \<longrightarrow> x < ks ! j" by auto
  have after: "\<forall>j. b < j \<and> j < length ks \<longrightarrow> x < ks ! j"
    using bsearch_base_split [OF assms(1) _ _ _ none] False unfolding b_def by simp
  have moved: "b = 0 \<or> ks ! b \<le> x"
    using bsearch_base_moved [of ks x 0 "length ks"] by (simp add: b_def)
  from assms(2) False have ne: "ks ! b \<noteq> x" and i: "i = (if ks ! b < x then b + 1 else b)"
    by (auto simp: binary_search_def Let_def b_def split: if_splits)
  show ?thesis
  proof (cases "ks ! b < x")
    case True
    have "ks ! j < x" if "j \<le> b" for j
      using sorted_nth_mono [OF assms(1) that b] True by simp
    with True i b after show ?thesis by (simp add: less_Suc_eq_le Suc_le_eq)
  next
    case less: False
    with moved ne have "b = 0" by auto
    moreover have "x < ks ! 0" using less ne \<open>b = 0\<close> by simp
    ultimately show ?thesis using less i after by (auto simp: le_less)
  qed
qed

end
