(* ===== verification/Share_Partition.thy ===== *)
theory Share_Partition
  imports Prelude "HOL-Library.Product_Lexorder"
begin

text \<open>
  The share-group partition of \<^verbatim>\<open>src/server/share/partition.rs\<close>: records of a
  partition handed out under leases, acknowledged over offset ranges, redelivered when a
  lease expires and archived when the delivery ceiling is reached.

  \<^item> \<open>batches\<close> is the \<open>BTreeMap\<close> of in-flight offset ranges, \<open>timers\<close> the \<open>BTreeSet\<close> of
    pending lease expiries; both are the ordered structures of the prelude.
  \<^item> Each public method runs with both write locks held; \<open>acquire_records\<close> is the
    exception, its lazy sweep is a critical section of its own (\<open>sweep_timers_inline\<close>) and
    the rest is \<open>acquire_locked\<close>.
  \<^item> An \<open>Instant\<close> is a point of the monotonic clock and is passed in as \<open>now\<close>; the
    partition log is the argument \<open>fetch\<close>, the method \<open>PartitionManager::fetch\<close>.
  \<^item> \<open>offset_view\<close> forgets how offsets are grouped into ranges. The main results say that
    the range surgery is invisible in this view, that a lease is held by one member only,
    that every lease has exactly one timer and that no expired lease survives a sweep.
\<close>

named_theorems share_defs \<open>definitions of the share partition operations\<close>

section \<open>Data\<close>

datatype ShareRecordState = Available | Acquired | Acknowledged | Archived

fun state_to_byte :: "ShareRecordState \<Rightarrow> byte" where
  "state_to_byte Available = 0"
| "state_to_byte Acquired = 1"
| "state_to_byte Acknowledged = 2"
| "state_to_byte Archived = 3"

definition state_from_byte :: "byte \<Rightarrow> ShareRecordState option" where
  "state_from_byte b =
     (if b = 0 then Some Available
      else if b = 1 then Some Acquired
      else if b = 2 then Some Acknowledged
      else if b = 3 then Some Archived
      else None)"

record PersistedBatch =
  pb_first_offset :: offset
  pb_last_offset :: offset
  pb_state :: ShareRecordState
  pb_delivery_count :: nat

record InFlightBatch =
  first_offset :: offset
  last_offset :: offset
  state :: ShareRecordState
  acquired_by :: "string option"
  acquired_at :: "instant option"
  lock_timeout :: duration
  delivery_count :: nat

datatype ExpiryTimer = ExpiryTimer
  (expire_at: instant) (timer_first: offset) (timer_last: offset) (timer_member: string)

datatype AcknowledgeType = Accept | Release | Reject | Renew | Yield

record AckBatch =
  ack_first :: offset
  ack_last :: offset
  ack_type :: AcknowledgeType

record Record =
  rec_offset :: offset
  rec_timestamp :: nat
  rec_key :: "bytes option"
  rec_value :: "bytes option"
  is_control :: bool

record AcquiredRecordInfo =
  info_offset :: offset
  info_delivery_count :: nat
  info_frame :: Record

type_synonym batch_map = "(offset \<times> InFlightBatch) list"
type_synonym fetch_fn = "offset \<Rightarrow> nat \<Rightarrow> string + Record list"

record SharePartition =
  sp_topic :: string
  sp_partition :: nat
  sp_group_id :: string
  default_lock_timeout :: duration
  max_delivery_attempts :: nat
  start_offset :: offset
  next_fetch_offset :: offset
  batches :: batch_map
  timers :: "ExpiryTimer list"
  state_version :: nat

text \<open>
  \<open>Ord for ExpiryTimer\<close>: lexicographic in expiry, range and member, so that distinct timers
  never compare equal.
\<close>

definition timer_key :: "ExpiryTimer \<Rightarrow> nat \<times> nat \<times> nat \<times> string" where
  "timer_key t = (expire_at t, timer_first t, timer_last t, timer_member t)"

lemma timer_key_inject [simp]: "timer_key t = timer_key u \<longleftrightarrow> t = u"
  by (cases t; cases u) (simp add: timer_key_def)

instantiation ExpiryTimer :: linorder
begin

definition less_eq_ExpiryTimer :: "ExpiryTimer \<Rightarrow> ExpiryTimer \<Rightarrow> bool" where
  "t \<le> u \<longleftrightarrow> timer_key t \<le> timer_key u"

definition less_ExpiryTimer :: "ExpiryTimer \<Rightarrow> ExpiryTimer \<Rightarrow> bool" where
  "t < u \<longleftrightarrow> timer_key t < timer_key u"

instance
proof
  fix t u v :: ExpiryTimer
  show "t < u \<longleftrightarrow> t \<le> u \<and> \<not> u \<le> t"
    unfolding less_eq_ExpiryTimer_def less_ExpiryTimer_def by (rule less_le_not_le)
  show "t \<le> t" by (simp add: less_eq_ExpiryTimer_def)
  show "t \<le> u \<Longrightarrow> u \<le> v \<Longrightarrow> t \<le> v"
    unfolding less_eq_ExpiryTimer_def by (rule order_trans)
  show "t \<le> u \<Longrightarrow> u \<le> t \<Longrightarrow> t = u"
    unfolding less_eq_ExpiryTimer_def by (drule (1) antisym) simp
  show "t \<le> u \<or> u \<le> t"
    unfolding less_eq_ExpiryTimer_def by (rule linear)
qed

end

lemma timer_less_expire_at: "t < u \<Longrightarrow> expire_at t \<le> expire_at u"
  by (auto simp: less_ExpiryTimer_def timer_key_def less_prod_def')

section \<open>Construction, snapshot and counters\<close>

definition restore_step ::
  "duration \<Rightarrow> PersistedBatch \<Rightarrow> offset \<times> batch_map \<Rightarrow> offset \<times> batch_map" where
  [share_defs]: "restore_step dlt pb acc =
     (max (fst acc) (add64 (pb_last_offset pb) 1),
      bt_insert (pb_first_offset pb)
        \<lparr>first_offset = pb_first_offset pb, last_offset = pb_last_offset pb,
         state = (if pb_state pb = Acquired then Available else pb_state pb),
         acquired_by = None, acquired_at = None, lock_timeout = dlt,
         delivery_count = pb_delivery_count pb\<rparr> (snd acc))"

definition restore ::
  "string \<Rightarrow> nat \<Rightarrow> string \<Rightarrow> duration \<Rightarrow> nat \<Rightarrow> offset \<Rightarrow> PersistedBatch list \<Rightarrow> SharePartition" where
  [share_defs]: "restore topic pidx group_id dlt mda so persisted =
     (let (nfo, m) = fold (restore_step dlt) persisted (so, []) in
      \<lparr>sp_topic = topic, sp_partition = pidx, sp_group_id = group_id,
       default_lock_timeout = dlt, max_delivery_attempts = mda,
       start_offset = so, next_fetch_offset = nfo, batches = m, timers = [],
       state_version = 0\<rparr>)"

definition new_share_partition ::
  "string \<Rightarrow> nat \<Rightarrow> string \<Rightarrow> duration \<Rightarrow> nat \<Rightarrow> offset \<Rightarrow> SharePartition" where
  "new_share_partition topic pidx group_id dlt mda so =
     restore topic pidx group_id dlt mda so []"

definition snapshot :: "SharePartition \<Rightarrow> offset \<times> PersistedBatch list" where
  "snapshot sp =
     (start_offset sp,
      map (\<lambda>(k, b). \<lparr>pb_first_offset = first_offset b, pb_last_offset = last_offset b,
                      pb_state = state b, pb_delivery_count = delivery_count b\<rparr>) (batches sp))"

definition inflight_count :: "SharePartition \<Rightarrow> nat" where
  "inflight_count sp =
     sum_list (map (\<lambda>(k, b). add64 (sub64 (last_offset b) (first_offset b)) 1) (batches sp))"

section \<open>Watermark\<close>

fun advance_watermark :: "offset \<Rightarrow> batch_map \<Rightarrow> offset \<times> batch_map" where
  "advance_watermark current_start [] = (current_start, [])"
| "advance_watermark current_start ((k, b) # m) =
     (if k = current_start \<and> (state b = Acknowledged \<or> state b = Archived)
      then advance_watermark (add64 (last_offset b) 1) m
      else (current_start, (k, b) # m))"

text \<open>The common tail of the mutating methods: the watermark, then the version.\<close>

definition finish :: "batch_map \<Rightarrow> ExpiryTimer list \<Rightarrow> bool \<Rightarrow> SharePartition \<Rightarrow> SharePartition" where
  [share_defs]: "finish m ts mutated sp =
     (let (so, m') = advance_watermark (start_offset sp) m in
      sp\<lparr>batches := m', timers := ts, start_offset := so,
         state_version := (if mutated then add64 (state_version sp) 1 else state_version sp)\<rparr>)"

section \<open>Lease expiry\<close>

definition matching_keys :: "batch_map \<Rightarrow> offset \<Rightarrow> offset \<Rightarrow> offset list" where
  "matching_keys m target_first target_last =
     map fst (filter (\<lambda>(k, b). k \<le> target_last \<and> target_first \<le> last_offset b) m)"

definition reap_batch ::
  "string \<Rightarrow> instant \<Rightarrow> nat \<Rightarrow> InFlightBatch \<Rightarrow> InFlightBatch \<times> offset list \<times> bool" where
  [share_defs]: "reap_batch member now mda b =
     (if state b = Acquired \<and> acquired_by b = Some member
      then (case acquired_at b of
              None \<Rightarrow> (b, [], False)
            | Some at \<Rightarrow>
                if lock_timeout b \<le> now - at
                then if mda \<le> delivery_count b
                     then (b\<lparr>state := Archived, acquired_by := None, acquired_at := None\<rparr>,
                           [first_offset b ..< Suc (last_offset b)], True)
                     else (b\<lparr>state := Available, acquired_by := None, acquired_at := None\<rparr>,
                           [], True)
                else (b, [], False))
      else (b, [], False))"

definition reap_key ::
  "string \<Rightarrow> instant \<Rightarrow> nat \<Rightarrow> offset \<Rightarrow> batch_map \<times> offset list \<times> bool
    \<Rightarrow> batch_map \<times> offset list \<times> bool" where
  [share_defs]: "reap_key member now mda k acc =
     (case acc of (m, dlq, mutated) \<Rightarrow>
        case map_of m k of
          None \<Rightarrow> acc
        | Some b \<Rightarrow>
            (case reap_batch member now mda b of (b', offs, reaped) \<Rightarrow>
               (bt_insert k b' (bt_remove k m), dlq @ offs, mutated \<or> reaped)))"

fun sweep_loop ::
  "instant \<Rightarrow> nat \<Rightarrow> ExpiryTimer list \<Rightarrow> batch_map \<times> offset list \<times> bool
    \<Rightarrow> ExpiryTimer list \<times> batch_map \<times> offset list \<times> bool" where
  "sweep_loop now mda [] acc = ([], acc)"
| "sweep_loop now mda (t # ts) acc =
     (if now < expire_at t then (t # ts, acc)
      else sweep_loop now mda ts
             (fold (reap_key (timer_member t) now mda)
                (matching_keys (fst acc) (timer_first t) (timer_last t)) acc))"

definition sweep_timers_internal :: "instant \<Rightarrow> SharePartition \<Rightarrow> SharePartition \<times> offset list" where
  [share_defs]: "sweep_timers_internal now sp =
     (case sweep_loop now (max_delivery_attempts sp) (timers sp) (batches sp, [], False) of
        (ts, m, dlq, mutated) \<Rightarrow> (finish m ts mutated sp, dlq))"

definition sweep_timers_inline :: "instant \<Rightarrow> SharePartition \<Rightarrow> SharePartition" where
  [share_defs]: "sweep_timers_inline now sp =
     (case timers sp of
        [] \<Rightarrow> sp
      | t # _ \<Rightarrow> if expire_at t \<le> now then fst (sweep_timers_internal now sp) else sp)"

definition check_lock_timeouts :: "instant \<Rightarrow> SharePartition \<Rightarrow> SharePartition \<times> offset list" where
  [share_defs]: "check_lock_timeouts now sp = sweep_timers_internal now sp"

section \<open>Acquisition\<close>

definition FETCH_BYTES :: nat where
  "FETCH_BYTES = 10 * 1024 * 1024"

definition deliver :: "fetch_fn \<Rightarrow> offset \<Rightarrow> offset \<Rightarrow> nat \<Rightarrow> AcquiredRecordInfo list" where
  [share_defs]: "deliver fetch lo hi dc =
     (case fetch lo FETCH_BYTES of
        Inl _ \<Rightarrow> []
      | Inr frames \<Rightarrow>
          map (\<lambda>r. \<lparr>info_offset = rec_offset r, info_delivery_count = dc, info_frame = r\<rparr>)
            (filter (\<lambda>r. lo \<le> rec_offset r \<and> rec_offset r \<le> hi) frames))"

definition lease :: "string \<Rightarrow> instant \<Rightarrow> duration \<Rightarrow> offset \<Rightarrow> offset \<Rightarrow> nat \<Rightarrow> InFlightBatch" where
  [share_defs]: "lease member now timeout lo hi dc =
     \<lparr>first_offset = lo, last_offset = hi, state = Acquired, acquired_by = Some member,
      acquired_at = Some now, lock_timeout = timeout, delivery_count = dc\<rparr>"

fun acquire_available ::
  "string \<Rightarrow> nat \<Rightarrow> duration \<Rightarrow> instant \<Rightarrow> fetch_fn \<Rightarrow> offset list
    \<Rightarrow> batch_map \<times> AcquiredRecordInfo list \<times> (offset \<times> offset) list
    \<Rightarrow> batch_map \<times> AcquiredRecordInfo list \<times> (offset \<times> offset) list" where
  "acquire_available member max_records timeout now fetch [] acc = acc"
| "acquire_available member max_records timeout now fetch (k # ks) (m, infos, ranges) =
     (if max_records \<le> length infos then (m, infos, ranges)
      else case map_of m k of
        None \<Rightarrow> acquire_available member max_records timeout now fetch ks (m, infos, ranges)
      | Some b \<Rightarrow>
          (let m0 = bt_remove k m in
           if state b \<noteq> Available
           then acquire_available member max_records timeout now fetch ks
                  (bt_insert k b m0, infos, ranges)
           else
             (let needed = max_records - length infos;
                  batch_len = add64 (sub64 (last_offset b) (first_offset b)) 1;
                  dc = add16 (delivery_count b) 1 in
              if batch_len \<le> needed
              then acquire_available member max_records timeout now fetch ks
                     (bt_insert (first_offset b)
                        (lease member now timeout (first_offset b) (last_offset b) dc) m0,
                      infos @ deliver fetch (first_offset b) (last_offset b) dc,
                      ranges @ [(first_offset b, last_offset b)])
              else
                (let split_offset = sub64 (add64 (first_offset b) needed) 1;
                     remainder = b\<lparr>first_offset := add64 split_offset 1, state := Available,
                                   acquired_by := None, acquired_at := None\<rparr> in
                 acquire_available member max_records timeout now fetch ks
                   (bt_insert (first_offset remainder) remainder
                      (bt_insert (first_offset b)
                         (lease member now timeout (first_offset b) split_offset dc) m0),
                    infos @ deliver fetch (first_offset b) split_offset dc,
                    ranges @ [(first_offset b, split_offset)])))))"

definition available_keys :: "batch_map \<Rightarrow> offset list" where
  "available_keys m = map fst (filter (\<lambda>(k, b). state b = Available) m)"

text \<open>The second half of the method: fresh offsets from the log, from \<open>next_fetch_offset\<close>.\<close>

definition acquire_fresh ::
  "string \<Rightarrow> nat \<Rightarrow> duration \<Rightarrow> instant \<Rightarrow> fetch_fn \<Rightarrow> offset
    \<Rightarrow> batch_map \<times> AcquiredRecordInfo list \<times> (offset \<times> offset) list
    \<Rightarrow> offset \<times> batch_map \<times> AcquiredRecordInfo list \<times> (offset \<times> offset) list" where
  [share_defs]: "acquire_fresh member max_records timeout now fetch next_offset acc =
     (case acc of (m, infos, ranges) \<Rightarrow>
        if length infos < max_records
        then (let needed = max_records - length infos in
              case fetch next_offset FETCH_BYTES of
                Inl _ \<Rightarrow> (next_offset, acc)
              | Inr frames \<Rightarrow>
                  (let valid = take needed (filter (\<lambda>r. next_offset \<le> rec_offset r) frames) in
                   if valid = [] then (next_offset, acc)
                   else
                     (let lo = rec_offset (hd valid); hi = rec_offset (last valid) in
                      (add64 hi 1,
                       bt_insert lo (lease member now timeout lo hi 1) m,
                       infos @ map (\<lambda>r. \<lparr>info_offset = rec_offset r, info_delivery_count = 1,
                                           info_frame = r\<rparr>) valid,
                       ranges @ [(lo, hi)]))))
        else (next_offset, acc))"

definition acquire_locked ::
  "string \<Rightarrow> nat \<Rightarrow> duration option \<Rightarrow> fetch_fn \<Rightarrow> instant \<Rightarrow> SharePartition
    \<Rightarrow> SharePartition \<times> AcquiredRecordInfo list" where
  [share_defs]: "acquire_locked member max_records lock_to fetch now sp =
     (let timeout = (case lock_to of None \<Rightarrow> default_lock_timeout sp | Some d \<Rightarrow> d);
          acc = acquire_available member max_records timeout now fetch
                  (available_keys (batches sp)) (batches sp, [], []) in
      case acquire_fresh member max_records timeout now fetch (next_fetch_offset sp) acc of
        (nfo, m, infos, ranges) \<Rightarrow>
          (sp\<lparr>batches := m, next_fetch_offset := nfo,
              timers := fold (\<lambda>(f, l). insort_insert (ExpiryTimer (now + timeout) f l member))
                          ranges (timers sp),
              state_version :=
                (if ranges \<noteq> [] then add64 (state_version sp) 1 else state_version sp)\<rparr>,
           infos))"

definition acquire_records ::
  "string \<Rightarrow> nat \<Rightarrow> duration option \<Rightarrow> fetch_fn \<Rightarrow> instant \<Rightarrow> SharePartition
    \<Rightarrow> SharePartition \<times> AcquiredRecordInfo list" where
  [share_defs]: "acquire_records member max_records lock_to fetch now sp =
     (if max_records = 0 then (sp, [])
      else acquire_locked member max_records lock_to fetch now (sweep_timers_inline now sp))"

section \<open>Acknowledgement\<close>

text \<open>
  What an acknowledgement does to the overlapping slice of a leased batch: the new state,
  the delivery count, the offsets for the dead-letter queue and the timers.
\<close>

definition apply_ack ::
  "string \<Rightarrow> instant \<Rightarrow> nat \<Rightarrow> AcknowledgeType \<Rightarrow> InFlightBatch \<Rightarrow> offset \<Rightarrow> offset
    \<Rightarrow> ExpiryTimer list \<Rightarrow> ShareRecordState \<times> nat \<times> offset list \<times> ExpiryTimer list" where
  [share_defs]: "apply_ack member now mda ty b lo hi ts =
     (case ty of
        Accept \<Rightarrow> (Acknowledged, delivery_count b, [], ts)
      | Release \<Rightarrow>
          if mda \<le> delivery_count b
          then (Archived, delivery_count b, [lo ..< Suc hi], ts)
          else (Available, delivery_count b, [], ts)
      | Reject \<Rightarrow> (Archived, delivery_count b, [lo ..< Suc hi], ts)
      | Renew \<Rightarrow>
          (Acquired, delivery_count b, [],
           insort_insert (ExpiryTimer (now + lock_timeout b) lo hi member) ts)
      | Yield \<Rightarrow> (Available, delivery_count b - 1, [], ts))"

definition lease_timer :: "InFlightBatch \<Rightarrow> ExpiryTimer option" where
  "lease_timer b =
     (case (acquired_at b, acquired_by b) of
        (Some at, Some owner) \<Rightarrow>
          Some (ExpiryTimer (at + lock_timeout b) (first_offset b) (last_offset b) owner)
      | _ \<Rightarrow> None)"

definition insert_timer :: "ExpiryTimer option \<Rightarrow> ExpiryTimer list \<Rightarrow> ExpiryTimer list" where
  [share_defs]: "insert_timer t ts = (case t of None \<Rightarrow> ts | Some x \<Rightarrow> insort_insert x ts)"

definition remove_timer :: "ExpiryTimer option \<Rightarrow> ExpiryTimer list \<Rightarrow> ExpiryTimer list" where
  [share_defs]: "remove_timer t ts = (case t of None \<Rightarrow> ts | Some x \<Rightarrow> remove1 x ts)"

type_synonym ack_acc = "batch_map \<times> ExpiryTimer list \<times> offset list \<times> bool"

definition ack_batch ::
  "string \<Rightarrow> instant \<Rightarrow> nat \<Rightarrow> AckBatch \<Rightarrow> InFlightBatch \<Rightarrow> ack_acc \<Rightarrow> ack_acc" where
  [share_defs]: "ack_batch member now mda ack b acc =
     (case acc of (m0, ts0, dlq, _) \<Rightarrow>
       let lo = max (first_offset b) (ack_first ack);
           hi = min (last_offset b) (ack_last ack);
           ts1 = remove_timer (lease_timer b) ts0;
           left = b\<lparr>last_offset := sub64 lo 1\<rparr>;
           (m1, ts2) = (if first_offset b < lo
                        then (bt_insert (first_offset b) left m0,
                              insert_timer (lease_timer left) ts1)
                        else (m0, ts1));
           (st, dc, offs, ts3) = apply_ack member now mda (ack_type ack) b lo hi ts2;
           middle = \<lparr>first_offset = lo, last_offset = hi, state = st,
                     acquired_by = (if st = Acquired then Some member else None),
                     acquired_at = (if st = Acquired then Some now else None),
                     lock_timeout = lock_timeout b, delivery_count = dc\<rparr>;
           m2 = bt_insert lo middle m1;
           right = b\<lparr>first_offset := add64 hi 1\<rparr>;
           (m3, ts4) = (if hi < last_offset b
                        then (bt_insert (add64 hi 1) right m2,
                              insert_timer (lease_timer right) ts3)
                        else (m2, ts3))
       in (m3, ts4, dlq @ offs, True))"

definition ack_key :: "string \<Rightarrow> instant \<Rightarrow> nat \<Rightarrow> AckBatch \<Rightarrow> offset \<Rightarrow> ack_acc \<Rightarrow> ack_acc" where
  [share_defs]: "ack_key member now mda ack k acc =
     (case acc of (m, ts, dlq, mutated) \<Rightarrow>
        case map_of m k of
          None \<Rightarrow> acc
        | Some b \<Rightarrow>
            if state b \<noteq> Acquired \<or> acquired_by b \<noteq> Some member
            then (bt_insert k b (bt_remove k m), ts, dlq, mutated)
            else ack_batch member now mda ack b (bt_remove k m, ts, dlq, mutated))"

definition ack_one :: "string \<Rightarrow> instant \<Rightarrow> nat \<Rightarrow> AckBatch \<Rightarrow> ack_acc \<Rightarrow> ack_acc" where
  [share_defs]: "ack_one member now mda ack acc =
     fold (ack_key member now mda ack) (matching_keys (fst acc) (ack_first ack) (ack_last ack)) acc"

definition acknowledge ::
  "string \<Rightarrow> AckBatch list \<Rightarrow> instant \<Rightarrow> SharePartition \<Rightarrow> SharePartition \<times> offset list" where
  [share_defs]: "acknowledge member acks now sp =
     (case fold (ack_one member now (max_delivery_attempts sp)) acks
             (batches sp, timers sp, [], False) of
        (m, ts, dlq, mutated) \<Rightarrow> (finish m ts mutated sp, dlq))"

section \<open>The per-offset view and the invariant\<close>

type_synonym attrs =
  "ShareRecordState \<times> string option \<times> instant option \<times> duration \<times> nat"

definition attrs :: "InFlightBatch \<Rightarrow> attrs" where
  "attrs b = (state b, acquired_by b, acquired_at b, lock_timeout b, delivery_count b)"

definition covers :: "InFlightBatch \<Rightarrow> offset \<Rightarrow> bool" where
  "covers b x \<longleftrightarrow> first_offset b \<le> x \<and> x \<le> last_offset b"

definition batch_at :: "batch_map \<Rightarrow> offset \<Rightarrow> InFlightBatch option" where
  "batch_at m x = find (\<lambda>b. covers b x) (map snd m)"

definition offset_view :: "batch_map \<Rightarrow> offset \<Rightarrow> attrs option" where
  "offset_view m x = map_option attrs (batch_at m x)"

definition batch_ok :: "InFlightBatch \<Rightarrow> bool" where
  "batch_ok b \<longleftrightarrow> first_offset b \<le> last_offset b \<and>
     (state b = Acquired \<longleftrightarrow> acquired_by b \<noteq> None) \<and>
     (state b = Acquired \<longleftrightarrow> acquired_at b \<noteq> None)"

definition batches_wf :: "offset \<Rightarrow> offset \<Rightarrow> batch_map \<Rightarrow> bool" where
  "batches_wf lo hi m \<longleftrightarrow> bt_sorted m \<and>
     (\<forall>(k, b)\<in>set m. k = first_offset b \<and> batch_ok b \<and> lo \<le> k \<and> last_offset b < hi) \<and>
     (\<forall>(k, b)\<in>set m. \<forall>(k', b')\<in>set m. k < k' \<longrightarrow> last_offset b < k')"

definition leases :: "batch_map \<Rightarrow> ExpiryTimer set" where
  "leases m = {t. \<exists>b\<in>snd ` set m. lease_timer b = Some t}"

definition timers_match :: "batch_map \<Rightarrow> ExpiryTimer list \<Rightarrow> bool" where
  "timers_match m ts \<longleftrightarrow> bset_sorted ts \<and> set ts = leases m"

definition terminal :: "ShareRecordState \<Rightarrow> bool" where
  "terminal st \<longleftrightarrow> st = Acknowledged \<or> st = Archived"

definition settled :: "offset \<Rightarrow> batch_map \<Rightarrow> bool" where
  "settled lo m \<longleftrightarrow> (\<forall>b. map_of m lo = Some b \<longrightarrow> \<not> terminal (state b))"

definition share_inv :: "SharePartition \<Rightarrow> bool" where
  "share_inv sp \<longleftrightarrow>
     batches_wf (start_offset sp) (next_fetch_offset sp) (batches sp) \<and>
     timers_match (batches sp) (timers sp) \<and>
     start_offset sp \<le> next_fetch_offset sp \<and> next_fetch_offset sp < 2 ^ 64 \<and>
     settled (start_offset sp) (batches sp)"

lemma lease_timer_Some:
  "lease_timer b = Some t \<longleftrightarrow>
     (\<exists>at w. acquired_at b = Some at \<and> acquired_by b = Some w \<and>
             t = ExpiryTimer (at + lock_timeout b) (first_offset b) (last_offset b) w)"
  by (auto simp: lease_timer_def split: option.splits)

lemma lease_timer_range:
  "lease_timer b = Some t \<Longrightarrow> timer_first t = first_offset b \<and> timer_last t = last_offset b"
  by (auto simp: lease_timer_Some)

lemma batch_ok_lease: "batch_ok b \<Longrightarrow> state b = Acquired \<longleftrightarrow> (\<exists>t. lease_timer b = Some t)"
  by (auto simp: batch_ok_def lease_timer_Some)

lemma wf_sorted: "batches_wf lo hi m \<Longrightarrow> bt_sorted m"
  by (simp add: batches_wf_def)

lemma wf_all:
  "\<lbrakk>batches_wf lo hi m; (k, b) \<in> set m\<rbrakk>
   \<Longrightarrow> k = first_offset b \<and> batch_ok b \<and> lo \<le> k \<and> last_offset b < hi"
  unfolding batches_wf_def by (elim conjE) (drule (1) bspec, simp)

lemma wf_pair:
  "\<lbrakk>batches_wf lo hi m; (k, b) \<in> set m; (k', b') \<in> set m; k < k'\<rbrakk> \<Longrightarrow> last_offset b < k'"
  unfolding batches_wf_def by (elim conjE) (drule (1) bspec, simp, drule (1) bspec, simp)

lemma wf_entry: "\<lbrakk>batches_wf lo hi m; (k, b) \<in> set m\<rbrakk> \<Longrightarrow> k = first_offset b"
  using wf_all by blast

lemma wf_member:
  "batches_wf lo hi m \<Longrightarrow> b \<in> snd ` set m \<longleftrightarrow> (first_offset b, b) \<in> set m"
  by (auto dest: wf_entry intro: rev_image_eqI)

lemma wf_ok: "\<lbrakk>batches_wf lo hi m; b \<in> snd ` set m\<rbrakk> \<Longrightarrow> batch_ok b"
  using wf_all wf_member by blast

lemma wf_lo: "\<lbrakk>batches_wf lo hi m; b \<in> snd ` set m\<rbrakk> \<Longrightarrow> lo \<le> first_offset b"
  using wf_all wf_member by blast

lemma wf_hi: "\<lbrakk>batches_wf lo hi m; b \<in> snd ` set m\<rbrakk> \<Longrightarrow> last_offset b < hi"
  using wf_all wf_member by blast

lemma wf_apart:
  "\<lbrakk>batches_wf lo hi m; b \<in> snd ` set m; b' \<in> snd ` set m; first_offset b < first_offset b'\<rbrakk>
   \<Longrightarrow> last_offset b < first_offset b'"
  using wf_pair wf_member by blast

lemma wf_map_of:
  assumes wf: "batches_wf lo hi m"
  shows "map_of m k = Some b \<longleftrightarrow> b \<in> snd ` set m \<and> k = first_offset b"
  unfolding bt_lookup_iff [OF wf_sorted [OF wf]] wf_member [OF wf]
  using wf_entry [OF wf] by blast

lemma wf_same_first:
  "\<lbrakk>batches_wf lo hi m; b \<in> snd ` set m; b' \<in> snd ` set m; first_offset b = first_offset b'\<rbrakk>
   \<Longrightarrow> b = b'"
  using wf_map_of by (metis option.inject)

lemma wf_unique:
  assumes wf: "batches_wf lo hi m"
    and b: "b \<in> snd ` set m" "covers b x" and b': "b' \<in> snd ` set m" "covers b' x"
  shows "b = b'"
proof (rule wf_same_first [OF wf b(1) b'(1)])
  show "first_offset b = first_offset b'"
    using wf_apart [OF wf b(1) b'(1)] wf_apart [OF wf b'(1) b(1)] b(2) b'(2)
    unfolding covers_def by linarith
qed

lemma batch_at_Some:
  assumes wf: "batches_wf lo hi m"
  shows "batch_at m x = Some b \<longleftrightarrow> b \<in> snd ` set m \<and> covers b x"
proof
  assume "batch_at m x = Some b"
  then have "b \<in> set (map snd m)" "covers b x"
    unfolding batch_at_def by (auto simp: find_Some_iff)
  then show "b \<in> snd ` set m \<and> covers b x" by simp
next
  assume b: "b \<in> snd ` set m \<and> covers b x"
  then obtain b' where b': "batch_at m x = Some b'"
    by (cases "batch_at m x") (auto simp: batch_at_def find_None_iff)
  then have "b' \<in> set (map snd m)" "covers b' x"
    unfolding batch_at_def by (auto simp: find_Some_iff)
  with wf_unique [OF wf, of b x b'] b b' show "batch_at m x = Some b" by auto
qed

lemma batch_at_None: "batch_at m x = None \<longleftrightarrow> (\<forall>b\<in>snd ` set m. \<not> covers b x)"
  by (auto simp: batch_at_def find_None_iff)

lemma offset_view_Some:
  "batches_wf lo hi m \<Longrightarrow>
   offset_view m x = Some a \<longleftrightarrow> (\<exists>b\<in>snd ` set m. covers b x \<and> attrs b = a)"
  by (auto simp: offset_view_def batch_at_Some)

lemma offset_view_None: "offset_view m x = None \<longleftrightarrow> (\<forall>b\<in>snd ` set m. \<not> covers b x)"
  by (simp add: offset_view_def batch_at_None)

lemma offset_view_batch:
  "\<lbrakk>batches_wf lo hi m; b \<in> snd ` set m; covers b x\<rbrakk> \<Longrightarrow> offset_view m x = Some (attrs b)"
  using offset_view_Some by blast

subsection \<open>Replacing a batch by pieces of its range\<close>

text \<open>
  Every operation takes one range out of the map and puts back ranges inside it. The three
  lemmas below are the whole argument for the structural invariant, the per-offset view and
  the timers under such a replacement.
\<close>

definition replaced :: "batch_map \<Rightarrow> InFlightBatch \<Rightarrow> InFlightBatch set \<Rightarrow> batch_map \<Rightarrow> bool" where
  "replaced m b P m' \<longleftrightarrow> bt_sorted m' \<and>
     set m' = (set m - {(first_offset b, b)}) \<union> (\<lambda>p. (first_offset p, p)) ` P \<and>
     (\<forall>p\<in>P. batch_ok p \<and> first_offset b \<le> first_offset p \<and> last_offset p \<le> last_offset b) \<and>
     (\<forall>p\<in>P. \<forall>q\<in>P. first_offset p < first_offset q \<longrightarrow> last_offset p < first_offset q)"

lemma replaced_range:
  assumes wf: "batches_wf lo hi m" and b: "b \<in> snd ` set m" and r: "replaced m b P m'"
  shows "snd ` set m' = (snd ` set m - {b}) \<union> P"
proof -
  have "snd ` (set m - {(first_offset b, b)}) = snd ` set m - {b}"
    using wf_entry [OF wf] by force
  then show ?thesis using r by (simp add: replaced_def image_Un image_image)
qed

lemma replaced_apart:
  assumes wf: "batches_wf lo hi m" and b: "b \<in> snd ` set m"
    and c: "c \<in> snd ` set m" "c \<noteq> b"
  shows "last_offset c < first_offset b \<or> last_offset b < first_offset c"
  using wf_apart [OF wf b c(1)] wf_apart [OF wf c(1) b] wf_same_first [OF wf b c(1)] c(2)
  by (metis linorder_neqE_nat)

lemma batches_wf_replaced:
  assumes wf: "batches_wf lo hi m" and b: "b \<in> snd ` set m" and r: "replaced m b P m'"
  shows "batches_wf lo hi m'"
  unfolding batches_wf_def
proof (intro conjI)
  show "bt_sorted m'" using r by (simp add: replaced_def)
  have entry: "(k, c) \<in> set m' \<Longrightarrow> k = first_offset c" for k c
    using r wf_entry [OF wf] by (auto simp: replaced_def)
  have P: "batch_ok p" "first_offset b \<le> first_offset p" "last_offset p \<le> last_offset b"
    if "p \<in> P" for p
    using r that by (auto simp: replaced_def)
  have le: "first_offset c \<le> last_offset c" if "c \<in> snd ` set m" for c
    using wf_ok [OF wf that] by (simp add: batch_ok_def)
  have set': "c \<in> snd ` set m \<and> c \<noteq> b \<or> c \<in> P" if "(k, c) \<in> set m'" for k c
    using rev_image_eqI [OF that, of c snd] unfolding replaced_range [OF wf b r] by simp
  show "\<forall>(k, c)\<in>set m'. k = first_offset c \<and> batch_ok c \<and> lo \<le> k \<and> last_offset c < hi"
  proof safe
    fix k c assume kc: "(k, c) \<in> set m'"
    show "k = first_offset c" by (rule entry [OF kc])
    then show "batch_ok c" "lo \<le> k" "last_offset c < hi"
      using set' [OF kc] P [of c] wf_ok [OF wf, of c] wf_lo [OF wf, of c] wf_hi [OF wf, of c]
        wf_lo [OF wf b] wf_hi [OF wf b] by auto
  qed
  show "\<forall>(k, c)\<in>set m'. \<forall>(k', c')\<in>set m'. k < k' \<longrightarrow> last_offset c < k'"
  proof safe
    fix k c k' c' assume kc: "(k, c) \<in> set m'" and kc': "(k', c') \<in> set m'" and lt: "k < k'"
    have k: "k = first_offset c" "k' = first_offset c'"
      using entry kc kc' by auto
    consider "c \<in> snd ` set m" "c' \<in> snd ` set m" | "c \<in> P" "c' \<in> P"
      | "c \<in> P" "c' \<in> snd ` set m" "c' \<noteq> b" | "c \<in> snd ` set m" "c \<noteq> b" "c' \<in> P"
      using set' [OF kc] set' [OF kc'] by blast
    then show "last_offset c < k'"
    proof cases
      case 1
      then show ?thesis using wf_apart [OF wf, of c c'] lt k by simp
    next
      case 2
      then show ?thesis using r lt k unfolding replaced_def by blast
    next
      case 3
      then show ?thesis
        using replaced_apart [OF wf b 3(2,3)] P [OF 3(1)] le [OF 3(2)] lt k by linarith
    next
      case 4
      have "first_offset c' \<le> last_offset c'" using P(1) [OF 4(3)] by (simp add: batch_ok_def)
      then show ?thesis
        using replaced_apart [OF wf b 4(1,2)] P [OF 4(3)] lt k by linarith
    qed
  qed
qed

lemma replaced_other:
  assumes wf: "batches_wf lo hi m" and b: "b \<in> snd ` set m" and r: "replaced m b P m'"
    and c: "map_of m k = Some c" "k \<noteq> first_offset b"
  shows "map_of m' k = Some c"
proof -
  have "c \<in> snd ` set m" "k = first_offset c" using c wf_map_of [OF wf] by auto
  moreover from this have "c \<in> snd ` set m'"
    using c(2) replaced_range [OF wf b r] by auto
  ultimately show ?thesis
    using wf_map_of [OF batches_wf_replaced [OF wf b r]] by blast
qed

lemma offset_view_replaced:
  assumes wf: "batches_wf lo hi m" and b: "b \<in> snd ` set m" and r: "replaced m b P m'"
    and cover: "\<And>x. covers b x \<Longrightarrow> \<exists>p\<in>P. covers p x \<and> attrs p = v x"
  shows "offset_view m' x = (if covers b x then Some (v x) else offset_view m x)"
proof -
  note wf' = batches_wf_replaced [OF wf b r]
  note range = replaced_range [OF wf b r]
  show ?thesis
  proof (cases "covers b x")
    case True
    then obtain p where "p \<in> P" "covers p x" "attrs p = v x" using cover by blast
    then show ?thesis using True offset_view_batch [OF wf', of p x] range by auto
  next
    case False
    then have out: "\<not> covers p x" if "p \<in> P" for p
      using that r by (fastforce simp: replaced_def covers_def)
    have "offset_view m' x = Some a \<longleftrightarrow> offset_view m x = Some a" for a
      unfolding offset_view_Some [OF wf] offset_view_Some [OF wf'] range
      using False out by blast
    then show ?thesis using False by (metis not_Some_eq)
  qed
qed

lemma leases_replaced:
  assumes wf: "batches_wf lo hi m" and b: "b \<in> snd ` set m" and r: "replaced m b P m'"
  shows "leases m' = (leases m - {t. lease_timer b = Some t}) \<union> {t. \<exists>p\<in>P. lease_timer p = Some t}"
proof -
  have ne: "lease_timer c \<noteq> Some t"
    if "lease_timer b = Some t" "c \<in> snd ` set m" "c \<noteq> b" for c t
    using wf_same_first [OF wf that(2) b] lease_timer_range [OF that(1)]
      lease_timer_range [of c t] that(3) by auto
  have "t \<in> leases m' \<longleftrightarrow>
      t \<in> (leases m - {t. lease_timer b = Some t}) \<union> {t. \<exists>p\<in>P. lease_timer p = Some t}" for t
    unfolding leases_def replaced_range [OF wf b r] mem_Collect_eq Un_iff Diff_iff
    using ne [of t] by blast
  then show ?thesis by blast
qed

lemma replaced_remove:
  assumes wf: "batches_wf lo hi m" and b: "b \<in> snd ` set m"
  shows "replaced m b {} (bt_remove (first_offset b) m)"
proof -
  have "e = (first_offset b, b)" if "e \<in> set m" "fst e = first_offset b" for e
    using that b eq_key_imp_eq_value [OF bt_sorted_distinct [OF wf_sorted [OF wf]]]
    unfolding wf_member [OF wf] by (metis prod.collapse)
  then have "{e \<in> set m. fst e \<noteq> first_offset b} = set m - {(first_offset b, b)}"
    by fastforce
  then show ?thesis
    by (simp add: replaced_def wf_sorted [OF wf] set_bt_remove [OF wf_sorted [OF wf]])
qed

lemma replaced_insert:
  assumes wf: "batches_wf lo hi m" and b: "b \<in> snd ` set m" and r: "replaced m b P m'"
    and ok: "batch_ok p"
    and inside: "first_offset b \<le> first_offset p" "last_offset p \<le> last_offset b"
    and disj: "\<And>q. q \<in> P \<Longrightarrow> last_offset q < first_offset p \<or> last_offset p < first_offset q"
  shows "replaced m b (insert p P) (bt_insert (first_offset p) p m')"
proof -
  have le: "first_offset q \<le> last_offset q" if "q \<in> insert p P" for q
    using that r ok by (auto simp: replaced_def batch_ok_def)
  have fresh: "fst e \<noteq> first_offset p" if e: "e \<in> set m'" for e
  proof -
    obtain k c where kc: "e = (k, c)" by force
    have k: "k = first_offset c"
      using wf_entry [OF batches_wf_replaced [OF wf b r]] e kc by blast
    have "c \<in> (snd ` set m - {b}) \<union> P"
      unfolding replaced_range [OF wf b r, symmetric] using e kc by (auto intro: rev_image_eqI)
    then consider "c \<in> snd ` set m" "c \<noteq> b" | "c \<in> P" by blast
    then show ?thesis
    proof cases
      case 1
      have "first_offset c \<le> last_offset c" using wf_ok [OF wf 1(1)] by (simp add: batch_ok_def)
      then show ?thesis
        using replaced_apart [OF wf b 1] inside le [of p] kc k by simp linarith
    next
      case 2
      then show ?thesis using disj [OF 2] le [of c] le [of p] kc k by auto
    qed
  qed
  then have "{e \<in> set m'. fst e \<noteq> first_offset p} = set m'" by blast
  then have "set (bt_insert (first_offset p) p m') = insert (first_offset p, p) (set m')"
    using r by (simp add: replaced_def set_bt_insert)
  moreover have "last_offset q < first_offset q'"
    if "q \<in> insert p P" "q' \<in> insert p P" "first_offset q < first_offset q'" for q q'
  proof (cases "q = p \<or> q' = p")
    case True
    then show ?thesis using that disj [of q] disj [of q'] le [OF that(1)] le [OF that(2)] by auto
  next
    case False
    then show ?thesis using that r by (simp add: replaced_def)
  qed
  ultimately show ?thesis
    using r ok inside unfolding replaced_def by simp
qed

lemma replaced_update:
  assumes wf: "batches_wf lo hi m" and b: "b \<in> snd ` set m" and ok: "batch_ok p"
    and same: "first_offset p = first_offset b" "last_offset p = last_offset b"
  shows "replaced m b {p} (bt_insert (first_offset b) p (bt_remove (first_offset b) m))"
  using replaced_insert [OF wf b replaced_remove [OF wf b] ok] same by simp

lemma timers_match_replaced:
  assumes wf: "batches_wf lo hi m" and b: "b \<in> snd ` set m" and r: "replaced m b P m'"
    and ts: "timers_match m ts" and s: "bset_sorted ts'"
    and set: "set ts' = (set ts - {t. lease_timer b = Some t}) \<union> {t. \<exists>p\<in>P. lease_timer p = Some t}"
  shows "timers_match m' ts'"
  using ts s set leases_replaced [OF wf b r] by (simp add: timers_match_def)

lemma set_insert_timer:
  "bset_sorted ts \<Longrightarrow> bset_sorted (insert_timer t ts) \<and> set (insert_timer t ts) = set ts \<union> {x. t = Some x}"
  by (auto simp: insert_timer_def set_insort_insert split: option.split)

lemma set_remove_timer:
  "bset_sorted ts \<Longrightarrow> bset_sorted (remove_timer t ts) \<and> set (remove_timer t ts) = set ts - {x. t = Some x}"
  by (auto simp: remove_timer_def split: option.split)

section \<open>Lease expiry, proved\<close>

fun sweep_attrs :: "instant \<Rightarrow> nat \<Rightarrow> attrs \<Rightarrow> attrs" where
  "sweep_attrs now mda (st, by, at, lt, dc) =
     (case at of
        None \<Rightarrow> (st, by, at, lt, dc)
      | Some a \<Rightarrow>
          if a + lt \<le> now then (if mda \<le> dc then Archived else Available, None, None, lt, dc)
          else (st, by, at, lt, dc))"

fun sweep_dead :: "instant \<Rightarrow> nat \<Rightarrow> attrs \<Rightarrow> bool" where
  "sweep_dead now mda (st, by, at, lt, dc) =
     (case at of None \<Rightarrow> False | Some a \<Rightarrow> a + lt \<le> now \<and> mda \<le> dc)"

lemma sweep_attrs_idem [simp]: "sweep_attrs now mda (sweep_attrs now mda a) = sweep_attrs now mda a"
  by (cases a) (auto split: option.split)

lemma sweep_dead_swept [simp]: "\<not> sweep_dead now mda (sweep_attrs now mda a)"
  by (cases a) (auto split: option.split)

lemma sweep_attrs_live:
  "\<lbrakk>batch_ok b; \<And>t. lease_timer b = Some t \<Longrightarrow> now < expire_at t\<rbrakk>
   \<Longrightarrow> sweep_attrs now mda (attrs b) = attrs b \<and> \<not> sweep_dead now mda (attrs b)"
  by (cases "acquired_by b"; cases "acquired_at b")
     (auto simp: batch_ok_def attrs_def lease_timer_def)

lemma matching_keys_self:
  assumes wf: "batches_wf lo hi m" and b: "b \<in> snd ` set m"
  shows "matching_keys m (first_offset b) (last_offset b) = [first_offset b]"
proof -
  have only: "(case e of (k, c) \<Rightarrow> k \<le> last_offset b \<and> first_offset b \<le> last_offset c) \<longleftrightarrow>
      e = (first_offset b, b)" if e: "e \<in> set m" for e
  proof -
    obtain k c where kc: "e = (k, c)" by force
    with e have c: "c \<in> snd ` set m" "k = first_offset c"
      using wf_entry [OF wf] by (auto intro: rev_image_eqI)
    show ?thesis
      using replaced_apart [OF wf b c(1)] wf_ok [OF wf b] kc c(2)
      by (cases "c = b") (auto simp: batch_ok_def)
  qed
  have "distinct m" using bt_sorted_distinct [OF wf_sorted [OF wf]] by (simp add: distinct_map)
  then have "filter (\<lambda>e. e = (first_offset b, b)) m = [(first_offset b, b)]"
    using b unfolding wf_member [OF wf] by (induction m) (auto simp: filter_empty_conv)
  then show ?thesis
    unfolding matching_keys_def using only by (simp cong: filter_cong)
qed

lemma reap_expired:
  assumes ok: "batch_ok b" and t: "lease_timer b = Some t" and due: "expire_at t \<le> now"
    and r: "reap_batch (timer_member t) now mda b = (b', offs, reaped)"
  shows "first_offset b' = first_offset b" "last_offset b' = last_offset b" "batch_ok b'"
    "attrs b' = sweep_attrs now mda (attrs b)" "lease_timer b' = None" "reaped"
    "set offs = {x. covers b x \<and> sweep_dead now mda (attrs b)}"
proof -
  obtain at w where a: "acquired_at b = Some at" "acquired_by b = Some w"
    and t': "t = ExpiryTimer (at + lock_timeout b) (first_offset b) (last_offset b) w"
    using t by (auto simp: lease_timer_Some)
  have st: "state b = Acquired" using ok a by (simp add: batch_ok_def)
  have late: "at + lock_timeout b \<le> now" "lock_timeout b \<le> now - at" using due t' by auto
  have b': "b' = b\<lparr>state := (if mda \<le> delivery_count b then Archived else Available),
                     acquired_by := None, acquired_at := None\<rparr>"
    and offs: "offs = (if mda \<le> delivery_count b then [first_offset b ..< Suc (last_offset b)] else [])"
    and reaped: "reaped"
    using r a st late t' by (auto simp: reap_batch_def split: if_splits)
  show "first_offset b' = first_offset b" "last_offset b' = last_offset b" "batch_ok b'"
    "attrs b' = sweep_attrs now mda (attrs b)" "lease_timer b' = None"
    using ok a late by (simp_all add: b' batch_ok_def attrs_def lease_timer_def)
  show "set offs = {x. covers b x \<and> sweep_dead now mda (attrs b)}"
    using a late by (auto simp: offs covers_def attrs_def)
  show "reaped" by (rule reaped)
qed

text \<open>One expired timer reaps the one batch it belongs to.\<close>

lemma sweep_step:
  assumes wf: "batches_wf lo hi m" and ts: "timers_match m (t # ts)" and due: "expire_at t \<le> now"
  obtains b b' m' offs where
    "fold (reap_key (timer_member t) now mda) (matching_keys m (timer_first t) (timer_last t))
       (m, dlq, mutated) = (m', dlq @ offs, True)"
    "b \<in> snd ` set m" "replaced m b {b'} m'" "timers_match m' ts"
    "first_offset b' = first_offset b" "last_offset b' = last_offset b"
    "attrs b' = sweep_attrs now mda (attrs b)"
    "set offs = {x. covers b x \<and> sweep_dead now mda (attrs b)}"
proof -
  have "t \<in> leases m" using ts by (auto simp: timers_match_def)
  then obtain b where b: "b \<in> snd ` set m" and t: "lease_timer b = Some t"
    by (auto simp: leases_def)
  obtain b' offs reaped where r: "reap_batch (timer_member t) now mda b = (b', offs, reaped)"
    using prod_cases3 by blast
  note e = reap_expired [OF wf_ok [OF wf b] t due r]
  let ?m' = "bt_insert (first_offset b) b' (bt_remove (first_offset b) m)"
  have rep: "replaced m b {b'} ?m'" by (rule replaced_update [OF wf b e(3) e(1) e(2)])
  have look: "map_of m (first_offset b) = Some b" using wf_map_of [OF wf] b by blast
  show thesis
  proof (rule that [OF _ b rep _ e(1,2,4,7)])
    show "fold (reap_key (timer_member t) now mda) (matching_keys m (timer_first t) (timer_last t))
        (m, dlq, mutated) = (?m', dlq @ offs, True)"
      using lease_timer_range [OF t] matching_keys_self [OF wf b] look r e(6)
      by (simp add: reap_key_def)
    show "timers_match ?m' ts"
      using ts t e(5) by (intro timers_match_replaced [OF wf b rep ts]) (auto simp: timers_match_def)
  qed
qed

definition swept ::
  "instant \<Rightarrow> nat \<Rightarrow> batch_map \<times> offset list \<Rightarrow> batch_map \<times> offset list \<Rightarrow> bool" where
  "swept now mda pre post \<longleftrightarrow>
     (\<forall>x. offset_view (fst post) x = map_option (sweep_attrs now mda) (offset_view (fst pre) x)) \<and>
     set (snd post) =
       set (snd pre) \<union> {x. \<exists>a. offset_view (fst pre) x = Some a \<and> sweep_dead now mda a}"

lemma swept_idle:
  assumes wf: "batches_wf lo hi m" and ts: "timers_match m ts" and idle: "\<forall>t\<in>set ts. now < expire_at t"
  shows "swept now mda (m, dlq) (m, dlq)"
proof -
  have "sweep_attrs now mda (attrs b) = attrs b \<and> \<not> sweep_dead now mda (attrs b)"
    if "b \<in> snd ` set m" for b
    using that ts idle wf_ok [OF wf that]
    by (intro sweep_attrs_live) (auto simp: timers_match_def leases_def)
  then have fix_view: "sweep_attrs now mda a = a \<and> \<not> sweep_dead now mda a"
    if "offset_view m x = Some a" for x a
    using that offset_view_Some [OF wf, of x a] by blast
  have view: "map_option (sweep_attrs now mda) (offset_view m x) = offset_view m x" for x
    using fix_view by (cases "offset_view m x") auto
  have none: "{x. \<exists>a. offset_view m x = Some a \<and> sweep_dead now mda a} = {}"
    using fix_view by blast
  show ?thesis by (simp only: swept_def fst_conv snd_conv view none Un_empty_right simp_thms)
qed

lemma swept_step:
  assumes wf: "batches_wf lo hi m" and b: "b \<in> snd ` set m" and r: "replaced m b {b'} m'"
    and same: "first_offset b' = first_offset b" "last_offset b' = last_offset b"
      "attrs b' = sweep_attrs now mda (attrs b)"
    and offs: "set offs = {x. covers b x \<and> sweep_dead now mda (attrs b)}"
    and post: "swept now mda (m', dlq @ offs) post"
  shows "swept now mda (m, dlq) post"
proof -
  have view: "offset_view m' x = (if covers b x then Some (sweep_attrs now mda (attrs b))
                                  else offset_view m x)" for x
    using same by (intro offset_view_replaced [OF wf b r]) (simp add: covers_def)
  have old: "offset_view m x = Some (attrs b)" if "covers b x" for x
    by (rule offset_view_batch [OF wf b that])
  have "map_option (sweep_attrs now mda) (offset_view m' x) =
      map_option (sweep_attrs now mda) (offset_view m x)" for x
    by (simp add: view old)
  moreover have "(\<exists>a. offset_view m x = Some a \<and> sweep_dead now mda a) \<longleftrightarrow>
      x \<in> set offs \<or> (\<exists>a. offset_view m' x = Some a \<and> sweep_dead now mda a)" for x
    by (cases "covers b x") (simp_all add: view old offs del: split_paired_Ex)
  ultimately show ?thesis using post unfolding swept_def by auto
qed

lemma sweep_loop_spec:
  assumes "batches_wf lo hi m" "timers_match m ts"
    and "sweep_loop now mda ts (m, dlq, mutated) = (ts', m', dlq', mutated')"
  shows "batches_wf lo hi m' \<and> timers_match m' ts' \<and> (\<forall>t\<in>set ts'. now < expire_at t) \<and>
     swept now mda (m, dlq) (m', dlq') \<and>
     (mutated' \<longleftrightarrow> mutated \<or> (\<exists>t\<in>set ts. expire_at t \<le> now)) \<and>
     ((\<forall>t\<in>set ts. now < expire_at t) \<longrightarrow> m' = m)"
  using assms
proof (induction ts arbitrary: m dlq mutated)
  case Nil
  then show ?case using swept_idle [of lo hi m "[]"] by simp
next
  case (Cons t ts)
  show ?case
  proof (cases "now < expire_at t")
    case True
    have "t \<le> u" if "u \<in> set ts" for u
      using Cons.prems(2) that by (auto simp: timers_match_def)
    then have idle: "\<forall>u\<in>set (t # ts). now < expire_at u"
      using True timer_less_expire_at by (fastforce simp: le_less)
    then show ?thesis
      using Cons.prems True swept_idle [OF Cons.prems(1,2) idle] by (auto simp: not_less [symmetric])
  next
    case False
    then have due: "expire_at t \<le> now" by simp
    obtain b b' m1 offs where step:
      "fold (reap_key (timer_member t) now mda) (matching_keys m (timer_first t) (timer_last t))
         (m, dlq, mutated) = (m1, dlq @ offs, True)"
      "b \<in> snd ` set m" "replaced m b {b'} m1" "timers_match m1 ts"
      "first_offset b' = first_offset b" "last_offset b' = last_offset b"
      "attrs b' = sweep_attrs now mda (attrs b)"
      "set offs = {x. covers b x \<and> sweep_dead now mda (attrs b)}"
      by (rule sweep_step [OF Cons.prems(1,2) due])
    have "sweep_loop now mda ts (m1, dlq @ offs, True) = (ts', m', dlq', mutated')"
      using Cons.prems(3) False step(1) by simp
    note IH = Cons.IH [OF batches_wf_replaced [OF Cons.prems(1) step(2,3)] step(4) this]
    have "swept now mda (m, dlq) (m', dlq')"
      using IH by (intro swept_step [OF Cons.prems(1) step(2,3,5,6,7,8)]) blast
    with IH due show ?thesis by auto
  qed
qed

section \<open>Watermark, proved\<close>

lemma offset_view_Cons:
  "offset_view ((k, b) # m) x = (if covers b x then Some (attrs b) else offset_view m x)"
  by (simp add: offset_view_def batch_at_def)

lemma leases_Cons: "leases ((k, b) # m) = {t. lease_timer b = Some t} \<union> leases m"
  by (auto simp: leases_def)

lemma batches_wf_Cons:
  assumes wf: "batches_wf lo hi ((k, b) # m)"
  shows "k = first_offset b" "batch_ok b" "lo \<le> k" "last_offset b < hi"
    "batches_wf (Suc (last_offset b)) hi m"
proof -
  show head: "k = first_offset b" "batch_ok b" "lo \<le> k" "last_offset b < hi"
    using wf_all [OF wf, of k b] by simp_all
  show "batches_wf (Suc (last_offset b)) hi m"
    unfolding batches_wf_def
  proof (intro conjI)
    show "bt_sorted m" using wf_sorted [OF wf] by simp
    show "\<forall>(k', c)\<in>set m. k' = first_offset c \<and> batch_ok c \<and> Suc (last_offset b) \<le> k' \<and> last_offset c < hi"
    proof (intro ballI, clarify)
      fix k' c assume kc: "(k', c) \<in> set m"
      then have "k < k'" using wf_sorted [OF wf] by auto
      then show "k' = first_offset c \<and> batch_ok c \<and> Suc (last_offset b) \<le> k' \<and> last_offset c < hi"
        using kc wf_all [OF wf, of k' c] wf_pair [OF wf, of k b k' c] by simp
    qed
    show "\<forall>(k, c)\<in>set m. \<forall>(k', c')\<in>set m. k < k' \<longrightarrow> last_offset c < k'"
      by (intro ballI, clarify) (rule wf_pair [OF wf], auto)
  qed
qed

lemma batches_wf_weaken: "\<lbrakk>batches_wf lo hi m; lo' \<le> lo; hi \<le> hi'\<rbrakk> \<Longrightarrow> batches_wf lo' hi' m"
  unfolding batches_wf_def by (elim conjE, intro conjI) (assumption, force, assumption)

lemma offset_view_below: "\<lbrakk>batches_wf lo hi m; x < lo\<rbrakk> \<Longrightarrow> offset_view m x = None"
  using wf_lo unfolding offset_view_None covers_def by (meson leD le_less_trans)

lemma advance_watermark_spec:
  assumes "batches_wf lo hi m" "lo \<le> hi" "hi < 2 ^ 64" "advance_watermark lo m = (lo', m')"
  shows "lo \<le> lo' \<and> lo' \<le> hi \<and> batches_wf lo' hi m' \<and> settled lo' m' \<and> leases m' = leases m \<and>
     (\<forall>x. offset_view m' x = (if x < lo' then None else offset_view m x)) \<and>
     (\<forall>x. lo \<le> x \<and> x < lo' \<longrightarrow> (\<exists>b\<in>snd ` set m. covers b x \<and> terminal (state b)))"
  using assms
proof (induction m arbitrary: lo)
  case Nil
  then show ?case by (auto simp: settled_def offset_view_def batch_at_def)
next
  case (Cons e m)
  obtain k b where e: "e = (k, b)" by force
  note wf = Cons.prems(1) [unfolded e]
  note c = batches_wf_Cons [OF wf]
  show ?case
  proof (cases "k = lo \<and> terminal (state b)")
    case True
    have lb: "add64 (last_offset b) 1 = Suc (last_offset b)"
      using c(4) Cons.prems(3) by (simp add: add64_exact)
    have adv: "advance_watermark (Suc (last_offset b)) m = (lo', m')"
      using Cons.prems(4) True e lb by (auto simp: terminal_def)
    note IH = Cons.IH [OF c(5) _ Cons.prems(3) adv]
    have none: "lease_timer b = None"
      using c(2) True by (auto simp: batch_ok_def terminal_def lease_timer_def split: option.split)
    have ge: "lo \<le> last_offset b" using c True by (simp add: batch_ok_def)
    show ?thesis
      using IH c(1,4) True ge none e
      by (auto simp: offset_view_Cons leases_Cons covers_def not_less_eq_eq)
  next
    case False
    then have res: "lo' = lo" "m' = e # m"
      using Cons.prems(4) e by (auto simp: terminal_def split: if_splits)
    have "map_of m lo = None" if "k \<noteq> lo"
      using that c(3) wf_sorted [OF wf] by (force simp: map_of_eq_None_iff)
    then have "settled lo (e # m)"
      using False e by (auto simp: settled_def)
    then show ?thesis
      using res Cons.prems(1,2) offset_view_below [OF Cons.prems(1)] by auto
  qed
qed

lemma advance_watermark_settled:
  "settled lo m \<Longrightarrow> bt_sorted m \<Longrightarrow> advance_watermark lo m = (lo, m)"
  by (cases m) (auto simp: settled_def terminal_def)

lemma finish_simps [simp]:
  "next_fetch_offset (finish m ts mutated sp) = next_fetch_offset sp"
  "timers (finish m ts mutated sp) = ts"
  "max_delivery_attempts (finish m ts mutated sp) = max_delivery_attempts sp"
  "default_lock_timeout (finish m ts mutated sp) = default_lock_timeout sp"
  "sp_topic (finish m ts mutated sp) = sp_topic sp"
  "sp_partition (finish m ts mutated sp) = sp_partition sp"
  "sp_group_id (finish m ts mutated sp) = sp_group_id sp"
  "state_version (finish m ts mutated sp) =
     (if mutated then add64 (state_version sp) 1 else state_version sp)"
  by (simp_all add: finish_def split: prod.split)

lemma finish_spec:
  assumes wf: "batches_wf (start_offset sp) (next_fetch_offset sp) m" and ts: "timers_match m ts"
    and le: "start_offset sp \<le> next_fetch_offset sp" and lt: "next_fetch_offset sp < 2 ^ 64"
  shows "share_inv (finish m ts mutated sp)"
    and "start_offset sp \<le> start_offset (finish m ts mutated sp)"
    and "offset_view (batches (finish m ts mutated sp)) x =
         (if x < start_offset (finish m ts mutated sp) then None else offset_view m x)"
    and "\<lbrakk>start_offset sp \<le> x; x < start_offset (finish m ts mutated sp)\<rbrakk>
         \<Longrightarrow> \<exists>a. offset_view m x = Some a \<and> terminal (fst a)"
proof -
  obtain lo' m' where adv: "advance_watermark (start_offset sp) m = (lo', m')" by force
  note spec = advance_watermark_spec [OF wf le lt adv]
  have sel: "start_offset (finish m ts mutated sp) = lo'" "batches (finish m ts mutated sp) = m'"
    by (simp_all add: finish_def adv)
  show "share_inv (finish m ts mutated sp)"
    using spec ts lt by (simp add: share_inv_def sel timers_match_def)
  show "start_offset sp \<le> start_offset (finish m ts mutated sp)" using spec by (simp add: sel)
  show "offset_view (batches (finish m ts mutated sp)) x =
      (if x < start_offset (finish m ts mutated sp) then None else offset_view m x)"
    using spec by (simp add: sel)
  show "\<exists>a. offset_view m x = Some a \<and> terminal (fst a)"
    if x: "start_offset sp \<le> x" "x < start_offset (finish m ts mutated sp)"
  proof -
    obtain b where b: "b \<in> snd ` set m" "covers b x" "terminal (state b)"
      using spec x unfolding sel by blast
    then show ?thesis using offset_view_batch [OF wf b(1,2)] by (simp add: attrs_def)
  qed
qed

lemma share_invD:
  assumes "share_inv sp"
  shows "batches_wf (start_offset sp) (next_fetch_offset sp) (batches sp)"
    "timers_match (batches sp) (timers sp)" "start_offset sp \<le> next_fetch_offset sp"
    "next_fetch_offset sp < 2 ^ 64" "settled (start_offset sp) (batches sp)"
  using assms by (simp_all add: share_inv_def)

lemma finish_idle:
  "\<lbrakk>share_inv sp; \<not> mutated\<rbrakk> \<Longrightarrow> finish (batches sp) (timers sp) mutated sp = sp"
  by (simp add: finish_def advance_watermark_settled share_invD(5) wf_sorted [OF share_invD(1)])

lemma sweep_timers_internal_spec:
  assumes inv: "share_inv sp" and res: "sweep_timers_internal now sp = (sp', dlq)"
  shows "share_inv sp'" "\<forall>t\<in>set (timers sp'). now < expire_at t"
    "offset_view (batches sp') x =
       (if x < start_offset sp' then None
        else map_option (sweep_attrs now (max_delivery_attempts sp)) (offset_view (batches sp) x))"
    "set dlq = {x. \<exists>a. offset_view (batches sp) x = Some a \<and>
                       sweep_dead now (max_delivery_attempts sp) a}"
    "start_offset sp \<le> start_offset sp'" "next_fetch_offset sp' = next_fetch_offset sp"
    "\<lbrakk>start_offset sp \<le> x; x < start_offset sp'\<rbrakk>
     \<Longrightarrow> \<exists>a. offset_view (batches sp) x = Some a \<and>
            terminal (fst (sweep_attrs now (max_delivery_attempts sp) a))"
    "max_delivery_attempts sp' = max_delivery_attempts sp"
    "default_lock_timeout sp' = default_lock_timeout sp"
    "sp' \<noteq> sp \<Longrightarrow> state_version sp' = add64 (state_version sp) 1"
proof -
  note i = share_invD [OF inv]
  obtain ts m d mut where loop:
    "sweep_loop now (max_delivery_attempts sp) (timers sp) (batches sp, [], False) = (ts, m, d, mut)"
    using prod_cases4 by blast
  note l = sweep_loop_spec [OF i(1,2) loop, THEN conjunct1]
    sweep_loop_spec [OF i(1,2) loop, THEN conjunct2, THEN conjunct1]
    sweep_loop_spec [OF i(1,2) loop, THEN conjunct2, THEN conjunct2]
  have sp': "sp' = finish m ts mut sp" "dlq = d"
    using res loop by (simp_all add: sweep_timers_internal_def)
  note f = finish_spec [where mutated = mut, OF l(1,2) i(3,4)]
  have view: "offset_view m x = map_option (sweep_attrs now (max_delivery_attempts sp))
      (offset_view (batches sp) x)" for x
    using l(3) by (simp add: swept_def)
  show "share_inv sp'" "start_offset sp \<le> start_offset sp'" using f(1,2) sp' by simp_all
  show "\<forall>t\<in>set (timers sp'). now < expire_at t" using l(3) sp' by simp
  show "offset_view (batches sp') x =
       (if x < start_offset sp' then None
        else map_option (sweep_attrs now (max_delivery_attempts sp)) (offset_view (batches sp) x))"
    using f(3) [of x] sp' view by simp
  show "set dlq = {x. \<exists>a. offset_view (batches sp) x = Some a \<and>
      sweep_dead now (max_delivery_attempts sp) a}"
    using l(3) sp' by (simp add: swept_def del: split_paired_Ex)
  show "next_fetch_offset sp' = next_fetch_offset sp"
    "max_delivery_attempts sp' = max_delivery_attempts sp"
    "default_lock_timeout sp' = default_lock_timeout sp" using sp' by simp_all
  show "\<exists>a. offset_view (batches sp) x = Some a \<and>
      terminal (fst (sweep_attrs now (max_delivery_attempts sp) a))"
    if "start_offset sp \<le> x" "x < start_offset sp'"
    using f(4) [of x] that sp' view [of x] by (auto simp del: split_paired_Ex)
  show "state_version sp' = add64 (state_version sp) 1" if ne: "sp' \<noteq> sp"
  proof (cases mut)
    case True
    then show ?thesis using sp' by simp
  next
    case False
    then have idle: "\<forall>t\<in>set (timers sp). now < expire_at t" using l(3) by auto
    then have "m = batches sp" using l(3) by blast
    moreover have "ts = timers sp"
    proof -
      have "set ts = set (timers sp)"
        using l(2) i(2) \<open>m = batches sp\<close> by (simp add: timers_match_def)
      then show ?thesis
        using l(2) i(2) by (simp add: timers_match_def strict_sorted_equal)
    qed
    ultimately have "sp' = sp" using sp' finish_idle [OF inv False] False by simp
    with ne show ?thesis by simp
  qed
qed

section \<open>Acknowledgement, proved\<close>

fun ack_attrs :: "string \<Rightarrow> instant \<Rightarrow> nat \<Rightarrow> AcknowledgeType \<Rightarrow> attrs \<Rightarrow> attrs" where
  "ack_attrs member now mda ty (st, by, at, lt, dc) =
     (if st = Acquired \<and> by = Some member
      then (case ty of
              Accept \<Rightarrow> (Acknowledged, None, None, lt, dc)
            | Release \<Rightarrow> (if mda \<le> dc then Archived else Available, None, None, lt, dc)
            | Reject \<Rightarrow> (Archived, None, None, lt, dc)
            | Renew \<Rightarrow> (Acquired, Some member, Some now, lt, dc)
            | Yield \<Rightarrow> (Available, None, None, lt, dc - 1))
      else (st, by, at, lt, dc))"

fun ack_dead :: "string \<Rightarrow> nat \<Rightarrow> AcknowledgeType \<Rightarrow> attrs \<Rightarrow> bool" where
  "ack_dead member mda ty (st, by, at, lt, dc) \<longleftrightarrow>
     st = Acquired \<and> by = Some member \<and> (ty = Reject \<or> ty = Release \<and> mda \<le> dc)"

definition owned :: "string \<Rightarrow> InFlightBatch \<Rightarrow> bool" where
  "owned member b \<longleftrightarrow> state b = Acquired \<and> acquired_by b = Some member"

definition in_ack :: "AckBatch \<Rightarrow> offset \<Rightarrow> bool" where
  "in_ack ack x \<longleftrightarrow> ack_first ack \<le> x \<and> x \<le> ack_last ack"

lemma ack_attrs_not_owned: "\<not> owned member b \<Longrightarrow> ack_attrs member now mda ty (attrs b) = attrs b"
  by (auto simp: owned_def attrs_def)

lemma ack_dead_owned: "ack_dead member mda ty (attrs b) \<Longrightarrow> owned member b"
  by (simp add: owned_def attrs_def)

text \<open>
  The pieces an acknowledgement leaves of a leased batch: the slices outside the
  acknowledged range keep the lease, the slice inside gets the new attributes.
\<close>

definition ack_middle ::
  "string \<Rightarrow> instant \<Rightarrow> nat \<Rightarrow> AckBatch \<Rightarrow> InFlightBatch \<Rightarrow> InFlightBatch" where
  "ack_middle member now mda ack b =
     (case ack_attrs member now mda (ack_type ack) (attrs b) of (st, by, at, lt, dc) \<Rightarrow>
        \<lparr>first_offset = max (first_offset b) (ack_first ack),
         last_offset = min (last_offset b) (ack_last ack),
         state = st, acquired_by = by, acquired_at = at, lock_timeout = lt, delivery_count = dc\<rparr>)"

definition ack_left :: "AckBatch \<Rightarrow> InFlightBatch \<Rightarrow> InFlightBatch" where
  "ack_left ack b = b\<lparr>last_offset := ack_first ack - 1\<rparr>"

definition ack_right :: "AckBatch \<Rightarrow> InFlightBatch \<Rightarrow> InFlightBatch" where
  "ack_right ack b = b\<lparr>first_offset := ack_last ack + 1\<rparr>"

definition ack_pieces ::
  "string \<Rightarrow> instant \<Rightarrow> nat \<Rightarrow> AckBatch \<Rightarrow> InFlightBatch \<Rightarrow> InFlightBatch set" where
  "ack_pieces member now mda ack b =
     (if last_offset b > ack_last ack then {ack_right ack b} else {}) \<union>
     {ack_middle member now mda ack b} \<union>
     (if first_offset b < ack_first ack then {ack_left ack b} else {})"

definition overlaps :: "AckBatch \<Rightarrow> InFlightBatch \<Rightarrow> bool" where
  "overlaps ack b \<longleftrightarrow> first_offset b \<le> ack_last ack \<and> ack_first ack \<le> last_offset b"

lemma attrs_ack_middle:
  "attrs (ack_middle member now mda ack b) = ack_attrs member now mda (ack_type ack) (attrs b)"
  by (auto simp: ack_middle_def attrs_def split: prod.split)

lemma ack_middle_range [simp]:
  "first_offset (ack_middle member now mda ack b) = max (first_offset b) (ack_first ack)"
  "last_offset (ack_middle member now mda ack b) = min (last_offset b) (ack_last ack)"
  by (simp_all add: ack_middle_def split: prod.split)

lemma ack_side_simps [simp]:
  "first_offset (ack_left ack b) = first_offset b" "last_offset (ack_left ack b) = ack_first ack - 1"
  "first_offset (ack_right ack b) = ack_last ack + 1" "last_offset (ack_right ack b) = last_offset b"
  "attrs (ack_left ack b) = attrs b" "attrs (ack_right ack b) = attrs b"
  by (simp_all add: ack_left_def ack_right_def attrs_def)

lemma batch_ok_pieces:
  assumes "batch_ok b" "owned member b" "overlaps ack b" "ack_first ack \<le> ack_last ack"
  shows "batch_ok (ack_middle member now mda ack b)"
    "first_offset b < ack_first ack \<Longrightarrow> batch_ok (ack_left ack b)"
    "ack_last ack < last_offset b \<Longrightarrow> batch_ok (ack_right ack b)"
  using assms
  by (auto simp: batch_ok_def ack_middle_def ack_left_def ack_right_def overlaps_def owned_def attrs_def
      split: AcknowledgeType.split)

lemma ack_cover:
  assumes "overlaps ack b" "covers b x" "ack_first ack \<le> ack_last ack"
  shows "\<exists>p\<in>ack_pieces member now mda ack b. covers p x \<and>
     attrs p = (if in_ack ack x then ack_attrs member now mda (ack_type ack) (attrs b) else attrs b)"
proof -
  consider "in_ack ack x" | "x < ack_first ack" | "ack_last ack < x"
    unfolding in_ack_def by linarith
  then show ?thesis
  proof cases
    case 1
    then show ?thesis using assms
      by (intro bexI [of _ "ack_middle member now mda ack b"])
         (auto simp: attrs_ack_middle covers_def in_ack_def ack_pieces_def)
  next
    case 2
    then show ?thesis using assms
      by (intro bexI [of _ "ack_left ack b"]) (auto simp: covers_def in_ack_def ack_pieces_def)
  next
    case 3
    then show ?thesis using assms
      by (intro bexI [of _ "ack_right ack b"]) (auto simp: covers_def in_ack_def ack_pieces_def)
  qed
qed

lemma apply_ack_eq:
  assumes "owned member b"
  shows "apply_ack member now mda (ack_type ack) b (max (first_offset b) (ack_first ack))
      (min (last_offset b) (ack_last ack)) ts =
     (state (ack_middle member now mda ack b), delivery_count (ack_middle member now mda ack b),
      (if ack_dead member mda (ack_type ack) (attrs b)
       then [max (first_offset b) (ack_first ack) ..< Suc (min (last_offset b) (ack_last ack))] else []),
      insert_timer (lease_timer (ack_middle member now mda ack b)) ts)"
  using assms
  by (auto simp: apply_ack_def ack_middle_def attrs_def owned_def insert_timer_def lease_timer_def
      split: AcknowledgeType.split)

lemma ack_middle_record:
  assumes "owned member b" "mid = ack_middle member now mda ack b"
  shows "\<lparr>first_offset = max (first_offset b) (ack_first ack),
      last_offset = min (last_offset b) (ack_last ack), state = state mid,
      acquired_by = (if state mid = Acquired then Some member else None),
      acquired_at = (if state mid = Acquired then Some now else None),
      lock_timeout = lock_timeout b, delivery_count = delivery_count mid\<rparr> = mid"
  using assms
  by (auto simp: ack_middle_def attrs_def owned_def split: AcknowledgeType.split)

lemma ack_batch_eq:
  assumes own: "owned member b" and ov: "overlaps ack b" and le: "ack_first ack \<le> ack_last ack"
    and ok: "batch_ok b" and lt: "last_offset b < 2 ^ 64 - 1"
  shows "ack_batch member now mda ack b (m0, ts0, dlq, mutated) =
    (let mid = ack_middle member now mda ack b;
         ts1 = remove_timer (lease_timer b) ts0;
         (m1, ts2) = (if first_offset b < ack_first ack
                      then (bt_insert (first_offset b) (ack_left ack b) m0,
                            insert_timer (lease_timer (ack_left ack b)) ts1)
                      else (m0, ts1));
         m2 = bt_insert (first_offset mid) mid m1;
         ts3 = insert_timer (lease_timer mid) ts2;
         (m3, ts4) = (if ack_last ack < last_offset b
                      then (bt_insert (first_offset (ack_right ack b)) (ack_right ack b) m2,
                            insert_timer (lease_timer (ack_right ack b)) ts3)
                      else (m2, ts3))
     in (m3, ts4,
         dlq @ (if ack_dead member mda (ack_type ack) (attrs b)
                then [first_offset mid ..< Suc (last_offset mid)] else []), True))"
proof -
  define mid where "mid = ack_middle member now mda ack b"
  have f: "ack_first ack < 2 ^ 64" "ack_first ack \<le> last_offset b" "first_offset b \<le> ack_last ack"
    using ov lt by (auto simp: overlaps_def)
  have lo: "first_offset b < max (first_offset b) (ack_first ack) \<longleftrightarrow> first_offset b < ack_first ack"
    by auto
  have hi: "min (last_offset b) (ack_last ack) < last_offset b \<longleftrightarrow> ack_last ack < last_offset b"
    by auto
  have left: "b\<lparr>last_offset := sub64 (max (first_offset b) (ack_first ack)) 1\<rparr> = ack_left ack b"
    if "first_offset b < ack_first ack"
    using that f by (simp add: ack_left_def sub64_exact max_def)
  have right: "add64 (min (last_offset b) (ack_last ack)) 1 = ack_last ack + 1"
    "b\<lparr>first_offset := ack_last ack + 1\<rparr> = ack_right ack b"
    if "ack_last ack < last_offset b"
    using that lt by (simp_all add: ack_right_def add64_exact min_def)
  show ?thesis
    unfolding ack_batch_def Let_def apply_ack_eq [OF own] prod.case lo hi
      ack_middle_record [OF own refl]
    using left right by (auto simp: split_def)
qed

lemma ack_batch_spec:
  assumes wf: "batches_wf lo hi m" and hi: "hi < 2 ^ 64" and b: "b \<in> snd ` set m"
    and ts: "timers_match m ts"
    and own: "owned member b" and ov: "overlaps ack b" and le: "ack_first ack \<le> ack_last ack"
    and res: "ack_batch member now mda ack b (bt_remove (first_offset b) m, ts, dlq, mutated) =
      (m', ts', dlq', mutated')"
  shows "replaced m b (ack_pieces member now mda ack b) m'" "timers_match m' ts'" "mutated'"
    "set dlq' = set dlq \<union> {x. covers b x \<and> in_ack ack x \<and> ack_dead member mda (ack_type ack) (attrs b)}"
proof -
  let ?mid = "ack_middle member now mda ack b" and ?l = "ack_left ack b" and ?r = "ack_right ack b"
  note ok = wf_ok [OF wf b]
  note okp = batch_ok_pieces [OF ok own ov le]
  have range: "first_offset b \<le> last_offset b" "ack_first ack \<le> last_offset b"
    "first_offset b \<le> ack_last ack"
    using ok ov by (auto simp: batch_ok_def overlaps_def)
  have lt: "last_offset b < 2 ^ 64 - 1" using wf_hi [OF wf b] hi by simp
  note eq = ack_batch_eq [OF own ov le ok lt, of now mda _ ts dlq mutated, unfolded Let_def split_def]
  define PL where "PL = (if first_offset b < ack_first ack then {?l} else {})"
  define m1 where "m1 = (if first_offset b < ack_first ack
    then bt_insert (first_offset b) ?l (bt_remove (first_offset b) m) else bt_remove (first_offset b) m)"
  define m2 where "m2 = bt_insert (first_offset ?mid) ?mid m1"
  have r1: "replaced m b PL m1"
    using replaced_remove [OF wf b] okp(2) range
      replaced_insert [OF wf b replaced_remove [OF wf b], of ?l]
    by (simp add: PL_def m1_def)
  have r2: "replaced m b (insert ?mid PL) m2"
    unfolding m2_def using range le
    by (intro replaced_insert [OF wf b r1 okp(1)]) (auto simp: PL_def split: if_splits)
  have m': "m' = (if ack_last ack < last_offset b then bt_insert (first_offset ?r) ?r m2 else m2)"
    using res unfolding eq m1_def m2_def by (auto split: if_splits)
  have pieces: "ack_pieces member now mda ack b =
      (if ack_last ack < last_offset b then insert ?r (insert ?mid PL) else insert ?mid PL)"
    by (auto simp: ack_pieces_def PL_def)
  show "replaced m b (ack_pieces member now mda ack b) m'"
  proof (cases "ack_last ack < last_offset b")
    case True
    have "replaced m b (insert ?r (insert ?mid PL)) (bt_insert (first_offset ?r) ?r m2)"
      using range le True
      by (intro replaced_insert [OF wf b r2 okp(3)]) (auto simp: PL_def split: if_splits)
    then show ?thesis using True m' by (simp add: pieces)
  next
    case False
    then show ?thesis using r2 m' by (simp add: pieces)
  qed
  define t1 where "t1 = remove_timer (lease_timer b) ts"
  define t2 where "t2 = (if first_offset b < ack_first ack then insert_timer (lease_timer ?l) t1 else t1)"
  define t3 where "t3 = insert_timer (lease_timer ?mid) t2"
  have t': "ts' = (if ack_last ack < last_offset b then insert_timer (lease_timer ?r) t3 else t3)"
    using res unfolding eq t1_def t2_def t3_def by (auto split: if_splits)
  have s1: "bset_sorted t1 \<and> set t1 = set ts - {t. lease_timer b = Some t}"
    using ts by (simp add: t1_def timers_match_def set_remove_timer)
  have s2: "bset_sorted t2 \<and> set t2 = set t1 \<union> {t. \<exists>p\<in>PL. lease_timer p = Some t}"
    using s1 by (simp add: t2_def PL_def set_insert_timer)
  have s3: "bset_sorted t3 \<and> set t3 = set t1 \<union> {t. \<exists>p\<in>insert ?mid PL. lease_timer p = Some t}"
    using s2 set_insert_timer [of t2 "lease_timer ?mid"] by (auto simp: t3_def)
  have "bset_sorted ts' \<and>
      set ts' = set t1 \<union> {t. \<exists>p\<in>ack_pieces member now mda ack b. lease_timer p = Some t}"
    unfolding pieces t' using s3 set_insert_timer [of t3 "lease_timer ?r"] by auto
  moreover note \<open>replaced m b (ack_pieces member now mda ack b) m'\<close>
  ultimately show "timers_match m' ts'" 
    using s1 by (intro timers_match_replaced [OF wf b _ ts]) auto
  show "mutated'" using res unfolding eq by simp
  show "set dlq' = set dlq \<union>
      {x. covers b x \<and> in_ack ack x \<and> ack_dead member mda (ack_type ack) (attrs b)}"
    using res unfolding eq by (auto simp: covers_def in_ack_def)
qed

definition touched :: "batch_map \<Rightarrow> offset list \<Rightarrow> offset \<Rightarrow> bool" where
  "touched m ks x \<longleftrightarrow> (\<exists>k\<in>set ks. \<exists>b. map_of m k = Some b \<and> covers b x)"

lemma touched_Cons:
  "touched m (k # ks) x \<longleftrightarrow> (\<exists>b. map_of m k = Some b \<and> covers b x) \<or> touched m ks x"
  by (auto simp: touched_def)

definition acked ::
  "string \<Rightarrow> instant \<Rightarrow> nat \<Rightarrow> AckBatch \<Rightarrow> (offset \<Rightarrow> bool)
    \<Rightarrow> batch_map \<times> offset list \<Rightarrow> batch_map \<times> offset list \<Rightarrow> bool" where
  "acked member now mda ack T pre post \<longleftrightarrow>
     (\<forall>x. offset_view (fst post) x =
        (if in_ack ack x \<and> T x
         then map_option (ack_attrs member now mda (ack_type ack)) (offset_view (fst pre) x)
         else offset_view (fst pre) x)) \<and>
     set (snd post) = set (snd pre) \<union>
       {x. in_ack ack x \<and> T x \<and>
           (\<exists>a. offset_view (fst pre) x = Some a \<and> ack_dead member mda (ack_type ack) a)}"

lemma acked_trans:
  assumes "acked member now mda ack T m m1" "acked member now mda ack T' m1 m2"
    and "\<And>x. \<not> (T x \<and> T' x)"
  shows "acked member now mda ack (\<lambda>x. T x \<or> T' x) m m2"
  using assms unfolding acked_def by (simp del: split_paired_Ex) (auto simp del: split_paired_Ex)

lemma ack_key_spec:
  assumes wf: "batches_wf lo hi m" and hi: "hi < 2 ^ 64" and ts: "timers_match m ts"
    and k: "map_of m k = Some b" and ov: "overlaps ack b" and le: "ack_first ack \<le> ack_last ack"
    and res: "ack_key member now mda ack k (m, ts, dlq, mutated) = (m', ts', dlq', mutated')"
  shows "batches_wf lo hi m'" "timers_match m' ts'"
    "acked member now mda ack (covers b) (m, dlq) (m', dlq')"
    "\<And>k' c. \<lbrakk>k' \<noteq> k; map_of m k' = Some c\<rbrakk> \<Longrightarrow> map_of m' k' = Some c"
    "mutated' \<longleftrightarrow> mutated \<or> owned member b" "\<not> owned member b \<Longrightarrow> m' = m \<and> ts' = ts \<and> dlq' = dlq"
proof -
  have b: "b \<in> snd ` set m" "k = first_offset b" using wf_map_of [OF wf] k by auto
  have old: "offset_view m x = Some (attrs b)" if "covers b x" for x
    by (rule offset_view_batch [OF wf b(1) that])
  have "batches_wf lo hi m' \<and> timers_match m' ts' \<and>
    acked member now mda ack (covers b) (m, dlq) (m', dlq') \<and>
    (\<forall>k' c. k' \<noteq> k \<longrightarrow> map_of m k' = Some c \<longrightarrow> map_of m' k' = Some c) \<and>
    (mutated' \<longleftrightarrow> mutated \<or> owned member b) \<and>
    (\<not> owned member b \<longrightarrow> m' = m \<and> ts' = ts \<and> dlq' = dlq)"
  proof (cases "owned member b")
    case True
    then have "ack_batch member now mda ack b (bt_remove (first_offset b) m, ts, dlq, mutated) =
        (m', ts', dlq', mutated')"
      using res k b by (simp add: ack_key_def owned_def)
    note s = ack_batch_spec [OF wf hi b(1) ts True ov le this]
    have view: "offset_view m' x = (if covers b x
        then Some (if in_ack ack x then ack_attrs member now mda (ack_type ack) (attrs b) else attrs b)
        else offset_view m x)" for x
      by (intro offset_view_replaced [OF wf b(1) s(1)] ack_cover [OF ov _ le])
    have "acked member now mda ack (covers b) (m, dlq) (m', dlq')"
      unfolding acked_def using old by (auto simp: view s(4) simp del: split_paired_Ex)
    then show ?thesis
      using batches_wf_replaced [OF wf b(1) s(1)] replaced_other [OF wf b(1) s(1)] s(2,3) True b(2)
      by auto
  next
    case False
    then have same: "m' = m" "ts' = ts" "dlq' = dlq" "mutated' = mutated"
      using res k bt_insert_same [OF wf_sorted [OF wf] k] wf_sorted [OF wf]
      by (auto simp: ack_key_def owned_def)
    have "acked member now mda ack (covers b) (m, dlq) (m, dlq)"
      unfolding acked_def using old False ack_dead_owned [of member mda "ack_type ack" b]
      by (auto simp: ack_attrs_not_owned simp del: split_paired_Ex)
    then show ?thesis using same wf ts False by simp
  qed
  then show "batches_wf lo hi m'" "timers_match m' ts'"
    "acked member now mda ack (covers b) (m, dlq) (m', dlq')"
    "\<And>k' c. \<lbrakk>k' \<noteq> k; map_of m k' = Some c\<rbrakk> \<Longrightarrow> map_of m' k' = Some c"
    "mutated' \<longleftrightarrow> mutated \<or> owned member b"
    "\<not> owned member b \<Longrightarrow> m' = m \<and> ts' = ts \<and> dlq' = dlq"
    by blast+
qed

lemma ack_keys_spec:
  assumes "batches_wf lo hi m" "hi < 2 ^ 64" "timers_match m ts" "distinct ks"
    "\<And>k. k \<in> set ks \<Longrightarrow> \<exists>b. map_of m k = Some b \<and> overlaps ack b"
    "ack_first ack \<le> ack_last ack"
    "fold (ack_key member now mda ack) ks (m, ts, dlq, mutated) = (m', ts', dlq', mutated')"
  shows "batches_wf lo hi m' \<and> timers_match m' ts' \<and>
     acked member now mda ack (touched m ks) (m, dlq) (m', dlq') \<and>
     (mutated \<longrightarrow> mutated') \<and> (\<not> mutated' \<longrightarrow> m' = m \<and> ts' = ts \<and> dlq' = dlq)"
  using assms
proof (induction ks arbitrary: m ts dlq mutated)
  case Nil
  then show ?case by (simp add: acked_def touched_def)
next
  case (Cons k ks)
  obtain b where k: "map_of m k = Some b" and ov: "overlaps ack b" using Cons.prems(5) by auto
  obtain m1 ts1 dlq1 mut1 where one:
    "ack_key member now mda ack k (m, ts, dlq, mutated) = (m1, ts1, dlq1, mut1)"
    using prod_cases4 by blast
  note s = ack_key_spec [OF Cons.prems(1-3) k ov Cons.prems(6) one]
  have kept: "map_of m1 k' = map_of m k'" if "k' \<in> set ks" for k'
    using that Cons.prems(4,5) s(4) [of k'] by fastforce
  then have t: "touched m1 ks = touched m ks" by (auto simp: touched_def fun_eq_iff)
  have rest: "fold (ack_key member now mda ack) ks (m1, ts1, dlq1, mut1) = (m', ts', dlq', mutated')"
    using Cons.prems(7) one by simp
  have "batches_wf lo hi m' \<and> timers_match m' ts' \<and>
     acked member now mda ack (touched m1 ks) (m1, dlq1) (m', dlq') \<and>
     (mut1 \<longrightarrow> mutated') \<and> (\<not> mutated' \<longrightarrow> m' = m1 \<and> ts' = ts1 \<and> dlq' = dlq1)"
    using Cons.prems(4,5) kept
    by (intro Cons.IH [OF s(1) Cons.prems(2) s(2) _ _ Cons.prems(6) rest]) auto
  moreover have "\<not> (covers b x \<and> touched m ks x)" for x
    using Cons.prems(4) k wf_unique [OF Cons.prems(1), of b x]
    unfolding touched_def wf_map_of [OF Cons.prems(1)] by fastforce
  ultimately have "acked member now mda ack (\<lambda>x. covers b x \<or> touched m ks x) (m, dlq) (m', dlq')"
    using acked_trans [OF s(3)] t by simp
  moreover have "(\<lambda>x. covers b x \<or> touched m ks x) = touched m (k # ks)"
    using k by (auto simp: touched_Cons fun_eq_iff)
  ultimately show ?case using s(5,6) \<open>batches_wf lo hi m' \<and> _\<close> by auto
qed

definition valid_ack :: "AckBatch \<Rightarrow> bool" where
  "valid_ack ack \<longleftrightarrow> ack_first ack \<le> ack_last ack"

lemma matching_keys_spec:
  assumes wf: "batches_wf lo hi m"
  shows "distinct (matching_keys m (ack_first ack) (ack_last ack))"
    and "k \<in> set (matching_keys m (ack_first ack) (ack_last ack)) \<longleftrightarrow>
         (\<exists>b. map_of m k = Some b \<and> overlaps ack b)"
proof -
  have "distinct (map fst m)" by (rule bt_sorted_distinct [OF wf_sorted [OF wf]])
  then show "distinct (matching_keys m (ack_first ack) (ack_last ack))"
    unfolding matching_keys_def by (rule distinct_map_filter)
  show "k \<in> set (matching_keys m (ack_first ack) (ack_last ack)) \<longleftrightarrow>
      (\<exists>b. map_of m k = Some b \<and> overlaps ack b)"
    unfolding matching_keys_def overlaps_def bt_lookup_iff [OF wf_sorted [OF wf]]
    using wf_entry [OF wf] by (auto simp: image_iff)
qed

lemma ack_one_spec:
  assumes wf: "batches_wf lo hi m" and hi: "hi < 2 ^ 64" and ts: "timers_match m ts"
    and va: "valid_ack ack"
    and res: "ack_one member now mda ack (m, ts, dlq, mutated) = (m', ts', dlq', mutated')"
  shows "batches_wf lo hi m' \<and> timers_match m' ts' \<and>
     acked member now mda ack (\<lambda>_. True) (m, dlq) (m', dlq') \<and>
     (mutated \<longrightarrow> mutated') \<and> (\<not> mutated' \<longrightarrow> m' = m \<and> ts' = ts \<and> dlq' = dlq)"
proof -
  let ?ks = "matching_keys m (ack_first ack) (ack_last ack)"
  have s: "batches_wf lo hi m' \<and> timers_match m' ts' \<and>
     acked member now mda ack (touched m ?ks) (m, dlq) (m', dlq') \<and>
     (mutated \<longrightarrow> mutated') \<and> (\<not> mutated' \<longrightarrow> m' = m \<and> ts' = ts \<and> dlq' = dlq)"
    using res va matching_keys_spec [OF wf]
    by (intro ack_keys_spec [OF wf hi ts]) (auto simp: ack_one_def valid_ack_def)
  have "touched m ?ks x" if x: "in_ack ack x" "offset_view m x = Some a" for x a
  proof -
    obtain b where b: "b \<in> snd ` set m" "covers b x"
      using x(2) offset_view_Some [OF wf] by blast
    then have "map_of m (first_offset b) = Some b" "overlaps ack b"
      using wf_map_of [OF wf] x(1) by (auto simp: overlaps_def covers_def in_ack_def)
    then show ?thesis using b matching_keys_spec(2) [OF wf] unfolding touched_def by blast
  qed
  then have "map_option f (offset_view m x) = offset_view m x"
    if "in_ack ack x" "\<not> touched m ?ks x" for x f
    using that by (cases "offset_view m x") auto
  moreover have "{x. in_ack ack x \<and> touched m ?ks x \<and> (\<exists>a. offset_view m x = Some a \<and> Q a)} =
      {x. in_ack ack x \<and> True \<and> (\<exists>a. offset_view m x = Some a \<and> Q a)}" for Q
    using \<open>\<And>x a. in_ack ack x \<Longrightarrow> offset_view m x = Some a \<Longrightarrow> touched m ?ks x\<close> by blast
  ultimately have "acked member now mda ack (\<lambda>_. True) (m, dlq) (m', dlq')"
    using s unfolding acked_def fst_conv snd_conv by (auto simp del: split_paired_Ex)
  with s show ?thesis by blast
qed

text \<open>What a whole acknowledgement request does to one offset.\<close>

fun acks_attrs :: "string \<Rightarrow> instant \<Rightarrow> nat \<Rightarrow> AckBatch list \<Rightarrow> offset \<Rightarrow> attrs \<Rightarrow> attrs" where
  "acks_attrs member now mda [] x a = a"
| "acks_attrs member now mda (ack # acks) x a =
     acks_attrs member now mda acks x
       (if in_ack ack x then ack_attrs member now mda (ack_type ack) a else a)"

fun acks_dead :: "string \<Rightarrow> instant \<Rightarrow> nat \<Rightarrow> AckBatch list \<Rightarrow> offset \<Rightarrow> attrs \<Rightarrow> bool" where
  "acks_dead member now mda [] x a \<longleftrightarrow> False"
| "acks_dead member now mda (ack # acks) x a \<longleftrightarrow>
     in_ack ack x \<and> ack_dead member mda (ack_type ack) a \<or>
     acks_dead member now mda acks x
       (if in_ack ack x then ack_attrs member now mda (ack_type ack) a else a)"

lemma ack_fold_spec:
  assumes "batches_wf lo hi m" "hi < 2 ^ 64" "timers_match m ts" "\<forall>ack\<in>set acks. valid_ack ack"
    "fold (ack_one member now mda) acks (m, ts, dlq, mutated) = (m', ts', dlq', mutated')"
  shows "batches_wf lo hi m' \<and> timers_match m' ts' \<and>
     (\<forall>x. offset_view m' x = map_option (acks_attrs member now mda acks x) (offset_view m x)) \<and>
     set dlq' = set dlq \<union>
       {x. \<exists>a. offset_view m x = Some a \<and> acks_dead member now mda acks x a} \<and>
     (mutated \<longrightarrow> mutated') \<and> (\<not> mutated' \<longrightarrow> m' = m \<and> ts' = ts \<and> dlq' = dlq)"
  using assms
proof (induction acks arbitrary: m ts dlq mutated)
  case Nil
  then show ?case by (simp add: option.map_ident)
next
  case (Cons ack acks)
  obtain m1 ts1 dlq1 mut1 where one:
    "ack_one member now mda ack (m, ts, dlq, mutated) = (m1, ts1, dlq1, mut1)"
    using prod_cases4 by blast
  have s: "batches_wf lo hi m1 \<and> timers_match m1 ts1 \<and>
     acked member now mda ack (\<lambda>_. True) (m, dlq) (m1, dlq1) \<and>
     (mutated \<longrightarrow> mut1) \<and> (\<not> mut1 \<longrightarrow> m1 = m \<and> ts1 = ts \<and> dlq1 = dlq)"
    using Cons.prems(4) by (intro ack_one_spec [OF Cons.prems(1-3) _ one]) simp
  have rest: "fold (ack_one member now mda) acks (m1, ts1, dlq1, mut1) = (m', ts', dlq', mutated')"
    using Cons.prems(5) one by simp
  note IH = Cons.IH [OF conjunct1 [OF s] Cons.prems(2) conjunct1 [OF conjunct2 [OF s]] _ rest]
  have v: "offset_view m1 x = (if in_ack ack x
      then map_option (ack_attrs member now mda (ack_type ack)) (offset_view m x)
      else offset_view m x)" for x
    using s by (simp add: acked_def)
  have d: "set dlq1 = set dlq \<union> {x. in_ack ack x \<and>
      (\<exists>a. offset_view m x = Some a \<and> ack_dead member mda (ack_type ack) a)}"
    using s by (simp add: acked_def del: split_paired_Ex)
  have view: "map_option (acks_attrs member now mda acks x) (offset_view m1 x) =
      map_option (acks_attrs member now mda (ack # acks) x) (offset_view m x)" for x
    by (cases "offset_view m x"; cases "in_ack ack x") (simp_all add: v del: split_paired_Ex)
  have "x \<in> set dlq1 \<or> (\<exists>a. offset_view m1 x = Some a \<and> acks_dead member now mda acks x a)
      \<longleftrightarrow> x \<in> set dlq \<or> (\<exists>a. offset_view m x = Some a \<and> acks_dead member now mda (ack # acks) x a)" for x
    by (cases "offset_view m x"; cases "in_ack ack x")
       (simp_all add: v d disj_assoc del: split_paired_Ex)
  then have dead: "set dlq1 \<union> {x. \<exists>a. offset_view m1 x = Some a \<and> acks_dead member now mda acks x a} =
      set dlq \<union> {x. \<exists>a. offset_view m x = Some a \<and> acks_dead member now mda (ack # acks) x a}"
    by (intro set_eqI) (simp only: Un_iff mem_Collect_eq)
  have va: "\<forall>ack\<in>set acks. valid_ack ack" using Cons.prems(4) by simp
  show ?case using IH [OF va] s unfolding view dead by blast
qed

lemma acknowledge_spec:
  assumes inv: "share_inv sp" and va: "\<forall>ack\<in>set acks. valid_ack ack"
    and res: "acknowledge member acks now sp = (sp', dlq)"
  shows "share_inv sp'"
    "offset_view (batches sp') x =
       (if x < start_offset sp' then None
        else map_option (acks_attrs member now (max_delivery_attempts sp) acks x)
               (offset_view (batches sp) x))"
    "set dlq = {x. \<exists>a. offset_view (batches sp) x = Some a \<and>
                       acks_dead member now (max_delivery_attempts sp) acks x a}"
    "start_offset sp \<le> start_offset sp'" "next_fetch_offset sp' = next_fetch_offset sp"
    "\<lbrakk>start_offset sp \<le> x; x < start_offset sp'\<rbrakk>
     \<Longrightarrow> \<exists>a. offset_view (batches sp) x = Some a \<and>
            terminal (fst (acks_attrs member now (max_delivery_attempts sp) acks x a))"
    "max_delivery_attempts sp' = max_delivery_attempts sp"
    "default_lock_timeout sp' = default_lock_timeout sp"
    "sp' \<noteq> sp \<Longrightarrow> state_version sp' = add64 (state_version sp) 1"
proof -
  note i = share_invD [OF inv]
  obtain ts m d mut where loop:
    "fold (ack_one member now (max_delivery_attempts sp)) acks (batches sp, timers sp, [], False) =
     (m, ts, d, mut)"
    using prod_cases4 by blast
  note l = ack_fold_spec [OF i(1,4,2) va loop]
  have l1: "batches_wf (start_offset sp) (next_fetch_offset sp) m" and l2: "timers_match m ts"
    and view: "offset_view m x = map_option (acks_attrs member now (max_delivery_attempts sp) acks x)
      (offset_view (batches sp) x)" for x
    using l by simp_all
  have sp': "sp' = finish m ts mut sp" "dlq = d"
    using res loop by (simp_all add: acknowledge_def)
  note f = finish_spec [where mutated = mut, OF l1 l2 i(3,4)]
  show "share_inv sp'" "start_offset sp \<le> start_offset sp'" using f(1,2) sp' by simp_all
  show "offset_view (batches sp') x =
       (if x < start_offset sp' then None
        else map_option (acks_attrs member now (max_delivery_attempts sp) acks x)
               (offset_view (batches sp) x))"
    using f(3) [of x] sp' view by simp
  show "set dlq = {x. \<exists>a. offset_view (batches sp) x = Some a \<and>
      acks_dead member now (max_delivery_attempts sp) acks x a}"
    using l sp' by (simp del: split_paired_Ex)
  show "next_fetch_offset sp' = next_fetch_offset sp"
    "max_delivery_attempts sp' = max_delivery_attempts sp"
    "default_lock_timeout sp' = default_lock_timeout sp" using sp' by simp_all
  show "\<exists>a. offset_view (batches sp) x = Some a \<and>
      terminal (fst (acks_attrs member now (max_delivery_attempts sp) acks x a))"
    if "start_offset sp \<le> x" "x < start_offset sp'"
    using f(4) [of x] that sp' view [of x] by (auto simp del: split_paired_Ex)
  show "state_version sp' = add64 (state_version sp) 1" if "sp' \<noteq> sp"
    using that l sp' finish_idle [OF inv, of mut] by (cases mut) auto
qed

section \<open>Acquisition, proved\<close>

fun lease_attrs :: "string \<Rightarrow> instant \<Rightarrow> duration \<Rightarrow> attrs \<Rightarrow> attrs" where
  "lease_attrs member now timeout (st, by, at, lt, dc) =
     (Acquired, Some member, Some now, timeout, add16 dc 1)"

definition in_ranges :: "(offset \<times> offset) list \<Rightarrow> offset \<Rightarrow> bool" where
  "in_ranges rs x \<longleftrightarrow> (\<exists>(f, l)\<in>set rs. f \<le> x \<and> x \<le> l)"

lemma in_ranges_simps [simp]:
  "\<not> in_ranges [] x" "in_ranges ((f, l) # rs) x \<longleftrightarrow> f \<le> x \<and> x \<le> l \<or> in_ranges rs x"
  "in_ranges (rs @ rs') x \<longleftrightarrow> in_ranges rs x \<or> in_ranges rs' x"
  by (auto simp: in_ranges_def)

definition range_timers :: "string \<Rightarrow> instant \<Rightarrow> duration \<Rightarrow> (offset \<times> offset) list \<Rightarrow> ExpiryTimer set" where
  "range_timers member now timeout rs = (\<lambda>(f, l). ExpiryTimer (now + timeout) f l member) ` set rs"

text \<open>
  \<open>leased\<close> relates the map before and after part of an acquisition: the offsets of the new
  ranges were available and are now leased, nothing else moved, each new range has its timer
  and each record handed out lies in a new range and carries the count of its lease.
\<close>

definition leased ::
  "string \<Rightarrow> instant \<Rightarrow> duration \<Rightarrow> batch_map \<Rightarrow> batch_map \<Rightarrow> (offset \<times> offset) list
    \<Rightarrow> AcquiredRecordInfo list \<Rightarrow> bool" where
  "leased member now timeout m m' rs infos \<longleftrightarrow>
     (\<forall>x. offset_view m' x =
        (if in_ranges rs x then map_option (lease_attrs member now timeout) (offset_view m x)
         else offset_view m x)) \<and>
     (\<forall>x. in_ranges rs x \<longrightarrow> (\<exists>a. offset_view m x = Some a \<and> fst a = Available)) \<and>
     leases m' = leases m \<union> range_timers member now timeout rs \<and>
     (\<forall>i\<in>set infos. in_ranges rs (info_offset i) \<and> rec_offset (info_frame i) = info_offset i \<and>
        (\<exists>a. offset_view m' (info_offset i) = Some a \<and>
             info_delivery_count i = snd (snd (snd (snd a)))))"

lemma leased_refl: "leased member now timeout m m [] []"
  by (simp add: leased_def range_timers_def)

lemma leased_trans:
  assumes a: "leased member now timeout m m1 rs infos" and b: "leased member now timeout m1 m2 rs' infos'"
  shows "leased member now timeout m m2 (rs @ rs') (infos @ infos')"
proof -
  have avail: "\<exists>a. offset_view m1 x = Some a \<and> fst a = Available" if "in_ranges rs' x" for x
    using b that unfolding leased_def by blast
  have acq: "\<exists>a. offset_view m1 x = Some a \<and> fst a = Acquired" if "in_ranges rs x" for x
  proof -
    obtain a0 where "offset_view m x = Some a0" using a \<open>in_ranges rs x\<close> unfolding leased_def by blast
    then show ?thesis using a \<open>in_ranges rs x\<close> unfolding leased_def
      by (cases a0) simp
  qed
  have disj: "\<not> in_ranges rs' x" if "in_ranges rs x" for x
    using avail [of x] acq [OF that] by auto
  have v1: "offset_view m1 x = (if in_ranges rs x then map_option (lease_attrs member now timeout) (offset_view m x)
      else offset_view m x)" for x
    using a by (simp add: leased_def)
  have v2: "offset_view m2 x = (if in_ranges rs' x then map_option (lease_attrs member now timeout) (offset_view m1 x)
      else offset_view m1 x)" for x
    using b by (simp add: leased_def)
  have i1: "in_ranges rs (info_offset i) \<and> rec_offset (info_frame i) = info_offset i \<and>
        (\<exists>a. offset_view m1 (info_offset i) = Some a \<and> info_delivery_count i = snd (snd (snd (snd a))))"
    if "i \<in> set infos" for i
    using a that unfolding leased_def by blast
  show ?thesis
    unfolding leased_def
  proof (intro conjI allI impI ballI)
    show "offset_view m2 x = (if in_ranges (rs @ rs') x
        then map_option (lease_attrs member now timeout) (offset_view m x) else offset_view m x)" for x
      using disj [of x] by (simp add: v1 v2)
    show "\<exists>a. offset_view m x = Some a \<and> fst a = Available" if x: "in_ranges (rs @ rs') x" for x
    proof (cases "in_ranges rs x")
      case True
      then show ?thesis using a unfolding leased_def by blast
    next
      case False
      then show ?thesis using x avail [of x] v1 [of x] by simp
    qed
    show "leases m2 = leases m \<union> range_timers member now timeout (rs @ rs')"
      using a b by (auto simp: leased_def range_timers_def)
    fix i assume i: "i \<in> set (infos @ infos')"
    show "in_ranges (rs @ rs') (info_offset i)" "rec_offset (info_frame i) = info_offset i"
      using i b i1 by (auto simp: leased_def)
    show "\<exists>a. offset_view m2 (info_offset i) = Some a \<and>
        info_delivery_count i = snd (snd (snd (snd a)))"
    proof (cases "i \<in> set infos")
      case True
      then show ?thesis using i1 [OF True] disj v2 [of "info_offset i"] by simp
    next
      case False
      then have "i \<in> set infos'" using i by simp
      then show ?thesis using b unfolding leased_def by blast
    qed
  qed
qed

lemma attrs_lease: "attrs (lease member now timeout f l dc) = (Acquired, Some member, Some now, timeout, dc)"
  by (simp add: lease_def attrs_def)

lemma lease_simps [simp]:
  "first_offset (lease member now timeout f l dc) = f" "last_offset (lease member now timeout f l dc) = l"
  "f \<le> l \<Longrightarrow> batch_ok (lease member now timeout f l dc)"
  "lease_timer (lease member now timeout f l dc) = Some (ExpiryTimer (now + timeout) f l member)"
  by (simp_all add: lease_def batch_ok_def lease_timer_def)

lemma set_deliver:
  "i \<in> set (deliver fetch f l dc) \<Longrightarrow>
   f \<le> info_offset i \<and> info_offset i \<le> l \<and> info_delivery_count i = dc \<and>
   rec_offset (info_frame i) = info_offset i"
  by (auto simp: deliver_def split: sum.splits)

text \<open>Taking the prefix \<open>[first, l]\<close> of an available batch.\<close>

lemma lease_prefix:
  assumes wf: "batches_wf lo hi m" and b: "b \<in> snd ` set m" and av: "state b = Available"
    and l: "first_offset b \<le> l" "l \<le> last_offset b"
    and m': "m' = (let m1 = bt_insert (first_offset b)
                       (lease member now timeout (first_offset b) l (add16 (delivery_count b) 1))
                       (bt_remove (first_offset b) m) in
                   if l < last_offset b
                   then bt_insert (l + 1) (b\<lparr>first_offset := l + 1, state := Available,
                                             acquired_by := None, acquired_at := None\<rparr>) m1
                   else m1)"
  shows "batches_wf lo hi m'"
    "leased member now timeout m m' [(first_offset b, l)]
       (deliver fetch (first_offset b) l (add16 (delivery_count b) 1))"
    "\<And>k c. \<lbrakk>map_of m k = Some c; k \<noteq> first_offset b\<rbrakk> \<Longrightarrow> map_of m' k = Some c"
proof -
  let ?p = "lease member now timeout (first_offset b) l (add16 (delivery_count b) 1)"
  let ?q = "b\<lparr>first_offset := l + 1, state := Available, acquired_by := None, acquired_at := None\<rparr>"
  let ?P = "if l < last_offset b then {?q, ?p} else {?p}"
  have ok: "batch_ok b" by (rule wf_ok [OF wf b])
  have nolease: "acquired_by b = None" "acquired_at b = None" "lease_timer b = None"
    using ok av by (simp_all add: batch_ok_def lease_timer_def)
  have r1: "replaced m b {?p} (bt_insert (first_offset b) ?p (bt_remove (first_offset b) m))"
    using replaced_insert [OF wf b replaced_remove [OF wf b], of ?p] l by simp
  have r: "replaced m b ?P m'"
  proof (cases "l < last_offset b")
    case True
    then show ?thesis
      using replaced_insert [OF wf b r1, of ?q] l by (simp add: m' Let_def batch_ok_def)
  next
    case False
    then show ?thesis using r1 unfolding m' Let_def by (simp only: if_False)
  qed
  show "batches_wf lo hi m'" by (rule batches_wf_replaced [OF wf b r])
  show "\<And>k c. \<lbrakk>map_of m k = Some c; k \<noteq> first_offset b\<rbrakk> \<Longrightarrow> map_of m' k = Some c"
    by (rule replaced_other [OF wf b r])
  have old: "offset_view m x = Some (attrs b)" if "covers b x" for x
    by (rule offset_view_batch [OF wf b that])
  have cov: "\<exists>p\<in>?P. covers p x \<and>
      attrs p = (if x \<le> l then lease_attrs member now timeout (attrs b) else attrs b)"
    if "covers b x" for x
    using that l av nolease by (auto simp: covers_def attrs_lease) (simp_all add: attrs_def)
  have view: "offset_view m' x = (if covers b x
      then Some (if x \<le> l then lease_attrs member now timeout (attrs b) else attrs b)
      else offset_view m x)" for x
    by (rule offset_view_replaced [OF wf b r cov])
  have lt: "leases m' = leases m \<union> {ExpiryTimer (now + timeout) (first_offset b) l member}"
  proof -
    have "lease_timer ?q = None" by (simp add: lease_timer_def)
    then show ?thesis unfolding leases_replaced [OF wf b r] using nolease by auto
  qed
  show "leased member now timeout m m' [(first_offset b, l)]
       (deliver fetch (first_offset b) l (add16 (delivery_count b) 1))"
    unfolding leased_def
  proof (intro conjI allI impI ballI)
    show "offset_view m' x = (if in_ranges [(first_offset b, l)] x
        then map_option (lease_attrs member now timeout) (offset_view m x) else offset_view m x)" for x
      using l old [of x] by (auto simp: view covers_def)
    show "\<exists>a. offset_view m x = Some a \<and> fst a = Available" if "in_ranges [(first_offset b, l)] x" for x
      using that old [of x] l av by (auto simp: covers_def attrs_def)
    show "leases m' = leases m \<union> range_timers member now timeout [(first_offset b, l)]"
      using lt by (simp add: range_timers_def)
    fix i assume "i \<in> set (deliver fetch (first_offset b) l (add16 (delivery_count b) 1))"
    note i = set_deliver [OF this]
    show "in_ranges [(first_offset b, l)] (info_offset i)" "rec_offset (info_frame i) = info_offset i"
      using i by simp_all
    show "\<exists>a. offset_view m' (info_offset i) = Some a \<and> info_delivery_count i = snd (snd (snd (snd a)))"
      using i l by (simp add: view covers_def attrs_def)
  qed
qed

text \<open>
  What the share partition relies on from \<open>PartitionManager::fetch\<close>: records come back in
  strictly ascending offset order, and no record sits at the last \<open>u64\<close> offset.
\<close>

definition ordered_source :: "fetch_fn \<Rightarrow> bool" where
  "ordered_source fetch \<longleftrightarrow>
     (\<forall>s n rs. fetch s n = Inr rs \<longrightarrow>
        sorted_wrt (<) (map rec_offset rs) \<and> (\<forall>r\<in>set rs. rec_offset r < U64_MAX))"

lemma length_deliver:
  assumes "ordered_source fetch" and "f \<le> l"
  shows "length (deliver fetch f l dc) \<le> l - f + 1"
proof (cases "fetch f FETCH_BYTES")
  case (Inl e)
  then show ?thesis by (simp add: deliver_def)
next
  case (Inr rs)
  let ?rs = "filter (\<lambda>r. f \<le> rec_offset r \<and> rec_offset r \<le> l) rs"
  have "sorted_wrt (<) (map rec_offset rs)" using assms(1) Inr by (auto simp: ordered_source_def)
  then have "distinct (map rec_offset ?rs)"
    by (intro distinct_map_filter) (simp add: strict_sorted_iff)
  from distinct_card [OF this] have "length ?rs = card (set (map rec_offset ?rs))"
    by (simp only: length_map)
  also have "\<dots> \<le> card {f..l}" by (intro card_mono) auto
  finally show ?thesis using assms(2) by (simp add: deliver_def Inr)
qed

lemma acquire_available_spec:
  assumes "batches_wf lo hi m" "hi < 2 ^ 64" "ordered_source fetch"
    "acquire_available member max_records timeout now fetch ks (m, infos, ranges) =
       (m', infos', ranges')"
  shows "\<exists>ni nr. infos' = infos @ ni \<and> ranges' = ranges @ nr \<and> batches_wf lo hi m' \<and>
     leased member now timeout m m' nr ni \<and>
     (length infos \<le> max_records \<longrightarrow> length infos' \<le> max_records) \<and> (nr = [] \<longrightarrow> m' = m)"
  using assms
proof (induction ks arbitrary: m infos ranges)
  case Nil
  then show ?case using leased_refl by force
next
  case (Cons k ks)
  show ?case
  proof (cases "max_records \<le> length infos \<or> map_of m k = None \<or>
      (\<exists>b. map_of m k = Some b \<and> state b \<noteq> Available)")
    case True
    then show ?thesis
    proof (cases "max_records \<le> length infos")
      case True
      then show ?thesis using Cons.prems leased_refl by force
    next
      case False
      with True have "acquire_available member max_records timeout now fetch ks (m, infos, ranges) =
          (m', infos', ranges')"
        using Cons.prems(4) bt_insert_same [OF wf_sorted [OF Cons.prems(1)]]
          wf_sorted [OF Cons.prems(1)]
        by (auto split: if_splits option.splits)
      then show ?thesis by (intro Cons.IH [OF Cons.prems(1-3)])
    qed
  next
    case False
    then obtain b where k: "map_of m k = Some b" and av: "state b = Available"
      and room: "length infos < max_records" by force
    have b: "b \<in> snd ` set m" "k = first_offset b" using wf_map_of [OF Cons.prems(1)] k by auto
    have range: "first_offset b \<le> last_offset b" "last_offset b + 1 < 2 ^ 64"
      using wf_ok [OF Cons.prems(1) b(1)] wf_hi [OF Cons.prems(1) b(1)] Cons.prems(2)
      by (simp_all add: batch_ok_def)
    have len: "add64 (sub64 (last_offset b) (first_offset b)) 1 = last_offset b - first_offset b + 1"
      using range by (simp add: sub64_exact add64_exact)
    define needed where "needed = max_records - length infos"
    define l where "l = (if last_offset b - first_offset b + 1 \<le> needed then last_offset b
                         else first_offset b + needed - 1)"
    define dc where "dc = add16 (delivery_count b) 1"
    define m1 where "m1 = (let m0 = bt_insert (first_offset b)
                       (lease member now timeout (first_offset b) l dc) (bt_remove (first_offset b) m) in
                   if l < last_offset b
                   then bt_insert (l + 1) (b\<lparr>first_offset := l + 1, state := Available,
                                             acquired_by := None, acquired_at := None\<rparr>) m0
                   else m0)"
    have n: "0 < needed" using room by (simp add: needed_def)
    have l: "first_offset b \<le> l" "l \<le> last_offset b" "l - first_offset b + 1 \<le> needed"
      using n range by (auto simp: l_def)
    have split: "sub64 (add64 (first_offset b) needed) 1 = l" "add64 l 1 = l + 1" "l < last_offset b"
      if "\<not> last_offset b - first_offset b + 1 \<le> needed"
    proof -
      have "first_offset b + needed < 2 ^ 64" using that range by linarith
      then show "sub64 (add64 (first_offset b) needed) 1 = l"
        using that n by (simp add: l_def add64_exact sub64_exact)
      show "add64 l 1 = l + 1" "l < last_offset b"
        using that range n by (auto simp: l_def add64_exact)
    qed
    have rest: "acquire_available member max_records timeout now fetch ks
        (m1, infos @ deliver fetch (first_offset b) l dc, ranges @ [(first_offset b, l)]) =
        (m', infos', ranges')"
    proof (cases "last_offset b - first_offset b + 1 \<le> needed")
      case True
      then have "m1 = bt_insert (first_offset b) (lease member now timeout (first_offset b) l dc)
          (bt_remove (first_offset b) m)" "l = last_offset b"
        by (simp_all add: m1_def l_def)
      then show ?thesis
        using Cons.prems(4) k av room True b(2)
        by (simp add: Let_def needed_def [symmetric] dc_def len [unfolded One_nat_def])
    next
      case False
      then show ?thesis
        using Cons.prems(4) k av room b(2) split [OF False] False
        by (simp add: Let_def needed_def [symmetric] dc_def m1_def len [unfolded One_nat_def])
    qed
    note p = lease_prefix [OF Cons.prems(1) b(1) av l(1,2) m1_def [unfolded dc_def]]
    have short: "length (infos @ deliver fetch (first_offset b) l dc) \<le> max_records"
      using length_deliver [OF Cons.prems(3) l(1), of dc] l(3) room by (simp add: needed_def)
    obtain ni nr where IH: "infos' = (infos @ deliver fetch (first_offset b) l dc) @ ni"
      "ranges' = (ranges @ [(first_offset b, l)]) @ nr" "batches_wf lo hi m'"
      "leased member now timeout m1 m' nr ni" "length infos' \<le> max_records"
      using Cons.IH [OF p(1) Cons.prems(2,3) rest] short by blast
    then show ?thesis
      using leased_trans [OF p(2) IH(4), of fetch]
      by (intro exI [of _ "deliver fetch (first_offset b) l dc @ ni"]
                exI [of _ "(first_offset b, l) # nr"]) (simp add: dc_def)
  qed
qed

lemma batch_ok_le: "batch_ok b \<Longrightarrow> first_offset b \<le> last_offset b"
  by (simp add: batch_ok_def)

lemma batches_wf_fresh:
  assumes wf: "batches_wf lo nfo m" and p: "batch_ok p" "lo \<le> nfo" "nfo \<le> first_offset p"
  shows "batches_wf lo (Suc (last_offset p)) (bt_insert (first_offset p) p m)"
    "offset_view (bt_insert (first_offset p) p m) x =
       (if covers p x then Some (attrs p) else offset_view m x)"
    "leases (bt_insert (first_offset p) p m) = leases m \<union> {t. lease_timer p = Some t}"
    "covers p x \<Longrightarrow> offset_view m x = None"
proof -
  let ?m = "bt_insert (first_offset p) p m"
  have above: "last_offset c < first_offset p \<and> first_offset c < first_offset p"
    if "c \<in> snd ` set m" for c
    using wf_hi [OF wf that] wf_ok [OF wf that] p(3) by (simp add: batch_ok_def)
  have keys: "fst e < first_offset p" if "e \<in> set m" for e
    using that above wf_entry [OF wf, of "fst e" "snd e"] by simp
  then have "{e \<in> set m. fst e \<noteq> first_offset p} = set m" by force
  then have set: "set ?m = insert (first_offset p, p) (set m)"
    by (simp add: set_bt_insert wf_sorted [OF wf])
  show wf': "batches_wf lo (Suc (last_offset p)) ?m"
    unfolding batches_wf_def set
  proof (intro conjI)
    show "bt_sorted ?m" using wf_sorted [OF wf] by simp
    show "\<forall>(k, b)\<in>insert (first_offset p, p) (set m).
        k = first_offset b \<and> batch_ok b \<and> lo \<le> k \<and> last_offset b < Suc (last_offset p)"
    proof (intro ballI, clarify)
      fix k b assume kb: "(k, b) \<in> insert (first_offset p, p) (set m)"
      show "k = first_offset b \<and> batch_ok b \<and> lo \<le> k \<and> last_offset b < Suc (last_offset p)"
      proof (cases "(k, b) \<in> set m")
        case True
        then have "b \<in> snd ` set m" by (auto intro: rev_image_eqI)
        then show ?thesis
          using wf_all [OF wf True] above [of b] batch_ok_le [OF p(1)] by auto
      next
        case False
        then show ?thesis using kb p by simp
      qed
    qed
    show "\<forall>(k, b)\<in>insert (first_offset p, p) (set m).
        \<forall>(k', b')\<in>insert (first_offset p, p) (set m). k < k' \<longrightarrow> last_offset b < k'"
    proof (intro ballI, clarify)
      fix k b k' b'
      assume kb: "(k, b) \<in> insert (first_offset p, p) (set m)"
        and kb': "(k', b') \<in> insert (first_offset p, p) (set m)" and lt: "k < k'"
      have "(k, b) \<in> set m" using kb kb' lt keys [of "(k', b')"] by auto
      moreover from this have "b \<in> snd ` set m" by (auto intro: rev_image_eqI)
      ultimately show "last_offset b < k'"
        using kb' lt wf_pair [OF wf, of k b k' b'] above [of b] by auto
    qed
  qed
  have range: "snd ` set ?m = insert p (snd ` set m)" by (simp add: set)
  show none: "offset_view m x = None" if "covers p x" for x
    using that above unfolding offset_view_None covers_def by (meson leD le_less_trans)
  show "offset_view ?m x = (if covers p x then Some (attrs p) else offset_view m x)"
  proof (cases "covers p x")
    case True
    then show ?thesis using offset_view_batch [OF wf', of p x] range by simp
  next
    case False
    have "offset_view ?m x = Some a \<longleftrightarrow> offset_view m x = Some a" for a
      unfolding offset_view_Some [OF wf] offset_view_Some [OF wf'] range using False by blast
    then show ?thesis using False by (metis not_Some_eq)
  qed
  show "leases ?m = leases m \<union> {t. lease_timer p = Some t}"
    unfolding leases_def range by blast
qed

text \<open>
  \<open>granted\<close> is the contract of an acquisition: which offsets may change and to what.
\<close>

definition granted ::
  "string \<Rightarrow> instant \<Rightarrow> duration \<Rightarrow> offset \<Rightarrow> batch_map \<Rightarrow> batch_map \<Rightarrow> offset \<Rightarrow> bool" where
  "granted member now timeout nfo m m' x \<longleftrightarrow>
     (\<exists>lt dc. offset_view m x = Some (Available, None, None, lt, dc) \<and>
        offset_view m' x = Some (Acquired, Some member, Some now, timeout, add16 dc 1)) \<or>
     nfo \<le> x \<and> offset_view m x = None \<and>
        offset_view m' x = Some (Acquired, Some member, Some now, timeout, 1)"

lemma leased_granted:
  assumes wf: "batches_wf lo hi m" and l: "leased member now timeout m m' rs infos"
  shows "if in_ranges rs x then granted member now timeout nfo m m' x
         else offset_view m' x = offset_view m x"
proof (cases "in_ranges rs x")
  case True
  then obtain a where a: "offset_view m x = Some a" "fst a = Available"
    using l unfolding leased_def by blast
  then obtain b where b: "b \<in> snd ` set m" "attrs b = a" using offset_view_Some [OF wf] by blast
  then have "a = (Available, None, None, lock_timeout b, delivery_count b)"
    using a(2) wf_ok [OF wf b(1)] by (auto simp: attrs_def batch_ok_def)
  then show ?thesis using True a l by (auto simp: leased_def granted_def)
next
  case False
  then show ?thesis using l by (simp add: leased_def)
qed

lemma timers_fold:
  "bset_sorted ts \<Longrightarrow>
   bset_sorted (fold (\<lambda>(f, l). insort_insert (ExpiryTimer (now + timeout) f l member)) rs ts) \<and>
   set (fold (\<lambda>(f, l). insort_insert (ExpiryTimer (now + timeout) f l member)) rs ts) =
     set ts \<union> range_timers member now timeout rs"
  by (induction rs arbitrary: ts) (auto simp: range_timers_def set_insort_insert)

text \<open>The state after the first half and after the whole method, in one form.\<close>

definition acquired ::
  "string \<Rightarrow> nat \<Rightarrow> instant \<Rightarrow> duration \<Rightarrow> offset \<Rightarrow> offset \<Rightarrow> batch_map
    \<Rightarrow> offset \<times> batch_map \<times> AcquiredRecordInfo list \<times> (offset \<times> offset) list \<Rightarrow> bool" where
  "acquired member max_records now timeout lo nfo m res \<longleftrightarrow>
     (case res of (nfo', m', infos, rs) \<Rightarrow>
        nfo \<le> nfo' \<and> nfo' < 2 ^ 64 \<and> batches_wf lo nfo' m' \<and>
        leases m' = leases m \<union> range_timers member now timeout rs \<and>
        (\<forall>x. if in_ranges rs x then granted member now timeout nfo m m' x
             else offset_view m' x = offset_view m x) \<and>
        (\<forall>i\<in>set infos. in_ranges rs (info_offset i) \<and> rec_offset (info_frame i) = info_offset i \<and>
           offset_view m' (info_offset i) =
             Some (Acquired, Some member, Some now, timeout, info_delivery_count i)) \<and>
        length infos \<le> max_records \<and> (rs = [] \<longrightarrow> m' = m \<and> nfo' = nfo))"

lemma acquire_available_acquired:
  assumes wf: "batches_wf lo nfo m" and nfo: "nfo < 2 ^ 64" and src: "ordered_source fetch"
    and res: "acquire_available member max_records timeout now fetch ks (m, [], []) = (m', infos, rs)"
  shows "acquired member max_records now timeout lo nfo m (nfo, m', infos, rs)"
proof -
  have s: "batches_wf lo nfo m'" "leased member now timeout m m' rs infos"
    "length infos \<le> max_records" "rs = [] \<longrightarrow> m' = m"
    using acquire_available_spec [OF wf nfo src res] by auto
  have g: "if in_ranges rs x then granted member now timeout nfo m m' x
      else offset_view m' x = offset_view m x" for x
    by (rule leased_granted [OF wf s(2)])
  have "in_ranges rs (info_offset i) \<and> rec_offset (info_frame i) = info_offset i \<and>
      offset_view m' (info_offset i) =
        Some (Acquired, Some member, Some now, timeout, info_delivery_count i)"
    if i: "i \<in> set infos" for i
  proof -
    obtain a where a: "in_ranges rs (info_offset i)" "rec_offset (info_frame i) = info_offset i"
      "offset_view m' (info_offset i) = Some a" "info_delivery_count i = snd (snd (snd (snd a)))"
      using s(2) i unfolding leased_def by blast
    then show ?thesis using g [of "info_offset i"] by (auto simp: granted_def)
  qed
  moreover have "leases m' = leases m \<union> range_timers member now timeout rs"
    using s(2) by (simp add: leased_def)
  ultimately show ?thesis unfolding acquired_def prod.case using s(1,3,4) g nfo by simp
qed

lemma take_filter_ends:
  assumes "sorted_wrt (<) (map rec_offset rs)" "vs = take n (filter P rs)" "vs \<noteq> []"
  shows "\<And>r. r \<in> set vs \<Longrightarrow> rec_offset (hd vs) \<le> rec_offset r \<and> rec_offset r \<le> rec_offset (last vs)"
    "set vs \<subseteq> set rs" "\<And>r. r \<in> set vs \<Longrightarrow> P r" "length vs \<le> n"
proof -
  show sub: "set vs \<subseteq> set rs" "\<And>r. r \<in> set vs \<Longrightarrow> P r" "length vs \<le> n"
    using assms(2) set_take_subset [of n "filter P rs"] by auto
  have "sorted_wrt (<) (map rec_offset vs)"
    using assms(1) by (simp add: assms(2) sorted_wrt_map sorted_wrt_filter sorted_wrt_take)
  then have s: "sorted (map rec_offset vs)" by (simp add: strict_sorted_iff)
  fix r assume "r \<in> set vs"
  then obtain i where i: "i < length vs" "r = vs ! i" by (auto simp: in_set_conv_nth)
  show "rec_offset (hd vs) \<le> rec_offset r \<and> rec_offset r \<le> rec_offset (last vs)"
    using sorted_nth_mono [OF s, of 0 i] sorted_nth_mono [OF s, of i "length vs - 1"] i assms(3)
    by (simp add: hd_conv_nth last_conv_nth)
qed

lemma acquire_fresh_acquired:
  assumes acc: "acquired member max_records now timeout lo nfo m (nfo, m1, infos, rs)"
    and le: "lo \<le> nfo" and src: "ordered_source fetch"
  shows "acquired member max_records now timeout lo nfo m
    (acquire_fresh member max_records timeout now fetch nfo (m1, infos, rs))"
proof (cases "length infos < max_records \<and> (\<exists>frames. fetch nfo FETCH_BYTES = Inr frames \<and>
    take (max_records - length infos) (filter (\<lambda>r. nfo \<le> rec_offset r) frames) \<noteq> [])")
  case False
  then show ?thesis using acc by (auto simp: acquire_fresh_def Let_def split: sum.split)
next
  case True
  then obtain frames where room: "length infos < max_records"
    and fr: "fetch nfo FETCH_BYTES = Inr frames" by blast
  define vs where "vs = take (max_records - length infos) (filter (\<lambda>r. nfo \<le> rec_offset r) frames)"
  have ne: "vs \<noteq> []" using True fr by (auto simp: vs_def)
  then have ne': "filter (\<lambda>r. nfo \<le> rec_offset r) frames \<noteq> []" unfolding vs_def by auto
  have ord: "sorted_wrt (<) (map rec_offset frames)" "\<And>r. r \<in> set frames \<Longrightarrow> rec_offset r < U64_MAX"
    using src fr unfolding ordered_source_def by blast+
  note e = take_filter_ends [OF ord(1) vs_def ne]
  define f where "f = rec_offset (hd vs)"
  define l where "l = rec_offset (last vs)"
  define p where "p = lease member now timeout f l 1"
  define ni where "ni = map (\<lambda>r. \<lparr>info_offset = rec_offset r, info_delivery_count = 1,
                                    info_frame = r\<rparr>) vs"
  have fl: "nfo \<le> f" "f \<le> l" "l < U64_MAX"
    using e ne ord(2) unfolding f_def l_def by (auto simp: subset_iff)
  have res: "acquire_fresh member max_records timeout now fetch nfo (m1, infos, rs) =
      (l + 1, bt_insert f p m1, infos @ ni, rs @ [(f, l)])"
    using room fr ne fl(3) ne'
    by (simp add: acquire_fresh_def Let_def vs_def [symmetric] f_def l_def p_def ni_def add64_exact)
  have p: "batch_ok p" "first_offset p = f" "last_offset p = l"
    "attrs p = (Acquired, Some member, Some now, timeout, 1)"
    "lease_timer p = Some (ExpiryTimer (now + timeout) f l member)"
    using fl by (simp_all add: p_def attrs_lease)
  have a: "batches_wf lo nfo m1" "leases m1 = leases m \<union> range_timers member now timeout rs"
    "\<And>x. if in_ranges rs x then granted member now timeout nfo m m1 x
         else offset_view m1 x = offset_view m x"
    "\<And>i. i \<in> set infos \<Longrightarrow> in_ranges rs (info_offset i) \<and> rec_offset (info_frame i) = info_offset i \<and>
           offset_view m1 (info_offset i) =
             Some (Acquired, Some member, Some now, timeout, info_delivery_count i)"
    using acc by (auto simp: acquired_def)
  note w = batches_wf_fresh [OF a(1) p(1) le, unfolded p(2,3,4), OF fl(1)]
  have cov: "covers p x \<longleftrightarrow> f \<le> x \<and> x \<le> l" for x by (simp add: covers_def p)
  have old: "\<not> in_ranges rs x \<and> offset_view m x = None" if "covers p x" for x
    using w(4) [OF that] a(3) [of x] by (auto simp: granted_def split: if_splits)
  show ?thesis
    unfolding res acquired_def prod.case
  proof (intro conjI allI ballI)
    show "nfo \<le> l + 1" "l + 1 < 2 ^ 64" using fl by simp_all
    show "batches_wf lo (l + 1) (bt_insert f p m1)" using w(1) by simp
    show "leases (bt_insert f p m1) = leases m \<union> range_timers member now timeout (rs @ [(f, l)])"
      using w(3) a(2) p(5) by (auto simp: range_timers_def)
    show "if in_ranges (rs @ [(f, l)]) x then granted member now timeout nfo m (bt_insert f p m1) x
        else offset_view (bt_insert f p m1) x = offset_view m x" for x
      using a(3) [of x] old [of x] cov [of x] fl(1) w(2) [of x]
      by (cases "covers p x") (auto simp: granted_def)
    show "length (infos @ ni) \<le> max_records" using e(4) room by (simp add: ni_def)
    show "rs @ [(f, l)] = [] \<longrightarrow> bt_insert f p m1 = m \<and> l + 1 = nfo" by simp
    fix i assume "i \<in> set (infos @ ni)"
    then consider "i \<in> set infos" | r where "r \<in> set vs"
      "i = \<lparr>info_offset = rec_offset r, info_delivery_count = 1, info_frame = r\<rparr>"
      by (auto simp: ni_def)
    then have "in_ranges (rs @ [(f, l)]) (info_offset i) \<and> rec_offset (info_frame i) = info_offset i \<and>
        offset_view (bt_insert f p m1) (info_offset i) =
          Some (Acquired, Some member, Some now, timeout, info_delivery_count i)"
    proof cases
      case 1
      then show ?thesis using a(4) [OF 1] old [of "info_offset i"] w(2) by auto
    next
      case 2
      then show ?thesis using e(1) [OF 2(1)] cov w(2) by (simp add: f_def l_def)
    qed
    then show "in_ranges (rs @ [(f, l)]) (info_offset i)" "rec_offset (info_frame i) = info_offset i"
      "offset_view (bt_insert f p m1) (info_offset i) =
          Some (Acquired, Some member, Some now, timeout, info_delivery_count i)"
      by blast+
  qed
qed

lemma settled_view:
  assumes wf: "batches_wf lo hi m"
  shows "settled lo m \<longleftrightarrow> (\<forall>a. offset_view m lo = Some a \<longrightarrow> \<not> terminal (fst a))"
proof -
  have "covers b lo \<longleftrightarrow> first_offset b = lo" if "b \<in> snd ` set m" for b
    using wf_lo [OF wf that] batch_ok_le [OF wf_ok [OF wf that]] by (auto simp: covers_def)
  moreover have "fst (attrs b) = state b" for b by (simp add: attrs_def)
  ultimately show ?thesis
    unfolding settled_def offset_view_Some [OF wf] wf_map_of [OF wf] by metis
qed

lemma acquire_locked_spec:
  assumes inv: "share_inv sp" and src: "ordered_source fetch"
    and res: "acquire_locked member max_records lock_to fetch now sp = (sp', infos)"
    and timeout: "timeout = (case lock_to of None \<Rightarrow> default_lock_timeout sp | Some d \<Rightarrow> d)"
  shows "share_inv sp'" "start_offset sp' = start_offset sp"
    "next_fetch_offset sp \<le> next_fetch_offset sp'"
    "offset_view (batches sp') x = offset_view (batches sp) x \<or>
       granted member now timeout (next_fetch_offset sp) (batches sp) (batches sp') x"
    "\<forall>i\<in>set infos.
       granted member now timeout (next_fetch_offset sp) (batches sp) (batches sp') (info_offset i) \<and>
       rec_offset (info_frame i) = info_offset i \<and>
       offset_view (batches sp') (info_offset i) =
         Some (Acquired, Some member, Some now, timeout, info_delivery_count i)"
    "length infos \<le> max_records"
    "max_delivery_attempts sp' = max_delivery_attempts sp"
    "default_lock_timeout sp' = default_lock_timeout sp"
    "sp' \<noteq> sp \<Longrightarrow> state_version sp' = add64 (state_version sp) 1"
proof -
  note i = share_invD [OF inv]
  obtain m1 infos1 rs1 where av: "acquire_available member max_records timeout now fetch
      (available_keys (batches sp)) (batches sp, [], []) = (m1, infos1, rs1)"
    using prod_cases3 by blast
  obtain nfo m infos' rs where fr: "acquire_fresh member max_records timeout now fetch
      (next_fetch_offset sp) (m1, infos1, rs1) = (nfo, m, infos', rs)"
    using prod_cases4 by blast
  have acq: "acquired member max_records now timeout (start_offset sp) (next_fetch_offset sp) (batches sp)
      (nfo, m, infos', rs)"
    unfolding fr [symmetric]
    by (intro acquire_fresh_acquired acquire_available_acquired [OF i(1,4) src av] i(3) src)
  have sp': "sp' = sp\<lparr>batches := m, next_fetch_offset := nfo,
      timers := fold (\<lambda>(f, l). insort_insert (ExpiryTimer (now + timeout) f l member)) rs (timers sp),
      state_version := (if rs \<noteq> [] then add64 (state_version sp) 1 else state_version sp)\<rparr>"
    and infos: "infos = infos'"
    using res fr av unfolding acquire_locked_def timeout [symmetric] by (simp_all add: Let_def)
  have a: "next_fetch_offset sp \<le> nfo" "nfo < 2 ^ 64" "batches_wf (start_offset sp) nfo m"
    "leases m = leases (batches sp) \<union> range_timers member now timeout rs"
    "\<And>x. if in_ranges rs x then granted member now timeout (next_fetch_offset sp) (batches sp) m x
          else offset_view m x = offset_view (batches sp) x"
    "\<forall>i\<in>set infos. in_ranges rs (info_offset i) \<and> rec_offset (info_frame i) = info_offset i \<and>
         offset_view m (info_offset i) =
           Some (Acquired, Some member, Some now, timeout, info_delivery_count i)"
    "length infos \<le> max_records" "rs = [] \<longrightarrow> m = batches sp \<and> nfo = next_fetch_offset sp"
    using acq unfolding acquired_def prod.case infos by blast+
  have "settled (start_offset sp) m"
    unfolding settled_view [OF a(3)]
  proof (intro allI impI)
    fix st assume st: "offset_view m (start_offset sp) = Some st"
    show "\<not> terminal (fst st)"
      using a(5) [of "start_offset sp"] st i(5) unfolding settled_view [OF i(1)]
      by (cases st) (auto simp: granted_def terminal_def split: if_splits)
  qed
  moreover have "timers_match m (timers sp')"
    using timers_fold [of "timers sp" now timeout member rs] i(2) a(4)
    by (simp add: sp' timers_match_def)
  ultimately show "share_inv sp'" using a(1,2,3) i(3) by (simp add: share_inv_def sp')
  show "start_offset sp' = start_offset sp" "next_fetch_offset sp \<le> next_fetch_offset sp'"
    "max_delivery_attempts sp' = max_delivery_attempts sp"
    "default_lock_timeout sp' = default_lock_timeout sp" "length infos \<le> max_records"
    using a(1,7) by (simp_all add: sp')
  have m: "batches sp' = m" by (simp add: sp')
  show "offset_view (batches sp') x = offset_view (batches sp) x \<or>
       granted member now timeout (next_fetch_offset sp) (batches sp) (batches sp') x"
    using a(5) [of x] unfolding m by (simp split: if_splits)
  show "\<forall>i\<in>set infos.
       granted member now timeout (next_fetch_offset sp) (batches sp) (batches sp') (info_offset i) \<and>
       rec_offset (info_frame i) = info_offset i \<and>
       offset_view (batches sp') (info_offset i) =
         Some (Acquired, Some member, Some now, timeout, info_delivery_count i)"
    unfolding m using a(5,6) by metis
  show "state_version sp' = add64 (state_version sp) 1" if "sp' \<noteq> sp"
    using that a(8) by (cases "rs = []") (auto simp: sp')
qed

lemma sweep_timers_inline_inv: "share_inv sp \<Longrightarrow> share_inv (sweep_timers_inline now sp)"
  using sweep_timers_internal_spec(1)
  by (auto simp: sweep_timers_inline_def split: list.split) (metis prod.collapse)

section \<open>Construction, proved\<close>

definition persisted_ok :: "offset \<Rightarrow> PersistedBatch list \<Rightarrow> bool" where
  "persisted_ok so pbs \<longleftrightarrow>
     sorted_wrt (\<lambda>p q. pb_last_offset p < pb_first_offset q) pbs \<and>
     (\<forall>p\<in>set pbs. so \<le> pb_first_offset p \<and> pb_first_offset p \<le> pb_last_offset p \<and>
        pb_last_offset p < U64_MAX) \<and>
     (\<forall>p\<in>set pbs. pb_first_offset p = so \<longrightarrow> \<not> terminal (pb_state p))"

definition restored_batch :: "duration \<Rightarrow> PersistedBatch \<Rightarrow> InFlightBatch" where
  "restored_batch dlt pb =
     \<lparr>first_offset = pb_first_offset pb, last_offset = pb_last_offset pb,
      state = (if pb_state pb = Acquired then Available else pb_state pb),
      acquired_by = None, acquired_at = None, lock_timeout = dlt,
      delivery_count = pb_delivery_count pb\<rparr>"

lemma bt_insert_last: "(\<forall>e\<in>set m. fst e < k) \<Longrightarrow> bt_insert k v m = m @ [(k, v)]"
  by (induction m) auto

lemma restore_fold:
  assumes "sorted_wrt (\<lambda>p q. pb_last_offset p < pb_first_offset q) pbs"
    "\<forall>p\<in>set pbs. pb_first_offset p \<le> pb_last_offset p \<and> pb_last_offset p < U64_MAX"
    "\<forall>p\<in>set pbs. \<forall>e\<in>set m. fst e < pb_first_offset p"
  shows "fold (restore_step dlt) pbs (n, m) =
     (fold (\<lambda>p n. max n (pb_last_offset p + 1)) pbs n,
      m @ map (\<lambda>p. (pb_first_offset p, restored_batch dlt p)) pbs)"
  using assms
proof (induction pbs arbitrary: n m)
  case Nil
  then show ?case by simp
next
  case (Cons p pbs)
  have "restore_step dlt p (n, m) =
      (max n (pb_last_offset p + 1), m @ [(pb_first_offset p, restored_batch dlt p)])"
    using Cons.prems by (simp add: restore_step_def bt_insert_last restored_batch_def add64_exact)
  moreover have "pb_first_offset p < pb_first_offset q" if "q \<in> set pbs" for q
    using Cons.prems that by fastforce
  ultimately show ?case using Cons.IH [of "m @ [(pb_first_offset p, restored_batch dlt p)]"] Cons.prems
    by auto
qed

lemma fold_max_bounds:
  fixes n :: nat
  shows "n \<le> fold (\<lambda>p n. max n (f p)) ps n \<and> (\<forall>p\<in>set ps. f p \<le> fold (\<lambda>p n. max n (f p)) ps n) \<and>
     (\<forall>b. n \<le> b \<and> (\<forall>p\<in>set ps. f p \<le> b) \<longrightarrow> fold (\<lambda>p n. max n (f p)) ps n \<le> b)"
proof (induction ps arbitrary: n)
  case Nil
  then show ?case by simp
next
  case (Cons p ps)
  from Cons.IH [of "max n (f p)"] show ?case by auto
qed

lemma sorted_wrt_pairD:
  "\<lbrakk>sorted_wrt P xs; x \<in> set xs; y \<in> set xs\<rbrakk> \<Longrightarrow> x = y \<or> P x y \<or> P y x"
  by (induction xs) auto

lemma restore_batches:
  assumes "persisted_ok so pbs"
  shows "batches (restore t p g dlt mda so pbs) =
           map (\<lambda>p. (pb_first_offset p, restored_batch dlt p)) pbs"
    "next_fetch_offset (restore t p g dlt mda so pbs) =
       fold (\<lambda>p n. max n (pb_last_offset p + 1)) pbs so"
    "start_offset (restore t p g dlt mda so pbs) = so" "timers (restore t p g dlt mda so pbs) = []"
    "max_delivery_attempts (restore t p g dlt mda so pbs) = mda"
  using restore_fold [of pbs "[]" dlt so] assms
  by (simp_all add: restore_def persisted_ok_def)

lemma restore_inv:
  assumes ok: "persisted_ok so pbs" and so: "so < 2 ^ 64"
  shows "share_inv (restore t p g dlt mda so pbs)"
proof -
  let ?n = "fold (\<lambda>p n. max n (pb_last_offset p + 1)) pbs so"
  let ?m = "map (\<lambda>p. (pb_first_offset p, restored_batch dlt p)) pbs"
  note b = fold_max_bounds [of so "\<lambda>p. pb_last_offset p + 1" pbs]
  have s: "sorted_wrt (\<lambda>p q. pb_last_offset p < pb_first_offset q) pbs"
    and r: "\<And>p. p \<in> set pbs \<Longrightarrow> so \<le> pb_first_offset p \<and> pb_first_offset p \<le> pb_last_offset p \<and>
      pb_last_offset p < U64_MAX"
    and t: "\<And>p. \<lbrakk>p \<in> set pbs; pb_first_offset p = so\<rbrakk> \<Longrightarrow> \<not> terminal (pb_state p)"
    using ok by (auto simp: persisted_ok_def)
  have apart: "pb_last_offset p < pb_first_offset q"
    if "p \<in> set pbs" "q \<in> set pbs" "pb_first_offset p < pb_first_offset q" for p q
    using sorted_wrt_pairD [OF s that(1,2)] r [OF that(1)] r [OF that(2)] that(3) by auto
  have sorted: "bt_sorted ?m"
    unfolding bt_sorted_def map_map comp_def fst_conv sorted_wrt_map
  proof (rule sorted_wrt_mono_rel [OF _ s])
    fix p q assume "p \<in> set pbs" "pb_last_offset p < pb_first_offset q"
    then show "pb_first_offset p < pb_first_offset q" using r [of p] by simp
  qed
  have wf: "batches_wf so ?n ?m"
    unfolding batches_wf_def
  proof (intro conjI ballI)
    show "bt_sorted ?m" by (rule sorted)
    fix e assume "e \<in> set ?m"
    then obtain p where p: "p \<in> set pbs" and e: "e = (pb_first_offset p, restored_batch dlt p)" by auto
    have "pb_last_offset p < ?n" using b p by (simp add: Suc_le_eq)
    then show "case e of (k, b) \<Rightarrow> k = first_offset b \<and> batch_ok b \<and> so \<le> k \<and> last_offset b < ?n"
      using r [OF p] by (simp add: e restored_batch_def batch_ok_def)
    show "case e of (k, b) \<Rightarrow> \<forall>(k', b')\<in>set ?m. k < k' \<longrightarrow> last_offset b < k'"
      using apart [OF p] by (auto simp: e restored_batch_def)
  qed
  moreover have "leases ?m = {}"
    by (auto simp: leases_def restored_batch_def lease_timer_def)
  moreover have "settled so ?m"
    using t unfolding settled_def wf_map_of [OF wf]
    by (auto simp: restored_batch_def terminal_def split: if_splits)
  moreover have "?n < 2 ^ 64"
  proof -
    have "pb_last_offset p + 1 \<le> U64_MAX" if "p \<in> set pbs" for p using r [OF that] by simp
    then have "?n \<le> U64_MAX" using spec [OF conjunct2 [OF conjunct2 [OF b]], of U64_MAX] so by simp
    then show ?thesis by simp
  qed
  ultimately show ?thesis
    using b by (simp add: share_inv_def restore_batches [OF ok] timers_match_def)
qed

fun restart_attrs :: "duration \<Rightarrow> attrs \<Rightarrow> attrs" where
  "restart_attrs dlt (st, by, at, lt, dc) = (if st = Acquired then Available else st, None, None, dlt, dc)"

lemma snapshot_ok:
  assumes "share_inv sp"
  shows "persisted_ok (fst (snapshot sp)) (snd (snapshot sp))"
proof -
  note i = share_invD [OF assms]
  have keys: "sorted_wrt (\<lambda>e e'. fst e < fst e') (batches sp)"
    using wf_sorted [OF i(1)] by (simp add: bt_sorted_def sorted_wrt_map)
  have all: "fst e = first_offset (snd e) \<and> batch_ok (snd e) \<and> start_offset sp \<le> fst e \<and>
      last_offset (snd e) < next_fetch_offset sp" if "e \<in> set (batches sp)" for e
    using wf_all [OF i(1), of "fst e" "snd e"] that by simp
  have "sorted_wrt (\<lambda>e e'. last_offset (snd e) < first_offset (snd e')) (batches sp)"
    using keys
  proof (rule sorted_wrt_mono_rel [rotated])
    fix e e' assume e: "e \<in> set (batches sp)" "e' \<in> set (batches sp)" "fst e < fst e'"
    then have "last_offset (snd e) < fst e'"
      by (intro wf_pair [OF i(1), of "fst e" "snd e" "fst e'" "snd e'"]) simp_all
    then show "last_offset (snd e) < first_offset (snd e')" using all [OF e(2)] by simp
  qed
  moreover have "\<not> terminal (state (snd e))" if "e \<in> set (batches sp)" "fst e = start_offset sp" for e
  proof -
    have "map_of (batches sp) (start_offset sp) = Some (snd e)"
      unfolding bt_lookup_iff [OF wf_sorted [OF i(1)]] using that by (metis prod.collapse)
    then show ?thesis using i(5) by (simp add: settled_def)
  qed
  ultimately show ?thesis
    using all i(4) by (force simp: persisted_ok_def snapshot_def sorted_wrt_map split_def batch_ok_def)
qed

lemma offset_view_Nil: "offset_view [] x = None"
  by (simp add: offset_view_def batch_at_def)

lemma offset_view_restored:
  "offset_view (map (\<lambda>(k, b). (first_offset b, restored_batch dlt
      \<lparr>pb_first_offset = first_offset b, pb_last_offset = last_offset b, pb_state = state b,
       pb_delivery_count = delivery_count b\<rparr>)) m) x =
   map_option (restart_attrs dlt) (offset_view m x)"
  by (induction m)
     (auto simp: offset_view_Nil offset_view_Cons covers_def restored_batch_def attrs_def)

lemma restart_spec:
  assumes inv: "share_inv sp"
  and sp'_def: "sp' = restore t p g dlt mda (fst (snapshot sp)) (snd (snapshot sp))"
  shows "share_inv sp'" "start_offset sp' = start_offset sp"
    "next_fetch_offset sp' \<le> next_fetch_offset sp"
    "offset_view (batches sp') x = map_option (restart_attrs dlt) (offset_view (batches sp) x)"
proof -
  note i = share_invD [OF inv]
  have so: "fst (snapshot sp) = start_offset sp" by (simp add: snapshot_def)
  note ok = snapshot_ok [OF inv, unfolded so] and sp'_def = sp'_def [unfolded so]
  show "share_inv sp'" unfolding sp'_def using restore_inv [OF ok] i(3,4) by simp
  show "start_offset sp' = start_offset sp" by (simp add: sp'_def restore_batches [OF ok])
  have "last_offset (snd e) + 1 \<le> next_fetch_offset sp" if "e \<in> set (batches sp)" for e
    using wf_all [OF i(1), of "fst e" "snd e"] that by simp
  then have "\<forall>p\<in>set (snd (snapshot sp)). pb_last_offset p + 1 \<le> next_fetch_offset sp"
    by (auto simp: snapshot_def)
  then show "next_fetch_offset sp' \<le> next_fetch_offset sp"
    using spec [OF conjunct2 [OF conjunct2 [OF fold_max_bounds]],
        of "start_offset sp" "next_fetch_offset sp" "snd (snapshot sp)" "\<lambda>p. pb_last_offset p + 1"] i(3)
    by (simp add: sp'_def restore_batches [OF ok])
  have m: "batches sp' = map (\<lambda>(k, b). (first_offset b, restored_batch dlt
      \<lparr>pb_first_offset = first_offset b, pb_last_offset = last_offset b, pb_state = state b,
       pb_delivery_count = delivery_count b\<rparr>)) (batches sp)"
    by (simp add: sp'_def restore_batches [OF ok]) (simp add: snapshot_def split_def)
  show "offset_view (batches sp') x = map_option (restart_attrs dlt) (offset_view (batches sp) x)"
    unfolding m by (rule offset_view_restored)
qed

section \<open>Runs\<close>

text \<open>
  Any interleaving of the critical sections, by any members, at any clock readings and over
  any log that behaves as \<open>ordered_source\<close>.
\<close>

inductive share_step :: "SharePartition \<Rightarrow> SharePartition \<Rightarrow> bool" where
  step_inline: "share_step sp (sweep_timers_inline now sp)"
| step_check: "share_step sp (fst (check_lock_timeouts now sp))"
| step_acquire: "ordered_source fetch \<Longrightarrow>
     share_step sp (fst (acquire_locked member max_records lock_to fetch now sp))"
| step_ack: "\<forall>ack\<in>set acks. valid_ack ack \<Longrightarrow> share_step sp (fst (acknowledge member acks now sp))"

abbreviation share_run :: "SharePartition \<Rightarrow> SharePartition \<Rightarrow> bool" where
  "share_run \<equiv> share_step\<^sup>*\<^sup>*"

text \<open>The three kinds of critical section, as seen offset by offset.\<close>

lemma share_step_cases:
  assumes step: "share_step sp sp'" and inv: "share_inv sp"
  obtains (idle) "sp' = sp"
  | (sweep) now dlq where "sweep_timers_internal now sp = (sp', dlq)"
  | (acquire) member max_records lock_to fetch now infos where "ordered_source fetch"
      "acquire_locked member max_records lock_to fetch now sp = (sp', infos)"
  | (ack) member acks now dlq where "\<forall>ack\<in>set acks. valid_ack ack"
      "acknowledge member acks now sp = (sp', dlq)"
  using step
proof cases
  case (step_inline now)
  then show ?thesis
    using that(1) that(2) [of now "snd (sweep_timers_internal now sp)"]
    by (auto simp: sweep_timers_inline_def split: list.splits if_splits)
next
  case (step_check now)
  then show ?thesis
    using that(2) [of now "snd (sweep_timers_internal now sp)"] by (simp add: check_lock_timeouts_def)
next
  case (step_acquire fetch member n lock_to now)
  then show ?thesis
    using that(3) [of fetch member n lock_to now "snd (acquire_locked member n lock_to fetch now sp)"]
    by simp
next
  case (step_ack acks member now)
  then show ?thesis
    using that(4) [of acks member now "snd (acknowledge member acks now sp)"] by simp
qed

lemma share_step_inv: "\<lbrakk>share_step sp sp'; share_inv sp\<rbrakk> \<Longrightarrow> share_inv sp'"
  by (erule (1) share_step_cases)
     (auto dest: sweep_timers_internal_spec(1) acquire_locked_spec(1) [OF _ _ _ refl] acknowledge_spec(1))

lemma share_run_keeps_inv: "\<lbrakk>share_run sp sp'; share_inv sp\<rbrakk> \<Longrightarrow> share_inv sp'"
  by (induction rule: rtranclp_induct) (auto intro: share_step_inv)

text \<open>
  The same runs as sequences of calls, for statements that name the conditions on the calls:
  \<open>call_ok\<close> asks of an acquisition that the log behaves as \<open>ordered_source\<close>, and of an
  acknowledgement that no range it names is inverted. The code checks neither.
\<close>

datatype share_call =
    CallSweep instant
  | CallCheck instant
  | CallAcquire string nat "duration option" fetch_fn instant
  | CallAcknowledge string "AckBatch list" instant

fun run_call :: "share_call \<Rightarrow> SharePartition \<Rightarrow> SharePartition" where
  "run_call (CallSweep now) sp = sweep_timers_inline now sp"
| "run_call (CallCheck now) sp = fst (check_lock_timeouts now sp)"
| "run_call (CallAcquire member max_records lock_to fetch now) sp =
     fst (acquire_locked member max_records lock_to fetch now sp)"
| "run_call (CallAcknowledge member acks now) sp = fst (acknowledge member acks now sp)"

fun call_ok :: "share_call \<Rightarrow> bool" where
  "call_ok (CallAcquire member max_records lock_to fetch now) \<longleftrightarrow> ordered_source fetch"
| "call_ok (CallAcknowledge member acks now) \<longleftrightarrow> list_all valid_ack acks"
| "call_ok _ \<longleftrightarrow> True"

lemma share_call_step: "call_ok c \<Longrightarrow> share_step sp (run_call c sp)"
  by (cases c) (auto simp: list_all_iff intro: share_step.intros)

lemma share_calls_run: "\<forall>c\<in>set cs. call_ok c \<Longrightarrow> share_run sp (fold run_call cs sp)"
proof (induction cs arbitrary: sp)
  case (Cons c cs)
  then have "share_step sp (run_call c sp)" by (simp add: share_call_step)
  then show ?case
    using Cons by (simp add: converse_rtranclp_into_rtranclp [of share_step])
qed simp

lemma share_step_config:
  assumes "share_step sp sp'" "share_inv sp"
  shows "max_delivery_attempts sp' = max_delivery_attempts sp \<and>
     default_lock_timeout sp' = default_lock_timeout sp \<and> start_offset sp \<le> start_offset sp'"
  using assms
proof (cases rule: share_step_cases)
  case (sweep now dlq)
  then show ?thesis using sweep_timers_internal_spec(5,8,9) [OF assms(2) sweep] by simp
next
  case (acquire member n lock_to fetch now infos)
  then show ?thesis using acquire_locked_spec(2,7,8) [OF assms(2) acquire refl] by simp
next
  case (ack member acks now dlq)
  then show ?thesis using acknowledge_spec(4,7,8) [OF assms(2) ack] by simp
qed simp

lemma share_step_tracked:
  assumes step: "share_step sp sp'" and inv: "share_inv sp"
    and x: "offset_view (batches sp) x \<noteq> None" "start_offset sp' \<le> x"
  shows "offset_view (batches sp') x \<noteq> None"
  using step inv
proof (cases rule: share_step_cases)
  case (sweep now dlq)
  then show ?thesis using sweep_timers_internal_spec(3) [OF inv sweep, of x] x by auto
next
  case (acquire member n lock_to fetch now infos)
  then show ?thesis using acquire_locked_spec(4) [OF inv acquire refl, of x] x by (auto simp: granted_def)
next
  case (ack member acks now dlq)
  then show ?thesis using acknowledge_spec(2) [OF inv ack, of x] x by auto
qed (use x in simp)

lemma share_step_version_aux:
  assumes step: "share_step sp sp'" and inv: "share_inv sp" and ne: "sp' \<noteq> sp"
  shows "state_version sp' = add64 (state_version sp) 1"
  using step inv
proof (cases rule: share_step_cases)
  case (sweep now dlq)
  then show ?thesis using sweep_timers_internal_spec(10) [OF inv sweep ne] by simp
next
  case (acquire member n lock_to fetch now infos)
  then show ?thesis using acquire_locked_spec(9) [OF inv acquire refl ne] by simp
next
  case (ack member acks now dlq)
  then show ?thesis using acknowledge_spec(9) [OF inv ack ne] by simp
qed (use ne in simp)

section \<open>The delivery ceiling\<close>

fun attrs_ceiling :: "nat \<Rightarrow> attrs \<Rightarrow> bool" where
  "attrs_ceiling mda (st, by, at, lt, dc) \<longleftrightarrow> dc \<le> mda \<and> (st = Available \<longrightarrow> dc < mda)"

definition within_ceiling :: "SharePartition \<Rightarrow> bool" where
  "within_ceiling sp \<longleftrightarrow>
     (\<forall>(k, b)\<in>set (batches sp). attrs_ceiling (max_delivery_attempts sp) (attrs b))"





lemma granted_ceiling:
  assumes "granted member now timeout nfo m m' x" "offset_view m' x = Some a'" "0 < mda" "mda < 2 ^ 16"
    "\<And>a. offset_view m x = Some a \<Longrightarrow> attrs_ceiling mda a"
  shows "attrs_ceiling mda a'"
  using assms by (auto simp: granted_def add16_exact)

text \<open>Any condition on the attributes of single offsets that the three kinds of step keep.\<close>

lemma share_step_attrs:
  assumes step: "share_step sp sp'" and inv: "share_inv sp"
    and sweep_Q: "\<And>now a. Q a \<Longrightarrow> Q (sweep_attrs now (max_delivery_attempts sp) a)"
    and ack_Q: "\<And>member now acks x a. Q a \<Longrightarrow> Q (acks_attrs member now (max_delivery_attempts sp) acks x a)"
    and lease_Q: "\<And>member now timeout lt dc. Q (Available, None, None, lt, dc) \<Longrightarrow>
        Q (Acquired, Some member, Some now, timeout, add16 dc 1)"
    and fresh_Q: "\<And>member now timeout. Q (Acquired, Some member, Some now, timeout, 1)"
    and old: "\<And>x a. offset_view (batches sp) x = Some a \<Longrightarrow> Q a"
    and a': "offset_view (batches sp') x = Some a'"
  shows "Q a'"
  using step inv
proof (cases rule: share_step_cases)
  case idle
  then show ?thesis using old a' by simp
next
  case (sweep now dlq)
  obtain a where "offset_view (batches sp) x = Some a"
    "a' = sweep_attrs now (max_delivery_attempts sp) a"
    using sweep_timers_internal_spec(3) [OF inv sweep, of x] a'
    by (cases "offset_view (batches sp) x") (simp_all split: if_splits)
  then show ?thesis using old sweep_Q by blast
next
  case (acquire member n lock_to fetch now infos)
  define timeout where
    "timeout = (case lock_to of None \<Rightarrow> default_lock_timeout sp | Some d \<Rightarrow> d)"
  consider "offset_view (batches sp) x = Some a'"
    | lt dc where "offset_view (batches sp) x = Some (Available, None, None, lt, dc)"
        "a' = (Acquired, Some member, Some now, timeout, add16 dc 1)"
    | "a' = (Acquired, Some member, Some now, timeout, 1)"
    using acquire_locked_spec(4) [OF inv acquire timeout_def, of x] a' unfolding granted_def by auto
  then show ?thesis by cases (use old lease_Q fresh_Q in \<open>blast+\<close>)
next
  case (ack member acks now dlq)
  obtain a where "offset_view (batches sp) x = Some a"
    "a' = acks_attrs member now (max_delivery_attempts sp) acks x a"
    using acknowledge_spec(2) [OF inv ack, of x] a'
    by (cases "offset_view (batches sp) x") (simp_all split: if_splits)
  then show ?thesis using old ack_Q by blast
qed


text \<open>Delivery counts fit their \<open>u16\<close> field.\<close>

definition counts_fit :: "SharePartition \<Rightarrow> bool" where
  "counts_fit sp \<longleftrightarrow> (\<forall>(k, b)\<in>set (batches sp). delivery_count b < 2 ^ 16)"

lemma counts_fit_view:
  assumes inv: "share_inv sp"
  shows "counts_fit sp \<longleftrightarrow>
    (\<forall>x a. offset_view (batches sp) x = Some a \<longrightarrow> snd (snd (snd (snd a))) < 2 ^ 16)"
proof -
  note wf = share_invD(1) [OF inv]
  have "covers b (first_offset b)" if "b \<in> snd ` set (batches sp)" for b
    using batch_ok_le [OF wf_ok [OF wf that]] by (simp add: covers_def)
  moreover have "counts_fit sp \<longleftrightarrow>
      (\<forall>b\<in>snd ` set (batches sp). snd (snd (snd (snd (attrs b)))) < 2 ^ 16)"
    by (auto simp: counts_fit_def attrs_def simp del: split_paired_All)
  ultimately show ?thesis unfolding offset_view_Some [OF wf] by blast
qed

lemma sweep_attrs_count: "snd (snd (snd (snd (sweep_attrs now mda a)))) = snd (snd (snd (snd a)))"
  by (cases a) (simp split: option.split)

lemma acks_attrs_count:
  "snd (snd (snd (snd (acks_attrs member now mda acks x a)))) \<le> snd (snd (snd (snd a)))"
proof (induction acks arbitrary: a)
  case Nil
  then show ?case by simp
next
  case (Cons ack acks)
  have "snd (snd (snd (snd (ack_attrs member now mda (ack_type ack) a)))) \<le> snd (snd (snd (snd a)))"
    by (cases a) (simp split: AcknowledgeType.split)
  then show ?case using Cons [of "ack_attrs member now mda (ack_type ack) a"] Cons [of a] by simp
qed

lemma counts_fit_step:
  assumes step: "share_step sp sp'" and inv: "share_inv sp" and c: "counts_fit sp"
  shows "counts_fit sp'"
proof -
  have "snd (snd (snd (snd a'))) < 2 ^ 16" if a': "offset_view (batches sp') x = Some a'" for x a'
  proof (rule share_step_attrs [OF step inv _ _ _ _ _ a'])
    show "snd (snd (snd (snd a))) < 2 ^ 16" if "offset_view (batches sp) x = Some a" for x a
      using c that unfolding counts_fit_view [OF inv] by blast
    show "snd (snd (snd (snd (acks_attrs member now (max_delivery_attempts sp) acks x a)))) < 2 ^ 16"
      if "snd (snd (snd (snd a))) < 2 ^ 16" for member now acks x a
      using acks_attrs_count that by (rule le_less_trans)
    show "snd (snd (snd (snd (Acquired, Some member, Some now, timeout, add16 dc 1)))) < 2 ^ 16"
      for member now timeout dc
      using add16_less [of dc 1] by simp
  qed (simp_all add: sweep_attrs_count)
  then show ?thesis unfolding counts_fit_view [OF share_step_inv [OF step inv]] by blast
qed

text \<open>The identity of a partition never changes.\<close>

definition ident :: "SharePartition \<Rightarrow> string \<times> string \<times> nat" where
  "ident sp = (sp_group_id sp, sp_topic sp, sp_partition sp)"

lemma ident_simps [simp]:
  "ident (fst (sweep_timers_internal now sp)) = ident sp"
  "ident (fst (check_lock_timeouts now sp)) = ident sp"
  "ident (sweep_timers_inline now sp) = ident sp"
  "ident (fst (acknowledge member acks now sp)) = ident sp"
  "ident (fst (acquire_locked member n lock_to fetch now sp)) = ident sp"
  "ident (fst (acquire_records member n lock_to fetch now sp)) = ident sp"
proof -
  show sw: "ident (fst (sweep_timers_internal now sp)) = ident sp" for sp
    by (simp add: ident_def sweep_timers_internal_def split: prod.split)
  then show "ident (fst (check_lock_timeouts now sp)) = ident sp"
    by (simp add: check_lock_timeouts_def)
  show inl: "ident (sweep_timers_inline now sp) = ident sp"
    using sw by (simp add: sweep_timers_inline_def split: list.split)
  show "ident (fst (acknowledge member acks now sp)) = ident sp"
    by (simp add: ident_def acknowledge_def split: prod.split)
  show acq: "ident (fst (acquire_locked member n lock_to fetch now sp)) = ident sp" for sp
    by (simp add: ident_def acquire_locked_def Let_def split: prod.split)
  show "ident (fst (acquire_records member n lock_to fetch now sp)) = ident sp"
    by (simp add: acquire_records_def acq inl)
qed

section \<open>Properties\<close>

text \<open>A three-record log, a partition restored over it and leases on it, for the witnesses.\<close>

definition demo_record :: "offset \<Rightarrow> Record" where
  "demo_record x = \<lparr>rec_offset = x, rec_timestamp = 0, rec_key = None, rec_value = None,
                    is_control = False\<rparr>"

definition demo_fetch :: fetch_fn where
  "demo_fetch s n = Inr (filter (\<lambda>r. s \<le> rec_offset r) (map demo_record [0, 1, 2]))"

definition demo_start :: SharePartition where
  "demo_start = restore ''t'' 0 ''g'' 30 2 0 []"

definition demo_leased :: SharePartition where
  "demo_leased = fst (acquire_locked ''m'' 3 None demo_fetch 100 demo_start)"

lemma demo_fetch_ordered: "ordered_source demo_fetch"
  by (auto simp: ordered_source_def demo_fetch_def demo_record_def sorted_wrt_map sorted_wrt_filter)

lemma demo_start_inv: "share_inv demo_start"
  unfolding demo_start_def by (rule restore_inv) (simp_all add: persisted_ok_def)

lemma demo_step: "share_step demo_start demo_leased"
  unfolding demo_leased_def by (rule step_acquire [OF demo_fetch_ordered])

lemma demo_run: "share_run demo_start demo_leased"
  by (rule r_into_rtranclp [of share_step, OF demo_step])

lemma demo_leased_inv: "share_inv demo_leased"
  by (rule share_step_inv [OF demo_step demo_start_inv])

lemma demo_leased_eq:
  "batches demo_leased = [(0, lease ''m'' 100 30 0 2 1)]"
  "timers demo_leased = [ExpiryTimer 130 0 2 ''m'']" "start_offset demo_leased = 0"
  "next_fetch_offset demo_leased = 3" "max_delivery_attempts demo_leased = 2"
  by (simp_all add: demo_leased_def demo_start_def restore_def acquire_locked_def acquire_fresh_def
      available_keys_def demo_fetch_def demo_record_def add64_def insort_insert_key_def)

lemma demo_infos:
  "map info_offset (snd (acquire_locked ''m'' 3 None demo_fetch 100 demo_start)) = [0, 1, 2]"
  by (simp add: demo_start_def restore_def acquire_locked_def acquire_fresh_def
      available_keys_def demo_fetch_def demo_record_def add64_def)

text \<open>C2 (\<^emph>\<open>invariant\<close>). From any well-formed persisted state, after any sequence of acquisitions,
  acknowledgements and timeout sweeps by any members in which every acknowledged range has its
  first offset at or below its last one, and every read of the log returns records in strictly
  ascending offset order, the partition satisfies its invariant:
  in-flight ranges are disjoint, keyed by their first offset and lie between the watermark and
  \<open>next_fetch_offset\<close>; a range is leased exactly when it has an owner and a lease time; the
  timers are exactly the expiries of the current leases; and no finished range sits at the
  watermark. The condition on acknowledged ranges is needed and nothing in the code enforces it:
  \<open>inverted_ack_breaks_invariant\<close> shows one inverted range destroying the invariant.\<close>

theorem share_run_invariant:
  assumes "persisted_ok so pbs" "so < 2 ^ 64" "\<forall>c\<in>set calls. call_ok c"
  shows "share_inv (fold run_call calls (restore topic pidx gid dlt mda so pbs))"
  using share_run_keeps_inv [OF share_calls_run [OF assms(3)]] restore_inv [OF assms(1,2)] by blast

theorem share_run_invariant_witness:
  "share_inv (fold run_call
     [CallAcquire ''m'' 3 None demo_fetch 100,
      CallAcknowledge ''m'' [\<lparr>ack_first = 1, ack_last = 1, ack_type = Accept\<rparr>] 110, CallCheck 200]
     (restore ''t'' 0 ''g'' 30 2 0 []))"
  by (rule share_run_invariant) (auto simp: persisted_ok_def valid_ack_def demo_fetch_ordered)

text \<open>C10 (\<^emph>\<open>exclusive delivery\<close>). Every record an acquisition hands out was, at that moment, leased to
  nobody (it was available, or had never been fetched); afterwards it is leased to the
  acquiring member with the delivery count the record carries, one more than before; and at
  most \<open>max_records\<close> records are handed out.\<close>

theorem acquire_exclusive:
  assumes "share_inv sp" "ordered_source fetch"
    and "acquire_locked member max_records lock_to fetch now sp = (sp', infos)"
  shows "length infos \<le> max_records \<and>
    (\<forall>i\<in>set infos. rec_offset (info_frame i) = info_offset i \<and>
       granted member now (case lock_to of None \<Rightarrow> default_lock_timeout sp | Some d \<Rightarrow> d)
         (next_fetch_offset sp) (batches sp) (batches sp') (info_offset i) \<and>
       offset_view (batches sp') (info_offset i) =
         Some (Acquired, Some member, Some now,
               case lock_to of None \<Rightarrow> default_lock_timeout sp | Some d \<Rightarrow> d, info_delivery_count i))"
  using acquire_locked_spec(5,6) [OF assms refl] by blast

theorem acquire_exclusive_witness:
  "map info_offset (snd (acquire_locked ''m'' 3 None demo_fetch 100 demo_start)) = [0, 1, 2] \<and>
   length (snd (acquire_locked ''m'' 3 None demo_fetch 100 demo_start)) \<le> 3"
  using demo_infos
    acquire_exclusive [OF demo_start_inv demo_fetch_ordered prod.collapse [symmetric], of "''m''" 3 None 100]
  by simp

text \<open>C11 (\<^emph>\<open>refinement\<close>). Acknowledging ranges refines the obvious per-offset specification: splitting and
  re-keying of ranges is invisible. Each offset inside an acknowledged range that the member
  owns gets the state its acknowledgement prescribes, every other offset is untouched, the
  offsets returned for the dead-letter queue are exactly those archived by the request, and
  the watermark moves only over offsets that are acknowledged or archived.\<close>

theorem acknowledge_refines_offsets:
  assumes "share_inv sp" "\<forall>ack\<in>set acks. valid_ack ack"
    and "acknowledge member acks now sp = (sp', dlq)"
  shows "offset_view (batches sp') x =
      (if x < start_offset sp' then None
       else map_option (acks_attrs member now (max_delivery_attempts sp) acks x)
              (offset_view (batches sp) x)) \<and>
    set dlq = {x. \<exists>a. offset_view (batches sp) x = Some a \<and>
                      acks_dead member now (max_delivery_attempts sp) acks x a} \<and>
    (start_offset sp \<le> x \<and> x < start_offset sp' \<longrightarrow>
       (\<exists>a. offset_view (batches sp) x = Some a \<and>
            terminal (fst (acks_attrs member now (max_delivery_attempts sp) acks x a))))"
  using acknowledge_spec(2,3,6) [OF assms] by blast

theorem acknowledge_refines_offsets_witness:
  "set (snd (acknowledge ''m'' [\<lparr>ack_first = 1, ack_last = 1, ack_type = Reject\<rparr>] 110 demo_leased)) = {1}"
proof -
  let ?acks = "[\<lparr>ack_first = 1, ack_last = 1, ack_type = Reject\<rparr>]"
  have "set (snd (acknowledge ''m'' ?acks 110 demo_leased)) =
      {x. \<exists>a. offset_view (batches demo_leased) x = Some a \<and>
              acks_dead ''m'' 110 (max_delivery_attempts demo_leased) ?acks x a}"
    using acknowledge_refines_offsets [OF demo_leased_inv, of ?acks "''m''" 110
        "fst (acknowledge ''m'' ?acks 110 demo_leased)" "snd (acknowledge ''m'' ?acks 110 demo_leased)"]
    by (simp add: valid_ack_def)
  also have "\<dots> = {1}"
    by (auto simp: demo_leased_eq offset_view_Cons offset_view_Nil attrs_lease covers_def in_ack_def
        split: if_splits)
  finally show ?thesis .
qed

text \<open>C12 (\<^emph>\<open>lease expiry\<close>). A sweep at time \<open>now\<close> expires exactly the leases whose term has passed: each
  of their offsets becomes available again, or archived and reported for the dead-letter
  queue once the delivery ceiling is reached; every other offset keeps its state; and no
  timer at or before \<open>now\<close> is left.\<close>

theorem sweep_expires_exactly:
  assumes "share_inv sp" "check_lock_timeouts now sp = (sp', dlq)"
  shows "offset_view (batches sp') x =
      (if x < start_offset sp' then None
       else map_option (sweep_attrs now (max_delivery_attempts sp)) (offset_view (batches sp) x)) \<and>
    set dlq = {x. \<exists>a. offset_view (batches sp) x = Some a \<and>
                      sweep_dead now (max_delivery_attempts sp) a} \<and>
    (\<forall>t\<in>set (timers sp'). now < expire_at t) \<and> share_inv sp'"
  using sweep_timers_internal_spec [OF assms(1) assms(2) [unfolded check_lock_timeouts_def]] by blast

theorem sweep_expires_exactly_witness:
  "offset_view (batches (fst (check_lock_timeouts 130 demo_leased))) 1 = Some (Available, None, None, 30, 1) \<and>
   snd (check_lock_timeouts 130 demo_leased) = []"
proof -
  obtain sp' dlq where res: "check_lock_timeouts 130 demo_leased = (sp', dlq)" by force
  have "batches sp' = [(0, (lease ''m'' 100 30 0 2 1)\<lparr>state := Available, acquired_by := None,
      acquired_at := None\<rparr>)]" "start_offset sp' = 0"
    using res by (auto simp: check_lock_timeouts_def sweep_timers_internal_def finish_def demo_leased_eq
        matching_keys_def reap_key_def reap_batch_def lease_def)
  then show ?thesis
    using sweep_expires_exactly [OF demo_leased_inv res, of 1] res
    by (auto simp: demo_leased_eq offset_view_Cons offset_view_Nil attrs_lease covers_def split: if_splits)
qed

text \<open>(\<^emph>\<open>no record is forgotten\<close>). Along every run, an offset that is tracked and has not been passed
  by the watermark stays tracked, and the watermark never moves back.\<close>

theorem share_run_keeps_tracked:
  assumes "share_run sp sp'" "share_inv sp"
  shows "start_offset sp \<le> start_offset sp' \<and>
    (\<forall>x. offset_view (batches sp) x \<noteq> None \<and> start_offset sp' \<le> x \<longrightarrow>
         offset_view (batches sp') x \<noteq> None)"
  using assms
proof (induction rule: rtranclp_induct)
  case base
  then show ?case by simp
next
  case (step sp1 sp2)
  have inv: "share_inv sp1" using share_run_keeps_inv [OF step.hyps(1) step.prems] .
  note c = share_step_config [OF step.hyps(2) inv]
  show ?case
    using step.IH [OF step.prems] c share_step_tracked [OF step.hyps(2) inv] by (meson le_trans)
qed

theorem share_run_keeps_tracked_witness:
  "offset_view (batches demo_leased) 2 \<noteq> None \<and> start_offset demo_start \<le> start_offset demo_leased"
  using share_run_keeps_tracked [OF demo_run demo_start_inv]
  by (simp add: demo_leased_eq offset_view_Cons covers_def)



text \<open>(\<^emph>\<open>round trip\<close>). Restarting from a snapshot brings back the same offsets with the same states and
  delivery counts, leased offsets becoming available; the watermark is the same, the
  invariant holds and nothing beyond the tracked offsets is skipped.\<close>

theorem snapshot_restore_roundtrip:
  assumes "share_inv sp"
    and "sp' = restore topic pidx gid dlt mda (fst (snapshot sp)) (snd (snapshot sp))"
  shows "share_inv sp' \<and> start_offset sp' = start_offset sp \<and>
    next_fetch_offset sp' \<le> next_fetch_offset sp \<and>
    offset_view (batches sp') x = map_option (restart_attrs dlt) (offset_view (batches sp) x)"
  using restart_spec [OF assms] by simp

theorem snapshot_restore_roundtrip_witness:
  "offset_view (batches (restore ''t'' 0 ''g'' 5 2 (fst (snapshot demo_leased)) (snd (snapshot demo_leased)))) 1
   = Some (Available, None, None, 5, 1)"
  using snapshot_restore_roundtrip [OF demo_leased_inv refl, of "''t''" 0 "''g''" 5 2 1]
  by (simp add: demo_leased_eq offset_view_Cons covers_def attrs_lease)

text \<open>Every critical section that changes the partition at all, be it only a
  delivery count or a lease, moves \<open>state_version\<close> by exactly one, so comparing versions
  never misses a change that has to be persisted.\<close>

theorem state_version_tracks_changes:
  assumes "share_step sp sp'" "share_inv sp" "sp' \<noteq> sp"
  shows "state_version sp' = add64 (state_version sp) 1 \<and> state_version sp' \<noteq> state_version sp"
proof -
  have "add64 v 1 \<noteq> v" for v
  proof (cases "v < U64_MAX")
    case True
    then show ?thesis by (simp add: add64_exact)
  next
    case False
    then show ?thesis using add64_less [of v 1] by (cases "v = U64_MAX") (auto simp: add64_def)
  qed
  then show ?thesis using share_step_version_aux [OF assms] by simp
qed

theorem state_version_tracks_changes_witness: "state_version demo_leased \<noteq> state_version demo_start"
proof -
  have "batches demo_start = []" by (simp add: demo_start_def restore_def)
  then have "demo_leased \<noteq> demo_start" using demo_leased_eq(1) by auto
  then show ?thesis
    using state_version_tracks_changes [OF demo_step demo_start_inv] by simp
qed

section \<open>Limits of the code\<close>

text \<open>
  The methods accept an acknowledgement whose range is inverted; the split then leaves
  overlapping ranges behind. The request decoder does not rule such a range out.
\<close>

lemma inverted_ack_breaks_invariant:
  "\<not> share_inv (fst (acknowledge ''m'' [\<lparr>ack_first = 2, ack_last = 0, ack_type = Accept\<rparr>] 110 demo_leased))"
proof -
  have "batches (fst (acknowledge ''m'' [\<lparr>ack_first = 2, ack_last = 0, ack_type = Accept\<rparr>] 110 demo_leased)) =
    [(0, lease ''m'' 100 30 0 1 1), (1, lease ''m'' 100 30 1 2 1),
     (2, \<lparr>first_offset = 2, last_offset = 0, state = Acknowledged, acquired_by = None,
          acquired_at = None, lock_timeout = 30, delivery_count = 1\<rparr>)]"
    by (simp add: acknowledge_def ack_one_def ack_key_def ack_batch_def apply_ack_def lease_def
        matching_keys_def demo_leased_eq finish_def sub64_def add64_def Let_def)
  then show ?thesis
    by (auto simp: share_inv_def batches_wf_def lease_def)
qed

text \<open>
  A lease on its last delivery becomes available again when the partition is restored, so a
  restart allows one delivery more than the ceiling.
\<close>

lemma restore_exceeds_ceiling:
  "within_ceiling (restore ''t'' 0 ''g'' 30 2 0
     [\<lparr>pb_first_offset = 0, pb_last_offset = 2, pb_state = Acquired, pb_delivery_count = 2\<rparr>]) = False"
  by (simp add: within_ceiling_def restore_def restore_step_def attrs_def)

end
