(* ===== verification/Record_Stream.thy ===== *)
theory Record_Stream
  imports Prelude
begin

text \<open>
  Recovery of append-only record logs. The consumer-offset log
  (\<^verbatim>\<open>src/consumer_group.rs\<close>, \<open>open\<close>) and the share-state log
  (\<^verbatim>\<open>src/server/share/manager.rs\<close>, \<open>decode_stream\<close>) are read by the same two nested
  loops: read a chunk, append it to a buffer, parse records off the front while whole ones
  are there, drop the parsed prefix, and stop at the first corrupt one. The loops are
  \<open>drain\<close> (the inner one) and \<open>read_chunks\<close> (the outer one) over the parser of one record.

  The locale \<open>stream_parser\<close> is what the loops rely on: a verdict on a buffer does not
  change when more bytes arrive. Under it the result does not depend on how the file is cut
  into chunks. \<open>stream_codec\<close> adds that an encoded record parses back; then a log of
  encoded records, whole or with a torn last record, recovers exactly those records.
\<close>

section \<open>Parsers of one record\<close>

datatype 'a parse_step = Need | Bad | Got 'a bytes

definition pbind :: "'a parse_step \<Rightarrow> ('a \<Rightarrow> bytes \<Rightarrow> 'b parse_step) \<Rightarrow> 'b parse_step" where
  "pbind s f = (case s of Need \<Rightarrow> Need | Bad \<Rightarrow> Bad | Got r rest \<Rightarrow> f r rest)"

text \<open>The tests of the loops: \<open>temp + k > buf.len()\<close> breaks out to wait for more input.\<close>

definition need_magic :: "byte \<Rightarrow> bytes \<Rightarrow> unit parse_step" where
  "need_magic magic buf =
     (case buf of [] \<Rightarrow> Need | b # rest \<Rightarrow> if b = magic then Got () rest else Bad)"

definition need_be :: "nat \<Rightarrow> bytes \<Rightarrow> nat parse_step" where
  "need_be k buf = (if length buf < k then Need else Got (be_val (take k buf)) (drop k buf))"

definition need_utf8 :: "nat \<Rightarrow> bytes \<Rightarrow> string parse_step" where
  "need_utf8 n buf =
     (if length buf < n then Need
      else case from_utf8 (take n buf) of None \<Rightarrow> Bad | Some s \<Rightarrow> Got s (drop n buf))"

definition require :: "nat \<Rightarrow> bytes \<Rightarrow> unit parse_step" where
  "require n buf = (if length buf < n then Need else Got () buf)"

definition need_string :: "bytes \<Rightarrow> string parse_step" where
  "need_string buf = pbind (need_be 2 buf) need_utf8"

text \<open>A checksum over the bytes consumed so far, \<open>buf[cursor..temp - 4]\<close>.\<close>

definition checked :: "(bytes \<Rightarrow> nat) \<Rightarrow> (bytes \<Rightarrow> 'a parse_step) \<Rightarrow> bytes \<Rightarrow> 'a parse_step" where
  "checked crc body buf =
     pbind (body buf) (\<lambda>r rest. pbind (need_be 4 rest) (\<lambda>c rest'.
       if crc (take (length buf - length rest) buf) = c then Got r rest' else Bad))"

text \<open>The outcome of \<open>write_all\<close>: everything, or an error after some bytes.\<close>

datatype write_result = Written | Torn nat

section \<open>The loops\<close>

function drain :: "(bytes \<Rightarrow> 'a parse_step) \<Rightarrow> bytes \<Rightarrow> 'a list \<times> bytes \<times> bool" where
  "drain p buf =
     (if buf = [] then ([], [], False)
      else case p buf of
             Need \<Rightarrow> ([], buf, False)
           | Bad \<Rightarrow> ([], buf, True)
           | Got r rest \<Rightarrow>
               if length rest < length buf
               then (case drain p rest of (rs, left, bad) \<Rightarrow> (r # rs, left, bad))
               else ([], buf, False))"
  by pat_completeness auto
termination by (relation "measure (\<lambda>(p, buf). length buf)") auto

declare drain.simps [simp del]

text \<open>The position \<open>pos\<close> is \<open>last_good_pos\<close>: how many bytes of the file have been parsed.\<close>

fun read_chunks :: "(bytes \<Rightarrow> 'a parse_step) \<Rightarrow> nat \<Rightarrow> bytes \<Rightarrow> bytes list \<Rightarrow> 'a list \<times> nat \<times> bool" where
  "read_chunks p pos buf [] = ([], pos, False)"
| "read_chunks p pos buf (c # cs) =
     (case drain p (buf @ c) of (rs, left, bad) \<Rightarrow>
        (let pos' = pos + (length (buf @ c) - length left) in
         if bad then (rs, pos', True)
         else (case read_chunks p pos' left cs of (rs', pos'', bad') \<Rightarrow> (rs @ rs', pos'', bad'))))"

section \<open>Stability\<close>

definition stable :: "(bytes \<Rightarrow> 'a parse_step) \<Rightarrow> bool" where
  "stable p \<longleftrightarrow>
     (\<forall>xs ys r rest. p xs = Got r rest \<longrightarrow> p (xs @ ys) = Got r (rest @ ys)) \<and>
     (\<forall>xs ys. p xs = Bad \<longrightarrow> p (xs @ ys) = Bad) \<and>
     (\<forall>xs r rest. p xs = Got r rest \<longrightarrow> (\<exists>pre. xs = pre @ rest))"

lemma stableD:
  assumes "stable p"
  shows "p xs = Got r rest \<Longrightarrow> p (xs @ ys) = Got r (rest @ ys)"
    and "p xs = Bad \<Longrightarrow> p (xs @ ys) = Bad"
    and "p xs = Got r rest \<Longrightarrow> \<exists>pre. xs = pre @ rest"
  using assms unfolding stable_def by blast+

lemma stableI:
  assumes "\<And>xs ys r rest. p xs = Got r rest \<Longrightarrow> p (xs @ ys) = Got r (rest @ ys)"
    and "\<And>xs ys. p xs = Bad \<Longrightarrow> p (xs @ ys) = Bad"
    and "\<And>xs r rest. p xs = Got r rest \<Longrightarrow> \<exists>pre. xs = pre @ rest"
  shows "stable p"
  using assms unfolding stable_def by blast

named_theorems stable_intros \<open>stability of parsers\<close>

lemma pbind_Got [simp]: "pbind (Got r rest) f = f r rest"
  by (simp add: pbind_def)

lemma pbind_eq_Got: "pbind s f = Got r rest \<longleftrightarrow> (\<exists>r' rest'. s = Got r' rest' \<and> f r' rest' = Got r rest)"
  by (cases s) (auto simp: pbind_def)

lemma pbind_eq_Bad: "pbind s f = Bad \<longleftrightarrow> s = Bad \<or> (\<exists>r' rest'. s = Got r' rest' \<and> f r' rest' = Bad)"
  by (cases s) (auto simp: pbind_def)

lemma stable_bind [stable_intros]:
  assumes p: "stable p" and q: "\<And>r. stable (q r)"
  shows "stable (\<lambda>xs. pbind (p xs) q)"
proof (rule stableI)
  fix xs ys r rest assume "pbind (p xs) q = Got r rest"
  then obtain r' rest' where s: "p xs = Got r' rest'" "q r' rest' = Got r rest"
    by (auto simp: pbind_eq_Got)
  show "pbind (p (xs @ ys)) q = Got r (rest @ ys)"
    using stableD(1) [OF p s(1)] stableD(1) [OF q s(2)] by simp
  show "\<exists>pre. xs = pre @ rest"
    using stableD(3) [OF p s(1)] stableD(3) [OF q s(2)] by (metis append.assoc)
next
  fix xs ys assume "pbind (p xs) q = Bad"
  then show "pbind (p (xs @ ys)) q = Bad"
    using stableD(2) [OF p] stableD(1) [OF p] stableD(2) [OF q]
    unfolding pbind_eq_Bad by blast
qed

lemma stable_Got [stable_intros]: "stable (Got r)"
  by (rule stableI) auto

lemma stable_Bad [stable_intros]: "stable (\<lambda>_. Bad)"
  by (rule stableI) auto

lemma stable_if [stable_intros]: "\<lbrakk>stable p; stable q\<rbrakk> \<Longrightarrow> stable (\<lambda>xs. if b then p xs else q xs)"
  by (cases b) simp_all

lemma stable_need_magic [stable_intros]: "stable (need_magic m)"
  by (rule stableI) (auto simp: need_magic_def split: list.splits if_splits)

lemma ex_drop_suffix [simp]: "\<exists>pre. xs = pre @ drop k xs"
  by (metis append_take_drop_id)

lemma stable_need_be [stable_intros]: "stable (need_be k)"
  by (rule stableI) (auto simp: need_be_def split: if_splits)

lemma stable_need_utf8 [stable_intros]: "stable (need_utf8 n)"
  by (rule stableI)
     (auto simp: need_utf8_def split: if_splits option.splits)

lemma stable_require [stable_intros]: "stable (require n)"
  by (rule stableI) (auto simp: require_def split: if_splits)

lemma stable_need_string [stable_intros]: "stable need_string"
  unfolding need_string_def by (intro stable_intros)

lemma stable_checked [stable_intros]:
  assumes p: "stable p"
  shows "stable (checked crc p)"
proof (rule stableI)
  have eq: "checked crc p (xs @ ys) = pbind (need_be 4 (rest @ ys)) (\<lambda>c rest'.
      if crc (take (length xs - length rest) xs) = c then Got r rest' else Bad)"
    if s: "p xs = Got r rest" for xs ys r rest
  proof -
    obtain pre where "xs = pre @ rest" using stableD(3) [OF p s] by blast
    then show ?thesis using stableD(1) [OF p s, of ys] by (simp add: checked_def)
  qed
  have st: "stable (\<lambda>rest. pbind (need_be 4 rest) (\<lambda>c rest'. if b = c then Got r rest' else Bad))"
    for b and r :: 'a
    by (intro stable_intros)
  have eq0: "checked crc p xs = pbind (need_be 4 rest) (\<lambda>c rest'.
      if crc (take (length xs - length rest) xs) = c then Got r rest' else Bad)"
    if s: "p xs = Got r rest" for xs r rest
    using eq [OF s, of "[]"] by simp
  fix xs ys
  {
    fix r rest assume c: "checked crc p xs = Got r rest"
    then obtain r' rest' where s: "p xs = Got r' rest'" by (auto simp: checked_def pbind_eq_Got)
    show "checked crc p (xs @ ys) = Got r (rest @ ys)"
      unfolding eq [OF s] by (rule stableD(1) [OF st]) (rule c [unfolded eq0 [OF s]])
    show "\<exists>pre. xs = pre @ rest"
      using stableD(3) [OF p s] stableD(3) [OF st c [unfolded eq0 [OF s]]] by (metis append.assoc)
  }
  assume c: "checked crc p xs = Bad"
  show "checked crc p (xs @ ys) = Bad"
  proof (cases "p xs")
    case Need
    then show ?thesis using c by (simp add: checked_def pbind_def)
  next
    case Bad
    then show ?thesis using stableD(2) [OF p Bad, of ys] by (simp add: checked_def pbind_def)
  next
    case (Got r rest)
    show ?thesis
      unfolding eq [OF Got] by (rule stableD(2) [OF st]) (rule c [unfolded eq0 [OF Got]])
  qed
qed

lemma need_be_append [codec_simps]: "v < 256 ^ k \<Longrightarrow> need_be k (be_bytes k v @ rest) = Got v rest"
  by (simp add: need_be_def be_val_be_bytes_exact)

lemma need_string_append [codec_simps]:
  "\<lbrakk>is_str s; length s < 65536\<rbrakk> \<Longrightarrow>
   need_string (be_bytes 2 (length s) @ str_bytes s @ rest) = Got s rest"
  by (simp add: need_string_def need_be_append need_utf8_def from_utf8_str_bytes)

lemma need_magic_progress:
  assumes q: "\<And>u. stable (q u)" and p: "pbind (need_magic m xs) q = Got r rest"
  shows "length rest < length xs"
proof -
  obtain b ys where xs: "xs = b # ys" "q () ys = Got r rest"
    using p by (cases xs) (auto simp: need_magic_def pbind_eq_Got split: if_splits)
  then show ?thesis using stableD(3) [OF q xs(2)] by auto
qed

section \<open>The contract\<close>

locale stream_parser =
  fixes parse1 :: "bytes \<Rightarrow> 'a parse_step"
  assumes stable_parse1: "stable parse1"
    and parse1_progress: "parse1 xs = Got r rest \<Longrightarrow> length rest < length xs"
begin

lemma drain_append:
  "drain parse1 xs = (rs, left, bad) \<Longrightarrow>
   drain parse1 (xs @ ys) =
     (if bad then (rs, left @ ys, True)
      else (case drain parse1 (left @ ys) of (rs', left', bad') \<Rightarrow> (rs @ rs', left', bad')))"
proof (induction xs arbitrary: rs rule: length_induct)
  case (1 xs)
  show ?case
  proof (cases "xs = []")
    case True
    then show ?thesis using 1 by (auto simp: drain.simps [of parse1 "[]"] split: prod.split)
  next
    case ne: False
    show ?thesis
    proof (cases "parse1 xs")
      case Need
      then show ?thesis using 1 ne by (auto simp: drain.simps [of parse1 xs] split: prod.split)
    next
      case Bad
      have "drain parse1 (xs @ ys) = ([], xs @ ys, True)"
        using ne stableD(2) [OF stable_parse1 Bad, of ys] by (simp add: drain.simps [of parse1 "xs @ ys"])
      moreover have "rs = []" "left = xs" "bad"
        using 1(2) ne Bad by (simp_all add: drain.simps [of parse1 xs])
      ultimately show ?thesis by simp
    next
      case (Got r rest)
      note lt = parse1_progress [OF Got]
      obtain rs1 where r: "drain parse1 rest = (rs1, left, bad)" "rs = r # rs1"
        using 1 ne Got lt by (auto simp: drain.simps [of parse1 xs] split: prod.splits)
      have "drain parse1 (rest @ ys) = (if bad then (rs1, left @ ys, True)
          else (case drain parse1 (left @ ys) of (rs', left', bad') \<Rightarrow> (rs1 @ rs', left', bad')))"
        using 1(1) lt r(1) by blast
      then show ?thesis
        using ne lt r(2) stableD(1) [OF stable_parse1 Got, of ys]
        by (auto simp: drain.simps [of parse1 "xs @ ys"] split: prod.splits)
    qed
  qed
qed

lemma drain_left: "drain parse1 xs = (rs, left, bad) \<Longrightarrow> length left \<le> length xs"
proof (induction xs arbitrary: rs rule: length_induct)
  case (1 xs)
  then show ?case
  proof (cases "parse1 xs")
    case (Got r rest)
    note lt = parse1_progress [OF Got]
    then obtain rs1 where "xs \<noteq> []" "drain parse1 rest = (rs1, left, bad)"
      using 1(2) Got by (auto simp: drain.simps [of parse1 xs] split: prod.splits if_splits)
    then show ?thesis using 1(1) lt by (meson le_trans less_or_eq_imp_le)
  qed (auto simp: drain.simps [of parse1 xs] split: if_splits)
qed

lemma drain_idem: "drain parse1 xs = (rs, left, False) \<Longrightarrow> drain parse1 left = ([], left, False)"
proof (induction xs arbitrary: rs rule: length_induct)
  case (1 xs)
  show ?case
  proof (cases "parse1 xs")
    case (Got r rest)
    note lt = parse1_progress [OF Got]
    then obtain rs1 where "drain parse1 rest = (rs1, left, False)"
      using 1(2) Got by (auto simp: drain.simps [of parse1 xs] split: prod.splits if_splits)
    then show ?thesis using 1(1) lt by blast
  qed (use 1(2) in \<open>auto simp: drain.simps [of parse1 xs] drain.simps [of parse1 "[]"]
        drain.simps [of parse1 left] split: if_splits\<close>)
qed

text \<open>How the file is cut into chunks makes no difference.\<close>

lemma read_chunks_drain:
  "\<lbrakk>drain parse1 buf = ([], buf, False); drain parse1 (buf @ concat cs) = (rs, left, bad)\<rbrakk>
   \<Longrightarrow> read_chunks parse1 pos buf cs = (rs, pos + (length (buf @ concat cs) - length left), bad)"
proof (induction cs arbitrary: buf rs pos)
  case Nil
  then show ?case by simp
next
  case (Cons c cs)
  obtain rs1 left1 bad1 where d: "drain parse1 (buf @ c) = (rs1, left1, bad1)"
    using prod_cases3 by blast
  have whole: "drain parse1 ((buf @ c) @ concat cs) = (rs, left, bad)" using Cons.prems(2) by simp
  note l1 = drain_left [OF d]
  show ?case
  proof (cases bad1)
    case True
    then have "rs = rs1" "left = left1 @ concat cs" "bad"
      using whole drain_append [OF d, of "concat cs"] by simp_all
    then show ?thesis using d True by simp
  next
    case False
    obtain rs2 where r2: "drain parse1 (left1 @ concat cs) = (rs2, left, bad)" "rs = rs1 @ rs2"
      using whole drain_append [OF d, of "concat cs"] False by (auto split: prod.splits)
    have "drain parse1 left1 = ([], left1, False)" using d False drain_idem by simp
    then have "read_chunks parse1 (pos + (length (buf @ c) - length left1)) left1 cs =
        (rs2, pos + (length (buf @ c) - length left1) + (length (left1 @ concat cs) - length left), bad)"
      by (rule Cons.IH [OF _ r2(1)])
    then show ?thesis using d False r2(2) l1 drain_left [OF r2(1)] by (simp add: Let_def)
  qed
qed

lemma read_chunks_eq_drain:
  assumes "drain parse1 (concat cs) = (rs, left, bad)"
  shows "read_chunks parse1 0 [] cs = (rs, length (concat cs) - length left, bad)"
  using read_chunks_drain [of "[]" cs rs left bad 0] assms by (simp add: drain.simps [of parse1 "[]"])

end

locale stream_codec = stream_parser parse1 for parse1 :: "bytes \<Rightarrow> 'a parse_step" +
  fixes enc :: "'a \<Rightarrow> bytes" and valid :: "'a \<Rightarrow> bool"
  assumes parse_enc: "valid r \<Longrightarrow> parse1 (enc r) = Got r []"
begin

lemma parse_enc_append: "valid r \<Longrightarrow> parse1 (enc r @ ys) = Got r ys"
  using stableD(1) [OF stable_parse1 parse_enc] by simp

lemma enc_nonempty: "valid r \<Longrightarrow> enc r \<noteq> []"
  using parse1_progress [OF parse_enc] by auto

lemma drain_encoded:
  "\<forall>r\<in>set rs. valid r \<Longrightarrow>
   drain parse1 (concat (map enc rs) @ tail) =
     (case drain parse1 tail of (rs', left, bad) \<Rightarrow> (rs @ rs', left, bad))"
proof (induction rs)
  case Nil
  then show ?case by (simp split: prod.split)
next
  case (Cons r rs)
  have v: "valid r" using Cons.prems by simp
  note step = parse_enc_append [OF v, of "concat (map enc rs) @ tail"]
  have "drain parse1 (enc r @ concat (map enc rs) @ tail) =
      (case drain parse1 (concat (map enc rs) @ tail) of (rs', left, bad) \<Rightarrow> (r # rs', left, bad))"
    using step parse1_progress [OF step] enc_nonempty [OF v]
    by (simp add: drain.simps [of parse1 "enc r @ concat (map enc rs) @ tail"])
  then show ?case using Cons by (simp split: prod.splits)
qed

text \<open>A record cut short, as a crash in the middle of an append leaves it.\<close>

lemma drain_torn:
  assumes v: "valid r" and cut: "enc r = tail @ more" "more \<noteq> []"
  shows "drain parse1 tail = ([], tail, False)"
proof (cases "parse1 tail")
  case Need
  then show ?thesis by (simp add: drain.simps [of parse1 tail])
next
  case Bad
  then show ?thesis using stableD(2) [OF stable_parse1 Bad, of more] parse_enc [OF v] cut(1) by simp
next
  case (Got r' rest)
  then show ?thesis using stableD(1) [OF stable_parse1 Got, of more] parse_enc [OF v] cut by simp
qed

lemma read_chunks_log:
  assumes "\<forall>r\<in>set rs. valid r" "concat cs = concat (map enc rs) @ tail"
    "tail = [] \<or> (\<exists>r more. valid r \<and> enc r = tail @ more \<and> more \<noteq> [])"
  shows "read_chunks parse1 0 [] cs = (rs, length (concat (map enc rs)), False)"
proof -
  have "drain parse1 tail = ([], tail, False)"
    using assms(3) drain_torn by (auto simp: drain.simps [of parse1 "[]"])
  then have "drain parse1 (concat cs) = (rs, tail, False)"
    using drain_encoded [OF assms(1), of tail] assms(2) by simp
  from read_chunks_eq_drain [OF this] show ?thesis using assms(2) by simp
qed

end

section \<open>Replay\<close>

text \<open>Both logs are replayed into a map, a later record of a key replacing an earlier one.\<close>

definition replay :: "('k \<times> 'v) list \<Rightarrow> ('k \<times> 'v) list" where
  "replay rs = fold (\<lambda>(k, v). AList.update k v) rs []"

lemma map_of_replay_aux:
  "map_of (fold (\<lambda>(k, v). AList.update k v) rs al) = map_of al ++ map_of (rev rs)"
  by (induction rs arbitrary: al) (auto simp: AList.update_conv' map_add_def fun_eq_iff split: option.split)

lemma map_of_replay: "map_of (replay rs) = map_of (rev rs)"
  by (simp add: replay_def map_of_replay_aux)

lemma distinct_replay_aux:
  "distinct (map fst al) \<Longrightarrow> distinct (map fst (fold (\<lambda>(k, v). AList.update k v) rs al))"
  by (induction rs arbitrary: al) (auto simp: AList.distinct_update)

lemma distinct_replay: "distinct (map fst (replay rs))"
  by (simp add: replay_def distinct_replay_aux)

lemma map_of_rev_distinct: "distinct (map fst al) \<Longrightarrow> map_of (rev al) = map_of al"
  by (rule map_of_eqI) (auto simp: rev_map [symmetric] map_of_eq_Some_iff)

section \<open>Replacing a log\<close>

text \<open>
  Both logs are compacted the same way: the rewritten log goes to a temporary file, the file at
  the log's path is removed, the temporary file is renamed to that path, and the path is opened
  again for the writes to come. The open handle and the path are two things: between the removal
  and the opening the handle still stands for the removed file. \<open>compact_io\<close> is the step that
  fails, or before which the process dies; \<open>log_path\<close> is what the path names. Opening a path
  with no file behind it creates an empty one.
\<close>

datatype compact_io = TempFails | RemoveFails | RenameFails | ReopenFails | Compacted

datatype log_path = SameFile | OtherFile bytes | NoFile

fun path_content :: "bytes \<Rightarrow> log_path \<Rightarrow> bytes" where
  "path_content handle SameFile = handle"
| "path_content handle (OtherFile content) = content"
| "path_content handle NoFile = []"

fun swap_log :: "compact_io \<Rightarrow> bytes \<Rightarrow> bytes \<times> log_path \<Rightarrow> (bytes \<times> log_path) \<times> bool" where
  "swap_log TempFails new st = (st, False)"
| "swap_log RemoveFails new st = (st, False)"
| "swap_log RenameFails new st = ((fst st, NoFile), False)"
| "swap_log ReopenFails new st = ((fst st, OtherFile new), False)"
| "swap_log Compacted new st = ((new, SameFile), True)"

lemma swap_log_True: "swap_log io new st = (st', True) \<longleftrightarrow> io = Compacted \<and> st' = (new, SameFile)"
  by (cases io) auto

end
