(* ===== verification/Codec.thy ===== *)
theory Codec
  imports Prelude
begin

text \<open>
  The string fields of the wire format (\<^verbatim>\<open>src/protocol/wire.rs\<close>,
  \<open>read_pascal_string\<close>, \<open>write_pascal_string\<close>) and the contract every field codec of the
  broker has: decoding an encoded value gives the value back and leaves the rest of the
  input alone. The contract is the locale \<open>prefix_codec\<close>; encodings under it are injective
  and prefix-free, and a sequence of them decodes to the sequence.
\<close>

section \<open>Errors and strings\<close>

datatype WireError =
    UnknownCommand byte
  | UnsupportedVersion nat nat nat
  | Incomplete nat nat
  | InvalidProtocol

type_synonym 'a wire_read = "WireError + 'a \<times> bytes"

definition read_pascal_string :: "bytes \<Rightarrow> string wire_read" where
  "read_pascal_string buf =
     (if length buf < 2 then Inl (Incomplete 2 (length buf))
      else
        (let (len, buf) = take_be 2 buf in
         if length buf < len then Inl (Incomplete len (length buf))
         else case from_utf8 (take len buf) of
                None \<Rightarrow> Inl InvalidProtocol
              | Some s \<Rightarrow> Inr (s, drop len buf)))"

definition read_trailing_pascal_string :: "bytes \<Rightarrow> string option wire_read" where
  "read_trailing_pascal_string buf =
     (if length buf < 2 then Inr (None, buf)
      else case read_pascal_string buf of
             Inl e \<Rightarrow> Inl e
           | Inr (value, rest) \<Rightarrow> Inr (if value = [] then None else Some value, rest))"

text \<open>The assertion on the length is the panic \<open>None\<close>.\<close>

definition write_pascal_string :: "string \<Rightarrow> bytes option" where
  "write_pascal_string s =
     (if length s \<le> U16_MAX then Some (be_bytes 2 (length s) @ str_bytes s) else None)"

definition pascal_ok :: "string \<Rightarrow> bool" where
  "pascal_ok s \<longleftrightarrow> is_str s \<and> length s \<le> U16_MAX"

definition pascal :: "string \<Rightarrow> bytes" where
  "pascal s = be_bytes 2 (length s) @ str_bytes s"

lemma write_pascal_string_ok: "pascal_ok s \<Longrightarrow> write_pascal_string s = Some (pascal s)"
  by (simp add: write_pascal_string_def pascal_ok_def pascal_def)

lemma length_pascal [simp]: "length (pascal s) = length s + 2"
  by (simp add: pascal_def)

lemma read_pascal_string_append [codec_simps]:
  "pascal_ok s \<Longrightarrow> read_pascal_string (pascal s @ rest) = Inr (s, rest)"
  by (simp add: read_pascal_string_def pascal_def pascal_ok_def take_be_append from_utf8_str_bytes)

lemma read_pascal_string_rest:
  "read_pascal_string buf = Inr (s, rest) \<Longrightarrow>
   pascal_ok s \<and> buf = pascal s @ rest"
proof -
  assume r: "read_pascal_string buf = Inr (s, rest)"
  then have two: "\<not> length buf < 2" by (auto simp: read_pascal_string_def split: if_splits)
  define len where "len = be_val (take 2 buf)"
  define tail where "tail = drop 2 buf"
  have lt: "len < 65536" using be_val_less [of "take 2 buf"] two by (simp add: len_def)
  have s: "from_utf8 (take len tail) = Some s" "rest = drop len tail" "len \<le> length tail"
    using r two
    by (auto simp: read_pascal_string_def take_be_def len_def [symmetric] tail_def [symmetric]
        split: if_splits option.splits)
  have "is_str s" "str_bytes s = take len tail" using from_utf8_is_str [OF s(1)] by auto
  then have "length s = len" using s(3) by (metis length_str_bytes length_take min.absorb2)
  moreover have "take 2 buf = be_bytes 2 len"
    using be_bytes_be_val [of "take 2 buf"] two by (simp add: len_def)
  moreover have "buf = take 2 buf @ take len tail @ rest"
    unfolding s(2) append_take_drop_id unfolding tail_def append_take_drop_id ..
  ultimately show ?thesis
    using \<open>is_str s\<close> \<open>str_bytes s = take len tail\<close> lt by (simp add: pascal_ok_def pascal_def)
qed

section \<open>The contract of a field codec\<close>

locale prefix_codec =
  fixes enc :: "'a \<Rightarrow> bytes" and dec :: "bytes \<Rightarrow> 'e + 'a \<times> bytes" and valid :: "'a \<Rightarrow> bool"
  assumes dec_enc: "valid x \<Longrightarrow> dec (enc x @ rest) = Inr (x, rest)"
begin

lemma enc_inject: "\<lbrakk>valid x; valid y; enc x @ r = enc y @ r'\<rbrakk> \<Longrightarrow> x = y \<and> r = r'"
  by (metis Pair_inject dec_enc sum.inject(2))

lemma enc_prefix_free: "\<lbrakk>valid x; valid y; enc x = enc y @ r\<rbrakk> \<Longrightarrow> r = [] \<and> x = y"
  using enc_inject [of x y "[]" r] by simp

primrec dec_n :: "nat \<Rightarrow> bytes \<Rightarrow> 'e + 'a list \<times> bytes" where
  "dec_n 0 buf = Inr ([], buf)"
| "dec_n (Suc n) buf =
     (case dec buf of
        Inl e \<Rightarrow> Inl e
      | Inr (x, rest) \<Rightarrow>
          (case dec_n n rest of Inl e \<Rightarrow> Inl e | Inr (xs, rest') \<Rightarrow> Inr (x # xs, rest')))"

lemma dec_n_enc:
  "\<forall>x\<in>set xs. valid x \<Longrightarrow> dec_n (length xs) (concat (map enc xs) @ rest) = Inr (xs, rest)"
  by (induction xs) (simp_all add: dec_enc)

end

interpretation pascal_codec: prefix_codec pascal read_pascal_string pascal_ok
  by unfold_locales (rule read_pascal_string_append)

lemma pascal_inject:
  "\<lbrakk>pascal_ok s; pascal_ok t; pascal s @ r = pascal t @ r'\<rbrakk> \<Longrightarrow> s = t \<and> r = r'"
  by (rule pascal_codec.enc_inject)

end
