(* ===== verification/Share_State.thy ===== *)
theory Share_State
  imports Share_Partition Record_Stream Codec
begin

text \<open>
  The share-group manager of \<^verbatim>\<open>src/server/share/manager.rs\<close>: one share partition per group,
  topic and partition, and the append-only log their snapshots are written to whenever a
  version counter shows a change. State: the partitions, the heartbeats, the versions last
  written, the bytes of the file behind the handle of the log, what the path of the log names
  (compaction removes the file before it renames the new one), and the sync bookkeeping. The manager's maps are association
  lists; no result depends on their order. \<open>crc\<close> is the checksum of \<open>crc32fast\<close>.

  Shown: the log format is a stream codec, so recovery is independent of chunking; after any
  sequence of fetches, acknowledgements and sweeps whose records are written in full a restart
  brings back every offset with its state and delivery count; grouping acquired records into batches loses and reorders
  nothing.
\<close>

section \<open>Data\<close>

datatype ShareStateSyncPolicy = Buffered | EveryWrite | Interval duration

type_synonym share_key = "string \<times> string \<times> nat"
type_synonym share_snapshot = "offset \<times> PersistedBatch list"

record AcquiredRecordBatch =
  ab_first_offset :: offset
  ab_last_offset :: offset
  ab_delivery_count :: nat
  ab_records :: "Record list"

record ShareGroupManager =
  sm_partitions :: "(share_key \<times> SharePartition) list"
  sm_heartbeats :: "((string \<times> string) \<times> instant) list"
  sm_persisted_versions :: "(share_key \<times> nat) list"
  sm_log :: bytes
  sm_path :: log_path
  sm_lock_timeout :: duration
  sm_max_attempts :: nat
  sm_sync_policy :: ShareStateSyncPolicy
  sm_last_sync :: instant
  sm_sync_count :: nat

section \<open>The record format\<close>

definition SHARE_GROUP_STATE_MAGIC :: byte where
  "SHARE_GROUP_STATE_MAGIC = 0xCF"

definition PERSISTED_BATCH_LEN :: nat where
  "PERSISTED_BATCH_LEN = 19"

definition encode_batch :: "PersistedBatch \<Rightarrow> bytes" where
  "encode_batch b =
     be_bytes 8 (pb_first_offset b) @ be_bytes 8 (pb_last_offset b)
     @ [state_to_byte (pb_state b)] @ be_bytes 2 (pb_delivery_count b)"

definition encode_body :: "string \<Rightarrow> string \<Rightarrow> nat \<Rightarrow> offset \<Rightarrow> PersistedBatch list \<Rightarrow> bytes option" where
  "encode_body group_id topic pidx so bs =
     (case (write_pascal_string group_id, write_pascal_string topic) of
        (Some g, Some t) \<Rightarrow>
          Some ([SHARE_GROUP_STATE_MAGIC] @ g @ t @ be_bytes 4 pidx @ be_bytes 8 so
                @ be_bytes 4 (length bs) @ concat (map encode_batch bs))
      | _ \<Rightarrow> None)"

definition encode_entry ::
  "(bytes \<Rightarrow> nat) \<Rightarrow> share_key \<times> share_snapshot \<Rightarrow> bytes option" where
  "encode_entry crc r =
     (case r of ((group_id, topic, pidx), (so, bs)) \<Rightarrow>
        map_option (\<lambda>buf. buf @ be_bytes 4 (crc buf)) (encode_body group_id topic pidx so bs))"

primrec need_batches :: "nat \<Rightarrow> bytes \<Rightarrow> PersistedBatch list parse_step" where
  "need_batches 0 buf = Got [] buf"
| "need_batches (Suc n) buf =
     pbind (need_be 8 buf) (\<lambda>first buf.
     pbind (need_be 8 buf) (\<lambda>last buf.
     pbind (need_be 1 buf) (\<lambda>state_byte buf.
     pbind (need_be 2 buf) (\<lambda>dc buf.
       case state_from_byte (of_nat state_byte) of
         None \<Rightarrow> Bad
       | Some st \<Rightarrow>
           pbind (need_batches n buf) (\<lambda>bs buf.
             Got (\<lparr>pb_first_offset = first, pb_last_offset = last, pb_state = st,
                   pb_delivery_count = dc\<rparr> # bs) buf)))))"

definition parse_body :: "bytes \<Rightarrow> (share_key \<times> share_snapshot) parse_step" where
  "parse_body buf =
     pbind (need_magic SHARE_GROUP_STATE_MAGIC buf) (\<lambda>_ buf.
     pbind (need_string buf) (\<lambda>group_id buf.
     pbind (need_string buf) (\<lambda>topic buf.
     pbind (require (4 + 8 + 4) buf) (\<lambda>_ buf.
     pbind (need_be 4 buf) (\<lambda>pidx buf.
     pbind (need_be 8 buf) (\<lambda>so buf.
     pbind (need_be 4 buf) (\<lambda>batch_count buf.
     pbind (require (batch_count * PERSISTED_BATCH_LEN + 4) buf) (\<lambda>_ buf.
     pbind (need_batches batch_count buf) (\<lambda>bs buf.
       Got ((group_id, topic, pidx), (so, bs)) buf)))))))))"

definition parse_share :: "(bytes \<Rightarrow> nat) \<Rightarrow> bytes \<Rightarrow> (share_key \<times> share_snapshot) parse_step" where
  "parse_share crc = checked crc parse_body"

text \<open>The recovered map and whether corruption was met.\<close>

definition decode_stream ::
  "(bytes \<Rightarrow> nat) \<Rightarrow> bytes list \<Rightarrow> (share_key \<times> share_snapshot) list \<times> bool" where
  "decode_stream crc cs =
     (case read_chunks (parse_share crc) 0 [] cs of (rs, pos, is_corrupt) \<Rightarrow>
        (replay rs, is_corrupt))"

section \<open>Operations\<close>

definition open_share ::
  "(bytes \<Rightarrow> nat) \<Rightarrow> duration \<Rightarrow> nat \<Rightarrow> ShareStateSyncPolicy \<Rightarrow> instant \<Rightarrow> bytes list
    \<Rightarrow> ShareGroupManager" where
  "open_share crc dlt mda policy now cs =
     (let recovered = fst (decode_stream crc cs) in
      \<lparr>sm_partitions =
         map (\<lambda>((group_id, topic, pidx), (so, bs)).
                ((group_id, topic, pidx), restore topic pidx group_id dlt mda so bs)) recovered,
       sm_heartbeats = [],
       sm_persisted_versions = map (\<lambda>(k, _). (k, 0)) recovered,
       sm_log = concat cs, sm_path = SameFile,
       sm_lock_timeout = dlt, sm_max_attempts = mda, sm_sync_policy = policy,
       sm_last_sync = now, sm_sync_count = 0\<rparr>)"

definition sync_share :: "instant \<Rightarrow> ShareGroupManager \<Rightarrow> ShareGroupManager" where
  "sync_share now s = s\<lparr>sm_sync_count := sm_sync_count s + 1, sm_last_sync := now\<rparr>"

definition get_or_create_partition ::
  "share_key \<Rightarrow> ShareGroupManager \<Rightarrow> SharePartition \<times> ShareGroupManager" where
  "get_or_create_partition key s =
     (case map_of (sm_partitions s) key of
        Some sp \<Rightarrow> (sp, s)
      | None \<Rightarrow>
          (case key of (group_id, topic, pidx) \<Rightarrow>
             (let sp = new_share_partition topic pidx group_id (sm_lock_timeout s) (sm_max_attempts s) 0
              in (sp, s\<lparr>sm_partitions := AList.update key sp (sm_partitions s)\<rparr>))))"

definition record_heartbeat :: "string \<Rightarrow> string \<Rightarrow> instant \<Rightarrow> ShareGroupManager \<Rightarrow> ShareGroupManager" where
  "record_heartbeat group_id member now s =
     s\<lparr>sm_heartbeats := AList.update (group_id, member) now (sm_heartbeats s)\<rparr>"

fun encode_all :: "(bytes \<Rightarrow> nat) \<Rightarrow> (share_key \<times> SharePartition) list \<Rightarrow> bytes option" where
  "encode_all crc [] = Some []"
| "encode_all crc ((k, sp) # ps) =
     (case (encode_entry crc (k, snapshot sp), encode_all crc ps) of
        (Some e, Some es) \<Rightarrow> Some (e @ es)
      | _ \<Rightarrow> None)"

text \<open>
  The outcome of the write of a record, and of the compaction that may follow it. Requests on
  the partitions are sequential steps, so nothing is written between the snapshots of the
  partitions and the exchange of the files.
\<close>

record persist_io =
  pio_write :: write_result
  pio_compact :: compact_io

definition compact_share ::
  "(bytes \<Rightarrow> nat) \<Rightarrow> compact_io \<Rightarrow> ShareGroupManager \<Rightarrow> (ShareGroupManager \<times> bool) option" where
  "compact_share crc io s =
     map_option
       (\<lambda>entry_bytes.
          case swap_log io entry_bytes (sm_log s, sm_path s) of
            ((log, path), ok) \<Rightarrow>
              (let s1 = s\<lparr>sm_log := log, sm_path := path\<rparr> in
               if ok
               then (s1\<lparr>sm_persisted_versions :=
                       fold (\<lambda>(k, sp). AList.update k (state_version sp)) (sm_partitions s)
                         (sm_persisted_versions s)\<rparr>, True)
               else (s1, False)))
       (encode_all crc (sm_partitions s))"

definition COMPACT_THRESHOLD_BYTES :: nat where
  "COMPACT_THRESHOLD_BYTES = 1024 * 1024"

definition apply_sync_policy :: "instant \<Rightarrow> ShareGroupManager \<Rightarrow> ShareGroupManager" where
  "apply_sync_policy now s =
     (case sm_sync_policy s of
        Buffered \<Rightarrow> s
      | EveryWrite \<Rightarrow> s\<lparr>sm_sync_count := sm_sync_count s + 1\<rparr>
      | Interval d \<Rightarrow>
          if d \<le> now - sm_last_sync s
          then s\<lparr>sm_sync_count := sm_sync_count s + 1, sm_last_sync := now\<rparr>
          else s)"

text \<open>The result is the new state and whether the write succeeded; \<open>None\<close> is the panic of an
  over-long name.\<close>

definition persist_partition_state ::
  "(bytes \<Rightarrow> nat) \<Rightarrow> persist_io \<Rightarrow> instant \<Rightarrow> share_key \<Rightarrow> share_snapshot \<Rightarrow> ShareGroupManager
    \<Rightarrow> (ShareGroupManager \<times> bool) option" where
  "persist_partition_state crc io now key snap s =
     (case encode_entry crc (key, snap) of
        None \<Rightarrow> None
      | Some entry \<Rightarrow>
          (case pio_write io of
             Torn n \<Rightarrow> Some (s\<lparr>sm_log := sm_log s @ take n entry\<rparr>, False)
           | Written \<Rightarrow>
               (let s1 = apply_sync_policy now (s\<lparr>sm_log := sm_log s @ entry\<rparr>) in
                if length (sm_log s1) \<le> COMPACT_THRESHOLD_BYTES then Some (s1, True)
                else compact_share crc (pio_compact io) s1)))"

definition maybe_persist ::
  "(bytes \<Rightarrow> nat) \<Rightarrow> persist_io \<Rightarrow> instant \<Rightarrow> share_key \<Rightarrow> SharePartition \<Rightarrow> ShareGroupManager
    \<Rightarrow> ShareGroupManager option" where
  "maybe_persist crc io now key sp s =
     (let version = state_version sp;
          last_persisted = (case map_of (sm_persisted_versions s) key of None \<Rightarrow> 0 | Some v \<Rightarrow> v) in
      if version = last_persisted then Some s
      else case persist_partition_state crc io now key (snapshot sp) s of
             None \<Rightarrow> None
           | Some (s1, ok) \<Rightarrow>
               Some (if ok
                     then s1\<lparr>sm_persisted_versions := AList.update key version (sm_persisted_versions s1)\<rparr>
                     else s1))"

definition group_step :: "AcquiredRecordInfo \<Rightarrow> AcquiredRecordBatch list \<Rightarrow> AcquiredRecordBatch list" where
  "group_step i bs =
     (if bs \<noteq> [] \<and> add64 (ab_last_offset (last bs)) 1 = info_offset i \<and>
         ab_delivery_count (last bs) = info_delivery_count i
      then butlast bs @ [(last bs)\<lparr>ab_last_offset := info_offset i,
                                   ab_records := ab_records (last bs) @ [info_frame i]\<rparr>]
      else bs @ [\<lparr>ab_first_offset = info_offset i, ab_last_offset = info_offset i,
                  ab_delivery_count = info_delivery_count i, ab_records = [info_frame i]\<rparr>])"

definition group_acquired :: "AcquiredRecordInfo list \<Rightarrow> AcquiredRecordBatch list" where
  "group_acquired infos = fold group_step infos []"

definition put_partition :: "share_key \<Rightarrow> SharePartition \<Rightarrow> ShareGroupManager \<Rightarrow> ShareGroupManager" where
  "put_partition key sp s = s\<lparr>sm_partitions := AList.update key sp (sm_partitions s)\<rparr>"

definition share_fetch ::
  "(bytes \<Rightarrow> nat) \<Rightarrow> persist_io \<Rightarrow> instant \<Rightarrow> string \<Rightarrow> string \<Rightarrow> string \<Rightarrow> nat \<Rightarrow> nat
    \<Rightarrow> duration option \<Rightarrow> fetch_fn \<Rightarrow> ShareGroupManager
    \<Rightarrow> (ShareGroupManager \<times> AcquiredRecordBatch list) option" where
  "share_fetch crc io now group_id member topic pidx max_records lock_to fetch s =
     (let key = (group_id, topic, pidx);
          (sp, s1) = get_or_create_partition key (record_heartbeat group_id member now s);
          (sp', infos) = acquire_records member max_records lock_to fetch now sp in
      map_option (\<lambda>s2. (s2, group_acquired infos))
        (maybe_persist crc io now key sp' (put_partition key sp' s1)))"

text \<open>The second component is what the dead-letter writer is called with, if at all.\<close>

definition share_acknowledge ::
  "(bytes \<Rightarrow> nat) \<Rightarrow> persist_io \<Rightarrow> instant \<Rightarrow> string \<Rightarrow> string \<Rightarrow> string \<Rightarrow> nat \<Rightarrow> AckBatch list
    \<Rightarrow> ShareGroupManager \<Rightarrow> (ShareGroupManager \<times> offset list) option" where
  "share_acknowledge crc io now group_id member topic pidx acks s =
     (let key = (group_id, topic, pidx);
          (sp, s1) = get_or_create_partition key (record_heartbeat group_id member now s);
          (sp', dlq) = acknowledge member acks now sp in
      map_option (\<lambda>s2. (s2, dlq))
        (maybe_persist crc io now key sp' (put_partition key sp' s1)))"

fun sweep_keys ::
  "(bytes \<Rightarrow> nat) \<Rightarrow> (share_key \<Rightarrow> persist_io) \<Rightarrow> instant \<Rightarrow> share_key list \<Rightarrow> ShareGroupManager
    \<Rightarrow> (ShareGroupManager \<times> (string \<times> nat \<times> offset list) list) option" where
  "sweep_keys crc io now [] s = Some (s, [])"
| "sweep_keys crc io now (k # ks) s =
     (case map_of (sm_partitions s) k of
        None \<Rightarrow> sweep_keys crc io now ks s
      | Some sp \<Rightarrow>
          (case check_lock_timeouts now sp of (sp', dlq) \<Rightarrow>
             (case maybe_persist crc (io k) now (sp_group_id sp', sp_topic sp', sp_partition sp') sp'
                     (put_partition k sp' s) of
                None \<Rightarrow> None
              | Some s1 \<Rightarrow>
                  map_option
                    (\<lambda>(s2, calls).
                       (s2, (if dlq = [] then [] else [(sp_topic sp', sp_partition sp', dlq)]) @ calls))
                    (sweep_keys crc io now ks s1))))"

definition sweep_lock_timeouts ::
  "(bytes \<Rightarrow> nat) \<Rightarrow> (share_key \<Rightarrow> persist_io) \<Rightarrow> instant \<Rightarrow> ShareGroupManager
    \<Rightarrow> (ShareGroupManager \<times> (string \<times> nat \<times> offset list) list) option" where
  "sweep_lock_timeouts crc io now s = sweep_keys crc io now (map fst (sm_partitions s)) s"

definition list_active_members :: "string \<Rightarrow> instant \<Rightarrow> ShareGroupManager \<Rightarrow> string list" where
  "list_active_members group_id now s =
     map (\<lambda>((g, m), t). m) (filter (\<lambda>((g, m), t). g = group_id \<and> now - t \<le> 60 * 1000) (sm_heartbeats s))"

definition group_stats :: "string \<Rightarrow> ShareGroupManager \<Rightarrow> nat \<times> offset" where
  "group_stats group_id s =
     (let sps = map snd (filter (\<lambda>((g, t, p), sp). g = group_id) (sm_partitions s));
          stats = fold (\<lambda>sp (n, so). (n + inflight_count sp,
                           Some (case so of None \<Rightarrow> start_offset sp | Some c \<Rightarrow> min c (start_offset sp))))
                    sps (0, None) in
      (fst stats, case snd stats of None \<Rightarrow> 0 | Some c \<Rightarrow> c))"

section \<open>The format is a stream codec\<close>

definition batch_fits :: "PersistedBatch \<Rightarrow> bool" where
  "batch_fits b \<longleftrightarrow> pb_first_offset b < 2 ^ 64 \<and> pb_last_offset b < 2 ^ 64 \<and> pb_delivery_count b < 2 ^ 16"

definition share_body :: "share_key \<times> share_snapshot \<Rightarrow> bytes" where
  "share_body r =
     (case r of ((group_id, topic, pidx), (so, bs)) \<Rightarrow>
        [SHARE_GROUP_STATE_MAGIC] @ pascal group_id @ pascal topic @ be_bytes 4 pidx @ be_bytes 8 so
        @ be_bytes 4 (length bs) @ concat (map encode_batch bs))"

definition share_enc :: "(bytes \<Rightarrow> nat) \<Rightarrow> share_key \<times> share_snapshot \<Rightarrow> bytes" where
  "share_enc crc r = share_body r @ be_bytes 4 (crc (share_body r))"

definition entry_ok :: "(bytes \<Rightarrow> nat) \<Rightarrow> share_key \<times> share_snapshot \<Rightarrow> bool" where
  "entry_ok crc r \<longleftrightarrow>
     (case r of ((group_id, topic, pidx), (so, bs)) \<Rightarrow>
        pascal_ok group_id \<and> pascal_ok topic \<and> pidx < 2 ^ 32 \<and> so < 2 ^ 64 \<and>
        length bs < 2 ^ 32 \<and> (\<forall>b\<in>set bs. batch_fits b) \<and> crc (share_body r) < 2 ^ 32)"

lemma encode_entry_ok: "entry_ok crc r \<Longrightarrow> encode_entry crc r = Some (share_enc crc r)"
  by (auto simp: encode_entry_def encode_body_def entry_ok_def share_enc_def share_body_def
      write_pascal_string_ok split: prod.splits)

lemma length_encode_batch [simp]: "length (encode_batch b) = 19"
  by (simp add: encode_batch_def)

lemma length_encode_batches: "length (concat (map encode_batch bs)) = length bs * 19"
  by (induction bs) simp_all

lemma state_byte_roundtrip [simp]: "state_from_byte (state_to_byte st) = Some st"
  by (cases st) (simp_all add: state_from_byte_def)

lemma need_be_byte [codec_simps]: "need_be 1 (b # rest) = Got (unat b) rest"
  by (simp add: need_be_def be_val_def)

lemma need_batches_append:
  "\<forall>b\<in>set bs. batch_fits b \<Longrightarrow>
   need_batches (length bs) (concat (map encode_batch bs) @ rest) = Got bs rest"
proof (induction bs)
  case Nil
  then show ?case by simp
next
  case (Cons b bs)
  then have "pb_first_offset b < 256 ^ 8" "pb_last_offset b < 256 ^ 8" "pb_delivery_count b < 256 ^ 2"
    by (simp_all add: batch_fits_def)
  with Cons show ?case
    by (simp add: encode_batch_def need_be_append need_be_byte [unfolded One_nat_def])
qed

lemma stable_need_batches [stable_intros]: "stable (need_batches n)"
proof (induction n)
  case 0
  have "need_batches 0 = Got []" by (rule ext) simp
  then show ?case by (simp add: stable_Got)
next
  case (Suc n)
  have opt: "stable (\<lambda>buf. case x of None \<Rightarrow> Bad | Some st \<Rightarrow> q st buf)"
    if "\<And>st. stable (q st)" for x :: "ShareRecordState option" and q :: "ShareRecordState \<Rightarrow> bytes \<Rightarrow> PersistedBatch list parse_step"
    using that by (cases x) (simp_all add: stable_Bad)
  have "stable (\<lambda>buf. need_batches (Suc n) buf)"
    unfolding need_batches.simps by (intro stable_intros opt Suc)
  then show ?case by simp
qed

lemma stable_parse_body [stable_intros]: "stable parse_body"
  unfolding parse_body_def by (intro stable_intros)

lemma need_string_pascal [codec_simps]:
  "pascal_ok s \<Longrightarrow> need_string (pascal s @ rest) = Got s rest"
  by (simp add: pascal_def pascal_ok_def need_string_append)

lemma parse_body_append:
  assumes ok: "entry_ok crc r" and len: "4 \<le> length rest"
  shows "parse_body (share_body r @ rest) = Got r rest"
proof -
  obtain g t p so bs where r: "r = ((g, t, p), (so, bs))" by (metis surj_pair)
  have f: "pascal_ok g" "pascal_ok t" "p < 256 ^ 4" "so < 256 ^ 8" "length bs < 256 ^ 4"
    "\<forall>b\<in>set bs. batch_fits b"
    using ok by (simp_all add: r entry_ok_def)
  show ?thesis
    using len
    by (simp add: r share_body_def parse_body_def need_magic_def need_string_pascal [OF f(1)]
        need_string_pascal [OF f(2)] require_def need_be_append [OF f(3)] need_be_append [OF f(4)]
        need_be_append [OF f(5)] need_batches_append [OF f(6)] length_encode_batches PERSISTED_BATCH_LEN_def)
qed

lemma parse_share_append:
  assumes ok: "entry_ok crc r"
  shows "parse_share crc (share_enc crc r @ rest) = Got r rest"
proof -
  have c: "crc (share_body r) < 256 ^ 4" using ok by (simp add: entry_ok_def split: prod.splits)
  have b: "parse_body (share_body r @ be_bytes 4 (crc (share_body r)) @ rest) =
      Got r (be_bytes 4 (crc (share_body r)) @ rest)"
    by (rule parse_body_append [OF ok]) simp
  show ?thesis
    by (simp add: parse_share_def checked_def share_enc_def b need_be_append [OF c])
qed

lemma parse_share_progress:
  assumes "parse_share crc xs = Got r rest"
  shows "length rest < length xs"
proof -
  obtain mid where mid: "parse_body xs = Got r mid" "length rest \<le> length mid"
    using assms by (auto simp: parse_share_def checked_def pbind_eq_Got need_be_def split: if_splits)
  have "length mid < length xs"
    using mid(1) unfolding parse_body_def by (rule need_magic_progress [rotated]) (intro stable_intros)
  with mid(2) show ?thesis by simp
qed

interpretation share_log: stream_codec "parse_share crc" "share_enc crc" "entry_ok crc" for crc
proof unfold_locales
  show "stable (parse_share crc)" unfolding parse_share_def by (intro stable_intros)
  show "length rest < length xs" if "parse_share crc xs = Got r rest" for xs r rest
    by (rule parse_share_progress [OF that])
  show "parse_share crc (share_enc crc r) = Got r []" if "entry_ok crc r" for r
    using parse_share_append [OF that, of "[]"] by (simp only: append_Nil2)
qed

section \<open>What the log holds\<close>

text \<open>A record written in full, and the compaction it asks for, if any, complete.\<close>

definition all_written :: persist_io where
  "all_written = \<lparr>pio_write = Written, pio_compact = Compacted\<rparr>"

text \<open>The bytes a restart finds at the path of the log.\<close>

definition share_disk :: "ShareGroupManager \<Rightarrow> bytes" where
  "share_disk s = path_content (sm_log s) (sm_path s)"

definition version_of :: "ShareGroupManager \<Rightarrow> share_key \<Rightarrow> nat" where
  "version_of s k = (case map_of (sm_persisted_versions s) k of None \<Rightarrow> 0 | Some v \<Rightarrow> v)"

text \<open>
  Restoring a record releases its leases, so what matters of a record on disk is its released
  form. A partition is on disk when the last record of its key is its snapshot in that sense;
  one that was never changed need not be there.
\<close>

definition release_batch :: "PersistedBatch \<Rightarrow> PersistedBatch" where
  "release_batch b = b\<lparr>pb_state := (if pb_state b = Acquired then Available else pb_state b)\<rparr>"

definition released :: "share_snapshot \<Rightarrow> share_snapshot" where
  "released snap = (fst snap, map release_batch (snd snap))"

definition on_disk :: "(share_key \<times> share_snapshot) list \<Rightarrow> share_key \<Rightarrow> SharePartition \<Rightarrow> bool" where
  "on_disk rs k sp \<longleftrightarrow>
     (\<exists>snap. map_of (rev rs) k = Some snap \<and> released snap = released (snapshot sp)) \<or>
     map_of (rev rs) k = None \<and> snapshot sp = (0, [])"

definition partition_ok :: "(bytes \<Rightarrow> nat) \<Rightarrow> share_key \<Rightarrow> SharePartition \<Rightarrow> bool" where
  "partition_ok crc k sp \<longleftrightarrow>
     share_inv sp \<and> counts_fit sp \<and> ident sp = k \<and> entry_ok crc (k, snapshot sp)"

definition log_has :: "(bytes \<Rightarrow> nat) \<Rightarrow> ShareGroupManager \<Rightarrow> (share_key \<times> share_snapshot) list \<Rightarrow> bool" where
  "log_has crc s rs \<longleftrightarrow> sm_path s = SameFile \<and> (\<forall>r\<in>set rs. entry_ok crc r) \<and> sm_log s = concat (map (share_enc crc) rs)"

definition manager_inv :: "(bytes \<Rightarrow> nat) \<Rightarrow> ShareGroupManager \<Rightarrow> bool" where
  "manager_inv crc s \<longleftrightarrow> distinct (map fst (sm_partitions s)) \<and>
     (\<forall>(k, sp)\<in>set (sm_partitions s). partition_ok crc k sp \<and> version_of s k = state_version sp) \<and>
     (\<exists>rs. log_has crc s rs \<and>
        (\<forall>(k, sp)\<in>set (sm_partitions s). on_disk rs k sp) \<and>
        (\<forall>k. map_of (sm_partitions s) k = None \<longrightarrow> map_of (rev rs) k = None \<and> version_of s k = 0))"

lemma manager_invD:
  assumes "manager_inv crc s"
  obtains rs where "distinct (map fst (sm_partitions s))"
    "\<And>k sp. map_of (sm_partitions s) k = Some sp \<Longrightarrow>
       partition_ok crc k sp \<and> version_of s k = state_version sp \<and> on_disk rs k sp"
    "\<And>k. map_of (sm_partitions s) k = None \<Longrightarrow> map_of (rev rs) k = None \<and> version_of s k = 0"
    "log_has crc s rs"
proof -
  from assms obtain rs where d: "distinct (map fst (sm_partitions s))"
    and p: "\<forall>(k, sp)\<in>set (sm_partitions s). partition_ok crc k sp \<and> version_of s k = state_version sp"
    and rs: "log_has crc s rs" "\<forall>(k, sp)\<in>set (sm_partitions s). on_disk rs k sp"
      "\<forall>k. map_of (sm_partitions s) k = None \<longrightarrow> map_of (rev rs) k = None \<and> version_of s k = 0"
    unfolding manager_inv_def by blast
  show thesis
  proof (rule that [OF d _ _ rs(1)])
    show "partition_ok crc k sp \<and> version_of s k = state_version sp \<and> on_disk rs k sp"
      if "map_of (sm_partitions s) k = Some sp" for k sp
      using map_of_SomeD [OF that] p rs(2) by blast
    show "map_of (rev rs) k = None \<and> version_of s k = 0" if "map_of (sm_partitions s) k = None" for k
      using rs(3) that by blast
  qed
qed

lemma manager_invI:
  assumes d: "distinct (map fst (sm_partitions s))" and l: "log_has crc s rs"
    and p: "\<And>k sp. map_of (sm_partitions s) k = Some sp \<Longrightarrow>
       partition_ok crc k sp \<and> version_of s k = state_version sp \<and> on_disk rs k sp"
    and n: "\<And>k. map_of (sm_partitions s) k = None \<Longrightarrow> map_of (rev rs) k = None \<and> version_of s k = 0"
  shows "manager_inv crc s"
  unfolding manager_inv_def
proof (intro conjI exI [of _ rs] ballI, rule d)
  show "case e of (k, sp) \<Rightarrow> partition_ok crc k sp \<and> version_of s k = state_version sp"
    "case e of (k, sp) \<Rightarrow> on_disk rs k sp" if "e \<in> set (sm_partitions s)" for e
    using that p [of "fst e" "snd e"] d by (simp_all add: split_def)
  show "\<forall>k. map_of (sm_partitions s) k = None \<longrightarrow> map_of (rev rs) k = None \<and> version_of s k = 0"
    using n by blast
qed (rule l)

subsection \<open>Writing one partition\<close>

lemma map_of_fold_versions:
  assumes "distinct (map fst ps)"
  shows "map_of (fold (\<lambda>(k, sp). AList.update k (f sp)) ps vs) k =
     (case map_of ps k of None \<Rightarrow> map_of vs k | Some sp \<Rightarrow> Some (f sp))"
  using assms
proof (induction ps arbitrary: vs)
  case Nil
  then show ?case by simp
next
  case (Cons e ps)
  obtain k' sp where e: "e = (k', sp)" by force
  then have "map_of ps k' = None" using Cons.prems by (simp add: map_of_eq_None_iff image_iff)
  with Cons e show ?case by (auto simp: AList.update_conv' split: option.split)
qed

lemma encode_all_ok:
  "\<forall>(k, sp)\<in>set ps. entry_ok crc (k, snapshot sp) \<Longrightarrow>
   encode_all crc ps = Some (concat (map (share_enc crc) (map (\<lambda>(k, sp). (k, snapshot sp)) ps)))"
  by (induction ps) (auto simp: encode_entry_ok)

lemma map_of_snapshots:
  "map_of (map (\<lambda>(k, sp). (k, snapshot sp)) ps) k = map_option snapshot (map_of ps k)"
  by (induction ps) auto

lemma apply_sync_policy_simps [simp]:
  "sm_partitions (apply_sync_policy now s) = sm_partitions s"
  "sm_persisted_versions (apply_sync_policy now s) = sm_persisted_versions s"
  "sm_log (apply_sync_policy now s) = sm_log s" "sm_path (apply_sync_policy now s) = sm_path s"
  "sm_lock_timeout (apply_sync_policy now s) = sm_lock_timeout s"
  "sm_max_attempts (apply_sync_policy now s) = sm_max_attempts s"
  by (simp_all add: apply_sync_policy_def split: ShareStateSyncPolicy.split)

text \<open>
  Storing a changed partition and persisting it: the write happens exactly when the version
  moved, and afterwards the log holds the new snapshot (appended, or in the compacted file).
\<close>

lemma put_persist_inv:
  assumes inv: "manager_inv crc s" and ok: "partition_ok crc k sp'"
    and old: "map_of (sm_partitions s) k = Some sp"
    and ver: "sp' \<noteq> sp \<Longrightarrow> state_version sp' \<noteq> state_version sp"
  obtains s' where "maybe_persist crc all_written now k sp' (put_partition k sp' s) = Some s'"
    "manager_inv crc s'" "map_of (sm_partitions s') = (map_of (sm_partitions s))(k \<mapsto> sp')"
    "sm_lock_timeout s' = sm_lock_timeout s" "sm_max_attempts s' = sm_max_attempts s"
proof -
  obtain rs where d: "distinct (map fst (sm_partitions s))"
    and p: "\<And>k sp. map_of (sm_partitions s) k = Some sp \<Longrightarrow>
       partition_ok crc k sp \<and> version_of s k = state_version sp \<and> on_disk rs k sp"
    and n: "\<And>k. map_of (sm_partitions s) k = None \<Longrightarrow> map_of (rev rs) k = None \<and> version_of s k = 0"
    and l: "log_has crc s rs"
    by (rule manager_invD [OF inv]) (rule that)
  define s0 where "s0 = put_partition k sp' s"
  have parts: "map_of (sm_partitions s0) = (map_of (sm_partitions s))(k \<mapsto> sp')"
    and d0: "distinct (map fst (sm_partitions s0))"
    and same: "sm_persisted_versions s0 = sm_persisted_versions s" "sm_log s0 = sm_log s" "sm_path s0 = sm_path s"
      "sm_lock_timeout s0 = sm_lock_timeout s" "sm_max_attempts s0 = sm_max_attempts s"
    using d by (simp_all add: s0_def put_partition_def AList.update_conv' AList.distinct_update)
  have v0: "version_of s0 k' = version_of s k'" for k' by (simp add: version_of_def same)
  have eok: "entry_ok crc (k, snapshot sp')" using ok by (simp add: partition_ok_def)
  have all_ok: "partition_ok crc k' q" if "map_of (sm_partitions s0) k' = Some q" for k' q
    using that ok p by (auto simp: parts split: if_splits)
  show thesis
  proof (cases "sp' = sp")
    case True
    have "maybe_persist crc all_written now k sp' s0 = Some s0"
      using p [OF old] True v0 [of k] by (simp add: maybe_persist_def version_of_def)
    moreover have "manager_inv crc s0"
    proof (rule manager_invI [OF d0])
      show "log_has crc s0 rs" using l by (simp add: log_has_def same)
      show "partition_ok crc k' q \<and> version_of s0 k' = state_version q \<and> on_disk rs k' q"
        if "map_of (sm_partitions s0) k' = Some q" for k' q
        using that p [of k' q] p [OF old] True v0 by (auto simp: parts split: if_splits)
      show "map_of (rev rs) k' = None \<and> version_of s0 k' = 0"
        if "map_of (sm_partitions s0) k' = None" for k'
        using that n [of k'] v0 by (auto simp: parts split: if_splits)
    qed
    ultimately show thesis using that parts same unfolding s0_def by blast
  next
    case False
    then have moved: "state_version sp' \<noteq> version_of s0 k" using ver p [OF old] v0 by simp
    define s1 where "s1 = apply_sync_policy now (s0\<lparr>sm_log := sm_log s0 @ share_enc crc (k, snapshot sp')\<rparr>)"
    define s2 where "s2 = (if length (sm_log s1) \<le> COMPACT_THRESHOLD_BYTES then s1
      else s1\<lparr>sm_log := concat (map (share_enc crc) (map (\<lambda>(k, sp). (k, snapshot sp)) (sm_partitions s1))),
              sm_path := SameFile,
              sm_persisted_versions :=
              fold (\<lambda>(k, sp). AList.update k (state_version sp)) (sm_partitions s1)
                (sm_persisted_versions s1)\<rparr>)"
    define s3 where "s3 = s2\<lparr>sm_persisted_versions := AList.update k (state_version sp') (sm_persisted_versions s2)\<rparr>"
    have parts1: "sm_partitions s1 = sm_partitions s0" "sm_persisted_versions s1 = sm_persisted_versions s0"
      "sm_log s1 = sm_log s0 @ share_enc crc (k, snapshot sp')" "sm_path s1 = sm_path s0"
      by (simp_all add: s1_def)
    have ents: "\<forall>(k, sp)\<in>set (sm_partitions s1). entry_ok crc (k, snapshot sp)"
      using all_ok d0 by (auto simp: parts1 partition_ok_def map_of_eq_Some_iff)
    have res: "maybe_persist crc all_written now k sp' s0 = Some s3"
      using moved encode_entry_ok [OF eok] encode_all_ok [OF ents]
      by (simp add: maybe_persist_def version_of_def persist_partition_state_def s1_def [symmetric]
          Let_def compact_share_def s2_def s3_def all_written_def)
    have parts3: "sm_partitions s3 = sm_partitions s0" by (simp add: s3_def s2_def parts1)
    have v3: "version_of s3 k' = (if k' = k then state_version sp'
        else if length (sm_log s1) \<le> COMPACT_THRESHOLD_BYTES then version_of s0 k'
        else case map_of (sm_partitions s0) k' of None \<Rightarrow> version_of s0 k' | Some q \<Rightarrow> state_version q)" for k'
      using map_of_fold_versions [OF d0, of state_version "sm_persisted_versions s0" k']
      by (simp add: version_of_def s3_def s2_def parts1 AList.update_conv' split: option.split)
    define rs' where "rs' = (if length (sm_log s1) \<le> COMPACT_THRESHOLD_BYTES then rs @ [(k, snapshot sp')]
      else map (\<lambda>(k, sp). (k, snapshot sp)) (sm_partitions s0))"
    have "manager_inv crc s3"
    proof (rule manager_invI)
      show "distinct (map fst (sm_partitions s3))" using d0 by (simp add: parts3)
      show "log_has crc s3 rs'"
        using l eok ents by (auto simp: log_has_def rs'_def s3_def s2_def parts1 same)
      have disk: "map_of (rev rs') k' = (if length (sm_log s1) \<le> COMPACT_THRESHOLD_BYTES
          then ((map_of (rev rs))(k \<mapsto> snapshot sp')) k'
          else map_option snapshot (map_of (sm_partitions s0) k'))" for k'
      proof -
        have "distinct (map fst (map (\<lambda>(k, sp). (k, snapshot sp)) (sm_partitions s0)))"
          using d0 by (simp add: split_def comp_def)
        then show ?thesis by (simp add: rs'_def map_of_rev_distinct map_of_snapshots)
      qed
      show "partition_ok crc k' q \<and> version_of s3 k' = state_version q \<and> on_disk rs' k' q"
        if q: "map_of (sm_partitions s3) k' = Some q" for k' q
        using all_ok [of k' q] q p [of k' q] v0
        by (auto simp: parts3 v3 on_disk_def disk parts simp del: split_paired_Ex split: if_splits)
      show "map_of (rev rs') k' = None \<and> version_of s3 k' = 0"
        if q: "map_of (sm_partitions s3) k' = None" for k'
        using q n [of k'] v0 by (auto simp: parts3 v3 disk parts split: if_splits)
    qed
    moreover have "sm_lock_timeout s3 = sm_lock_timeout s" "sm_max_attempts s3 = sm_max_attempts s"
      by (simp_all add: s3_def s2_def s1_def same)
    ultimately show thesis using that res parts parts3 unfolding s0_def by simp
  qed
qed

section \<open>Operations keep the invariant\<close>

definition key_fits :: "share_key \<Rightarrow> bool" where
  "key_fits k = (case k of (group_id, topic, pidx) \<Rightarrow> pascal_ok group_id \<and> pascal_ok topic \<and> pidx < 2 ^ 32)"

definition crc32 :: "(bytes \<Rightarrow> nat) \<Rightarrow> bool" where
  "crc32 crc \<longleftrightarrow> (\<forall>bs. crc bs < 2 ^ 32)"

lemma entry_ok_snapshot:
  assumes "crc32 crc" "key_fits k" "share_inv sp" "counts_fit sp" "length (batches sp) < 2 ^ 32"
  shows "entry_ok crc (k, snapshot sp)"
proof -
  note i = share_invD [OF assms(3)]
  have "first_offset b < 2 ^ 64 \<and> last_offset b < 2 ^ 64" if "(k', b) \<in> set (batches sp)" for k' b
    using wf_all [OF i(1) that] i(4) by (auto simp: batch_ok_def)
  then have "\<forall>b\<in>set (snd (snapshot sp)). batch_fits b"
    using assms(4) by (auto simp: snapshot_def batch_fits_def counts_fit_def)
  then show ?thesis
    using assms(1,2,5) i(3,4) by (simp add: entry_ok_def key_fits_def crc32_def snapshot_def split: prod.splits)
qed

lemma entry_ok_key: "entry_ok crc (k, snap) \<Longrightarrow> key_fits k"
  by (simp add: entry_ok_def key_fits_def split: prod.splits)

lemma new_partition_ok:
  assumes "crc32 crc" "key_fits (g, t, p)"
  shows "partition_ok crc (g, t, p) (new_share_partition t p g dlt mda 0)"
    "snapshot (new_share_partition t p g dlt mda 0) = (0, [])"
    "state_version (new_share_partition t p g dlt mda 0) = 0"
proof -
  let ?sp = "new_share_partition t p g dlt mda 0"
  show s: "snapshot ?sp = (0, [])" and "state_version ?sp = 0"
    by (simp_all add: new_share_partition_def restore_def snapshot_def)
  have inv: "share_inv ?sp" "counts_fit ?sp" "length (batches ?sp) < 2 ^ 32"
    using restore_inv [of 0 "[]" t p g dlt mda]
    by (simp_all add: new_share_partition_def persisted_ok_def counts_fit_def restore_def)
  then show "partition_ok crc (g, t, p) ?sp"
    using entry_ok_snapshot [OF assms inv]
    by (simp add: partition_ok_def ident_def new_share_partition_def restore_def)
qed

lemma get_or_create_inv:
  assumes inv: "manager_inv crc s" and crc: "crc32 crc" and key: "key_fits k"
    and res: "get_or_create_partition k s = (sp, s1)"
  shows "manager_inv crc s1" "map_of (sm_partitions s1) = (map_of (sm_partitions s))(k \<mapsto> sp)"
    "sm_lock_timeout s1 = sm_lock_timeout s" "sm_max_attempts s1 = sm_max_attempts s"
proof -
  obtain rs where d: "distinct (map fst (sm_partitions s))"
    and p: "\<And>k sp. map_of (sm_partitions s) k = Some sp \<Longrightarrow>
       partition_ok crc k sp \<and> version_of s k = state_version sp \<and> on_disk rs k sp"
    and n: "\<And>k. map_of (sm_partitions s) k = None \<Longrightarrow> map_of (rev rs) k = None \<and> version_of s k = 0"
    and l: "log_has crc s rs"
    by (rule manager_invD [OF inv]) (rule that)
  obtain g t pi where k: "k = (g, t, pi)" by (metis surj_pair)
  show parts: "map_of (sm_partitions s1) = (map_of (sm_partitions s))(k \<mapsto> sp)"
    and "sm_lock_timeout s1 = sm_lock_timeout s" "sm_max_attempts s1 = sm_max_attempts s"
    using res by (auto simp: get_or_create_partition_def k AList.update_conv' Let_def split: option.splits)
  show "manager_inv crc s1"
  proof (cases "map_of (sm_partitions s) k")
    case (Some q)
    then show ?thesis using res inv by (simp add: get_or_create_partition_def)
  next
    case None
    have sp: "sp = new_share_partition t pi g (sm_lock_timeout s) (sm_max_attempts s) 0"
      and s1: "s1 = s\<lparr>sm_partitions := AList.update k sp (sm_partitions s)\<rparr>"
      using res None by (auto simp: get_or_create_partition_def k Let_def)
    have new: "partition_ok crc k sp" "snapshot sp = (0, [])" "state_version sp = 0"
      using new_partition_ok [OF crc key [unfolded k]] by (simp_all add: sp k)
    show ?thesis
    proof (rule manager_invI [where rs = rs])
      show "distinct (map fst (sm_partitions s1))" using d by (simp add: s1 AList.distinct_update)
      show "log_has crc s1 rs" using l by (simp add: s1 log_has_def)
      have v: "version_of s1 = version_of s" by (rule ext) (simp add: s1 version_of_def)
      show "partition_ok crc k' q \<and> version_of s1 k' = state_version q \<and> on_disk rs k' q"
        if "map_of (sm_partitions s1) k' = Some q" for k' q
        using that p [of k' q] new n [OF None] by (auto simp: parts v on_disk_def split: if_splits)
      show "map_of (rev rs) k' = None \<and> version_of s1 k' = 0"
        if "map_of (sm_partitions s1) k' = None" for k'
        using that n [of k'] by (auto simp: parts v split: if_splits)
    qed
  qed
qed

lemma heartbeat_inv [simp]: "manager_inv crc (record_heartbeat g m now s) = manager_inv crc s"
  "sm_partitions (record_heartbeat g m now s) = sm_partitions s"
  "sm_lock_timeout (record_heartbeat g m now s) = sm_lock_timeout s"
  "sm_max_attempts (record_heartbeat g m now s) = sm_max_attempts s"
  by (simp_all add: manager_inv_def record_heartbeat_def version_of_def log_has_def)

text \<open>A partition moved by critical sections only: what the manager needs of the result.\<close>

lemma share_run_partition_ok:
  assumes run: "share_run sp sp'" and ok: "partition_ok crc k sp" and crc: "crc32 crc"
    and id: "ident sp' = ident sp" and small: "length (batches sp') < 2 ^ 32"
  shows "partition_ok crc k sp'"
proof -
  have "share_inv sp' \<and> counts_fit sp'"
    using run
  proof (induction rule: rtranclp_induct)
    case base
    then show ?case using ok by (simp add: partition_ok_def)
  next
    case (step q q')
    then show ?case using share_step_inv counts_fit_step by blast
  qed
  moreover have "key_fits k" using ok entry_ok_key [of crc k "snapshot sp"] by (simp add: partition_ok_def)
  ultimately show ?thesis
    using entry_ok_snapshot [OF crc] ok id small by (simp add: partition_ok_def)
qed

lemma acquire_records_run:
  assumes "ordered_source fetch"
  shows "share_run sp (fst (acquire_records member n lock_to fetch now sp))"
proof (cases "n = 0")
  case True
  then show ?thesis by (simp add: acquire_records_def)
next
  case False
  have "share_step sp (sweep_timers_inline now sp)" by (rule step_inline)
  moreover have "share_step (sweep_timers_inline now sp)
      (fst (acquire_locked member n lock_to fetch now (sweep_timers_inline now sp)))"
    by (rule step_acquire [OF assms])
  ultimately show ?thesis using False by (simp add: acquire_records_def)
qed

lemma add64_ne: "add64 v 1 \<noteq> v" "add64 (add64 v 1) 1 \<noteq> v"
proof -
  have "add64 v k \<noteq> v" if "0 < k" "k < 2 ^ 64" for k
  proof (cases "v + k < 2 ^ 64")
    case True
    then show ?thesis using that by (simp add: add64_exact)
  next
    case False
    show ?thesis
    proof (cases "v < 2 ^ 64")
      case True
      then have "add64 v k = v + k - 2 ^ 64"
        unfolding add64_def using False that by (simp add: mod_if)
      then show ?thesis using that False by linarith
    next
      case False
      then show ?thesis using add64_less [of v k] by linarith
    qed
  qed
  from this [of 1] this [of 2] show "add64 v 1 \<noteq> v" "add64 (add64 v 1) 1 \<noteq> v"
    by (simp_all add: add64_def mod_simps)
qed

lemma acquire_records_version:
  assumes inv: "share_inv sp" and src: "ordered_source fetch"
    and ne: "fst (acquire_records member n lock_to fetch now sp) \<noteq> sp"
  shows "state_version (fst (acquire_records member n lock_to fetch now sp)) \<noteq> state_version sp"
proof -
  let ?q = "sweep_timers_inline now sp"
  let ?r = "fst (acquire_locked member n lock_to fetch now ?q)"
  have n: "n \<noteq> 0" using ne by (cases n) (simp_all add: acquire_records_def)
  have q: "share_inv ?q" "?q \<noteq> sp \<Longrightarrow> state_version ?q = add64 (state_version sp) 1"
    using share_step_inv [OF step_inline inv] share_step_version_aux [OF step_inline inv] by blast+
  have r: "?r \<noteq> ?q \<Longrightarrow> state_version ?r = add64 (state_version ?q) 1"
    using share_step_version_aux [OF step_acquire [OF src] q(1)] by blast
  show ?thesis
    using ne n q(2) r add64_ne by (cases "?q = sp"; cases "?r = ?q") (auto simp: acquire_records_def)
qed

definition small :: "ShareGroupManager \<Rightarrow> bool" where
  "small s \<longleftrightarrow> (\<forall>(k, sp)\<in>set (sm_partitions s). length (batches sp) < 2 ^ 32)"

lemma small_map_of: "\<lbrakk>small s; map_of (sm_partitions s) k = Some sp\<rbrakk> \<Longrightarrow> length (batches sp) < 2 ^ 32"
  by (auto simp: small_def dest: map_of_SomeD)

lemma maybe_persist_parts:
  "maybe_persist crc io now key sp s = Some s' \<Longrightarrow> sm_partitions s' = sm_partitions s"
  by (auto simp: maybe_persist_def persist_partition_state_def compact_share_def Let_def
      split: if_splits option.splits write_result.splits prod.splits)

lemma put_partition_parts:
  "map_of (sm_partitions (put_partition k sp s)) = (map_of (sm_partitions s))(k \<mapsto> sp)"
  by (simp add: put_partition_def AList.update_conv')

text \<open>The common shape of the three requests.\<close>

lemma request_inv:
  assumes inv: "manager_inv crc s" and crc: "crc32 crc"
    and old: "map_of (sm_partitions s) k = Some sp"
    and run: "share_run sp sp'" and id: "ident sp' = ident sp"
    and ver: "sp' \<noteq> sp \<Longrightarrow> state_version sp' \<noteq> state_version sp"
    and res: "maybe_persist crc all_written now k sp' (put_partition k sp' s) = Some s'"
    and len: "length (batches sp') < 2 ^ 32"
  shows "manager_inv crc s'" "map_of (sm_partitions s') = (map_of (sm_partitions s))(k \<mapsto> sp')"
    "sm_lock_timeout s' = sm_lock_timeout s" "sm_max_attempts s' = sm_max_attempts s"
proof -
  have "partition_ok crc k sp"
    by (rule manager_invD [OF inv]) (use old in blast)
  then have ok: "partition_ok crc k sp'"
    by (rule share_run_partition_ok [OF run _ crc id len])
  obtain s'' where "maybe_persist crc all_written now k sp' (put_partition k sp' s) = Some s''"
    "manager_inv crc s''" "map_of (sm_partitions s'') = (map_of (sm_partitions s))(k \<mapsto> sp')"
    "sm_lock_timeout s'' = sm_lock_timeout s" "sm_max_attempts s'' = sm_max_attempts s"
    by (rule put_persist_inv [OF inv ok old ver])
  then show "manager_inv crc s'" "map_of (sm_partitions s') = (map_of (sm_partitions s))(k \<mapsto> sp')"
    "sm_lock_timeout s' = sm_lock_timeout s" "sm_max_attempts s' = sm_max_attempts s"
    using res by simp_all
qed

lemma share_fetch_inv:
  assumes inv: "manager_inv crc s" and crc: "crc32 crc" and key: "key_fits (g, t, p)"
    and src: "ordered_source fetch"
    and res: "share_fetch crc all_written now g member t p n lock_to fetch s = Some (s', out)"
    and sm: "small s'"
  shows "manager_inv crc s' \<and> sm_lock_timeout s' = sm_lock_timeout s \<and> sm_max_attempts s' = sm_max_attempts s"
proof -
  let ?k = "(g, t, p)"
  obtain sp s1 where goc: "get_or_create_partition ?k (record_heartbeat g member now s) = (sp, s1)"
    by force
  note c = get_or_create_inv [OF _ crc key goc, unfolded heartbeat_inv, OF inv]
  obtain sp' infos where acq: "acquire_records member n lock_to fetch now sp = (sp', infos)" by force
  have mp: "maybe_persist crc all_written now ?k sp' (put_partition ?k sp' s1) = Some s'"
    using res by (auto simp: share_fetch_def goc acq Let_def)
  have old: "map_of (sm_partitions s1) ?k = Some sp" by (simp add: c(2))
  have spinv: "share_inv sp" by (rule manager_invD [OF c(1)]) (use old in \<open>auto simp: partition_ok_def\<close>)
  have sp': "sp' = fst (acquire_records member n lock_to fetch now sp)" by (simp add: acq)
  have "map_of (sm_partitions s') ?k = Some sp'"
    by (simp add: maybe_persist_parts [OF mp] put_partition_parts)
  then have len: "length (batches sp') < 2 ^ 32" by (rule small_map_of [OF sm])
  show ?thesis
    using request_inv [OF c(1) crc old _ _ _ mp len] c(3,4)
      acquire_records_run [OF src, of sp member n lock_to now] acquire_records_version [OF spinv src]
    unfolding sp' by simp
qed

lemma share_acknowledge_inv:
  assumes inv: "manager_inv crc s" and crc: "crc32 crc" and key: "key_fits (g, t, p)"
    and va: "\<forall>ack\<in>set acks. valid_ack ack"
    and res: "share_acknowledge crc all_written now g member t p acks s = Some (s', out)"
    and sm: "small s'"
  shows "manager_inv crc s' \<and> sm_lock_timeout s' = sm_lock_timeout s \<and> sm_max_attempts s' = sm_max_attempts s"
proof -
  let ?k = "(g, t, p)"
  obtain sp s1 where goc: "get_or_create_partition ?k (record_heartbeat g member now s) = (sp, s1)"
    by force
  note c = get_or_create_inv [OF _ crc key goc, unfolded heartbeat_inv, OF inv]
  obtain sp' dlq where ack: "acknowledge member acks now sp = (sp', dlq)" by force
  have mp: "maybe_persist crc all_written now ?k sp' (put_partition ?k sp' s1) = Some s'"
    using res by (auto simp: share_acknowledge_def goc ack Let_def)
  have old: "map_of (sm_partitions s1) ?k = Some sp" by (simp add: c(2))
  have spinv: "share_inv sp" by (rule manager_invD [OF c(1)]) (use old in \<open>auto simp: partition_ok_def\<close>)
  have sp': "sp' = fst (acknowledge member acks now sp)" by (simp add: ack)
  have step: "share_step sp sp'" unfolding sp' by (rule step_ack [OF va])
  have ver: "state_version sp' \<noteq> state_version sp" if "sp' \<noteq> sp"
    using share_step_version_aux [OF step spinv that] add64_ne(1) by simp
  have "map_of (sm_partitions s') ?k = Some sp'"
    by (simp add: maybe_persist_parts [OF mp] put_partition_parts)
  then have len: "length (batches sp') < 2 ^ 32" by (rule small_map_of [OF sm])
  show ?thesis
    using request_inv [OF c(1) crc old r_into_rtranclp [of share_step, OF step] _ ver mp len] c(3,4)
    by (simp add: sp')
qed

lemma sweep_keys_other:
  "\<lbrakk>sweep_keys crc io now ks s = Some (s', calls); k \<notin> set ks\<rbrakk>
   \<Longrightarrow> map_of (sm_partitions s') k = map_of (sm_partitions s) k"
proof (induction ks arbitrary: s calls)
  case Nil
  then show ?case by simp
next
  case (Cons k' ks)
  show ?case
  proof (cases "map_of (sm_partitions s) k'")
    case None
    then show ?thesis using Cons by simp
  next
    case (Some sp)
    obtain sp' dlq where ch: "check_lock_timeouts now sp = (sp', dlq)" by force
    obtain s1 calls1 where s1: "maybe_persist crc (io k') now (sp_group_id sp', sp_topic sp', sp_partition sp') sp'
        (put_partition k' sp' s) = Some s1" "sweep_keys crc io now ks s1 = Some (s', calls1)"
      using Cons.prems(1) Some ch by (auto split: option.splits)
    have "map_of (sm_partitions s') k = map_of (sm_partitions s1) k"
      using Cons.IH [OF s1(2)] Cons.prems(2) by simp
    also have "\<dots> = map_of (sm_partitions s) k"
      using Cons.prems(2) by (simp add: maybe_persist_parts [OF s1(1)] put_partition_parts)
    finally show ?thesis .
  qed
qed

lemma sweep_keys_inv:
  "\<lbrakk>sweep_keys crc (\<lambda>_. all_written) now ks s = Some (s', calls); manager_inv crc s; crc32 crc; distinct ks; small s'\<rbrakk>
   \<Longrightarrow> manager_inv crc s' \<and> sm_lock_timeout s' = sm_lock_timeout s \<and> sm_max_attempts s' = sm_max_attempts s"
proof (induction ks arbitrary: s calls)
  case Nil
  then show ?case by simp
next
  case (Cons k ks)
  show ?case
  proof (cases "map_of (sm_partitions s) k")
    case None
    then show ?thesis using Cons by simp
  next
    case (Some sp)
    obtain sp' dlq where ch: "check_lock_timeouts now sp = (sp', dlq)" by force
    have ok: "partition_ok crc k sp" by (rule manager_invD [OF Cons.prems(2)]) (use Some in blast)
    have sp': "sp' = fst (check_lock_timeouts now sp)" by (simp add: ch)
    have id: "ident sp' = ident sp" "ident sp' = k" using ok by (simp_all add: sp' partition_ok_def)
    have step: "share_step sp sp'" unfolding sp' by (rule step_check)
    have ver: "state_version sp' \<noteq> state_version sp" if "sp' \<noteq> sp"
      using share_step_version_aux [OF step _ that] ok add64_ne(1) by (simp add: partition_ok_def)
    obtain s1 calls1 where s1: "maybe_persist crc all_written now k sp' (put_partition k sp' s) = Some s1"
      "sweep_keys crc (\<lambda>_. all_written) now ks s1 = Some (s', calls1)"
      using Cons.prems(1) Some ch id(2) by (auto simp: ident_def split: option.splits)
    have "map_of (sm_partitions s') k = Some sp'"
      using sweep_keys_other [OF s1(2), of k] Cons.prems(4)
      by (simp add: maybe_persist_parts [OF s1(1)] put_partition_parts)
    then have len: "length (batches sp') < 2 ^ 32" by (rule small_map_of [OF Cons.prems(5)])
    note r = request_inv [OF Cons.prems(2,3) Some r_into_rtranclp [of share_step, OF step] id(1) ver s1(1) len]
    show ?thesis using Cons.IH [OF s1(2) r(1) Cons.prems(3) _ Cons.prems(5)] Cons.prems(4) r(3,4) by simp
  qed
qed

section \<open>Restart\<close>

lemma restore_released: "restore t p g dlt mda so (map release_batch bs) = restore t p g dlt mda so bs"
proof -
  have "fold (restore_step dlt) (map release_batch bs) acc = fold (restore_step dlt) bs acc" for acc
    by (induction bs arbitrary: acc) (auto simp: restore_step_def release_batch_def)
  then show ?thesis by (simp add: restore_def)
qed

lemma restore_released_eq:
  "released snap = released snap' \<Longrightarrow>
   restore t p g dlt mda (fst snap) (snd snap) = restore t p g dlt mda (fst snap') (snd snap')"
  using restore_released by (metis released_def fst_conv snd_conv)

text \<open>What a restart finds for a key, on a log that may end in a torn record.\<close>

lemma open_share_partitions:
  assumes l: "log_has crc s rs" and fl: "concat cs = share_disk s @ tail"
    and tail: "tail = [] \<or> (\<exists>r more. entry_ok crc r \<and> share_enc crc r = tail @ more \<and> more \<noteq> [])"
  shows "map_of (sm_partitions (open_share crc dlt mda policy now cs)) (g, t, p) =
      map_option (\<lambda>(so, bs). restore t p g dlt mda so bs) (map_of (rev rs) (g, t, p))"
    and "distinct (map fst (sm_partitions (open_share crc dlt mda policy now cs)))"
    and "sm_persisted_versions (open_share crc dlt mda policy now cs) = map (\<lambda>(k, _). (k, 0)) (replay rs)"
proof -
  have v: "\<forall>r\<in>set rs. entry_ok crc r" "share_disk s = concat (map (share_enc crc) rs)"
    using l by (simp_all add: log_has_def share_disk_def)
  have rec: "fst (decode_stream crc cs) = replay rs"
    using share_log.read_chunks_log [OF v(1) fl [unfolded v(2)] tail] by (simp add: decode_stream_def)
  have m: "map_of (map (\<lambda>((g, t, p), (so, bs)). ((g, t, p), restore t p g dlt mda so bs)) al) (g, t, p) =
      map_option (\<lambda>(so, bs). restore t p g dlt mda so bs) (map_of al (g, t, p))" for al
    by (induction al) auto
  show "map_of (sm_partitions (open_share crc dlt mda policy now cs)) (g, t, p) =
      map_option (\<lambda>(so, bs). restore t p g dlt mda so bs) (map_of (rev rs) (g, t, p))"
    by (simp add: open_share_def Let_def rec m map_of_replay)
  show "distinct (map fst (sm_partitions (open_share crc dlt mda policy now cs)))"
    using distinct_replay [of rs] by (simp add: open_share_def Let_def rec split_def comp_def)
  show "sm_persisted_versions (open_share crc dlt mda policy now cs) = map (\<lambda>(k, _). (k, 0)) (replay rs)"
    by (simp add: open_share_def Let_def rec)
qed

definition restarted :: "duration \<Rightarrow> SharePartition \<Rightarrow> SharePartition \<Rightarrow> bool" where
  "restarted dlt sp sp' \<longleftrightarrow> share_inv sp' \<and> start_offset sp' = start_offset sp \<and>
     next_fetch_offset sp' \<le> next_fetch_offset sp \<and>
     (\<forall>x. offset_view (batches sp') x = map_option (restart_attrs dlt) (offset_view (batches sp) x))"

lemma restart_recovers:
  assumes inv: "manager_inv crc s" and fl: "concat cs = share_disk s @ tail"
    and tail: "tail = [] \<or> (\<exists>r more. entry_ok crc r \<and> share_enc crc r = tail @ more \<and> more \<noteq> [])"
    and sp: "map_of (sm_partitions s) k = Some sp"
  shows "restarted dlt sp (fst (get_or_create_partition k (open_share crc dlt mda policy now cs)))"
proof -
  obtain rs where p: "\<And>k sp. map_of (sm_partitions s) k = Some sp \<Longrightarrow>
       partition_ok crc k sp \<and> version_of s k = state_version sp \<and> on_disk rs k sp"
    and l: "log_has crc s rs"
    by (rule manager_invD [OF inv]) (rule that)
  obtain g t pi where k: "k = (g, t, pi)" by (metis surj_pair)
  note o = open_share_partitions(1) [OF l fl tail, of dlt mda policy now g t pi]
  have inv_sp: "share_inv sp" and disk: "on_disk rs k sp" using p [OF sp] by (simp_all add: partition_ok_def)
  from disk consider snap where "map_of (rev rs) k = Some snap" "released snap = released (snapshot sp)"
    | "map_of (rev rs) k = None" "snapshot sp = (0, [])"
    unfolding on_disk_def by (elim disjE exE conjE)
  then show ?thesis
  proof cases
    case 1
    then have "fst (get_or_create_partition k (open_share crc dlt mda policy now cs)) =
        restore t pi g dlt mda (fst (snapshot sp)) (snd (snapshot sp))"
      using o restore_released_eq [OF 1(2)] by (simp add: get_or_create_partition_def k split_def)
    then show ?thesis using restart_spec [OF inv_sp, of _ t pi g dlt mda] by (simp add: restarted_def)
  next
    case 2
    then have "fst (get_or_create_partition k (open_share crc dlt mda policy now cs)) =
        restore t pi g dlt mda (fst (snapshot sp)) (snd (snapshot sp))"
      using o
      by (simp add: get_or_create_partition_def k new_share_partition_def Let_def open_share_def)
    then show ?thesis using restart_spec [OF inv_sp, of _ t pi g dlt mda] by (simp add: restarted_def)
  qed
qed

lemma restored_partition_ok:
  assumes ok: "partition_ok crc k sp" and crc: "crc32 crc" and k: "k = (g, t, pi)"
    and len: "length (batches sp) < 2 ^ 32"
  shows "partition_ok crc k (restore t pi g dlt mda (fst (snapshot sp)) (snd (snapshot sp)))"
    "released (snapshot (restore t pi g dlt mda (fst (snapshot sp)) (snd (snapshot sp)))) =
       released (snapshot sp)"
    "state_version (restore t pi g dlt mda (fst (snapshot sp)) (snd (snapshot sp))) = 0"
proof -
  let ?q = "restore t pi g dlt mda (fst (snapshot sp)) (snd (snapshot sp))"
  have inv: "share_inv sp" and c: "counts_fit sp" using ok by (simp_all add: partition_ok_def)
  note pok = snapshot_ok [OF inv]
  have q: "batches ?q = map (\<lambda>p. (pb_first_offset p, restored_batch dlt p)) (snd (snapshot sp))"
    "start_offset ?q = fst (snapshot sp)"
    by (simp_all add: restore_batches [OF pok])
  have "share_inv ?q" by (rule restart_spec(1) [OF inv refl])
  moreover have "counts_fit ?q"
    unfolding counts_fit_def q(1) using c
    by (auto simp: snapshot_def restored_batch_def counts_fit_def)
  moreover have "length (batches ?q) < 2 ^ 32"
    unfolding q(1) using len by (simp add: snapshot_def)
  moreover have "ident ?q = k" by (simp add: k ident_def restore_def split: prod.split)
  moreover have "key_fits k" using ok entry_ok_key [of crc k "snapshot sp"] by (simp add: partition_ok_def)
  ultimately show "partition_ok crc k ?q" using entry_ok_snapshot [OF crc] by (simp add: partition_ok_def)
  have "snapshot ?q = (fst (snapshot sp), map (\<lambda>p. p\<lparr>pb_state :=
      (if pb_state p = Acquired then Available else pb_state p)\<rparr>) (snd (snapshot sp)))"
    unfolding snapshot_def [of ?q] q by (simp add: restored_batch_def)
  then show "released (snapshot ?q) = released (snapshot sp)"
    by (simp add: released_def release_batch_def)
  show "state_version ?q = 0" by (simp add: restore_def split: prod.split)
qed

lemma restart_inv:
  assumes inv: "manager_inv crc s" and crc: "crc32 crc" and sm: "small s"
    and fl: "concat cs = share_disk s"
  shows "manager_inv crc (open_share crc dlt mda policy now cs)"
proof -
  obtain rs where p: "\<And>k sp. map_of (sm_partitions s) k = Some sp \<Longrightarrow>
       partition_ok crc k sp \<and> version_of s k = state_version sp \<and> on_disk rs k sp"
    and n: "\<And>k. map_of (sm_partitions s) k = None \<Longrightarrow> map_of (rev rs) k = None \<and> version_of s k = 0"
    and l: "log_has crc s rs"
    by (rule manager_invD [OF inv]) (rule that)
  define s' where "s' = open_share crc dlt mda policy now cs"
  have fl': "concat cs = share_disk s @ []" using fl by simp
  note o = open_share_partitions [OF l fl' disjI1 [OF refl], where dlt = dlt and mda = mda
      and policy = policy and now = now, folded s'_def]
  have v: "version_of s' k = 0" for k
  proof -
    have "map_of (map (\<lambda>(k, _). (k, 0 :: nat)) al) k = map_option (\<lambda>_. 0) (map_of al k)"
      for al :: "(share_key \<times> share_snapshot) list"
      by (induction al) auto
    then show ?thesis by (simp add: version_of_def o(3) split: option.split)
  qed
  show ?thesis
    unfolding s'_def [symmetric]
  proof (rule manager_invI [where rs = rs])
    show "distinct (map fst (sm_partitions s'))" by (rule o(2))
    show "log_has crc s' rs" using l fl by (simp add: log_has_def s'_def open_share_def Let_def share_disk_def)
    fix k :: share_key
    obtain g t pi where k: "k = (g, t, pi)" by (metis surj_pair)
    show "map_of (rev rs) k = None \<and> version_of s' k = 0" if "map_of (sm_partitions s') k = None"
      using that o(1) [of g t pi] v by (simp add: k)
    fix q assume q: "map_of (sm_partitions s') k = Some q"
    then obtain snap where snap: "map_of (rev rs) k = Some snap"
      "q = restore t pi g dlt mda (fst snap) (snd snap)"
      using o(1) [of g t pi] by (auto simp: k split_def)
    obtain sp where sp: "map_of (sm_partitions s) k = Some sp"
      using n [of k] snap(1) by (cases "map_of (sm_partitions s) k") auto
    have ok: "partition_ok crc k sp" and rel: "released snap = released (snapshot sp)"
      using p [OF sp] snap(1) by (auto simp: on_disk_def)
    note r = restored_partition_ok [OF ok crc k small_map_of [OF sm sp], of dlt mda]
    have "q = restore t pi g dlt mda (fst (snapshot sp)) (snd (snapshot sp))"
      using snap(2) restore_released_eq [OF rel] by simp
    then show "partition_ok crc k q \<and> version_of s' k = state_version q \<and> on_disk rs k q"
      using r v rel snap(1) by (auto simp: on_disk_def simp del: split_paired_Ex)
  qed
qed

section \<open>Histories\<close>

text \<open>
  Requests of any members, sweeps, and restarts on the file as it is, as long as every record is
  written in full, every compaction completes, and no acknowledged range is inverted; a restart
  on a file with a torn record at its end is left out, because \<open>open\<close> keeps the torn bytes and
  the records after them are lost. \<open>small\<close> keeps the number of ranges of one partition within
  the 32-bit count of the record.
\<close>

inductive share_trace :: "(bytes \<Rightarrow> nat) \<Rightarrow> ShareGroupManager \<Rightarrow> bool" for crc where
  st_init: "share_trace crc (open_share crc dlt mda policy now [])"
| st_fetch: "\<lbrakk>share_trace crc s; key_fits (g, t, p); ordered_source fetch;
     share_fetch crc all_written now g member t p n lock_to fetch s = Some (s', out); small s'\<rbrakk>
    \<Longrightarrow> share_trace crc s'"
| st_ack: "\<lbrakk>share_trace crc s; key_fits (g, t, p); \<forall>ack\<in>set acks. valid_ack ack;
     share_acknowledge crc all_written now g member t p acks s = Some (s', dlq); small s'\<rbrakk>
    \<Longrightarrow> share_trace crc s'"
| st_sweep: "\<lbrakk>share_trace crc s; sweep_lock_timeouts crc (\<lambda>_. all_written) now s = Some (s', calls); small s'\<rbrakk>
    \<Longrightarrow> share_trace crc s'"
| st_restart: "\<lbrakk>share_trace crc s; small s; concat cs = share_disk s\<rbrakk>
    \<Longrightarrow> share_trace crc (open_share crc dlt mda policy now cs)"

lemma open_empty_inv: "manager_inv crc (open_share crc dlt mda policy now [])"
  by (rule manager_invI [where rs = "[]"])
     (simp_all add: open_share_def decode_stream_def replay_def Let_def log_has_def version_of_def)

lemma share_trace_inv:
  assumes crc: "crc32 crc" and tr: "share_trace crc s"
  shows "manager_inv crc s"
  using tr
proof (induction rule: share_trace.induct)
  case (st_init dlt mda policy now)
  then show ?case by (rule open_empty_inv)
next
  case (st_fetch s g t p fetch now member n lock_to s' out)
  then show ?case using share_fetch_inv [OF _ crc] by blast
next
  case (st_ack s g t p acks now member s' dlq)
  then show ?case using share_acknowledge_inv [OF _ crc] by blast
next
  case (st_sweep s now s' calls)
  have "distinct (map fst (sm_partitions s))" using st_sweep.IH by (simp add: manager_inv_def)
  then show ?case
    using sweep_keys_inv [OF st_sweep.hyps(2) [unfolded sweep_lock_timeouts_def] st_sweep.IH crc _ st_sweep.hyps(3)]
    by blast
next
  case (st_restart s cs dlt mda policy now)
  then show ?case using restart_inv [OF _ crc] by blast
qed

section \<open>Grouping\<close>

text \<open>A batch of the response: contiguous offsets, one record each, one delivery count.\<close>

definition batch_contiguous :: "AcquiredRecordBatch \<Rightarrow> bool" where
  "batch_contiguous b \<longleftrightarrow> ab_first_offset b \<le> ab_last_offset b \<and>
     map rec_offset (ab_records b) = [ab_first_offset b ..< Suc (ab_last_offset b)]"

lemma group_step_records:
  "concat (map ab_records (group_step i bs)) = concat (map ab_records bs) @ [info_frame i]"
  by (cases bs rule: rev_cases) (simp_all add: group_step_def)

lemma group_step_counts:
  "concat (map (\<lambda>b. replicate (length (ab_records b)) (ab_delivery_count b)) (group_step i bs)) =
   concat (map (\<lambda>b. replicate (length (ab_records b)) (ab_delivery_count b)) bs) @ [info_delivery_count i]"
  by (cases bs rule: rev_cases) (auto simp: group_step_def replicate_append_same [symmetric])

lemma group_step_contiguous:
  assumes i: "rec_offset (info_frame i) = info_offset i" "info_offset i < U64_MAX"
    and b: "\<forall>b\<in>set bs. batch_contiguous b \<and> ab_last_offset b < U64_MAX"
  shows "\<forall>b\<in>set (group_step i bs). batch_contiguous b \<and> ab_last_offset b < U64_MAX"
proof (cases bs rule: rev_cases)
  case Nil
  then show ?thesis using i by (simp add: group_step_def batch_contiguous_def)
next
  case (snoc bs' l)
  then have l: "batch_contiguous l" "ab_last_offset l < U64_MAX" using b by simp_all
  then have "add64 (ab_last_offset l) 1 = Suc (ab_last_offset l)" by (simp add: add64_exact)
  moreover have "batch_contiguous (l\<lparr>ab_last_offset := info_offset i,
      ab_records := ab_records l @ [info_frame i]\<rparr>)" if "Suc (ab_last_offset l) = info_offset i"
    using l(1) i(1) unfolding batch_contiguous_def that [symmetric] by simp
  moreover have "batch_contiguous \<lparr>ab_first_offset = info_offset i, ab_last_offset = info_offset i,
      ab_delivery_count = info_delivery_count i, ab_records = [info_frame i]\<rparr>"
    using i(1) by (simp add: batch_contiguous_def)
  ultimately show ?thesis using snoc b i(2) by (auto simp: group_step_def)
qed

lemma group_fold:
  assumes "\<forall>i\<in>set infos. rec_offset (info_frame i) = info_offset i \<and> info_offset i < U64_MAX"
    "\<forall>b\<in>set bs. batch_contiguous b \<and> ab_last_offset b < U64_MAX"
  shows "concat (map ab_records (fold group_step infos bs)) =
      concat (map ab_records bs) @ map info_frame infos \<and>
    concat (map (\<lambda>b. replicate (length (ab_records b)) (ab_delivery_count b)) (fold group_step infos bs)) =
      concat (map (\<lambda>b. replicate (length (ab_records b)) (ab_delivery_count b)) bs) @
      map info_delivery_count infos \<and>
    (\<forall>b\<in>set (fold group_step infos bs). batch_contiguous b)"
  using assms
proof (induction infos arbitrary: bs)
  case Nil
  then show ?case by simp
next
  case (Cons i infos)
  have "\<forall>b\<in>set (group_step i bs). batch_contiguous b \<and> ab_last_offset b < U64_MAX"
    using Cons.prems by (intro group_step_contiguous) simp_all
  from Cons.IH [OF _ this] Cons.prems(1) show ?case
    by (simp add: group_step_records group_step_counts)
qed

section \<open>Properties\<close>

text \<open>C13 (\<^emph>\<open>durable share state\<close>). After any history of fetches, acknowledgements of ranges that are not
  inverted, sweeps and restarts in which every record was written in full, every compaction
  completed and no earlier restart found a torn record, a restart that reads the state file in
  any chunks, now also one whose last record is torn,
  brings back every partition the manager knew: the same watermark and, offset by offset, the
  same state and delivery count, with leases released. (Names are at most 65535 bytes, and a
  partition has fewer than \<open>2 ^ 32\<close> ranges in flight.)\<close>

theorem share_state_survives_restart:
  assumes "crc32 crc" "share_trace crc s" "map_of (sm_partitions s) k = Some sp"
    and "concat cs = share_disk s @ tail"
    and "tail = [] \<or> (\<exists>r more. entry_ok crc r \<and> share_enc crc r = tail @ more \<and> more \<noteq> [])"
  shows "restarted dlt sp (fst (get_or_create_partition k (open_share crc dlt mda policy now cs)))"
  by (rule restart_recovers [OF share_trace_inv [OF assms(1,2)] assms(4,5,3)])

definition demo_manager :: ShareGroupManager where
  "demo_manager = open_share (\<lambda>_. 0) 30 2 Buffered 0 []"

definition demo_fetched :: "(ShareGroupManager \<times> AcquiredRecordBatch list) option" where
  "demo_fetched = share_fetch (\<lambda>_. 0) all_written 100 ''g'' ''m'' ''t'' 0 3 None demo_fetch demo_manager"

lemma demo_partition:
  "new_share_partition ''t'' 0 ''g'' 30 2 0 = demo_start"
  "acquire_records ''m'' 3 None demo_fetch 100 demo_start = acquire_locked ''m'' 3 None demo_fetch 100 demo_start"
  by (simp_all add: new_share_partition_def demo_start_def acquire_records_def sweep_timers_inline_def restore_def)

lemma demo_fetched_eq:
  obtains s' out where "demo_fetched = Some (s', out)" "sm_partitions s' = [((''g'', ''t'', 0), demo_leased)]"
proof -
  have crc: "crc32 (\<lambda>_. 0)" by (simp add: crc32_def)
  have key: "key_fits (''g'', ''t'', 0)" by (simp add: key_fits_def pascal_ok_def)
  let ?k = "(''g'', ''t'', 0 :: nat)"
  define s1 where "s1 = put_partition ?k demo_start (record_heartbeat ''g'' ''m'' 100 demo_manager)"
  have none: "sm_partitions demo_manager = []" "sm_lock_timeout demo_manager = 30" "sm_max_attempts demo_manager = 2"
    by (simp_all add: demo_manager_def open_share_def Let_def decode_stream_def replay_def)
  have goc: "get_or_create_partition ?k (record_heartbeat ''g'' ''m'' 100 demo_manager) = (demo_start, s1)"
    by (simp add: get_or_create_partition_def none demo_partition s1_def put_partition_def)
  have inv: "manager_inv (\<lambda>_. 0) s1"
    by (rule get_or_create_inv [OF _ crc key goc]) (simp add: demo_manager_def open_empty_inv)
  have old: "map_of (sm_partitions s1) ?k = Some demo_start" by (simp add: s1_def put_partition_parts)
  have pok: "partition_ok (\<lambda>_. 0) ?k demo_start"
    by (rule manager_invD [OF inv]) (use old in blast)
  have ok: "partition_ok (\<lambda>_. 0) ?k demo_leased"
    by (rule share_run_partition_ok [OF demo_run pok crc]) (simp add: demo_leased_def, simp add: demo_leased_eq)
  have ver: "state_version demo_leased \<noteq> state_version demo_start" if "demo_leased \<noteq> demo_start"
    using share_step_version_aux [OF demo_step demo_start_inv that] add64_ne(1) by simp
  obtain s' where s': "maybe_persist (\<lambda>_. 0) all_written 100 ?k demo_leased (put_partition ?k demo_leased s1) = Some s'"
    by (rule put_persist_inv [OF inv ok old ver])
  have lead: "acquire_locked ''m'' 3 None demo_fetch 100 demo_start =
      (demo_leased, snd (acquire_locked ''m'' 3 None demo_fetch 100 demo_start))"
    by (simp add: demo_leased_def)
  have "demo_fetched = Some (s', group_acquired (snd (acquire_locked ''m'' 3 None demo_fetch 100 demo_start)))"
    unfolding demo_fetched_def share_fetch_def Let_def goc prod.case demo_partition(2)
    by (subst lead) (simp add: s')
  moreover have "sm_partitions s' = [(?k, demo_leased)]"
    by (simp add: maybe_persist_parts [OF s'] put_partition_def s1_def none)
  ultimately show thesis using that by blast
qed

theorem share_state_survives_restart_witness:
  "restarted 30 demo_leased (fst (get_or_create_partition (''g'', ''t'', 0)
     (open_share (\<lambda>_. 0) 30 2 Buffered 0 [share_disk (fst (the demo_fetched)), [SHARE_GROUP_STATE_MAGIC]])))"
proof -
  obtain s' out where f: "demo_fetched = Some (s', out)" "sm_partitions s' = [((''g'', ''t'', 0), demo_leased)]"
    by (rule demo_fetched_eq)
  have crc: "crc32 (\<lambda>_. 0)" by (simp add: crc32_def)
  have key: "key_fits (''g'', ''t'', 0)" by (simp add: key_fits_def pascal_ok_def)
  have "small s'" by (simp add: small_def f(2) demo_leased_eq)
  then have tr: "share_trace (\<lambda>_. 0) s'"
    using st_fetch [OF st_init key demo_fetch_ordered f(1) [unfolded demo_fetched_def demo_manager_def]] by blast
  have torn: "\<exists>r more. entry_ok (\<lambda>_. 0) r \<and>
      share_enc (\<lambda>_. 0) r = [SHARE_GROUP_STATE_MAGIC] @ more \<and> more \<noteq> []"
    by (rule exI [of _ "((''g'', ''t'', 0), (0, []))"])
       (simp add: entry_ok_def pascal_ok_def share_enc_def share_body_def)
  show ?thesis
    using share_state_survives_restart [OF crc tr _ _ disjI2 [OF torn], of "(''g'', ''t'', 0)" demo_leased
        "[share_disk s', [SHARE_GROUP_STATE_MAGIC]]" 30 2 Buffered 0] by (simp add: f)
qed

text \<open>Recovery is a function of the bytes of the file alone: on any input, corrupt
  ones included, reading it in chunks of any sizes gives the same map and the same corruption
  verdict as reading it in one piece.\<close>

theorem decode_stream_chunking:
  "decode_stream crc cs = decode_stream crc [concat cs]"
proof -
  obtain rs left bad where d: "drain (parse_share crc) (concat cs) = (rs, left, bad)"
    using prod_cases3 by blast
  have "concat cs = concat [concat cs]" by simp
  with d have d': "drain (parse_share crc) (concat [concat cs]) = (rs, left, bad)" by simp
  show ?thesis
    unfolding decode_stream_def share_log.read_chunks_eq_drain [OF d] share_log.read_chunks_eq_drain [OF d']
    by simp
qed

text \<open>The batches a share fetch returns hold exactly the acquired records, in order,
  each with its own delivery count, and every batch covers contiguous offsets, one record
  per offset.\<close>

theorem group_acquired_exact:
  assumes "\<forall>i\<in>set infos. rec_offset (info_frame i) = info_offset i \<and> info_offset i < U64_MAX"
  shows "concat (map ab_records (group_acquired infos)) = map info_frame infos \<and>
    concat (map (\<lambda>b. replicate (length (ab_records b)) (ab_delivery_count b)) (group_acquired infos)) =
      map info_delivery_count infos \<and>
    (\<forall>b\<in>set (group_acquired infos). batch_contiguous b)"
  using group_fold [OF assms, of "[]"] by (simp add: group_acquired_def)

theorem group_acquired_exact_witness:
  "concat (map ab_records (group_acquired
     [\<lparr>info_offset = 4, info_delivery_count = 1, info_frame = demo_record 4\<rparr>,
      \<lparr>info_offset = 5, info_delivery_count = 1, info_frame = demo_record 5\<rparr>])) = [demo_record 4, demo_record 5]"
  using group_acquired_exact [of "[\<lparr>info_offset = 4, info_delivery_count = 1, info_frame = demo_record 4\<rparr>,
      \<lparr>info_offset = 5, info_delivery_count = 1, info_frame = demo_record 5\<rparr>]"]
  by (simp add: demo_record_def)

section \<open>Limits of the code\<close>

text \<open>
  A compaction that dies between the removal of the log and the rename of the new file leaves
  nothing to recover.
\<close>

lemma crash_in_compaction_loses_state:
  assumes "compact_share crc RenameFails s = Some (s', ok)"
  shows "\<not> ok \<and> sm_partitions (open_share crc dlt mda policy now [share_disk s']) = []"
  using assms
  by (auto simp: compact_share_def share_disk_def open_share_def decode_stream_def replay_def Let_def
      drain.simps [of _ "[]"])

text \<open>
  A torn record stays in the file when it is opened again, and a record written behind it with
  success is not found by the next restart.
\<close>

lemma torn_tail_hides_later_records:
  assumes "persist_partition_state (\<lambda>_. 0) all_written now (''g'', ''t'', 0) (7, [])
    (open_share (\<lambda>_. 0) 30 2 Buffered 0 [[SHARE_GROUP_STATE_MAGIC]]) = Some (s', ok)"
  shows "ok \<and> sm_partitions (open_share (\<lambda>_. 0) 30 2 Buffered 0 [share_disk s']) = []"
proof -
  let ?r = "((''g'', ''t'', 0), (7, []))"
  have "entry_ok (\<lambda>_. 0) ?r" by (simp add: entry_ok_def pascal_ok_def)
  note enc = encode_entry_ok [OF this]
  have s': "share_disk s' = SHARE_GROUP_STATE_MAGIC # share_enc (\<lambda>_. 0) ?r" "ok"
    using assms enc
    by (auto simp: persist_partition_state_def all_written_def Let_def share_disk_def open_share_def
        COMPACT_THRESHOLD_BYTES_def share_enc_def share_body_def apply_sync_policy_def pascal_def)
  have "need_string (share_enc (\<lambda>_. 0) ?r) = Need"
  proof -
    have "be_bytes 2 (Suc 0) = [0, 1]" by (simp add: numeral_2_eq_2)
    moreover have "be_val [0xCF, 0] = 0xCF00" by (simp add: be_val_def)
    ultimately show ?thesis
      by (simp add: need_string_def need_be_def need_utf8_def SHARE_GROUP_STATE_MAGIC_def share_enc_def
          share_body_def pascal_def)
  qed
  then have "parse_share (\<lambda>_. 0) (share_disk s') = Need"
    unfolding s'(1) by (simp add: parse_share_def checked_def parse_body_def need_magic_def pbind_def)
  then have "drain (parse_share (\<lambda>_. 0)) (share_disk s') = ([], share_disk s', False)"
    using s'(1) by (simp add: drain.simps)
  then show ?thesis using s'(2) by (simp add: open_share_def decode_stream_def replay_def)
qed

end
