(* ===== verification/Consumer_Offsets.thy ===== *)
theory Consumer_Offsets
  imports Record_Stream
begin

text \<open>
  Committed consumer-group offsets, \<^verbatim>\<open>src/consumer_group.rs\<close>: an in-memory map backed by an
  append-only log that is compacted past one megabyte and replayed at start-up. The state is
  the map, the bytes of the file behind the open handle (writes go to its end) and what the
  path of the log names, which compaction separates from the handle for a while. \<open>crc\<close> is the
  checksum function of the \<open>crc32fast\<close> crate; nothing is assumed of it but that the records
  of interest have a 32-bit checksum.

  Shown: what \<open>fetch_offset\<close> answers before and after a restart, however commits, failing ones
  included, compactions that complete or break off at any step, and restarts follow each other.
\<close>

section \<open>Data\<close>

record OffsetEntry =
  oe_offset :: offset
  oe_metadata :: string

type_synonym offset_key = "string \<times> string \<times> nat"

record ConsumerGroupManager =
  cg_offsets :: "(offset_key \<times> OffsetEntry) list"
  cg_log :: bytes
  cg_path :: log_path

section \<open>The record format\<close>

definition CONSUMER_OFFSETS_MAGIC :: byte where
  "CONSUMER_OFFSETS_MAGIC = 0xCF"

definition compute_crc ::
  "(bytes \<Rightarrow> nat) \<Rightarrow> string \<Rightarrow> string \<Rightarrow> nat \<Rightarrow> offset \<Rightarrow> string \<Rightarrow> nat" where
  "compute_crc crc group_id topic pidx off metadata =
     crc (str_bytes group_id @ str_bytes topic @ be_bytes 4 pidx @ be_bytes 8 off @ str_bytes metadata)"

fun encode_offset :: "(bytes \<Rightarrow> nat) \<Rightarrow> offset_key \<times> OffsetEntry \<Rightarrow> bytes" where
  "encode_offset crc ((group_id, topic, pidx), e) =
     [CONSUMER_OFFSETS_MAGIC]
     @ be_bytes 2 (length group_id) @ str_bytes group_id
     @ be_bytes 2 (length topic) @ str_bytes topic
     @ be_bytes 4 pidx
     @ be_bytes 8 (oe_offset e)
     @ be_bytes 2 (length (oe_metadata e)) @ str_bytes (oe_metadata e)
     @ be_bytes 4 (compute_crc crc group_id topic pidx (oe_offset e) (oe_metadata e))"

text \<open>One iteration of the recovery loop.\<close>

definition parse_offset :: "(bytes \<Rightarrow> nat) \<Rightarrow> bytes \<Rightarrow> (offset_key \<times> OffsetEntry) parse_step" where
  "parse_offset crc buf =
     pbind (need_magic CONSUMER_OFFSETS_MAGIC buf) (\<lambda>_ buf.
     pbind (need_string buf) (\<lambda>group_id buf.
     pbind (need_string buf) (\<lambda>topic buf.
     pbind (require 12 buf) (\<lambda>_ buf.
     pbind (need_be 4 buf) (\<lambda>pidx buf.
     pbind (need_be 8 buf) (\<lambda>off buf.
     pbind (need_string buf) (\<lambda>metadata buf.
     pbind (need_be 4 buf) (\<lambda>c buf.
       if c = compute_crc crc group_id topic pidx off metadata
       then Got ((group_id, topic, pidx), \<lparr>oe_offset = off, oe_metadata = metadata\<rparr>) buf
       else Bad))))))))"

section \<open>Operations\<close>

text \<open>
  \<open>open\<close> on a file delivered in the chunks \<open>cs\<close>: replay the readable prefix and truncate
  the file to it.
\<close>

definition open_offsets :: "(bytes \<Rightarrow> nat) \<Rightarrow> bytes list \<Rightarrow> ConsumerGroupManager" where
  "open_offsets crc cs =
     (case read_chunks (parse_offset crc) 0 [] cs of (rs, last_good_pos, is_corrupt) \<Rightarrow>
        \<lparr>cg_offsets = replay rs, cg_log = take last_good_pos (concat cs), cg_path = SameFile\<rparr>)"

text \<open>
  Compaction takes the image of the map first and swaps the files afterwards; the lock of the
  log is not held in between.
\<close>

definition compacted_bytes :: "(bytes \<Rightarrow> nat) \<Rightarrow> ConsumerGroupManager \<Rightarrow> bytes" where
  "compacted_bytes crc s = concat (map (encode_offset crc) (cg_offsets s))"

definition install_compacted ::
  "compact_io \<Rightarrow> bytes \<Rightarrow> ConsumerGroupManager \<Rightarrow> ConsumerGroupManager \<times> bool" where
  "install_compacted io entry_bytes s =
     (case swap_log io entry_bytes (cg_log s, cg_path s) of
        ((log, path), ok) \<Rightarrow> (s\<lparr>cg_log := log, cg_path := path\<rparr>, ok))"

definition compact_offsets ::
  "(bytes \<Rightarrow> nat) \<Rightarrow> compact_io \<Rightarrow> ConsumerGroupManager \<Rightarrow> ConsumerGroupManager \<times> bool" where
  "compact_offsets crc io s = install_compacted io (compacted_bytes crc s) s"

text \<open>A failed sync or size query is a \<open>Torn\<close> write of the whole record.\<close>

definition commit_offset_with_metadata ::
  "(bytes \<Rightarrow> nat) \<Rightarrow> write_result \<Rightarrow> compact_io \<Rightarrow> string \<Rightarrow> string \<Rightarrow> nat \<Rightarrow> offset \<Rightarrow> string
    \<Rightarrow> ConsumerGroupManager \<Rightarrow> ConsumerGroupManager \<times> bool" where
  "commit_offset_with_metadata crc io cio group_id topic pidx off metadata s =
     (let key = (group_id, topic, pidx);
          entry_obj = \<lparr>oe_offset = off, oe_metadata = metadata\<rparr>;
          s1 = s\<lparr>cg_offsets := AList.update key entry_obj (cg_offsets s)\<rparr>;
          entry = encode_offset crc (key, entry_obj) in
      case io of
        Torn n \<Rightarrow> (s1\<lparr>cg_log := cg_log s @ take n entry\<rparr>, False)
      | Written \<Rightarrow>
          (let s2 = s1\<lparr>cg_log := cg_log s @ entry\<rparr> in
           if length (cg_log s2) > 1024 * 1024 then compact_offsets crc cio s2 else (s2, True)))"

definition commit_offset ::
  "(bytes \<Rightarrow> nat) \<Rightarrow> write_result \<Rightarrow> compact_io \<Rightarrow> string \<Rightarrow> string \<Rightarrow> nat \<Rightarrow> offset
    \<Rightarrow> ConsumerGroupManager \<Rightarrow> ConsumerGroupManager \<times> bool" where
  "commit_offset crc io cio group_id topic pidx off s =
     commit_offset_with_metadata crc io cio group_id topic pidx off '''' s"

definition fetch_offset :: "string \<Rightarrow> string \<Rightarrow> nat \<Rightarrow> ConsumerGroupManager \<Rightarrow> offset option" where
  "fetch_offset group_id topic pidx s =
     map_option oe_offset (map_of (cg_offsets s) (group_id, topic, pidx))"

definition fetch_offset_with_metadata ::
  "string \<Rightarrow> string \<Rightarrow> nat \<Rightarrow> ConsumerGroupManager \<Rightarrow> OffsetEntry option" where
  "fetch_offset_with_metadata group_id topic pidx s = map_of (cg_offsets s) (group_id, topic, pidx)"

section \<open>The format is a stream codec\<close>

text \<open>The records the format can hold: strings and integers within their length fields.\<close>

fun offset_ok :: "(bytes \<Rightarrow> nat) \<Rightarrow> offset_key \<times> OffsetEntry \<Rightarrow> bool" where
  "offset_ok crc ((group_id, topic, pidx), e) \<longleftrightarrow>
     is_str group_id \<and> length group_id < 65536 \<and> is_str topic \<and> length topic < 65536 \<and>
     is_str (oe_metadata e) \<and> length (oe_metadata e) < 65536 \<and>
     pidx < 2 ^ 32 \<and> oe_offset e < 2 ^ 64 \<and>
     compute_crc crc group_id topic pidx (oe_offset e) (oe_metadata e) < 2 ^ 32"

lemma parse_offset_encode:
  assumes "offset_ok crc r"
  shows "parse_offset crc (encode_offset crc r @ rest) = Got r rest"
proof -
  obtain g t p e where r: "r = ((g, t, p), e)" by (metis surj_pair)
  let ?c = "compute_crc crc g t p (oe_offset e) (oe_metadata e)"
  have ok: "is_str g" "length g < 65536" "is_str t" "length t < 65536" "is_str (oe_metadata e)"
    "length (oe_metadata e) < 65536" "p < 256 ^ 4" "oe_offset e < 256 ^ 8" "?c < 256 ^ 4"
    using assms by (simp_all add: r)
  show ?thesis
    by (simp add: r parse_offset_def need_magic_def require_def need_string_append [OF ok(1,2)]
        need_string_append [OF ok(3,4)] need_string_append [OF ok(5,6)]
        need_be_append [OF ok(7)] need_be_append [OF ok(8)] need_be_append [OF ok(9)])
qed

lemma parse_offset_stable: "stable (parse_offset crc)"
  unfolding parse_offset_def by (intro stable_intros)

lemma parse_offset_progress:
  assumes "parse_offset crc xs = Got r rest"
  shows "length rest < length xs"
  using assms unfolding parse_offset_def
  by (rule need_magic_progress [rotated]) (intro stable_intros)

interpretation offset_log: stream_codec "parse_offset crc" "encode_offset crc" "offset_ok crc" for crc
proof unfold_locales
  show "stable (parse_offset crc)" by (rule parse_offset_stable)
  show "length rest < length xs" if "parse_offset crc xs = Got r rest" for xs r rest
    by (rule parse_offset_progress [OF that])
  show "parse_offset crc (encode_offset crc r) = Got r []" if "offset_ok crc r" for r
    using parse_offset_encode [OF that, of "[]"] by (simp only: append_Nil2)
qed

section \<open>What is in memory and what is on disk\<close>

text \<open>
  The abstract store: the map in memory, the map a restart would recover, and the shape of the
  file at the log's path: whole records, whole records and then the beginning of one, or
  anything else. A write reaches that file only while the handle stands for it; on whole records
  a whole write adds to the recoverable map; behind a torn record it makes the file unreadable
  from there on.
\<close>

datatype offsets_file = WholeRecords | TornRecord | Garbled

record offsets_view =
  ov_memory :: "offset_key \<Rightarrow> OffsetEntry option"
  ov_disk :: "offset_key \<Rightarrow> OffsetEntry option"
  ov_file :: offsets_file

definition view_write ::
  "write_result \<Rightarrow> nat \<Rightarrow> offset_key \<times> OffsetEntry \<Rightarrow> offsets_view \<Rightarrow> offsets_view" where
  "view_write io len r v =
     (let n = (case io of Written \<Rightarrow> len | Torn n \<Rightarrow> min n len) in
      if n = 0 then v
      else if ov_file v \<noteq> WholeRecords then v\<lparr>ov_file := Garbled\<rparr>
      else if n = len then v\<lparr>ov_disk := (ov_disk v)(fst r \<mapsto> snd r)\<rparr>
      else v\<lparr>ov_file := TornRecord\<rparr>)"

definition view_commit ::
  "write_result \<Rightarrow> nat \<Rightarrow> log_path \<Rightarrow> offset_key \<times> OffsetEntry \<Rightarrow> offsets_view \<Rightarrow> offsets_view" where
  "view_commit io len path r v =
     (if path = SameFile then view_write io len r v else v)
       \<lparr>ov_memory := (ov_memory v)(fst r \<mapsto> snd r)\<rparr>"

fun view_compact :: "compact_io \<Rightarrow> offsets_view \<Rightarrow> offsets_view" where
  "view_compact Compacted v = v\<lparr>ov_disk := ov_memory v, ov_file := WholeRecords\<rparr>"
| "view_compact ReopenFails v = v\<lparr>ov_disk := ov_memory v, ov_file := WholeRecords\<rparr>"
| "view_compact RenameFails v = v\<lparr>ov_disk := Map.empty, ov_file := WholeRecords\<rparr>"
| "view_compact _ v = v"

definition disk_log :: "ConsumerGroupManager \<Rightarrow> bytes" where
  "disk_log s = path_content (cg_log s) (cg_path s)"

text \<open>
  Histories: commits that fit their fields and compactions, with any outcome, and restarts that
  read the file at the log's path in any chunks, as long as it is not garbled. A process that
  dies in the middle of a commit or a compaction is one whose step failed there.
\<close>

inductive offsets_trace :: "(bytes \<Rightarrow> nat) \<Rightarrow> offsets_view \<Rightarrow> ConsumerGroupManager \<Rightarrow> bool" for crc where
  trace_open: "offsets_trace crc \<lparr>ov_memory = Map.empty, ov_disk = Map.empty, ov_file = WholeRecords\<rparr>
    (open_offsets crc [])"
| trace_commit: "\<lbrakk>offsets_trace crc v s; r = ((g, t, p), \<lparr>oe_offset = off, oe_metadata = md\<rparr>);
     offset_ok crc r; commit_offset_with_metadata crc io cio g t p off md s = (s', ok);
     v' = view_commit io (length (encode_offset crc r)) (cg_path s) r v\<rbrakk>
    \<Longrightarrow> offsets_trace crc
          (if io = Written \<and> 1024 * 1024 < length (cg_log s @ encode_offset crc r)
           then view_compact cio v' else v') s'"
| trace_compact: "\<lbrakk>offsets_trace crc v s; compact_offsets crc cio s = (s', ok)\<rbrakk>
    \<Longrightarrow> offsets_trace crc (view_compact cio v) s'"
| trace_restart: "\<lbrakk>offsets_trace crc v s; ov_file v \<noteq> Garbled; concat cs = disk_log s\<rbrakk>
    \<Longrightarrow> offsets_trace crc (v\<lparr>ov_memory := ov_disk v, ov_file := WholeRecords\<rparr>) (open_offsets crc cs)"

text \<open>What ties the store to its abstraction.\<close>

fun file_holds ::
  "(bytes \<Rightarrow> nat) \<Rightarrow> bytes \<Rightarrow> (offset_key \<Rightarrow> OffsetEntry option) \<Rightarrow> offsets_file \<Rightarrow> bool" where
  "file_holds crc bs d WholeRecords \<longleftrightarrow>
     (\<exists>rs. list_all (offset_ok crc) rs \<and> bs = concat (map (encode_offset crc) rs) \<and> d = map_of (rev rs))"
| "file_holds crc bs d TornRecord \<longleftrightarrow>
     (\<exists>rs r tail more. list_all (offset_ok crc) rs \<and> bs = concat (map (encode_offset crc) rs) @ tail \<and>
        d = map_of (rev rs) \<and> offset_ok crc r \<and> encode_offset crc r = tail @ more \<and> more \<noteq> [])"
| "file_holds crc bs d Garbled \<longleftrightarrow> True"

definition view_ok :: "(bytes \<Rightarrow> nat) \<Rightarrow> offsets_view \<Rightarrow> ConsumerGroupManager \<Rightarrow> bool" where
  "view_ok crc v s \<longleftrightarrow> distinct (map fst (cg_offsets s)) \<and> list_all (offset_ok crc) (cg_offsets s) \<and>
     ov_memory v = map_of (cg_offsets s) \<and> file_holds crc (disk_log s) (ov_disk v) (ov_file v)"

lemma open_offsets_recovers:
  assumes "file_holds crc (concat cs) d f" "f \<noteq> Garbled"
  shows "view_ok crc \<lparr>ov_memory = d, ov_disk = d, ov_file = WholeRecords\<rparr> (open_offsets crc cs)"
proof -
  from assms obtain rs tail where rs: "list_all (offset_ok crc) rs" "d = map_of (rev rs)"
    "concat cs = concat (map (encode_offset crc) rs) @ tail"
    "tail = [] \<or> (\<exists>r more. offset_ok crc r \<and> encode_offset crc r = tail @ more \<and> more \<noteq> [])"
  proof (cases f)
    case WholeRecords
    then show ?thesis using assms(1) that [of _ "[]"] by auto
  next
    case TornRecord
    then show ?thesis using assms(1) unfolding TornRecord file_holds.simps by (elim exE conjE) (rule that, auto)
  qed (use assms(2) in simp)
  have "read_chunks (parse_offset crc) 0 [] cs = (rs, length (concat (map (encode_offset crc) rs)), False)"
    using offset_log.read_chunks_log [OF _ rs(3,4)] rs(1) by (simp add: list_all_iff)
  then have eq: "open_offsets crc cs =
      \<lparr>cg_offsets = replay rs, cg_log = concat (map (encode_offset crc) rs), cg_path = SameFile\<rparr>"
    by (simp add: open_offsets_def rs(3))
  have "r \<in> set rs" if "r \<in> set (replay rs)" for r
  proof -
    have "map_of (replay rs) (fst r) = Some (snd r)"
      using that by (intro map_of_is_SomeI distinct_replay) simp
    then show ?thesis using map_of_SomeD [of "rev rs" "fst r" "snd r"] by (simp add: map_of_replay)
  qed
  with rs(1) have "list_all (offset_ok crc) (replay rs)" by (auto simp: list_all_iff)
  then show ?thesis
    using rs(1,2) by (auto simp: view_ok_def eq map_of_replay distinct_replay disk_log_def)
qed

lemma compact_view_ok:
  assumes "view_ok crc v s"
  shows "view_ok crc (view_compact io v) (fst (compact_offsets crc io s))"
proof -
  have "file_holds crc (compacted_bytes crc s) (ov_memory v) WholeRecords"
    using assms map_of_rev_distinct [of "cg_offsets s"]
    by (auto simp: view_ok_def compacted_bytes_def intro!: exI [of _ "cg_offsets s"])
  then show ?thesis
    using assms
    by (cases io) (auto simp: view_ok_def compact_offsets_def install_compacted_def disk_log_def
        intro: exI [of _ "[]"] simp del: file_holds.simps(2))
qed

lemma write_view_ok:
  assumes h: "file_holds crc bs (ov_disk v) (ov_file v)" and ok: "offset_ok crc r"
    and v': "v' = view_write io (length (encode_offset crc r)) r v"
    and bs': "bs' = bs @ (case io of Written \<Rightarrow> encode_offset crc r | Torn n \<Rightarrow> take n (encode_offset crc r))"
  shows "file_holds crc bs' (ov_disk v') (ov_file v')"
proof -
  let ?e = "encode_offset crc r"
  define n where "n = (case io of Written \<Rightarrow> length ?e | Torn n \<Rightarrow> min n (length ?e))"
  have bs: "bs' = bs @ take n ?e" using bs' by (auto simp: n_def min_def split: write_result.splits)
  have n_le: "n \<le> length ?e" by (simp add: n_def split: write_result.splits)
  have v: "v' = (if n = 0 then v
      else if ov_file v \<noteq> WholeRecords then v\<lparr>ov_file := Garbled\<rparr>
      else if n = length ?e then v\<lparr>ov_disk := (ov_disk v)(fst r \<mapsto> snd r)\<rparr>
      else v\<lparr>ov_file := TornRecord\<rparr>)"
    unfolding v' view_write_def n_def Let_def ..
  show ?thesis
  proof (cases "n = 0 \<or> ov_file v \<noteq> WholeRecords")
    case True
    then show ?thesis using h bs by (auto simp: v)
  next
    case False
    then obtain rs where rs: "list_all (offset_ok crc) rs" "bs = concat (map (encode_offset crc) rs)"
      "ov_disk v = map_of (rev rs)"
      using h by auto
    show ?thesis
    proof (cases "n = length ?e")
      case True
      then show ?thesis
        using False rs ok bs by (auto simp: v intro!: exI [of _ "rs @ [r]"])
    next
      case n: False
      then have "drop n ?e \<noteq> []" using n_le by simp
      then have "file_holds crc bs' (ov_disk v) TornRecord"
        unfolding file_holds.simps using rs ok bs
        by (intro exI [of _ rs] exI [of _ r] exI [of _ "take n ?e"] exI [of _ "drop n ?e"]) simp
      with False n show ?thesis by (simp add: v del: file_holds.simps)
    qed
  qed
qed

lemma set_update_insert: "set (AList.update k e xs) \<subseteq> insert (k, e) (set xs)"
  by (induction xs) auto

text \<open>A commit is the update of the map, the write, and the compaction the write may ask for.\<close>

lemma commit_view_ok:
  assumes ok: "view_ok crc v s" and r: "r = ((g, t, p), \<lparr>oe_offset = off, oe_metadata = md\<rparr>)"
    and fits: "offset_ok crc r"
    and v': "v' = view_commit io (length (encode_offset crc r)) (cg_path s) r v"
  shows "view_ok crc
    (if io = Written \<and> 1024 * 1024 < length (cg_log s @ encode_offset crc r) then view_compact cio v' else v')
    (fst (commit_offset_with_metadata crc io cio g t p off md s))"
proof -
  define written where "written = (case io of Written \<Rightarrow> encode_offset crc r | Torn n \<Rightarrow> take n (encode_offset crc r))"
  define s2 where "s2 = s\<lparr>cg_offsets := AList.update (fst r) (snd r) (cg_offsets s), cg_log := cg_log s @ written\<rparr>"
  have "file_holds crc (disk_log s2) (ov_disk v') (ov_file v')"
  proof (cases "cg_path s = SameFile")
    case True
    then have "disk_log s2 = disk_log s @ written" by (simp add: disk_log_def s2_def)
    then show ?thesis
      using True write_view_ok [OF _ fits refl refl, of "disk_log s" v io] ok
      by (simp add: v' view_commit_def view_ok_def written_def)
  next
    case False
    then have "disk_log s2 = disk_log s" by (cases "cg_path s") (simp_all add: disk_log_def s2_def)
    then show ?thesis using False ok by (simp add: v' view_commit_def view_ok_def)
  qed
  moreover have "list_all (offset_ok crc) (AList.update (fst r) (snd r) (cg_offsets s))"
    using ok fits set_update_insert [of "fst r" "snd r" "cg_offsets s"]
    by (auto simp: view_ok_def list_all_iff)
  moreover have "ov_memory v' = (ov_memory v)(fst r \<mapsto> snd r)" by (simp add: v' view_commit_def)
  ultimately have ok2: "view_ok crc v' s2"
    using ok by (simp add: view_ok_def s2_def AList.distinct_update AList.update_conv')
  have "commit_offset_with_metadata crc io cio g t p off md s =
      (if io = Written \<and> 1024 * 1024 < length (cg_log s @ encode_offset crc r)
       then compact_offsets crc cio s2 else (s2, io = Written))"
    by (simp add: commit_offset_with_metadata_def Let_def s2_def written_def r split: write_result.split)
  then show ?thesis using ok2 compact_view_ok [OF ok2, of cio] by simp
qed

lemma trace_view_ok: "offsets_trace crc v s \<Longrightarrow> view_ok crc v s"
proof (induction rule: offsets_trace.induct)
  case trace_open
  have "file_holds crc (concat []) Map.empty WholeRecords" by (auto intro: exI [of _ "[]"])
  from open_offsets_recovers [OF this] show ?case by simp
next
  case (trace_commit v s r g t p off md io cio s' ok v')
  then show ?case using commit_view_ok [OF trace_commit.IH trace_commit.hyps(2,3,5), of cio] by simp
next
  case (trace_compact v s cio s' ok)
  then show ?case using compact_view_ok [OF trace_compact.IH, of cio] by simp
next
  case (trace_restart v s cs)
  then have "file_holds crc (concat cs) (ov_disk v) (ov_file v)" by (simp add: view_ok_def)
  from open_offsets_recovers [OF this trace_restart.hyps(2)] show ?case
    by (auto simp: view_ok_def simp del: file_holds.simps)
qed

section \<open>Properties\<close>

definition demo_key :: offset_key where
  "demo_key = (''g'', ''t'', 0)"

definition demo_commit :: ConsumerGroupManager where
  "demo_commit = fst (commit_offset_with_metadata (\<lambda>_. 0) Written Compacted ''g'' ''t'' 0 5 [] (open_offsets (\<lambda>_. 0) []))"

text \<open>A second commit of the key, cut short after 7 bytes.\<close>

definition demo_torn :: ConsumerGroupManager where
  "demo_torn = fst (commit_offset_with_metadata (\<lambda>_. 0) (Torn 7) Compacted ''g'' ''t'' 0 9 [] demo_commit)"

lemma open_offsets_empty: "open_offsets crc [] = \<lparr>cg_offsets = [], cg_log = [], cg_path = SameFile\<rparr>"
  by (simp add: open_offsets_def replay_def)

lemma demo_trace:
  "offsets_trace (\<lambda>_. 0) \<lparr>ov_memory = [demo_key \<mapsto> \<lparr>oe_offset = 5, oe_metadata = []\<rparr>],
     ov_disk = [demo_key \<mapsto> \<lparr>oe_offset = 5, oe_metadata = []\<rparr>], ov_file = WholeRecords\<rparr> demo_commit"
proof -
  have "commit_offset_with_metadata (\<lambda>_. 0) Written Compacted ''g'' ''t'' 0 5 [] (open_offsets (\<lambda>_. 0) []) =
      (demo_commit, True)"
    by (simp add: demo_commit_def commit_offset_with_metadata_def open_offsets_empty Let_def)
  from trace_commit [OF trace_open refl _ this refl] show ?thesis
    by (simp add: compute_crc_def open_offsets_empty view_commit_def view_write_def demo_key_def)
qed

lemma demo_torn_trace:
  "offsets_trace (\<lambda>_. 0) \<lparr>ov_memory = [demo_key \<mapsto> \<lparr>oe_offset = 9, oe_metadata = []\<rparr>],
     ov_disk = [demo_key \<mapsto> \<lparr>oe_offset = 5, oe_metadata = []\<rparr>], ov_file = TornRecord\<rparr> demo_torn"
proof -
  have "commit_offset_with_metadata (\<lambda>_. 0) (Torn 7) Compacted ''g'' ''t'' 0 9 [] demo_commit = (demo_torn, False)"
    by (simp add: demo_torn_def commit_offset_with_metadata_def Let_def)
  moreover have "cg_path demo_commit = SameFile"
    by (simp add: demo_commit_def commit_offset_with_metadata_def open_offsets_empty Let_def)
  ultimately show ?thesis
    using trace_commit [OF demo_trace refl, of "''g''" "''t''" 0 9 "[]" "Torn 7" Compacted demo_torn False]
    by (simp add: compute_crc_def view_commit_def view_write_def demo_key_def)
qed

text \<open>C14 (\<^emph>\<open>durable offsets\<close>). However commits that fit their fields, with writes that succeed or are cut
  short, compactions that complete or fail at any of their steps, and restarts follow each other,
  \<open>fetch_offset_with_metadata\<close> answers with the last commit of the key in this life of the
  process, also one whose write failed, or with what its start recovered; and a restart on the file, unless a write went
  behind a torn record, recovers exactly \<open>ov_disk\<close>: the last whole record of the key written
  while the handle stood for the file at the log's path and all records before it were whole,
  or, from the last compaction that replaced that file on, the value at that moment (nothing
  when it removed the file and did not get to the rename). In particular a commit that reports
  success is recovered, when the handle stands for the file at the log's path and no write has
  been cut short since the start or the last compaction.\<close>

theorem committed_offsets_durable:
  assumes "offsets_trace crc v s"
  shows "fetch_offset_with_metadata group_id topic pidx s = ov_memory v (group_id, topic, pidx) \<and>
    (ov_file v \<noteq> Garbled \<longrightarrow> concat cs = disk_log s \<longrightarrow>
      fetch_offset_with_metadata group_id topic pidx (open_offsets crc cs) = ov_disk v (group_id, topic, pidx)) \<and>
    (ov_file v = WholeRecords \<longrightarrow> cg_path s = SameFile \<longrightarrow>
      offset_ok crc ((group_id, topic, pidx), \<lparr>oe_offset = off, oe_metadata = md\<rparr>) \<longrightarrow>
      commit_offset_with_metadata crc io cio group_id topic pidx off md s = (s', True) \<longrightarrow>
      concat cs' = disk_log s' \<longrightarrow>
      fetch_offset_with_metadata group_id topic pidx (open_offsets crc cs') =
        Some \<lparr>oe_offset = off, oe_metadata = md\<rparr>)"
proof (intro conjI impI)
  note ok = trace_view_ok [OF assms]
  show "fetch_offset_with_metadata group_id topic pidx s = ov_memory v (group_id, topic, pidx)"
    using ok by (simp add: view_ok_def fetch_offset_with_metadata_def)
  show "fetch_offset_with_metadata group_id topic pidx (open_offsets crc cs) = ov_disk v (group_id, topic, pidx)"
    if "ov_file v \<noteq> Garbled" "concat cs = disk_log s"
    using trace_view_ok [OF trace_restart [OF assms that]]
    by (simp add: view_ok_def fetch_offset_with_metadata_def)
  show "fetch_offset_with_metadata group_id topic pidx (open_offsets crc cs') =
      Some \<lparr>oe_offset = off, oe_metadata = md\<rparr>"
    if w: "ov_file v = WholeRecords" "cg_path s = SameFile"
      "offset_ok crc ((group_id, topic, pidx), \<lparr>oe_offset = off, oe_metadata = md\<rparr>)"
      and c: "commit_offset_with_metadata crc io cio group_id topic pidx off md s = (s', True)"
      and cs: "concat cs' = disk_log s'"
  proof -
    let ?r = "((group_id, topic, pidx), \<lparr>oe_offset = off, oe_metadata = md\<rparr>)"
    let ?big = "io = Written \<and> 1024 * 1024 < length (cg_log s @ encode_offset crc ?r)"
    define v' where "v' = view_commit io (length (encode_offset crc ?r)) (cg_path s) ?r v"
    define v2 where "v2 = (if ?big then view_compact cio v' else v')"
    have tr: "offsets_trace crc v2 s'"
      using trace_commit [OF assms refl w(3) c v'_def] by (simp add: v2_def)
    have io: "io = Written" "?big \<Longrightarrow> cio = Compacted"
      using c by (auto simp: commit_offset_with_metadata_def Let_def compact_offsets_def
          install_compacted_def swap_log_True split: write_result.splits if_splits prod.splits)
    have v': "ov_disk v' (fst ?r) = Some (snd ?r)" "ov_memory v' (fst ?r) = Some (snd ?r)"
      "ov_file v' = WholeRecords"
      using w(1,2) io(1) by (simp_all add: v'_def view_commit_def view_write_def Let_def)
    then have "ov_disk v2 (fst ?r) = Some (snd ?r)" "ov_file v2 \<noteq> Garbled"
      using io by (auto simp: v2_def)
    with trace_view_ok [OF trace_restart [OF tr _ cs]] show ?thesis
      by (simp add: view_ok_def fetch_offset_with_metadata_def)
  qed
qed

theorem committed_offsets_durable_witness:
  "fetch_offset_with_metadata ''g'' ''t'' 0 demo_torn = Some \<lparr>oe_offset = 9, oe_metadata = []\<rparr> \<and>
   fetch_offset_with_metadata ''g'' ''t'' 0 (open_offsets (\<lambda>_. 0)
     [take 3 (disk_log demo_torn), drop 3 (disk_log demo_torn)]) = Some \<lparr>oe_offset = 5, oe_metadata = []\<rparr>"
  using committed_offsets_durable [OF demo_torn_trace, of "''g''" "''t''" 0
      "[take 3 (disk_log demo_torn), drop 3 (disk_log demo_torn)]"]
  by (simp add: demo_key_def)

section \<open>Limits of the code\<close>

text \<open>
  A write that fails part-way leaves its bytes in the file. Commits that succeed afterwards
  land behind them and cannot be read back: here the second commit returned success, yet
  after a restart its offset is gone.
\<close>

lemma failed_write_hides_later_commits:
  fixes s1 s2
  assumes "(s1, ok1) = commit_offset (\<lambda>_. 0) (Torn 1) cio ''g'' ''t'' 0 4 (open_offsets (\<lambda>_. 0) [])"
    and "(s2, ok2) = commit_offset (\<lambda>_. 0) Written cio ''g'' ''t'' 0 5 s1"
  shows "ok2 \<and> fetch_offset ''g'' ''t'' 0 s2 = Some 5 \<and>
    fetch_offset ''g'' ''t'' 0 (open_offsets (\<lambda>_. 0) [disk_log s2]) = None"
proof -
  have s2: "cg_log s2 = CONSUMER_OFFSETS_MAGIC # encode_offset (\<lambda>_. 0) ((''g'', ''t'', 0), \<lparr>oe_offset = 5, oe_metadata = []\<rparr>)"
    "ok2" "fetch_offset ''g'' ''t'' 0 s2 = Some 5" "disk_log s2 = cg_log s2"
    using assms by (simp_all add: commit_offset_def commit_offset_with_metadata_def Let_def fetch_offset_def
        open_offsets_empty disk_log_def)
  have "need_string (encode_offset (\<lambda>_. 0) ((''g'', ''t'', 0), \<lparr>oe_offset = 5, oe_metadata = []\<rparr>)) = Need"
  proof -
    have "be_bytes 2 (Suc 0) = [0, 1]" by (simp add: numeral_2_eq_2)
    moreover have "be_val [0xCF, 0] = 0xCF00" by (simp add: be_val_def)
    ultimately show ?thesis
      by (simp add: need_string_def need_be_def need_utf8_def CONSUMER_OFFSETS_MAGIC_def)
  qed
  then have "parse_offset (\<lambda>_. 0) (cg_log s2) = Need"
    unfolding s2(1) by (simp add: parse_offset_def need_magic_def pbind_def)
  then have "drain (parse_offset (\<lambda>_. 0)) (cg_log s2) = ([], cg_log s2, False)"
    using s2(1) by (simp add: drain.simps)
  then show ?thesis using s2(2-4) by (simp add: open_offsets_def replay_def fetch_offset_def)
qed

text \<open>
  A process that dies between the removal of the log and the rename of the compacted file has
  lost every committed offset: the next start creates an empty log.
\<close>

lemma crash_in_compaction_loses_offsets:
  "fetch_offset g t p (open_offsets crc [disk_log (fst (compact_offsets crc RenameFails s))]) = None"
  by (simp add: compact_offsets_def install_compacted_def disk_log_def open_offsets_def replay_def
      fetch_offset_def drain.simps [of _ "[]"])

text \<open>
  A commit of another thread that falls between the image of the map and the exchange of the
  files reports success and is not in the log afterwards.
\<close>

lemma commit_during_compaction_is_lost:
  assumes "length (cg_log s @ encode_offset crc ((g, t, p), \<lparr>oe_offset = off, oe_metadata = md\<rparr>)) \<le> 1024 * 1024"
    and "commit_offset_with_metadata crc Written cio g t p off md s = (s', ok)"
    and "install_compacted Compacted (compacted_bytes crc s) s' = (s'', ok')"
  shows "ok \<and> ok' \<and> fetch_offset g t p s'' = Some off \<and> disk_log s'' = compacted_bytes crc s"
  using assms by (auto simp: commit_offset_with_metadata_def install_compacted_def Let_def fetch_offset_def
      disk_log_def AList.update_conv' not_less)

end
