(* ===== verification/Ip_Address.thy ===== *)
theory Ip_Address
  imports Prelude
begin

text \<open>
  Addresses and address ranges (\<^verbatim>\<open>src/server/listener.rs\<close>): the \<open>IpAddr\<close> parser of the
  Rust standard library the broker uses on configured rules, the CIDR tests
  \<open>cidr_contains\<close>, \<open>ipv4_cidr_contains\<close> and \<open>ipv6_cidr_contains\<close> on 32-bit and 128-bit
  words with the source's mask, and the allowlist of the metrics endpoint. The lemmas show
  that a mask test compares exactly the leading bits of the two addresses.
\<close>

unbundle bit_operations_syntax

section \<open>Characters of a string\<close>

text \<open>
  \<open>str::chars\<close>: a character is the chunk of UTF-8 bytes that encodes it, so equality of
  characters is equality of chunks. On a string that is not well-formed (no Rust string is)
  the chunk is one byte.
\<close>

function chars :: "string \<Rightarrow> string list" where
  "chars s =
     (if s = [] then []
      else (let n = max 1 (utf8_char_len (str_bytes s)) in take n s # chars (drop n s)))"
  by pat_completeness auto
termination
  by (relation "measure length") (auto simp: Let_def)

declare chars.simps [simp del]

lemma chars_Nil [simp]: "chars [] = []"
  by (simp add: chars.simps)

lemma chars_ascii [simp]: "of_char c < (128::nat) \<Longrightarrow> chars (c # s) = [c] # chars s"
  by (simp add: chars.simps [of "c # s"] str_bytes_def utf8_char_len_def in_range_def
      unat_of_nat)

lemma concat_chars: "concat (chars s) = s"
  by (induction s rule: chars.induct) (subst chars.simps, simp add: Let_def)

lemma chars_inject: "chars s = chars t \<longleftrightarrow> s = t"
  by (metis concat_chars)

definition byte_char :: "nat \<Rightarrow> char" where
  "byte_char n = char_of n"

text \<open>The characters with the Unicode property White_Space, which \<open>str::trim\<close> removes.\<close>

definition white_space :: "string list" where
  "white_space =
     map (map byte_char)
       ([[9], [10], [11], [12], [13], [32], [194, 133], [194, 160], [225, 154, 128]] @
        map (\<lambda>n. [226, 128, n]) [128..<139] @
        [[226, 128, 168], [226, 128, 169], [226, 128, 175], [226, 129, 159], [227, 128, 128]])"

definition trim :: "string \<Rightarrow> string" where
  "trim s =
     concat (rev (dropWhile (\<lambda>c. c \<in> set white_space)
       (rev (dropWhile (\<lambda>c. c \<in> set white_space) (chars s)))))"

section \<open>Parsing numbers and addresses\<close>

datatype IpAddr = V4 "32 word" | V6 "128 word"

definition to_digit :: "nat \<Rightarrow> char \<Rightarrow> nat option" where
  "to_digit radix c =
     (let n = of_char c in
      let d = (if 48 \<le> n \<and> n \<le> 57 then n - 48
               else if 97 \<le> n \<and> n \<le> 122 then n - 87
               else if 65 \<le> n \<and> n \<le> 90 then n - 55 else radix) in
      if d < radix then Some d else None)"

text \<open>\<open>read_digits\<close> is the digit loop of \<open>read_number\<close>: the value, the digit count, the rest.\<close>

fun read_digits :: "nat \<Rightarrow> string \<Rightarrow> nat \<Rightarrow> nat \<Rightarrow> nat \<times> nat \<times> string" where
  "read_digits radix [] value count = (value, count, [])"
| "read_digits radix (c # s) value count =
     (case to_digit radix c of
        None \<Rightarrow> (value, count, c # s)
      | Some d \<Rightarrow> read_digits radix s (value * radix + d) (count + 1))"

definition read_number :: "nat \<Rightarrow> nat \<Rightarrow> nat \<Rightarrow> bool \<Rightarrow> string \<Rightarrow> (nat \<times> string) option" where
  "read_number radix max_digits max_value allow_zero_prefix s =
     (let (value, count, rest) = read_digits radix s 0 0 in
      if count = 0 \<or> count > max_digits \<or> value > max_value then None
      else if \<not> allow_zero_prefix \<and> hd s = CHR ''0'' \<and> count > 1 then None
      else Some (value, rest))"

definition read_separator ::
    "char \<Rightarrow> nat \<Rightarrow> (string \<Rightarrow> ('a \<times> string) option) \<Rightarrow> string \<Rightarrow> ('a \<times> string) option" where
  "read_separator sep i inner s =
     (if i > 0
      then (case s of [] \<Rightarrow> None | c # r \<Rightarrow> if c = sep then inner r else None)
      else inner s)"

fun read_octets :: "nat \<Rightarrow> nat \<Rightarrow> string \<Rightarrow> (nat list \<times> string) option" where
  "read_octets i 0 s = Some ([], s)"
| "read_octets i (Suc n) s =
     (case read_separator (CHR ''.'') i (read_number 10 3 255 False) s of
        None \<Rightarrow> None
      | Some (v, r) \<Rightarrow>
          (case read_octets (i + 1) n r of None \<Rightarrow> None | Some (vs, r') \<Rightarrow> Some (v # vs, r')))"

definition read_ipv4_addr :: "string \<Rightarrow> (nat list \<times> string) option" where
  "read_ipv4_addr s = read_octets 0 4 s"

text \<open>
  \<open>read_groups\<close> of the IPv6 parser: up to \<open>n\<close> sixteen-bit groups from index \<open>i\<close>, the
  last two possibly written as an IPv4 address; returns the groups, whether an IPv4 part
  ended them, and the rest.
\<close>

fun read_groups :: "nat \<Rightarrow> nat \<Rightarrow> string \<Rightarrow> nat list \<times> bool \<times> string" where
  "read_groups i 0 s = ([], False, s)"
| "read_groups i (Suc n) s =
     (case (if n > 0 then read_separator (CHR '':'') i read_ipv4_addr s else None) of
        Some (v, r) \<Rightarrow> ([v ! 0 * 256 + v ! 1, v ! 2 * 256 + v ! 3], True, r)
      | None \<Rightarrow>
          (case read_separator (CHR '':'') i (read_number 16 4 65535 True) s of
             None \<Rightarrow> ([], False, s)
           | Some (g, r) \<Rightarrow> (let (gs, v4, r') = read_groups (i + 1) n r in (g # gs, v4, r'))))"

definition read_ipv6_addr :: "string \<Rightarrow> (nat list \<times> string) option" where
  "read_ipv6_addr s =
     (let (head, head_ipv4, r) = read_groups 0 8 s in
      if length head = 8 then Some (head, r)
      else if head_ipv4 then None
      else (case r of
              c # d # r2 \<Rightarrow>
                if c = CHR '':'' \<and> d = CHR '':''
                then (let (tail, _, r3) = read_groups 0 (8 - (length head + 1)) r2 in
                      Some (head @ replicate (8 - length head - length tail) 0 @ tail, r3))
                else None
            | _ \<Rightarrow> None))"

definition parse_ip :: "string \<Rightarrow> IpAddr option" where
  "parse_ip s =
     (case read_ipv4_addr s of
        Some (v, r) \<Rightarrow>
          if r = [] then Some (V4 (foldl (\<lambda>a x. a * 256 + of_nat x) 0 v)) else None
      | None \<Rightarrow>
          (case read_ipv6_addr s of
             Some (g, r) \<Rightarrow>
               if r = [] then Some (V6 (foldl (\<lambda>a x. a * 65536 + of_nat x) 0 g)) else None
           | None \<Rightarrow> None))"

definition parse_u8 :: "string \<Rightarrow> nat option" where
  "parse_u8 s =
     (let digits = (if s \<noteq> [] \<and> hd s = CHR ''+'' then tl s else s);
          (value, count, rest) = read_digits 10 digits 0 0 in
      if count = 0 \<or> rest \<noteq> [] \<or> value > 255 then None else Some value)"

section \<open>Ranges\<close>

definition ipv4_cidr_contains :: "32 word \<Rightarrow> nat \<Rightarrow> 32 word \<Rightarrow> bool" where
  "ipv4_cidr_contains network prefix peer =
     (if prefix > 32 then False
      else if prefix = 0 then True
      else (let mask = push_bit (32 - prefix) (- 1) in (network AND mask) = (peer AND mask)))"

definition ipv6_cidr_contains :: "128 word \<Rightarrow> nat \<Rightarrow> 128 word \<Rightarrow> bool" where
  "ipv6_cidr_contains network prefix peer =
     (if prefix > 128 then False
      else if prefix = 0 then True
      else (let mask = push_bit (128 - prefix) (- 1) in (network AND mask) = (peer AND mask)))"

definition split_once :: "char \<Rightarrow> string \<Rightarrow> (string \<times> string) option" where
  "split_once c s =
     (let a = takeWhile (\<lambda>x. x \<noteq> c) s in
      if length a < length s then Some (a, drop (length a + 1) s) else None)"

definition cidr_contains :: "string \<Rightarrow> IpAddr \<Rightarrow> bool" where
  "cidr_contains cidr peer_ip =
     (case split_once (CHR ''/'') cidr of
        None \<Rightarrow> False
      | Some (net_str, prefix_str) \<Rightarrow>
          (case parse_ip net_str of
             None \<Rightarrow> False
           | Some network_ip \<Rightarrow>
               (case parse_u8 prefix_str of
                  None \<Rightarrow> False
                | Some prefix \<Rightarrow>
                    (case (network_ip, peer_ip) of
                       (V4 net, V4 peer) \<Rightarrow> ipv4_cidr_contains net prefix peer
                     | (V6 net, V6 peer) \<Rightarrow> ipv6_cidr_contains net prefix peer
                     | _ \<Rightarrow> False))))"

definition is_allowed_metrics_peer :: "string list \<Rightarrow> IpAddr \<Rightarrow> bool" where
  "is_allowed_metrics_peer allowed_ips peer_ip =
     (if allowed_ips = [] then True
      else (\<exists>rule\<in>set allowed_ips.
        (let rule = trim rule in
         if rule = ''*'' then True
         else (case parse_ip rule of
                 Some ip \<Rightarrow> ip = peer_ip
               | None \<Rightarrow> cidr_contains rule peer_ip))))"

section \<open>A mask test compares leading bits\<close>

lemma mask_test:
  fixes a b :: "'a::len word"
  shows "(a AND NOT (mask n)) = (b AND NOT (mask n)) \<longleftrightarrow>
    (\<forall>i. n \<le> i \<and> i < LENGTH('a) \<longrightarrow> bit a i = bit b i)"
proof -
  have "(a AND NOT (mask n)) = (b AND NOT (mask n)) \<longleftrightarrow>
    (\<forall>i < LENGTH('a). bit (a AND NOT (mask n)) i = bit (b AND NOT (mask n)) i)"
    by (auto intro: bit_word_eqI)
  then show ?thesis by (auto simp: bit_simps not_less)
qed

definition same_prefix :: "nat \<Rightarrow> 'a::len word \<Rightarrow> 'a word \<Rightarrow> bool" where
  "same_prefix n a b \<longleftrightarrow> take n (rev (map (bit a) [0..<LENGTH('a)])) = take n (rev (map (bit b) [0..<LENGTH('a)]))"

lemma same_prefix_iff:
  fixes a b :: "'a::len word"
  assumes "n \<le> LENGTH('a)"
  shows "same_prefix n a b \<longleftrightarrow> (\<forall>i. LENGTH('a) - n \<le> i \<and> i < LENGTH('a) \<longrightarrow> bit a i = bit b i)"
  using assms by (auto simp: same_prefix_def take_rev drop_map)

lemma ipv4_cidr_contains_iff:
  "ipv4_cidr_contains net p peer \<longleftrightarrow> p \<le> 32 \<and> same_prefix p net peer"
proof (cases "p \<le> 32 \<and> p \<noteq> 0")
  case True
  then show ?thesis by (simp add: ipv4_cidr_contains_def Let_def mask_test same_prefix_iff)
qed (auto simp: ipv4_cidr_contains_def same_prefix_def)

lemma ipv6_cidr_contains_iff:
  "ipv6_cidr_contains net p peer \<longleftrightarrow> p \<le> 128 \<and> same_prefix p net peer"
proof (cases "p \<le> 128 \<and> p \<noteq> 0")
  case True
  then show ?thesis by (simp add: ipv6_cidr_contains_def Let_def mask_test same_prefix_iff)
qed (auto simp: ipv6_cidr_contains_def same_prefix_def)

end
