(* ===== verification/Acl.thy ===== *)
theory Acl
  imports Ip_Address "HOL-Library.Sublist"
begin

text \<open>
  Access control (\<^verbatim>\<open>src/server/acl.rs\<close>, and \<open>StorageEngine::authorize\<close> of
  \<^verbatim>\<open>src/server/engine.rs\<close>): the enumerations of the wire codes, the bucketed store
  \<open>AclManager\<close>, the matching of one rule with its host ranges and name patterns, and the
  iterative wildcard matcher \<open>glob_match\<close>, written as the loop it is.

  The store is compared with the plain set of rules that were added and not removed; the
  wildcard matcher with the recursive definition \<open>glob\<close> of what a pattern means, including
  that its loop always ends.
\<close>

section \<open>Codes\<close>

datatype ResourceType =
  ResUnknown | ResAny | ResTopic | ResGroup | ResCluster | ResTransactionalId | ResUser

fun ResourceType_from :: "nat \<Rightarrow> ResourceType" where
  "ResourceType_from v =
     (if v = 1 then ResAny else if v = 2 then ResTopic else if v = 3 then ResGroup
      else if v = 4 then ResCluster else if v = 5 then ResTransactionalId
      else if v = 6 then ResUser else ResUnknown)"

fun ResourceType_code :: "ResourceType \<Rightarrow> nat" where
  "ResourceType_code ResUnknown = 0"
| "ResourceType_code ResAny = 1"
| "ResourceType_code ResTopic = 2"
| "ResourceType_code ResGroup = 3"
| "ResourceType_code ResCluster = 4"
| "ResourceType_code ResTransactionalId = 5"
| "ResourceType_code ResUser = 6"

datatype ResourcePatternType = PatUnknown | PatAny | PatMatch | PatLiteral | PatPrefixed

fun ResourcePatternType_from :: "nat \<Rightarrow> ResourcePatternType" where
  "ResourcePatternType_from v =
     (if v = 1 then PatAny else if v = 2 then PatMatch else if v = 3 then PatLiteral
      else if v = 4 then PatPrefixed else PatUnknown)"

fun ResourcePatternType_code :: "ResourcePatternType \<Rightarrow> nat" where
  "ResourcePatternType_code PatUnknown = 0"
| "ResourcePatternType_code PatAny = 1"
| "ResourcePatternType_code PatMatch = 2"
| "ResourcePatternType_code PatLiteral = 3"
| "ResourcePatternType_code PatPrefixed = 4"

datatype AclOperation =
    OpUnknown | OpAny | OpAll | OpRead | OpWrite | OpCreate | OpDelete | OpAlter | OpDescribe
  | OpClusterAction | OpDescribeConfigs | OpAlterConfigs | OpIdempotentWrite

fun AclOperation_code :: "AclOperation \<Rightarrow> nat" where
  "AclOperation_code OpUnknown = 0"
| "AclOperation_code OpAny = 1"
| "AclOperation_code OpAll = 2"
| "AclOperation_code OpRead = 3"
| "AclOperation_code OpWrite = 4"
| "AclOperation_code OpCreate = 5"
| "AclOperation_code OpDelete = 6"
| "AclOperation_code OpAlter = 7"
| "AclOperation_code OpDescribe = 8"
| "AclOperation_code OpClusterAction = 9"
| "AclOperation_code OpDescribeConfigs = 10"
| "AclOperation_code OpAlterConfigs = 11"
| "AclOperation_code OpIdempotentWrite = 12"

definition all_operations :: "AclOperation list" where
  "all_operations =
     [OpUnknown, OpAny, OpAll, OpRead, OpWrite, OpCreate, OpDelete, OpAlter, OpDescribe,
      OpClusterAction, OpDescribeConfigs, OpAlterConfigs, OpIdempotentWrite]"

definition AclOperation_from :: "nat \<Rightarrow> AclOperation" where
  "AclOperation_from v = (if 1 \<le> v \<and> v \<le> 12 then all_operations ! v else OpUnknown)"

datatype AclPermissionType = PermUnknown | PermAny | PermDeny | PermAllow

fun AclPermissionType_from :: "nat \<Rightarrow> AclPermissionType" where
  "AclPermissionType_from v =
     (if v = 1 then PermAny else if v = 2 then PermDeny else if v = 3 then PermAllow
      else PermUnknown)"

fun AclPermissionType_code :: "AclPermissionType \<Rightarrow> nat" where
  "AclPermissionType_code PermUnknown = 0"
| "AclPermissionType_code PermAny = 1"
| "AclPermissionType_code PermDeny = 2"
| "AclPermissionType_code PermAllow = 3"

section \<open>Rules and their store\<close>

record AclBinding =
  resource_type :: nat
  resource_name :: string
  pattern_type :: nat
  acl_principal :: string
  acl_host :: string
  acl_operation :: nat
  permission_type :: nat

record AclManager =
  acl_literal :: "((nat \<times> string) \<times> AclBinding list) list"
  acl_patterned :: "(nat \<times> AclBinding list) list"

definition new_acl :: AclManager where
  "new_acl = \<lparr>acl_literal = [], acl_patterned = []\<rparr>"

definition bucket_key :: "AclBinding \<Rightarrow> (nat \<times> string) option" where
  "bucket_key b =
     (if pattern_type b = ResourcePatternType_code PatLiteral \<and> resource_name b \<noteq> ''*''
      then Some (resource_type b, resource_name b) else None)"

definition bucket :: "('k \<times> AclBinding list) list \<Rightarrow> 'k \<Rightarrow> AclBinding list" where
  "bucket m k = (case map_of m k of None \<Rightarrow> [] | Some bs \<Rightarrow> bs)"

definition add_acl :: "AclBinding \<Rightarrow> AclManager \<Rightarrow> AclManager \<times> bool" where
  "add_acl b s =
     (case bucket_key b of
        Some key \<Rightarrow>
          (let bs = bucket (acl_literal s) key in
           if b \<in> set bs then (s\<lparr>acl_literal := AList.update key bs (acl_literal s)\<rparr>, False)
           else (s\<lparr>acl_literal := AList.update key (bs @ [b]) (acl_literal s)\<rparr>, True))
      | None \<Rightarrow>
          (let key = resource_type b; bs = bucket (acl_patterned s) key in
           if b \<in> set bs then (s\<lparr>acl_patterned := AList.update key bs (acl_patterned s)\<rparr>, False)
           else (s\<lparr>acl_patterned := AList.update key (bs @ [b]) (acl_patterned s)\<rparr>, True)))"

definition remove_acl :: "AclBinding \<Rightarrow> AclManager \<Rightarrow> AclManager \<times> bool" where
  "remove_acl b s =
     (case bucket_key b of
        Some key \<Rightarrow>
          (case map_of (acl_literal s) key of
             None \<Rightarrow> (s, False)
           | Some bs \<Rightarrow>
               (let bs' = filter (\<lambda>x. x \<noteq> b) bs in
                (s\<lparr>acl_literal := AList.update key bs' (acl_literal s)\<rparr>,
                 length bs' \<noteq> length bs)))
      | None \<Rightarrow>
          (case map_of (acl_patterned s) (resource_type b) of
             None \<Rightarrow> (s, False)
           | Some bs \<Rightarrow>
               (let bs' = filter (\<lambda>x. x \<noteq> b) bs in
                (s\<lparr>acl_patterned := AList.update (resource_type b) bs' (acl_patterned s)\<rparr>,
                 length bs' \<noteq> length bs))))"

definition contains_acl :: "AclManager \<Rightarrow> AclBinding \<Rightarrow> bool" where
  "contains_acl s b =
     (case bucket_key b of
        Some key \<Rightarrow> b \<in> set (bucket (acl_literal s) key)
      | None \<Rightarrow> b \<in> set (bucket (acl_patterned s) (resource_type b)))"

definition acl_is_empty :: "AclManager \<Rightarrow> bool" where
  "acl_is_empty s \<longleftrightarrow>
     (\<forall>e\<in>set (acl_literal s). snd e = []) \<and> (\<forall>e\<in>set (acl_patterned s). snd e = [])"

definition for_each_binding :: "AclManager \<Rightarrow> AclBinding list" where
  "for_each_binding s =
     concat (map snd (acl_literal s)) @ concat (map snd (acl_patterned s))"

definition filter_matches :: "AclBinding \<Rightarrow> AclBinding \<Rightarrow> bool" where
  "filter_matches f b \<longleftrightarrow>
     (resource_type f = 1 \<or> resource_type f = 0 \<or> resource_type f = resource_type b) \<and>
     (resource_name f = [] \<or> resource_name f = ''*'' \<or> resource_name f = resource_name b) \<and>
     (acl_principal f = [] \<or> acl_principal f = ''*'' \<or> acl_principal f = acl_principal b) \<and>
     (acl_host f = [] \<or> acl_host f = ''*'' \<or> acl_host f = acl_host b) \<and>
     (acl_operation f = 1 \<or> acl_operation f = 0 \<or> acl_operation f = acl_operation b) \<and>
     (permission_type f = 1 \<or> permission_type f = 0 \<or> permission_type f = permission_type b)"

definition list_acls :: "AclManager \<Rightarrow> AclBinding \<Rightarrow> AclBinding list" where
  "list_acls s f = filter (filter_matches f) (for_each_binding s)"

section \<open>Wildcard matching\<close>

fun skip_stars :: "string list \<Rightarrow> string list" where
  "skip_stars [] = []"
| "skip_stars (c # p) = (if c = ''*'' then skip_stars p else c # p)"

text \<open>
  The two-pointer loop of \<open>glob_match\<close>: \<open>star\<close> is the index of the last wildcard,
  \<open>match_idx\<close> where its run ends. \<open>None\<close> as a result would be a loop that does not end.
\<close>

partial_function (option) glob_loop ::
    "string list \<Rightarrow> string list \<Rightarrow> nat \<Rightarrow> nat \<Rightarrow> nat option \<Rightarrow> nat \<Rightarrow> bool option" where
  "glob_loop p t pi ti star match_idx =
     (if ti < length t then
        (if pi < length p \<and> p ! pi = ''*'' then glob_loop p t (pi + 1) ti (Some pi) ti
         else if pi < length p \<and> p ! pi = t ! ti
         then glob_loop p t (pi + 1) (ti + 1) star match_idx
         else (case star of
                 Some si \<Rightarrow> glob_loop p t (si + 1) (match_idx + 1) star (match_idx + 1)
               | None \<Rightarrow> Some False))
      else Some (skip_stars (drop pi p) = []))"

definition glob_match :: "string \<Rightarrow> string \<Rightarrow> bool option" where
  "glob_match pattern txt = glob_loop (chars pattern) (chars txt) 0 0 None 0"

section \<open>Authorization\<close>

definition host_matches :: "string \<Rightarrow> string \<Rightarrow> bool" where
  "host_matches rule_host host =
     (if rule_host \<noteq> ''*'' \<and> rule_host \<noteq> host
      then CHR ''/'' \<in> set rule_host \<and>
           (case parse_ip host of None \<Rightarrow> False | Some ip \<Rightarrow> cidr_contains rule_host ip)
      else True)"

definition name_matches :: "nat \<Rightarrow> string \<Rightarrow> string \<Rightarrow> bool" where
  "name_matches pattern rule_name name =
     (case ResourcePatternType_from pattern of
        PatPrefixed \<Rightarrow> \<not> (rule_name \<noteq> ''*'' \<and> \<not> prefix rule_name name)
      | PatMatch \<Rightarrow> \<not> (rule_name \<noteq> ''*'' \<and> glob_match rule_name name \<noteq> Some True)
      | PatAny \<Rightarrow> \<not> (rule_name \<noteq> ''*'' \<and> glob_match rule_name name \<noteq> Some True)
      | _ \<Rightarrow> \<not> (rule_name \<noteq> ''*'' \<and> rule_name \<noteq> name))"

definition matches_rule :: "AclBinding \<Rightarrow> string \<Rightarrow> string \<Rightarrow> nat \<Rightarrow> nat \<Rightarrow> string \<Rightarrow> bool" where
  "matches_rule rule who host operation rtype rname =
     (if resource_type rule \<noteq> ResourceType_code ResAny \<and> resource_type rule \<noteq> rtype then False
      else if acl_operation rule \<noteq> AclOperation_code OpAny
              \<and> acl_operation rule \<noteq> AclOperation_code OpAll
              \<and> acl_operation rule \<noteq> operation then False
      else if acl_principal rule \<noteq> ''*'' \<and> acl_principal rule \<noteq> who then False
      else if \<not> host_matches (acl_host rule) host then False
      else name_matches (pattern_type rule) (resource_name rule) rname)"

definition authorize ::
    "AclManager \<Rightarrow> string \<Rightarrow> string \<Rightarrow> nat \<Rightarrow> nat \<Rightarrow> string \<Rightarrow> string list \<Rightarrow> bool \<Rightarrow> bool" where
  "authorize s who host operation rtype rname super_users acls_enabled =
     (if \<not> acls_enabled then True
      else if \<exists>u\<in>set super_users. u = who \<or> u = ''*'' then True
      else if acl_is_empty s then (\<exists>u\<in>set super_users. u = who)
      else
        (let candidates = bucket (acl_literal s) (rtype, rname) @ bucket (acl_patterned s) rtype in
         if \<exists>b\<in>set candidates. permission_type b = AclPermissionType_code PermDeny
              \<and> matches_rule b who host operation rtype rname then False
         else (\<exists>b\<in>set candidates. permission_type b = AclPermissionType_code PermAllow
              \<and> matches_rule b who host operation rtype rname)))"

text \<open>\<open>StorageEngine::authorize\<close>: the same decision, and a counter of the refusals.\<close>

definition engine_authorize ::
    "AclManager \<Rightarrow> string list \<Rightarrow> bool \<Rightarrow> string \<Rightarrow> string \<Rightarrow> nat \<Rightarrow> nat \<Rightarrow> string \<Rightarrow> nat \<Rightarrow> nat \<times> bool" where
  "engine_authorize s super_users acls_enabled who host operation rtype rname denies =
     (let allowed = authorize s who host operation rtype rname super_users acls_enabled in
      (if allowed then denies else add64 denies 1, allowed))"

section \<open>What a pattern means\<close>

fun glob :: "string list \<Rightarrow> string list \<Rightarrow> bool" where
  "glob [] t = (t = [])"
| "glob (c # p) t =
     (if c = ''*'' then (\<exists>n \<le> length t. glob p (drop n t))
      else (case t of [] \<Rightarrow> False | d # t' \<Rightarrow> c = d \<and> glob p t'))"

lemma glob_literal:
  "''*'' \<notin> set l \<Longrightarrow> glob (l @ r) t \<longleftrightarrow> (\<exists>rest. t = l @ rest \<and> glob r rest)"
  by (induction l arbitrary: t) (auto split: list.splits)

lemma glob_Nil: "glob p [] \<longleftrightarrow> skip_stars p = []"
  by (induction p) auto

text \<open>
  The loop invariant: since the last wildcard the loop has matched a literal run \<open>l\<close> of the
  pattern, and the answer it still owes is whether some later end of the wildcard's run
  matches.
\<close>

definition glob_inv :: "string list \<Rightarrow> string list \<Rightarrow> nat \<Rightarrow> nat \<Rightarrow> nat option \<Rightarrow> nat \<Rightarrow> bool" where
  "glob_inv p t pi ti star mi \<longleftrightarrow> ti \<le> length t \<and> pi \<le> length p \<and> mi \<le> ti \<and>
     (case star of None \<Rightarrow> True
      | Some si \<Rightarrow> si < length p \<and>
          (\<exists>l. ''*'' \<notin> set l \<and> drop (si + 1) p = l @ drop pi p \<and> drop mi t = l @ drop ti t))"

definition glob_goal :: "string list \<Rightarrow> string list \<Rightarrow> nat \<Rightarrow> nat \<Rightarrow> nat option \<Rightarrow> nat \<Rightarrow> bool" where
  "glob_goal p t pi ti star mi =
     (case star of
        None \<Rightarrow> glob (drop pi p) (drop ti t)
      | Some si \<Rightarrow> (\<exists>k. mi \<le> k \<and> k \<le> length t \<and> glob (drop (si + 1) p) (drop k t)))"

lemma glob_star:
  assumes "pi < length p" "p ! pi = ''*''" "ti \<le> length t"
  shows "glob (drop pi p) (drop ti t) \<longleftrightarrow> glob_goal p t (pi + 1) ti (Some pi) ti"
proof -
  have "glob (drop pi p) (drop ti t) \<longleftrightarrow>
    (\<exists>n \<le> length t - ti. glob (drop (pi + 1) p) (drop (n + ti) t))"
    using assms by (simp add: Cons_nth_drop_Suc [symmetric] drop_drop)
  also have "\<dots> \<longleftrightarrow> (\<exists>k. ti \<le> k \<and> k \<le> length t \<and> glob (drop (pi + 1) p) (drop k t))"
  proof
    assume "\<exists>n \<le> length t - ti. glob (drop (pi + 1) p) (drop (n + ti) t)"
    then obtain n where "n \<le> length t - ti" "glob (drop (pi + 1) p) (drop (n + ti) t)" by blast
    then show "\<exists>k. ti \<le> k \<and> k \<le> length t \<and> glob (drop (pi + 1) p) (drop k t)"
      using assms(3) by (intro exI [of _ "n + ti"]) simp
  next
    assume "\<exists>k. ti \<le> k \<and> k \<le> length t \<and> glob (drop (pi + 1) p) (drop k t)"
    then obtain k where "ti \<le> k" "k \<le> length t" "glob (drop (pi + 1) p) (drop k t)" by blast
    then show "\<exists>n \<le> length t - ti. glob (drop (pi + 1) p) (drop (n + ti) t)"
      by (intro exI [of _ "k - ti"]) simp
  qed
  finally show ?thesis by (simp add: glob_goal_def)
qed

text \<open>
  Whatever the loop does next, the literal run already matched at \<open>mi\<close> leaves only later
  ends of the run open: the goal with a wildcard is the goal at the current position, or a
  later end.
\<close>

lemma glob_goal_run:
  assumes "glob_inv p t pi ti (Some si) mi"
  shows "glob_goal p t pi ti (Some si) mi \<longleftrightarrow>
    glob (drop pi p) (drop ti t) \<or> glob_goal p t (si + 1) (mi + 1) (Some si) (mi + 1)"
proof -
  from assms obtain l where l: "''*'' \<notin> set l" "drop (si + 1) p = l @ drop pi p"
    "drop mi t = l @ drop ti t" and le: "mi \<le> length t" by (auto simp: glob_inv_def)
  have here: "glob (drop (si + 1) p) (drop mi t) \<longleftrightarrow> glob (drop pi p) (drop ti t)"
    unfolding l(2,3) by (simp add: glob_literal [OF l(1)])
  have "(\<exists>k. mi \<le> k \<and> k \<le> length t \<and> glob (drop (si + 1) p) (drop k t)) \<longleftrightarrow>
    glob (drop (si + 1) p) (drop mi t) \<or>
    (\<exists>k. mi + 1 \<le> k \<and> k \<le> length t \<and> glob (drop (si + 1) p) (drop k t))"
    (is "?L \<longleftrightarrow> ?H \<or> ?R")
  proof
    assume ?L
    then obtain k where "mi \<le> k" "k \<le> length t" "glob (drop (si + 1) p) (drop k t)" by blast
    then show "?H \<or> ?R" by (cases "k = mi") (auto intro!: exI [of _ k])
  next
    assume "?H \<or> ?R"
    then show ?L using le by (auto dest: Suc_leD)
  qed
  then show ?thesis using here by (simp add: glob_goal_def)
qed

lemma glob_goal_restar:
  assumes inv: "glob_inv p t pi ti star mi" and star: "pi < length p" "p ! pi = ''*''"
  shows "glob_goal p t pi ti star mi \<longleftrightarrow> glob_goal p t (pi + 1) ti (Some pi) ti"
proof (cases star)
  case None
  moreover have "ti \<le> length t" using inv by (simp add: glob_inv_def)
  ultimately show ?thesis
    using glob_star [OF star, of ti t] by (simp add: glob_goal_def [of p t pi ti None])
next
  case (Some si)
  from inv Some obtain l where l: "''*'' \<notin> set l" "drop (si + 1) p = l @ drop pi p"
    "drop mi t = l @ drop ti t" and ti: "ti \<le> length t" "mi \<le> ti" by (auto simp: glob_inv_def)
  have len: "ti - mi = length l"
    using arg_cong [OF l(3), of length] ti by simp
  have "glob_goal p t (pi + 1) ti (Some pi) ti"
    if "mi \<le> k" "k \<le> length t" "glob (drop (si + 1) p) (drop k t)" for k
  proof -
    from that(3) obtain rest where rest: "drop k t = l @ rest" "glob (drop pi p) rest"
      unfolding l(2) by (auto simp: glob_literal [OF l(1)])
    have "rest = drop (length l + k) t" using rest(1) by (metis append_eq_conv_conj drop_drop)
    moreover have "length l + k \<le> length t"
      using arg_cong [OF rest(1), of length] that(2) by simp
    ultimately have "glob_goal p t (pi + 1) (length l + k) (Some pi) (length l + k)"
      using glob_star [OF star] rest(2) by simp
    moreover have "ti \<le> length l + k" using len that(1) by simp
    ultimately show ?thesis unfolding glob_goal_def by (auto intro: order_trans)
  qed
  then have "glob_goal p t pi ti (Some si) mi \<Longrightarrow> glob_goal p t (pi + 1) ti (Some pi) ti"
    by (auto simp: glob_goal_def [of _ _ _ _ "Some si"])
  moreover have "glob_goal p t (pi + 1) ti (Some pi) ti \<Longrightarrow> glob_goal p t pi ti (Some si) mi"
    using glob_goal_run [OF inv [unfolded Some]] glob_star [OF star ti(1)] by blast
  ultimately show ?thesis using Some by blast
qed

lemma glob_inv_run:
  assumes "glob_inv p t pi ti star mi" "pi < length p" "ti < length t" "p ! pi = t ! ti"
    "p ! pi \<noteq> ''*''"
  shows "glob_inv p t (pi + 1) (ti + 1) star mi"
proof (cases star)
  case None
  with assms show ?thesis by (simp add: glob_inv_def)
next
  case (Some si)
  with assms obtain l where l: "''*'' \<notin> set l" "drop (si + 1) p = l @ drop pi p"
    "drop mi t = l @ drop ti t" by (auto simp: glob_inv_def)
  have "drop pi p = p ! pi # drop (pi + 1) p" "drop ti t = p ! pi # drop (ti + 1) t"
    using Cons_nth_drop_Suc [OF assms(2)] Cons_nth_drop_Suc [OF assms(3)] assms(4) by simp_all
  with l have "drop (si + 1) p = (l @ [p ! pi]) @ drop (pi + 1) p"
    "drop mi t = (l @ [p ! pi]) @ drop (ti + 1) t" by simp_all
  then have "\<exists>l. ''*'' \<notin> set l \<and> drop (si + 1) p = l @ drop (pi + 1) p \<and>
      drop mi t = l @ drop (ti + 1) t"
    using l(1) assms(5) by (intro exI [of _ "l @ [p ! pi]"]) auto
  with Some assms show ?thesis by (simp add: glob_inv_def)
qed

lemma glob_goal_match:
  assumes "pi < length p" "ti < length t" "p ! pi = t ! ti" "p ! pi \<noteq> ''*''"
  shows "glob_goal p t (pi + 1) (ti + 1) star mi \<longleftrightarrow> glob_goal p t pi ti star mi"
proof -
  have "glob (drop pi p) (drop ti t) \<longleftrightarrow> glob (drop (pi + 1) p) (drop (ti + 1) t)"
    using assms by (simp add: Cons_nth_drop_Suc [symmetric])
  then show ?thesis by (cases star) (simp_all add: glob_goal_def)
qed

lemma glob_mismatch:
  assumes "ti < length t" "\<not> (pi < length p \<and> p ! pi = ''*'')" "\<not> (pi < length p \<and> p ! pi = t ! ti)"
  shows "\<not> glob (drop pi p) (drop ti t)"
proof (cases "pi < length p")
  case True
  then have "drop pi p = p ! pi # drop (Suc pi) p" by (simp add: Cons_nth_drop_Suc)
  moreover have "drop ti t = t ! ti # drop (Suc ti) t"
    using assms(1) by (simp add: Cons_nth_drop_Suc)
  ultimately show ?thesis using assms(2,3) True by simp
next
  case False
  with assms(1) show ?thesis by simp
qed

lemma glob_inv_restart:
  "glob_inv p t pi ti (Some si) mi \<Longrightarrow> ti < length t \<Longrightarrow>
   glob_inv p t (si + 1) (mi + 1) (Some si) (mi + 1)"
  by (auto simp: glob_inv_def intro: exI [of _ "[]"])

lemma glob_goal_end:
  assumes "glob_inv p t pi (length t) star mi"
  shows "glob_goal p t pi (length t) star mi \<longleftrightarrow> skip_stars (drop pi p) = []"
proof (cases star)
  case None
  then show ?thesis by (simp add: glob_goal_def glob_Nil)
next
  case (Some si)
  from assms Some obtain l where l: "''*'' \<notin> set l" "drop (si + 1) p = l @ drop pi p"
    "drop mi t = l" by (auto simp: glob_inv_def)
  have "\<not> glob_goal p t (si + 1) (mi + 1) (Some si) (mi + 1)"
  proof
    assume "glob_goal p t (si + 1) (mi + 1) (Some si) (mi + 1)"
    then obtain k where k: "mi + 1 \<le> k" "k \<le> length t" "glob (l @ drop pi p) (drop k t)"
      using l(2) by (auto simp: glob_goal_def)
    then obtain rest where "drop k t = l @ rest" by (auto simp: glob_literal [OF l(1)])
    from arg_cong [OF this, of length] arg_cong [OF l(3), of length] k show False by simp
  qed
  then show ?thesis
    using glob_goal_run [OF assms [unfolded Some]] Some by (simp add: glob_Nil)
qed

lemma glob_loop_spec:
  "glob_inv p t pi ti star mi \<Longrightarrow> glob_loop p t pi ti star mi = Some (glob_goal p t pi ti star mi)"
proof (induction "(length t - mi, length p - pi)" arbitrary: pi ti star mi
    rule: wf_induct_rule [OF wf_lex_prod [OF wf_less wf_less]])
  case 1
  note IH = 1(1) and inv = 1(2)
  have bounds: "ti \<le> length t" "pi \<le> length p" "mi \<le> ti" using inv by (auto simp: glob_inv_def)
  consider (fin) "ti = length t"
    | (wild) "ti < length t" "pi < length p" "p ! pi = ''*''"
    | (same) "ti < length t" "pi < length p" "p ! pi \<noteq> ''*''" "p ! pi = t ! ti"
    | (retry) "ti < length t" "\<not> (pi < length p \<and> p ! pi = ''*'')"
        "\<not> (pi < length p \<and> p ! pi = t ! ti)"
    using bounds(1) by force
  then show ?case
  proof cases
    case fin
    with inv show ?thesis by (simp add: glob_loop.simps [of p t pi] glob_goal_end)
  next
    case wild
    have "glob_inv p t (pi + 1) ti (Some pi) ti"
      using wild bounds by (auto simp: glob_inv_def intro: exI [of _ "[]"])
    then have "glob_loop p t (pi + 1) ti (Some pi) ti = Some (glob_goal p t (pi + 1) ti (Some pi) ti)"
      using wild bounds by (intro IH) (auto simp: lex_prod_def)
    with wild show ?thesis
      by (simp add: glob_loop.simps [of p t pi] glob_goal_restar [OF inv wild(2,3)])
  next
    case same
    have "glob_loop p t (pi + 1) (ti + 1) star mi = Some (glob_goal p t (pi + 1) (ti + 1) star mi)"
      using same glob_inv_run [OF inv same(2,1,4,3)] by (intro IH) (auto simp: lex_prod_def)
    with same show ?thesis
      by (simp add: glob_loop.simps [of p t pi] glob_goal_match [OF same(2,1,4,3), simplified])
  next
    case retry
    note no = glob_mismatch [OF retry]
    show ?thesis
    proof (cases star)
      case None
      with retry no show ?thesis
        by (auto simp: glob_loop.simps [of p t pi] glob_goal_def)
    next
      case (Some si)
      have "glob_loop p t (si + 1) (mi + 1) star (mi + 1) =
          Some (glob_goal p t (si + 1) (mi + 1) star (mi + 1))"
        using glob_inv_restart [OF inv [unfolded Some] retry(1)] Some retry(1) bounds
        by (intro IH) (auto simp: lex_prod_def)
      with retry no Some show ?thesis
        using glob_goal_run [OF inv [unfolded Some]]
        by (auto simp: glob_loop.simps [of p t pi])
    qed
  qed
qed

lemma glob_match_eq [simp]: "glob_match pattern txt = Some (glob (chars pattern) (chars txt))"
  unfolding glob_match_def
  by (subst glob_loop_spec) (simp_all add: glob_inv_def glob_goal_def)

section \<open>The store is the set of its rules\<close>

definition bindings :: "AclManager \<Rightarrow> AclBinding set" where
  "bindings s = set (for_each_binding s)"

definition buckets_ok :: "('k \<Rightarrow> AclBinding \<Rightarrow> bool) \<Rightarrow> ('k \<times> AclBinding list) list \<Rightarrow> bool" where
  "buckets_ok own m \<longleftrightarrow>
     distinct (map fst m) \<and> (\<forall>(k, bs)\<in>set m. distinct bs \<and> (\<forall>b\<in>set bs. own k b))"

definition acl_inv :: "AclManager \<Rightarrow> bool" where
  "acl_inv s \<longleftrightarrow>
     buckets_ok (\<lambda>k b. bucket_key b = Some k) (acl_literal s) \<and>
     buckets_ok (\<lambda>k b. bucket_key b = None \<and> resource_type b = k) (acl_patterned s)"

lemma bucket_update: "bucket (AList.update k bs m) k' = (if k' = k then bs else bucket m k')"
  by (simp add: bucket_def update_conv')

lemma buckets_ok_update:
  assumes "buckets_ok own m" "distinct bs" "\<forall>b\<in>set bs. own k b"
  shows "buckets_ok own (AList.update k bs m)"
proof -
  have "distinct (map fst (AList.update k bs m))"
    using assms(1) by (simp add: buckets_ok_def distinct_update)
  moreover from this have "distinct bs' \<and> (\<forall>b\<in>set bs'. own k' b)"
    if "(k', bs') \<in> set (AList.update k bs m)" for k' bs'
  proof -
    have "map_of (AList.update k bs m) k' = Some bs'"
      using that \<open>distinct (map fst (AList.update k bs m))\<close> by simp
    then have "(if k' = k then Some bs else map_of m k') = Some bs'"
      by (simp add: update_conv' split: if_splits)
    then show ?thesis
      using assms by (auto simp: buckets_ok_def split: if_splits dest: map_of_SomeD)
  qed
  ultimately show ?thesis by (auto simp: buckets_ok_def)
qed

lemma bucket_in:
  "buckets_ok own m \<Longrightarrow> b \<in> set (bucket m k) \<Longrightarrow> own k b \<and> b \<in> set (concat (map snd m))"
  by (force simp: bucket_def buckets_ok_def split: option.splits dest: map_of_SomeD)

lemma bucket_distinct: "buckets_ok own m \<Longrightarrow> distinct (bucket m k)"
  by (auto simp: bucket_def buckets_ok_def split: option.splits dest: map_of_SomeD)

lemma in_buckets_iff:
  assumes ok: "buckets_ok own m"
  shows "b \<in> set (concat (map snd m)) \<longleftrightarrow> (\<exists>k. own k b \<and> b \<in> set (bucket m k))"
proof
  assume "b \<in> set (concat (map snd m))"
  then obtain k bs where e: "(k, bs) \<in> set m" "b \<in> set bs" by auto
  with ok have "map_of m k = Some bs" "own k b" by (auto simp: buckets_ok_def)
  with e show "\<exists>k. own k b \<and> b \<in> set (bucket m k)" by (auto simp: bucket_def)
next
  assume "\<exists>k. own k b \<and> b \<in> set (bucket m k)"
  then obtain k where "b \<in> set (bucket m k)" by blast
  from bucket_in [OF ok this] show "b \<in> set (concat (map snd m))" ..
qed

lemma bindings_iff:
  assumes "acl_inv s"
  shows "b \<in> bindings s \<longleftrightarrow>
    (case bucket_key b of
       Some k \<Rightarrow> b \<in> set (bucket (acl_literal s) k)
     | None \<Rightarrow> b \<in> set (bucket (acl_patterned s) (resource_type b)))"
proof -
  have own: "buckets_ok (\<lambda>k b. bucket_key b = Some k) (acl_literal s)"
    "buckets_ok (\<lambda>k b. bucket_key b = None \<and> resource_type b = k) (acl_patterned s)"
    using assms by (auto simp: acl_inv_def)
  show ?thesis
    unfolding bindings_def for_each_binding_def set_append Un_iff
      in_buckets_iff [OF own(1)] in_buckets_iff [OF own(2)]
    by (simp split: option.split)
qed

lemma bindings_literal:
  "acl_inv s \<Longrightarrow> bucket_key b = Some k \<Longrightarrow> b \<in> bindings s \<longleftrightarrow> b \<in> set (bucket (acl_literal s) k)"
  by (simp add: bindings_iff)

lemma bindings_patterned:
  "acl_inv s \<Longrightarrow> bucket_key b = None \<Longrightarrow>
   b \<in> bindings s \<longleftrightarrow> b \<in> set (bucket (acl_patterned s) (resource_type b))"
  by (simp add: bindings_iff)

lemma bindings_eqI:
  assumes "acl_inv s" "acl_inv s'"
    and "\<And>b k. bucket_key b = Some k \<Longrightarrow> b \<in> set (bucket (acl_literal s') k) \<longleftrightarrow> P b \<or> (b \<in> bindings s \<and> Q b)"
    and "\<And>b. bucket_key b = None \<Longrightarrow>
      b \<in> set (bucket (acl_patterned s') (resource_type b)) \<longleftrightarrow> P b \<or> (b \<in> bindings s \<and> Q b)"
  shows "bindings s' = {b. P b \<or> (b \<in> bindings s \<and> Q b)}"
proof -
  have "b \<in> bindings s' \<longleftrightarrow> P b \<or> (b \<in> bindings s \<and> Q b)" for b
    using assms bindings_literal [of s' b] bindings_patterned [of s' b]
    by (cases "bucket_key b") simp_all
  then show ?thesis by blast
qed

lemma add_acl_spec:
  assumes "acl_inv s"
  shows "acl_inv (fst (add_acl b s)) \<and> bindings (fst (add_acl b s)) = insert b (bindings s) \<and>
    (snd (add_acl b s) \<longleftrightarrow> b \<notin> bindings s)"
proof -
  let ?s = "fst (add_acl b s)"
  have inv: "acl_inv ?s"
  proof (cases "bucket_key b")
    case None
    with assms show ?thesis
      by (auto simp: add_acl_def acl_inv_def Let_def bucket_distinct dest: bucket_in
          intro!: buckets_ok_update)
  next
    case (Some k)
    with assms show ?thesis
      by (auto simp: add_acl_def acl_inv_def Let_def bucket_distinct dest: bucket_in
          intro!: buckets_ok_update)
  qed
  have "bindings ?s = {x. x = b \<or> (x \<in> bindings s \<and> True)}"
  proof (rule bindings_eqI [OF assms inv])
    fix x k assume x: "bucket_key x = Some k"
    show "x \<in> set (bucket (acl_literal ?s) k) \<longleftrightarrow> x = b \<or> x \<in> bindings s \<and> True"
      using x bindings_literal [OF assms x]
      by (cases "bucket_key b") (auto simp: add_acl_def Let_def bucket_update)
  next
    fix x assume x: "bucket_key x = None"
    show "x \<in> set (bucket (acl_patterned ?s) (resource_type x)) \<longleftrightarrow> x = b \<or> x \<in> bindings s \<and> True"
      using x bindings_patterned [OF assms x]
      by (cases "bucket_key b") (auto simp: add_acl_def Let_def bucket_update)
  qed
  moreover have "snd (add_acl b s) \<longleftrightarrow> b \<notin> bindings s"
    using bindings_literal [OF assms, of b] bindings_patterned [OF assms, of b]
    by (cases "bucket_key b") (simp_all add: add_acl_def Let_def)
  ultimately show ?thesis using inv by auto
qed

lemma bucket_Some: "map_of m k = Some bs \<Longrightarrow> bucket m k = bs"
  by (simp add: bucket_def)

lemma bucket_None: "map_of m k = None \<Longrightarrow> bucket m k = []"
  by (simp add: bucket_def)

lemma length_filter_neq: "length (filter (\<lambda>x. x \<noteq> b) bs) \<noteq> length bs \<longleftrightarrow> b \<in> set bs"
  by (metis (mono_tags, lifting) filter_id_conv length_filter_less nat_neq_iff)

lemma buckets_ok_lookup:
  "buckets_ok own m \<Longrightarrow> map_of m k = Some bs \<Longrightarrow> distinct bs \<and> (\<forall>b\<in>set bs. own k b)"
  by (auto simp: buckets_ok_def dest: map_of_SomeD)

lemma remove_acl_spec:
  assumes "acl_inv s"
  shows "acl_inv (fst (remove_acl b s)) \<and> bindings (fst (remove_acl b s)) = bindings s - {b} \<and>
    (snd (remove_acl b s) \<longleftrightarrow> b \<in> bindings s)"
proof -
  let ?s = "fst (remove_acl b s)"
  have own: "buckets_ok (\<lambda>k b. bucket_key b = Some k) (acl_literal s)"
    "buckets_ok (\<lambda>k b. bucket_key b = None \<and> resource_type b = k) (acl_patterned s)"
    using assms by (auto simp: acl_inv_def)
  have inv: "acl_inv ?s"
  proof (cases "bucket_key b")
    case None
    with own show ?thesis
      by (auto simp: remove_acl_def acl_inv_def Let_def intro!: buckets_ok_update
          split: option.splits dest: buckets_ok_lookup [OF own(2)])
  next
    case (Some k)
    with own show ?thesis
      by (auto simp: remove_acl_def acl_inv_def Let_def intro!: buckets_ok_update
          split: option.splits dest: buckets_ok_lookup [OF own(1)])
  qed
  have "bindings ?s = {x. False \<or> (x \<in> bindings s \<and> x \<noteq> b)}"
  proof (rule bindings_eqI [OF assms inv])
    fix x k assume x: "bucket_key x = Some k"
    show "x \<in> set (bucket (acl_literal ?s) k) \<longleftrightarrow> False \<or> x \<in> bindings s \<and> x \<noteq> b"
      using x bindings_literal [OF assms x]
      by (cases "bucket_key b")
        (auto simp: remove_acl_def Let_def bucket_update bucket_Some bucket_None split: option.splits)
  next
    fix x assume x: "bucket_key x = None"
    show "x \<in> set (bucket (acl_patterned ?s) (resource_type x)) \<longleftrightarrow> False \<or> x \<in> bindings s \<and> x \<noteq> b"
      using x bindings_patterned [OF assms x]
      by (cases "bucket_key b")
        (auto simp: remove_acl_def Let_def bucket_update bucket_Some bucket_None split: option.splits)
  qed
  moreover have "snd (remove_acl b s) \<longleftrightarrow> b \<in> bindings s"
    using bindings_literal [OF assms, of b] bindings_patterned [OF assms, of b]
    by (cases "bucket_key b")
      (auto simp: remove_acl_def Let_def length_filter_neq bucket_Some bucket_None split: option.splits)
  ultimately show ?thesis using inv by auto
qed

lemma contains_acl_iff: "acl_inv s \<Longrightarrow> contains_acl s b \<longleftrightarrow> b \<in> bindings s"
  by (simp add: contains_acl_def bindings_literal bindings_patterned split: option.splits)

lemma acl_is_empty_iff: "acl_is_empty s \<longleftrightarrow> bindings s = {}"
  by (auto simp: acl_is_empty_def bindings_def for_each_binding_def)

lemma literal_own: "acl_inv s \<Longrightarrow> b \<in> set (bucket (acl_literal s) k) \<Longrightarrow> bucket_key b = Some k"
  by (auto simp: acl_inv_def dest: bucket_in)

lemma patterned_own:
  "acl_inv s \<Longrightarrow> b \<in> set (bucket (acl_patterned s) k) \<Longrightarrow> bucket_key b = None \<and> resource_type b = k"
  by (auto simp: acl_inv_def dest: bucket_in)

lemma candidates_iff:
  assumes inv: "acl_inv s" and m: "matches_rule b who host op rt rn" and rt: "resource_type b = rt"
  shows "b \<in> set (bucket (acl_literal s) (rt, rn) @ bucket (acl_patterned s) rt) \<longleftrightarrow>
    b \<in> bindings s"
proof (cases "bucket_key b")
  case None
  have "b \<notin> set (bucket (acl_literal s) (rt, rn))"
    using None literal_own [OF inv, of b] by auto
  with None rt show ?thesis by (simp add: bindings_patterned [OF inv])
next
  case (Some k)
  then have "pattern_type b = 3" "resource_name b \<noteq> ''*''" "k = (rt, resource_name b)"
    using rt by (auto simp: bucket_key_def split: if_splits)
  moreover from this have "resource_name b = rn"
    using m by (simp add: matches_rule_def name_matches_def split: if_splits)
  moreover have "b \<notin> set (bucket (acl_patterned s) rt)"
    using Some patterned_own [OF inv, of b] by auto
  ultimately show ?thesis using Some by (simp add: bindings_literal [OF inv])
qed

lemma candidates_type:
  "acl_inv s \<Longrightarrow> b \<in> set (bucket (acl_literal s) (rt, rn) @ bucket (acl_patterned s) rt) \<Longrightarrow>
   resource_type b = rt"
  by (auto simp: bucket_key_def split: if_splits dest: literal_own patterned_own)

section \<open>Histories\<close>

datatype acl_op = AddAcl AclBinding | RemoveAcl AclBinding

fun acl_step :: "AclManager \<Rightarrow> acl_op \<Rightarrow> AclManager" where
  "acl_step s (AddAcl b) = fst (add_acl b s)"
| "acl_step s (RemoveAcl b) = fst (remove_acl b s)"

definition acl_run :: "acl_op list \<Rightarrow> AclManager" where
  "acl_run ops = foldl acl_step new_acl ops"

fun rules_step :: "AclBinding set \<Rightarrow> acl_op \<Rightarrow> AclBinding set" where
  "rules_step r (AddAcl b) = insert b r"
| "rules_step r (RemoveAcl b) = r - {b}"

definition rules_run :: "acl_op list \<Rightarrow> AclBinding set" where
  "rules_run ops = foldl rules_step {} ops"

lemma acl_run_rules: "acl_inv (acl_run ops) \<and> bindings (acl_run ops) = rules_run ops"
proof (induction ops rule: rev_induct)
  case Nil
  then show ?case
    by (simp add: acl_run_def rules_run_def new_acl_def acl_inv_def buckets_ok_def bindings_def
        for_each_binding_def)
next
  case (snoc x ops)
  then show ?case
    by (cases x) (simp_all add: acl_run_def rules_run_def add_acl_spec remove_acl_spec)
qed

text \<open>
  What a rule set decides: a matching rule that denies wins over every one that allows, and
  without a matching allow the answer is no.
\<close>

definition rules_allow :: "AclBinding set \<Rightarrow> string \<Rightarrow> string \<Rightarrow> nat \<Rightarrow> nat \<Rightarrow> string \<Rightarrow> bool" where
  "rules_allow r who host op rt rn \<longleftrightarrow>
     \<not> (\<exists>b\<in>r. permission_type b = 2 \<and> matches_rule b who host op rt rn) \<and>
     (\<exists>b\<in>r. permission_type b = 3 \<and> matches_rule b who host op rt rn)"

text \<open>C18 Authorization against the bucketed store, after any history of rule changes that leaves no
  rule for every resource type (type code 1) behind, is the decision of the plain rule set of that
  history: disabled enforcement and super users pass, a matching deny wins over every allow, and
  no matching allow means refusal. Looking only into the bucket of the exact name and the bucket
  of the requested resource type then misses no matching rule. Rules with type code 1 are the
  exception: they match requests of every type, but are never looked at
  (\<open>any_rule_not_consulted\<close>).\<close>

theorem authorize_refines_rules:
  assumes "\<forall>b\<in>rules_run ops. resource_type b \<noteq> 1"
  shows "authorize (acl_run ops) who host op rt rn super_users acls_enabled =
     (if acls_enabled
      then who \<in> set super_users \<or> ''*'' \<in> set super_users \<or>
        rules_allow (rules_run ops) who host op rt rn
      else True)"
proof -
  define s where "s = acl_run ops"
  have inv: "acl_inv s" and b: "bindings s = rules_run ops"
    using acl_run_rules [of ops] by (auto simp: s_def)
  let ?c = "bucket (acl_literal s) (rt, rn) @ bucket (acl_patterned s) rt"
  have "resource_type b = rt" if "b \<in> rules_run ops" "matches_rule b who host op rt rn" for b
    using that assms by (auto simp: matches_rule_def split: if_splits)
  then have cand: "(\<exists>b\<in>set ?c. P b \<and> matches_rule b who host op rt rn) \<longleftrightarrow>
    (\<exists>b\<in>rules_run ops. P b \<and> matches_rule b who host op rt rn)" for P
    using candidates_iff [OF inv] candidates_type [OF inv] unfolding b by meson
  have empty: "acl_is_empty s \<Longrightarrow> \<not> rules_allow (rules_run ops) who host op rt rn"
    by (simp add: acl_is_empty_iff b rules_allow_def)
  show ?thesis
    unfolding s_def [symmetric] authorize_def Let_def cand
    using empty by (auto simp: rules_allow_def)
qed

text \<open>Alice may read the topics whose names begin with \<open>t\<close>, but not the topic \<open>t2\<close>.\<close>

definition demo_rule :: "nat \<Rightarrow> string \<Rightarrow> nat \<Rightarrow> AclBinding" where
  "demo_rule pattern name perm =
     \<lparr>resource_type = 2, resource_name = name, pattern_type = pattern, acl_principal = ''User:alice'',
      acl_host = ''*'', acl_operation = 3, permission_type = perm\<rparr>"

lemma demo_rule_matches:
  "matches_rule (demo_rule pattern name perm) ''User:alice'' host 3 2 rn = name_matches pattern name rn"
  "permission_type (demo_rule pattern name perm) = perm" "resource_type (demo_rule pattern name perm) = 2"
  by (simp_all add: demo_rule_def matches_rule_def host_matches_def)

theorem authorize_refines_rules_witness:
  "authorize (acl_run [AddAcl (demo_rule 4 ''t'' 3), AddAcl (demo_rule 3 ''t2'' 2)])
     ''User:alice'' ''10.0.0.1'' 3 2 ''t1'' [] True \<and>
   \<not> authorize (acl_run [AddAcl (demo_rule 4 ''t'' 3), AddAcl (demo_rule 3 ''t2'' 2)])
     ''User:alice'' ''10.0.0.1'' 3 2 ''t2'' [] True"
proof -
  let ?ops = "[AddAcl (demo_rule 4 ''t'' 3), AddAcl (demo_rule 3 ''t2'' 2)]"
  have r: "rules_run ?ops = {demo_rule 4 ''t'' 3, demo_rule 3 ''t2'' 2}"
    by (auto simp: rules_run_def)
  then have "\<forall>b\<in>rules_run ?ops. resource_type b \<noteq> 1" by (simp add: demo_rule_matches)
  note auth = authorize_refines_rules [OF this]
  show ?thesis
    unfolding auth r by (simp add: rules_allow_def demo_rule_matches name_matches_def)
qed

text \<open>The rules a filter lists are exactly the rules of the history that match it, and a
  rule is reported present exactly when it is one of them.\<close>

theorem list_acls_exact:
  "set (list_acls (acl_run ops) f) = {b \<in> rules_run ops. filter_matches f b} \<and>
   (contains_acl (acl_run ops) b \<longleftrightarrow> b \<in> rules_run ops)"
  using acl_run_rules [of ops]
  by (auto simp: list_acls_def bindings_def contains_acl_iff)

text \<open>C31 The wildcard loop ends on every pattern and text, with the answer the meaning of the
  pattern gives: a star stands for any run of characters, every other character for itself.\<close>

theorem glob_match_total:
  "\<exists>r. glob_match pattern txt = Some r \<and> (r \<longleftrightarrow> glob (chars pattern) (chars txt))"
  by simp

text \<open>C40 A range rule matches a client address exactly when the rule's address parses, its
  prefix length is in range, both are of one family, and the leading bits agree.\<close>

theorem cidr_contains_prefix:
  assumes "CHR ''/'' \<notin> set net"
  shows "cidr_contains (net @ CHR ''/'' # len) peer \<longleftrightarrow>
     (\<exists>n. parse_u8 len = Some n \<and>
       ((\<exists>a b. parse_ip net = Some (V4 a) \<and> peer = V4 b \<and> n \<le> 32 \<and> same_prefix n a b) \<or>
        (\<exists>a b. parse_ip net = Some (V6 a) \<and> peer = V6 b \<and> n \<le> 128 \<and> same_prefix n a b)))"
proof -
  have "takeWhile (\<lambda>x. x \<noteq> CHR ''/'') (net @ CHR ''/'' # len) = net"
    using assms by (subst takeWhile_append2) auto
  then have "split_once (CHR ''/'') (net @ CHR ''/'' # len) = Some (net, len)"
    by (simp add: split_once_def)
  then show ?thesis
    by (auto simp: cidr_contains_def ipv4_cidr_contains_iff ipv6_cidr_contains_iff
        split: option.splits IpAddr.splits)
qed

lemma demo_range:
  "parse_ip ''10.0.0.0'' = Some (V4 167772160)" "parse_u8 ''8'' = Some 8"
  by code_simp+

lemma demo_prefix: "same_prefix 8 (167772160 :: 32 word) 168496141"
  by code_simp

theorem cidr_contains_prefix_witness:
  "CHR ''/'' \<notin> set ''10.0.0.0'' \<and> cidr_contains (''10.0.0.0'' @ CHR ''/'' # ''8'') (V4 168496141)"
  using cidr_contains_prefix [of "''10.0.0.0''" "''8''" "V4 168496141"] demo_range demo_prefix
  by simp

section \<open>Limits of the code\<close>

text \<open>
  A rule stored for every resource type (code 1) matches a topic request, but its bucket is
  never looked at: adding it does not allow the request, and a deny rule of that kind does not
  refuse it.
\<close>

definition any_rule :: "nat \<Rightarrow> AclBinding" where
  "any_rule perm =
     \<lparr>resource_type = 1, resource_name = ''*'', pattern_type = 3, acl_principal = ''*'',
      acl_host = ''*'', acl_operation = 2, permission_type = perm\<rparr>"

lemma any_rule_not_consulted:
  "matches_rule (any_rule 3) who host op 2 rn"
  "\<not> authorize (acl_run [AddAcl (any_rule 3)]) ''User:alice'' host op 2 rn [] True"
  by (simp_all add: matches_rule_def any_rule_def host_matches_def name_matches_def acl_run_def
      new_acl_def add_acl_def bucket_key_def bucket_def authorize_def)

end
