(* ===== verification/Envelope.thy ===== *)
theory Envelope
  imports Codec Record_Stream
begin

text \<open>
  The inter-node envelope (\<^verbatim>\<open>src/replication/envelope.rs\<close>): the versioned, length-delimited
  frame, its header checks in the order of the code, the socket reads of \<open>read_frame\<close> and
  \<open>exchange_frame\<close> on the bytes a stream still holds, and the additive extension section.
  With it the frame payloads of \<^verbatim>\<open>src/replication/grpc.rs\<close> and
  \<^verbatim>\<open>src/replication/mod.rs\<close> that have a decoder of their own, and the bounds-checked
  \<open>PayloadReader\<close> of \<^verbatim>\<open>src/server/handler.rs\<close>.

  A connection's receive loop is the \<open>read_chunks\<close> loop of \<open>Record_Stream\<close> over
  \<open>parse_frame\<close>; the frames a peer wrote come out whole however the network cuts them.
\<close>

section \<open>Frames\<close>

definition INTER_NODE_MAGIC :: byte where "INTER_NODE_MAGIC = 0xB0"
definition INTER_NODE_PROTOCOL_VERSION :: nat where "INTER_NODE_PROTOCOL_VERSION = 1"
definition ENVELOPE_HEADER_SIZE :: nat where "ENVELOPE_HEADER_SIZE = 8"
definition MAX_INTER_NODE_PAYLOAD_BYTES :: nat where
  "MAX_INTER_NODE_PAYLOAD_BYTES = 64 * 1024 * 1024"

datatype FrameType =
    ReplicationPush | ReplicationPushAck | Heartbeat | HeartbeatAck | VoteRequest | VoteResponse
  | ReplicationFetch | ReplicationFetchResp | TransactionCommand | TransactionResponse

fun frame_type_byte :: "FrameType \<Rightarrow> nat" where
  "frame_type_byte ReplicationPush = 1"
| "frame_type_byte ReplicationPushAck = 2"
| "frame_type_byte Heartbeat = 3"
| "frame_type_byte HeartbeatAck = 4"
| "frame_type_byte VoteRequest = 5"
| "frame_type_byte VoteResponse = 6"
| "frame_type_byte ReplicationFetch = 7"
| "frame_type_byte ReplicationFetchResp = 8"
| "frame_type_byte TransactionCommand = 9"
| "frame_type_byte TransactionResponse = 10"

definition frame_type_from_byte :: "nat \<Rightarrow> FrameType option" where
  "frame_type_from_byte b =
     (if b = 1 then Some ReplicationPush else if b = 2 then Some ReplicationPushAck
      else if b = 3 then Some Heartbeat else if b = 4 then Some HeartbeatAck
      else if b = 5 then Some VoteRequest else if b = 6 then Some VoteResponse
      else if b = 7 then Some ReplicationFetch else if b = 8 then Some ReplicationFetchResp
      else if b = 9 then Some TransactionCommand else if b = 10 then Some TransactionResponse
      else None)"

datatype EnvelopeError =
    EnvIncomplete nat
  | NotAnInterNodeFrame byte
  | EnvUnsupportedVersion nat
  | UnknownFrameType nat
  | PayloadTooLarge nat
  | MalformedPayload string

datatype io_error_kind = UnexpectedEof | InvalidData | TimedOut

fun env_io_error :: "EnvelopeError \<Rightarrow> io_error_kind" where
  "env_io_error (EnvIncomplete _) = UnexpectedEof"
| "env_io_error _ = InvalidData"

record FrameHeader =
  h_type :: FrameType
  h_version :: nat
  h_payload_len :: nat

record InterNodeFrame =
  fr_type :: FrameType
  fr_version :: nat
  fr_payload :: bytes
  fr_total_len :: nat

definition encode_frame :: "FrameType \<Rightarrow> bytes \<Rightarrow> bytes" where
  "encode_frame ft payload =
     INTER_NODE_MAGIC # be_bytes 2 INTER_NODE_PROTOCOL_VERSION @ be_bytes 1 (frame_type_byte ft) @
     be_bytes 4 (length payload) @ payload"

definition decode_header :: "bytes \<Rightarrow> EnvelopeError + FrameHeader" where
  "decode_header src =
     (if length src < ENVELOPE_HEADER_SIZE then Inl (EnvIncomplete ENVELOPE_HEADER_SIZE)
      else
        (let header = take ENVELOPE_HEADER_SIZE src;
             magic = hd header;
             (version, r) = take_be 2 (tl header);
             (ft, r) = take_be 1 r;
             (payload_len, r) = take_be 4 r in
         if magic \<noteq> INTER_NODE_MAGIC then Inl (NotAnInterNodeFrame magic)
         else if payload_len > MAX_INTER_NODE_PAYLOAD_BYTES then Inl (PayloadTooLarge payload_len)
         else if version > INTER_NODE_PROTOCOL_VERSION then Inl (EnvUnsupportedVersion version)
         else (case frame_type_from_byte ft of
                 None \<Rightarrow> Inl (UnknownFrameType ft)
               | Some t \<Rightarrow> Inr \<lparr>h_type = t, h_version = version, h_payload_len = payload_len\<rparr>)))"

definition decode_frame :: "bytes \<Rightarrow> EnvelopeError + InterNodeFrame" where
  "decode_frame src =
     (case decode_header src of
        Inl e \<Rightarrow> Inl e
      | Inr h \<Rightarrow>
          (let total_len = ENVELOPE_HEADER_SIZE + h_payload_len h in
           if length src < total_len then Inl (EnvIncomplete total_len)
           else Inr \<lparr>fr_type = h_type h, fr_version = h_version h,
                     fr_payload = take (h_payload_len h) (drop ENVELOPE_HEADER_SIZE src),
                     fr_total_len = total_len\<rparr>))"

text \<open>
  \<open>read_exact\<close> on a stream that will deliver \<open>src\<close> and then end; what is left of the
  stream is returned with the result, and a failed read consumes what was there.
\<close>

definition read_exact :: "nat \<Rightarrow> bytes \<Rightarrow> (io_error_kind + bytes) \<times> bytes" where
  "read_exact n src =
     (if length src < n then (Inl UnexpectedEof, []) else (Inr (take n src), drop n src))"

definition read_frame :: "bytes \<Rightarrow> (io_error_kind + FrameHeader \<times> bytes) \<times> bytes" where
  "read_frame stream =
     (case read_exact ENVELOPE_HEADER_SIZE stream of
        (Inl e, rest) \<Rightarrow> (Inl e, rest)
      | (Inr header_buf, rest) \<Rightarrow>
          (case decode_header header_buf of
             Inl e \<Rightarrow> (Inl (env_io_error e), rest)
           | Inr h \<Rightarrow>
               if h_payload_len h > 0
               then (case read_exact (h_payload_len h) rest of
                       (Inl e, rest') \<Rightarrow> (Inl e, rest')
                     | (Inr payload, rest') \<Rightarrow> (Inr (h, payload), rest'))
               else (Inr (h, []), rest)))"

text \<open>The request is written and the reply read; the reply must have the expected type.\<close>

definition exchange_frame :: "bytes \<Rightarrow> FrameType \<Rightarrow> (io_error_kind + bytes) \<times> bytes" where
  "exchange_frame reply_stream expected =
     (case read_frame reply_stream of
        (Inl e, rest) \<Rightarrow> (Inl e, rest)
      | (Inr (h, payload), rest) \<Rightarrow>
          (if h_type h \<noteq> expected then (Inl InvalidData, rest) else (Inr payload, rest)))"

definition write_extensions :: "(nat \<times> bytes) list \<Rightarrow> bytes" where
  "write_extensions exts =
     be_bytes 2 (length exts) @
     concat (map (\<lambda>(tag, bs). be_bytes 2 tag @ be_bytes 4 (length bs) @ bs) exts)"

definition write_no_extensions :: bytes where
  "write_no_extensions = be_bytes 2 0"

fun read_entries :: "nat \<Rightarrow> bytes \<Rightarrow> EnvelopeError + (nat \<times> bytes) list \<times> bytes" where
  "read_entries 0 cursor = Inr ([], cursor)"
| "read_entries (Suc n) cursor =
     (if length cursor < 6 then Inl (MalformedPayload ''extension entry header truncated'')
      else
        (let (tag, cursor) = take_be 2 cursor; (len, cursor) = take_be 4 cursor in
         if length cursor < len
         then Inl (MalformedPayload ''extension entry shorter than its declared length'')
         else (case read_entries n (drop len cursor) of
                 Inl e \<Rightarrow> Inl e
               | Inr (exts, rest) \<Rightarrow> Inr ((tag, take len cursor) # exts, rest))))"

definition read_extensions :: "bytes \<Rightarrow> EnvelopeError + (nat \<times> bytes) list \<times> bytes" where
  "read_extensions cursor =
     (if length cursor < 2
      then Inl (MalformedPayload ''payload ended before its extension section'')
      else (let (count, cursor) = take_be 2 cursor in read_entries count cursor))"

section \<open>The receive loop\<close>

text \<open>
  One round of the connection loop on the unconsumed bytes: an incomplete frame waits for
  more input, any other error closes the connection, a frame is handled and skipped.
\<close>

definition parse_frame :: "bytes \<Rightarrow> InterNodeFrame parse_step" where
  "parse_frame buf =
     (case decode_frame buf of
        Inr frame \<Rightarrow> Got frame (drop (fr_total_len frame) buf)
      | Inl (EnvIncomplete _) \<Rightarrow> Need
      | Inl _ \<Rightarrow> Bad)"

section \<open>Payloads\<close>

datatype PacketError = ShortField string | FieldTooLong string nat nat | InvalidUtf8Field string
  | PacketOther string

definition payload_take :: "nat \<Rightarrow> string \<Rightarrow> bytes \<Rightarrow> PacketError + bytes \<times> bytes" where
  "payload_take n field cursor =
     (if length cursor < n then Inl (ShortField field) else Inr (take n cursor, drop n cursor))"

definition payload_uint :: "nat \<Rightarrow> string \<Rightarrow> bytes \<Rightarrow> PacketError + nat \<times> bytes" where
  "payload_uint k field cursor =
     (case payload_take k field cursor of
        Inl e \<Rightarrow> Inl e
      | Inr (bs, cursor) \<Rightarrow> Inr (be_val bs, cursor))"

definition payload_pascal_string :: "nat \<Rightarrow> string \<Rightarrow> bytes \<Rightarrow> PacketError + string \<times> bytes" where
  "payload_pascal_string max_len field cursor =
     (case payload_uint 2 field cursor of
        Inl e \<Rightarrow> Inl e
      | Inr (len, cursor) \<Rightarrow>
          if len > max_len then Inl (FieldTooLong field len max_len)
          else (case payload_take len field cursor of
                  Inl e \<Rightarrow> Inl e
                | Inr (bs, cursor) \<Rightarrow>
                    (case from_utf8 bs of
                       None \<Rightarrow> Inl (InvalidUtf8Field field)
                     | Some s \<Rightarrow> Inr (s, cursor))))"

text \<open>The encoders panic (\<open>None\<close>) where \<open>write_pascal_string\<close> does.\<close>

record ReplicationFetchRequest =
  rf_follower_node_id :: nat
  rf_topic :: string
  rf_partition :: nat
  rf_fetch_offset :: nat
  rf_max_bytes :: nat

definition encode_fetch_request :: "ReplicationFetchRequest \<Rightarrow> bytes option" where
  "encode_fetch_request r =
     (case write_pascal_string (rf_topic r) of
        None \<Rightarrow> None
      | Some t \<Rightarrow>
          Some (be_bytes 4 (rf_follower_node_id r) @ t @ be_bytes 4 (rf_partition r) @
                be_bytes 8 (rf_fetch_offset r) @ be_bytes 4 (rf_max_bytes r) @ write_no_extensions))"

definition decode_fetch_request :: "bytes \<Rightarrow> (ReplicationFetchRequest \<times> nat) option" where
  "decode_fetch_request src =
     (if length src < 4 + 2 then None
      else
        (let original_len = length src;
             (follower, src) = take_be 4 src;
             (topic_len, src) = take_be 2 src in
         if length src < topic_len + 16 then None
         else (case from_utf8 (take topic_len src) of
                 None \<Rightarrow> None
               | Some topic \<Rightarrow>
                   (let src = drop topic_len src;
                        (part, src) = take_be 4 src;
                        (fetch_offset, src) = take_be 8 src;
                        (max_bytes, src) = take_be 4 src in
                    Some (\<lparr>rf_follower_node_id = follower, rf_topic = topic, rf_partition = part,
                           rf_fetch_offset = fetch_offset, rf_max_bytes = max_bytes\<rparr>,
                          original_len - length src)))))"

record ReplicationFetchResponse =
  rs_leader_watermark :: nat
  rs_isr_count :: nat
  rs_entries :: bytes

definition encode_fetch_response :: "ReplicationFetchResponse \<Rightarrow> bytes" where
  "encode_fetch_response r =
     be_bytes 8 (rs_leader_watermark r) @ be_bytes 4 (rs_isr_count r) @
     be_bytes 4 (length (rs_entries r)) @ rs_entries r @ write_no_extensions"

definition decode_fetch_response :: "bytes \<Rightarrow> ReplicationFetchResponse option" where
  "decode_fetch_response src =
     (if length src < 16 then None
      else
        (let (leader_watermark, src) = take_be 8 src;
             (isr_count, src) = take_be 4 src;
             (entries_len, src) = take_be 4 src in
         if length src < entries_len then None
         else Some \<lparr>rs_leader_watermark = leader_watermark, rs_isr_count = isr_count,
                    rs_entries = take entries_len src\<rparr>))"

definition send_grpc_replication_fetch :: "bytes \<Rightarrow> io_error_kind + ReplicationFetchResponse" where
  "send_grpc_replication_fetch reply_stream =
     (case fst (exchange_frame reply_stream ReplicationFetchResp) of
        Inl e \<Rightarrow> Inl e
      | Inr payload \<Rightarrow>
          (case decode_fetch_response payload of None \<Rightarrow> Inl InvalidData | Some r \<Rightarrow> Inr r))"

definition encode_vote_request :: "string \<Rightarrow> nat \<Rightarrow> nat \<Rightarrow> nat \<Rightarrow> bytes option" where
  "encode_vote_request cluster_id candidate_id term candidate_last_log_index =
     (case write_pascal_string cluster_id of
        None \<Rightarrow> None
      | Some c \<Rightarrow>
          Some (encode_frame VoteRequest
            (c @ be_bytes 4 candidate_id @ be_bytes 8 term @
             be_bytes 8 candidate_last_log_index @ write_no_extensions)))"

definition encode_vote_response :: "bool \<Rightarrow> bytes" where
  "encode_vote_response granted =
     encode_frame VoteResponse (be_bytes 1 (if granted then 1 else 0) @ write_no_extensions)"

text \<open>What the candidate makes of the reply: \<open>response.first() == Some(1)\<close>.\<close>

definition vote_reply :: "bytes \<Rightarrow> io_error_kind + bool" where
  "vote_reply reply_stream =
     (case fst (exchange_frame reply_stream VoteResponse) of
        Inl e \<Rightarrow> Inl e
      | Inr response \<Rightarrow> Inr (response \<noteq> [] \<and> hd response = 1))"

definition encode_heartbeat :: "string \<Rightarrow> nat \<Rightarrow> nat \<Rightarrow> string \<Rightarrow> bytes option" where
  "encode_heartbeat cluster_id node_id term leader_bind_addr =
     (case (write_pascal_string cluster_id, write_pascal_string leader_bind_addr) of
        (Some c, Some a) \<Rightarrow>
          Some (encode_frame Heartbeat
            (c @ be_bytes 4 node_id @ be_bytes 8 term @ a @ write_no_extensions))
      | _ \<Rightarrow> None)"

definition encode_replication_push_ack :: "nat \<Rightarrow> bytes" where
  "encode_replication_push_ack status =
     encode_frame ReplicationPushAck (be_bytes 1 status @ write_no_extensions)"

datatype push_outcome = PushOk | PushStaleEpoch | PushErrorAck byte | PushEmptyAck

definition interpret_push_ack :: "bytes \<Rightarrow> push_outcome" where
  "interpret_push_ack ack =
     (case ack of
        [] \<Rightarrow> PushEmptyAck
      | b # _ \<Rightarrow> if b = 0 then PushOk else if b = 2 then PushStaleEpoch else PushErrorAck b)"

section \<open>Headers\<close>

lemmas envelope_consts = INTER_NODE_MAGIC_def INTER_NODE_PROTOCOL_VERSION_def
  ENVELOPE_HEADER_SIZE_def MAX_INTER_NODE_PAYLOAD_BYTES_def

lemma frame_type_byte_roundtrip [simp]: "frame_type_from_byte (frame_type_byte t) = Some t"
  by (cases t) (simp_all add: frame_type_from_byte_def)

lemma frame_type_byte_less: "frame_type_byte t < 256"
  by (cases t) simp_all

lemma decode_header_append:
  "8 \<le> length xs \<Longrightarrow> decode_header (xs @ ys) = decode_header xs"
  by (simp add: decode_header_def ENVELOPE_HEADER_SIZE_def)

lemma decode_header_encode:
  assumes "length payload \<le> MAX_INTER_NODE_PAYLOAD_BYTES"
  shows "decode_header (encode_frame ft payload @ rest) =
    Inr \<lparr>h_type = ft, h_version = 1, h_payload_len = length payload\<rparr>"
proof -
  define h where "h = 0xB0 # be_bytes 2 1 @ be_bytes 1 (frame_type_byte ft) @
    be_bytes 4 (length payload)"
  have len: "length h = 8" by (simp add: h_def)
  have "encode_frame ft payload @ rest = h @ payload @ rest"
    by (simp add: encode_frame_def h_def envelope_consts)
  then have "decode_header (encode_frame ft payload @ rest) = decode_header h"
    using decode_header_append [of h "payload @ rest"] len by simp
  also have "\<dots> = Inr \<lparr>h_type = ft, h_version = 1, h_payload_len = length payload\<rparr>"
  proof -
    have be: "length payload < 256 ^ 4" "frame_type_byte ft < 256 ^ 1" "1 < (256::nat) ^ 2"
      using assms frame_type_byte_less [of ft] by (simp_all add: envelope_consts)
    have "take 8 h = h" using len by simp
    then show ?thesis
      using assms len unfolding decode_header_def ENVELOPE_HEADER_SIZE_def
      by (simp only: less_irrefl if_False Let_def)
        (simp add: h_def take_be_append [OF be(3)] take_be_append [OF be(2)]
          take_be_be_bytes [OF be(1)] INTER_NODE_MAGIC_def INTER_NODE_PROTOCOL_VERSION_def
          del: One_nat_def be_bytes.simps)
  qed
  finally show ?thesis .
qed

lemma decode_header_incomplete: "decode_header xs = Inl (EnvIncomplete n) \<longleftrightarrow> length xs < 8 \<and> n = 8"
  by (auto simp: decode_header_def ENVELOPE_HEADER_SIZE_def Let_def
      split: if_splits prod.splits option.splits)

lemma decode_header_len:
  "decode_header xs = Inr h \<Longrightarrow> 8 \<le> length xs \<and> h_payload_len h \<le> MAX_INTER_NODE_PAYLOAD_BYTES"
  by (auto simp: decode_header_def ENVELOPE_HEADER_SIZE_def Let_def not_less
      split: if_splits prod.splits option.splits)

lemma decode_frame_append:
  "decode_frame xs = Inr f \<Longrightarrow> decode_frame (xs @ ys) = Inr f"
  by (auto simp: decode_frame_def Let_def decode_header_append ENVELOPE_HEADER_SIZE_def
      dest: decode_header_len split: sum.splits if_splits)

lemma decode_frame_error_append:
  assumes "decode_frame xs = Inl e" "\<forall>n. e \<noteq> EnvIncomplete n"
  shows "decode_frame (xs @ ys) = Inl e"
proof -
  have h: "decode_header xs = Inl e"
    using assms by (auto simp: decode_frame_def Let_def split: sum.splits if_splits)
  then have "8 \<le> length xs"
    using assms(2) by (auto simp: decode_header_def ENVELOPE_HEADER_SIZE_def split: if_splits)
  with h show ?thesis by (simp add: decode_frame_def decode_header_append)
qed

lemma decode_frame_Inr:
  "decode_frame xs = Inr f \<Longrightarrow>
   8 \<le> fr_total_len f \<and> fr_total_len f \<le> length xs \<and> length (fr_payload f) + 8 = fr_total_len f"
  by (auto simp: decode_frame_def Let_def ENVELOPE_HEADER_SIZE_def split: sum.splits if_splits)

section \<open>The stream of frames of a connection\<close>

lemma stable_parse_frame: "stable parse_frame"
proof (rule stableI)
  fix xs ys :: bytes and r rest
  assume g: "parse_frame xs = Got r rest"
  then have d: "decode_frame xs = Inr r" and rest: "rest = drop (fr_total_len r) xs"
    by (auto simp: parse_frame_def split: sum.splits EnvelopeError.splits)
  show "parse_frame (xs @ ys) = Got r (rest @ ys)"
    using decode_frame_append [OF d] decode_frame_Inr [OF d] rest by (simp add: parse_frame_def)
  show "\<exists>pre. xs = pre @ rest" using rest by simp
next
  fix xs ys :: bytes
  assume "parse_frame xs = Bad"
  then obtain e where e: "decode_frame xs = Inl e" "\<forall>n. e \<noteq> EnvIncomplete n"
    by (auto simp: parse_frame_def split: sum.splits EnvelopeError.splits)
  from decode_frame_error_append [OF this, of ys] e(2) show "parse_frame (xs @ ys) = Bad"
    by (simp add: parse_frame_def split: EnvelopeError.splits)
qed

definition frame_valid :: "InterNodeFrame \<Rightarrow> bool" where
  "frame_valid f \<longleftrightarrow> fr_version f = INTER_NODE_PROTOCOL_VERSION \<and>
     length (fr_payload f) \<le> MAX_INTER_NODE_PAYLOAD_BYTES \<and>
     fr_total_len f = ENVELOPE_HEADER_SIZE + length (fr_payload f)"

definition frame_bytes :: "InterNodeFrame \<Rightarrow> bytes" where
  "frame_bytes f = encode_frame (fr_type f) (fr_payload f)"

lemma length_encode_frame [simp]: "length (encode_frame ft payload) = 8 + length payload"
  by (simp add: encode_frame_def)

lemma drop_encode_frame: "drop 8 (encode_frame ft payload) = payload"
  by (simp add: encode_frame_def drop_Cons')

lemma decode_frame_encode:
  "length payload \<le> MAX_INTER_NODE_PAYLOAD_BYTES \<Longrightarrow>
   decode_frame (encode_frame ft payload @ rest) =
     Inr \<lparr>fr_type = ft, fr_version = 1, fr_payload = payload, fr_total_len = 8 + length payload\<rparr>"
  by (simp add: decode_frame_def decode_header_encode ENVELOPE_HEADER_SIZE_def drop_encode_frame)

text \<open>What the decoder answers to the beginning of a frame, and how an answer can change.\<close>

lemma decode_frame_prefix:
  assumes "length payload \<le> MAX_INTER_NODE_PAYLOAD_BYTES"
    and "encode_frame ft payload = part @ missing" "missing \<noteq> []"
  shows "decode_frame part = Inl (EnvIncomplete (if length part < 8 then 8 else 8 + length payload))"
proof (cases "length part < 8")
  case True
  then show ?thesis by (simp add: decode_frame_def decode_header_def ENVELOPE_HEADER_SIZE_def)
next
  case False
  then have "decode_header part = Inr \<lparr>h_type = ft, h_version = 1, h_payload_len = length payload\<rparr>"
    using decode_header_encode [OF assms(1), of ft "[]"] decode_header_append [of part missing] assms(2)
    by simp
  moreover have "length part < 8 + length payload"
    using arg_cong [OF assms(2), of length] assms(3) by (cases missing) simp_all
  ultimately show ?thesis using False by (simp add: decode_frame_def ENVELOPE_HEADER_SIZE_def)
qed

lemma decode_frame_waits:
  assumes "decode_frame src = Inl (EnvIncomplete n)"
  shows "if length src < 8 then n = 8
    else n \<le> 8 + 64 * 1024 * 1024 \<and>
      (\<forall>more. decode_frame (src @ more) = Inl (EnvIncomplete n) \<longleftrightarrow> length (src @ more) < n) \<and>
      (\<forall>more. n \<le> length (src @ more) \<longrightarrow>
        (\<exists>f. decode_frame (src @ more) = Inr f \<and> fr_total_len f = n \<and>
             fr_payload f = drop 8 (take n (src @ more))))"
proof (cases "decode_header src")
  case (Inl e)
  then have "decode_header src = Inl (EnvIncomplete n)" using assms by (simp add: decode_frame_def)
  then show ?thesis unfolding decode_header_incomplete by simp
next
  case (Inr h)
  note len = decode_header_len [OF Inr]
  have n: "n = 8 + h_payload_len h"
    using assms Inr by (auto simp: decode_frame_def Let_def ENVELOPE_HEADER_SIZE_def split: if_splits)
  have more: "decode_frame (src @ more) =
      (if length (src @ more) < n then Inl (EnvIncomplete n)
       else Inr \<lparr>fr_type = h_type h, fr_version = h_version h,
                 fr_payload = take (h_payload_len h) (drop 8 (src @ more)), fr_total_len = n\<rparr>)" for more
    using len Inr n
    by (simp add: decode_frame_def decode_header_append ENVELOPE_HEADER_SIZE_def Let_def)
  show ?thesis
    using len n by (simp add: more MAX_INTER_NODE_PAYLOAD_BYTES_def drop_take add.commute)
qed

lemma decode_frame_error_header:
  "\<lbrakk>decode_frame src = Inl e; \<forall>n. e \<noteq> EnvIncomplete n\<rbrakk> \<Longrightarrow> 8 \<le> length src"
  by (rule ccontr) (auto simp: decode_frame_def decode_header_def ENVELOPE_HEADER_SIZE_def)

interpretation peer_stream: stream_codec parse_frame frame_bytes frame_valid
proof unfold_locales
  show "stable parse_frame" by (rule stable_parse_frame)
  show "length rest < length xs" if "parse_frame xs = Got r rest" for xs r rest
    using that decode_frame_Inr [of xs]
    by (auto simp: parse_frame_def split: sum.splits EnvelopeError.splits)
  show "parse_frame (frame_bytes r) = Got r []" if "frame_valid r" for r
    using that decode_frame_encode [of "fr_payload r" "fr_type r" "[]"]
    by (simp add: frame_valid_def frame_bytes_def parse_frame_def envelope_consts)
qed

lemma read_frame_encode:
  assumes "length payload \<le> MAX_INTER_NODE_PAYLOAD_BYTES"
  shows "read_frame (encode_frame ft payload @ rest) =
    (Inr (\<lparr>h_type = ft, h_version = 1, h_payload_len = length payload\<rparr>, payload), rest)"
proof -
  have "decode_header (take 8 (encode_frame ft payload)) =
      Inr \<lparr>h_type = ft, h_version = 1, h_payload_len = length payload\<rparr>"
    using decode_header_append [of "take 8 (encode_frame ft payload)" "drop 8 (encode_frame ft payload)"]
      decode_header_encode [OF assms, of ft "[]"] by simp
  then show ?thesis
    by (simp add: read_frame_def read_exact_def ENVELOPE_HEADER_SIZE_def drop_encode_frame)
qed

lemma exchange_frame_encode:
  assumes "length payload \<le> MAX_INTER_NODE_PAYLOAD_BYTES"
  shows "exchange_frame (encode_frame ft payload @ rest) expected =
    (if ft = expected then Inr payload else Inl InvalidData, rest)"
  by (simp add: exchange_frame_def read_frame_encode [OF assms])

lemma vote_reply_encode [simp]: "vote_reply (encode_vote_response g) = Inr g"
  using exchange_frame_encode [of "be_bytes 1 (if g then 1 else 0) @ write_no_extensions"
      VoteResponse "[]" VoteResponse]
  by (simp add: vote_reply_def encode_vote_response_def write_no_extensions_def envelope_consts)

section \<open>Extensions and payload fields\<close>

definition exts_ok :: "(nat \<times> bytes) list \<Rightarrow> bool" where
  "exts_ok exts \<longleftrightarrow> length exts < 65536 \<and>
     (\<forall>(tag, bs)\<in>set exts. tag < 65536 \<and> length bs < 4294967296)"

lemma read_entries_write:
  "\<forall>(tag, bs)\<in>set exts. tag < 65536 \<and> length bs < 4294967296 \<Longrightarrow>
   read_entries (length exts)
     (concat (map (\<lambda>(tag, bs). be_bytes 2 tag @ be_bytes 4 (length bs) @ bs) exts) @ rest) =
   Inr (exts, rest)"
  by (induction exts) (auto simp: take_be_append)

lemma read_extensions_write:
  "exts_ok exts \<Longrightarrow> read_extensions (write_extensions exts @ rest) = Inr (exts, rest)"
  by (simp add: exts_ok_def read_extensions_def write_extensions_def take_be_append
      read_entries_write)

lemma payload_uint_append [codec_simps]:
  "v < 256 ^ k \<Longrightarrow> payload_uint k field (be_bytes k v @ rest) = Inr (v, rest)"
  by (simp add: payload_uint_def payload_take_def be_val_be_bytes_exact)

lemma payload_string_append [codec_simps]:
  "pascal_ok s \<Longrightarrow> length s \<le> m \<Longrightarrow> payload_pascal_string m field (pascal s @ rest) = Inr (s, rest)"
  by (simp add: payload_pascal_string_def pascal_def pascal_ok_def payload_uint_append
      payload_take_def from_utf8_str_bytes)

lemma fetch_request_roundtrip:
  assumes "pascal_ok (rf_topic r)" "rf_follower_node_id r < 2 ^ 32" "rf_partition r < 2 ^ 32"
    "rf_fetch_offset r < 2 ^ 64" "rf_max_bytes r < 2 ^ 32"
  shows "\<exists>bs. encode_fetch_request r = Some bs \<and> decode_fetch_request bs = Some (r, length bs - 2)"
  using assms
  by (simp add: encode_fetch_request_def write_pascal_string_ok decode_fetch_request_def pascal_def
      pascal_ok_def take_be_append from_utf8_str_bytes write_no_extensions_def)

lemma fetch_response_roundtrip:
  assumes "rs_leader_watermark r < 2 ^ 64" "rs_isr_count r < 2 ^ 32" "length (rs_entries r) < 2 ^ 32"
  shows "decode_fetch_response (encode_fetch_response r) = Some r"
  using assms
  by (simp add: decode_fetch_response_def encode_fetch_response_def take_be_append)

section \<open>Properties\<close>

text \<open>C21 The frames a peer writes come out of the receive loop whole, in order and with their
  contents, however the network cuts the bytes, with a last frame that has only partly arrived
  left waiting; and the loop has then consumed exactly the whole frames.\<close>

theorem peer_frames_any_segmentation:
  assumes "\<forall>(ft, payload)\<in>set sent. length payload \<le> MAX_INTER_NODE_PAYLOAD_BYTES"
    and "concat segments = concat (map (\<lambda>(ft, payload). encode_frame ft payload) sent) @ partial"
    and "encode_frame ft0 payload0 = partial @ missing" "missing \<noteq> []"
      "length payload0 \<le> MAX_INTER_NODE_PAYLOAD_BYTES"
  shows "\<exists>frames. read_chunks parse_frame 0 [] segments =
      (frames, length (concat segments) - length partial, False) \<and>
    map (\<lambda>f. (fr_type f, fr_payload f)) frames = sent"
proof -
  let ?f = "\<lambda>(ft, payload). \<lparr>fr_type = ft, fr_version = 1, fr_payload = payload,
      fr_total_len = 8 + length payload\<rparr>"
  have valid: "\<forall>f\<in>set (map ?f sent). frame_valid f"
    using assms(1) by (auto simp: frame_valid_def envelope_consts)
  have bytes: "concat (map frame_bytes (map ?f sent)) =
      concat (map (\<lambda>(ft, payload). encode_frame ft payload) sent)"
    by (rule arg_cong [where f = concat]) (auto simp: frame_bytes_def)
  have "frame_valid (?f (ft0, payload0))" "frame_bytes (?f (ft0, payload0)) = partial @ missing"
    using assms(3,5) by (simp_all add: frame_valid_def frame_bytes_def envelope_consts)
  then have tail: "partial = [] \<or>
      (\<exists>r more. frame_valid r \<and> frame_bytes r = partial @ more \<and> more \<noteq> [])"
    using assms(4) by (intro disjI2 exI conjI)
  have "read_chunks parse_frame 0 [] segments =
      (map ?f sent, length (concat (map frame_bytes (map ?f sent))), False)"
    by (rule peer_stream.read_chunks_log [OF valid _ tail]) (simp only: bytes assms(2))
  moreover have "length (concat (map frame_bytes (map ?f sent))) =
      length (concat segments) - length partial"
    unfolding bytes assms(2) by simp
  moreover have "map (\<lambda>f. (fr_type f, fr_payload f)) (map ?f sent) = sent"
    by (simp add: map_idI split_beta)
  ultimately show ?thesis by (intro exI [of _ "map ?f sent"]) simp
qed

theorem peer_frames_any_segmentation_witness:
  "\<exists>frames. read_chunks parse_frame 0 []
      [take 5 (encode_frame VoteResponse [1]), drop 5 (encode_frame VoteResponse [1]) @ [INTER_NODE_MAGIC]] =
      (frames, 9, False) \<and> map (\<lambda>f. (fr_type f, fr_payload f)) frames = [(VoteResponse, [1])]"
proof -
  have "encode_frame Heartbeat [] = [INTER_NODE_MAGIC] @ tl (encode_frame Heartbeat [])"
    "tl (encode_frame Heartbeat []) \<noteq> []"
    by (simp_all add: encode_frame_def)
  from peer_frames_any_segmentation [OF _ _ this, of "[(VoteResponse, [1])]"
      "[take 5 (encode_frame VoteResponse [1]), drop 5 (encode_frame VoteResponse [1]) @ [INTER_NODE_MAGIC]]"]
  show ?thesis by (simp add: MAX_INTER_NODE_PAYLOAD_BYTES_def)
qed

text \<open>C30 The frame decoder recognises exactly the frames and its errors are what the connection loop
  takes them for. A frame of at most the largest payload is decoded as soon as all of it is
  there, whatever follows it, with its own length as the total length. Every proper prefix of it
  is incomplete: below the 8 bytes of a header the decoder asks for 8 bytes, from then on for
  the length of the whole frame. On any input, an "incomplete" with a whole header stays so, with
  the same number, until that many bytes are there, and then the frame is complete, with
  everything behind the header as its payload; the number is never above the largest frame. Any
  other error needs a whole header and is final: no further input changes it.\<close>

theorem frame_errors_exact:
  assumes "length payload \<le> MAX_INTER_NODE_PAYLOAD_BYTES"
    and "encode_frame ft payload = part @ missing" "missing \<noteq> []"
    and "decode_frame src = Inl e"
  shows "decode_frame (encode_frame ft payload @ rest) =
      Inr \<lparr>fr_type = ft, fr_version = 1, fr_payload = payload, fr_total_len = 8 + length payload\<rparr> \<and>
    decode_frame part = Inl (EnvIncomplete (if length part < 8 then 8 else 8 + length payload)) \<and>
    (case e of
       EnvIncomplete n \<Rightarrow>
         if length src < 8 then n = 8
         else n \<le> 8 + 64 * 1024 * 1024 \<and>
           (\<forall>more. decode_frame (src @ more) = Inl (EnvIncomplete n) \<longleftrightarrow> length (src @ more) < n) \<and>
           (\<forall>more. n \<le> length (src @ more) \<longrightarrow>
             (\<exists>f. decode_frame (src @ more) = Inr f \<and> fr_total_len f = n \<and>
                  fr_payload f = drop 8 (take n (src @ more))))
     | _ \<Rightarrow> 8 \<le> length src \<and> (\<forall>more. decode_frame (src @ more) = Inl e))"
proof (intro conjI)
  show "decode_frame (encode_frame ft payload @ rest) =
      Inr \<lparr>fr_type = ft, fr_version = 1, fr_payload = payload, fr_total_len = 8 + length payload\<rparr>"
    by (rule decode_frame_encode [OF assms(1)])
  show "decode_frame part = Inl (EnvIncomplete (if length part < 8 then 8 else 8 + length payload))"
    by (rule decode_frame_prefix [OF assms(1-3)])
  show "case e of
       EnvIncomplete n \<Rightarrow>
         if length src < 8 then n = 8
         else n \<le> 8 + 64 * 1024 * 1024 \<and>
           (\<forall>more. decode_frame (src @ more) = Inl (EnvIncomplete n) \<longleftrightarrow> length (src @ more) < n) \<and>
           (\<forall>more. n \<le> length (src @ more) \<longrightarrow>
             (\<exists>f. decode_frame (src @ more) = Inr f \<and> fr_total_len f = n \<and>
                  fr_payload f = drop 8 (take n (src @ more))))
     | _ \<Rightarrow> 8 \<le> length src \<and> (\<forall>more. decode_frame (src @ more) = Inl e)"
    using decode_frame_waits [of src] decode_frame_error_append [OF assms(4)]
      decode_frame_error_header [OF assms(4)] assms(4)
    by (cases e) (simp_all add: decode_frame_waits)
qed

theorem frame_errors_exact_witness:
  "decode_frame (encode_frame VoteResponse [1] @ [7]) =
     Inr \<lparr>fr_type = VoteResponse, fr_version = 1, fr_payload = [1], fr_total_len = 9\<rparr> \<and>
   decode_frame (take 8 (encode_frame VoteResponse [1])) = Inl (EnvIncomplete 9) \<and>
   decode_frame (replicate 8 0) = Inl (NotAnInterNodeFrame 0) \<and>
   (\<forall>more. decode_frame (replicate 8 0 @ more) = Inl (NotAnInterNodeFrame 0))"
proof -
  have "decode_frame (replicate 8 0) = Inl (NotAnInterNodeFrame 0)"
    by (simp add: decode_frame_def decode_header_def envelope_consts take_be_def)
  with frame_errors_exact [OF _ _ _ this, of "[1]" VoteResponse
      "take 8 (encode_frame VoteResponse [1])" "[1]" "[7]"]
  show ?thesis
    using append_take_drop_id [of 8 "encode_frame VoteResponse [1]"]
    by (simp add: drop_encode_frame MAX_INTER_NODE_PAYLOAD_BYTES_def)
qed

text \<open>The extension section is additive: whatever tags a newer sender appended, the section
  reads back entry by entry and the cursor stands exactly behind it.\<close>

theorem extensions_roundtrip:
  assumes "length exts < 65536" "\<forall>(tag, bs)\<in>set exts. tag < 65536 \<and> length bs < 2 ^ 32"
  shows "read_extensions (write_extensions exts @ rest) = Inr (exts, rest)"
  using assms by (intro read_extensions_write) (simp add: exts_ok_def)

theorem extensions_roundtrip_witness:
  "read_extensions (write_extensions [(7, [1, 2, 3]), (900, [])] @ [9]) = Inr ([(7, [1, 2, 3]), (900, [])], [9])"
  by (rule extensions_roundtrip) simp_all

end
