(* ===== verification/Consensus.thy ===== *)
theory Consensus
  imports Envelope
begin

text \<open>
  Controller elections: the per-node state machine of \<^verbatim>\<open>src/replication/consensus.rs\<close> with
  its hard state on disk (\<^verbatim>\<open>src/durable.rs\<close>, whose replacement may fail before or after
  the new contents are visible), the vote handler of \<^verbatim>\<open>src/server/handler.rs\<close>, and the
  election loop of \<^verbatim>\<open>src/replication/mod.rs\<close> as the steps of a cluster: a candidate's
  loop and its peers interleave arbitrarily, requests and replies are bytes that may arrive
  late, more than once or never, writes may fail, and nodes crash and restart from disk.

  The theorems: a vote once given is never given to another candidate of the same term, over
  crashes and failed writes; at most one node is leader of a term that was elected; an
  election whose requests are answered by a quorum succeeds.
\<close>

section \<open>The controller\<close>

datatype ConsensusState = Follower | Candidate | Leader

record ControllerInner =
  c_node_id :: nat
  c_cluster_size :: nat
  c_state :: ConsensusState
  c_term :: nat
  c_voted_for :: "(nat \<times> nat) option"
  c_last_heartbeat :: instant
  c_election_timeout :: duration
  c_has_path :: bool
  c_failed :: bool

type_synonym disk = "bytes option"

text \<open>
  \<open>durable::replace\<close>: success, or an error before (\<open>IoErr False\<close>) or after
  (\<open>IoErr True\<close>) the rename made the new contents the file's.
\<close>

datatype disk_io = IoOk | IoErr bool

definition durable_replace :: "disk_io \<Rightarrow> bytes \<Rightarrow> disk \<Rightarrow> disk \<times> bool" where
  "durable_replace io new d =
     (case io of IoOk \<Rightarrow> (Some new, True) | IoErr renamed \<Rightarrow> (if renamed then Some new else d, False))"

definition new_with_state :: "nat \<Rightarrow> nat \<Rightarrow> ConsensusState \<Rightarrow> instant \<Rightarrow> ControllerInner" where
  "new_with_state node_id cluster_size initial_state now =
     \<lparr>c_node_id = node_id, c_cluster_size = cluster_size, c_state = initial_state, c_term = 0,
      c_voted_for = (if initial_state = Leader then Some (0, node_id) else None),
      c_last_heartbeat = now, c_election_timeout = 1500 + node_id * 100,
      c_has_path = False, c_failed = False\<rparr>"

definition hard_state :: "ControllerInner \<Rightarrow> bytes" where
  "hard_state c =
     be_bytes 8 (c_term c) @ [if c_voted_for c \<noteq> None then 1 else 0] @
     be_bytes 4 (case c_voted_for c of None \<Rightarrow> 0 | Some (_, v) \<Rightarrow> v)"

definition persist :: "disk_io \<Rightarrow> ControllerInner \<Rightarrow> disk \<Rightarrow> disk \<times> bool" where
  "persist io c d = (if c_has_path c then durable_replace io (hard_state c) d else (d, True))"

definition persist_or_demote ::
    "disk_io \<Rightarrow> ControllerInner \<Rightarrow> disk \<Rightarrow> (ControllerInner \<times> disk) \<times> bool" where
  "persist_or_demote io c d =
     (case persist io c d of
        (d', True) \<Rightarrow> ((c, d'), True)
      | (d', False) \<Rightarrow> ((c\<lparr>c_failed := True, c_state := Follower\<rparr>, d'), False))"

text \<open>\<open>None\<close> is the error the engine stops on; a missing file leaves the state as built.\<close>

definition enable_persistence ::
    "disk_io \<Rightarrow> ControllerInner \<Rightarrow> disk \<Rightarrow> (ControllerInner \<times> disk) option" where
  "enable_persistence io c d =
     (let loaded =
        (case d of
           None \<Rightarrow> Some c
         | Some bs \<Rightarrow>
             if length bs \<noteq> 13 \<or> unat (bs ! 8) > 1 then None
             else
               (let term = be_val (take 8 bs) in
                Some (c\<lparr>c_term := term,
                        c_voted_for := (if bs ! 8 = 1 then Some (term, be_val (drop 9 bs)) else None),
                        c_state := (if c_cluster_size c = 1 then Leader else Follower)\<rparr>))) in
      case loaded of
        None \<Rightarrow> None
      | Some c \<Rightarrow>
          (let c = c\<lparr>c_has_path := True\<rparr> in
           case persist io c d of (d', ok) \<Rightarrow> if ok then Some (c, d') else None))"

definition force_candidate_state ::
    "disk_io \<Rightarrow> ControllerInner \<Rightarrow> disk \<Rightarrow> ControllerInner \<times> disk" where
  "force_candidate_state io c d =
     (if c_failed c then (c, d)
      else
        (let term = add64 (c_term c) 1 in
         fst (persist_or_demote io
           (c\<lparr>c_state := Candidate, c_term := term, c_voted_for := Some (term, c_node_id c)\<rparr>) d)))"

definition handle_leader_heartbeat ::
    "disk_io \<Rightarrow> instant \<Rightarrow> nat \<Rightarrow> ControllerInner \<Rightarrow> disk \<Rightarrow> (ControllerInner \<times> disk) \<times> bool" where
  "handle_leader_heartbeat io now term c d =
     (if c_failed c then ((c, d), False)
      else if term \<ge> c_term c then
        persist_or_demote io
          (c\<lparr>c_voted_for := (if term > c_term c then None else c_voted_for c), c_term := term,
             c_state := Follower, c_last_heartbeat := now\<rparr>) d
      else ((c, d), False))"

definition check_election_timeout ::
    "disk_io \<Rightarrow> instant \<Rightarrow> ControllerInner \<Rightarrow> disk \<Rightarrow> (ControllerInner \<times> disk) \<times> bool" where
  "check_election_timeout io now c d =
     (if \<not> c_failed c \<and> c_state c \<noteq> Leader \<and> now - c_last_heartbeat c \<ge> c_election_timeout c then
        (let term = add64 (c_term c) 1 in
         persist_or_demote io
           (c\<lparr>c_state := Candidate, c_term := term, c_voted_for := Some (term, c_node_id c),
              c_last_heartbeat := now\<rparr>) d)
      else ((c, d), False))"

definition tally_election_votes :: "nat \<Rightarrow> ControllerInner \<Rightarrow> ControllerInner \<times> bool" where
  "tally_election_votes votes c =
     (let quorum = c_cluster_size c div 2 + 1 in
      if \<not> c_failed c \<and> c_state c = Candidate \<and> votes \<ge> quorum
      then (c\<lparr>c_state := Leader\<rparr>, True) else (c, False))"

definition try_record_vote ::
    "disk_io \<Rightarrow> instant \<Rightarrow> nat \<Rightarrow> nat \<Rightarrow> ControllerInner \<Rightarrow> disk \<Rightarrow> (ControllerInner \<times> disk) \<times> bool" where
  "try_record_vote io now candidate_id term c d =
     (if c_failed c \<or> term < c_term c then ((c, d), False)
      else
        (let c = (if term > c_term c
                  then c\<lparr>c_term := term, c_state := Follower, c_voted_for := None\<rparr> else c);
             record_vote = persist_or_demote io
               (c\<lparr>c_voted_for := Some (term, candidate_id), c_last_heartbeat := now\<rparr>) d in
         case c_voted_for c of
           Some (voted_term, voted_candidate) \<Rightarrow>
             if voted_term = term then ((c, d), voted_candidate = candidate_id) else record_vote
         | None \<Rightarrow> record_vote))"

definition step_down_to_follower ::
    "disk_io \<Rightarrow> instant \<Rightarrow> nat \<Rightarrow> ControllerInner \<Rightarrow> disk \<Rightarrow> ControllerInner \<times> disk" where
  "step_down_to_follower io now observed_epoch c d =
     (if observed_epoch > c_term c then
        fst (persist_or_demote io
          (c\<lparr>c_term := observed_epoch, c_state := Follower, c_voted_for := None,
             c_last_heartbeat := now\<rparr>) d)
      else (c, d))"

section \<open>Nodes and the vote handler\<close>

text \<open>
  Where the election loop of a node stands: waiting for a timeout, between becoming a
  candidate and reading the term it asks votes for (two separate locks), or asking the
  remaining peers.
\<close>

datatype phase = Idle | Started | Collecting nat nat "nat list" "nat list"

record node =
  n_ctl :: ControllerInner
  n_disk :: disk
  n_epoch :: nat
  n_leo :: nat
  n_applied :: nat
  n_phase :: phase

record voter_config =
  v_cluster_id :: string
  v_has_peers :: bool
  v_is_controller :: bool

definition vote_decision ::
    "voter_config \<Rightarrow> disk_io \<Rightarrow> instant \<Rightarrow> string \<Rightarrow> nat \<Rightarrow> nat \<Rightarrow> nat \<Rightarrow> node \<Rightarrow> node \<times> bool" where
  "vote_decision cfg io now cluster_id candidate_id term candidate_last_log_index nd =
     (if cluster_id \<noteq> v_cluster_id cfg then (nd, False)
      else if \<not> v_has_peers cfg then (nd, False)
      else if \<not> v_is_controller cfg then (nd, False)
      else if term \<ge> n_epoch nd \<and> candidate_last_log_index \<ge> n_leo nd then
        (case try_record_vote io now candidate_id term (n_ctl nd) (n_disk nd) of
           ((c, d), granted) \<Rightarrow>
             (nd\<lparr>n_ctl := c, n_disk := d, n_epoch := (if granted then term else n_epoch nd)\<rparr>, granted))
      else (nd, False))"

definition handle_vote_request ::
    "voter_config \<Rightarrow> disk_io \<Rightarrow> instant \<Rightarrow> bytes \<Rightarrow> node \<Rightarrow> PacketError + node \<times> bytes" where
  "handle_vote_request cfg io now payload nd =
     (case payload_pascal_string 256 ''cluster_id'' payload of
        Inl e \<Rightarrow> Inl e
      | Inr (cluster_id, r) \<Rightarrow>
     (case payload_uint 4 ''candidate_id'' r of
        Inl e \<Rightarrow> Inl e
      | Inr (candidate_id, r) \<Rightarrow>
     (case payload_uint 8 ''term'' r of
        Inl e \<Rightarrow> Inl e
      | Inr (term, r) \<Rightarrow>
     (case payload_uint 8 ''candidate_last_log_index'' r of
        Inl e \<Rightarrow> Inl e
      | Inr (log_index, r) \<Rightarrow>
          (case vote_decision cfg io now cluster_id candidate_id term log_index nd of
             (nd', granted) \<Rightarrow> Inr (nd', encode_vote_response granted))))))"

section \<open>The cluster\<close>

text \<open>
  Vote requests travel as payload bytes with their receiver; \<open>cl_votes\<close> is the history of
  the votes that were given (voter, term, candidate), kept only for the statements.
\<close>

record cluster =
  cl_nodes :: "nat \<Rightarrow> node"
  cl_requests :: "(nat \<times> nat \<times> nat \<times> bytes) set"
  cl_replies :: "(nat \<times> nat \<times> nat \<times> bytes) set"
  cl_votes :: "(nat \<times> nat \<times> nat) set"

text \<open>The controllers of the cluster, their common name, and the peers a candidate asks.\<close>

record membership =
  m_ids :: "nat list"
  m_cluster_id :: string

definition peers :: "membership \<Rightarrow> nat \<Rightarrow> nat list" where
  "peers m i = filter (\<lambda>j. j \<noteq> i) (m_ids m)"

definition cluster_size :: "membership \<Rightarrow> nat \<Rightarrow> nat" where
  "cluster_size m i = length (peers m i) + 1"

definition config_of :: "membership \<Rightarrow> nat \<Rightarrow> voter_config" where
  "config_of m i =
     \<lparr>v_cluster_id = m_cluster_id m, v_has_peers = (peers m i \<noteq> []), v_is_controller = True\<rparr>"

definition boot :: "membership \<Rightarrow> ConsensusState \<Rightarrow> instant \<Rightarrow> disk_io \<Rightarrow> nat \<Rightarrow> node \<Rightarrow> node option" where
  "boot m st now io i nd =
     (case enable_persistence io (new_with_state i (cluster_size m i) st now) (n_disk nd) of
        None \<Rightarrow> None
      | Some (c, d) \<Rightarrow> Some (nd\<lparr>n_ctl := c, n_disk := d, n_epoch := c_term c, n_phase := Idle\<rparr>))"

definition put_node :: "nat \<Rightarrow> node \<Rightarrow> cluster \<Rightarrow> cluster" where
  "put_node i nd s = s\<lparr>cl_nodes := (cl_nodes s)(i := nd)\<rparr>"

definition vote_payload :: "string \<Rightarrow> nat \<Rightarrow> nat \<Rightarrow> nat \<Rightarrow> bytes" where
  "vote_payload cluster_id candidate_id term log_index =
     pascal cluster_id @ be_bytes 4 candidate_id @ be_bytes 8 term @ be_bytes 8 log_index @
     write_no_extensions"

definition ctl_update :: "ControllerInner \<times> disk \<Rightarrow> node \<Rightarrow> node" where
  "ctl_update cd nd = nd\<lparr>n_ctl := fst cd, n_disk := snd cd\<rparr>"

text \<open>Lines of \<open>start_election_timeout_loop\<close>, one step per lock or exchange.\<close>

definition begin_election :: "disk_io \<Rightarrow> instant \<Rightarrow> node \<Rightarrow> node \<times> bool" where
  "begin_election io now nd =
     (case check_election_timeout io now (n_ctl nd) (n_disk nd) of
        (cd, started) \<Rightarrow>
          ((ctl_update cd nd)\<lparr>n_phase := (if started then Started else Idle)\<rparr>, started))"

definition read_term :: "membership \<Rightarrow> nat \<Rightarrow> node \<Rightarrow> node" where
  "read_term m i nd =
     (let new_term = c_term (n_ctl nd) in
      nd\<lparr>n_epoch := max (n_epoch nd) new_term,
         n_phase := Collecting new_term (n_applied nd) (peers m i) []\<rparr>)"

definition finish_election :: "nat \<Rightarrow> nat list \<Rightarrow> node \<Rightarrow> node" where
  "finish_election new_term granted nd =
     (case tally_election_votes (1 + length granted) (n_ctl nd) of
        (c, won) \<Rightarrow>
          nd\<lparr>n_ctl := c, n_epoch := (if won then new_term else n_epoch nd), n_phase := Idle\<rparr>)"

inductive cluster_step :: "membership \<Rightarrow> cluster \<Rightarrow> cluster \<Rightarrow> bool" for m :: membership where
  timeout:
    "\<lbrakk>i \<in> set (m_ids m); n_phase (cl_nodes s i) = Idle;
      begin_election io now (cl_nodes s i) = (nd, started)\<rbrakk> \<Longrightarrow>
     cluster_step m s ((put_node i nd s)
       \<lparr>cl_votes := (if started then insert (i, c_term (n_ctl nd), i) (cl_votes s) else cl_votes s)\<rparr>)"
| read_new_term:
    "\<lbrakk>i \<in> set (m_ids m); n_phase (cl_nodes s i) = Started\<rbrakk> \<Longrightarrow>
     cluster_step m s (put_node i (read_term m i (cl_nodes s i)) s)"
| send:
    "\<lbrakk>i \<in> set (m_ids m); n_phase (cl_nodes s i) = Collecting t idx (p # ps) vs\<rbrakk> \<Longrightarrow>
     cluster_step m s (s\<lparr>cl_requests :=
       insert (i, t, p, vote_payload (m_cluster_id m) i t idx) (cl_requests s)\<rparr>)"
| deliver:
    "\<lbrakk>p \<in> set (m_ids m); (i, t, p, payload) \<in> cl_requests s;
      handle_vote_request (config_of m p) io now payload (cl_nodes s p) = Inr (nd, reply)\<rbrakk> \<Longrightarrow>
     cluster_step m s ((put_node p nd s)
       \<lparr>cl_votes := (if reply = encode_vote_response True then insert (p, t, i) (cl_votes s)
                     else cl_votes s),
        cl_replies := insert (p, i, t, reply) (cl_replies s)\<rparr>)"
| collect:
    "\<lbrakk>i \<in> set (m_ids m); n_phase (cl_nodes s i) = Collecting t idx (p # ps) vs;
      (p, i, t, reply) \<in> cl_replies s; vote_reply reply = Inr granted\<rbrakk> \<Longrightarrow>
     cluster_step m s (put_node i ((cl_nodes s i)
       \<lparr>n_phase := Collecting t idx ps (if granted then p # vs else vs)\<rparr>) s)"
| no_reply:
    "\<lbrakk>i \<in> set (m_ids m); n_phase (cl_nodes s i) = Collecting t idx (p # ps) vs\<rbrakk> \<Longrightarrow>
     cluster_step m s (put_node i ((cl_nodes s i)\<lparr>n_phase := Collecting t idx ps vs\<rparr>) s)"
| tally:
    "\<lbrakk>i \<in> set (m_ids m); n_phase (cl_nodes s i) = Collecting t idx [] vs\<rbrakk> \<Longrightarrow>
     cluster_step m s (put_node i (finish_election t vs (cl_nodes s i)) s)"
| step_down:
    "\<lbrakk>i \<in> set (m_ids m); seen \<le> c_term (n_ctl (cl_nodes s i))\<rbrakk> \<Longrightarrow>
     cluster_step m s (put_node i (ctl_update (step_down_to_follower io now (add64 seen 1)
       (n_ctl (cl_nodes s i)) (n_disk (cl_nodes s i))) (cl_nodes s i)) s)"
| heartbeat:
    "\<lbrakk>i \<in> set (m_ids m); j \<in> set (m_ids m); t \<le> c_term (n_ctl (cl_nodes s j));
      handle_leader_heartbeat io now t (n_ctl (cl_nodes s i)) (n_disk (cl_nodes s i)) = (cd, ok)\<rbrakk> \<Longrightarrow>
     cluster_step m s (put_node i (ctl_update cd (cl_nodes s i)) s)"
| crash:
    "\<lbrakk>i \<in> set (m_ids m); st \<noteq> Candidate; boot m st now io i (cl_nodes s i) = Some nd\<rbrakk> \<Longrightarrow>
     cluster_step m s (put_node i nd s)"
| log_moves:
    "\<lbrakk>i \<in> set (m_ids m); leo < 2 ^ 64; applied < 2 ^ 64\<rbrakk> \<Longrightarrow>
     cluster_step m s (put_node i ((cl_nodes s i)\<lparr>n_leo := leo, n_applied := applied\<rparr>) s)"
| epoch_moves:
    "i \<in> set (m_ids m) \<Longrightarrow>
     cluster_step m s (put_node i ((cl_nodes s i)\<lparr>n_epoch := e\<rparr>) s)"

text \<open>
  A new cluster: every controller starts with no hard state on disk, as a follower or, where
  the configuration says so, as the leader of term 0.
\<close>

definition cluster_start :: "membership \<Rightarrow> cluster \<Rightarrow> bool" where
  "cluster_start m s \<longleftrightarrow>
     cl_requests s = {} \<and> cl_replies s = {} \<and> cl_votes s = {} \<and>
     (\<forall>i\<in>set (m_ids m). \<exists>st now nd. st \<noteq> Candidate \<and> n_disk nd = None \<and>
        n_leo nd < 2 ^ 64 \<and> n_applied nd < 2 ^ 64 \<and>
        boot m st now IoOk i nd = Some (cl_nodes s i))"

inductive cluster_reach :: "membership \<Rightarrow> nat \<Rightarrow> cluster \<Rightarrow> bool" for m :: membership where
  start: "cluster_start m s \<Longrightarrow> cluster_reach m 0 s"
| step: "\<lbrakk>cluster_reach m k s; cluster_step m s s'\<rbrakk> \<Longrightarrow> cluster_reach m (Suc k) s'"

definition membership_ok :: "membership \<Rightarrow> bool" where
  "membership_ok m \<longleftrightarrow> distinct (m_ids m) \<and> (\<forall>i\<in>set (m_ids m). i < 2 ^ 32) \<and>
     pascal_ok (m_cluster_id m) \<and> length (m_cluster_id m) \<le> 256"

section \<open>Hard state on disk\<close>

definition hard_of :: "disk \<Rightarrow> nat \<times> nat option" where
  "hard_of d =
     (case d of
        None \<Rightarrow> (0, None)
      | Some bs \<Rightarrow> (be_val (take 8 bs), if bs ! 8 = 1 then Some (be_val (drop 9 bs)) else None))"

definition hard_le :: "nat \<times> nat option \<Rightarrow> nat \<times> nat option \<Rightarrow> bool" where
  "hard_le h h' \<longleftrightarrow> fst h < fst h' \<or> fst h = fst h' \<and> (snd h = None \<or> snd h' = snd h)"

lemma hard_le_refl [simp]: "hard_le h h"
  by (simp add: hard_le_def)

lemma hard_le_less: "fst h < t \<Longrightarrow> hard_le h (t, v)"
  by (simp add: hard_le_def)

text \<open>
  What a running controller satisfies together with its file: the file is a hard state that
  is not ahead of memory, and agrees with memory unless a failed write fenced the node.
\<close>

definition ctl_ok :: "nat \<Rightarrow> nat \<Rightarrow> ControllerInner \<times> disk \<Rightarrow> bool" where
  "ctl_ok n i cd \<longleftrightarrow>
     (let c = fst cd; h = hard_of (snd cd) in
      c_node_id c = i \<and> c_cluster_size c = n \<and> c_has_path c \<and> c_term c < 2 ^ 64 \<and>
      (\<forall>t v. c_voted_for c = Some (t, v) \<longrightarrow> t = c_term c \<and> v < 2 ^ 32) \<and>
      (\<exists>bs. snd cd = Some bs \<and> length bs = 13 \<and> unat (bs ! 8) \<le> 1) \<and>
      fst h \<le> c_term c \<and>
      (\<not> c_failed c \<longrightarrow> h = (c_term c, map_option snd (c_voted_for c))))"

lemma length_hard_state [simp]: "length (hard_state c) = 13"
  by (simp add: hard_state_def)

lemma hard_state_flag: "hard_state c ! 8 = (if c_voted_for c \<noteq> None then 1 else 0)"
  by (simp add: hard_state_def nth_append)

lemma hard_of_hard_state:
  assumes "c_term c < 2 ^ 64" "\<forall>t v. c_voted_for c = Some (t, v) \<longrightarrow> t = c_term c \<and> v < 2 ^ 32"
  shows "hard_of (Some (hard_state c)) = (c_term c, map_option snd (c_voted_for c))"
  using assms unfolding hard_of_def option.case hard_state_flag
  by (auto simp: hard_state_def be_val_be_bytes_exact split: option.splits)

lemma persist_or_demote_cases:
  assumes path: "c_has_path c" and bounds: "c_term c < 2 ^ 64"
    "\<forall>t v. c_voted_for c = Some (t, v) \<longrightarrow> t = c_term c \<and> v < 2 ^ 32"
    and p: "persist_or_demote io c d = ((c', d'), ok)"
  obtains (written) "ok" "c' = c" "d' = Some (hard_state c)"
  | (fenced) "\<not> ok" "c' = c\<lparr>c_failed := True, c_state := Follower\<rparr>"
      "d' = d \<or> d' = Some (hard_state c)"
proof (cases io)
  case IoOk
  with p path show ?thesis
    by (intro written) (auto simp: persist_or_demote_def persist_def durable_replace_def)
next
  case (IoErr b)
  with p path show ?thesis
    by (intro fenced) (auto simp: persist_or_demote_def persist_def durable_replace_def
        split: bool.splits if_splits)
qed

text \<open>
  Every write moves the hard state up: to a higher term, or to a vote where there was none.
\<close>

lemma persist_or_demote_ok:
  assumes new: "c_node_id c = i" "c_cluster_size c = n" "c_has_path c" "c_term c < 2 ^ 64"
    "\<forall>t v. c_voted_for c = Some (t, v) \<longrightarrow> t = c_term c \<and> v < 2 ^ 32"
    and old: "\<exists>bs. d = Some bs \<and> length bs = 13 \<and> unat (bs ! 8) \<le> 1"
    and le: "hard_le (hard_of d) (c_term c, map_option snd (c_voted_for c))"
    and p: "persist_or_demote io c d = (cd, ok)"
  shows "ctl_ok n i cd \<and> hard_le (hard_of d) (hard_of (snd cd)) \<and>
    (if ok then fst cd = c \<and> hard_of (snd cd) = (c_term c, map_option snd (c_voted_for c))
     else c_failed (fst cd) \<and> c_state (fst cd) = Follower \<and> c_term (fst cd) = c_term c)"
proof -
  obtain c' d' where cd: "cd = (c', d')" by (cases cd)
  note hs = hard_of_hard_state [OF new(4,5)]
  have le1: "fst (hard_of d) \<le> c_term c" using le by (auto simp: hard_le_def)
  have flag: "unat (hard_state c ! 8) \<le> 1" by (simp add: hard_state_flag)
  show ?thesis
  proof (cases rule: persist_or_demote_cases [OF new(3,4,5) p [unfolded cd]])
    case 1
    with new le hs flag show ?thesis by (simp add: cd ctl_ok_def Let_def)
  next
    case 2
    then have "d' = d \<or> d' = Some (hard_state c)" by simp
    then have "fst (hard_of d') \<le> c_term c \<and> hard_le (hard_of d) (hard_of d') \<and>
        (\<exists>bs. d' = Some bs \<and> length bs = 13 \<and> unat (bs ! 8) \<le> 1)"
      using le1 le hs old flag by (elim disjE) simp_all
    with 2 new show ?thesis by (simp add: cd ctl_ok_def Let_def)
  qed
qed

lemma ctl_okD:
  assumes "ctl_ok n i (c, d)"
  shows "c_node_id c = i" "c_cluster_size c = n" "c_has_path c" "c_term c < 2 ^ 64"
    "\<forall>t v. c_voted_for c = Some (t, v) \<longrightarrow> t = c_term c \<and> v < 2 ^ 32"
    "\<exists>bs. d = Some bs \<and> length bs = 13 \<and> unat (bs ! 8) \<le> 1"
    "fst (hard_of d) \<le> c_term c"
    "\<not> c_failed c \<Longrightarrow> hard_of d = (c_term c, map_option snd (c_voted_for c))"
  using assms by (simp_all add: ctl_ok_def Let_def)

section \<open>What each operation does to a controller\<close>

lemma check_election_timeout_ok:
  assumes ok: "ctl_ok n i (c, d)" and i: "i < 2 ^ 32" and t: "c_term c + 1 < 2 ^ 64"
    and r: "check_election_timeout io now c d = (cd, started)"
  shows "ctl_ok n i cd \<and> hard_le (hard_of d) (hard_of (snd cd)) \<and> c_term (fst cd) \<le> c_term c + 1 \<and>
    (if started then c_state (fst cd) = Candidate \<and> \<not> c_failed (fst cd) \<and>
       hard_of (snd cd) = (c_term (fst cd), Some i)
     else cd = (c, d) \<or> c_state (fst cd) = Follower)"
proof (cases "\<not> c_failed c \<and> c_state c \<noteq> Leader \<and> now - c_last_heartbeat c \<ge> c_election_timeout c")
  case False
  with r ok show ?thesis by (auto simp: check_election_timeout_def split: if_splits)
next
  case True
  note D = ctl_okD [OF ok]
  define c1 where "c1 = c\<lparr>c_state := Candidate, c_term := c_term c + 1,
    c_voted_for := Some (c_term c + 1, i), c_last_heartbeat := now\<rparr>"
  have p: "persist_or_demote io c1 d = (cd, started)"
    using r True t D(1) by (simp add: check_election_timeout_def Let_def add64_exact c1_def)
  have "hard_le (hard_of d) (c_term c1, map_option snd (c_voted_for c1))"
    using D(7) by (simp add: hard_le_def c1_def)
  from persist_or_demote_ok [OF _ _ _ _ _ D(6) this p, of i n] D i t True show ?thesis
    by (auto simp: c1_def split: if_splits)
qed

lemma try_record_vote_ok:
  assumes ok: "ctl_ok n i (c, d)" and v: "v < 2 ^ 32" and t: "t < 2 ^ 64"
    and r: "try_record_vote io now v t c d = (cd, granted)"
  shows "ctl_ok n i cd \<and> hard_le (hard_of d) (hard_of (snd cd)) \<and>
    (c_term (fst cd) = c_term c \<or> c_term (fst cd) = t) \<and>
    (granted \<longrightarrow> hard_of (snd cd) = (t, Some v)) \<and>
    (c_state (fst cd) \<noteq> Follower \<longrightarrow> c_state (fst cd) = c_state c \<and> c_term (fst cd) = c_term c)"
proof (cases "c_failed c \<or> t < c_term c")
  case True
  with r ok show ?thesis by (auto simp: try_record_vote_def)
next
  case False
  note D = ctl_okD [OF ok]
  define c1 where "c1 = (if t > c_term c
    then c\<lparr>c_term := t, c_state := Follower, c_voted_for := None\<rparr> else c)"
  define c2 where "c2 = c1\<lparr>c_voted_for := Some (t, v), c_last_heartbeat := now\<rparr>"
  have c1: "c_term c1 = t" "c_node_id c1 = i" "c_cluster_size c1 = n" "c_has_path c1"
    using False D by (auto simp: c1_def)
  show ?thesis
  proof (cases "c_voted_for c1")
    case None
    have p: "persist_or_demote io c2 d = (cd, granted)"
      using r False None by (simp add: try_record_vote_def Let_def c1_def [symmetric] c2_def)
    have "hard_le (hard_of d) (t, Some v)"
    proof (cases "t > c_term c")
      case True
      then show ?thesis using D(7) by (auto simp: hard_le_def)
    next
      case F: False
      then have "c1 = c" by (simp add: c1_def)
      with None False F D(8) show ?thesis by (auto simp: hard_le_def)
    qed
    then have le: "hard_le (hard_of d) (c_term c2, map_option snd (c_voted_for c2))"
      by (simp add: c2_def c1)
    from persist_or_demote_ok [OF _ _ _ _ _ D(6) le p, of i n] c1 v t
    have "ctl_ok n i cd \<and> hard_le (hard_of d) (hard_of (snd cd)) \<and>
      (if granted then fst cd = c2 \<and> hard_of (snd cd) = (t, Some v)
       else c_failed (fst cd) \<and> c_state (fst cd) = Follower \<and> c_term (fst cd) = t)"
      by (simp add: c2_def)
    then show ?thesis by (auto simp: c2_def c1 c1_def split: if_splits)
  next
    case (Some w)
    then have "c1 = c" by (auto simp: c1_def split: if_splits)
    moreover obtain w2 where w: "w = (t, w2)"
      using Some D(5) \<open>c1 = c\<close> c1(1) by (cases w) auto
    ultimately have "cd = (c, d)" "granted = (w2 = v)"
      using r False Some by (auto simp: try_record_vote_def Let_def c1_def [symmetric])
    with ok D(8) Some w False \<open>c1 = c\<close> c1(1) show ?thesis by auto
  qed
qed

lemma step_down_ok:
  assumes ok: "ctl_ok n i (c, d)" and e: "e < 2 ^ 64"
    and r: "step_down_to_follower io now e c d = cd"
  shows "ctl_ok n i cd \<and> hard_le (hard_of d) (hard_of (snd cd)) \<and>
    c_term (fst cd) \<le> max (c_term c) e \<and>
    (c_state (fst cd) \<noteq> Follower \<longrightarrow> c_state (fst cd) = c_state c \<and> c_term (fst cd) = c_term c)"
proof (cases "e > c_term c")
  case False
  with r ok show ?thesis by (auto simp: step_down_to_follower_def)
next
  case True
  note D = ctl_okD [OF ok]
  define c1 where "c1 = c\<lparr>c_term := e, c_state := Follower, c_voted_for := None,
    c_last_heartbeat := now\<rparr>"
  obtain b where p: "persist_or_demote io c1 d = (cd, b)"
    using r True by (simp add: step_down_to_follower_def c1_def prod_eq_iff)
  have le: "hard_le (hard_of d) (c_term c1, map_option snd (c_voted_for c1))"
    using D(7) True by (simp add: hard_le_def c1_def)
  from persist_or_demote_ok [OF _ _ _ _ _ D(6) le p, of i n] D e True show ?thesis
    by (auto simp: c1_def split: if_splits)
qed

lemma heartbeat_ok:
  assumes ok: "ctl_ok n i (c, d)" and t: "t < 2 ^ 64"
    and r: "handle_leader_heartbeat io now t c d = (cd, b)"
  shows "ctl_ok n i cd \<and> hard_le (hard_of d) (hard_of (snd cd)) \<and>
    c_term (fst cd) \<le> max (c_term c) t \<and>
    (c_state (fst cd) \<noteq> Follower \<longrightarrow> c_state (fst cd) = c_state c \<and> c_term (fst cd) = c_term c)"
proof (cases "\<not> c_failed c \<and> t \<ge> c_term c")
  case False
  with r ok show ?thesis by (auto simp: handle_leader_heartbeat_def split: if_splits)
next
  case True
  note D = ctl_okD [OF ok]
  define c1 where "c1 = c\<lparr>c_voted_for := (if t > c_term c then None else c_voted_for c), c_term := t,
    c_state := Follower, c_last_heartbeat := now\<rparr>"
  have p: "persist_or_demote io c1 d = (cd, b)"
    using r True by (simp add: handle_leader_heartbeat_def c1_def)
  have le: "hard_le (hard_of d) (c_term c1, map_option snd (c_voted_for c1))"
    using D(7,8) True by (auto simp: hard_le_def c1_def)
  have "\<forall>u v. c_voted_for c1 = Some (u, v) \<longrightarrow> u = c_term c1 \<and> v < 2 ^ 32"
    using D(5) True by (auto simp: c1_def)
  from persist_or_demote_ok [OF _ _ _ _ this D(6) le p, of i n] D t True show ?thesis
    by (auto simp: c1_def split: if_splits)
qed

lemma enable_persistence_ok:
  assumes ok: "ctl_ok n i (c, d)" and st: "st \<noteq> Candidate"
    and r: "enable_persistence io (new_with_state i n st now) d = Some (c', d')"
  shows "ctl_ok n i (c', d') \<and> hard_of d' = hard_of d \<and> c_term c' \<le> c_term c \<and>
    c_state c' = (if n = 1 then Leader else Follower)"
proof -
  note D = ctl_okD [OF ok]
  obtain bs where bs: "d = Some bs" "length bs = 13" "unat (bs ! 8) \<le> 1" using D(6) by blast
  define tm where "tm = be_val (take 8 bs)"
  define c1 where "c1 = (new_with_state i n st now)\<lparr>c_term := tm,
     c_voted_for := (if bs ! 8 = 1 then Some (tm, be_val (drop 9 bs)) else None),
     c_state := (if n = 1 then Leader else Follower), c_has_path := True\<rparr>"
  have "tm < 2 ^ 64" "be_val (drop 9 bs) < 2 ^ 32"
    using be_val_less [of "take 8 bs"] be_val_less [of "drop 9 bs"] bs(2) by (simp_all add: tm_def)
  then have b: "c_term c1 < 2 ^ 64" "\<forall>t v. c_voted_for c1 = Some (t, v) \<longrightarrow> t = c_term c1 \<and> v < 2 ^ 32"
    by (auto simp: c1_def)
  have h: "hard_of d = (c_term c1, map_option snd (c_voted_for c1))"
    by (simp add: hard_of_def bs(1) c1_def tm_def)
  have "c' = c1" "d' = Some (hard_state c1)"
    using r bs by (auto simp: enable_persistence_def Let_def c1_def tm_def new_with_state_def persist_def
        durable_replace_def split: disk_io.splits if_splits)
  moreover have "c_term c1 \<le> c_term c" using D(7) h by simp
  ultimately show ?thesis
    using hard_of_hard_state [OF b] h b
    by (simp add: ctl_ok_def Let_def hard_state_flag) (simp add: c1_def new_with_state_def)
qed

lemma first_boot_ok:
  assumes "i < 2 ^ 32" "enable_persistence IoOk (new_with_state i n st now) None = Some (c, d)"
  shows "ctl_ok n i (c, d) \<and> c_term c = 0 \<and> c_state c = st"
proof -
  define c1 where "c1 = (new_with_state i n st now)\<lparr>c_has_path := True\<rparr>"
  have "c = c1" "d = Some (hard_state c1)"
    using assms(2) by (auto simp: enable_persistence_def c1_def persist_def durable_replace_def
        new_with_state_def Let_def)
  moreover have "c_term c1 < 2 ^ 64" "\<forall>t v. c_voted_for c1 = Some (t, v) \<longrightarrow> t = c_term c1 \<and> v < 2 ^ 32"
    using assms(1) by (auto simp: c1_def new_with_state_def)
  ultimately show ?thesis
    using hard_of_hard_state [of c1]
    by (simp add: ctl_ok_def Let_def hard_state_flag) (simp add: c1_def new_with_state_def)
qed

section \<open>Votes\<close>

definition votes_ok :: "(nat \<Rightarrow> nat \<times> nat option) \<Rightarrow> (nat \<times> nat \<times> nat) set \<Rightarrow> bool" where
  "votes_ok h V \<longleftrightarrow>
     (\<forall>v t c. (v, t, c) \<in> V \<longrightarrow> t \<le> fst (h v) \<and> (t = fst (h v) \<longrightarrow> snd (h v) = Some c)) \<and>
     (\<forall>v t c c'. (v, t, c) \<in> V \<and> (v, t, c') \<in> V \<longrightarrow> c = c')"

lemma votes_ok_step:
  assumes "votes_ok h V" "hard_le (h v) h'"
  shows "votes_ok (h(v := h')) V"
proof -
  have "t \<le> fst h' \<and> (t = fst h' \<longrightarrow> snd h' = Some c)" if "(v, t, c) \<in> V" for t c
  proof -
    have "t \<le> fst (h v)" "t = fst (h v) \<Longrightarrow> snd (h v) = Some c"
      using assms(1) that by (auto simp: votes_ok_def)
    with assms(2) show ?thesis by (auto simp: hard_le_def)
  qed
  with assms(1) show ?thesis by (simp add: votes_ok_def)
qed

lemma votes_ok_vote: "votes_ok h V \<Longrightarrow> h v = (t, Some c) \<Longrightarrow> votes_ok h (insert (v, t, c) V)"
  unfolding votes_ok_def by (metis fst_conv insert_iff le_refl option.inject prod.inject snd_conv)

definition phase_ok :: "membership \<Rightarrow> nat \<Rightarrow> (nat \<times> nat \<times> nat) set \<Rightarrow> nat \<Rightarrow> node \<Rightarrow> bool" where
  "phase_ok m k V i nd \<longleftrightarrow>
     (case n_phase nd of
        Idle \<Rightarrow> True
      | Started \<Rightarrow> c_state (n_ctl nd) = Candidate \<longrightarrow> (i, c_term (n_ctl nd), i) \<in> V
      | Collecting t idx ps vs \<Rightarrow>
          t \<le> k \<and> idx < 2 ^ 64 \<and> distinct (vs @ ps) \<and> set (vs @ ps) \<subseteq> set (m_ids m) - {i} \<and>
          (\<forall>v\<in>set vs. (v, t, i) \<in> V) \<and>
          (c_state (n_ctl nd) = Candidate \<longrightarrow> t = c_term (n_ctl nd) \<and> (i, t, i) \<in> V))"

definition leader_ok :: "membership \<Rightarrow> (nat \<times> nat \<times> nat) set \<Rightarrow> nat \<Rightarrow> node \<Rightarrow> bool" where
  "leader_ok m V i nd \<longleftrightarrow>
     (c_state (n_ctl nd) = Leader \<longrightarrow>
        c_term (n_ctl nd) = 0 \<or> length (m_ids m) = 1 \<or>
        (\<exists>W. W \<subseteq> set (m_ids m) \<and> length (m_ids m) div 2 + 1 \<le> card W \<and>
          (\<forall>v\<in>W. (v, c_term (n_ctl nd), i) \<in> V)))"

definition node_ok :: "membership \<Rightarrow> nat \<Rightarrow> (nat \<times> nat \<times> nat) set \<Rightarrow> nat \<Rightarrow> node \<Rightarrow> bool" where
  "node_ok m k V i nd \<longleftrightarrow>
     ctl_ok (length (m_ids m)) i (n_ctl nd, n_disk nd) \<and> c_term (n_ctl nd) \<le> k \<and>
     n_applied nd < 2 ^ 64 \<and> phase_ok m k V i nd \<and> leader_ok m V i nd"

definition hards :: "cluster \<Rightarrow> nat \<Rightarrow> nat \<times> nat option" where
  "hards s i = hard_of (n_disk (cl_nodes s i))"

definition replies_ok :: "(nat \<times> nat \<times> nat) set \<Rightarrow> (nat \<times> nat \<times> nat \<times> bytes) set \<Rightarrow> bool" where
  "replies_ok V R \<longleftrightarrow> (\<forall>p i t reply. (p, i, t, reply) \<in> R \<longrightarrow> vote_reply reply = Inr True \<longrightarrow> (p, t, i) \<in> V)"

definition requests_ok :: "membership \<Rightarrow> nat \<Rightarrow> (nat \<times> nat \<times> nat \<times> bytes) set \<Rightarrow> bool" where
  "requests_ok m k R \<longleftrightarrow>
     (\<forall>i t p payload. (i, t, p, payload) \<in> R \<longrightarrow> i \<in> set (m_ids m) \<and> t \<le> k \<and>
        (\<exists>idx < 2 ^ 64. payload = vote_payload (m_cluster_id m) i t idx))"

definition cluster_inv :: "membership \<Rightarrow> nat \<Rightarrow> cluster \<Rightarrow> bool" where
  "cluster_inv m k s \<longleftrightarrow>
     (\<forall>i\<in>set (m_ids m). node_ok m k (cl_votes s) i (cl_nodes s i)) \<and>
     votes_ok (hards s) (cl_votes s) \<and> requests_ok m k (cl_requests s) \<and>
     replies_ok (cl_votes s) (cl_replies s)"

lemma cluster_size_eq: "distinct (m_ids m) \<Longrightarrow> i \<in> set (m_ids m) \<Longrightarrow> cluster_size m i = length (m_ids m)"
proof -
  assume d: "distinct (m_ids m)" "i \<in> set (m_ids m)"
  have "peers m i = remove1 i (m_ids m)"
    using d by (simp add: peers_def distinct_remove1_removeAll removeAll_filter_not_eq eq_commute)
  then show ?thesis
    using d length_pos_if_in_set [OF d(2)] by (simp add: cluster_size_def length_remove1)
qed

lemma node_ok_mono:
  "node_ok m k V i nd \<Longrightarrow> k \<le> k' \<Longrightarrow> V \<subseteq> V' \<Longrightarrow> node_ok m k' V' i nd"
proof -
  assume nd: "node_ok m k V i nd" and k: "k \<le> k'" and V: "V \<subseteq> V'"
  have "phase_ok m k' V' i nd"
    using nd k V by (auto simp: node_ok_def phase_ok_def split: phase.splits)
  moreover have "leader_ok m V' i nd"
    using nd V unfolding node_ok_def leader_ok_def by (meson subsetD)
  ultimately show ?thesis using nd k by (simp add: node_ok_def)
qed

lemma cluster_inv_put:
  assumes inv: "cluster_inv m k s"
    and nd: "node_ok m (Suc k) V' i nd" "cl_votes s \<subseteq> V'"
    and v: "votes_ok ((hards s)(i := hard_of (n_disk nd))) V'" and r: "replies_ok V' R'"
  shows "cluster_inv m (Suc k) ((put_node i nd s)\<lparr>cl_votes := V', cl_replies := R'\<rparr>)"
proof -
  have "hards ((put_node i nd s)\<lparr>cl_votes := V', cl_replies := R'\<rparr>) = (hards s)(i := hard_of (n_disk nd))"
    by (auto simp: hards_def put_node_def)
  moreover have "requests_ok m (Suc k) (cl_requests s)"
    using inv unfolding cluster_inv_def requests_ok_def by (meson le_SucI)
  ultimately show ?thesis
    using inv nd v r unfolding cluster_inv_def
    by (auto simp: put_node_def intro: node_ok_mono [of m k "cl_votes s"])
qed

lemma cluster_inv_quiet:
  assumes inv: "cluster_inv m k s" and "i \<in> set (m_ids m)"
    and nd: "node_ok m (Suc k) (cl_votes s) i nd"
    and h: "hard_le (hard_of (n_disk (cl_nodes s i))) (hard_of (n_disk nd))"
  shows "cluster_inv m (Suc k) (put_node i nd s)"
proof -
  have "votes_ok ((hards s)(i := hard_of (n_disk nd))) (cl_votes s)"
    using inv h by (intro votes_ok_step) (auto simp: cluster_inv_def hards_def)
  from cluster_inv_put [OF inv nd subset_refl this, of "cl_replies s"] inv show ?thesis
    by (simp add: cluster_inv_def put_node_def)
qed

lemma node_ok_ctl:
  assumes "node_ok m k V i nd" "ctl_ok (length (m_ids m)) i cd" "c_term (fst cd) \<le> Suc k"
    "c_state (fst cd) \<noteq> Follower \<longrightarrow> c_state (fst cd) = c_state (n_ctl nd) \<and>
      c_term (fst cd) = c_term (n_ctl nd)"
  shows "node_ok m (Suc k) V i (ctl_update cd nd)"
  using assms unfolding node_ok_def phase_ok_def leader_ok_def
  by (cases "c_state (fst cd)") (auto simp: ctl_update_def split: phase.splits)

lemma node_ok_epoch [simp]: "node_ok m k V i (nd\<lparr>n_epoch := e\<rparr>) = node_ok m k V i nd"
  by (cases "n_phase nd") (simp_all add: node_ok_def phase_ok_def leader_ok_def)

lemma handle_vote_payload:
  assumes "membership_ok m" "i < 2 ^ 32" "t < 2 ^ 64" "idx < 2 ^ 64"
  shows "handle_vote_request cfg io now (vote_payload (m_cluster_id m) i t idx) nd =
    (case vote_decision cfg io now (m_cluster_id m) i t idx nd of
       (nd', granted) \<Rightarrow> Inr (nd', encode_vote_response granted))"
  using assms
  by (simp add: handle_vote_request_def vote_payload_def membership_ok_def codec_simps split: prod.split)

lemma vote_response_inject [simp]: "encode_vote_response a = encode_vote_response b \<longleftrightarrow> a = b"
proof
  assume "encode_vote_response a = encode_vote_response b"
  from arg_cong [OF this, of vote_reply] show "a = b" by simp
qed simp

lemma vote_decision_ok:
  assumes nd: "node_ok m k V p nd" and i: "i < 2 ^ 32" and t: "t < 2 ^ 64" "t \<le> k"
    and r: "vote_decision cfg io now cid i t idx nd = (nd', granted)"
  shows "node_ok m (Suc k) V p nd' \<and> hard_le (hard_of (n_disk nd)) (hard_of (n_disk nd')) \<and>
    (granted \<longrightarrow> hard_of (n_disk nd') = (t, Some i))"
proof (cases "cid \<noteq> v_cluster_id cfg \<or> \<not> v_has_peers cfg \<or> \<not> v_is_controller cfg \<or>
    \<not> (t \<ge> n_epoch nd \<and> idx \<ge> n_leo nd)")
  case True
  then have "nd' = nd" "\<not> granted" using r by (auto simp: vote_decision_def split: if_splits)
  then show ?thesis using node_ok_mono [OF nd, of "Suc k" V] by simp
next
  case False
  obtain cd where v: "try_record_vote io now i t (n_ctl nd) (n_disk nd) = (cd, granted)"
    and nd': "nd' = (ctl_update cd nd)\<lparr>n_epoch := (if granted then t else n_epoch nd)\<rparr>"
    using r False by (auto simp: vote_decision_def ctl_update_def split: prod.splits if_splits)
  have ok: "ctl_ok (length (m_ids m)) p (n_ctl nd, n_disk nd)" "c_term (n_ctl nd) \<le> k"
    using nd by (auto simp: node_ok_def)
  note T = try_record_vote_ok [OF ok(1) i t(1) v]
  have "node_ok m (Suc k) V p (ctl_update cd nd)"
    using T ok(2) t(2) by (intro node_ok_ctl [OF nd]) auto
  then have "node_ok m (Suc k) V p nd'" by (simp add: nd')
  then show ?thesis using T by (simp add: nd' ctl_update_def)
qed

section \<open>The invariant of the cluster\<close>

lemma start_inv:
  assumes m: "membership_ok m" and s: "cluster_start m s"
  shows "cluster_inv m 0 s"
proof -
  have "node_ok m 0 {} i (cl_nodes s i)" if i: "i \<in> set (m_ids m)" for i
  proof -
    obtain st now nd where b: "st \<noteq> Candidate" "n_disk nd = None" "n_applied nd < 2 ^ 64"
      "boot m st now IoOk i nd = Some (cl_nodes s i)"
      using s i unfolding cluster_start_def by blast
    obtain c d where e: "enable_persistence IoOk (new_with_state i (cluster_size m i) st now) None = Some (c, d)"
      and nd: "cl_nodes s i = nd\<lparr>n_ctl := c, n_disk := d, n_epoch := c_term c, n_phase := Idle\<rparr>"
      using b(2,4) by (auto simp: boot_def split: option.splits)
    have "i < 2 ^ 32" "cluster_size m i = length (m_ids m)"
      using m i by (auto simp: membership_ok_def cluster_size_eq)
    with first_boot_ok [OF _ e] b show ?thesis
      by (simp add: nd node_ok_def phase_ok_def leader_ok_def)
  qed
  moreover have "votes_ok (hards s) {}" by (simp add: votes_ok_def)
  ultimately show ?thesis
    using s by (simp add: cluster_inv_def cluster_start_def requests_ok_def replies_ok_def)
qed

lemma begin_election_inv:
  assumes m: "membership_ok m" and inv: "cluster_inv m k s" and k: "Suc k < 2 ^ 64"
    and i: "i \<in> set (m_ids m)" and b: "begin_election io now (cl_nodes s i) = (nd, started)"
  shows "cluster_inv m (Suc k) ((put_node i nd s)
    \<lparr>cl_votes := (if started then insert (i, c_term (n_ctl nd), i) (cl_votes s) else cl_votes s)\<rparr>)"
proof -
  let ?nd = "cl_nodes s i"
  have ok: "node_ok m k (cl_votes s) i ?nd" using inv i by (simp add: cluster_inv_def)
  then have ctl: "ctl_ok (length (m_ids m)) i (n_ctl ?nd, n_disk ?nd)" "c_term (n_ctl ?nd) \<le> k"
    by (auto simp: node_ok_def)
  obtain cd where c: "check_election_timeout io now (n_ctl ?nd) (n_disk ?nd) = (cd, started)"
    and nd: "nd = (ctl_update cd ?nd)\<lparr>n_phase := (if started then Started else Idle)\<rparr>"
    using b by (auto simp: begin_election_def split: prod.splits)
  have "i < 2 ^ 32" using m i by (simp add: membership_ok_def)
  from check_election_timeout_ok [OF ctl(1) this _ c] ctl(2) k
  have C: "ctl_ok (length (m_ids m)) i cd" "hard_le (hard_of (n_disk ?nd)) (hard_of (snd cd))"
    "c_term (fst cd) \<le> c_term (n_ctl ?nd) + 1"
    "if started then c_state (fst cd) = Candidate \<and> \<not> c_failed (fst cd) \<and>
       hard_of (snd cd) = (c_term (fst cd), Some i)
     else cd = (n_ctl ?nd, n_disk ?nd) \<or> c_state (fst cd) = Follower"
    by auto
  let ?V = "if started then insert (i, c_term (n_ctl nd), i) (cl_votes s) else cl_votes s"
  have "node_ok m (Suc k) ?V i nd"
  proof (cases started)
    case True
    with C ctl(2) ok show ?thesis
      by (simp add: nd ctl_update_def node_ok_def phase_ok_def leader_ok_def)
  next
    case False
    then have "node_ok m (Suc k) (cl_votes s) i (ctl_update cd ?nd)"
      using C ctl(2) by (intro node_ok_ctl [OF ok]) auto
    with False show ?thesis by (simp add: nd node_ok_def phase_ok_def leader_ok_def)
  qed
  moreover have "votes_ok ((hards s)(i := hard_of (n_disk nd))) ?V"
  proof -
    have "votes_ok ((hards s)(i := hard_of (n_disk nd))) (cl_votes s)"
      using inv C(2) by (intro votes_ok_step) (auto simp: cluster_inv_def hards_def nd ctl_update_def)
    then show ?thesis
      using C(4) by (auto simp: nd ctl_update_def intro!: votes_ok_vote)
  qed
  moreover have "replies_ok ?V (cl_replies s)"
    using inv by (auto simp: cluster_inv_def replies_ok_def)
  moreover have "cl_votes s \<subseteq> ?V" by auto
  ultimately have "cluster_inv m (Suc k) ((put_node i nd s)\<lparr>cl_votes := ?V, cl_replies := cl_replies s\<rparr>)"
    by (intro cluster_inv_put [OF inv])
  then show ?thesis by (simp add: put_node_def)
qed

lemma deliver_inv:
  assumes m: "membership_ok m" and inv: "cluster_inv m k s" and k: "Suc k < 2 ^ 64"
    and p: "p \<in> set (m_ids m)" and q: "(i, t, p, payload) \<in> cl_requests s"
    and h: "handle_vote_request (config_of m p) io now payload (cl_nodes s p) = Inr (nd, reply)"
  shows "cluster_inv m (Suc k) ((put_node p nd s)
    \<lparr>cl_votes := (if reply = encode_vote_response True then insert (p, t, i) (cl_votes s) else cl_votes s),
     cl_replies := insert (p, i, t, reply) (cl_replies s)\<rparr>)"
proof -
  let ?nd = "cl_nodes s p"
  have ok: "node_ok m k (cl_votes s) p ?nd" using inv p by (simp add: cluster_inv_def)
  from inv q obtain idx where i: "i \<in> set (m_ids m)" "t \<le> k" "idx < 2 ^ 64"
    and pl: "payload = vote_payload (m_cluster_id m) i t idx"
    unfolding cluster_inv_def requests_ok_def by blast
  have b: "i < 2 ^ 32" "t < 2 ^ 64" using m i k by (auto simp: membership_ok_def)
  obtain granted where d: "vote_decision (config_of m p) io now (m_cluster_id m) i t idx ?nd = (nd, granted)"
    and reply: "reply = encode_vote_response granted"
    using h handle_vote_payload [OF m b i(3), of "config_of m p" io now ?nd]
    by (auto simp: pl split: prod.splits)
  note D = vote_decision_ok [OF ok b i(2) d]
  let ?V = "if reply = encode_vote_response True then insert (p, t, i) (cl_votes s) else cl_votes s"
  have "votes_ok ((hards s)(p := hard_of (n_disk nd))) (cl_votes s)"
    using inv D by (intro votes_ok_step) (auto simp: cluster_inv_def hards_def)
  then have v: "votes_ok ((hards s)(p := hard_of (n_disk nd))) ?V"
    using D by (auto simp: reply intro!: votes_ok_vote)
  have r: "replies_ok ?V (insert (p, i, t, reply) (cl_replies s))"
    using inv by (auto simp: cluster_inv_def replies_ok_def reply)
  have sub: "cl_votes s \<subseteq> ?V" by auto
  have "node_ok m (Suc k) ?V p nd"
    using D by (blast intro: node_ok_mono [OF _ order_refl sub])
  then show ?thesis by (rule cluster_inv_put [OF inv _ sub v r])
qed

lemma send_inv:
  assumes inv: "cluster_inv m k s" and i: "i \<in> set (m_ids m)" and t: "t \<le> k" "idx < 2 ^ 64"
  shows "cluster_inv m (Suc k) (s\<lparr>cl_requests :=
    insert (i, t, p, vote_payload (m_cluster_id m) i t idx) (cl_requests s)\<rparr>)"
proof -
  have "requests_ok m (Suc k) (cl_requests s)"
    using inv unfolding cluster_inv_def requests_ok_def by (meson le_SucI)
  moreover have "\<exists>x < 2 ^ 64. vote_payload (m_cluster_id m) i t idx = vote_payload (m_cluster_id m) i t x"
    using t(2) by blast
  ultimately have "requests_ok m (Suc k)
      (insert (i, t, p, vote_payload (m_cluster_id m) i t idx) (cl_requests s))"
    using i t(1) by (auto simp: requests_ok_def)
  moreover have "hards (s\<lparr>cl_requests := R\<rparr>) = hards s" for R by (rule ext) (simp add: hards_def)
  ultimately show ?thesis
    using inv by (auto simp: cluster_inv_def intro: node_ok_mono [of m k "cl_votes s"])
qed

lemma finish_election_ok:
  assumes m: "distinct (m_ids m)" "i \<in> set (m_ids m)"
    and ok: "node_ok m k V i nd" and p: "n_phase nd = Collecting t idx [] vs"
  shows "node_ok m (Suc k) V i (finish_election t vs nd)"
proof -
  have ctl: "c_cluster_size (n_ctl nd) = length (m_ids m)"
    using ok by (simp add: node_ok_def ctl_ok_def Let_def)
  show ?thesis
  proof (cases "\<not> c_failed (n_ctl nd) \<and> c_state (n_ctl nd) = Candidate \<and>
      length (m_ids m) div 2 + 1 \<le> 1 + length vs")
    case True
    then have f: "finish_election t vs nd = nd\<lparr>n_ctl := (n_ctl nd)\<lparr>c_state := Leader\<rparr>, n_epoch := t,
        n_phase := Idle\<rparr>"
      by (simp add: finish_election_def tally_election_votes_def ctl)
    have ph: "distinct vs" "set vs \<subseteq> set (m_ids m) - {i}" "\<forall>v\<in>set vs. (v, t, i) \<in> V"
      "t = c_term (n_ctl nd)" "(i, t, i) \<in> V"
      using ok p True by (auto simp: node_ok_def phase_ok_def)
    have "card (insert i (set vs)) = 1 + length vs"
      using ph(1,2) by (subst card_insert_disjoint) (auto simp: distinct_card)
    then have "\<exists>W. W \<subseteq> set (m_ids m) \<and> length (m_ids m) div 2 + 1 \<le> card W \<and> (\<forall>v\<in>W. (v, c_term (n_ctl nd), i) \<in> V)"
      using ph m True by (intro exI [of _ "insert i (set vs)"]) auto
    then show ?thesis
      using ok by (simp add: f node_ok_def phase_ok_def leader_ok_def ctl_ok_def Let_def)
  next
    case False
    then have f: "finish_election t vs nd = nd\<lparr>n_phase := Idle\<rparr>"
      by (auto simp: finish_election_def tally_election_votes_def ctl)
    show ?thesis using ok by (simp add: f node_ok_def phase_ok_def leader_ok_def)
  qed
qed

lemma cluster_inv_step:
  assumes m: "membership_ok m" and k: "Suc k < 2 ^ 64" and inv: "cluster_inv m k s"
    and st: "cluster_step m s s'"
  shows "cluster_inv m (Suc k) s'"
proof -
  have node: "node_ok m k (cl_votes s) i (cl_nodes s i)" if "i \<in> set (m_ids m)" for i
    using inv that by (simp add: cluster_inv_def)
  have ctl: "ctl_ok (length (m_ids m)) i (n_ctl (cl_nodes s i), n_disk (cl_nodes s i))"
    "c_term (n_ctl (cl_nodes s i)) \<le> k" if "i \<in> set (m_ids m)" for i
    using node [OF that] by (auto simp: node_ok_def)
  from st show ?thesis
  proof cases
    case (timeout i io now nd started)
    then show ?thesis using begin_election_inv [OF m inv k timeout(2,4)] by simp
  next
    case (read_new_term i)
    have "node_ok m (Suc k) (cl_votes s) i (read_term m i (cl_nodes s i))"
      using node [OF read_new_term(2)] read_new_term m
      by (auto simp: read_term_def node_ok_def phase_ok_def leader_ok_def Let_def membership_ok_def peers_def)
    then show ?thesis
      using cluster_inv_quiet [OF inv read_new_term(2)] read_new_term by (simp add: read_term_def Let_def)
  next
    case (send i t idx p ps vs)
    have "t \<le> k" "idx < 2 ^ 64" using node [OF send(2)] send by (auto simp: node_ok_def phase_ok_def)
    from send_inv [OF inv send(2) this] send(1) show ?thesis by simp
  next
    case (deliver p i t payload io now nd reply)
    then show ?thesis using deliver_inv [OF m inv k deliver(2,3,4)] by simp
  next
    case (collect i t idx p ps vs reply granted)
    have "(p, t, i) \<in> cl_votes s" if granted
      using inv collect that by (auto simp: cluster_inv_def replies_ok_def)
    then have "node_ok m (Suc k) (cl_votes s) i ((cl_nodes s i)
        \<lparr>n_phase := Collecting t idx ps (if granted then p # vs else vs)\<rparr>)"
      using node [OF collect(2)] collect
      by (auto simp: node_ok_def phase_ok_def leader_ok_def)
    then show ?thesis using cluster_inv_quiet [OF inv collect(2)] collect by simp
  next
    case (no_reply i t idx p ps vs)
    have "node_ok m (Suc k) (cl_votes s) i ((cl_nodes s i)\<lparr>n_phase := Collecting t idx ps vs\<rparr>)"
      using node [OF no_reply(2)] no_reply by (auto simp: node_ok_def phase_ok_def leader_ok_def)
    then show ?thesis using cluster_inv_quiet [OF inv no_reply(2)] no_reply by simp
  next
    case (tally i t idx vs)
    have "node_ok m (Suc k) (cl_votes s) i (finish_election t vs (cl_nodes s i))"
      using m tally by (intro finish_election_ok [OF _ tally(2) node [OF tally(2)]]) (auto simp: membership_ok_def)
    moreover have "n_disk (finish_election t vs (cl_nodes s i)) = n_disk (cl_nodes s i)"
      by (simp add: finish_election_def split: prod.split)
    ultimately show ?thesis using cluster_inv_quiet [OF inv tally(2)] tally(1) by simp
  next
    case (step_down i seen io now)
    define cd where "cd = step_down_to_follower io now (add64 seen 1) (n_ctl (cl_nodes s i)) (n_disk (cl_nodes s i))"
    have lt: "seen + 1 < 2 ^ 64" using step_down(3) ctl(2) [OF step_down(2)] k by simp
    note e = add64_exact [OF lt] lt
    from step_down_ok [OF ctl(1) [OF step_down(2)] _ cd_def [symmetric]] e
    have S: "ctl_ok (length (m_ids m)) i cd" "hard_le (hard_of (n_disk (cl_nodes s i))) (hard_of (snd cd))"
      "c_term (fst cd) \<le> max (c_term (n_ctl (cl_nodes s i))) (seen + 1)"
      "c_state (fst cd) \<noteq> Follower \<longrightarrow> c_state (fst cd) = c_state (n_ctl (cl_nodes s i)) \<and>
        c_term (fst cd) = c_term (n_ctl (cl_nodes s i))" by simp_all
    have "node_ok m (Suc k) (cl_votes s) i (ctl_update cd (cl_nodes s i))"
      using S step_down(3) ctl(2) [OF step_down(2)]
      by (intro node_ok_ctl [OF node [OF step_down(2)]]) auto
    from cluster_inv_quiet [OF inv step_down(2) this] S(2)
    have "cluster_inv m (Suc k) (put_node i (ctl_update cd (cl_nodes s i)) s)"
      by (simp add: ctl_update_def)
    then show ?thesis unfolding step_down(1) cd_def .
  next
    case (heartbeat i j t io now cd ok)
    have t: "t \<le> k" using heartbeat(4) ctl(2) [OF heartbeat(3)] by simp
    then have "t < 2 ^ 64" using k by simp
    note H = heartbeat_ok [OF ctl(1) [OF heartbeat(2)] this heartbeat(5)]
    have "node_ok m (Suc k) (cl_votes s) i (ctl_update cd (cl_nodes s i))"
      using H t ctl(2) [OF heartbeat(2)] by (intro node_ok_ctl [OF node [OF heartbeat(2)]]) auto
    then show ?thesis
      using cluster_inv_quiet [OF inv heartbeat(2)] H heartbeat(1) by (simp add: ctl_update_def)
  next
    case (crash i st now io nd)
    obtain c d where e: "enable_persistence io (new_with_state i (length (m_ids m)) st now) (n_disk (cl_nodes s i)) = Some (c, d)"
      and nd: "nd = (cl_nodes s i)\<lparr>n_ctl := c, n_disk := d, n_epoch := c_term c, n_phase := Idle\<rparr>"
      using crash m by (auto simp: boot_def membership_ok_def cluster_size_eq split: option.splits)
    note E = enable_persistence_ok [OF ctl(1) [OF crash(2)] crash(3) e]
    have "node_ok m (Suc k) (cl_votes s) i nd"
      using E ctl(2) [OF crash(2)] node [OF crash(2)]
      by (auto simp: nd node_ok_def phase_ok_def leader_ok_def split: if_splits)
    then show ?thesis
      using cluster_inv_quiet [OF inv crash(2)] E crash(1) by (simp add: nd)
  next
    case (log_moves i leo applied)
    have "node_ok m (Suc k) (cl_votes s) i ((cl_nodes s i)\<lparr>n_leo := leo, n_applied := applied\<rparr>)"
      using node [OF log_moves(2)] log_moves(4)
      by (auto simp: node_ok_def phase_ok_def leader_ok_def split: phase.splits)
    then show ?thesis using cluster_inv_quiet [OF inv log_moves(2)] log_moves(1) by simp
  next
    case (epoch_moves i e)
    have "node_ok m (Suc k) (cl_votes s) i ((cl_nodes s i)\<lparr>n_epoch := e\<rparr>)"
      using node_ok_mono [OF node [OF epoch_moves(2)], of "Suc k"] by simp
    then show ?thesis using cluster_inv_quiet [OF inv epoch_moves(2)] epoch_moves(1) by simp
  qed
qed

lemma cluster_reach_inv:
  "cluster_reach m k s \<Longrightarrow> membership_ok m \<Longrightarrow> k < 2 ^ 64 \<Longrightarrow> cluster_inv m k s"
proof (induction rule: cluster_reach.induct)
  case (start s)
  then show ?case by (simp add: start_inv)
next
  case (step k s s')
  then show ?case by (intro cluster_inv_step [of m k s s']) simp_all
qed

section \<open>An election in a cluster of one controller\<close>

definition solo :: membership where
  "solo = \<lparr>m_ids = [7], m_cluster_id = ''c''\<rparr>"

definition solo_node :: node where
  "solo_node = \<lparr>n_ctl = (new_with_state 7 1 Follower 0)\<lparr>c_has_path := True\<rparr>,
     n_disk = Some (hard_state (new_with_state 7 1 Follower 0)),
     n_epoch = 0, n_leo = 0, n_applied = 0, n_phase = Idle\<rparr>"

definition solo_start :: cluster where
  "solo_start = \<lparr>cl_nodes = (\<lambda>_. solo_node), cl_requests = {}, cl_replies = {}, cl_votes = {}\<rparr>"

definition solo_leader :: node where
  "solo_leader = finish_election 1 []
     (read_term solo 7 (fst (begin_election IoOk 2200 solo_node)))"

lemma solo_begin:
  "snd (begin_election IoOk 2200 solo_node)" "n_phase (fst (begin_election IoOk 2200 solo_node)) = Started"
  "c_term (n_ctl (fst (begin_election IoOk 2200 solo_node))) = 1"
  "peers solo 7 = []" "n_applied (fst (begin_election IoOk 2200 solo_node)) = 0"
  by (simp_all add: begin_election_def solo_node_def check_election_timeout_def new_with_state_def
      persist_or_demote_def persist_def durable_replace_def ctl_update_def add64_def Let_def peers_def solo_def)

lemma solo_leader:
  "c_state (n_ctl solo_leader) = Leader" "c_term (n_ctl solo_leader) = 1"
  by (simp_all add: solo_leader_def finish_election_def tally_election_votes_def read_term_def
      begin_election_def solo_node_def check_election_timeout_def new_with_state_def
      persist_or_demote_def persist_def durable_replace_def ctl_update_def add64_def Let_def)

lemma solo_ok: "membership_ok solo"
  by (simp add: membership_ok_def solo_def pascal_ok_def)

lemma solo_reach:
  "\<exists>s. cluster_reach solo 3 s \<and> cl_nodes s 7 = solo_leader \<and> (7, 1, 7) \<in> cl_votes s"
proof -
  let ?b = "begin_election IoOk 2200 solo_node"
  let ?n1 = "fst ?b"
  let ?n2 = "read_term solo 7 ?n1"
  have "cluster_start solo solo_start"
    unfolding cluster_start_def
  proof (intro conjI ballI)
    fix i assume "i \<in> set (m_ids solo)"
    then have "i = 7" by (simp add: solo_def)
    then show "\<exists>st now nd. st \<noteq> Candidate \<and> n_disk nd = None \<and> n_leo nd < 2 ^ 64 \<and>
        n_applied nd < 2 ^ 64 \<and> boot solo st now IoOk i nd = Some (cl_nodes solo_start i)"
      by (intro exI [of _ Follower] exI [of _ 0] exI [of _ "solo_node\<lparr>n_disk := None\<rparr>"])
        (simp add: solo_node_def solo_start_def boot_def enable_persistence_def persist_def
          durable_replace_def new_with_state_def cluster_size_def peers_def solo_def Let_def hard_state_def)
  qed (simp_all add: solo_start_def)
  then have r0: "cluster_reach solo 0 solo_start" by (rule cluster_reach.start)
  define s1 where "s1 = (put_node 7 ?n1 solo_start)\<lparr>cl_votes := {(7, 1, 7)}\<rparr>"
  have "cluster_step solo solo_start ((put_node 7 ?n1 solo_start)
      \<lparr>cl_votes := (if True then insert (7, c_term (n_ctl ?n1), 7) (cl_votes solo_start) else cl_votes solo_start)\<rparr>)"
    by (rule cluster_step.timeout [of 7 _ _ IoOk 2200])
      (use solo_begin(1) in \<open>simp_all add: solo_def solo_start_def solo_node_def prod_eq_iff\<close>)
  then have r1: "cluster_reach solo 1 s1"
    using cluster_reach.step [OF r0] by (simp add: s1_def solo_begin solo_start_def)
  define s2 where "s2 = put_node 7 ?n2 s1"
  have "cluster_step solo s1 (put_node 7 (read_term solo 7 (cl_nodes s1 7)) s1)"
    by (rule cluster_step.read_new_term) (simp_all add: solo_def s1_def put_node_def solo_begin)
  then have r2: "cluster_reach solo 2 s2"
    using cluster_reach.step [OF r1] by (simp add: s2_def s1_def put_node_def numeral_2_eq_2)
  have "n_phase (cl_nodes s2 7) = Collecting 1 0 [] []"
    by (simp add: s2_def put_node_def read_term_def Let_def solo_begin)
  then have "cluster_step solo s2 (put_node 7 (finish_election 1 [] (cl_nodes s2 7)) s2)"
    by (intro cluster_step.tally) (simp_all add: solo_def)
  then have "cluster_reach solo 3 (put_node 7 (finish_election 1 [] (cl_nodes s2 7)) s2)"
    using cluster_reach.step [OF r2] by (simp add: numeral_3_eq_3 numeral_2_eq_2)
  then show ?thesis
    by (intro exI [of _ "put_node 7 (finish_election 1 [] (cl_nodes s2 7)) s2"])
      (simp add: s2_def s1_def put_node_def solo_leader_def)
qed

section \<open>Properties\<close>

text \<open>C1 Election safety: whatever the interleaving of timeouts, requests, late or repeated
  replies, failed hard-state writes, step-downs, crashes and restarts, two nodes that are
  leader of the same elected term are the same node.\<close>

theorem election_safety:
  assumes "membership_ok m" "cluster_reach m k s" "k < 2 ^ 64"
    and "i \<in> set (m_ids m)" "j \<in> set (m_ids m)"
    and "c_state (n_ctl (cl_nodes s i)) = Leader" "c_state (n_ctl (cl_nodes s j)) = Leader"
    and "c_term (n_ctl (cl_nodes s i)) = t" "c_term (n_ctl (cl_nodes s j)) = t" "0 < t"
  shows "i = j"
proof -
  have inv: "cluster_inv m k s" using cluster_reach_inv assms(1-3) by blast
  have d: "distinct (m_ids m)" using assms(1) by (simp add: membership_ok_def)
  have L: "leader_ok m (cl_votes s) i (cl_nodes s i)" "leader_ok m (cl_votes s) j (cl_nodes s j)"
    using inv assms(4,5) by (auto simp: cluster_inv_def node_ok_def)
  show ?thesis
  proof (cases "length (m_ids m) = 1")
    case True
    then show ?thesis using assms(4,5) by (auto simp: length_Suc_conv)
  next
    case False
    obtain W where W: "W \<subseteq> set (m_ids m)" "length (m_ids m) div 2 + 1 \<le> card W" "\<forall>v\<in>W. (v, t, i) \<in> cl_votes s"
      using L(1) False assms by (auto simp: leader_ok_def)
    obtain U where U: "U \<subseteq> set (m_ids m)" "length (m_ids m) div 2 + 1 \<le> card U" "\<forall>v\<in>U. (v, t, j) \<in> cl_votes s"
      using L(2) False assms by (auto simp: leader_ok_def)
    have "card (W \<union> U) \<le> length (m_ids m)"
      using W(1) U(1) d by (metis Un_least card_mono distinct_card finite_set)
    moreover have "card (W \<union> U) + card (W \<inter> U) = card W + card U"
      using W(1) U(1) by (metis card_Un_Int finite_set finite_subset)
    ultimately have "card (W \<inter> U) \<noteq> 0" using W(2) U(2) by linarith
    then have "W \<inter> U \<noteq> {}" by auto
    then obtain v where "v \<in> W" "v \<in> U" by blast
    then show ?thesis using W(3) U(3) inv unfolding cluster_inv_def votes_ok_def by blast
  qed
qed

theorem election_safety_witness:
  "\<exists>s. membership_ok solo \<and> cluster_reach solo 3 s \<and> c_state (n_ctl (cl_nodes s 7)) = Leader \<and>
    c_term (n_ctl (cl_nodes s 7)) = 1 \<and>
    (\<forall>j\<in>set (m_ids solo). c_state (n_ctl (cl_nodes s j)) = Leader \<longrightarrow> c_term (n_ctl (cl_nodes s j)) = 1 \<longrightarrow> j = 7)"
proof -
  obtain s where s: "cluster_reach solo 3 s" "cl_nodes s 7 = solo_leader" using solo_reach by blast
  have L: "c_state (n_ctl (cl_nodes s 7)) = Leader" "c_term (n_ctl (cl_nodes s 7)) = 1"
    using s(2) solo_leader by simp_all
  have "j = 7" if "j \<in> set (m_ids solo)" "c_state (n_ctl (cl_nodes s j)) = Leader"
    "c_term (n_ctl (cl_nodes s j)) = 1" for j
    by (rule election_safety [OF solo_ok s(1) _ that(1) _ that(2) L(1) that(3) L(2)])
      (simp_all add: solo_def)
  with s(1) L solo_ok show ?thesis by blast
qed

text \<open>C15 One vote per term, for ever: the votes given in the whole history, over crashes and
  failed writes, never include two candidates from one voter in one term, and the voter's file
  remembers the last of them.\<close>

theorem votes_never_contradict:
  assumes "membership_ok m" "cluster_reach m k s" "k < 2 ^ 64"
    and "(v, t, c) \<in> cl_votes s"
  shows "((v, t, c') \<in> cl_votes s \<longrightarrow> c' = c) \<and>
    (t < fst (hard_of (n_disk (cl_nodes s v))) \<or> hard_of (n_disk (cl_nodes s v)) = (t, Some c))"
proof -
  have "votes_ok (hards s) (cl_votes s)"
    using cluster_reach_inv [OF assms(2,1,3)] by (simp add: cluster_inv_def)
  with assms(4) show ?thesis
    unfolding votes_ok_def hards_def by (metis le_neq_implies_less prod.collapse)
qed

theorem votes_never_contradict_witness:
  "\<exists>s. cluster_reach solo 3 s \<and> (7, 1, 7) \<in> cl_votes s \<and> (7, 1, 2) \<notin> cl_votes s"
proof -
  obtain s where s: "cluster_reach solo 3 s" "(7, 1, 7) \<in> cl_votes s" using solo_reach by blast
  with votes_never_contradict [OF solo_ok s(1) _ s(2), of 2] show ?thesis by auto
qed

text \<open>What is written is what a restart reads: the hard state of a controller survives the
  file and comes back as a follower's term and vote (a single-controller cluster comes back as
  its leader).\<close>

theorem hard_state_roundtrip:
  assumes "c_term c < 2 ^ 64" "\<forall>t v. c_voted_for c = Some (t, v) \<longrightarrow> t = c_term c \<and> v < 2 ^ 32"
    and "cluster \<noteq> 1"
  shows "\<exists>c'. enable_persistence IoOk (new_with_state node cluster st now) (Some (hard_state c)) =
      Some (c', Some (hard_state c)) \<and>
    c_term c' = c_term c \<and> c_voted_for c' = c_voted_for c \<and> c_state c' = Follower \<and> \<not> c_failed c'"
proof -
  let ?bs = "hard_state c"
  have h: "be_val (take 8 ?bs) = c_term c"
    "(if ?bs ! 8 = 1 then Some (be_val (drop 9 ?bs)) else None) = map_option snd (c_voted_for c)"
    using hard_of_hard_state [OF assms(1,2)] by (simp_all add: hard_of_def)
  have flag: "unat (?bs ! 8) \<le> 1" by (simp add: hard_state_flag)
  have v: "(if ?bs ! 8 = 1 then Some (c_term c, be_val (drop 9 ?bs)) else None) = c_voted_for c"
    using h(2) assms(2) by (cases "c_voted_for c") (auto split: if_splits)
  show ?thesis
    using flag assms(3)
    by (simp add: enable_persistence_def h(1) v new_with_state_def persist_def durable_replace_def Let_def)
      (simp add: hard_state_def)
qed

theorem hard_state_roundtrip_witness:
  "\<exists>c'. enable_persistence IoOk (new_with_state 2 3 Leader 0)
      (Some (hard_state ((new_with_state 2 3 Follower 0)\<lparr>c_term := 7, c_voted_for := Some (7, 3)\<rparr>))) =
      Some (c', Some (hard_state ((new_with_state 2 3 Follower 0)\<lparr>c_term := 7, c_voted_for := Some (7, 3)\<rparr>))) \<and>
    c_term c' = 7 \<and> c_voted_for c' = Some (7, 3) \<and> c_state c' = Follower"
  using hard_state_roundtrip [of "(new_with_state 2 3 Follower 0)\<lparr>c_term := 7, c_voted_for := Some (7, 3)\<rparr>" 3 2 Leader 0]
  by auto

section \<open>Limits of the code\<close>

text \<open>
  A candidate sends the index up to which it has applied committed metadata; a voter compares
  it with the end of its own log, committed or not. When every controller holds a record that
  was pushed but not committed before the leader was lost, every request is refused: no
  controller can win, although the logs are equal.
\<close>

lemma uncommitted_tail_blocks_votes:
  assumes "n_applied cand < n_leo voter"
  shows "vote_decision cfg io now cluster i t (n_applied cand) voter = (voter, False)"
  using assms by (simp add: vote_decision_def)

end
