(* ===== verification/Election_Progress.thy ===== *)
theory Election_Progress
  imports Consensus
begin

text \<open>
  Progress of elections (\<open>start_election_timeout_loop\<close> of \<^verbatim>\<open>src/replication/mod.rs\<close> with
  the vote handler and \<^verbatim>\<open>src/replication/consensus.rs\<close>): from every state a cluster can
  get into, crashes and failed writes included, a controller that is waiting can become the
  leader of the next term as soon as a majority with it is willing to vote.
\<close>

section \<open>One vote\<close>

text \<open>What makes a controller give its vote for a term to a candidate with a given log index.\<close>

definition willing :: "nat \<Rightarrow> nat \<Rightarrow> node \<Rightarrow> bool" where
  "willing t idx nd \<longleftrightarrow>
     \<not> c_failed (n_ctl nd) \<and> c_term (n_ctl nd) < t \<and> n_epoch nd \<le> t \<and> n_leo nd \<le> idx"

lemma persist_or_demote_IoOk [simp]:
  "persist_or_demote IoOk c d = ((c, if c_has_path c then Some (hard_state c) else d), True)"
  by (simp add: persist_or_demote_def persist_def durable_replace_def)

lemma willing_grants:
  assumes "willing t idx nd" "v_has_peers cfg" "v_is_controller cfg"
  shows "snd (vote_decision cfg IoOk now (v_cluster_id cfg) i t idx nd)"
  using assms by (simp add: vote_decision_def willing_def try_record_vote_def Let_def)

lemma ask_willing:
  assumes m: "membership_ok m" and i: "i \<in> set (m_ids m)" and p: "p \<in> set (m_ids m)" "p \<noteq> i"
    and b: "t < 2 ^ 64" "idx < 2 ^ 64"
    and ph: "n_phase (cl_nodes s i) = Collecting t idx (p # ps) vs"
    and w: "willing t idx (cl_nodes s p)"
  shows "\<exists>s'. (cluster_step m)\<^sup>*\<^sup>* s s' \<and>
    cl_nodes s' i = (cl_nodes s i)\<lparr>n_phase := Collecting t idx ps (p # vs)\<rparr> \<and>
    (\<forall>q. q \<noteq> p \<longrightarrow> q \<noteq> i \<longrightarrow> cl_nodes s' q = cl_nodes s q)"
proof -
  let ?pl = "vote_payload (m_cluster_id m) i t idx"
  let ?dec = "vote_decision (config_of m p) IoOk 0 (m_cluster_id m) i t idx (cl_nodes s p)"
  define s1 where "s1 = s\<lparr>cl_requests := insert (i, t, p, ?pl) (cl_requests s)\<rparr>"
  have one: "cluster_step m s s1" unfolding s1_def by (rule cluster_step.send [OF i ph])
  have i32: "i < 2 ^ 32" using m i by (simp add: membership_ok_def)
  have "i \<in> set (peers m p)" using i p by (simp add: peers_def)
  then have "peers m p \<noteq> []" by auto
  then have "snd ?dec"
    using willing_grants [OF w, of "config_of m p" 0 i] by (simp add: config_of_def)
  then have "handle_vote_request (config_of m p) IoOk 0 ?pl (cl_nodes s1 p) =
      Inr (fst ?dec, encode_vote_response True)"
    using m b i32 by (subst (1) handle_vote_request_def)
      (simp add: s1_def vote_payload_def membership_ok_def codec_simps case_prod_beta \<open>snd ?dec\<close>)
  then have two: "cluster_step m s1 ((put_node p (fst ?dec) s1)
      \<lparr>cl_votes := (if encode_vote_response True = encode_vote_response True
                    then insert (p, t, i) (cl_votes s1) else cl_votes s1),
       cl_replies := insert (p, i, t, encode_vote_response True) (cl_replies s1)\<rparr>)"
    (is "cluster_step m s1 ?s2")
    by (rule cluster_step.deliver [OF p(1), of i t ?pl, rotated]) (simp add: s1_def)
  have n2: "cl_nodes ?s2 i = cl_nodes s i" using p by (simp add: put_node_def s1_def)
  have three: "cluster_step m ?s2 (put_node i ((cl_nodes ?s2 i)
      \<lparr>n_phase := Collecting t idx ps (if True then p # vs else vs)\<rparr>) ?s2)"
    (is "cluster_step m ?s2 ?s3")
    by (rule cluster_step.collect [OF i _ _ vote_reply_encode, of _ t idx p ps vs])
      (use n2 ph in simp_all)
  have "(cluster_step m)\<^sup>*\<^sup>* s ?s3"
    using one two three by (meson converse_rtranclp_into_rtranclp rtranclp.rtrancl_refl)
  moreover have "cl_nodes ?s3 i = (cl_nodes s i)\<lparr>n_phase := Collecting t idx ps (p # vs)\<rparr>"
    using n2 by (simp add: put_node_def)
  moreover have "\<forall>q. q \<noteq> p \<longrightarrow> q \<noteq> i \<longrightarrow> cl_nodes ?s3 q = cl_nodes s q"
    by (simp add: put_node_def s1_def)
  ultimately show ?thesis by blast
qed

section \<open>Collecting the votes\<close>

lemma collect_votes:
  assumes "membership_ok m" "i \<in> set (m_ids m)" "t < 2 ^ 64" "idx < 2 ^ 64"
    and "n_phase (cl_nodes s i) = Collecting t idx ps vs"
    and "set ps \<subseteq> set (m_ids m)" "i \<notin> set ps" "distinct ps"
  shows "\<exists>s' vs'. (cluster_step m)\<^sup>*\<^sup>* s s' \<and>
    cl_nodes s' i = (cl_nodes s i)\<lparr>n_phase := Collecting t idx [] vs'\<rparr> \<and>
    length vs + length (filter (\<lambda>p. willing t idx (cl_nodes s p)) ps) \<le> length vs'"
  using assms(5-8)
proof (induction ps arbitrary: s vs)
  case Nil
  show ?case by (intro exI [of _ s] exI [of _ vs]) (use Nil in simp)
next
  case (Cons p ps)
  have p: "p \<in> set (m_ids m)" "p \<noteq> i" using Cons.prems by auto
  define granted where "granted = willing t idx (cl_nodes s p)"
  obtain s1 where s1: "(cluster_step m)\<^sup>*\<^sup>* s s1"
    "cl_nodes s1 i = (cl_nodes s i)\<lparr>n_phase := Collecting t idx ps (if granted then p # vs else vs)\<rparr>"
    "\<forall>q. q \<noteq> p \<longrightarrow> q \<noteq> i \<longrightarrow> cl_nodes s1 q = cl_nodes s q"
  proof (cases granted)
    case True
    then show ?thesis
      using ask_willing [OF assms(1,2) p assms(3,4) Cons.prems(1)] that by (auto simp: granted_def)
  next
    case False
    have "cluster_step m s (put_node i ((cl_nodes s i)\<lparr>n_phase := Collecting t idx ps vs\<rparr>) s)"
      by (rule cluster_step.no_reply [OF assms(2) Cons.prems(1)])
    then show ?thesis using False
      by (intro that [OF r_into_rtranclp]) (auto simp: put_node_def)
  qed
  have same: "filter (\<lambda>p. willing t idx (cl_nodes s1 p)) ps = filter (\<lambda>p. willing t idx (cl_nodes s p)) ps"
    using s1(3) Cons.prems by (intro filter_cong refl) (metis distinct.simps(2) list.set_intros(2))
  have ph: "n_phase (cl_nodes s1 i) = Collecting t idx ps (if granted then p # vs else vs)"
    by (simp add: s1(2))
  from Cons.IH [OF ph] Cons.prems obtain s' vs' where s': "(cluster_step m)\<^sup>*\<^sup>* s1 s'"
    "cl_nodes s' i = (cl_nodes s1 i)\<lparr>n_phase := Collecting t idx [] vs'\<rparr>"
    "length (if granted then p # vs else vs) +
       length (filter (\<lambda>p. willing t idx (cl_nodes s1 p)) ps) \<le> length vs'"
    by auto
  have "(cluster_step m)\<^sup>*\<^sup>* s s'" using s1(1) s'(1) by (rule rtranclp_trans)
  moreover have "cl_nodes s' i = (cl_nodes s i)\<lparr>n_phase := Collecting t idx [] vs'\<rparr>"
    by (simp add: s'(2) s1(2))
  moreover have "length vs + length (filter (\<lambda>p. willing t idx (cl_nodes s p)) (p # ps)) \<le> length vs'"
    using s'(3) unfolding same by (simp add: granted_def split: if_splits)
  ultimately show ?case by blast
qed

section \<open>A whole election\<close>

lemma start_collecting:
  assumes i: "i \<in> set (m_ids m)" and idle: "n_phase (cl_nodes s i) = Idle"
    and c: "\<not> c_failed (n_ctl (cl_nodes s i))" "c_state (n_ctl (cl_nodes s i)) \<noteq> Leader"
    and t: "Suc (c_term (n_ctl (cl_nodes s i))) < 2 ^ 64"
  shows "\<exists>s' c'. (cluster_step m)\<^sup>*\<^sup>* s s' \<and> n_ctl (cl_nodes s' i) = c' \<and>
    c_state c' = Candidate \<and> c_term c' = Suc (c_term (n_ctl (cl_nodes s i))) \<and> \<not> c_failed c' \<and>
    c_cluster_size c' = c_cluster_size (n_ctl (cl_nodes s i)) \<and>
    n_phase (cl_nodes s' i) = Collecting (Suc (c_term (n_ctl (cl_nodes s i))))
      (n_applied (cl_nodes s i)) (peers m i) [] \<and>
    (\<forall>q. q \<noteq> i \<longrightarrow> cl_nodes s' q = cl_nodes s q)"
proof -
  let ?nd = "cl_nodes s i"
  let ?now = "c_last_heartbeat (n_ctl ?nd) + c_election_timeout (n_ctl ?nd)"
  let ?b = "begin_election IoOk ?now ?nd"
  have b: "snd ?b" "n_phase (fst ?b) = Started" "n_applied (fst ?b) = n_applied ?nd"
    "c_state (n_ctl (fst ?b)) = Candidate" "c_term (n_ctl (fst ?b)) = Suc (c_term (n_ctl ?nd))"
    "\<not> c_failed (n_ctl (fst ?b))" "c_cluster_size (n_ctl (fst ?b)) = c_cluster_size (n_ctl ?nd)"
    using c t by (simp_all add: begin_election_def check_election_timeout_def ctl_update_def Let_def
        add64_exact)
  define s1 where "s1 = (put_node i (fst ?b) s)
    \<lparr>cl_votes := (if snd ?b then insert (i, c_term (n_ctl (fst ?b)), i) (cl_votes s) else cl_votes s)\<rparr>"
  have one: "cluster_step m s s1"
    unfolding s1_def by (rule cluster_step.timeout [OF i idle]) simp
  have n1: "cl_nodes s1 i = fst ?b" by (simp add: s1_def put_node_def)
  define s2 where "s2 = put_node i (read_term m i (cl_nodes s1 i)) s1"
  have two: "cluster_step m s1 s2"
    unfolding s2_def by (rule cluster_step.read_new_term [OF i]) (simp add: n1 b)
  have "(cluster_step m)\<^sup>*\<^sup>* s s2"
    using one two by (meson converse_rtranclp_into_rtranclp rtranclp.rtrancl_refl)
  moreover have "cl_nodes s2 i = read_term m i (fst ?b)" by (simp add: s2_def put_node_def n1)
  moreover have "\<forall>q. q \<noteq> i \<longrightarrow> cl_nodes s2 q = cl_nodes s q"
    by (simp add: s2_def s1_def put_node_def)
  ultimately show ?thesis
    by (intro exI [of _ s2] exI [of _ "n_ctl (fst ?b)"]) (simp add: read_term_def Let_def b)
qed

text \<open>C23 Elections can always complete: in every reachable state of the cluster, whatever
  crashes, failed writes and abandoned elections came before, a waiting controller that is
  not fenced becomes the leader of its next term by some continuation, provided that the
  controllers willing to vote for it (running, in a term not above its own, with no more log
  than it has applied) form a majority with it.\<close>

theorem election_completes:
  assumes "membership_ok m" "cluster_reach m k s" "Suc k < 2 ^ 64"
    and "i \<in> set (m_ids m)" "n_phase (cl_nodes s i) = Idle"
    and "\<not> c_failed (n_ctl (cl_nodes s i))" "c_state (n_ctl (cl_nodes s i)) \<noteq> Leader"
    and "length (m_ids m) div 2 \<le> length (filter (\<lambda>p. willing (Suc (c_term (n_ctl (cl_nodes s i))))
      (n_applied (cl_nodes s i)) (cl_nodes s p)) (peers m i))"
  shows "\<exists>s'. (cluster_step m)\<^sup>*\<^sup>* s s' \<and> c_state (n_ctl (cl_nodes s' i)) = Leader \<and>
    c_term (n_ctl (cl_nodes s' i)) = Suc (c_term (n_ctl (cl_nodes s i)))"
proof -
  let ?t = "Suc (c_term (n_ctl (cl_nodes s i)))" and ?idx = "n_applied (cl_nodes s i)"
  have "cluster_inv m k s" using cluster_reach_inv [OF assms(2,1)] assms(3) by simp
  then have nd: "node_ok m k (cl_votes s) i (cl_nodes s i)"
    using assms(4) by (simp add: cluster_inv_def)
  have t: "?t < 2 ^ 64" and idx: "?idx < 2 ^ 64"
    and n: "c_cluster_size (n_ctl (cl_nodes s i)) = length (m_ids m)"
    using nd assms(3) by (simp_all add: node_ok_def ctl_ok_def Let_def)
  obtain s1 where s1: "(cluster_step m)\<^sup>*\<^sup>* s s1" "c_state (n_ctl (cl_nodes s1 i)) = Candidate"
    "c_term (n_ctl (cl_nodes s1 i)) = ?t" "\<not> c_failed (n_ctl (cl_nodes s1 i))"
    "c_cluster_size (n_ctl (cl_nodes s1 i)) = length (m_ids m)"
    "n_phase (cl_nodes s1 i) = Collecting ?t ?idx (peers m i) []"
    "\<forall>q. q \<noteq> i \<longrightarrow> cl_nodes s1 q = cl_nodes s q"
    using start_collecting [OF assms(4-7) t] n by auto
  have ps: "set (peers m i) \<subseteq> set (m_ids m)" "i \<notin> set (peers m i)" "distinct (peers m i)"
    using assms(1) by (auto simp: peers_def membership_ok_def)
  obtain s2 vs where s2: "(cluster_step m)\<^sup>*\<^sup>* s1 s2"
    "cl_nodes s2 i = (cl_nodes s1 i)\<lparr>n_phase := Collecting ?t ?idx [] vs\<rparr>"
    "length (filter (\<lambda>p. willing ?t ?idx (cl_nodes s1 p)) (peers m i)) \<le> length vs"
    using collect_votes [OF assms(1,4) t idx s1(6) ps] by auto
  have "filter (\<lambda>p. willing ?t ?idx (cl_nodes s1 p)) (peers m i) =
      filter (\<lambda>p. willing ?t ?idx (cl_nodes s p)) (peers m i)"
    using s1(7) ps(2) by (intro filter_cong refl) metis
  with s2(3) assms(8) have votes: "length (m_ids m) div 2 \<le> length vs" by simp
  have "cluster_step m s2 (put_node i (finish_election ?t vs (cl_nodes s2 i)) s2)" (is "cluster_step m s2 ?s3")
    by (rule cluster_step.tally [OF assms(4)]) (simp add: s2(2))
  then have "(cluster_step m)\<^sup>*\<^sup>* s ?s3" using s1(1) s2(1) by (meson rtranclp_trans r_into_rtranclp)
  moreover have "c_state (n_ctl (cl_nodes ?s3 i)) = Leader \<and> c_term (n_ctl (cl_nodes ?s3 i)) = ?t"
    using votes s1 by (simp add: put_node_def finish_election_def tally_election_votes_def s2(2) Let_def)
  ultimately show ?thesis by blast
qed

text \<open>A cluster of two new controllers: one asks the other.\<close>

definition duo :: membership where
  "duo = \<lparr>m_ids = [7, 8], m_cluster_id = ''c''\<rparr>"

definition duo_node :: "nat \<Rightarrow> node" where
  "duo_node i = \<lparr>n_ctl = (new_with_state i 2 Follower 0)\<lparr>c_has_path := True\<rparr>,
     n_disk = Some (hard_state (new_with_state i 2 Follower 0)),
     n_epoch = 0, n_leo = 0, n_applied = 0, n_phase = Idle\<rparr>"

definition duo_start :: cluster where
  "duo_start = \<lparr>cl_nodes = duo_node, cl_requests = {}, cl_replies = {}, cl_votes = {}\<rparr>"

lemma duo_boot:
  "i = 7 \<or> i = 8 \<Longrightarrow> boot duo Follower 0 IoOk i ((duo_node i)\<lparr>n_disk := None\<rparr>) = Some (duo_node i)"
  by (auto simp: duo_node_def boot_def enable_persistence_def persist_def durable_replace_def
      new_with_state_def cluster_size_def peers_def duo_def Let_def hard_state_def)

lemma duo_reach: "cluster_reach duo 0 duo_start"
proof (rule cluster_reach.start, unfold cluster_start_def, intro conjI ballI)
  fix i assume "i \<in> set (m_ids duo)"
  then have "i = 7 \<or> i = 8" by (auto simp: duo_def)
  from duo_boot [OF this]
  show "\<exists>st now nd. st \<noteq> Candidate \<and> n_disk nd = None \<and> n_leo nd < 2 ^ 64 \<and>
      n_applied nd < 2 ^ 64 \<and> boot duo st now IoOk i nd = Some (cl_nodes duo_start i)"
    by (intro exI [of _ Follower] exI [of _ 0] exI [of _ "(duo_node i)\<lparr>n_disk := None\<rparr>"])
      (simp add: duo_start_def, simp add: duo_node_def)
qed (simp_all add: duo_start_def)

theorem election_completes_witness:
  "\<exists>s'. (cluster_step duo)\<^sup>*\<^sup>* duo_start s' \<and> c_state (n_ctl (cl_nodes s' 7)) = Leader \<and>
    c_term (n_ctl (cl_nodes s' 7)) = Suc (c_term (n_ctl (cl_nodes duo_start 7)))"
  by (rule election_completes [OF _ duo_reach])
    (simp_all add: membership_ok_def duo_def pascal_ok_def duo_start_def duo_node_def
      new_with_state_def willing_def peers_def)

end
