(* ===== verification/Coordinator.thy ===== *)
theory Coordinator
  imports Prelude "HOL-Library.Sublist"
begin

text \<open>
  The consumer-group coordinator (\<^verbatim>\<open>src/server/coordinator.rs\<close>): groups with their members,
  static instances, join window and generation, and every request handler (join, sync,
  heartbeat, leave, progress, describe) with the pruning of expired members it starts with.
  Times are in nanoseconds. A \<open>HashMap\<close> is an association list; where the code takes some
  key of a map (the successor of a lost leader) the model takes the first, and nothing below
  depends on which.

  The lemmas show that every request keeps the group well-formed (a non-empty group has a
  leader that is a member, a static instance points at its own member) and that no partition
  is ever owned by two members.
\<close>

section \<open>Groups\<close>

definition millis :: "nat \<Rightarrow> duration" where "millis n = n * 1000000"

definition MIN_SESSION_TIMEOUT :: duration where "MIN_SESSION_TIMEOUT = millis 200"
definition MAX_SESSION_TIMEOUT :: duration where "MAX_SESSION_TIMEOUT = millis 300000"
definition DEFAULT_SESSION_TIMEOUT :: duration where "DEFAULT_SESSION_TIMEOUT = millis 10000"
definition MAX_RECENT_EVICTIONS :: nat where "MAX_RECENT_EVICTIONS = 20"

datatype EvictionReason = SessionTimeout | StalledConsumption

record EvictionRecord =
  ev_member_id :: string
  ev_reason :: EvictionReason
  ev_at :: instant

datatype GroupState = GEmpty | PreparingRebalance | CompletingRebalance | Stable | Dead

record MemberState =
  mem_id :: string
  mem_client_id :: string
  mem_session_timeout :: duration
  mem_assigned :: "(string \<times> nat list) list"
  mem_last_heartbeat :: instant
  mem_last_progress :: instant
  mem_instance :: "string option"

record ConsumerGroup =
  grp_id :: string
  grp_state :: GroupState
  grp_generation :: nat
  grp_leader :: "string option"
  grp_members :: "(string \<times> MemberState) list"
  grp_protocol :: "string option"
  grp_deadline :: "instant option"
  grp_static :: "(string \<times> string) list"
  grp_seq :: nat
  grp_evictions :: "EvictionRecord list"

record GroupCoordinator =
  gc_groups :: "(string \<times> ConsumerGroup) list"
  gc_delay :: duration
  gc_max_poll :: duration

datatype GroupError =
    GenerationMismatch nat nat
  | MemberNotFound
  | UnknownAssignmentMember
  | DuplicateOwnership
  | RebalanceInProgress
  | RebalanceMismatch nat nat
  | GroupNotFound
  | GroupOrMemberNotFound

definition new_group :: "string \<Rightarrow> ConsumerGroup" where
  "new_group gid =
     \<lparr>grp_id = gid, grp_state = GEmpty, grp_generation = 0, grp_leader = None, grp_members = [],
      grp_protocol = None, grp_deadline = None, grp_static = [], grp_seq = 0, grp_evictions = []\<rparr>"

definition with_config :: "duration \<Rightarrow> duration \<Rightarrow> GroupCoordinator" where
  "with_config delay max_poll = \<lparr>gc_groups = [], gc_delay = delay, gc_max_poll = max_poll\<rparr>"

definition record_eviction :: "string \<Rightarrow> EvictionReason \<Rightarrow> instant \<Rightarrow> ConsumerGroup \<Rightarrow> ConsumerGroup" where
  "record_eviction mid reason at g =
     (let evs = grp_evictions g @ [\<lparr>ev_member_id = mid, ev_reason = reason, ev_at = at\<rparr>] in
      g\<lparr>grp_evictions := (if length evs > MAX_RECENT_EVICTIONS
                          then drop (length evs - MAX_RECENT_EVICTIONS) evs else evs)\<rparr>)"

definition join_window_open :: "instant \<Rightarrow> ConsumerGroup \<Rightarrow> bool" where
  "join_window_open now g = (case grp_deadline g of None \<Rightarrow> False | Some d \<Rightarrow> now < d)"

definition to_ascii_lowercase :: "string \<Rightarrow> string" where
  "to_ascii_lowercase =
     map (\<lambda>c. let n = of_char c in if 65 \<le> n \<and> n \<le> (90::nat) then char_of (n + 32) else c)"

definition str_contains :: "string \<Rightarrow> string \<Rightarrow> bool" where
  "str_contains needle s = list_ex (\<lambda>n. prefix needle (drop n s)) [0..<length s + 1]"

definition is_cooperative :: "ConsumerGroup \<Rightarrow> bool" where
  "is_cooperative g =
     (case grp_protocol g of None \<Rightarrow> False
      | Some p \<Rightarrow> str_contains ''cooperative'' (to_ascii_lowercase p))"

section \<open>Pruning\<close>

definition first_key :: "('k \<times> 'v) list \<Rightarrow> 'k option" where
  "first_key m = (case m of [] \<Rightarrow> None | e # _ \<Rightarrow> Some (fst e))"

definition drop_member :: "string \<Rightarrow> ConsumerGroup \<Rightarrow> ConsumerGroup" where
  "drop_member mid g =
     (case map_of (grp_members g) mid of
        None \<Rightarrow> g
      | Some m \<Rightarrow>
          g\<lparr>grp_members := AList.delete mid (grp_members g),
            grp_static := (case mem_instance m of None \<Rightarrow> grp_static g
                           | Some inst \<Rightarrow> AList.delete inst (grp_static g))\<rparr>)"

definition expired_members ::
    "duration \<Rightarrow> instant \<Rightarrow> ConsumerGroup \<Rightarrow> (string \<times> EvictionReason) list" where
  "expired_members max_poll now g =
     List.map_filter (\<lambda>(mid, m).
       if now - mem_last_heartbeat m > mem_session_timeout m then Some (mid, SessionTimeout)
       else if now - mem_last_progress m > max_poll then Some (mid, StalledConsumption)
       else None) (grp_members g)"

definition evict :: "instant \<Rightarrow> string \<times> EvictionReason \<Rightarrow> ConsumerGroup \<Rightarrow> ConsumerGroup" where
  "evict now e g =
     (let g1 = drop_member (fst e) g;
          g2 = (if grp_leader g1 = Some (fst e)
                then g1\<lparr>grp_leader := first_key (grp_members g1)\<rparr> else g1) in
      record_eviction (fst e) (snd e) now g2)"

definition prune_expired_members :: "duration \<Rightarrow> instant \<Rightarrow> ConsumerGroup \<Rightarrow> ConsumerGroup" where
  "prune_expired_members max_poll now g =
     (let g = fold (evict now) (expired_members max_poll now g) g in
      if grp_members g = [] then g\<lparr>grp_state := GEmpty, grp_leader := None\<rparr> else g)"

section \<open>Joining\<close>

definition resolve_session_timeout :: "nat option \<Rightarrow> duration" where
  "resolve_session_timeout requested_ms =
     (case requested_ms of
        None \<Rightarrow> DEFAULT_SESSION_TIMEOUT
      | Some ms \<Rightarrow> max MIN_SESSION_TIMEOUT (min (millis ms) MAX_SESSION_TIMEOUT))"

fun dec_digits :: "nat \<Rightarrow> string" where
  "dec_digits n =
     (if n < 10 then [char_of (48 + n)] else dec_digits (n div 10) @ [char_of (48 + n mod 10)])"

declare dec_digits.simps [simp del]

definition instance_member_id :: "string \<Rightarrow> nat \<Rightarrow> string" where
  "instance_member_id inst n = inst @ ''-'' @ dec_digits n"

type_synonym join_reply = "string \<times> nat \<times> bool \<times> string"

definition protocol_or_default :: "ConsumerGroup \<Rightarrow> string" where
  "protocol_or_default g = (case grp_protocol g of None \<Rightarrow> [] | Some p \<Rightarrow> p)"

definition rejoin_static ::
    "instant \<Rightarrow> string \<Rightarrow> duration \<Rightarrow> ConsumerGroup \<Rightarrow> (ConsumerGroup \<times> join_reply) option" where
  "rejoin_static now inst session_timeout g =
     (case map_of (grp_static g) inst of
        None \<Rightarrow> None
      | Some previous \<Rightarrow>
     (case map_of (grp_members g) previous of
        None \<Rightarrow> None
      | Some m \<Rightarrow>
          (let seq = saturating_add64 (grp_seq g) 1;
               new_id = instance_member_id inst seq;
               m = m\<lparr>mem_id := new_id, mem_client_id := new_id, mem_last_heartbeat := now,
                     mem_last_progress := now, mem_session_timeout := session_timeout\<rparr>;
               is_leader = (grp_leader g = Some previous);
               g = g\<lparr>grp_seq := seq,
                     grp_members := AList.update new_id m (AList.delete previous (grp_members g)),
                     grp_static := AList.update inst new_id (grp_static g),
                     grp_leader := (if is_leader then Some new_id else grp_leader g)\<rparr> in
           Some (g, (new_id, grp_generation g, is_leader, protocol_or_default g)))))"

text \<open>The member id a join uses; \<open>stamp\<close> is the clock reading that names an anonymous one.\<close>

definition choose_member_id ::
    "nat \<Rightarrow> string \<Rightarrow> string option \<Rightarrow> ConsumerGroup \<Rightarrow> ConsumerGroup \<times> string" where
  "choose_member_id stamp member_id inst g =
     (case inst of
        Some i \<Rightarrow>
          (case map_of (grp_static g) i of
             Some existing \<Rightarrow> (g, existing)
           | None \<Rightarrow>
               (let seq = saturating_add64 (grp_seq g) 1 in
                (g\<lparr>grp_seq := seq\<rparr>, instance_member_id i seq)))
      | None \<Rightarrow> (g, if member_id = [] then dec_digits stamp else member_id))"

text \<open>Registers the member or refreshes it; the flag is \<open>rebalance_needed\<close>.\<close>

definition register_member ::
    "instant \<Rightarrow> string \<Rightarrow> string option \<Rightarrow> duration \<Rightarrow> bool \<Rightarrow> ConsumerGroup \<Rightarrow> ConsumerGroup \<times> bool" where
  "register_member now m_id inst session_timeout round_two g =
     (case map_of (grp_members g) m_id of
        None \<Rightarrow>
          (g\<lparr>grp_members := AList.update m_id
               \<lparr>mem_id = m_id, mem_client_id = m_id, mem_session_timeout = session_timeout,
                mem_assigned = [], mem_last_heartbeat = now, mem_last_progress = now,
                mem_instance = inst\<rparr> (grp_members g),
             grp_static := (case inst of None \<Rightarrow> grp_static g
                            | Some i \<Rightarrow> AList.update i m_id (grp_static g))\<rparr>, True)
      | Some m \<Rightarrow>
          (g\<lparr>grp_members := AList.update m_id
               (m\<lparr>mem_last_heartbeat := now, mem_session_timeout := session_timeout\<rparr>)
               (grp_members g)\<rparr>,
           round_two \<and> is_cooperative g \<and> grp_state g = Stable))"

definition open_window :: "duration \<Rightarrow> instant \<Rightarrow> ConsumerGroup \<Rightarrow> ConsumerGroup" where
  "open_window delay now g =
     (if join_window_open now g
      then g\<lparr>grp_deadline :=
               map_option (\<lambda>d. min (d + delay div 4) (now + delay * 2)) (grp_deadline g)\<rparr>
      else g\<lparr>grp_state := PreparingRebalance,
             grp_generation := min (grp_generation g + 1) U32_MAX,
             grp_deadline := Some (now + delay)\<rparr>)"

definition join_locked ::
    "GroupCoordinator \<Rightarrow> instant \<Rightarrow> nat \<Rightarrow> string \<Rightarrow> string option \<Rightarrow> string list \<Rightarrow> nat option \<Rightarrow>
     bool \<Rightarrow> ConsumerGroup \<Rightarrow> ConsumerGroup \<times> join_reply" where
  "join_locked gc now stamp member_id inst protocols session_timeout_ms round_two g =
     (let g = prune_expired_members (gc_max_poll gc) now g;
          session_timeout = resolve_session_timeout session_timeout_ms;
          rejoined = (case inst of None \<Rightarrow> None
                      | Some i \<Rightarrow> if round_two then None else rejoin_static now i session_timeout g) in
      case rejoined of
        Some result \<Rightarrow> result
      | None \<Rightarrow>
          (let (g, m_id) = choose_member_id stamp member_id inst g;
               was_empty = (grp_state g = GEmpty);
               (g, rebalance_needed) = register_member now m_id inst session_timeout round_two g;
               g = (if was_empty
                    then g\<lparr>grp_protocol := (case protocols of [] \<Rightarrow> None | p # _ \<Rightarrow> Some p)\<rparr> else g);
               g = (if rebalance_needed \<or> was_empty then open_window (gc_delay gc) now g else g);
               g = (if grp_leader g = None then g\<lparr>grp_leader := Some m_id\<rparr> else g) in
           (g, (m_id, grp_generation g, grp_leader g = Some m_id, protocol_or_default g))))"

definition put_group :: "string \<Rightarrow> ConsumerGroup \<Rightarrow> GroupCoordinator \<Rightarrow> GroupCoordinator" where
  "put_group gid g gc = gc\<lparr>gc_groups := AList.update gid g (gc_groups gc)\<rparr>"

definition join_group ::
    "instant \<Rightarrow> nat \<Rightarrow> string \<Rightarrow> string \<Rightarrow> string option \<Rightarrow> string list \<Rightarrow> nat option \<Rightarrow> bool \<Rightarrow>
     GroupCoordinator \<Rightarrow> GroupCoordinator \<times> join_reply" where
  "join_group now stamp gid member_id inst protocols session_timeout_ms round_two gc =
     (let g = (case map_of (gc_groups gc) gid of None \<Rightarrow> new_group gid | Some g \<Rightarrow> g);
          (g', reply) = join_locked gc now stamp member_id inst protocols session_timeout_ms round_two g in
      (put_group gid g' gc, reply))"

definition join_window_remaining :: "instant \<Rightarrow> string \<Rightarrow> GroupCoordinator \<Rightarrow> duration option" where
  "join_window_remaining now gid gc =
     (case map_of (gc_groups gc) gid of
        None \<Rightarrow> None
      | Some g \<Rightarrow> (case grp_deadline g of None \<Rightarrow> None
                   | Some deadline \<Rightarrow> if now < deadline then Some (deadline - now) else None))"

definition close_window :: "instant \<Rightarrow> ConsumerGroup \<Rightarrow> ConsumerGroup" where
  "close_window now g =
     (case grp_deadline g of
        None \<Rightarrow> g
      | Some d \<Rightarrow>
          if now \<ge> d
          then g\<lparr>grp_deadline := None,
                 grp_state := (if grp_state g = PreparingRebalance then CompletingRebalance
                               else grp_state g)\<rparr>
          else g)"

definition close_join_window :: "instant \<Rightarrow> string \<Rightarrow> GroupCoordinator \<Rightarrow> GroupCoordinator" where
  "close_join_window now gid gc =
     (case map_of (gc_groups gc) gid of None \<Rightarrow> gc | Some g \<Rightarrow> put_group gid (close_window now g) gc)"

definition join_result :: "string \<Rightarrow> string \<Rightarrow> GroupCoordinator \<Rightarrow> (nat \<times> bool \<times> string) option" where
  "join_result gid member_id gc =
     map_option (\<lambda>g. (grp_generation g, grp_leader g = Some member_id, protocol_or_default g))
       (map_of (gc_groups gc) gid)"

section \<open>Assignments, heartbeats, leaving\<close>

record MemberAssignment =
  as_member_id :: string
  as_topic :: string
  as_partitions :: "nat list"

text \<open>The checks of the leader's assignment, in order: members known, no partition twice.\<close>

fun insert_owners :: "string \<Rightarrow> nat list \<Rightarrow> (string \<times> nat) list \<Rightarrow> (string \<times> nat) list option" where
  "insert_owners t [] owners = Some owners"
| "insert_owners t (p # ps) owners =
     (if (t, p) \<in> set owners then None else insert_owners t ps ((t, p) # owners))"

fun check_assignments ::
    "string list \<Rightarrow> MemberAssignment list \<Rightarrow> (string \<times> nat) list \<Rightarrow> GroupError option" where
  "check_assignments members [] owners = None"
| "check_assignments members (a # as) owners =
     (if as_member_id a \<notin> set members then Some UnknownAssignmentMember
      else case insert_owners (as_topic a) (as_partitions a) owners of
             None \<Rightarrow> Some DuplicateOwnership
           | Some owners' \<Rightarrow> check_assignments members as owners')"

definition assign_one :: "MemberAssignment \<Rightarrow> (string \<times> MemberState) list \<Rightarrow> (string \<times> MemberState) list" where
  "assign_one a members =
     (case map_of members (as_member_id a) of
        None \<Rightarrow> members
      | Some m \<Rightarrow>
          AList.update (as_member_id a)
            (m\<lparr>mem_assigned := AList.update (as_topic a) (as_partitions a) (mem_assigned m)\<rparr>) members)"

definition clear_assignments :: "(string \<times> MemberState) list \<Rightarrow> (string \<times> MemberState) list" where
  "clear_assignments = map (\<lambda>(k, m). (k, m\<lparr>mem_assigned := []\<rparr>))"

definition own_assignment :: "string \<Rightarrow> ConsumerGroup \<Rightarrow> (string \<times> nat list) list" where
  "own_assignment member_id g =
     (case map_of (grp_members g) member_id of None \<Rightarrow> [] | Some m \<Rightarrow> mem_assigned m)"

definition sync_locked ::
    "duration \<Rightarrow> instant \<Rightarrow> nat \<Rightarrow> string \<Rightarrow> MemberAssignment list \<Rightarrow> ConsumerGroup \<Rightarrow>
     ConsumerGroup \<times> (GroupError + (string \<times> nat list) list)" where
  "sync_locked max_poll now generation member_id assignments g =
     (let g = prune_expired_members max_poll now g in
      if generation \<noteq> grp_generation g then (g, Inl (GenerationMismatch (grp_generation g) generation))
      else if map_of (grp_members g) member_id = None then (g, Inl MemberNotFound)
      else if grp_leader g = Some member_id \<and> (grp_state g \<noteq> Stable \<or> assignments \<noteq> []) then
        (case check_assignments (map fst (grp_members g)) assignments [] of
           Some e \<Rightarrow> (g, Inl e)
         | None \<Rightarrow>
             (let g = g\<lparr>grp_members := fold assign_one assignments (clear_assignments (grp_members g)),
                        grp_state := Stable\<rparr> in
              (g, Inr (own_assignment member_id g))))
      else if grp_state g \<noteq> Stable then (g, Inl RebalanceInProgress)
      else (g, Inr (own_assignment member_id g)))"

definition sync_group ::
    "instant \<Rightarrow> string \<Rightarrow> nat \<Rightarrow> string \<Rightarrow> MemberAssignment list \<Rightarrow> GroupCoordinator \<Rightarrow>
     GroupCoordinator \<times> (GroupError + (string \<times> nat list) list)" where
  "sync_group now gid generation member_id assignments gc =
     (case map_of (gc_groups gc) gid of
        None \<Rightarrow> (gc, Inl GroupNotFound)
      | Some g \<Rightarrow>
          (case sync_locked (gc_max_poll gc) now generation member_id assignments g of
             (g', r) \<Rightarrow> (put_group gid g' gc, r)))"

definition touch_heartbeat :: "instant \<Rightarrow> string \<Rightarrow> ConsumerGroup \<Rightarrow> ConsumerGroup" where
  "touch_heartbeat now member_id g =
     (case map_of (grp_members g) member_id of
        None \<Rightarrow> g
      | Some m \<Rightarrow>
          g\<lparr>grp_members := AList.update member_id (m\<lparr>mem_last_heartbeat := now\<rparr>) (grp_members g)\<rparr>)"

definition heartbeat_locked ::
    "duration \<Rightarrow> instant \<Rightarrow> nat \<Rightarrow> string \<Rightarrow> ConsumerGroup \<Rightarrow> ConsumerGroup \<times> (GroupError + unit)" where
  "heartbeat_locked max_poll now generation member_id g =
     (let g = prune_expired_members max_poll now g in
      if generation \<noteq> grp_generation g then
        (if is_cooperative g \<and> grp_state g \<noteq> Stable \<and> map_of (grp_members g) member_id \<noteq> None
         then (touch_heartbeat now member_id g, Inl RebalanceInProgress)
         else (g, Inl (RebalanceMismatch (grp_generation g) generation)))
      else if map_of (grp_members g) member_id \<noteq> None
      then (touch_heartbeat now member_id g, Inr ())
      else (g, Inl GroupOrMemberNotFound))"

definition heartbeat ::
    "instant \<Rightarrow> string \<Rightarrow> nat \<Rightarrow> string \<Rightarrow> GroupCoordinator \<Rightarrow> GroupCoordinator \<times> (GroupError + unit)" where
  "heartbeat now gid generation member_id gc =
     (case map_of (gc_groups gc) gid of
        None \<Rightarrow> (gc, Inl GroupOrMemberNotFound)
      | Some g \<Rightarrow>
          (case heartbeat_locked (gc_max_poll gc) now generation member_id g of
             (g', r) \<Rightarrow> (put_group gid g' gc, r)))"

definition touch_progress :: "instant \<Rightarrow> string \<Rightarrow> ConsumerGroup \<Rightarrow> ConsumerGroup" where
  "touch_progress now member_id g =
     (case map_of (grp_members g) member_id of
        None \<Rightarrow> g
      | Some m \<Rightarrow>
          g\<lparr>grp_members := AList.update member_id (m\<lparr>mem_last_progress := now\<rparr>) (grp_members g)\<rparr>)"

definition record_progress :: "instant \<Rightarrow> string \<Rightarrow> string \<Rightarrow> GroupCoordinator \<Rightarrow> GroupCoordinator" where
  "record_progress now gid member_id gc =
     (case map_of (gc_groups gc) gid of
        None \<Rightarrow> gc | Some g \<Rightarrow> put_group gid (touch_progress now member_id g) gc)"

definition recent_evictions :: "string \<Rightarrow> GroupCoordinator \<Rightarrow> EvictionRecord list" where
  "recent_evictions gid gc =
     (case map_of (gc_groups gc) gid of None \<Rightarrow> [] | Some g \<Rightarrow> grp_evictions g)"

definition leave_locked :: "string \<Rightarrow> string option \<Rightarrow> ConsumerGroup \<Rightarrow> ConsumerGroup" where
  "leave_locked member_id inst g =
     (let (g, mid) = (case inst of
            None \<Rightarrow> (g, member_id)
          | Some i \<Rightarrow> (case map_of (grp_static g) i of
                        Some resolved \<Rightarrow> (g\<lparr>grp_static := AList.delete i (grp_static g)\<rparr>, resolved)
                      | None \<Rightarrow> (g, member_id)));
          g = drop_member mid g in
      if grp_members g = [] then g\<lparr>grp_state := GEmpty, grp_leader := None\<rparr>
      else g\<lparr>grp_state := PreparingRebalance,
             grp_leader := (if grp_leader g = Some mid then first_key (grp_members g) else grp_leader g)\<rparr>)"

definition leave_group ::
    "string \<Rightarrow> string \<Rightarrow> string option \<Rightarrow> GroupCoordinator \<Rightarrow> GroupCoordinator \<times> (GroupError + unit)" where
  "leave_group gid member_id inst gc =
     (case map_of (gc_groups gc) gid of
        None \<Rightarrow> (gc, Inl GroupNotFound)
      | Some g \<Rightarrow> (put_group gid (leave_locked member_id inst g) gc, Inr ()))"

definition list_groups :: "instant \<Rightarrow> GroupCoordinator \<Rightarrow> GroupCoordinator \<times> string list" where
  "list_groups now gc =
     (gc\<lparr>gc_groups := map (\<lambda>(k, g). (k, prune_expired_members (gc_max_poll gc) now g)) (gc_groups gc)\<rparr>,
      map fst (gc_groups gc))"

definition describe_members :: "ConsumerGroup \<Rightarrow> (string \<times> (string \<times> nat) list) list" where
  "describe_members g =
     map (\<lambda>(k, m). (k, concat (map (\<lambda>(t, ps). map (\<lambda>p. (t, p)) ps) (mem_assigned m)))) (grp_members g)"

definition describe_group ::
    "instant \<Rightarrow> string \<Rightarrow> GroupCoordinator \<Rightarrow>
     GroupCoordinator \<times> (GroupState \<times> (string \<times> (string \<times> nat) list) list) option" where
  "describe_group now gid gc =
     (case map_of (gc_groups gc) gid of
        None \<Rightarrow> (gc, None)
      | Some g \<Rightarrow>
          (let g = prune_expired_members (gc_max_poll gc) now g in
           (put_group gid g gc, Some (grp_state g, describe_members g))))"

section \<open>Well-formed groups\<close>

definition owns :: "(string \<times> MemberState) list \<Rightarrow> string \<Rightarrow> string \<Rightarrow> nat \<Rightarrow> bool" where
  "owns ms k t p \<longleftrightarrow> (\<exists>m ps. map_of ms k = Some m \<and> map_of (mem_assigned m) t = Some ps \<and> p \<in> set ps)"

definition owned_once :: "(string \<times> MemberState) list \<Rightarrow> bool" where
  "owned_once ms \<longleftrightarrow> (\<forall>k k' t p. owns ms k t p \<and> owns ms k' t p \<longrightarrow> k = k')"

definition core_ok :: "ConsumerGroup \<Rightarrow> bool" where
  "core_ok g \<longleftrightarrow>
     distinct (map fst (grp_members g)) \<and> distinct (map fst (grp_static g)) \<and>
     (\<forall>i k. map_of (grp_static g) i = Some k \<longrightarrow>
        (\<exists>m n. map_of (grp_members g) k = Some m \<and> mem_instance m = Some i \<and>
           k = instance_member_id i n)) \<and>
     owned_once (grp_members g)"

definition leader_in :: "ConsumerGroup \<Rightarrow> bool" where
  "leader_in g \<longleftrightarrow>
     (case grp_leader g of None \<Rightarrow> grp_members g = [] | Some l \<Rightarrow> map_of (grp_members g) l \<noteq> None)"

definition group_ok :: "ConsumerGroup \<Rightarrow> bool" where
  "group_ok g \<longleftrightarrow> core_ok g \<and> leader_in g \<and> (grp_members g = [] \<longrightarrow> grp_state g = GEmpty)"

lemma core_ok_fields:
  "grp_members g' = grp_members g \<Longrightarrow> grp_static g' = grp_static g \<Longrightarrow> core_ok g' = core_ok g"
  by (simp add: core_ok_def)

lemma core_ok_updates [simp]:
  "core_ok (g\<lparr>grp_state := a\<rparr>) = core_ok g" "core_ok (g\<lparr>grp_leader := b\<rparr>) = core_ok g"
  "core_ok (g\<lparr>grp_protocol := c\<rparr>) = core_ok g" "core_ok (g\<lparr>grp_deadline := d\<rparr>) = core_ok g"
  "core_ok (g\<lparr>grp_generation := e\<rparr>) = core_ok g" "core_ok (g\<lparr>grp_seq := f\<rparr>) = core_ok g"
  by (simp_all add: core_ok_def)

lemma core_okI:
  assumes "distinct (map fst (grp_members g))" "distinct (map fst (grp_static g))"
    "\<And>i k. map_of (grp_static g) i = Some k \<Longrightarrow>
      \<exists>m n. map_of (grp_members g) k = Some m \<and> mem_instance m = Some i \<and> k = instance_member_id i n"
    "owned_once (grp_members g)"
  shows "core_ok g"
  using assms by (simp add: core_ok_def)

lemma core_okD:
  assumes "core_ok g"
  shows "distinct (map fst (grp_members g))" "distinct (map fst (grp_static g))"
    "map_of (grp_static g) i = Some k \<Longrightarrow>
      \<exists>m n. map_of (grp_members g) k = Some m \<and> mem_instance m = Some i \<and> k = instance_member_id i n"
    "owned_once (grp_members g)"
  using assms by (auto simp: core_ok_def)

section \<open>Member ids of static instances\<close>

lemma digit_no_dash: "k < (10::nat) \<Longrightarrow> CHR ''-'' \<noteq> char_of (48 + k)"
proof
  assume k: "k < 10" and "CHR ''-'' = char_of (48 + k)"
  from arg_cong [OF this(2), of "of_char :: char \<Rightarrow> nat"] k show False by (simp add: of_char_of)
qed

lemma dec_no_dash: "CHR ''-'' \<notin> set (dec_digits n)"
proof (induction n rule: dec_digits.induct)
  case (1 n)
  then show ?case
    by (subst dec_digits.simps) (auto dest: digit_no_dash [THEN notE, rotated])
qed

lemma instance_member_id_inject: "instance_member_id i n = instance_member_id j k \<Longrightarrow> i = j"
proof -
  have split: "takeWhile (\<lambda>c. c \<noteq> CHR ''-'') (rev (instance_member_id i n)) = rev (dec_digits n)" for i n
    using dec_no_dash [of n]
    by (simp add: instance_member_id_def takeWhile_append2 takeWhile_tail [symmetric])
       (subst takeWhile_append2, auto)
  assume eq: "instance_member_id i n = instance_member_id j k"
  then have "dec_digits n = dec_digits k" using split [of i n] split [of j k] by simp
  with eq show ?thesis by (simp add: instance_member_id_def)
qed

section \<open>Ownership\<close>

lemma owned_once_rename:
  assumes "owned_once ms" "\<And>k t p. owns ms' k t p \<Longrightarrow> owns ms (f k) t p"
    "\<And>k k' t p. owns ms' k t p \<Longrightarrow> owns ms' k' t p \<Longrightarrow> f k = f k' \<Longrightarrow> k = k'"
  shows "owned_once ms'"
  using assms unfolding owned_once_def by metis

lemma owned_once_sub:
  "owned_once ms \<Longrightarrow> (\<And>k t p. owns ms' k t p \<Longrightarrow> owns ms k t p) \<Longrightarrow> owned_once ms'"
  unfolding owned_once_def by metis

lemma owns_update:
  "owns (AList.update k m ms) k' t p \<longleftrightarrow>
     (if k' = k then \<exists>ps. map_of (mem_assigned m) t = Some ps \<and> p \<in> set ps else owns ms k' t p)"
  by (auto simp: owns_def update_conv')

lemma owns_delete: "owns (AList.delete k ms) k' t p \<longleftrightarrow> k' \<noteq> k \<and> owns ms k' t p"
  by (auto simp: owns_def delete_conv')

text \<open>A member replaced by one with the same assignment, or a new one without any.\<close>

lemma owned_once_same:
  assumes "owned_once ms" "map_of ms k = Some m" "mem_assigned m' = mem_assigned m"
  shows "owned_once (AList.update k m' ms)"
  using assms(1) by (rule owned_once_sub) (use assms(2,3) in \<open>auto simp: owns_def update_conv' split: if_splits\<close>)

lemma owned_once_fresh:
  "owned_once ms \<Longrightarrow> mem_assigned m = [] \<Longrightarrow> owned_once (AList.update k m ms)"
  by (erule owned_once_sub) (auto simp: owns_update split: if_splits)

section \<open>Dropping and refreshing members\<close>

lemma drop_member_core:
  assumes "core_ok g"
  shows "core_ok (drop_member mid g)"
proof (cases "map_of (grp_members g) mid")
  case None
  with assms show ?thesis by (simp add: drop_member_def)
next
  case (Some m)
  note D = core_okD [OF assms]
  let ?g = "drop_member mid g"
  have mem: "grp_members ?g = AList.delete mid (grp_members g)"
    and st: "grp_static ?g = (case mem_instance m of None \<Rightarrow> grp_static g
                              | Some i \<Rightarrow> AList.delete i (grp_static g))"
    using Some by (simp_all add: drop_member_def)
  show ?thesis
  proof (rule core_okI)
    show "distinct (map fst (grp_members ?g))" using D(1) by (simp add: mem distinct_delete)
    show "distinct (map fst (grp_static ?g))" using D(2) by (simp add: st distinct_delete split: option.split)
    show "owned_once (grp_members ?g)"
      using D(4) unfolding mem by (rule owned_once_sub) (simp add: owns_delete)
    fix i k assume s: "map_of (grp_static ?g) i = Some k"
    then have "map_of (grp_static g) i = Some k" "mem_instance m \<noteq> Some i"
      by (auto simp: st delete_conv' split: option.splits if_splits)
    from D(3) [OF this(1)] this(2) Some
    show "\<exists>m n. map_of (grp_members ?g) k = Some m \<and> mem_instance m = Some i \<and> k = instance_member_id i n"
      by (auto simp: mem delete_conv')
  qed
qed

lemma drop_member_fields [simp]:
  "grp_leader (drop_member mid g) = grp_leader g" "grp_state (drop_member mid g) = grp_state g"
  "grp_generation (drop_member mid g) = grp_generation g"
  by (simp_all add: drop_member_def split: option.split)

lemma map_of_drop_member:
  "map_of (grp_members (drop_member mid g)) k = (if k = mid then None else map_of (grp_members g) k)"
  by (auto simp: drop_member_def delete_conv' split: option.split)

lemma first_key_lookup: "first_key m = Some k \<Longrightarrow> map_of m k \<noteq> None"
  by (cases m) (auto simp: first_key_def)

lemma first_key_None: "first_key m = None \<longleftrightarrow> m = []"
  by (cases m) (auto simp: first_key_def)

lemma no_members_lookup: "grp_members g = [] \<Longrightarrow> map_of (grp_members g) k = None"
  by simp

text \<open>The leader after a member is gone: the same one, or some remaining member.\<close>

lemma leader_in_drop:
  assumes "leader_in g" "grp_members h = grp_members (drop_member mid g)"
    "grp_leader h = (if grp_leader g = Some mid then first_key (grp_members h) else grp_leader g)"
  shows "leader_in h"
proof (cases "grp_leader g")
  case None
  with assms have "grp_members g = []" by (simp add: leader_in_def)
  then have "grp_members h = []" using assms(2) by (simp add: drop_member_def)
  with None assms(3) show ?thesis by (simp add: leader_in_def)
next
  case (Some l)
  show ?thesis
  proof (cases "l = mid")
    case True
    then show ?thesis
      using Some assms(3) by (auto simp: leader_in_def first_key_None dest: first_key_lookup split: option.split)
  next
    case False
    then show ?thesis
      using Some assms by (simp add: leader_in_def map_of_drop_member)
  qed
qed

lemma record_eviction_fields [simp]:
  "grp_members (record_eviction a b c g) = grp_members g" "grp_static (record_eviction a b c g) = grp_static g"
  "grp_leader (record_eviction a b c g) = grp_leader g" "grp_state (record_eviction a b c g) = grp_state g"
  "grp_generation (record_eviction a b c g) = grp_generation g"
  by (simp_all add: record_eviction_def Let_def)

lemma evict_ok:
  assumes "core_ok g" "leader_in g"
  shows "core_ok (evict now e g) \<and> leader_in (evict now e g)"
proof
  have mem: "grp_members (evict now e g) = grp_members (drop_member (fst e) g)"
    "grp_static (evict now e g) = grp_static (drop_member (fst e) g)"
    by (simp_all add: evict_def Let_def)
  show "core_ok (evict now e g)"
    using drop_member_core [OF assms(1)] core_ok_fields [OF mem] by simp
  show "leader_in (evict now e g)"
    by (rule leader_in_drop [OF assms(2) mem(1)]) (simp add: evict_def Let_def)
qed

lemma prune_ok: "group_ok g \<Longrightarrow> group_ok (prune_expired_members mp now g)"
proof -
  assume g: "group_ok g"
  have "core_ok (fold (evict now) es h) \<and> leader_in (fold (evict now) es h)"
    if "core_ok h" "leader_in h" for es h
    using that by (induction es arbitrary: h) (simp_all add: evict_ok)
  from this [of g] g show ?thesis
    by (auto simp: group_ok_def prune_expired_members_def Let_def leader_in_def)
qed

lemma generation_prune [simp]: "grp_generation (prune_expired_members mp now g) = grp_generation g"
proof -
  have "grp_generation (fold (evict now) es h) = grp_generation h" for es h
    by (induction es arbitrary: h) (simp_all add: evict_def Let_def)
  then show ?thesis by (simp add: prune_expired_members_def Let_def)
qed

lemma refresh_core:
  assumes ok: "core_ok g" and k: "map_of (grp_members g) k = Some m"
    and m': "mem_assigned m' = mem_assigned m" "mem_instance m' = mem_instance m"
  shows "core_ok (g\<lparr>grp_members := AList.update k m' (grp_members g)\<rparr>)"
proof (rule core_okI)
  note D = core_okD [OF ok]
  show "distinct (map fst (grp_members (g\<lparr>grp_members := AList.update k m' (grp_members g)\<rparr>)))"
    using D(1) by (simp add: distinct_update)
  show "distinct (map fst (grp_static (g\<lparr>grp_members := AList.update k m' (grp_members g)\<rparr>)))"
    using D(2) by simp
  show "owned_once (grp_members (g\<lparr>grp_members := AList.update k m' (grp_members g)\<rparr>))"
    using owned_once_same [OF D(4) k m'(1)] by simp
  fix i x assume "map_of (grp_static (g\<lparr>grp_members := AList.update k m' (grp_members g)\<rparr>)) i = Some x"
  then have "map_of (grp_static g) i = Some x" by simp
  from D(3) [OF this] k m'(2)
  show "\<exists>m n. map_of (grp_members (g\<lparr>grp_members := AList.update k m' (grp_members g)\<rparr>)) x = Some m \<and>
      mem_instance m = Some i \<and> x = instance_member_id i n"
    by (auto simp: update_conv')
qed

lemma refresh_ok:
  assumes "group_ok g" "map_of (grp_members g) k = Some m"
    "mem_assigned m' = mem_assigned m" "mem_instance m' = mem_instance m"
  shows "group_ok (g\<lparr>grp_members := AList.update k m' (grp_members g)\<rparr>)"
  using assms refresh_core [of g k m m']
  by (auto simp: group_ok_def leader_in_def update_conv' split: option.splits)

lemma update_nonempty [simp]: "AList.update k v xs \<noteq> []"
  by (cases xs) auto

section \<open>Joining keeps a group well-formed\<close>

lemma rejoin_static_ok:
  assumes ok: "group_ok g" and r: "rejoin_static now inst st g = Some (g', reply)"
  shows "group_ok g'"
proof -
  have core: "core_ok g" and lead: "leader_in g" using ok by (auto simp: group_ok_def)
  note D = core_okD [OF core]
  obtain prev m where p: "map_of (grp_static g) inst = Some prev" "map_of (grp_members g) prev = Some m"
    using r by (auto simp: rejoin_static_def split: option.splits)
  define seq where "seq = saturating_add64 (grp_seq g) 1"
  define nid where "nid = instance_member_id inst seq"
  define m' where "m' = m\<lparr>mem_id := nid, mem_client_id := nid, mem_last_heartbeat := now,
    mem_last_progress := now, mem_session_timeout := st\<rparr>"
  have g': "grp_members g' = AList.update nid m' (AList.delete prev (grp_members g))"
    "grp_static g' = AList.update inst nid (grp_static g)"
    "grp_leader g' = (if grp_leader g = Some prev then Some nid else grp_leader g)"
    using r p by (auto simp: rejoin_static_def Let_def seq_def nid_def m'_def)
  have inst: "mem_instance m = Some inst" using D(3) [OF p(1)] p(2) by auto
  have "core_ok g'"
  proof (rule core_okI)
    show "distinct (map fst (grp_members g'))" using D(1) by (simp add: g' distinct_update distinct_delete)
    show "distinct (map fst (grp_static g'))" using D(2) by (simp add: g' distinct_update)
    show "owned_once (grp_members g')"
    proof (rule owned_once_rename [OF D(4), where f = "\<lambda>k. if k = nid then prev else k"])
      show "owns (grp_members g) (if k = nid then prev else k) t p" if "owns (grp_members g') k t p" for k t p
        using that p(2) by (auto simp: g' owns_update owns_delete m'_def split: if_splits) (simp add: owns_def)
      show "k = k'" if "owns (grp_members g') k t p" "owns (grp_members g') k' t p"
        "(if k = nid then prev else k) = (if k' = nid then prev else k')" for k k' t p
        using that by (auto simp: g' owns_update owns_delete split: if_splits)
    qed
    fix i k assume s: "map_of (grp_static g') i = Some k"
    show "\<exists>m n. map_of (grp_members g') k = Some m \<and> mem_instance m = Some i \<and> k = instance_member_id i n"
    proof (cases "i = inst")
      case True
      with s inst show ?thesis by (auto simp: g' update_conv' m'_def nid_def)
    next
      case False
      then have "map_of (grp_static g) i = Some k" using s by (simp add: g' update_conv')
      from D(3) [OF this] obtain x n where x: "map_of (grp_members g) k = Some x"
        "mem_instance x = Some i" "k = instance_member_id i n" by blast
      have "k \<noteq> prev" using x(1,2) p(2) inst False by auto
      moreover have "k \<noteq> nid" using x(3) False instance_member_id_inject unfolding nid_def by blast
      ultimately have "map_of (grp_members g') k = Some x"
        using x(1) by (simp add: g' update_conv' delete_conv')
      with x(2,3) show ?thesis by blast
    qed
  qed
  moreover have "leader_in g'"
    using lead p(2) by (auto simp: leader_in_def g' update_conv' delete_conv' split: option.splits)
  ultimately show ?thesis by (simp add: group_ok_def g')
qed

lemma choose_member_id_spec:
  assumes ok: "core_ok g" and c: "choose_member_id stamp mid inst g = (g1, m_id)"
  shows "grp_members g1 = grp_members g \<and> grp_static g1 = grp_static g \<and> grp_state g1 = grp_state g \<and>
    grp_leader g1 = grp_leader g \<and> grp_generation g1 = grp_generation g \<and>
    (\<forall>i. inst = Some i \<longrightarrow> map_of (grp_members g) m_id = None \<longrightarrow> (\<exists>n. m_id = instance_member_id i n))"
  using c core_okD(3) [OF ok]
  by (auto simp: choose_member_id_def Let_def split: option.splits)

lemma register_new_core:
  assumes ok: "core_ok g" and new: "map_of (grp_members g) m_id = None"
    and inst: "\<forall>i. inst = Some i \<longrightarrow> (\<exists>n. m_id = instance_member_id i n)"
    and m: "mem_assigned m = []" "mem_instance m = inst"
  shows "core_ok (g\<lparr>grp_members := AList.update m_id m (grp_members g),
    grp_static := (case inst of None \<Rightarrow> grp_static g | Some i \<Rightarrow> AList.update i m_id (grp_static g))\<rparr>)"
    (is "core_ok ?g")
proof (rule core_okI)
  note D = core_okD [OF ok]
  show "distinct (map fst (grp_members ?g))" using D(1) by (simp add: distinct_update)
  show "distinct (map fst (grp_static ?g))" using D(2) by (simp add: distinct_update split: option.split)
  show "owned_once (grp_members ?g)" using owned_once_fresh [OF D(4) m(1)] by simp
  fix i k assume s: "map_of (grp_static ?g) i = Some k"
  show "\<exists>m n. map_of (grp_members ?g) k = Some m \<and> mem_instance m = Some i \<and> k = instance_member_id i n"
  proof (cases "inst = Some i")
    case True
    with s inst m show ?thesis by (auto simp: update_conv')
  next
    case False
    then have "map_of (grp_static g) i = Some k"
      using s by (auto simp: update_conv' split: option.splits if_splits)
    from D(3) [OF this] new show ?thesis by (auto simp: update_conv')
  qed
qed

lemma register_member_ok:
  assumes ok: "core_ok g" and r: "register_member now m_id inst st two g = (g1, rb)"
    and inst: "\<forall>i. inst = Some i \<longrightarrow> map_of (grp_members g) m_id = None \<longrightarrow> (\<exists>n. m_id = instance_member_id i n)"
  shows "core_ok g1 \<and> grp_leader g1 = grp_leader g \<and> grp_state g1 = grp_state g \<and>
    grp_generation g1 = grp_generation g \<and>
    map_of (grp_members g1) m_id \<noteq> None \<and>
    (\<forall>k. map_of (grp_members g) k \<noteq> None \<longrightarrow> map_of (grp_members g1) k \<noteq> None)"
proof (cases "map_of (grp_members g) m_id")
  case None
  with r inst register_new_core [OF ok None] show ?thesis
    by (auto simp: register_member_def update_conv')
next
  case (Some m)
  with r refresh_core [OF ok Some] show ?thesis
    by (auto simp: register_member_def update_conv')
qed

lemma open_window_fields [simp]:
  "grp_members (open_window d now g) = grp_members g" "grp_static (open_window d now g) = grp_static g"
  "grp_leader (open_window d now g) = grp_leader g"
  by (simp_all add: open_window_def)

lemma core_ok_open_window [simp]: "core_ok (open_window d now g) = core_ok g"
  by (rule core_ok_fields) simp_all

lemma join_finish_ok:
  assumes core: "core_ok g" and k: "map_of (grp_members g) k \<noteq> None"
    and lead: "case grp_leader g of None \<Rightarrow> True | Some l \<Rightarrow> map_of (grp_members g) l \<noteq> None"
  shows "group_ok (if grp_leader g = None then g\<lparr>grp_leader := Some k\<rparr> else g)"
  using assms by (auto simp: group_ok_def leader_in_def split: option.splits)

lemma join_locked_ok:
  assumes ok: "group_ok g"
    and j: "join_locked gc now stamp mid inst protocols ms two g = (g', reply)"
  shows "group_ok g'"
proof -
  define g0 where "g0 = prune_expired_members (gc_max_poll gc) now g"
  have g0: "group_ok g0" using prune_ok [OF ok] by (simp add: g0_def)
  define rejoined where "rejoined = (case inst of None \<Rightarrow> None
    | Some i \<Rightarrow> if two then None else rejoin_static now i (resolve_session_timeout ms) g0)"
  show ?thesis
  proof (cases rejoined)
    case (Some res)
    then obtain i where "rejoin_static now i (resolve_session_timeout ms) g0 = Some res"
      by (auto simp: rejoined_def split: option.splits if_splits)
    moreover have "res = (g', reply)"
      using j Some by (simp add: join_locked_def Let_def g0_def [symmetric] rejoined_def [symmetric])
    ultimately show ?thesis using rejoin_static_ok [OF g0] by blast
  next
    case None
    obtain g1 m_id where c: "choose_member_id stamp mid inst g0 = (g1, m_id)" by fastforce
    obtain g2 rb where r: "register_member now m_id inst (resolve_session_timeout ms) two g1 = (g2, rb)"
      by fastforce
    have core0: "core_ok g0" and lead0: "leader_in g0" using g0 by (auto simp: group_ok_def)
    note C = choose_member_id_spec [OF core0 c]
    have core1: "core_ok g1" using core0 C core_ok_fields by blast
    have R: "core_ok g2 \<and> grp_leader g2 = grp_leader g1 \<and> grp_state g2 = grp_state g1 \<and>
      grp_generation g2 = grp_generation g1 \<and> map_of (grp_members g2) m_id \<noteq> None \<and>
      (\<forall>k. map_of (grp_members g1) k \<noteq> None \<longrightarrow> map_of (grp_members g2) k \<noteq> None)"
      by (rule register_member_ok [OF core1 r]) (use C in simp)
    define g3 where "g3 = (if grp_state g1 = GEmpty
      then g2\<lparr>grp_protocol := (case protocols of [] \<Rightarrow> None | p # _ \<Rightarrow> Some p)\<rparr> else g2)"
    define g4 where "g4 = (if rb \<or> grp_state g1 = GEmpty then open_window (gc_delay gc) now g3 else g3)"
    have g4: "core_ok g4" "grp_leader g4 = grp_leader g2" "grp_members g4 = grp_members g2"
      using R by (simp_all add: g4_def g3_def)
    have "g' = (if grp_leader g4 = None then g4\<lparr>grp_leader := Some m_id\<rparr> else g4)"
      using j unfolding join_locked_def Let_def g0_def [symmetric] rejoined_def [symmetric] None
        option.case c r prod.case g3_def [symmetric] g4_def [symmetric]
      by (simp only: prod.inject)
    moreover have "case grp_leader g4 of None \<Rightarrow> True | Some l \<Rightarrow> map_of (grp_members g4) l \<noteq> None"
      using lead0 R C by (auto simp: g4 leader_in_def split: option.splits)
    ultimately show ?thesis using join_finish_ok [OF g4(1), of m_id] R by (simp add: g4(3))
  qed
qed

section \<open>Assignments keep ownership exclusive\<close>

definition claimed :: "MemberAssignment list \<Rightarrow> (string \<times> nat) list" where
  "claimed as = concat (map (\<lambda>a. map (Pair (as_topic a)) (as_partitions a)) as)"

lemma insert_owners_Some:
  "insert_owners t ps owners = Some owners' \<Longrightarrow>
   distinct ps \<and> Pair t ` set ps \<inter> set owners = {} \<and> set owners' = set owners \<union> Pair t ` set ps"
proof (induction ps arbitrary: owners)
  case (Cons p ps)
  then have "(t, p) \<notin> set owners" "insert_owners t ps ((t, p) # owners) = Some owners'"
    by (auto split: if_splits)
  with Cons.IH [OF this(2)] show ?case by auto
qed simp

lemma check_assignments_None:
  "check_assignments members as owners = None \<Longrightarrow>
   distinct (claimed as) \<and> set (claimed as) \<inter> set owners = {} \<and>
   (\<forall>a\<in>set as. as_member_id a \<in> set members)"
proof (induction as arbitrary: owners)
  case Nil
  then show ?case by (simp add: claimed_def)
next
  case (Cons a as)
  from Cons.prems obtain owners' where o: "insert_owners (as_topic a) (as_partitions a) owners = Some owners'"
    "as_member_id a \<in> set members" "check_assignments members as owners' = None"
    by (auto split: if_splits option.splits)
  note I = insert_owners_Some [OF o(1)]
  have "distinct (map (Pair (as_topic a)) (as_partitions a))"
    using I by (simp add: distinct_map inj_on_def)
  with Cons.IH [OF o(3)] I o(2) show ?case
    by (auto simp: claimed_def)
qed

lemma assign_one_members:
  "map fst (assign_one a ms) = map fst ms"
  "map_of (assign_one a ms) k = Some m \<Longrightarrow>
    \<exists>m0. map_of ms k = Some m0 \<and> mem_instance m = mem_instance m0"
  using map_of_eq_None_iff [of ms "as_member_id a"]
  by (auto simp: assign_one_def update_conv' update_keys split: option.splits if_splits)

lemma assign_one_owns:
  "owns (assign_one a ms) k t p \<Longrightarrow>
   owns ms k t p \<or> as_member_id a = k \<and> as_topic a = t \<and> p \<in> set (as_partitions a)"
  by (auto simp: assign_one_def owns_update update_conv' split: option.splits if_splits)
    (auto simp: owns_def)

lemma fold_assign_owns:
  "owns (fold assign_one as ms) k t p \<Longrightarrow>
   owns ms k t p \<or> (\<exists>a\<in>set as. as_member_id a = k \<and> as_topic a = t \<and> p \<in> set (as_partitions a))"
proof (induction as arbitrary: ms)
  case (Cons a as)
  then show ?case using assign_one_owns [of a ms k t p] by fastforce
qed simp

lemma claimed_unique:
  "distinct (claimed as) \<Longrightarrow> a \<in> set as \<Longrightarrow> b \<in> set as \<Longrightarrow> as_topic a = as_topic b \<Longrightarrow>
   p \<in> set (as_partitions a) \<Longrightarrow> p \<in> set (as_partitions b) \<Longrightarrow> as_member_id a = as_member_id b"
proof (induction as)
  case (Cons c as)
  have sub: "x \<in> set as \<Longrightarrow> p \<in> set (as_partitions x) \<Longrightarrow> (as_topic x, p) \<in> set (claimed as)" for x
    by (auto simp: claimed_def)
  have dis: "(as_topic c, q) \<in> set (claimed as) \<Longrightarrow> q \<in> set (as_partitions c) \<Longrightarrow> False" for q
    using Cons.prems(1) by (auto simp: claimed_def)
  have dist: "distinct (claimed as)" using Cons.prems(1) by (simp add: claimed_def)
  consider "a = c" "b = c" | "a = c" "b \<in> set as" | "a \<in> set as" "b = c" | "a \<in> set as" "b \<in> set as"
    using Cons.prems(2,3) by auto
  then show ?case
  proof cases
    case 2
    then show ?thesis using sub [of b] dis Cons.prems by metis
  next
    case 3
    then show ?thesis using sub [of a] dis Cons.prems by metis
  next
    case 4
    then show ?thesis using Cons.IH [OF dist] Cons.prems by blast
  qed simp
qed simp

lemma clear_owns: "\<not> owns (clear_assignments ms) k t p"
  by (induction ms) (auto simp: owns_def clear_assignments_def split: if_splits)

lemma owned_once_assigned:
  "distinct (claimed as) \<Longrightarrow> owned_once (fold assign_one as (clear_assignments ms))"
  unfolding owned_once_def using fold_assign_owns clear_owns claimed_unique by metis

lemma fold_assign_members:
  "map fst (fold assign_one as ms) = map fst ms \<and>
   (\<forall>k m. map_of (fold assign_one as ms) k = Some m \<longrightarrow>
      (\<exists>m0. map_of ms k = Some m0 \<and> mem_instance m = mem_instance m0))"
proof (induction as arbitrary: ms)
  case (Cons a as)
  then show ?case using assign_one_members [of a ms] by simp (metis assign_one_members(2))
qed auto

lemma clear_members:
  "map fst (clear_assignments ms) = map fst ms"
  "map_of (clear_assignments ms) k = map_option (\<lambda>m. m\<lparr>mem_assigned := []\<rparr>) (map_of ms k)"
  by (induction ms) (auto simp: clear_assignments_def)

lemma lookup_keys: "map_of ms k \<noteq> None \<longleftrightarrow> k \<in> set (map fst ms)"
  by (simp add: map_of_eq_None_iff)

lemma sync_assign_ok:
  assumes ok: "group_ok g" and c: "check_assignments (map fst (grp_members g)) as [] = None"
    and m: "map_of (grp_members g) k \<noteq> None"
  shows "group_ok (g\<lparr>grp_members := fold assign_one as (clear_assignments (grp_members g)),
    grp_state := Stable\<rparr>)" (is "group_ok ?g")
proof -
  let ?ms = "fold assign_one as (clear_assignments (grp_members g))"
  have core: "core_ok g" and lead: "leader_in g" using ok by (auto simp: group_ok_def)
  note D = core_okD [OF core]
  have keys: "map fst ?ms = map fst (grp_members g)"
    using fold_assign_members [of as "clear_assignments (grp_members g)"] by (simp add: clear_members)
  have inst: "\<exists>m0. map_of (grp_members g) k = Some m0 \<and> mem_instance x = mem_instance m0"
    if "map_of ?ms k = Some x" for k x
    using fold_assign_members [of as "clear_assignments (grp_members g)"] that
    by (auto simp: clear_members) fastforce
  have look: "map_of ?ms k \<noteq> None \<longleftrightarrow> map_of (grp_members g) k \<noteq> None" for k
    unfolding lookup_keys keys ..
  have "core_ok ?g"
  proof (rule core_okI)
    show "distinct (map fst (grp_members ?g))" using D(1) keys by simp
    show "distinct (map fst (grp_static ?g))" using D(2) by simp
    show "owned_once (grp_members ?g)"
      using owned_once_assigned check_assignments_None [OF c] by simp
    fix i x assume "map_of (grp_static ?g) i = Some x"
    then have "map_of (grp_static g) i = Some x" by simp
    from D(3) [OF this] obtain m0 n where m0: "map_of (grp_members g) x = Some m0"
      "mem_instance m0 = Some i" "x = instance_member_id i n" by blast
    with look [of x] obtain y where "map_of ?ms x = Some y" by auto
    with inst [OF this] m0
    show "\<exists>m n. map_of (grp_members ?g) x = Some m \<and> mem_instance m = Some i \<and> x = instance_member_id i n"
      by auto
  qed
  moreover have "?ms \<noteq> []" using look [of k] m by auto
  moreover have "leader_in ?g"
    using lead look \<open>?ms \<noteq> []\<close> m by (auto simp: leader_in_def split: option.splits)
  ultimately show ?thesis by (simp add: group_ok_def)
qed

lemma sync_locked_ok:
  assumes "group_ok g" "sync_locked mp now gen mid as g = (g', r)"
  shows "group_ok g'"
proof -
  define g0 where "g0 = prune_expired_members mp now g"
  have g0: "group_ok g0" using prune_ok [OF assms(1)] by (simp add: g0_def)
  show ?thesis
  proof (cases "gen = grp_generation g0 \<and> map_of (grp_members g0) mid \<noteq> None \<and>
      grp_leader g0 = Some mid \<and> (grp_state g0 \<noteq> Stable \<or> as \<noteq> []) \<and>
      check_assignments (map fst (grp_members g0)) as [] = None")
    case True
    then have "g' = g0\<lparr>grp_members := fold assign_one as (clear_assignments (grp_members g0)),
        grp_state := Stable\<rparr>"
      using assms(2) by (auto simp: sync_locked_def Let_def g0_def [symmetric] split: if_splits)
    moreover have "group_ok (g0\<lparr>grp_members := fold assign_one as (clear_assignments (grp_members g0)),
        grp_state := Stable\<rparr>)"
      using True by (intro sync_assign_ok [OF g0, of as mid]) auto
    ultimately show ?thesis by simp
  next
    case False
    then have "g' = g0"
      using assms(2) by (auto simp: sync_locked_def Let_def g0_def [symmetric] split: if_splits option.splits)
    with g0 show ?thesis by simp
  qed
qed

lemma touch_ok:
  "group_ok g \<Longrightarrow> group_ok (touch_heartbeat now mid g)" "group_ok g \<Longrightarrow> group_ok (touch_progress now mid g)"
  by (auto simp: touch_heartbeat_def touch_progress_def split: option.split intro!: refresh_ok)

lemma heartbeat_locked_ok:
  "group_ok g \<Longrightarrow> heartbeat_locked mp now gen mid g = (g', r) \<Longrightarrow> group_ok g'"
  using prune_ok [of g mp now] touch_ok(1) [of "prune_expired_members mp now g"]
  by (auto simp: heartbeat_locked_def Let_def split: if_splits)

lemma core_ok_unstatic:
  "core_ok g \<Longrightarrow> core_ok (g\<lparr>grp_static := AList.delete i (grp_static g)\<rparr>)"
  by (auto simp: core_ok_def distinct_delete delete_conv' split: if_splits)

lemma leave_locked_ok:
  assumes "group_ok g"
  shows "group_ok (leave_locked mid inst g)"
proof -
  obtain g1 k where s: "(case inst of
            None \<Rightarrow> (g, mid)
          | Some i \<Rightarrow> (case map_of (grp_static g) i of
                        Some resolved \<Rightarrow> (g\<lparr>grp_static := AList.delete i (grp_static g)\<rparr>, resolved)
                      | None \<Rightarrow> (g, mid))) = (g1, k)" by fastforce
  have g1: "core_ok g1" "grp_members g1 = grp_members g" "grp_leader g1 = grp_leader g"
    using s assms core_ok_unstatic [of g] by (auto simp: group_ok_def split: option.splits)
  have lead: "leader_in g1"
    using assms g1(2,3) by (cases "grp_leader g") (auto simp: group_ok_def leader_in_def)
  define g2 where "g2 = drop_member k g1"
  have core: "core_ok g2" using drop_member_core [OF g1(1)] by (simp add: g2_def)
  have eq: "leave_locked mid inst g = (if grp_members g2 = [] then g2\<lparr>grp_state := GEmpty, grp_leader := None\<rparr>
      else g2\<lparr>grp_state := PreparingRebalance,
             grp_leader := (if grp_leader g2 = Some k then first_key (grp_members g2) else grp_leader g2)\<rparr>)"
    unfolding leave_locked_def s by (simp add: Let_def g2_def)
  show ?thesis
  proof (cases "grp_members g2 = []")
    case True
    with core show ?thesis by (simp add: eq group_ok_def leader_in_def)
  next
    case False
    have "leader_in (leave_locked mid inst g)"
      by (rule leader_in_drop [OF lead, of _ k]) (use False in \<open>simp_all add: eq g2_def\<close>)
    with False core show ?thesis by (simp add: eq group_ok_def)
  qed
qed

lemma close_window_ok: "group_ok g \<Longrightarrow> group_ok (close_window now g)"
  by (auto simp: close_window_def group_ok_def leader_in_def split: option.split)

lemma new_group_ok: "group_ok (new_group gid)"
  by (simp add: group_ok_def core_ok_def leader_in_def new_group_def owned_once_def owns_def)

section \<open>Requests\<close>

datatype group_request =
    JoinReq string string "string option" "string list" "nat option" bool
  | SyncReq string nat string "MemberAssignment list"
  | HeartbeatReq string nat string
  | LeaveReq string string "string option"
  | ProgressReq string string
  | CloseReq string
  | ListReq
  | DescribeReq string

fun serve :: "instant \<times> nat \<times> group_request \<Rightarrow> GroupCoordinator \<Rightarrow> GroupCoordinator" where
  "serve (now, stamp, JoinReq gid mid inst ps ms two) gc = fst (join_group now stamp gid mid inst ps ms two gc)"
| "serve (now, stamp, SyncReq gid gen mid as) gc = fst (sync_group now gid gen mid as gc)"
| "serve (now, stamp, HeartbeatReq gid gen mid) gc = fst (heartbeat now gid gen mid gc)"
| "serve (now, stamp, LeaveReq gid mid inst) gc = fst (leave_group gid mid inst gc)"
| "serve (now, stamp, ProgressReq gid mid) gc = record_progress now gid mid gc"
| "serve (now, stamp, CloseReq gid) gc = close_join_window now gid gc"
| "serve (now, stamp, ListReq) gc = fst (list_groups now gc)"
| "serve (now, stamp, DescribeReq gid) gc = fst (describe_group now gid gc)"

definition groups_ok :: "GroupCoordinator \<Rightarrow> bool" where
  "groups_ok gc \<longleftrightarrow> (\<forall>gid g. map_of (gc_groups gc) gid = Some g \<longrightarrow> group_ok g)"

lemma put_group_ok: "groups_ok gc \<Longrightarrow> group_ok g \<Longrightarrow> groups_ok (put_group gid g gc)"
  by (auto simp: groups_ok_def put_group_def update_conv')

lemma groups_okD: "groups_ok gc \<Longrightarrow> map_of (gc_groups gc) gid = Some g \<Longrightarrow> group_ok g"
  by (simp add: groups_ok_def)

lemma map_of_map_prune:
  "map_of (map (\<lambda>(k, g). (k, f g)) xs) k = map_option f (map_of xs k)"
  by (induction xs) auto

lemma serve_ok:
  assumes ok: "groups_ok gc"
  shows "groups_ok (serve r gc)"
proof -
  obtain now stamp q where r: "r = (now, stamp, q)" by (cases r)
  show ?thesis
  proof (cases q)
  case (JoinReq gid mid inst ps ms two)
  obtain g' reply where j: "join_locked gc now stamp mid inst ps ms two
      (case map_of (gc_groups gc) gid of None \<Rightarrow> new_group gid | Some g \<Rightarrow> g) = (g', reply)"
    by (meson surj_pair)
  have "group_ok (case map_of (gc_groups gc) gid of None \<Rightarrow> new_group gid | Some g \<Rightarrow> g)"
    using ok new_group_ok by (auto simp: groups_ok_def split: option.split)
  from join_locked_ok [OF this j] ok j JoinReq r show ?thesis by (simp add: join_group_def Let_def put_group_ok)
next
  case (SyncReq gid gen mid as)
  with ok r show ?thesis
    by (auto simp: sync_group_def split: option.split prod.split intro!: put_group_ok
        dest: groups_okD sync_locked_ok)
next
  case (HeartbeatReq gid gen mid)
  with ok r show ?thesis
    by (auto simp: heartbeat_def split: option.split prod.split intro!: put_group_ok
        dest: groups_okD heartbeat_locked_ok)
next
  case (LeaveReq gid mid inst)
  with ok r show ?thesis
    by (auto simp: leave_group_def split: option.split intro!: put_group_ok leave_locked_ok dest: groups_okD)
next
  case (ProgressReq gid mid)
  with ok r show ?thesis
    by (auto simp: record_progress_def split: option.split intro!: put_group_ok touch_ok dest: groups_okD)
next
  case (CloseReq gid)
  with ok r show ?thesis
    by (auto simp: close_join_window_def split: option.split intro!: put_group_ok close_window_ok dest: groups_okD)
next
  case ListReq
  with ok r show ?thesis
    by (auto simp: list_groups_def groups_ok_def map_of_map_prune intro!: prune_ok)
next
  case (DescribeReq gid)
  with ok r show ?thesis
    by (auto simp: describe_group_def Let_def split: option.split intro!: put_group_ok prune_ok dest: groups_okD)
  qed
qed

definition coordinator_run :: "duration \<Rightarrow> duration \<Rightarrow> (instant \<times> nat \<times> group_request) list \<Rightarrow> GroupCoordinator" where
  "coordinator_run delay max_poll rs = fold serve rs (with_config delay max_poll)"

lemma run_ok: "groups_ok (coordinator_run delay max_poll rs)"
proof -
  have "groups_ok (fold serve rs gc)" if "groups_ok gc" for gc
    using that by (induction rs arbitrary: gc) (simp_all add: serve_ok)
  moreover have "groups_ok (with_config delay max_poll)" by (simp add: with_config_def groups_ok_def)
  ultimately show ?thesis by (simp add: coordinator_run_def)
qed

section \<open>A group of one member\<close>

definition demo_group_requests :: "(instant \<times> nat \<times> group_request) list" where
  "demo_group_requests =
     [(0, 0, JoinReq ''g'' ''a'' None [''range''] None False),
      (1, 0, SyncReq ''g'' 1 ''a'' [\<lparr>as_member_id = ''a'', as_topic = ''t'', as_partitions = [0, 1]\<rparr>])]"

definition demo_member :: MemberState where
  "demo_member = \<lparr>mem_id = ''a'', mem_client_id = ''a'', mem_session_timeout = DEFAULT_SESSION_TIMEOUT,
     mem_assigned = [(''t'', [0, 1])], mem_last_heartbeat = 0, mem_last_progress = 0, mem_instance = None\<rparr>"

definition demo_group :: ConsumerGroup where
  "demo_group = \<lparr>grp_id = ''g'', grp_state = Stable, grp_generation = 1, grp_leader = Some ''a'',
     grp_members = [(''a'', demo_member)], grp_protocol = Some ''range'', grp_deadline = Some 8,
     grp_static = [], grp_seq = 0, grp_evictions = []\<rparr>"

lemma demo_group_run:
  "map_of (gc_groups (coordinator_run 8 100 demo_group_requests)) ''g'' = Some demo_group"
  by (simp add: coordinator_run_def demo_group_requests_def with_config_def join_group_def join_locked_def
      new_group_def prune_expired_members_def expired_members_def map_filter_simps choose_member_id_def
      register_member_def open_window_def join_window_open_def put_group_def sync_group_def sync_locked_def
      clear_assignments_def assign_one_def demo_group_def demo_member_def resolve_session_timeout_def Let_def
      DEFAULT_SESSION_TIMEOUT_def millis_def)


section \<open>Properties\<close>

text \<open>C17 Exclusive ownership: after any sequence of requests to the coordinator, in every
  group, no partition of any topic is in the assignments of two members.\<close>

theorem partitions_owned_once:
  assumes "map_of (gc_groups (coordinator_run delay max_poll rs)) gid = Some g"
    and "map_of (grp_members g) k = Some m" "map_of (grp_members g) k' = Some m'"
    and "map_of (mem_assigned m) t = Some ps" "map_of (mem_assigned m') t = Some ps'"
    and "p \<in> set ps" "p \<in> set ps'"
  shows "k = k'"
proof -
  have "owned_once (grp_members g)"
    using groups_okD [OF run_ok assms(1)] by (simp add: group_ok_def core_ok_def)
  with assms(2-) show ?thesis unfolding owned_once_def owns_def by blast
qed

theorem partitions_owned_once_witness:
  "map_of (gc_groups (coordinator_run 8 100 demo_group_requests)) ''g'' = Some demo_group \<and>
   map_of (grp_members demo_group) ''a'' = Some demo_member \<and>
   map_of (mem_assigned demo_member) ''t'' = Some [0, 1] \<and>
   map_of (grp_members demo_group) ''b'' \<noteq> Some demo_member"
proof -
  have a: "map_of (grp_members demo_group) ''a'' = Some demo_member" "map_of (mem_assigned demo_member) ''t'' = Some [0, 1]"
    by (simp_all add: demo_group_def demo_member_def)
  have "''a'' = ''b''" if "map_of (grp_members demo_group) ''b'' = Some demo_member"
    by (rule partitions_owned_once [OF demo_group_run a(1) that a(2) a(2), of 0]) simp_all
  then have "map_of (grp_members demo_group) ''b'' \<noteq> Some demo_member" by auto
  with a demo_group_run show ?thesis by blast
qed

text \<open>C29 Membership: after any sequence of requests, a group with members has a leader and the
  leader is one of them, a group without members is empty and has none, and every static
  instance holds the slot of a member that declared it.\<close>

theorem group_membership_consistent:
  assumes "map_of (gc_groups (coordinator_run delay max_poll rs)) gid = Some g"
  shows "(if grp_members g = [] then grp_leader g = None \<and> grp_state g = GEmpty
      else \<exists>l m. grp_leader g = Some l \<and> map_of (grp_members g) l = Some m) \<and>
    (\<forall>i k. map_of (grp_static g) i = Some k \<longrightarrow>
      (\<exists>m. map_of (grp_members g) k = Some m \<and> mem_instance m = Some i))"
proof -
  have ok: "group_ok g" by (rule groups_okD [OF run_ok assms])
  then have core: "core_ok g" and lead: "leader_in g" by (simp_all add: group_ok_def)
  have "\<forall>i k. map_of (grp_static g) i = Some k \<longrightarrow>
      (\<exists>m. map_of (grp_members g) k = Some m \<and> mem_instance m = Some i)"
    using core_okD(3) [OF core] by blast
  moreover have "if grp_members g = [] then grp_leader g = None \<and> grp_state g = GEmpty
      else \<exists>l m. grp_leader g = Some l \<and> map_of (grp_members g) l = Some m"
    using ok lead by (cases "grp_leader g") (auto simp: group_ok_def leader_in_def)
  ultimately show ?thesis by blast
qed

theorem group_membership_consistent_witness:
  "map_of (gc_groups (coordinator_run 8 100 demo_group_requests)) ''g'' = Some demo_group \<and>
   (\<exists>l m. grp_leader demo_group = Some l \<and> map_of (grp_members demo_group) l = Some m)"
  using group_membership_consistent [OF demo_group_run] demo_group_run by (simp add: demo_group_def)

text \<open>C32 A request of a past generation changes nothing but what pruning would: sync and
  heartbeat answer with an error, and no assignment is installed.\<close>

theorem stale_generation_rejected:
  assumes "generation \<noteq> grp_generation g"
  shows "sync_locked max_poll now generation member_id assignments g =
      (prune_expired_members max_poll now g, Inl (GenerationMismatch (grp_generation g) generation)) \<and>
    (\<exists>g' e. heartbeat_locked max_poll now generation member_id g = (g', Inl e) \<and>
      map (\<lambda>(k, m). (k, mem_assigned m)) (grp_members g') =
      map (\<lambda>(k, m). (k, mem_assigned m)) (grp_members (prune_expired_members max_poll now g)))"
proof -
  have same: "map (\<lambda>(k, m). (k, mem_assigned m)) (AList.update k (m\<lparr>mem_last_heartbeat := now\<rparr>) ms) =
      map (\<lambda>(k, m). (k, mem_assigned m)) ms" if "map_of ms k = Some m" for k m and ms :: "(string \<times> MemberState) list"
    using that by (induction ms) (auto split: if_splits)
  show ?thesis
    using assms
    by (auto simp: sync_locked_def heartbeat_locked_def Let_def touch_heartbeat_def same split: option.split)
qed

theorem stale_generation_rejected_witness:
  "(0::nat) \<noteq> grp_generation demo_group \<and>
   snd (sync_locked 100 2 0 ''a'' [] demo_group) = Inl (GenerationMismatch (grp_generation demo_group) 0)"
  using stale_generation_rejected [of 0 demo_group 100 2 "''a''" "[]"] by (simp add: demo_group_def)

text \<open>A static member that returns within its session keeps its slot: the group's
  generation, state and the other members stay as they are, the assignment is the one it had,
  and a leader stays leader under its new member id.\<close>

theorem static_rejoin_keeps_slot:
  assumes "map_of (grp_static g) inst = Some prev" "map_of (grp_members g) prev = Some m"
  shows "\<exists>g' new_id is_leader proto.
      rejoin_static now inst st g = Some (g', (new_id, grp_generation g, is_leader, proto)) \<and>
      grp_generation g' = grp_generation g \<and> grp_state g' = grp_state g \<and>
      own_assignment new_id g' = mem_assigned m \<and>
      is_leader = (grp_leader g = Some prev) \<and> (is_leader \<longrightarrow> grp_leader g' = Some new_id) \<and>
      (\<forall>k. k \<noteq> prev \<longrightarrow> k \<noteq> new_id \<longrightarrow> map_of (grp_members g') k = map_of (grp_members g) k) \<and>
      (prev \<noteq> new_id \<longrightarrow> map_of (grp_members g') prev = None)"
  using assms
  by (auto simp: rejoin_static_def Let_def own_assignment_def update_conv' delete_conv')

theorem static_rejoin_keeps_slot_witness:
  "\<exists>g' new_id is_leader proto.
      rejoin_static 5 ''i'' 100 (demo_group\<lparr>grp_static := [(''i'', ''a'')]\<rparr>) =
        Some (g', (new_id, grp_generation demo_group, is_leader, proto)) \<and>
      own_assignment new_id g' = [(''t'', [0, 1])]"
proof -
  let ?g = "demo_group\<lparr>grp_static := [(''i'', ''a'')]\<rparr>"
  have "map_of (grp_static ?g) ''i'' = Some ''a''" "map_of (grp_members ?g) ''a'' = Some demo_member"
    by (simp_all add: demo_group_def)
  note slot = static_rejoin_keeps_slot [OF this, of 5 100]
  have "mem_assigned demo_member = [(''t'', [0, 1])]" "grp_generation ?g = grp_generation demo_group"
    by (simp_all add: demo_member_def)
  then show ?thesis using slot by (elim exE conjE) (intro exI conjI, simp_all only:)
qed

section \<open>Limits of the code\<close>

text \<open>
  A member that leaves during its own join window leaves the window open behind an empty
  group. The next member to join only extends that window: the group keeps state \<open>Empty\<close>
  although it has a member, and the generation is the one the departed member had.
\<close>

lemma rejoin_open_window_stays_empty:
  "map_option (\<lambda>g. (grp_state g, grp_generation g, map fst (grp_members g)))
     (map_of (gc_groups (coordinator_run 8 100
        [(0, 0, JoinReq ''g'' ''a'' None [''range''] None False), (1, 0, LeaveReq ''g'' ''a'' None),
         (2, 0, JoinReq ''g'' ''b'' None [''range''] None False)])) ''g'') = Some (GEmpty, 1, [''b''])"
  by (simp add: coordinator_run_def with_config_def join_group_def join_locked_def leave_group_def
      leave_locked_def drop_member_def new_group_def prune_expired_members_def expired_members_def
      map_filter_simps choose_member_id_def register_member_def open_window_def join_window_open_def
      put_group_def resolve_session_timeout_def Let_def)

end
