(* ===== verification/Indexes.thy ===== *)
theory Indexes
  imports Record_Stream
begin

text \<open>
  The three index files kept beside a log segment (\<^verbatim>\<open>src/segment/index.rs\<close>,
  \<^verbatim>\<open>src/segment/timeindex.rs\<close>, \<^verbatim>\<open>src/segment/txnindex.rs\<close>): offsets to positions,
  timestamps to offsets, and the ranges of aborted transactions. Each is a file of entries
  of one width with a copy of the entries in memory. The locale \<open>entry_file\<close> is what they
  share: entries of one width that decode back. Under it a file of whole entries, also with
  a torn last one, loads exactly these entries.
\<close>

section \<open>Files of fixed-width entries\<close>

text \<open>\<open>raw_buf.as_chunks::<WIDTH>().0\<close>: the whole chunks, without the remainder.\<close>

function as_chunks :: "nat \<Rightarrow> bytes \<Rightarrow> bytes list" where
  "as_chunks w bs =
     (if w = 0 \<or> length bs < w then [] else take w bs # as_chunks w (drop w bs))"
  by pat_completeness auto
termination by (relation "measure (\<lambda>(w, bs). length bs)") auto

declare as_chunks.simps [simp del]

text \<open>\<open>write_all\<close> of one entry at the end of the file, and the push that follows it.\<close>

definition push_entry ::
    "('e \<Rightarrow> bytes) \<Rightarrow> write_result \<Rightarrow> 'e \<Rightarrow> bytes \<times> 'e list \<Rightarrow> (bytes \<times> 'e list) \<times> bool" where
  "push_entry enc w e st =
     (case st of (content, es) \<Rightarrow>
        (case w of
           Written \<Rightarrow> ((content @ enc e, es @ [e]), True)
         | Torn n \<Rightarrow> ((content @ take n (enc e), es), False)))"

text \<open>
  The outcomes of a rewrite: \<open>set_len(0)\<close> fails, the seek fails after it, or the writes are
  made, one outcome for each entry (writes beyond the list succeed), then the sync.
\<close>

datatype rebuild_io = SetLenFails | SeekFails | Writes "write_result list" bool

fun push_entries ::
    "('e \<Rightarrow> bytes) \<Rightarrow> write_result list \<Rightarrow> 'e list \<Rightarrow> bytes \<times> 'e list \<Rightarrow> (bytes \<times> 'e list) \<times> bool" where
  "push_entries enc ws [] st = (st, True)"
| "push_entries enc ws (e # es) st =
     (case push_entry enc (case ws of [] \<Rightarrow> Written | w # _ \<Rightarrow> w) e st of
        (st', ok) \<Rightarrow> if ok then push_entries enc (tl ws) es st' else (st', False))"

definition rewrite_entries ::
    "('e \<Rightarrow> bytes) \<Rightarrow> rebuild_io \<Rightarrow> 'e list \<Rightarrow> bytes \<times> 'e list \<Rightarrow> (bytes \<times> 'e list) \<times> bool" where
  "rewrite_entries enc io new st =
     (case io of
        SetLenFails \<Rightarrow> (st, False)
      | SeekFails \<Rightarrow> (([], snd st), False)
      | Writes ws synced \<Rightarrow>
          (case push_entries enc ws new ([], []) of (st', ok) \<Rightarrow> (st', ok \<and> synced)))"

lemma push_entry_simps [simp]:
  "push_entry enc Written e (content, es) = ((content @ enc e, es @ [e]), True)"
  "push_entry enc (Torn n) e (content, es) = ((content @ take n (enc e), es), False)"
  by (simp_all add: push_entry_def)

lemma as_chunks_short [simp]: "length bs < w \<Longrightarrow> as_chunks w bs = []"
  by (simp add: as_chunks.simps)

lemma as_chunks_cons:
  "\<lbrakk>0 < w; length c = w\<rbrakk> \<Longrightarrow> as_chunks w (c @ bs) = c # as_chunks w bs"
  by (subst as_chunks.simps) simp

text \<open>
  What an index file promises at any moment: it is the image of the entries in memory,
  followed by less than one entry left behind by a torn write.
\<close>

locale entry_file =
  fixes enc :: "'e \<Rightarrow> bytes" and dec :: "bytes \<Rightarrow> 'e" and width :: nat
    and valid :: "'e \<Rightarrow> bool"
  assumes width_pos: "0 < width"
    and length_enc: "length (enc e) = width"
    and dec_enc: "valid e \<Longrightarrow> dec (enc e) = e"
begin

definition image :: "'e list \<Rightarrow> bytes" where
  "image es = concat (map enc es)"

lemma load_image:
  "\<lbrakk>list_all valid es; length torn < width\<rbrakk>
     \<Longrightarrow> map dec (as_chunks width (image es @ torn)) = es"
proof (induction es)
  case Nil
  then show ?case by (simp add: image_def)
next
  case (Cons e es)
  then have "map dec (as_chunks width (image es @ torn)) = es" by simp
  moreover have "as_chunks width (enc e @ (image es @ torn)) = enc e # as_chunks width (image es @ torn)"
    by (rule as_chunks_cons [OF width_pos length_enc])
  ultimately show ?case using Cons.prems by (simp add: image_def dec_enc)
qed

lemma image_snoc [simp]: "image (es @ [e]) = image es @ enc e"
  by (simp add: image_def)

lemma image_Nil [simp]: "image [] = []"
  by (simp add: image_def)

lemma image_single [simp]: "image [e] = enc e"
  by (simp add: image_def)

lemma push_entry_image:
  "push_entry enc w e (image es, es) = ((content, es'), ok) \<Longrightarrow>
     (if ok then content = image es' \<and> es' = es @ [e]
      else es' = es \<and> (\<exists>n. content = image es @ take n (enc e)))"
  by (auto simp: push_entry_def split: write_result.splits)

lemma push_entries_image:
  "push_entries enc ws new (image es, es) = ((content, es'), ok) \<Longrightarrow>
     (\<exists>k \<le> length new. es' = es @ take k new \<and> (ok \<longrightarrow> k = length new) \<and>
        (if ok then content = image es'
         else k < length new \<and> (\<exists>n. content = image es' @ take n (enc (new ! k)))))"
proof (induction new arbitrary: ws es)
  case Nil
  then show ?case by auto
next
  case (Cons e new)
  show ?case
  proof (cases "case ws of [] \<Rightarrow> Written | w # _ \<Rightarrow> w")
    case Written
    with Cons.prems have "push_entries enc (tl ws) new (image (es @ [e]), es @ [e]) = ((content, es'), ok)"
      by simp
    from Cons.IH [OF this] obtain k where k: "k \<le> length new" "es' = (es @ [e]) @ take k new"
      "ok \<longrightarrow> k = length new"
      "if ok then content = image es'
       else k < length new \<and> (\<exists>n. content = image es' @ take n (enc (new ! k)))" by blast
    show ?thesis by (rule exI [of _ "Suc k"]) (use k in auto)
  next
    case (Torn n)
    with Cons.prems have "es' = es" "\<not> ok" "content = image es @ take n (enc e)" by auto
    then show ?thesis by (intro exI [of _ 0]) auto
  qed
qed

lemma rewrite_done:
  assumes "rewrite_entries enc io new st = ((content, es'), True)"
  shows "content = image new \<and> es' = new"
proof (cases io)
  case (Writes ws synced)
  with assms have "push_entries enc ws new (image [], []) = ((content, es'), True)"
    by (auto simp: rewrite_entries_def split: prod.splits)
  from push_entries_image [OF this] show ?thesis by auto
qed (use assms in \<open>simp_all add: rewrite_entries_def\<close>)

end

section \<open>The offset index\<close>

definition INDEX_ENTRY_SIZE :: nat where
  "INDEX_ENTRY_SIZE = 8"

record IndexEntry =
  relative_offset :: nat
  physical_position :: nat

definition encode_index :: "IndexEntry \<Rightarrow> bytes" where
  "encode_index e = be_bytes 4 (relative_offset e) @ be_bytes 4 (physical_position e)"

definition decode_index :: "bytes \<Rightarrow> IndexEntry" where
  "decode_index buf =
     \<lparr>relative_offset = be_val (take 4 buf), physical_position = be_val (take 4 (drop 4 buf))\<rparr>"

record IndexSegment =
  ix_content :: bytes
  ix_entries :: "IndexEntry list"
  ix_base_offset :: offset

definition open_index :: "bytes \<Rightarrow> offset \<Rightarrow> IndexSegment" where
  "open_index content base =
     \<lparr>ix_content = content,
      ix_entries = map decode_index (as_chunks INDEX_ENTRY_SIZE content),
      ix_base_offset = base\<rparr>"

definition ix_store :: "(bytes \<times> IndexEntry list) \<Rightarrow> IndexSegment \<Rightarrow> IndexSegment" where
  "ix_store st x = x\<lparr>ix_content := fst st, ix_entries := snd st\<rparr>"

definition last_entry :: "IndexSegment \<Rightarrow> IndexEntry option" where
  "last_entry x = (if ix_entries x = [] then None else Some (last (ix_entries x)))"

text \<open>\<open>saturating_sub\<close> is subtraction of natural numbers; \<open>as u32\<close> keeps the low 32 bits.\<close>

definition relative :: "IndexSegment \<Rightarrow> offset \<Rightarrow> nat" where
  "relative x logical = (logical - ix_base_offset x) mod 2 ^ 32"

definition append_index :: "write_result \<Rightarrow> offset \<Rightarrow> nat \<Rightarrow> IndexSegment \<Rightarrow> IndexSegment \<times> bool" where
  "append_index w logical pos x =
     (if U32_MAX < pos then (x, False)
      else (case push_entry encode_index w
                   \<lparr>relative_offset = relative x logical, physical_position = pos\<rparr>
                   (ix_content x, ix_entries x) of
              (st, ok) \<Rightarrow> (ix_store st x, ok)))"

definition find_nearest_physical_pos :: "offset \<Rightarrow> IndexSegment \<Rightarrow> IndexEntry option" where
  "find_nearest_physical_pos target x =
     (if ix_entries x = [] then None
      else (case binary_search (map relative_offset (ix_entries x)) (relative x target) of
              Inr idx \<Rightarrow> Some (ix_entries x ! idx)
            | Inl idx \<Rightarrow> if idx = 0 then Some (ix_entries x ! 0) else Some (ix_entries x ! (idx - 1))))"

definition truncate_and_rebuild ::
    "rebuild_io \<Rightarrow> IndexEntry list \<Rightarrow> IndexSegment \<Rightarrow> IndexSegment \<times> bool" where
  "truncate_and_rebuild io new x =
     (case rewrite_entries encode_index io new (ix_content x, ix_entries x) of
        (st, ok) \<Rightarrow> (ix_store st x, ok))"

definition truncate_index_after :: "rebuild_io \<Rightarrow> offset \<Rightarrow> IndexSegment \<Rightarrow> IndexSegment \<times> bool" where
  "truncate_index_after io logical x =
     truncate_and_rebuild io
       (filter (\<lambda>e. relative_offset e < relative x logical) (ix_entries x)) x"

section \<open>The time index\<close>

definition TIME_INDEX_ENTRY_SIZE :: nat where
  "TIME_INDEX_ENTRY_SIZE = 16"

record TimeIndexEntry =
  timestamp :: nat
  logical_offset :: offset

definition encode_time :: "TimeIndexEntry \<Rightarrow> bytes" where
  "encode_time e = be_bytes 8 (timestamp e) @ be_bytes 8 (logical_offset e)"

definition decode_time :: "bytes \<Rightarrow> TimeIndexEntry" where
  "decode_time buf =
     \<lparr>timestamp = be_val (take 8 buf), logical_offset = be_val (take 8 (drop 8 buf))\<rparr>"

record TimeIndexSegment =
  ti_content :: bytes
  ti_entries :: "TimeIndexEntry list"
  ti_base_offset :: offset

definition open_time_index :: "bytes \<Rightarrow> offset \<Rightarrow> TimeIndexSegment" where
  "open_time_index content base =
     \<lparr>ti_content = content,
      ti_entries = map decode_time (as_chunks TIME_INDEX_ENTRY_SIZE content),
      ti_base_offset = base\<rparr>"

definition ti_store :: "(bytes \<times> TimeIndexEntry list) \<Rightarrow> TimeIndexSegment \<Rightarrow> TimeIndexSegment" where
  "ti_store st x = x\<lparr>ti_content := fst st, ti_entries := snd st\<rparr>"

definition append_time ::
    "write_result \<Rightarrow> nat \<Rightarrow> offset \<Rightarrow> TimeIndexSegment \<Rightarrow> TimeIndexSegment \<times> bool" where
  "append_time w ts logical x =
     (let monotonic = (if ti_entries x = [] then ts else max ts (timestamp (last (ti_entries x))));
          e = \<lparr>timestamp = monotonic, logical_offset = logical\<rparr>
      in case push_entry encode_time w e (ti_content x, ti_entries x) of
           (st, ok) \<Rightarrow> (ti_store st x, ok))"

definition truncate_time_after ::
    "rebuild_io \<Rightarrow> offset \<Rightarrow> TimeIndexSegment \<Rightarrow> TimeIndexSegment \<times> bool" where
  "truncate_time_after io logical x =
     (case rewrite_entries encode_time io
             (filter (\<lambda>e. logical_offset e < logical) (ti_entries x)) (ti_content x, ti_entries x) of
        (st, ok) \<Rightarrow> (ti_store st x, ok))"

definition max_timestamp :: "TimeIndexSegment \<Rightarrow> nat option" where
  "max_timestamp x =
     (if ti_entries x = [] then None else Some (Max (set (map timestamp (ti_entries x)))))"

definition find_offset_for_timestamp :: "nat \<Rightarrow> TimeIndexSegment \<Rightarrow> offset option" where
  "find_offset_for_timestamp target x =
     (if ti_entries x = [] then None
      else (case binary_search (map timestamp (ti_entries x)) target of
              Inr idx \<Rightarrow> Some (logical_offset (ti_entries x ! idx))
            | Inl idx \<Rightarrow> if idx = 0 then None
                         else Some (logical_offset (ti_entries x ! (idx - 1)))))"

section \<open>The index of aborted transactions\<close>

definition TXN_INDEX_ENTRY_SIZE :: nat where
  "TXN_INDEX_ENTRY_SIZE = 24"

record TxnIndexEntry =
  txn_producer_id :: nat
  first_offset :: offset
  last_offset :: offset

definition encode_txn :: "TxnIndexEntry \<Rightarrow> bytes" where
  "encode_txn e =
     be_bytes 8 (txn_producer_id e) @ be_bytes 8 (first_offset e) @ be_bytes 8 (last_offset e)"

definition decode_txn :: "bytes \<Rightarrow> TxnIndexEntry" where
  "decode_txn buf =
     \<lparr>txn_producer_id = be_val (take 8 buf), first_offset = be_val (take 8 (drop 8 buf)),
      last_offset = be_val (take 8 (drop 16 buf))\<rparr>"

record TxnIndexSegment =
  tx_content :: bytes
  tx_entries :: "TxnIndexEntry list"

definition open_txn_index :: "bytes \<Rightarrow> TxnIndexSegment" where
  "open_txn_index content =
     \<lparr>tx_content = content,
      tx_entries = map decode_txn (as_chunks TXN_INDEX_ENTRY_SIZE content)\<rparr>"

definition tx_store :: "(bytes \<times> TxnIndexEntry list) \<Rightarrow> TxnIndexSegment \<Rightarrow> TxnIndexSegment" where
  "tx_store st x = x\<lparr>tx_content := fst st, tx_entries := snd st\<rparr>"

text \<open>The entry is synced before it is pushed: a failed sync leaves it in the file only.\<close>

definition append_txn ::
    "write_result \<Rightarrow> bool \<Rightarrow> nat \<Rightarrow> offset \<Rightarrow> offset \<Rightarrow> TxnIndexSegment \<Rightarrow> TxnIndexSegment \<times> bool" where
  "append_txn w synced pid lo hi x =
     (let e = \<lparr>txn_producer_id = pid, first_offset = lo, last_offset = hi\<rparr>
      in case push_entry encode_txn w e (tx_content x, tx_entries x) of
           (st, ok) \<Rightarrow>
             if ok \<and> \<not> synced then (tx_store (fst st, tx_entries x) x, False)
             else (tx_store st x, ok))"

definition is_aborted :: "offset \<Rightarrow> TxnIndexSegment \<Rightarrow> bool" where
  "is_aborted off x = list_ex (\<lambda>e. first_offset e \<le> off \<and> off \<le> last_offset e) (tx_entries x)"

definition truncate_txn_after ::
    "rebuild_io \<Rightarrow> offset \<Rightarrow> TxnIndexSegment \<Rightarrow> TxnIndexSegment \<times> bool" where
  "truncate_txn_after io logical x =
     (case rewrite_entries encode_txn io
             (filter (\<lambda>e. first_offset e < logical) (tx_entries x)) (tx_content x, tx_entries x) of
        (st, ok) \<Rightarrow> (tx_store st x, ok))"

section \<open>The codecs\<close>

definition index_entry_ok :: "IndexEntry \<Rightarrow> bool" where
  "index_entry_ok e \<longleftrightarrow> relative_offset e < 2 ^ 32 \<and> physical_position e < 2 ^ 32"

definition time_entry_ok :: "TimeIndexEntry \<Rightarrow> bool" where
  "time_entry_ok e \<longleftrightarrow> timestamp e < 2 ^ 64 \<and> logical_offset e < 2 ^ 64"

definition txn_entry_ok :: "TxnIndexEntry \<Rightarrow> bool" where
  "txn_entry_ok e \<longleftrightarrow>
     txn_producer_id e < 2 ^ 64 \<and> first_offset e < 2 ^ 64 \<and> last_offset e < 2 ^ 64"

interpretation index_file: entry_file encode_index decode_index INDEX_ENTRY_SIZE index_entry_ok
  by unfold_locales
    (simp_all add: encode_index_def decode_index_def INDEX_ENTRY_SIZE_def index_entry_ok_def
      be_val_be_bytes)

interpretation time_file: entry_file encode_time decode_time TIME_INDEX_ENTRY_SIZE time_entry_ok
  by unfold_locales
    (simp_all add: encode_time_def decode_time_def TIME_INDEX_ENTRY_SIZE_def time_entry_ok_def
      be_val_be_bytes)

interpretation txn_file: entry_file encode_txn decode_txn TXN_INDEX_ENTRY_SIZE txn_entry_ok
  by unfold_locales
    (simp_all add: encode_txn_def decode_txn_def TXN_INDEX_ENTRY_SIZE_def txn_entry_ok_def
      be_val_be_bytes)


section \<open>The life of an offset index\<close>

text \<open>
  The states an index goes through while every operation reports success. The number \<open>n\<close>
  is the first offset an append may have: the segment manager appends the base offsets of
  its batches in order, and goes back only after a truncation.
\<close>

inductive index_reach :: "offset \<Rightarrow> offset \<Rightarrow> IndexSegment \<Rightarrow> bool" for base :: offset where
  new: "index_reach base base (open_index [] base)"
| append: "\<lbrakk>index_reach base n x; n \<le> logical; logical < base + 2 ^ 32;
    append_index w logical pos x = (x', True)\<rbrakk> \<Longrightarrow> index_reach base (Suc logical) x'"
| truncate: "\<lbrakk>index_reach base n x; truncate_index_after io logical x = (x', True)\<rbrakk>
    \<Longrightarrow> index_reach base (max base (min n logical)) x'"
| rebuild: "\<lbrakk>index_reach base n x; sorted_wrt (\<lambda>a b. relative_offset a < relative_offset b) es;
    list_all index_entry_ok es; list_all (\<lambda>e. base + relative_offset e < m) es;
    base \<le> m; m \<le> base + 2 ^ 32; truncate_and_rebuild io es x = (x', True)\<rbrakk>
    \<Longrightarrow> index_reach base m x'"
| reopen: "index_reach base n x \<Longrightarrow> index_reach base n (open_index (ix_content x) base)"

definition index_ok :: "offset \<Rightarrow> offset \<Rightarrow> IndexSegment \<Rightarrow> bool" where
  "index_ok base n x \<longleftrightarrow>
     ix_base_offset x = base \<and> ix_content x = index_file.image (ix_entries x) \<and>
     list_all index_entry_ok (ix_entries x) \<and>
     sorted_wrt (\<lambda>a b. relative_offset a < relative_offset b) (ix_entries x) \<and>
     list_all (\<lambda>e. base + relative_offset e < n) (ix_entries x) \<and>
     base \<le> n \<and> n \<le> base + 2 ^ 32"

lemma open_index_image:
  "\<lbrakk>list_all index_entry_ok es; length torn < INDEX_ENTRY_SIZE\<rbrakk>
     \<Longrightarrow> ix_entries (open_index (index_file.image es @ torn) base) = es"
  using index_file.load_image [of es torn] by (simp add: open_index_def)

lemma open_index_sel [simp]:
  "ix_content (open_index c base) = c" "ix_base_offset (open_index c base) = base"
  by (simp_all add: open_index_def)

lemma index_ok_reopen: "index_ok base n x \<Longrightarrow> open_index (ix_content x) base = x"
  using open_index_image [of "ix_entries x" "[]" base]
  by (auto simp: index_ok_def INDEX_ENTRY_SIZE_def intro!: IndexSegment.equality)

lemma truncate_and_rebuild_done:
  "truncate_and_rebuild io es x = (x', True) \<Longrightarrow>
     ix_content x' = index_file.image es \<and> ix_entries x' = es \<and> ix_base_offset x' = ix_base_offset x"
  using index_file.rewrite_done [of io es "(ix_content x, ix_entries x)"]
  by (auto simp: truncate_and_rebuild_def ix_store_def split: prod.splits)

lemma append_index_done:
  assumes "append_index w logical pos x = (x', True)"
    and "ix_content x = index_file.image (ix_entries x)"
  shows "pos < 2 ^ 32 \<and> ix_base_offset x' = ix_base_offset x \<and>
    ix_content x' = index_file.image (ix_entries x') \<and>
    ix_entries x' = ix_entries x @
      [\<lparr>relative_offset = relative x logical, physical_position = pos\<rparr>]"
  using assms
  by (cases w) (auto simp: append_index_def ix_store_def split: if_splits)

lemma index_reach_ok: "index_reach base n x \<Longrightarrow> index_ok base n x"
proof (induction rule: index_reach.induct)
  case new
  then show ?case
    by (simp add: index_ok_def open_index_def INDEX_ENTRY_SIZE_def)
next
  case (append n x logical w pos x')
  then have ok: "index_ok base n x" by simp
  then have img: "ix_content x = index_file.image (ix_entries x)" and b: "ix_base_offset x = base"
    and n: "base \<le> n" by (simp_all add: index_ok_def)
  have rel: "relative x logical = logical - base"
    using append.hyps n b by (simp add: relative_def)
  have lt: "logical - base < 2 ^ 32" using append.hyps n by simp
  have old: "\<forall>e \<in> set (ix_entries x). base + relative_offset e < logical"
    using ok append.hyps(2) by (auto simp: index_ok_def list_all_iff)
  show ?case
    using append_index_done [OF append.hyps(4) img] ok old lt append.hyps n b rel
    by (auto simp: index_ok_def index_entry_ok_def sorted_wrt_append list_all_iff)
next
  case (truncate n x io logical x')
  then have ok: "index_ok base n x" by simp
  let ?es = "filter (\<lambda>e. relative_offset e < relative x logical) (ix_entries x)"
  have d: "ix_content x' = index_file.image ?es" "ix_entries x' = ?es"
    "ix_base_offset x' = base"
    using truncate_and_rebuild_done [of io ?es x x'] truncate.hyps ok
    by (simp_all add: truncate_index_after_def index_ok_def)
  have le: "relative x logical \<le> logical - base"
    using ok by (simp add: relative_def index_ok_def)
  have "base + relative_offset e < max base (min n logical)" if "e \<in> set ?es" for e
    using that ok le by (auto simp: index_ok_def list_all_iff)
  then show ?case using ok d
    by (auto simp: index_ok_def list_all_iff sorted_wrt_filter)
next
  case (rebuild n x es m io x')
  then show ?case using truncate_and_rebuild_done [of io es x x'] by (simp add: index_ok_def)
next
  case (reopen n x)
  then show ?case by (simp add: index_ok_reopen)
qed

text \<open>The reference: the last entry at or before the target, or else the first entry.\<close>

definition nearest_by_scan :: "offset \<Rightarrow> IndexSegment \<Rightarrow> IndexEntry option" where
  "nearest_by_scan target x =
     (case ix_entries x of
        [] \<Rightarrow> None
      | e # _ \<Rightarrow>
          (case filter (\<lambda>e. ix_base_offset x + relative_offset e \<le> target) (ix_entries x) of
             [] \<Rightarrow> Some e
           | fs \<Rightarrow> Some (last fs)))"

lemma last_filter_nth:
  "\<lbrakk>i < length xs; P (xs ! i); \<forall>j. i < j \<and> j < length xs \<longrightarrow> \<not> P (xs ! j)\<rbrakk>
     \<Longrightarrow> filter P xs \<noteq> [] \<and> last (filter P xs) = xs ! i"
proof -
  assume i: "i < length xs" and p: "P (xs ! i)"
    and after: "\<forall>j. i < j \<and> j < length xs \<longrightarrow> \<not> P (xs ! j)"
  have "filter P (drop (Suc i) xs) = []"
    using after by (auto simp: filter_empty_conv in_set_conv_nth)
  moreover have "filter P xs = filter P (take i xs) @ filter P (xs ! i # drop (Suc i) xs)"
    using id_take_nth_drop [OF i] by (metis filter_append)
  ultimately show ?thesis using p by simp
qed

lemma nearest_by_scan_nth:
  assumes "i < length (ix_entries x)" "ix_base_offset x + relative_offset (ix_entries x ! i) \<le> target"
    and "\<forall>j. i < j \<and> j < length (ix_entries x) \<longrightarrow>
      target < ix_base_offset x + relative_offset (ix_entries x ! j)"
  shows "nearest_by_scan target x = Some (ix_entries x ! i)"
  using last_filter_nth [of i "ix_entries x" "\<lambda>e. ix_base_offset x + relative_offset e \<le> target"] assms
  by (auto simp: nearest_by_scan_def not_le split: list.splits)

lemma index_search:
  assumes ok: "index_ok base n x" and t: "base \<le> target" "target < base + 2 ^ 32"
  shows "find_nearest_physical_pos target x = nearest_by_scan target x"
proof (cases "ix_entries x = []")
  case True
  then show ?thesis by (simp add: find_nearest_physical_pos_def nearest_by_scan_def)
next
  case ne: False
  let ?es = "ix_entries x" and ?ks = "map relative_offset (ix_entries x)"
  have b: "ix_base_offset x = base" using ok by (simp add: index_ok_def)
  have rel: "relative x target = target - base" using t b by (simp add: relative_def)
  have sw: "sorted_wrt (<) ?ks" using ok by (simp add: index_ok_def sorted_wrt_map)
  then have s: "sorted ?ks" by (rule strict_sorted_imp_sorted)
  show ?thesis
  proof (cases "binary_search ?ks (target - base)")
    case (Inr i)
    from binary_search_Inr [OF this] have i: "i < length ?es" "relative_offset (?es ! i) = target - base"
      by auto
    have "target < base + relative_offset (?es ! j)" if "i < j" "j < length ?es" for j
      using sorted_wrt_nth_less [OF sw that(1)] that i t by simp
    then have "nearest_by_scan target x = Some (?es ! i)"
      using i b t by (intro nearest_by_scan_nth) auto
    then show ?thesis using Inr ne rel by (simp add: find_nearest_physical_pos_def)
  next
    case (Inl i)
    from binary_search_Inl [OF s this] have i: "i \<le> length ?es"
      and before: "\<And>j. j < i \<Longrightarrow> relative_offset (?es ! j) < target - base"
      and after: "\<And>j. \<lbrakk>i \<le> j; j < length ?es\<rbrakk> \<Longrightarrow> target - base < relative_offset (?es ! j)"
      by auto
    show ?thesis
    proof (cases "i = 0")
      case True
      then have "\<forall>e \<in> set ?es. target < base + relative_offset e"
        using after by (fastforce simp: in_set_conv_nth)
      then have "filter (\<lambda>e. base + relative_offset e \<le> target) ?es = []"
        by (auto simp: filter_empty_conv)
      then have "nearest_by_scan target x = Some (?es ! 0)"
        using ne b by (cases ?es) (simp_all add: nearest_by_scan_def)
      then show ?thesis using Inl True ne rel by (simp add: find_nearest_physical_pos_def)
    next
      case False
      have "target < base + relative_offset (?es ! j)" if j: "i - 1 < j" "j < length ?es" for j
      proof -
        from j(1) False have "i \<le> j" by linarith
        from after [OF this j(2)] t show ?thesis by linarith
      qed
      then have "nearest_by_scan target x = Some (?es ! (i - 1))"
        using before [of "i - 1"] False i b t by (intro nearest_by_scan_nth) auto
      then show ?thesis using Inl False ne rel by (simp add: find_nearest_physical_pos_def)
    qed
  qed
qed

section \<open>The life of a time index\<close>

inductive time_reach :: "offset \<Rightarrow> TimeIndexSegment \<Rightarrow> bool" for base :: offset where
  new: "time_reach base (open_time_index [] base)"
| append: "\<lbrakk>time_reach base x; ts < 2 ^ 64; logical < 2 ^ 64;
    append_time w ts logical x = (x', True)\<rbrakk> \<Longrightarrow> time_reach base x'"
| truncate: "\<lbrakk>time_reach base x; truncate_time_after io logical x = (x', True)\<rbrakk>
    \<Longrightarrow> time_reach base x'"
| reopen: "time_reach base x \<Longrightarrow> time_reach base (open_time_index (ti_content x) base)"

definition time_ok :: "offset \<Rightarrow> TimeIndexSegment \<Rightarrow> bool" where
  "time_ok base x \<longleftrightarrow>
     ti_base_offset x = base \<and> ti_content x = time_file.image (ti_entries x) \<and>
     list_all time_entry_ok (ti_entries x) \<and> sorted (map timestamp (ti_entries x))"

lemma open_time_index_image:
  "\<lbrakk>list_all time_entry_ok es; length torn < TIME_INDEX_ENTRY_SIZE\<rbrakk>
     \<Longrightarrow> ti_entries (open_time_index (time_file.image es @ torn) base) = es"
  using time_file.load_image [of es torn] by (simp add: open_time_index_def)

lemma time_ok_reopen: "time_ok base x \<Longrightarrow> open_time_index (ti_content x) base = x"
  using open_time_index_image [of "ti_entries x" "[]" base]
  by (auto simp: time_ok_def TIME_INDEX_ENTRY_SIZE_def open_time_index_def
      intro!: TimeIndexSegment.equality)

lemma sorted_snoc_max:
  "sorted ks \<Longrightarrow> sorted (ks @ [if ks = [] then k else max k (last ks)])"
proof (cases "ks = []")
  case False
  assume s: "sorted ks"
  have "x \<le> last ks" if "x \<in> set ks" for x
  proof -
    from that obtain i where "i < length ks" "ks ! i = x" by (auto simp: in_set_conv_nth)
    with sorted_nth_mono [OF s, of i "length ks - 1"] False show ?thesis
      by (simp add: last_conv_nth)
  qed
  with s False show ?thesis by (auto simp: sorted_append le_max_iff_disj)
qed simp

lemma append_time_done:
  assumes "append_time w ts logical x = (x', True)"
    and "ti_content x = time_file.image (ti_entries x)"
  shows "ti_base_offset x' = ti_base_offset x \<and>
    ti_content x' = time_file.image (ti_entries x') \<and>
    ti_entries x' = ti_entries x @
      [\<lparr>timestamp = (if ti_entries x = [] then ts else max ts (timestamp (last (ti_entries x)))),
        logical_offset = logical\<rparr>]"
  using assms by (cases w) (auto simp: append_time_def ti_store_def Let_def)

lemma time_ok_append:
  assumes ok: "time_ok base x" and lt: "ts < 2 ^ 64" "logical < 2 ^ 64"
    and ap: "append_time w ts logical x = (x', True)"
  shows "time_ok base x'"
proof -
  let ?t = "if ti_entries x = [] then ts else max ts (timestamp (last (ti_entries x)))"
  have img: "ti_content x = time_file.image (ti_entries x)" using ok by (simp add: time_ok_def)
  have t: "?t < 2 ^ 64"
  proof (cases "ti_entries x = []")
    case False
    then have "last (ti_entries x) \<in> set (ti_entries x)" by simp
    with ok have "timestamp (last (ti_entries x)) < 2 ^ 64"
      unfolding time_ok_def list_all_iff time_entry_ok_def by blast
    with lt False show ?thesis by (simp add: max_def)
  qed (use lt in simp)
  have "sorted (map timestamp (ti_entries x) @ [?t])"
    using sorted_snoc_max [of "map timestamp (ti_entries x)" ts] ok
    by (simp add: time_ok_def last_map split: if_splits)
  with append_time_done [OF ap img] ok t lt show ?thesis
    by (simp add: time_ok_def time_entry_ok_def)
qed

lemma sorted_map_filter: "sorted (map f xs) \<Longrightarrow> sorted (map f (filter P xs))"
  by (simp add: sorted_map sorted_wrt_filter)

lemma time_reach_ok: "time_reach base x \<Longrightarrow> time_ok base x"
proof (induction rule: time_reach.induct)
  case new
  then show ?case by (simp add: time_ok_def open_time_index_def TIME_INDEX_ENTRY_SIZE_def)
next
  case (append x ts logical w x')
  then show ?case by (blast intro: time_ok_append)
next
  case (truncate x io logical x')
  then have "ti_content x' = time_file.image (ti_entries x') \<and> ti_base_offset x' = ti_base_offset x \<and>
      ti_entries x' = filter (\<lambda>e. logical_offset e < logical) (ti_entries x)"
    using time_file.rewrite_done
      [of io "filter (\<lambda>e. logical_offset e < logical) (ti_entries x)" "(ti_content x, ti_entries x)"]
    by (auto simp: truncate_time_after_def ti_store_def split: prod.splits)
  with truncate.IH show ?case
    by (simp add: time_ok_def list_all_iff sorted_map_filter)
next
  case (reopen x)
  then show ?case by (simp add: time_ok_reopen)
qed

lemma time_search:
  assumes ok: "time_ok base x"
  shows "case find_offset_for_timestamp target x of
      None \<Rightarrow> list_all (\<lambda>e. target < timestamp e) (ti_entries x)
    | Some off \<Rightarrow> (\<exists>before e after. ti_entries x = before @ e # after \<and> logical_offset e = off \<and>
        timestamp e \<le> target \<and> list_all (\<lambda>e. timestamp e \<le> target) before \<and>
        list_all (\<lambda>e. target \<le> timestamp e) after)"
proof -
  let ?es = "ti_entries x" and ?ks = "map timestamp (ti_entries x)"
  have s: "sorted ?ks" using ok by (simp add: time_ok_def)
  have cut: "\<exists>before e after. ?es = before @ e # after \<and> logical_offset e = logical_offset (?es ! i) \<and>
        timestamp e \<le> target \<and> list_all (\<lambda>e. timestamp e \<le> target) before \<and>
        list_all (\<lambda>e. target \<le> timestamp e) after"
    if i: "i < length ?es" "timestamp (?es ! i) \<le> target"
      "\<And>j. \<lbrakk>i < j; j < length ?es\<rbrakk> \<Longrightarrow> target \<le> timestamp (?es ! j)" for i
  proof (intro exI conjI)
    show "?es = take i ?es @ ?es ! i # drop (Suc i) ?es" by (rule id_take_nth_drop [OF i(1)])
    have "timestamp (?es ! j) \<le> target" if "j < i" for j
      using sorted_nth_mono [OF s, of j i] that i(1,2) by simp
    then show "list_all (\<lambda>e. timestamp e \<le> target) (take i ?es)"
      by (simp add: list_all_length)
    show "list_all (\<lambda>e. target \<le> timestamp e) (drop (Suc i) ?es)"
      using i(3) by (auto simp: list_all_length)
  qed (use i in simp_all)
  show ?thesis
  proof (cases "?es = []")
    case True
    then show ?thesis by (simp add: find_offset_for_timestamp_def)
  next
    case ne: False
    show ?thesis
    proof (cases "binary_search ?ks target")
      case (Inr i)
      from binary_search_Inr [OF this] have i: "i < length ?es" "timestamp (?es ! i) = target" by auto
      have "target \<le> timestamp (?es ! j)" if "i < j" "j < length ?es" for j
        using sorted_nth_mono [OF s, of i j] that i by simp
      from cut [OF i(1) _ this] i(2) Inr ne show ?thesis
        by (simp add: find_offset_for_timestamp_def)
    next
      case (Inl i)
      from binary_search_Inl [OF s this] have i: "i \<le> length ?es"
        and before: "\<And>j. j < i \<Longrightarrow> timestamp (?es ! j) < target"
        and after: "\<And>j. \<lbrakk>i \<le> j; j < length ?es\<rbrakk> \<Longrightarrow> target < timestamp (?es ! j)"
        by auto
      show ?thesis
      proof (cases "i = 0")
        case True
        with after Inl ne show ?thesis
          by (simp add: find_offset_for_timestamp_def list_all_length)
      next
        case False
        have "target \<le> timestamp (?es ! j)" if j: "i - 1 < j" "j < length ?es" for j
        proof -
          from j(1) False have "i \<le> j" by linarith
          from after [OF this j(2)] show ?thesis by simp
        qed
        from cut [OF _ _ this] before [of "i - 1"] False i Inl ne show ?thesis
          by (simp add: find_offset_for_timestamp_def)
      qed
    qed
  qed
qed

lemma max_timestamp_last:
  "time_ok base x \<Longrightarrow>
     max_timestamp x = (if ti_entries x = [] then None else Some (timestamp (last (ti_entries x))))"
proof (cases "ti_entries x = []")
  case False
  assume "time_ok base x"
  then have s: "sorted (map timestamp (ti_entries x))" by (simp add: time_ok_def)
  have "Max (set (map timestamp (ti_entries x))) = timestamp (last (ti_entries x))"
  proof (rule Max_eqI)
    fix y
    assume "y \<in> set (map timestamp (ti_entries x))"
    then obtain i where "i < length (ti_entries x)" "y = timestamp (ti_entries x ! i)"
      by (auto simp: in_set_conv_nth)
    with sorted_nth_mono [OF s, of i "length (ti_entries x) - 1"] False
    show "y \<le> timestamp (last (ti_entries x))" by (simp add: last_conv_nth)
  qed (use False in auto)
  with False show ?thesis by (simp add: max_timestamp_def)
qed (simp add: max_timestamp_def)

section \<open>The life of the index of aborted transactions\<close>

text \<open>
  The abstraction is the set of the aborted ranges registered with success, together with what
  is known of the file: whole entries that are the ones in memory, these entries and then less
  than one entry of a torn write, or anything else. Failing appends and a truncation whose
  first step fails are part of the life; a truncation that fails after it has emptied the file
  is not. A file is reopened only while its entries are aligned: \<open>torn_entry_shifts_the_file\<close>
  below shows what the code does otherwise.
\<close>

datatype txn_file_state = WholeEntries | TornTail | Unaligned

fun after_txn_append :: "write_result \<Rightarrow> bool \<Rightarrow> txn_file_state \<Rightarrow> txn_file_state" where
  "after_txn_append w True f = (if f = WholeEntries then WholeEntries else Unaligned)"
| "after_txn_append (Torn k) False f =
     (if f = WholeEntries \<and> k < TXN_INDEX_ENTRY_SIZE then TornTail else Unaligned)"
| "after_txn_append Written False f = Unaligned"

inductive txn_reach :: "TxnIndexSegment \<Rightarrow> (offset \<times> offset) set \<Rightarrow> txn_file_state \<Rightarrow> bool" where
  new: "txn_reach (open_txn_index []) {} WholeEntries"
| append: "\<lbrakk>txn_reach x R f; pid < 2 ^ 64; lo < 2 ^ 64; hi < 2 ^ 64;
    append_txn w synced pid lo hi x = (x', ok)\<rbrakk>
    \<Longrightarrow> txn_reach x' (if ok then insert (lo, hi) R else R) (after_txn_append w ok f)"
| truncate: "\<lbrakk>txn_reach x R f; truncate_txn_after io logical x = (x', True)\<rbrakk>
    \<Longrightarrow> txn_reach x' {r \<in> R. fst r < logical} WholeEntries"
| truncate_refused: "txn_reach x R f \<Longrightarrow> txn_reach (fst (truncate_txn_after SetLenFails logical x)) R f"
| reopen: "\<lbrakk>txn_reach x R f; f \<noteq> Unaligned\<rbrakk> \<Longrightarrow> txn_reach (open_txn_index (tx_content x)) R f"

fun txn_file_ok :: "TxnIndexSegment \<Rightarrow> txn_file_state \<Rightarrow> bool" where
  "txn_file_ok x WholeEntries \<longleftrightarrow> tx_content x = txn_file.image (tx_entries x)"
| "txn_file_ok x TornTail \<longleftrightarrow>
     (\<exists>torn. tx_content x = txn_file.image (tx_entries x) @ torn \<and> length torn < TXN_INDEX_ENTRY_SIZE)"
| "txn_file_ok x Unaligned \<longleftrightarrow> True"

definition txn_ok :: "TxnIndexSegment \<Rightarrow> (offset \<times> offset) set \<Rightarrow> txn_file_state \<Rightarrow> bool" where
  "txn_ok x R f \<longleftrightarrow>
     txn_file_ok x f \<and> list_all txn_entry_ok (tx_entries x) \<and>
     R = (\<lambda>e. (first_offset e, last_offset e)) ` set (tx_entries x)"

lemma open_txn_index_image:
  "\<lbrakk>list_all txn_entry_ok es; length torn < TXN_INDEX_ENTRY_SIZE\<rbrakk>
     \<Longrightarrow> tx_entries (open_txn_index (txn_file.image es @ torn)) = es"
  using txn_file.load_image [of es torn] by (simp add: open_txn_index_def)

lemma txn_ok_reopen:
  assumes "txn_ok x R f" "f \<noteq> Unaligned"
  shows "open_txn_index (tx_content x) = x"
proof -
  from assms obtain torn where "tx_content x = txn_file.image (tx_entries x) @ torn"
    "length torn < TXN_INDEX_ENTRY_SIZE" "list_all txn_entry_ok (tx_entries x)"
    by (cases f) (auto simp: txn_ok_def TXN_INDEX_ENTRY_SIZE_def)
  then have "tx_entries (open_txn_index (tx_content x)) = tx_entries x"
    by (simp add: open_txn_index_image)
  then show ?thesis by (simp add: open_txn_index_def)
qed

lemma append_txn_ok:
  assumes "append_txn w synced pid lo hi x = (x', ok)" "txn_file_ok x f"
  shows "txn_file_ok x' (after_txn_append w ok f) \<and> tx_entries x' =
    (if ok then tx_entries x @ [\<lparr>txn_producer_id = pid, first_offset = lo, last_offset = hi\<rparr>]
     else tx_entries x)"
  using assms by (cases w; cases ok) (auto simp: append_txn_def tx_store_def Let_def split: if_splits)

lemma truncate_txn_done:
  assumes "truncate_txn_after io logical x = (x', True)"
  shows "tx_content x' = txn_file.image (tx_entries x') \<and>
    tx_entries x' = filter (\<lambda>e. first_offset e < logical) (tx_entries x)"
  using assms txn_file.rewrite_done
    [of io "filter (\<lambda>e. first_offset e < logical) (tx_entries x)" "(tx_content x, tx_entries x)"]
  by (auto simp: truncate_txn_after_def tx_store_def split: prod.splits)

lemma txn_reach_ok: "txn_reach x R f \<Longrightarrow> txn_ok x R f"
proof (induction rule: txn_reach.induct)
  case new
  then show ?case by (simp add: txn_ok_def open_txn_index_def TXN_INDEX_ENTRY_SIZE_def)
next
  case (append x R f pid lo hi w synced x' ok)
  then have "txn_file_ok x f" by (simp add: txn_ok_def)
  from append_txn_ok [OF append.hyps(5) this] append.IH append.hyps(2-4) show ?case
    by (auto simp: txn_ok_def txn_entry_ok_def)
next
  case (truncate x R f io logical x')
  then show ?case using truncate_txn_done [OF truncate.hyps(2)] by (auto simp: txn_ok_def list_all_iff)
next
  case (truncate_refused x R f logical)
  then show ?case by (simp add: truncate_txn_after_def rewrite_entries_def tx_store_def)
next
  case (reopen x R f)
  then show ?case by (simp add: txn_ok_reopen)
qed

section \<open>Properties\<close>

text \<open>C33 The binary search of the offset index is a linear scan: on every index built by
  in-order appends, truncations, rebuilds and reopenings, the entry found for a target in the
  segment's range is the last entry at or before it, or the first entry when there is none.\<close>

theorem index_lookup_is_scan:
  assumes "index_reach base n x" "base \<le> target" "target < base + 2 ^ 32"
  shows "find_nearest_physical_pos target x = nearest_by_scan target x"
  using index_search [OF index_reach_ok [OF assms(1)] assms(2,3)] .

text \<open>An index of two entries, at the offsets 100 and 150 of a segment that starts at 100.\<close>

definition demo_index :: IndexSegment where
  "demo_index =
     fst (append_index Written 150 4096 (fst (append_index Written 100 0 (open_index [] 100))))"

lemma append_index_written:
  "pos \<le> U32_MAX \<Longrightarrow> append_index Written logical pos x = (fst (append_index Written logical pos x), True)"
  by (simp add: append_index_def)

lemma demo_index_reach: "index_reach 100 151 demo_index"
proof -
  let ?one = "fst (append_index Written 100 0 (open_index [] 100))"
  have "index_reach 100 (Suc 100) ?one"
    by (rule index_reach.append [OF index_reach.new _ _ append_index_written]) simp_all
  then have "index_reach 100 (Suc 150) demo_index"
    unfolding demo_index_def
    by (rule index_reach.append [OF _ _ _ append_index_written]) simp_all
  then show ?thesis by simp
qed

lemma demo_index_entries:
  "ix_entries demo_index = [\<lparr>relative_offset = 0, physical_position = 0\<rparr>,
     \<lparr>relative_offset = 50, physical_position = 4096\<rparr>]" "ix_base_offset demo_index = 100"
  by (simp_all add: demo_index_def append_index_def ix_store_def relative_def open_index_def
      INDEX_ENTRY_SIZE_def)

theorem index_lookup_is_scan_witness:
  "find_nearest_physical_pos 140 demo_index = nearest_by_scan 140 demo_index \<and>
   nearest_by_scan 140 demo_index = Some \<lparr>relative_offset = 0, physical_position = 0\<rparr>"
proof
  show "find_nearest_physical_pos 140 demo_index = nearest_by_scan 140 demo_index"
    by (rule index_lookup_is_scan [OF demo_index_reach]) simp_all
  show "nearest_by_scan 140 demo_index = Some \<lparr>relative_offset = 0, physical_position = 0\<rparr>"
    by (simp add: nearest_by_scan_def demo_index_entries)
qed

text \<open>C34 The index files survive a crash: reopening the file of any of the three indexes, after
  any successful operations, gives the index back, and when the process dies at any point inside
  the write of the next entry (fewer than 8, 16 and 24 bytes of it reach the offset, the time and
  the transaction index), the reopened index holds exactly the entries before it.\<close>

theorem indexes_survive_crash:
  assumes "index_reach base n x" "time_reach base y" "txn_reach z R WholeEntries"
    and "i < 8" "j < 16" "k < 24"
  shows "open_index (ix_content x) base = x \<and> open_time_index (ti_content y) base = y \<and>
    open_txn_index (tx_content z) = z \<and>
    ix_entries (open_index (ix_content (fst (append_index (Torn i) logical pos x))) base) = ix_entries x \<and>
    ti_entries (open_time_index (ti_content (fst (append_time (Torn j) ts logical y))) base) = ti_entries y \<and>
    tx_entries (open_txn_index (tx_content (fst (append_txn (Torn k) synced pid lo hi z)))) = tx_entries z"
proof -
  have x: "index_ok base n x" and y: "time_ok base y" and z: "txn_ok z R WholeEntries"
    using assms index_reach_ok time_reach_ok txn_reach_ok by blast+
  have "ix_entries (open_index (ix_content (fst (append_index (Torn i) logical pos x))) base) = ix_entries x"
    using x assms(4) open_index_image [of "ix_entries x" _ base] index_ok_reopen [OF x]
    by (simp add: append_index_def ix_store_def index_ok_def INDEX_ENTRY_SIZE_def)
  moreover have "ti_entries (open_time_index (ti_content (fst (append_time (Torn j) ts logical y))) base) = ti_entries y"
    using y assms(5) open_time_index_image [of "ti_entries y" _ base]
    by (simp add: append_time_def ti_store_def time_ok_def TIME_INDEX_ENTRY_SIZE_def Let_def)
  moreover have "tx_entries (open_txn_index (tx_content (fst (append_txn (Torn k) synced pid lo hi z)))) = tx_entries z"
    using z assms(6) open_txn_index_image [of "tx_entries z"]
    by (simp add: append_txn_def tx_store_def txn_ok_def TXN_INDEX_ENTRY_SIZE_def Let_def)
  ultimately show ?thesis
    using index_ok_reopen [OF x] time_ok_reopen [OF y] txn_ok_reopen [OF z] by blast
qed

definition demo_time :: TimeIndexSegment where
  "demo_time = fst (append_time Written 5 150 (fst (append_time Written 9 100 (open_time_index [] 100))))"

definition demo_txn :: TxnIndexSegment where
  "demo_txn = fst (append_txn Written True 7 110 120 (open_txn_index []))"

lemma append_time_written:
  "append_time Written ts logical x = (fst (append_time Written ts logical x), True)"
  by (simp add: append_time_def Let_def)

lemma append_txn_written:
  "append_txn Written True pid lo hi x = (fst (append_txn Written True pid lo hi x), True)"
  by (simp add: append_txn_def Let_def)

lemma demo_time_reach: "time_reach 100 demo_time"
proof -
  have "time_reach 100 (fst (append_time Written 9 100 (open_time_index [] 100)))"
    by (rule time_reach.append [OF time_reach.new _ _ append_time_written]) simp_all
  then show ?thesis
    unfolding demo_time_def
    by (rule time_reach.append [OF _ _ _ append_time_written]) simp_all
qed

lemma demo_txn_reach: "txn_reach demo_txn {(110, 120)} WholeEntries"
  using txn_reach.append [OF txn_reach.new _ _ _ append_txn_written, of 7 110 120]
  by (simp add: demo_txn_def)



lemma demo_time_entries:
  "ti_entries demo_time = [\<lparr>timestamp = 9, logical_offset = 100\<rparr>,
     \<lparr>timestamp = 9, logical_offset = 150\<rparr>]"
  by (simp add: demo_time_def append_time_def ti_store_def open_time_index_def Let_def
      TIME_INDEX_ENTRY_SIZE_def)

lemma demo_time_lookup:
  "9 \<le> target \<Longrightarrow> find_offset_for_timestamp target demo_time = Some 150"
  by (simp add: find_offset_for_timestamp_def demo_time_entries binary_search_def Let_def
      bsearch_base.simps)

theorem indexes_survive_crash_witness:
  "open_index (ix_content demo_index) 100 = demo_index \<and>
   open_time_index (ti_content demo_time) 100 = demo_time \<and>
   open_txn_index (tx_content demo_txn) = demo_txn \<and>
   ix_entries (open_index (ix_content (fst (append_index (Torn 7) 170 8192 demo_index))) 100)
     = ix_entries demo_index \<and>
   ti_entries (open_time_index (ti_content (fst (append_time (Torn 15) 9 170 demo_time))) 100)
     = ti_entries demo_time \<and>
   tx_entries (open_txn_index (tx_content (fst (append_txn (Torn 23) True 8 160 170 demo_txn))))
     = tx_entries demo_txn"
  by (rule indexes_survive_crash [OF demo_index_reach demo_time_reach demo_txn_reach]) simp_all

text \<open>A lookup by time lands between the right entries although records arrive out of
  order: the entries keep non-decreasing timestamps, no entry before the one returned is
  later than the target, none after it is earlier, \<open>None\<close> means that every entry is later,
  and the newest timestamp is the one of the last entry.\<close>

theorem time_lookup_bounds:
  assumes "time_reach base x"
  shows "sorted (map timestamp (ti_entries x)) \<and>
    max_timestamp x = (if ti_entries x = [] then None else Some (timestamp (last (ti_entries x)))) \<and>
    (case find_offset_for_timestamp target x of
      None \<Rightarrow> list_all (\<lambda>e. target < timestamp e) (ti_entries x)
    | Some off \<Rightarrow> (\<exists>before e after. ti_entries x = before @ e # after \<and> logical_offset e = off \<and>
        timestamp e \<le> target \<and> list_all (\<lambda>e. timestamp e \<le> target) before \<and>
        list_all (\<lambda>e. target \<le> timestamp e) after))"
  using time_reach_ok [OF assms] time_search max_timestamp_last
  by (simp add: time_ok_def)

theorem time_lookup_bounds_witness:
  "sorted (map timestamp (ti_entries demo_time)) \<and> max_timestamp demo_time = Some 9 \<and>
   find_offset_for_timestamp 12 demo_time = Some 150"
  using time_lookup_bounds [OF demo_time_reach, of 12]
  by (simp add: demo_time_entries demo_time_lookup)



section \<open>Limits\<close>

text \<open>
  Appends of equal (clamped) timestamps: the record at offset 100 has timestamp 9, and the
  search for 9 answers with the offset 150 behind it.
\<close>

lemma equal_timestamps_skip: "find_offset_for_timestamp 9 demo_time = Some 150"
  by (simp add: demo_time_lookup)

text \<open>
  Opening does not cut off a torn entry, and the next append goes behind it: from then on
  the entries in the file are read at the wrong boundaries. Here the entry of the range 10
  to 20 is torn after 8 bytes and the range 30 to 40 is appended after it with success: the
  reopened index has lost the range and reports offset 8, which nobody aborted.
\<close>

lemma torn_entry_file:
  "tx_entries (open_txn_index (be_bytes 8 a @ be_bytes 8 b @ be_bytes 8 c @ be_bytes 8 d)) =
     [decode_txn (be_bytes 8 a @ be_bytes 8 b @ be_bytes 8 c)]"
proof -
  have "as_chunks 24 ((be_bytes 8 a @ be_bytes 8 b @ be_bytes 8 c) @ be_bytes 8 d) =
      [be_bytes 8 a @ be_bytes 8 b @ be_bytes 8 c]"
    by (subst as_chunks_cons) simp_all
  then show ?thesis by (simp add: open_txn_index_def TXN_INDEX_ENTRY_SIZE_def)
qed

lemma torn_entry_shifts_the_file:
  "let torn = fst (append_txn (Torn 8) True 7 10 20 (open_txn_index []));
       again = open_txn_index (tx_content (fst (append_txn Written True 7 30 40
                 (open_txn_index (tx_content torn)))))
   in \<not> is_aborted 35 again \<and> is_aborted 8 again"
proof -
  define torn where "torn = fst (append_txn (Torn 8) True 7 10 20 (open_txn_index []))"
  have t: "tx_content torn = be_bytes 8 7"
    by (simp add: torn_def append_txn_def tx_store_def open_txn_index_def encode_txn_def Let_def)
  have "tx_content (fst (append_txn Written True 7 30 40 (open_txn_index (tx_content torn)))) =
      be_bytes 8 7 @ be_bytes 8 7 @ be_bytes 8 30 @ be_bytes 8 40"
    by (simp add: t append_txn_def tx_store_def open_txn_index_def encode_txn_def Let_def)
  moreover have "decode_txn (be_bytes 8 7 @ be_bytes 8 7 @ be_bytes 8 30) =
      \<lparr>txn_producer_id = 7, first_offset = 7, last_offset = 30\<rparr>"
    by (simp add: decode_txn_def be_val_be_bytes)
  ultimately show ?thesis
    unfolding Let_def torn_def [symmetric] by (simp add: is_aborted_def torn_entry_file)
qed

end
