(* ===== verification/Transactions.thy ===== *)
theory Transactions
  imports Codec
begin

text \<open>
  The transaction manager (\<^verbatim>\<open>src/server/transaction.rs\<close>): sequence numbers of idempotent
  producers with their eviction, transactional producers and their epochs, transactions with
  their two-phase status, the index from which the last stable offset of a partition is
  served, and the records of the \<open>__transaction_state\<close> log.

  A \<open>DashMap\<close> is an association list, the inner \<open>BTreeMap\<close> of the index an ordered one,
  a \<open>HashSet\<close> a set. Every method is a function on the manager; the whole manager is a
  sequence of operations (\<open>apply_op\<close>). The lemmas show that the index never lets a reader
  pass an open transaction, that it equals a scan of all transactions while starts are
  registered in order, that an old producer stays fenced, and that eviction spares
  producers with an open transaction.
\<close>

section \<open>State\<close>

datatype TxStatus = Ongoing | PrepareCommit | PrepareAbort | Committed | Aborted

type_synonym range = "string \<times> nat \<times> offset \<times> offset"
type_synonym PartitionRangeList = "range list"
type_synonym LsoOffsetMap = "(offset \<times> string set) list"
type_synonym LsoIndex = "((string \<times> nat) \<times> LsoOffsetMap) list"

record TransactionState =
  tx_id :: string
  tx_producer :: nat
  tx_status :: TxStatus
  tx_partitions :: PartitionRangeList
  tx_created_at :: nat

record TransactionalProducerState =
  tp_id :: nat
  tp_epoch :: int

record ProducerSequenceEntry =
  last_sequence :: nat
  last_used :: nat

record TransactionManager =
  producer_sequences :: "(nat \<times> ProducerSequenceEntry) list"
  sequence_clock :: nat
  lso_index :: LsoIndex
  transactions :: "(string \<times> TransactionState) list"
  transactional_producers :: "(string \<times> TransactionalProducerState) list"
  next_producer_id :: nat

datatype TxnError =
    AlreadyExists
  | NotOngoingOrFenced
  | NotFound
  | NotOngoing
  | DifferentDecision
  | PersistFailed
  | EpochExhausted
  | NotInitialized
  | ProducerMismatch
  | ProducerFenced int int

definition new_manager :: TransactionManager where
  "new_manager =
     \<lparr>producer_sequences = [], sequence_clock = 0, lso_index = [], transactions = [],
      transactional_producers = [], next_producer_id = 1\<rparr>"

definition open_status :: "TxStatus \<Rightarrow> bool" where
  "open_status s \<longleftrightarrow> s = Ongoing \<or> s = PrepareCommit \<or> s = PrepareAbort"

section \<open>Idempotent producers\<close>

definition MAX_PRODUCER_SEQUENCES :: nat where "MAX_PRODUCER_SEQUENCES = 100000"
definition SEQUENCE_EVICT_BATCH :: nat where "SEQUENCE_EVICT_BATCH = 1000"

definition is_duplicate :: "nat \<Rightarrow> nat \<Rightarrow> TransactionManager \<Rightarrow> bool" where
  "is_duplicate pid seq tm =
     (if pid = 0 then False
      else (case map_of (producer_sequences tm) pid of
              None \<Rightarrow> False
            | Some e \<Rightarrow> seq \<le> last_sequence e))"

definition protected_producers :: "TransactionManager \<Rightarrow> nat set" where
  "protected_producers tm =
     set (map (tx_producer \<circ> snd) (filter (open_status \<circ> tx_status \<circ> snd) (transactions tm)))"

text \<open>
  \<open>select_nth_unstable_by_key\<close> followed by \<open>take\<close>: the entries with the smallest ticks, in
  some order. Ticks are distinct (\<open>ticks_distinct\<close> below), so which entries they are does
  not depend on the order.
\<close>

definition evict_candidates :: "TransactionManager \<Rightarrow> (nat \<times> nat) list" where
  "evict_candidates tm =
     map (\<lambda>e. (last_used (snd e), fst e))
       (filter (\<lambda>e. fst e \<notin> protected_producers tm) (producer_sequences tm))"

definition evict_lru_sequences :: "nat \<Rightarrow> TransactionManager \<Rightarrow> TransactionManager" where
  "evict_lru_sequences count tm =
     (let candidates = evict_candidates tm in
      if candidates = [] then tm
      else
        (let victims = take (min count (length candidates)) (sort_key fst candidates) in
         tm\<lparr>producer_sequences :=
              fold (\<lambda>(_, pid). AList.delete pid) victims (producer_sequences tm)\<rparr>))"

definition record_sequence :: "nat \<Rightarrow> nat \<Rightarrow> TransactionManager \<Rightarrow> TransactionManager" where
  "record_sequence pid seq tm =
     (if pid = 0 then tm
      else
        (let tick = sequence_clock tm;
             tm = tm\<lparr>sequence_clock := add64 tick 1\<rparr>;
             tm = (if MAX_PRODUCER_SEQUENCES \<le> length (producer_sequences tm) \<and>
                      map_of (producer_sequences tm) pid = None
                   then evict_lru_sequences SEQUENCE_EVICT_BATCH tm else tm)
         in tm\<lparr>producer_sequences :=
                 AList.update pid \<lparr>last_sequence = seq, last_used = tick\<rparr> (producer_sequences tm)\<rparr>))"

section \<open>Transactional producers\<close>

definition generate_producer_id :: "TransactionManager \<Rightarrow> TransactionManager \<times> nat" where
  "generate_producer_id tm =
     (tm\<lparr>next_producer_id := add64 (next_producer_id tm) 1\<rparr>, next_producer_id tm)"

definition checked_add_i16 :: "int \<Rightarrow> int option" where
  "checked_add_i16 e = (if e + 1 \<le> 32767 then Some (e + 1) else None)"

definition next_transactional_producer ::
    "string \<Rightarrow> TransactionManager \<Rightarrow> TransactionManager \<times> (TxnError + nat \<times> int)" where
  "next_transactional_producer tid tm =
     (case map_of (transactional_producers tm) tid of
        Some cur \<Rightarrow>
          (tm, case checked_add_i16 (tp_epoch cur) of
                 None \<Rightarrow> Inl EpochExhausted | Some e \<Rightarrow> Inr (tp_id cur, e))
      | None \<Rightarrow> (case generate_producer_id tm of (tm', pid) \<Rightarrow> (tm', Inr (pid, 0))))"

definition init_transactional_producer ::
    "string \<Rightarrow> TransactionManager \<Rightarrow> TransactionManager \<times> (TxnError + nat \<times> int)" where
  "init_transactional_producer tid tm =
     (case map_of (transactional_producers tm) tid of
        Some cur \<Rightarrow>
          (case checked_add_i16 (tp_epoch cur) of
             None \<Rightarrow> (tm, Inl EpochExhausted)
           | Some e \<Rightarrow>
               (tm\<lparr>transactional_producers :=
                     AList.update tid (cur\<lparr>tp_epoch := e\<rparr>) (transactional_producers tm)\<rparr>,
                Inr (tp_id cur, e)))
      | None \<Rightarrow>
          (case generate_producer_id tm of (tm', pid) \<Rightarrow>
             (tm'\<lparr>transactional_producers :=
                    AList.update tid \<lparr>tp_id = pid, tp_epoch = 0\<rparr> (transactional_producers tm')\<rparr>,
              Inr (pid, 0))))"

definition all_transactional_producers :: "TransactionManager \<Rightarrow> (string \<times> nat \<times> int) list" where
  "all_transactional_producers tm =
     map (\<lambda>(tid, p). (tid, tp_id p, tp_epoch p)) (transactional_producers tm)"

definition observe_producer_id :: "nat \<Rightarrow> TransactionManager \<Rightarrow> TransactionManager" where
  "observe_producer_id pid tm =
     tm\<lparr>next_producer_id := max (next_producer_id tm) (saturating_add64 pid 1)\<rparr>"

definition restore_transactional_producer ::
    "string \<Rightarrow> nat \<Rightarrow> int \<Rightarrow> TransactionManager \<Rightarrow> TransactionManager" where
  "restore_transactional_producer tid pid epoch tm =
     observe_producer_id pid
       (tm\<lparr>transactional_producers :=
             AList.update tid \<lparr>tp_id = pid, tp_epoch = epoch\<rparr> (transactional_producers tm)\<rparr>)"

definition validate_transactional_producer ::
    "string \<Rightarrow> nat \<Rightarrow> int \<Rightarrow> TransactionManager \<Rightarrow> TxnError + unit" where
  "validate_transactional_producer tid pid epoch tm =
     (case map_of (transactional_producers tm) tid of
        None \<Rightarrow> Inl NotInitialized
      | Some cur \<Rightarrow>
          if tp_id cur \<noteq> pid then Inl ProducerMismatch
          else if tp_epoch cur \<noteq> epoch then Inl (ProducerFenced (tp_epoch cur) epoch)
          else Inr ())"

definition has_transactional_producer :: "string \<Rightarrow> TransactionManager \<Rightarrow> bool" where
  "has_transactional_producer tid tm \<longleftrightarrow> map_of (transactional_producers tm) tid \<noteq> None"

section \<open>The index of open transactions\<close>

definition pin_lso :: "string \<Rightarrow> nat \<Rightarrow> offset \<Rightarrow> string \<Rightarrow> LsoIndex \<Rightarrow> LsoIndex" where
  "pin_lso topic part first tid ix =
     (let key = (topic, part);
          per = (case map_of ix key of None \<Rightarrow> [] | Some m \<Rightarrow> m);
          holders = (case map_of per first of None \<Rightarrow> {} | Some h \<Rightarrow> h)
      in AList.update key (bt_insert first (insert tid holders) per) ix)"

definition unpin_lso :: "string \<Rightarrow> range \<Rightarrow> LsoIndex \<Rightarrow> LsoIndex" where
  "unpin_lso tid r ix =
     (case r of (topic, part, first, _) \<Rightarrow>
        (case map_of ix (topic, part) of
           None \<Rightarrow> ix
         | Some per \<Rightarrow>
             (let per' =
                (case map_of per first of
                   None \<Rightarrow> per
                 | Some holders \<Rightarrow>
                     if holders - {tid} = {} then bt_remove first per
                     else bt_insert first (holders - {tid}) per)
              in if per' = [] then AList.delete (topic, part) ix
                 else AList.update (topic, part) per' ix)))"

definition pin_ranges :: "string \<Rightarrow> PartitionRangeList \<Rightarrow> LsoIndex \<Rightarrow> LsoIndex" where
  "pin_ranges tid rs ix =
     fold (\<lambda>(t, p, start, _) ix. if start \<noteq> U64_MAX then pin_lso t p start tid ix else ix) rs ix"

definition retire_from_lso_index :: "string \<Rightarrow> TransactionManager \<Rightarrow> TransactionManager" where
  "retire_from_lso_index tid tm =
     (case map_of (transactions tm) tid of
        None \<Rightarrow> tm
      | Some st \<Rightarrow> tm\<lparr>lso_index := fold (unpin_lso tid) (tx_partitions st) (lso_index tm)\<rparr>)"

definition last_stable_offset :: "string \<Rightarrow> nat \<Rightarrow> TransactionManager \<Rightarrow> offset" where
  "last_stable_offset topic part tm =
     (case map_of (lso_index tm) (topic, part) of
        None \<Rightarrow> U64_MAX
      | Some [] \<Rightarrow> U64_MAX
      | Some ((first, _) # _) \<Rightarrow> first)"

section \<open>Transactions\<close>

definition install_state :: "TransactionState \<Rightarrow> TransactionManager \<Rightarrow> TransactionManager" where
  "install_state st tm =
     (let tm = (if tx_status st = Committed \<or> tx_status st = Aborted
                then retire_from_lso_index (tx_id st) tm
                else tm\<lparr>lso_index := pin_ranges (tx_id st) (tx_partitions st) (lso_index tm)\<rparr>)
      in tm\<lparr>transactions := AList.update (tx_id st) st (transactions tm)\<rparr>)"

text \<open>\<open>persist\<close> is the write of the new state to the log; on an error nothing changes.\<close>

definition transition ::
    "string \<Rightarrow> (TransactionState option \<Rightarrow> TxnError + TransactionState) \<Rightarrow> (TransactionState \<Rightarrow> bool)
     \<Rightarrow> TransactionManager \<Rightarrow> TransactionManager \<times> (TxnError + TransactionState)" where
  "transition tid change persist tm =
     (case change (map_of (transactions tm) tid) of
        Inl e \<Rightarrow> (tm, Inl e)
      | Inr st \<Rightarrow>
          if \<not> persist st then (tm, Inl PersistFailed)
          else (tm\<lparr>transactions := AList.update tid st (transactions tm),
                   lso_index := pin_ranges tid (tx_partitions st) (lso_index tm)\<rparr>, Inr st))"

definition new_state :: "nat \<Rightarrow> string \<Rightarrow> nat \<Rightarrow> TransactionState" where
  "new_state now tid pid =
     \<lparr>tx_id = tid, tx_producer = pid, tx_status = Ongoing, tx_partitions = [], tx_created_at = now\<rparr>"

definition begin_transaction_durable ::
    "nat \<Rightarrow> string \<Rightarrow> nat \<Rightarrow> (TransactionState \<Rightarrow> bool) \<Rightarrow> TransactionManager
     \<Rightarrow> TransactionManager \<times> (TxnError + TransactionState)" where
  "begin_transaction_durable now tid pid =
     transition tid (\<lambda>old. if old \<noteq> None then Inl AlreadyExists else Inr (new_state now tid pid))"

definition add_range :: "string \<Rightarrow> nat \<Rightarrow> PartitionRangeList \<Rightarrow> PartitionRangeList" where
  "add_range topic part rs =
     (if list_ex (\<lambda>(t, p, _, _). t = topic \<and> p = part) rs then rs
      else rs @ [(topic, part, U64_MAX, U64_MAX)])"

definition add_partitions_durable ::
    "nat \<Rightarrow> string \<Rightarrow> nat \<Rightarrow> (string \<times> nat list) list \<Rightarrow> (TransactionState \<Rightarrow> bool) \<Rightarrow> TransactionManager
     \<Rightarrow> TransactionManager \<times> (TxnError + TransactionState)" where
  "add_partitions_durable now tid pid topics =
     transition tid (\<lambda>old.
       (let next = (case old of None \<Rightarrow> new_state now tid pid | Some st \<Rightarrow> st) in
        if tx_producer next \<noteq> pid \<or> tx_status next \<noteq> Ongoing then Inl NotOngoingOrFenced
        else Inr (next\<lparr>tx_partitions :=
               fold (\<lambda>(topic, parts) rs. fold (add_range topic) parts rs) topics (tx_partitions next)\<rparr>)))"

fun register_range :: "string \<Rightarrow> nat \<Rightarrow> offset \<Rightarrow> PartitionRangeList \<Rightarrow> PartitionRangeList" where
  "register_range topic part start [] = [(topic, part, start, U64_MAX)]"
| "register_range topic part start ((t, p, first, stop) # rs) =
     (if t = topic \<and> p = part then (t, p, min first start, stop) # rs
      else (t, p, first, stop) # register_range topic part start rs)"

definition register_partition_durable ::
    "string \<Rightarrow> string \<Rightarrow> nat \<Rightarrow> offset \<Rightarrow> (TransactionState \<Rightarrow> bool) \<Rightarrow> TransactionManager
     \<Rightarrow> TransactionManager \<times> (TxnError + TransactionState)" where
  "register_partition_durable tid topic part start =
     transition tid (\<lambda>old.
       case old of
         None \<Rightarrow> Inl NotFound
       | Some next \<Rightarrow>
           if tx_status next \<noteq> Ongoing then Inl NotOngoing
           else Inr (next\<lparr>tx_partitions := register_range topic part start (tx_partitions next)\<rparr>))"

definition prepare_durable ::
    "string \<Rightarrow> TxStatus \<Rightarrow> (TransactionState \<Rightarrow> bool) \<Rightarrow> TransactionManager
     \<Rightarrow> TransactionManager \<times> (TxnError + TransactionState)" where
  "prepare_durable tid status =
     transition tid (\<lambda>old.
       case old of
         None \<Rightarrow> Inl NotFound
       | Some next \<Rightarrow>
           if tx_status next \<noteq> Ongoing \<and> tx_status next \<noteq> status then Inl DifferentDecision
           else Inr (next\<lparr>tx_status := status\<rparr>))"

definition set_end :: "string \<times> nat \<times> offset \<Rightarrow> PartitionRangeList \<Rightarrow> PartitionRangeList" where
  "set_end e rs =
     (case e of (topic, part, end_off) \<Rightarrow>
        map (\<lambda>(t, p, start, stop). (t, p, start, if t = topic \<and> p = part then end_off else stop)) rs)"

definition complete_with_status ::
    "string \<Rightarrow> TxStatus \<Rightarrow> (string \<times> nat \<times> offset) list \<Rightarrow> TransactionManager
     \<Rightarrow> TransactionManager \<times> (TxnError + unit)" where
  "complete_with_status tid status end_offsets tm =
     (case map_of (transactions tm) tid of
        None \<Rightarrow> (tm, Inl NotFound)
      | Some st \<Rightarrow>
          (let st = st\<lparr>tx_status := status, tx_partitions := fold set_end end_offsets (tx_partitions st)\<rparr>
           in (retire_from_lso_index tid
                 (tm\<lparr>transactions := AList.update tid st (transactions tm)\<rparr>), Inr ())))"

definition aborted_ranges :: "string \<Rightarrow> nat \<Rightarrow> TransactionManager \<Rightarrow> (offset \<times> offset) list" where
  "aborted_ranges topic part tm =
     concat (map (\<lambda>(_, st).
       if tx_status st = Aborted
       then map (\<lambda>(_, _, start, stop). (start, stop))
              (filter (\<lambda>(t, p, _, _). t = topic \<and> p = part) (tx_partitions st))
       else []) (transactions tm))"

definition get_producer_id :: "string \<Rightarrow> TransactionManager \<Rightarrow> nat" where
  "get_producer_id tid tm = (case map_of (transactions tm) tid of None \<Rightarrow> 0 | Some st \<Rightarrow> tx_producer st)"

definition is_ongoing :: "string \<Rightarrow> TransactionManager \<Rightarrow> bool" where
  "is_ongoing tid tm =
     (case map_of (transactions tm) tid of None \<Rightarrow> False | Some st \<Rightarrow> open_status (tx_status st))"

definition cleanup_completed_transaction :: "string \<Rightarrow> TransactionManager \<Rightarrow> TransactionManager" where
  "cleanup_completed_transaction tid tm =
     (case map_of (transactions tm) tid of
        None \<Rightarrow> tm
      | Some st \<Rightarrow>
          if tx_status st = Committed \<or> tx_status st = Aborted
          then tm\<lparr>transactions := AList.delete tid (transactions tm)\<rparr> else tm)"

definition restore_transaction ::
    "nat \<Rightarrow> string \<Rightarrow> nat \<Rightarrow> TxStatus \<Rightarrow> PartitionRangeList \<Rightarrow> TransactionManager \<Rightarrow> TransactionManager" where
  "restore_transaction now tid pid status rs tm =
     (let tm = (if open_status status then tm\<lparr>lso_index := pin_ranges tid rs (lso_index tm)\<rparr> else tm)
      in tm\<lparr>transactions := AList.update tid
              \<lparr>tx_id = tid, tx_producer = pid, tx_status = status, tx_partitions = rs,
               tx_created_at = now\<rparr> (transactions tm)\<rparr>)"

definition expired_ongoing_transaction_ids :: "nat \<Rightarrow> nat \<Rightarrow> TransactionManager \<Rightarrow> string list" where
  "expired_ongoing_transaction_ids now max_age tm =
     map fst (filter (\<lambda>(_, st). open_status (tx_status st) \<and> max_age < now - tx_created_at st)
       (transactions tm))"

definition stale :: "nat \<Rightarrow> nat \<Rightarrow> TransactionState \<Rightarrow> bool" where
  "stale now max_age st \<longleftrightarrow>
     max_age < now - tx_created_at st \<or> max_age = 0 \<and> (tx_status st = Committed \<or> tx_status st = Aborted)"

definition prune_stale_transactions :: "nat \<Rightarrow> nat \<Rightarrow> TransactionManager \<Rightarrow> TransactionManager \<times> nat" where
  "prune_stale_transactions now max_age tm =
     (let to_remove = map fst (filter (\<lambda>(_, st). stale now max_age st) (transactions tm)) in
      (tm\<lparr>transactions := fold AList.delete to_remove (transactions tm)\<rparr>, length to_remove))"

section \<open>Records of the transaction log\<close>

primrec status_byte :: "TxStatus \<Rightarrow> byte" where
  "status_byte Ongoing = 1"
| "status_byte PrepareCommit = 2"
| "status_byte PrepareAbort = 3"
| "status_byte Committed = 4"
| "status_byte Aborted = 5"

definition status_of_byte :: "byte \<Rightarrow> TxStatus option" where
  "status_of_byte b =
     (if b = 1 then Some Ongoing else if b = 2 then Some PrepareCommit
      else if b = 3 then Some PrepareAbort else if b = 4 then Some Committed
      else if b = 5 then Some Aborted else None)"

text \<open>The strings are at most \<open>u16::MAX\<close> bytes long, otherwise writing them panics (\<open>None\<close>).\<close>

fun encode_ranges :: "PartitionRangeList \<Rightarrow> bytes option" where
  "encode_ranges [] = Some []"
| "encode_ranges ((t, p, start, stop) # rs) =
     (case write_pascal_string t of
        None \<Rightarrow> None
      | Some topic \<Rightarrow>
          map_option (\<lambda>rest. topic @ be_bytes 4 p @ be_bytes 8 start @ be_bytes 8 stop @ rest)
            (encode_ranges rs))"

definition encode_tx_state_record ::
    "TxStatus \<Rightarrow> nat \<Rightarrow> string \<Rightarrow> PartitionRangeList \<Rightarrow> bytes option" where
  "encode_tx_state_record status pid tid rs =
     (case write_pascal_string tid of
        None \<Rightarrow> None
      | Some name \<Rightarrow>
          map_option (\<lambda>rest. status_byte status # be_bytes 8 pid @ name @ be_bytes 4 (length rs) @ rest)
            (encode_ranges rs))"

definition decode_range :: "bytes \<Rightarrow> (range \<times> bytes) option" where
  "decode_range buf =
     (if length buf < 2 then None
      else
        (let (t_len, buf) = take_be 2 buf in
         if length buf < t_len + 4 + 8 + 8 then None
         else case from_utf8 (take t_len buf) of
                None \<Rightarrow> None
              | Some topic \<Rightarrow>
                  (let (part, buf) = take_be 4 (drop t_len buf);
                       (start, buf) = take_be 8 buf;
                       (stop, buf) = take_be 8 buf
                   in Some ((topic, part, start, stop), buf))))"

primrec decode_ranges :: "nat \<Rightarrow> bytes \<Rightarrow> (PartitionRangeList \<times> bytes) option" where
  "decode_ranges 0 buf = Some ([], buf)"
| "decode_ranges (Suc n) buf =
     (case decode_range buf of
        None \<Rightarrow> None
      | Some (r, buf) \<Rightarrow> map_option (\<lambda>(rs, rest). (r # rs, rest)) (decode_ranges n buf))"

definition decode_tx_state_record ::
    "bytes \<Rightarrow> (TxStatus \<times> nat \<times> string \<times> PartitionRangeList) option" where
  "decode_tx_state_record src =
     (if length src < 11 then None
      else
        (let status = hd src;
             (pid, buf) = take_be 8 (tl src);
             (tx_len, buf) = take_be 2 buf in
         if length buf < tx_len then None
         else case from_utf8 (take tx_len buf) of
                None \<Rightarrow> None
              | Some tid \<Rightarrow>
                  (let buf = drop tx_len buf in
                   if length buf < 4 then None
                   else
                     (let (count, buf) = take_be 4 buf in
                      if 100000 < count \<or> length buf div 22 < count then None
                      else (case decode_ranges count buf of
                              None \<Rightarrow> None
                            | Some (rs, rest) \<Rightarrow>
                                if rest \<noteq> [] then None
                                else map_option (\<lambda>st. (st, pid, tid, rs)) (status_of_byte status))))))"

section \<open>Sequences of operations\<close>

text \<open>One operation of the manager with its arguments, the clock and the outcome of a write.\<close>

datatype txn_op =
    OpBegin nat string nat bool
  | OpAddPartitions nat string nat "(string \<times> nat list) list" bool
  | OpRegister string string nat offset bool
  | OpPrepare string bool bool
  | OpComplete string bool "(string \<times> nat \<times> offset) list"
  | OpInstall TransactionState
  | OpRestore nat string nat TxStatus PartitionRangeList
  | OpCleanup string
  | OpPrune nat nat
  | OpRecordSequence nat nat
  | OpNextProducer string
  | OpInitProducer string
  | OpRestoreProducer string nat int
  | OpObserve nat

fun apply_op :: "txn_op \<Rightarrow> TransactionManager \<Rightarrow> TransactionManager" where
  "apply_op (OpBegin now tid pid ok) tm = fst (begin_transaction_durable now tid pid (\<lambda>_. ok) tm)"
| "apply_op (OpAddPartitions now tid pid topics ok) tm =
     fst (add_partitions_durable now tid pid topics (\<lambda>_. ok) tm)"
| "apply_op (OpRegister tid topic part start ok) tm =
     fst (register_partition_durable tid topic part start (\<lambda>_. ok) tm)"
| "apply_op (OpPrepare tid commit ok) tm =
     fst (prepare_durable tid (if commit then PrepareCommit else PrepareAbort) (\<lambda>_. ok) tm)"
| "apply_op (OpComplete tid commit ends) tm =
     fst (complete_with_status tid (if commit then Committed else Aborted) ends tm)"
| "apply_op (OpInstall st) tm = install_state st tm"
| "apply_op (OpRestore now tid pid status rs) tm = restore_transaction now tid pid status rs tm"
| "apply_op (OpCleanup tid) tm = cleanup_completed_transaction tid tm"
| "apply_op (OpPrune now max_age) tm = fst (prune_stale_transactions now max_age tm)"
| "apply_op (OpRecordSequence pid seq) tm = record_sequence pid seq tm"
| "apply_op (OpNextProducer tid) tm = fst (next_transactional_producer tid tm)"
| "apply_op (OpInitProducer tid) tm = fst (init_transactional_producer tid tm)"
| "apply_op (OpRestoreProducer tid pid epoch) tm = restore_transactional_producer tid pid epoch tm"
| "apply_op (OpObserve pid) tm = observe_producer_id pid tm"

definition run_ops :: "txn_op list \<Rightarrow> TransactionManager \<Rightarrow> TransactionManager" where
  "run_ops = fold apply_op"

section \<open>What the index holds\<close>

definition pinned :: "LsoIndex \<Rightarrow> string \<Rightarrow> (string \<times> nat \<times> offset) set" where
  "pinned ix tid = {(t, p, off). \<exists>m h. map_of ix (t, p) = Some m \<and> map_of m off = Some h \<and> tid \<in> h}"

definition per_ok :: "LsoOffsetMap \<Rightarrow> bool" where
  "per_ok m \<longleftrightarrow> bt_sorted m \<and> m \<noteq> [] \<and> (\<forall>off h. map_of m off = Some h \<longrightarrow> h \<noteq> {})"

definition lso_ok :: "LsoIndex \<Rightarrow> bool" where
  "lso_ok ix \<longleftrightarrow> distinct (map fst ix) \<and> (\<forall>k m. map_of ix k = Some m \<longrightarrow> per_ok m)"

lemma lso_okD: "lso_ok ix \<Longrightarrow> map_of ix k = Some m \<Longrightarrow> per_ok m"
  unfolding lso_ok_def by blast

lemma lso_ok_update: "lso_ok ix \<Longrightarrow> per_ok m \<Longrightarrow> lso_ok (AList.update k m ix)"
  by (auto simp: lso_ok_def update_conv' distinct_update simp del: map_of_eq_Some_iff split: if_splits)

lemma lso_ok_delete: "lso_ok ix \<Longrightarrow> lso_ok (AList.delete k ix)"
  by (auto simp: lso_ok_def delete_conv' distinct_delete simp del: map_of_eq_Some_iff split: if_splits)

definition known_starts :: "PartitionRangeList \<Rightarrow> (string \<times> nat \<times> offset) set" where
  "known_starts rs = {(t, p, start). start \<noteq> U64_MAX \<and> (\<exists>stop. (t, p, start, stop) \<in> set rs)}"

lemma pinned_pin_lso:
  "pinned (pin_lso t p off tid ix) j = (if j = tid then insert (t, p, off) (pinned ix j) else pinned ix j)"
  by (auto simp: pinned_def pin_lso_def Let_def update_conv' split: option.splits if_splits)

lemma lso_ok_pin_lso: "lso_ok ix \<Longrightarrow> lso_ok (pin_lso t p off tid ix)"
proof -
  assume ok: "lso_ok ix"
  have ne: "bt_insert k v m \<noteq> []" for k :: nat and v :: "string set" and m by (cases m) auto
  let ?per = "case map_of ix (t, p) of None \<Rightarrow> [] | Some m \<Rightarrow> m"
  have "bt_sorted ?per" "\<forall>off h. map_of ?per off = Some h \<longrightarrow> h \<noteq> {}"
    using lso_okD [OF ok, of "(t, p)"] by (auto simp: per_ok_def split: option.splits)
  then have "per_ok (bt_insert off (insert tid h) ?per)" for h
    by (simp add: per_ok_def ne)
  then show ?thesis using ok by (simp add: pin_lso_def Let_def lso_ok_update)
qed

lemma pinned_unpin_lso:
  assumes "lso_ok ix"
  shows "pinned (unpin_lso tid (t, p, off, e) ix) j =
    (if j = tid then pinned ix j - {(t, p, off)} else pinned ix j)"
proof (cases "map_of ix (t, p)")
  case None
  then show ?thesis by (auto simp: unpin_lso_def pinned_def)
next
  case (Some m)
  then have s: "bt_sorted m" using lso_okD [OF assms] by (simp add: per_ok_def)
  show ?thesis
  proof (cases "map_of m off")
    case None
    from lso_okD [OF assms Some] have "m \<noteq> []" by (simp add: per_ok_def)
    with Some None have "map_of (unpin_lso tid (t, p, off, e) ix) = map_of ix"
      by (simp add: unpin_lso_def update_conv' fun_eq_iff)
    then have "pinned (unpin_lso tid (t, p, off, e) ix) j = pinned ix j" by (simp add: pinned_def)
    moreover have "(t, p, off) \<notin> pinned ix j" using Some None by (simp add: pinned_def)
    ultimately show ?thesis by auto
  next
    case h: (Some h)
    define m' where "m' = (if h - {tid} = {} then bt_remove off m else bt_insert off (h - {tid}) m)"
    have m': "map_of m' = (map_of m)(off := if h - {tid} = {} then None else Some (h - {tid}))"
      using s by (simp add: m'_def)
    have u: "map_of (unpin_lso tid (t, p, off, e) ix) =
        (map_of ix)((t, p) := if m' = [] then None else Some m')"
      using Some h by (simp add: unpin_lso_def Let_def m'_def update_conv' delete_conv')
    have nil: "map_of m' x = None" if "m' = []" for x using that by simp
    have "(t', p', o') \<in> pinned (unpin_lso tid (t, p, off, e) ix) j \<longleftrightarrow>
      (if (t', p') = (t, p) then (\<exists>h. map_of m' o' = Some h \<and> j \<in> h)
       else (t', p', o') \<in> pinned ix j)" for t' p' o'
      unfolding pinned_def u using nil by auto
    moreover have "(\<exists>h. map_of m' o' = Some h \<and> j \<in> h) \<longleftrightarrow>
      (t, p, o') \<in> pinned ix j \<and> \<not> (o' = off \<and> j = tid)" for o'
      unfolding m' pinned_def using Some h by auto
    ultimately show ?thesis by (auto split: if_splits)
  qed
qed

lemma lso_ok_unpin_lso:
  assumes ok: "lso_ok ix"
  shows "lso_ok (unpin_lso tid r ix)"
proof -
  obtain t p off e where r: "r = (t, p, off, e)" by (cases r)
  show ?thesis
  proof (cases "map_of ix (t, p)")
    case None
    with ok show ?thesis by (simp add: unpin_lso_def r)
  next
    case (Some m)
    then have m: "bt_sorted m" "\<And>off h. map_of m off = Some h \<Longrightarrow> h \<noteq> {}"
      using lso_okD [OF ok Some] by (auto simp: per_ok_def)
    define m' where "m' = (case map_of m off of
        None \<Rightarrow> m
      | Some h \<Rightarrow> if h - {tid} = {} then bt_remove off m else bt_insert off (h - {tid}) m)"
    have "per_ok m'" if "m' \<noteq> []"
      using m that by (auto simp: per_ok_def m'_def split: option.splits if_splits)
    moreover have "unpin_lso tid r ix =
        (if m' = [] then AList.delete (t, p) ix else AList.update (t, p) m' ix)"
      using Some by (simp add: unpin_lso_def r Let_def m'_def)
    ultimately show ?thesis using ok by (simp add: lso_ok_update lso_ok_delete)
  qed
qed

lemma lso_ok_unpin_all: "lso_ok ix \<Longrightarrow> lso_ok (fold (unpin_lso tid) rs ix)"
  by (induction rs arbitrary: ix) (simp_all add: lso_ok_unpin_lso)

lemma pinned_unpin_all:
  "lso_ok ix \<Longrightarrow> pinned (fold (unpin_lso tid) rs ix) j =
     (if j = tid then pinned ix j - {(t, p, off). \<exists>e. (t, p, off, e) \<in> set rs} else pinned ix j)"
proof (induction rs arbitrary: ix)
  case Nil
  then show ?case by simp
next
  case (Cons r rs)
  obtain t p off e where r: "r = (t, p, off, e)" by (cases r)
  from Cons show ?case
    by (auto simp: r lso_ok_unpin_lso pinned_unpin_lso)
qed

lemma pin_ranges_Nil [simp]: "pin_ranges tid [] ix = ix"
  by (simp add: pin_ranges_def)

lemma pin_ranges_Cons [simp]:
  "pin_ranges tid ((t, p, start, stop) # rs) ix =
     pin_ranges tid rs (if start \<noteq> U64_MAX then pin_lso t p start tid ix else ix)"
  by (simp add: pin_ranges_def)

lemma lso_ok_pin_ranges: "lso_ok ix \<Longrightarrow> lso_ok (pin_ranges tid rs ix)"
  by (induction rs arbitrary: ix) (auto simp: lso_ok_pin_lso)

lemma pinned_pin_ranges:
  "pinned (pin_ranges tid rs ix) j = (if j = tid then pinned ix j \<union> known_starts rs else pinned ix j)"
proof (induction rs arbitrary: ix)
  case Nil
  then show ?case by (auto simp: known_starts_def)
next
  case (Cons r rs)
  obtain t p off e where r: "r = (t, p, off, e)" by (cases r)
  have "known_starts (r # rs) = (if off \<noteq> U64_MAX then {(t, p, off)} else {}) \<union> known_starts rs"
    by (auto simp: known_starts_def r)
  with Cons show ?case by (auto simp: r pinned_pin_lso)
qed

text \<open>The last stable offset is the smallest offset anybody pins.\<close>

lemma last_stable_offset_le:
  assumes ok: "lso_ok (lso_index tm)" and pin: "(t, p, off) \<in> pinned (lso_index tm) tid"
  shows "last_stable_offset t p tm \<le> off"
proof -
  from pin obtain m h where m: "map_of (lso_index tm) (t, p) = Some m" "map_of m off = Some h"
    by (auto simp: pinned_def)
  then have s: "bt_sorted m" using lso_okD [OF ok] by (simp add: per_ok_def)
  obtain k v m' where c: "m = (k, v) # m'" using m(2) by (cases m) auto
  have "(off, h) \<in> set m" using m(2) by (rule map_of_SomeD)
  then have "k \<le> off" using s unfolding c by auto
  then show ?thesis using m(1) by (simp add: last_stable_offset_def c)
qed

lemma last_stable_offset_pinned:
  assumes ok: "lso_ok (lso_index tm)" and pin: "(t, p, off) \<in> pinned (lso_index tm) j"
  shows "\<exists>tid. (t, p, last_stable_offset t p tm) \<in> pinned (lso_index tm) tid"
proof -
  from pin obtain m where m: "map_of (lso_index tm) (t, p) = Some m" by (auto simp: pinned_def)
  from lso_okD [OF ok m] have m_ok: "m \<noteq> []" "\<And>x h. map_of m x = Some h \<Longrightarrow> h \<noteq> {}"
    by (auto simp: per_ok_def)
  obtain k h m' where c: "m = (k, h) # m'" using m_ok(1) by (cases m) auto
  have k: "map_of m k = Some h" by (simp add: c)
  from m_ok(2) [OF k] obtain tid where "tid \<in> h" by auto
  with m k have "(t, p, k) \<in> pinned (lso_index tm) tid" by (auto simp: pinned_def)
  moreover have "last_stable_offset t p tm = k" using m by (simp add: last_stable_offset_def c)
  ultimately show ?thesis by auto
qed

lemma last_stable_offset_free:
  assumes ok: "lso_ok (lso_index tm)" and free: "\<And>off j. (t, p, off) \<notin> pinned (lso_index tm) j"
  shows "last_stable_offset t p tm = U64_MAX"
proof (cases "map_of (lso_index tm) (t, p)")
  case (Some m)
  from lso_okD [OF ok Some] have m_ok: "m \<noteq> []" "\<And>x h. map_of m x = Some h \<Longrightarrow> h \<noteq> {}"
    by (auto simp: per_ok_def)
  obtain k h m' where c: "m = (k, h) # m'" using m_ok(1) by (cases m) auto
  have k: "map_of m k = Some h" by (simp add: c)
  from m_ok(2) [OF k] obtain tid where "tid \<in> h" by auto
  with Some k have "(t, p, k) \<in> pinned (lso_index tm) tid" by (auto simp: pinned_def)
  with free show ?thesis by blast
qed (simp add: last_stable_offset_def)

section \<open>What the transactions hold\<close>

definition held :: "TransactionManager \<Rightarrow> string \<Rightarrow> (string \<times> nat \<times> offset) set" where
  "held tm tid =
     (case map_of (transactions tm) tid of
        None \<Rightarrow> {}
      | Some st \<Rightarrow> if open_status (tx_status st) then known_starts (tx_partitions st) else {})"

text \<open>The reference: a scan of all transactions, as the code did before it had the index.\<close>

definition starts_of :: "string \<Rightarrow> nat \<Rightarrow> TransactionState \<Rightarrow> offset list" where
  "starts_of topic part st =
     (if open_status (tx_status st)
      then map (\<lambda>(_, _, start, _). start)
             (filter (\<lambda>(t, p, start, _). t = topic \<and> p = part \<and> start \<noteq> U64_MAX) (tx_partitions st))
      else [])"

definition open_starts :: "string \<Rightarrow> nat \<Rightarrow> TransactionManager \<Rightarrow> offset list" where
  "open_starts topic part tm = concat (map (starts_of topic part \<circ> snd) (transactions tm))"

definition lso_by_scan :: "string \<Rightarrow> nat \<Rightarrow> TransactionManager \<Rightarrow> offset" where
  "lso_by_scan topic part tm =
     (if open_starts topic part tm = [] then U64_MAX else Min (set (open_starts topic part tm)))"

text \<open>
  The operations that keep the index exact: starts are registered in order, a state that
  replaces an open one keeps its starts, a restored transaction is new, and no open
  transaction is pruned.
\<close>

fun orderly :: "TransactionManager \<Rightarrow> txn_op \<Rightarrow> bool" where
  "orderly tm (OpRegister tid topic part start ok) \<longleftrightarrow>
     (\<forall>off. (topic, part, off) \<in> held tm tid \<longrightarrow> off \<le> start)"
| "orderly tm (OpInstall st) \<longleftrightarrow>
     (if open_status (tx_status st) then held tm (tx_id st) \<subseteq> known_starts (tx_partitions st) else True)"
| "orderly tm (OpRestore now tid pid status rs) \<longleftrightarrow> map_of (transactions tm) tid = None"
| "orderly tm (OpPrune now max_age) \<longleftrightarrow>
     (\<forall>tid st. map_of (transactions tm) tid = Some st \<longrightarrow> stale now max_age st \<longrightarrow> held tm tid = {})"
| "orderly tm op \<longleftrightarrow> True"

fun orderly_run :: "txn_op list \<Rightarrow> TransactionManager \<Rightarrow> bool" where
  "orderly_run [] tm \<longleftrightarrow> True"
| "orderly_run (op # ops) tm \<longleftrightarrow> orderly tm op \<and> orderly_run ops (apply_op op tm)"

definition txn_safe :: "TransactionManager \<Rightarrow> bool" where
  "txn_safe tm \<longleftrightarrow> lso_ok (lso_index tm) \<and> distinct (map fst (transactions tm)) \<and>
     (\<forall>tid. held tm tid \<subseteq> pinned (lso_index tm) tid)"

definition txn_exact :: "TransactionManager \<Rightarrow> bool" where
  "txn_exact tm \<longleftrightarrow> txn_safe tm \<and> (\<forall>tid. pinned (lso_index tm) tid = held tm tid)"

text \<open>What the operations do to the two sides, by the shape they share.\<close>

lemma txn_store:
  assumes safe: "txn_safe tm" and st: "open_status (tx_status st)"
  shows "txn_safe (tm\<lparr>transactions := AList.update tid st (transactions tm),
      lso_index := pin_ranges tid (tx_partitions st) (lso_index tm)\<rparr>)"
    and "\<lbrakk>txn_exact tm; held tm tid \<subseteq> known_starts (tx_partitions st)\<rbrakk> \<Longrightarrow>
      txn_exact (tm\<lparr>transactions := AList.update tid st (transactions tm),
      lso_index := pin_ranges tid (tx_partitions st) (lso_index tm)\<rparr>)"
proof -
  let ?tm = "tm\<lparr>transactions := AList.update tid st (transactions tm),
      lso_index := pin_ranges tid (tx_partitions st) (lso_index tm)\<rparr>"
  have held: "held ?tm j = (if j = tid then known_starts (tx_partitions st) else held tm j)" for j
    using st by (simp add: held_def update_conv')
  show *: "txn_safe ?tm"
    using safe by (auto simp: txn_safe_def held lso_ok_pin_ranges pinned_pin_ranges distinct_update)
  show "txn_exact ?tm" if "txn_exact tm" "held tm tid \<subseteq> known_starts (tx_partitions st)"
    using * that by (auto simp: txn_exact_def held pinned_pin_ranges)
qed

lemma txn_drop:
  assumes safe: "txn_safe tm"
    and less: "\<And>j. held tm' j = held tm j \<or> held tm' j = {}"
    and same: "lso_index tm' = lso_index tm" "distinct (map fst (transactions tm'))"
  shows "txn_safe tm'"
  using safe less same by (force simp: txn_safe_def)

lemma retire_txn:
  assumes safe: "txn_safe tm" and st: "map_of (transactions tm) tid = Some old"
    and new: "\<not> open_status (tx_status st)" "\<And>t p off. (\<exists>e. (t, p, off, e) \<in> set (tx_partitions st')) \<longleftrightarrow>
      (\<exists>e. (t, p, off, e) \<in> set (tx_partitions old))"
  shows "txn_safe (tm\<lparr>transactions := AList.update tid st (transactions tm),
      lso_index := fold (unpin_lso tid) (tx_partitions st') (lso_index tm)\<rparr>)"
    and "txn_exact tm \<Longrightarrow> txn_exact (tm\<lparr>transactions := AList.update tid st (transactions tm),
      lso_index := fold (unpin_lso tid) (tx_partitions st') (lso_index tm)\<rparr>)"
proof -
  let ?tm = "tm\<lparr>transactions := AList.update tid st (transactions tm),
      lso_index := fold (unpin_lso tid) (tx_partitions st') (lso_index tm)\<rparr>"
  have ok: "lso_ok (lso_index tm)" using safe by (simp add: txn_safe_def)
  have held: "held ?tm j = (if j = tid then {} else held tm j)" for j
    using new by (simp add: held_def update_conv')
  have pin: "pinned (lso_index ?tm) j = (if j = tid then pinned (lso_index tm) j -
      {(t, p, off). \<exists>e. (t, p, off, e) \<in> set (tx_partitions old)} else pinned (lso_index tm) j)" for j
    using new(2) by (simp add: pinned_unpin_all [OF ok])
  show *: "txn_safe ?tm"
    using safe pin by (auto simp: txn_safe_def held lso_ok_unpin_all distinct_update)
  show "txn_exact ?tm" if ex: "txn_exact tm"
  proof -
    have "pinned (lso_index tm) tid \<subseteq> known_starts (tx_partitions old)"
      using ex st by (auto simp: txn_exact_def held_def split: if_splits)
    then show ?thesis using * ex pin by (auto simp: txn_exact_def held known_starts_def)
  qed
qed

lemma held_frame: "transactions tm' = transactions tm \<Longrightarrow> held tm' = held tm"
  by (simp add: held_def fun_eq_iff)

lemma txn_frame:
  assumes "transactions tm' = transactions tm" "lso_index tm' = lso_index tm"
  shows "txn_safe tm' = txn_safe tm" "txn_exact tm' = txn_exact tm"
  using assms held_frame [OF assms(1)] by (simp_all add: txn_safe_def txn_exact_def)

lemma txn_same_held:
  assumes "txn_safe tm" "held tm' = held tm" "lso_index tm' = lso_index tm"
    "distinct (map fst (transactions tm'))"
  shows "txn_safe tm'" "txn_exact tm \<Longrightarrow> txn_exact tm'"
  using assms by (simp_all add: txn_safe_def txn_exact_def)

lemma txn_transition:
  assumes safe: "txn_safe tm"
    and keeps: "\<And>st. change (map_of (transactions tm) tid) = Inr st \<Longrightarrow> open_status (tx_status st)"
  shows "txn_safe (fst (transition tid change persist tm))"
    and "\<lbrakk>txn_exact tm; \<And>st. change (map_of (transactions tm) tid) = Inr st \<Longrightarrow>
        held tm tid \<subseteq> known_starts (tx_partitions st)\<rbrakk> \<Longrightarrow>
      txn_exact (fst (transition tid change persist tm))"
  using txn_store(1) [OF safe keeps] txn_store(2) [OF safe keeps] safe
  by (auto simp: transition_def split: sum.splits)

lemma known_starts_add_range [simp]: "known_starts (add_range topic part rs) = known_starts rs"
  by (auto simp: known_starts_def add_range_def)

lemma known_starts_add_ranges [simp]:
  "known_starts (fold (add_range topic) parts rs) = known_starts rs"
  by (induction parts arbitrary: rs) simp_all

lemma known_starts_add_topics [simp]:
  "known_starts (fold (\<lambda>(topic, parts) rs. fold (add_range topic) parts rs) topics rs) = known_starts rs"
  by (induction topics arbitrary: rs) (auto split: prod.splits)

lemma known_starts_Cons:
  "known_starts ((t, p, start, stop) # rs) =
     (if start \<noteq> U64_MAX then {(t, p, start)} else {}) \<union> known_starts rs"
  by (auto simp: known_starts_def)

lemma known_starts_register:
  "\<forall>off. (topic, part, off) \<in> known_starts rs \<longrightarrow> off \<le> start \<Longrightarrow>
     known_starts rs \<subseteq> known_starts (register_range topic part start rs)"
proof (induction topic part start rs rule: register_range.induct)
  case (1 topic part start)
  then show ?case by (auto simp: known_starts_def)
next
  case (2 topic part start t p first stop rs)
  then show ?case by (auto simp: known_starts_Cons min_def split: if_splits)
qed

lemma map_of_fold_delete:
  "map_of (fold AList.delete ks al) k = (if k \<in> set ks then None else map_of al k)"
  by (induction ks arbitrary: al) (auto simp: delete_conv')

lemma distinct_fold_delete: "distinct (map fst al) \<Longrightarrow> distinct (map fst (fold AList.delete ks al))"
  by (induction ks arbitrary: al) (auto simp: distinct_delete)

lemma set_end_starts:
  "(\<exists>e. (t, p, off, e) \<in> set (fold set_end ends rs)) \<longleftrightarrow> (\<exists>e. (t, p, off, e) \<in> set rs)"
proof (induction ends arbitrary: rs)
  case (Cons x ends)
  obtain topic part e where x: "x = (topic, part, e)" by (cases x)
  have "(\<exists>e. (t, p, off, e) \<in> set (set_end x rs)) \<longleftrightarrow> (\<exists>e. (t, p, off, e) \<in> set rs)"
    by (force simp: set_end_def x)
  with Cons show ?case by simp
qed simp

lemma open_status_simps [simp]:
  "open_status Ongoing" "open_status PrepareCommit" "open_status PrepareAbort"
  "\<not> open_status Committed" "\<not> open_status Aborted"
  by (simp_all add: open_status_def)

lemma open_status_iff: "open_status s \<longleftrightarrow> s \<noteq> Committed \<and> s \<noteq> Aborted"
  by (cases s) simp_all

lemma evict_frame [simp]:
  "transactions (evict_lru_sequences n tm) = transactions tm"
  "lso_index (evict_lru_sequences n tm) = lso_index tm"
  "transactional_producers (evict_lru_sequences n tm) = transactional_producers tm"
  by (simp_all only: evict_lru_sequences_def Let_def split: if_split) simp_all

lemma record_sequence_frame [simp]:
  "transactions (record_sequence pid seq tm) = transactions tm"
  "lso_index (record_sequence pid seq tm) = lso_index tm"
  "transactional_producers (record_sequence pid seq tm) = transactional_producers tm"
  by (simp_all only: record_sequence_def Let_def split: if_split) simp_all

lemma producer_frame [simp]:
  "transactions (fst (next_transactional_producer tid tm)) = transactions tm"
  "lso_index (fst (next_transactional_producer tid tm)) = lso_index tm"
  "transactions (fst (init_transactional_producer tid tm)) = transactions tm"
  "lso_index (fst (init_transactional_producer tid tm)) = lso_index tm"
  "transactions (restore_transactional_producer tid pid epoch tm) = transactions tm"
  "lso_index (restore_transactional_producer tid pid epoch tm) = lso_index tm"
  "transactions (observe_producer_id pid tm) = transactions tm"
  "lso_index (observe_producer_id pid tm) = lso_index tm"
  by (simp_all add: next_transactional_producer_def
      init_transactional_producer_def generate_producer_id_def restore_transactional_producer_def
      observe_producer_id_def split: option.splits)

lemma txn_frames [simp]:
  "txn_safe (record_sequence pid seq tm) = txn_safe tm"
  "txn_exact (record_sequence pid seq tm) = txn_exact tm"
  "txn_safe (fst (next_transactional_producer tid tm)) = txn_safe tm"
  "txn_exact (fst (next_transactional_producer tid tm)) = txn_exact tm"
  "txn_safe (fst (init_transactional_producer tid tm)) = txn_safe tm"
  "txn_exact (fst (init_transactional_producer tid tm)) = txn_exact tm"
  "txn_safe (restore_transactional_producer tid pid epoch tm) = txn_safe tm"
  "txn_exact (restore_transactional_producer tid pid epoch tm) = txn_exact tm"
  "txn_safe (observe_producer_id pid tm) = txn_safe tm"
  "txn_exact (observe_producer_id pid tm) = txn_exact tm"
  by (rule txn_frame; simp)+

lemma txn_exact_safe: "txn_exact tm \<Longrightarrow> txn_safe tm"
  by (simp add: txn_exact_def)

lemma install_ok:
  assumes safe: "txn_safe tm"
  shows "txn_safe (install_state st tm)"
    and "\<lbrakk>txn_exact tm; orderly tm (OpInstall st)\<rbrakk> \<Longrightarrow> txn_exact (install_state st tm)"
proof -
  have open_case: "install_state st tm =
      tm\<lparr>transactions := AList.update (tx_id st) st (transactions tm),
         lso_index := pin_ranges (tx_id st) (tx_partitions st) (lso_index tm)\<rparr>"
    if "open_status (tx_status st)"
    using that by (cases tm) (simp add: install_state_def open_status_iff)
  have retired: "install_state st tm =
      tm\<lparr>transactions := AList.update (tx_id st) st (transactions tm),
         lso_index := fold (unpin_lso (tx_id st)) (tx_partitions old) (lso_index tm)\<rparr>"
    if "\<not> open_status (tx_status st)" "map_of (transactions tm) (tx_id st) = Some old" for old
    using that by (cases tm) (simp add: install_state_def open_status_iff retire_from_lso_index_def)
  have fresh: "install_state st tm = tm\<lparr>transactions := AList.update (tx_id st) st (transactions tm)\<rparr>"
    "held (install_state st tm) = held tm"
    if "\<not> open_status (tx_status st)" "map_of (transactions tm) (tx_id st) = None"
  proof -
    from that show eq: "install_state st tm = tm\<lparr>transactions := AList.update (tx_id st) st (transactions tm)\<rparr>"
      by (auto simp: install_state_def open_status_iff retire_from_lso_index_def)
    show "held (install_state st tm) = held tm"
      unfolding eq using that by (intro ext) (auto simp: held_def update_conv')
  qed
  have d: "distinct (map fst (AList.update (tx_id st) st (transactions tm)))"
    using safe by (simp add: txn_safe_def distinct_update)
  show "txn_safe (install_state st tm)"
  proof (cases "open_status (tx_status st)")
    case True
    then show ?thesis using txn_store(1) [OF safe, of st "tx_id st"] open_case by simp
  next
    case False
    show ?thesis
    proof (cases "map_of (transactions tm) (tx_id st)")
      case None
      show ?thesis
        by (rule txn_same_held(1) [OF safe fresh(2) [OF False None]]) (use fresh(1) [OF False None] d in simp_all)
    next
      case (Some old)
      then show ?thesis using retire_txn(1) [OF safe Some, of st old] False retired by simp
    qed
  qed
  show "txn_exact (install_state st tm)" if ex: "txn_exact tm" and o: "orderly tm (OpInstall st)"
  proof (cases "open_status (tx_status st)")
    case True
    then show ?thesis using txn_store(2) [OF safe, of st "tx_id st"] open_case ex o by simp
  next
    case False
    show ?thesis
    proof (cases "map_of (transactions tm) (tx_id st)")
      case None
      show ?thesis
        by (rule txn_same_held(2) [OF safe fresh(2) [OF False None] _ _ ex])
          (use fresh(1) [OF False None] d in simp_all)
    next
      case (Some old)
      then show ?thesis using retire_txn(2) [OF safe Some, of st old] False retired ex by simp
    qed
  qed
qed

lemma complete_ok:
  assumes safe: "txn_safe tm" and status: "\<not> open_status status"
  shows "txn_safe (fst (complete_with_status tid status ends tm))"
    and "txn_exact tm \<Longrightarrow> txn_exact (fst (complete_with_status tid status ends tm))"
proof -
  have eq: "fst (complete_with_status tid status ends tm) =
      (case map_of (transactions tm) tid of
         None \<Rightarrow> tm
       | Some st \<Rightarrow>
           (let st' = st\<lparr>tx_status := status, tx_partitions := fold set_end ends (tx_partitions st)\<rparr>
            in tm\<lparr>transactions := AList.update tid st' (transactions tm),
                  lso_index := fold (unpin_lso tid) (tx_partitions st') (lso_index tm)\<rparr>))"
    by (simp add: complete_with_status_def retire_from_lso_index_def update_conv' Let_def
        split: option.splits)
  let ?new = "\<lambda>st. st\<lparr>tx_status := status, tx_partitions := fold set_end ends (tx_partitions st)\<rparr>"
  note retire = retire_txn [OF safe, of tid _ "?new _" "?new _"]
  show "txn_safe (fst (complete_with_status tid status ends tm))"
  proof (cases "map_of (transactions tm) tid")
    case (Some st)
    from retire(1) [OF Some, of st st] status Some show ?thesis
      unfolding eq by (simp add: set_end_starts Let_def)
  qed (simp add: eq safe)
  show "txn_exact (fst (complete_with_status tid status ends tm))" if ex: "txn_exact tm"
  proof (cases "map_of (transactions tm) tid")
    case (Some st)
    from retire(2) [OF Some, of st st] status Some ex show ?thesis
      unfolding eq by (simp add: set_end_starts Let_def)
  qed (simp add: eq ex)
qed

lemma restore_ok:
  assumes safe: "txn_safe tm"
  shows "txn_safe (restore_transaction now tid pid status rs tm)"
    and "\<lbrakk>txn_exact tm; map_of (transactions tm) tid = None\<rbrakk> \<Longrightarrow>
      txn_exact (restore_transaction now tid pid status rs tm)"
proof -
  define st where "st = \<lparr>tx_id = tid, tx_producer = pid, tx_status = status, tx_partitions = rs,
    tx_created_at = now\<rparr>"
  have st: "tx_status st = status" "tx_partitions st = rs" by (simp_all add: st_def)
  have opn: "restore_transaction now tid pid status rs tm =
      tm\<lparr>transactions := AList.update tid st (transactions tm),
         lso_index := pin_ranges tid (tx_partitions st) (lso_index tm)\<rparr>" if "open_status status"
    using that by (cases tm) (simp add: restore_transaction_def st_def)
  have closed: "restore_transaction now tid pid status rs tm =
      tm\<lparr>transactions := AList.update tid st (transactions tm)\<rparr>" if "\<not> open_status status"
    using that by (simp add: restore_transaction_def st_def)
  have held: "held (tm\<lparr>transactions := AList.update tid st (transactions tm)\<rparr>) j =
      (if j = tid then {} else held tm j)" if "\<not> open_status status" for j
    using that by (simp add: held_def update_conv' st)
  have d: "distinct (map fst (AList.update tid st (transactions tm)))"
    using safe by (simp add: txn_safe_def distinct_update)
  show "txn_safe (restore_transaction now tid pid status rs tm)"
  proof (cases "open_status status")
    case True
    then show ?thesis using txn_store(1) [OF safe, of st tid] by (simp add: opn st)
  next
    case False
    show ?thesis unfolding closed [OF False]
      by (rule txn_drop [OF safe]) (simp_all add: held [OF False] d)
  qed
  show "txn_exact (restore_transaction now tid pid status rs tm)"
    if ex: "txn_exact tm" and new: "map_of (transactions tm) tid = None"
  proof (cases "open_status status")
    case True
    then show ?thesis using txn_store(2) [OF safe, of st tid] ex new by (simp add: opn st held_def)
  next
    case False
    have "held (tm\<lparr>transactions := AList.update tid st (transactions tm)\<rparr>) = held tm"
      using new held [OF False] by (auto simp: fun_eq_iff held_def)
    from txn_same_held(2) [OF safe this _ _ ex] d show ?thesis by (simp add: closed [OF False])
  qed
qed

lemma cleanup_ok:
  assumes safe: "txn_safe tm"
  shows "txn_safe (cleanup_completed_transaction tid tm)"
    and "txn_exact tm \<Longrightarrow> txn_exact (cleanup_completed_transaction tid tm)"
proof -
  have "held (cleanup_completed_transaction tid tm) = held tm"
    "lso_index (cleanup_completed_transaction tid tm) = lso_index tm"
    "distinct (map fst (transactions (cleanup_completed_transaction tid tm)))"
    using safe by (auto simp: cleanup_completed_transaction_def held_def delete_conv' fun_eq_iff
        open_status_iff txn_safe_def distinct_delete simp del: map_of_eq_Some_iff split: option.splits)
  from txn_same_held [OF safe this] show "txn_safe (cleanup_completed_transaction tid tm)"
    "txn_exact tm \<Longrightarrow> txn_exact (cleanup_completed_transaction tid tm)" .
qed

lemma prune_txn_ok:
  assumes safe: "txn_safe tm"
  shows "txn_safe (fst (prune_stale_transactions now max_age tm))"
    and "\<lbrakk>txn_exact tm; orderly tm (OpPrune now max_age)\<rbrakk> \<Longrightarrow>
      txn_exact (fst (prune_stale_transactions now max_age tm))"
proof -
  let ?tm = "fst (prune_stale_transactions now max_age tm)"
  let ?ks = "map fst (filter (\<lambda>(_, st). stale now max_age st) (transactions tm))"
  have d: "distinct (map fst (transactions tm))" using safe by (simp add: txn_safe_def)
  have held: "held ?tm j = (if j \<in> set ?ks then {} else held tm j)" for j
    by (simp add: held_def prune_stale_transactions_def Let_def map_of_fold_delete)
  have same: "lso_index ?tm = lso_index tm" "distinct (map fst (transactions ?tm))"
    using d by (simp_all add: prune_stale_transactions_def Let_def distinct_fold_delete)
  show "txn_safe ?tm"
    by (rule txn_drop [OF safe _ same]) (simp add: held)
  show "txn_exact ?tm" if ex: "txn_exact tm" and o: "orderly tm (OpPrune now max_age)"
  proof (rule txn_same_held(2) [OF safe _ same ex], rule ext)
    fix j
    have "held tm j = {}" if "j \<in> set ?ks"
    proof -
      from that obtain st where "(j, st) \<in> set (transactions tm)" "stale now max_age st" by auto
      with d o show ?thesis by (metis map_of_is_SomeI orderly.simps(4))
    qed
    then show "held ?tm j = held tm j" by (simp add: held)
  qed
qed

lemma txn_safe_op: "txn_safe tm \<Longrightarrow> txn_safe (apply_op op tm)"
proof (cases op)
  case (OpBegin now tid pid ok)
  assume safe: "txn_safe tm"
  show ?thesis unfolding OpBegin apply_op.simps begin_transaction_durable_def
    by (rule txn_transition(1) [OF safe]) (auto simp: new_state_def split: if_splits)
next
  case (OpAddPartitions now tid pid topics ok)
  assume safe: "txn_safe tm"
  show ?thesis unfolding OpAddPartitions apply_op.simps add_partitions_durable_def
    by (rule txn_transition(1) [OF safe]) (auto simp: Let_def split: if_splits)
next
  case (OpRegister tid topic part start ok)
  assume safe: "txn_safe tm"
  show ?thesis unfolding OpRegister apply_op.simps register_partition_durable_def
    by (rule txn_transition(1) [OF safe]) (auto split: if_splits option.splits)
next
  case (OpPrepare tid commit ok)
  assume safe: "txn_safe tm"
  show ?thesis unfolding OpPrepare apply_op.simps prepare_durable_def
    by (rule txn_transition(1) [OF safe]) (auto split: if_splits option.splits)
next
  case (OpComplete tid commit ends)
  assume "txn_safe tm"
  then show ?thesis by (simp add: OpComplete complete_ok(1))
qed (simp_all add: install_ok(1) restore_ok(1) cleanup_ok(1) prune_txn_ok(1))

lemma txn_exact_op: "txn_exact tm \<Longrightarrow> orderly tm op \<Longrightarrow> txn_exact (apply_op op tm)"
proof (cases op)
  case (OpBegin now tid pid ok)
  assume ex: "txn_exact tm"
  then have safe: "txn_safe tm" by (simp add: txn_exact_def)
  show ?thesis unfolding OpBegin apply_op.simps begin_transaction_durable_def
    by (rule txn_transition(2) [OF safe _ ex]) (auto simp: new_state_def held_def split: if_splits)
next
  case (OpAddPartitions now tid pid topics ok)
  assume ex: "txn_exact tm"
  then have safe: "txn_safe tm" by (simp add: txn_exact_def)
  show ?thesis unfolding OpAddPartitions apply_op.simps add_partitions_durable_def
    by (rule txn_transition(2) [OF safe _ ex])
      (auto simp: Let_def held_def split: if_splits option.splits)
next
  case (OpRegister tid topic part start ok)
  assume ex: "txn_exact tm" and o: "orderly tm op"
  then have safe: "txn_safe tm" by (simp add: txn_exact_def)
  have keep: "known_starts (tx_partitions st) \<subseteq> known_starts (register_range topic part start (tx_partitions st))"
    if "map_of (transactions tm) tid = Some st" "tx_status st = Ongoing" for st
    using o that by (intro known_starts_register) (auto simp: OpRegister held_def)
  show ?thesis unfolding OpRegister apply_op.simps register_partition_durable_def
    by (rule txn_transition(2) [OF safe _ ex])
      (use keep in \<open>auto simp: held_def simp del: map_of_eq_Some_iff split: if_splits option.splits\<close>)
next
  case (OpPrepare tid commit ok)
  assume ex: "txn_exact tm"
  then have safe: "txn_safe tm" by (simp add: txn_exact_def)
  show ?thesis unfolding OpPrepare apply_op.simps prepare_durable_def
    by (rule txn_transition(2) [OF safe _ ex]) (auto simp: held_def split: if_splits option.splits)
next
  case (OpComplete tid commit ends)
  assume "txn_exact tm"
  moreover from this have "txn_safe tm" by (simp add: txn_exact_def)
  ultimately show ?thesis by (simp add: OpComplete complete_ok(2))
qed (simp_all add: install_ok(2) restore_ok(2) cleanup_ok(2) prune_txn_ok(2) txn_exact_safe
      del: orderly.simps(2,4))

lemma txn_new: "txn_exact new_manager"
  by (simp add: txn_exact_def txn_safe_def new_manager_def lso_ok_def held_def pinned_def)

lemma txn_safe_run: "txn_safe tm \<Longrightarrow> txn_safe (run_ops ops tm)"
  unfolding run_ops_def by (induction ops arbitrary: tm) (simp_all add: txn_safe_op)

lemma txn_exact_run: "txn_exact tm \<Longrightarrow> orderly_run ops tm \<Longrightarrow> txn_exact (run_ops ops tm)"
  unfolding run_ops_def by (induction ops arbitrary: tm) (simp_all add: txn_exact_op)

lemma known_starts_filter:
  "set (map (\<lambda>(_, _, start, _). start)
     (filter (\<lambda>(t', p', start, _). t' = t \<and> p' = p \<and> start \<noteq> U64_MAX) rs)) =
   {off. (t, p, off) \<in> known_starts rs}"
proof (induction rs)
  case Nil
  then show ?case by (simp add: known_starts_def)
next
  case (Cons r rs)
  obtain t' p' off e where r: "r = (t', p', off, e)" by (cases r)
  have "{x. (t, p, x) \<in> known_starts (r # rs)} =
      (if t' = t \<and> p' = p \<and> off \<noteq> U64_MAX then {off} else {}) \<union> {x. (t, p, x) \<in> known_starts rs}"
    unfolding r known_starts_Cons by (simp split: if_split) blast
  then show ?case using Cons.IH by (simp add: r)
qed

lemma set_open_starts:
  assumes "distinct (map fst (transactions tm))"
  shows "set (open_starts t p tm) = {off. \<exists>tid. (t, p, off) \<in> held tm tid}"
proof (rule set_eqI)
  fix off
  have st: "off \<in> set (starts_of t p st) \<longleftrightarrow>
      open_status (tx_status st) \<and> (t, p, off) \<in> known_starts (tx_partitions st)" for st
    using known_starts_filter [of t p "tx_partitions st"] by (simp add: starts_of_def set_eq_iff)
  have "off \<in> set (open_starts t p tm) \<longleftrightarrow>
      (\<exists>e \<in> set (transactions tm). off \<in> set (starts_of t p (snd e)))"
    by (simp add: open_starts_def)
  also have "\<dots> \<longleftrightarrow> (\<exists>tid st. map_of (transactions tm) tid = Some st \<and> off \<in> set (starts_of t p st))"
    using assms by force
  also have "\<dots> \<longleftrightarrow> (\<exists>tid. (t, p, off) \<in> held tm tid)"
    unfolding st held_def by (auto simp del: map_of_eq_Some_iff split: option.splits if_splits)
  finally show "off \<in> set (open_starts t p tm) \<longleftrightarrow> off \<in> {off. \<exists>tid. (t, p, off) \<in> held tm tid}"
    by simp
qed

lemma lso_exact:
  assumes ex: "txn_exact tm"
  shows "last_stable_offset t p tm = lso_by_scan t p tm"
proof -
  have ok: "lso_ok (lso_index tm)" and d: "distinct (map fst (transactions tm))"
    and pins: "\<And>j. pinned (lso_index tm) j = held tm j"
    using ex by (simp_all add: txn_exact_def txn_safe_def)
  note starts = set_open_starts [OF d, of t p]
  show ?thesis
  proof (cases "open_starts t p tm = []")
    case True
    then have "(t, p, off) \<notin> pinned (lso_index tm) j" for off j using starts pins by auto
    with last_stable_offset_free [OF ok] True show ?thesis by (simp add: lso_by_scan_def)
  next
    case False
    then obtain off j where "(t, p, off) \<in> pinned (lso_index tm) j" using starts pins by fastforce
    from last_stable_offset_pinned [OF ok this] have "last_stable_offset t p tm \<in> set (open_starts t p tm)"
      using starts pins by simp
    moreover have "last_stable_offset t p tm \<le> y" if "y \<in> set (open_starts t p tm)" for y
      using that starts pins last_stable_offset_le [OF ok] by auto
    ultimately have "Min (set (open_starts t p tm)) = last_stable_offset t p tm"
      by (intro Min_eqI) auto
    then show ?thesis using False by (simp add: lso_by_scan_def)
  qed
qed

section \<open>Epochs and sequence numbers\<close>

text \<open>The transactional id has an epoch above \<open>e\<close>.\<close>

definition epoch_above :: "string \<Rightarrow> int \<Rightarrow> TransactionManager \<Rightarrow> bool" where
  "epoch_above tid e tm \<longleftrightarrow>
     (case map_of (transactional_producers tm) tid of None \<Rightarrow> False | Some cur \<Rightarrow> e < tp_epoch cur)"

lemma transition_frame [simp]:
  "transactional_producers (fst (transition tid change persist tm)) = transactional_producers tm"
  "producer_sequences (fst (transition tid change persist tm)) = producer_sequences tm"
  "sequence_clock (fst (transition tid change persist tm)) = sequence_clock tm"
  by (simp_all add: transition_def split: sum.splits)

lemma retire_frame [simp]:
  "transactional_producers (retire_from_lso_index tid tm) = transactional_producers tm"
  "producer_sequences (retire_from_lso_index tid tm) = producer_sequences tm"
  "sequence_clock (retire_from_lso_index tid tm) = sequence_clock tm"
  by (simp_all add: retire_from_lso_index_def split: option.splits)

lemma lifecycle_frame [simp]:
  "transactional_producers (fst (begin_transaction_durable now tid pid persist tm)) = transactional_producers tm"
  "transactional_producers (fst (add_partitions_durable now tid pid topics persist tm)) = transactional_producers tm"
  "transactional_producers (fst (register_partition_durable tid t p start persist tm)) = transactional_producers tm"
  "transactional_producers (fst (prepare_durable tid status persist tm)) = transactional_producers tm"
  "transactional_producers (fst (complete_with_status tid status ends tm)) = transactional_producers tm"
  "transactional_producers (install_state st tm) = transactional_producers tm"
  "transactional_producers (restore_transaction now tid pid status rs tm) = transactional_producers tm"
  "transactional_producers (cleanup_completed_transaction tid tm) = transactional_producers tm"
  "transactional_producers (fst (prune_stale_transactions now max_age tm)) = transactional_producers tm"
  by (simp_all add: begin_transaction_durable_def add_partitions_durable_def
      register_partition_durable_def prepare_durable_def complete_with_status_def install_state_def
      restore_transaction_def cleanup_completed_transaction_def prune_stale_transactions_def Let_def
      split: option.splits)

lemma checked_add_i16_above: "checked_add_i16 x = Some y \<Longrightarrow> y = x + 1"
  by (simp add: checked_add_i16_def split: if_splits)

lemma epoch_above_init: "epoch_above tid e tm \<Longrightarrow> epoch_above tid e (fst (init_transactional_producer j tm))"
  using checked_add_i16_above
  by (fastforce simp: epoch_above_def init_transactional_producer_def generate_producer_id_def update_conv'
      split: option.splits if_splits)

lemma epoch_above_op:
  "\<lbrakk>epoch_above tid e tm; \<And>p e'. op = OpRestoreProducer tid p e' \<Longrightarrow> e < e'\<rbrakk> \<Longrightarrow>
     epoch_above tid e (apply_op op tm)"
  by (cases op)
    (simp_all add: epoch_above_init, auto simp: epoch_above_def next_transactional_producer_def
      generate_producer_id_def restore_transactional_producer_def observe_producer_id_def update_conv'
      split: option.splits)

lemma epoch_above_run:
  "\<lbrakk>epoch_above tid e tm; \<And>p e'. OpRestoreProducer tid p e' \<in> set ops \<Longrightarrow> e < e'\<rbrakk> \<Longrightarrow>
     epoch_above tid e (run_ops ops tm)"
  unfolding run_ops_def
proof (induction ops arbitrary: tm)
  case (Cons op ops)
  then show ?case using epoch_above_op [of tid e tm op] by fastforce
qed simp

lemma epoch_above_fenced:
  "epoch_above tid e tm \<Longrightarrow> validate_transactional_producer tid q e tm \<noteq> Inr ()"
  by (auto simp: epoch_above_def validate_transactional_producer_def split: option.splits)

text \<open>Ticks identify the entries: they are taken from a clock that only moves forward.\<close>

definition seq_ok :: "nat \<Rightarrow> TransactionManager \<Rightarrow> bool" where
  "seq_ok n tm \<longleftrightarrow> distinct (map fst (producer_sequences tm)) \<and> sequence_clock tm \<le> n \<and>
     (\<forall>q e. map_of (producer_sequences tm) q = Some e \<longrightarrow> last_used e < sequence_clock tm) \<and>
     (\<forall>q r e f. map_of (producer_sequences tm) q = Some e \<longrightarrow> map_of (producer_sequences tm) r = Some f \<longrightarrow>
        last_used e = last_used f \<longrightarrow> q = r)"

definition victims :: "nat \<Rightarrow> TransactionManager \<Rightarrow> nat list" where
  "victims n tm = map snd (take n (sort_key fst (evict_candidates tm)))"

lemma evict_sequences:
  "producer_sequences (evict_lru_sequences n tm) = fold AList.delete (victims n tm) (producer_sequences tm)"
proof -
  have "take (min n (length xs)) (sort_key fst xs) = take n (sort_key fst xs)" for xs :: "(nat \<times> nat) list"
    by (simp add: min_def)
  then show ?thesis
    by (simp add: evict_lru_sequences_def victims_def Let_def fold_map comp_def case_prod_beta')
qed

lemma map_of_evict:
  "map_of (producer_sequences (evict_lru_sequences n tm)) q =
     (if q \<in> set (victims n tm) then None else map_of (producer_sequences tm) q)"
  by (simp add: evict_sequences map_of_fold_delete)

lemma evict_clock [simp]: "sequence_clock (evict_lru_sequences n tm) = sequence_clock tm"
  by (simp add: evict_lru_sequences_def Let_def)

lemma victims_unprotected: "q \<in> set (victims n tm) \<Longrightarrow> q \<notin> protected_producers tm"
  using set_take_subset [of n "sort_key fst (evict_candidates tm)"]
  by (auto simp: victims_def evict_candidates_def)

lemma take_sort_key_le:
  assumes "x \<in> set (take n (sort_key f xs))" "y \<in> set xs" "y \<notin> set (take n (sort_key f xs))"
  shows "f x \<le> f y"
proof -
  have "sorted (map f (take n (sort_key f xs)) @ map f (drop n (sort_key f xs)))"
    unfolding map_append [symmetric] append_take_drop_id by simp
  moreover have "y \<in> set (drop n (sort_key f xs))"
    using assms(2,3) by (metis Un_iff append_take_drop_id set_append set_sort)
  ultimately show ?thesis using assms(1) by (auto simp: sorted_append)
qed

lemma victims_oldest:
  assumes d: "distinct (map fst (producer_sequences tm))"
    and q: "q \<in> set (victims n tm)" "map_of (producer_sequences tm) q = Some e"
    and r: "r \<notin> set (victims n tm)" "map_of (producer_sequences tm) r = Some f" "r \<notin> protected_producers tm"
  shows "last_used e \<le> last_used f"
proof -
  let ?c = "evict_candidates tm"
  from q(1) obtain u where u: "(u, q) \<in> set (take n (sort_key fst ?c))" by (auto simp: victims_def)
  then have "(u, q) \<in> set ?c" using in_set_takeD by fastforce
  then obtain e' where "(q, e') \<in> set (producer_sequences tm)" "u = last_used e'"
    by (auto simp: evict_candidates_def)
  with d q(2) have ue: "u = last_used e" by (metis map_of_is_SomeI option.inject)
  have "(last_used f, r) \<in> set ?c"
    using r(2,3) d by (force simp: evict_candidates_def)
  moreover have "(last_used f, r) \<notin> set (take n (sort_key fst ?c))"
    using r(1) by (force simp: victims_def)
  ultimately have "fst (u, q) \<le> fst (last_used f, r)" by (rule take_sort_key_le [OF u])
  with ue show ?thesis by simp
qed

text \<open>The table before the entry of the producer is written: evicted from, or as it was.\<close>

lemma record_sequence_table:
  assumes "pid \<noteq> 0"
  shows "map_of (producer_sequences (record_sequence pid seq tm)) q =
    (if q = pid then Some \<lparr>last_sequence = seq, last_used = sequence_clock tm\<rparr>
     else if 100000 \<le> length (producer_sequences tm) \<and> map_of (producer_sequences tm) pid = None \<and>
       q \<in> set (victims 1000 tm) then None
     else map_of (producer_sequences tm) q)"
proof -
  have v: "victims n (tm\<lparr>sequence_clock := c\<rparr>) = victims n tm" for n c
    by (simp add: victims_def evict_candidates_def protected_producers_def)
  show ?thesis
    using assms
    by (simp add: record_sequence_def Let_def update_conv' map_of_evict v
        MAX_PRODUCER_SEQUENCES_def SEQUENCE_EVICT_BATCH_def)
qed

text \<open>How many entries an eviction takes: the whole batch, or all that may be taken.\<close>

lemma victims_count:
  assumes d: "distinct (map fst (producer_sequences tm))"
  shows "card (set (victims n tm)) = min n (card (dom (map_of (producer_sequences tm)) - protected_producers tm))"
    and "set (victims n tm) \<subseteq> dom (map_of (producer_sequences tm))"
proof -
  let ?c = "evict_candidates tm"
  have snd: "map snd ?c = filter (\<lambda>q. q \<notin> protected_producers tm) (map fst (producer_sequences tm))"
    by (simp add: evict_candidates_def filter_map comp_def)
  have "distinct (map snd ?c)" unfolding snd using d by (rule distinct_filter)
  then have dc: "distinct (map snd (sort_key fst ?c))" by (simp add: distinct_map)
  then have dv: "distinct (victims n tm)" by (simp add: victims_def take_map [symmetric])
  have "dom (map_of (producer_sequences tm)) - protected_producers tm = set (map snd ?c)"
    unfolding snd by (auto simp: dom_map_of_conv_image_fst)
  moreover have "card (set (map snd ?c)) = length ?c"
    using distinct_card [OF \<open>distinct (map snd ?c)\<close>] by simp
  ultimately show "card (set (victims n tm)) =
      min n (card (dom (map_of (producer_sequences tm)) - protected_producers tm))"
    using distinct_card [OF dv] by (simp add: victims_def min.commute)
  have "set (victims n tm) \<subseteq> set (map snd ?c)"
    using set_take_subset [of n "sort_key fst ?c"] by (auto simp: victims_def)
  then show "set (victims n tm) \<subseteq> dom (map_of (producer_sequences tm))"
    unfolding snd by (auto simp: dom_map_of_conv_image_fst)
qed

lemma seq_ok_record:
  assumes ok: "seq_ok n tm" and n: "Suc n < 2 ^ 64"
  shows "seq_ok (Suc n) (record_sequence pid seq tm)"
proof (cases "pid = 0")
  case True
  with ok show ?thesis by (auto simp: record_sequence_def seq_ok_def)
next
  case False
  let ?tm = "record_sequence pid seq tm"
  have clock: "sequence_clock ?tm = Suc (sequence_clock tm)"
    using False ok n by (simp add: record_sequence_def Let_def seq_ok_def add64_exact)
  have d: "distinct (map fst (producer_sequences ?tm))"
    using ok False by (simp add: record_sequence_def Let_def seq_ok_def distinct_update evict_sequences
        distinct_fold_delete)
  obtain V where V: "\<And>q. map_of (producer_sequences ?tm) q =
       (if q = pid then Some \<lparr>last_sequence = seq, last_used = sequence_clock tm\<rparr>
        else if q \<in> V then None else map_of (producer_sequences tm) q)"
    by (rule that [of "if 100000 \<le> length (producer_sequences tm) \<and>
        map_of (producer_sequences tm) pid = None then set (victims 1000 tm) else {}"])
      (simp add: record_sequence_table [OF False])
  have old: "last_used e < sequence_clock tm" if "map_of (producer_sequences tm) q = Some e" for q e
    using ok that unfolding seq_ok_def by blast
  have lt: "last_used e < Suc (sequence_clock tm)" if "map_of (producer_sequences ?tm) q = Some e" for q e
    using that old by (auto simp: V less_SucI simp del: map_of_eq_Some_iff split: if_splits)
  have "q = r" if "map_of (producer_sequences ?tm) q = Some e" "map_of (producer_sequences ?tm) r = Some f"
    "last_used e = last_used f" for q r e f
  proof -
    have old_pair: "q = r" if "map_of (producer_sequences tm) q = Some e"
        "map_of (producer_sequences tm) r = Some f"
      using ok that \<open>last_used e = last_used f\<close> unfolding seq_ok_def by blast
    show ?thesis using that old [of q e] old [of r f] old_pair
      by (auto simp: V simp del: map_of_eq_Some_iff split: if_splits)
  qed
  then show ?thesis
    using d clock lt ok unfolding seq_ok_def by (simp del: map_of_eq_Some_iff)
qed

lemma sequence_frame [simp]:
  "producer_sequences (fst (begin_transaction_durable now tid pid persist tm)) = producer_sequences tm"
  "producer_sequences (fst (add_partitions_durable now tid pid topics persist tm)) = producer_sequences tm"
  "producer_sequences (fst (register_partition_durable tid t p start persist tm)) = producer_sequences tm"
  "producer_sequences (fst (prepare_durable tid status persist tm)) = producer_sequences tm"
  "producer_sequences (fst (complete_with_status tid status ends tm)) = producer_sequences tm"
  "producer_sequences (install_state st tm) = producer_sequences tm"
  "producer_sequences (restore_transaction now tid pid status rs tm) = producer_sequences tm"
  "producer_sequences (cleanup_completed_transaction tid tm) = producer_sequences tm"
  "producer_sequences (fst (prune_stale_transactions now max_age tm)) = producer_sequences tm"
  "producer_sequences (fst (next_transactional_producer tid tm)) = producer_sequences tm"
  "producer_sequences (fst (init_transactional_producer tid tm)) = producer_sequences tm"
  "producer_sequences (restore_transactional_producer tid pid epoch tm) = producer_sequences tm"
  "producer_sequences (observe_producer_id pid tm) = producer_sequences tm"
  by (simp_all add: begin_transaction_durable_def add_partitions_durable_def
      register_partition_durable_def prepare_durable_def complete_with_status_def install_state_def
      restore_transaction_def cleanup_completed_transaction_def prune_stale_transactions_def
      next_transactional_producer_def init_transactional_producer_def generate_producer_id_def
      restore_transactional_producer_def observe_producer_id_def Let_def split: option.splits)

lemma clock_frame [simp]:
  "sequence_clock (fst (begin_transaction_durable now tid pid persist tm)) = sequence_clock tm"
  "sequence_clock (fst (add_partitions_durable now tid pid topics persist tm)) = sequence_clock tm"
  "sequence_clock (fst (register_partition_durable tid t p start persist tm)) = sequence_clock tm"
  "sequence_clock (fst (prepare_durable tid status persist tm)) = sequence_clock tm"
  "sequence_clock (fst (complete_with_status tid status ends tm)) = sequence_clock tm"
  "sequence_clock (install_state st tm) = sequence_clock tm"
  "sequence_clock (restore_transaction now tid pid status rs tm) = sequence_clock tm"
  "sequence_clock (cleanup_completed_transaction tid tm) = sequence_clock tm"
  "sequence_clock (fst (prune_stale_transactions now max_age tm)) = sequence_clock tm"
  "sequence_clock (fst (next_transactional_producer tid tm)) = sequence_clock tm"
  "sequence_clock (fst (init_transactional_producer tid tm)) = sequence_clock tm"
  "sequence_clock (restore_transactional_producer tid pid epoch tm) = sequence_clock tm"
  "sequence_clock (observe_producer_id pid tm) = sequence_clock tm"
  by (simp_all add: begin_transaction_durable_def add_partitions_durable_def
      register_partition_durable_def prepare_durable_def complete_with_status_def install_state_def
      restore_transaction_def cleanup_completed_transaction_def prune_stale_transactions_def
      next_transactional_producer_def init_transactional_producer_def generate_producer_id_def
      restore_transactional_producer_def observe_producer_id_def Let_def split: option.splits)

lemma seq_ok_op: "seq_ok n tm \<Longrightarrow> Suc n < 2 ^ 64 \<Longrightarrow> seq_ok (Suc n) (apply_op op tm)"
proof (cases op)
  case (OpRecordSequence pid seq)
  assume "seq_ok n tm" "Suc n < 2 ^ 64"
  then show ?thesis by (simp only: OpRecordSequence apply_op.simps seq_ok_record)
qed (simp_all add: seq_ok_def del: map_of_eq_Some_iff)

lemma seq_ok_run: "seq_ok n tm \<Longrightarrow> n + length ops < 2 ^ 64 \<Longrightarrow> seq_ok (n + length ops) (run_ops ops tm)"
  unfolding run_ops_def
proof (induction ops arbitrary: n tm)
  case (Cons op ops)
  from Cons.prems have "seq_ok (Suc n) (apply_op op tm)" by (intro seq_ok_op) simp_all
  from Cons.IH [OF this] Cons.prems(2) show ?case by simp
qed simp

lemma ticks_distinct: "length ops < 2 ^ 64 \<Longrightarrow> seq_ok (length ops) (run_ops ops new_manager)"
  using seq_ok_run [of 0 new_manager ops] by (simp add: seq_ok_def new_manager_def)

section \<open>Round trip of the records\<close>

definition range_ok :: "range \<Rightarrow> bool" where
  "range_ok r \<longleftrightarrow> (case r of (t, p, start, stop) \<Rightarrow>
     pascal_ok t \<and> p < 2 ^ 32 \<and> start < 2 ^ 64 \<and> stop < 2 ^ 64)"

definition encode_range :: "range \<Rightarrow> bytes" where
  "encode_range r = (case r of (t, p, start, stop) \<Rightarrow>
     pascal t @ be_bytes 4 p @ be_bytes 8 start @ be_bytes 8 stop)"

lemma decode_range_encode: "range_ok r \<Longrightarrow> decode_range (encode_range r @ rest) = Some (r, rest)"
  by (auto simp: range_ok_def encode_range_def decode_range_def pascal_def pascal_ok_def take_be_append
      from_utf8_str_bytes split: prod.splits)

lemma decode_ranges_encode:
  "list_all range_ok rs \<Longrightarrow>
     decode_ranges (length rs) (concat (map encode_range rs) @ rest) = Some (rs, rest)"
  by (induction rs) (simp_all add: decode_range_encode)

lemma encode_ranges_ok: "list_all range_ok rs \<Longrightarrow> encode_ranges rs = Some (concat (map encode_range rs))"
  by (induction rs rule: encode_ranges.induct)
    (auto simp: range_ok_def encode_range_def write_pascal_string_ok)

lemma length_encode_ranges: "22 * length rs \<le> length (concat (map encode_range rs))"
  by (induction rs) (auto simp: encode_range_def split: prod.splits)

lemma status_of_status_byte [simp]: "status_of_byte (status_byte s) = Some s"
  by (cases s) (simp_all add: status_of_byte_def)

lemma decode_tx_state_record_image:
  assumes "pascal_ok tid" "pid < 2 ^ 64" "length rs \<le> 100000" "list_all range_ok rs"
  shows "decode_tx_state_record ((status_byte st # be_bytes 8 pid @ pascal tid @ be_bytes 4 (length rs) @
      concat (map encode_range rs)) @ rest) = (if rest = [] then Some (st, pid, tid, rs) else None)"
proof -
  have count: "\<not> length (concat (map encode_range rs) @ rest) div 22 < length rs"
    using length_encode_ranges [of rs] by simp
  have len: "length rs < 256 ^ 4" using assms(3) by simp
  show ?thesis
    using assms(1,2,3) count len decode_ranges_encode [OF assms(4), of rest]
    by (simp add: decode_tx_state_record_def pascal_def pascal_ok_def take_be_append
        from_utf8_str_bytes Let_def)
qed

section \<open>Properties\<close>

text \<open>C20 Readers of committed data never pass an open transaction: after any sequence of
  operations of the manager, failed writes, out-of-order registrations, restores and pruning
  included, the last stable offset of a partition is at most every start an open transaction
  has registered there; and while operations come in order it is exactly the smallest such
  start, what a scan of all transactions would compute.\<close>

theorem lso_guards_open_transactions:
  "((t, p, off) \<in> held (run_ops ops new_manager) tid \<longrightarrow>
      last_stable_offset t p (run_ops ops new_manager) \<le> off) \<and>
   (orderly_run ops new_manager \<longrightarrow>
      last_stable_offset t p (run_ops ops new_manager) = lso_by_scan t p (run_ops ops new_manager))"
proof (intro conjI impI)
  let ?tm = "run_ops ops new_manager"
  have safe: "txn_safe ?tm" by (rule txn_safe_run [OF txn_exact_safe [OF txn_new]])
  assume "(t, p, off) \<in> held ?tm tid"
  with safe have "(t, p, off) \<in> pinned (lso_index ?tm) tid" by (auto simp: txn_safe_def)
  with safe show "last_stable_offset t p ?tm \<le> off"
    by (auto simp: txn_safe_def intro: last_stable_offset_le)
next
  assume "orderly_run ops new_manager"
  from lso_exact [OF txn_exact_run [OF txn_new this]]
  show "last_stable_offset t p (run_ops ops new_manager) = lso_by_scan t p (run_ops ops new_manager)" .
qed

definition txn_demo_ops :: "txn_op list" where
  "txn_demo_ops =
     [OpBegin 0 ''a'' 7 True, OpRegister ''a'' ''t'' 0 10 True, OpBegin 0 ''b'' 8 True,
      OpRegister ''b'' ''t'' 0 25 True, OpPrepare ''a'' True True, OpComplete ''a'' True [(''t'', 0, 20)]]"

lemma txn_demo_run:
  "run_ops txn_demo_ops new_manager =
     \<lparr>producer_sequences = [], sequence_clock = 0, lso_index = [((''t'', 0), [(25, {''b''})])],
      transactions =
        [(''a'', \<lparr>tx_id = ''a'', tx_producer = 7, tx_status = Committed,
                 tx_partitions = [(''t'', 0, 10, 20)], tx_created_at = 0\<rparr>),
         (''b'', \<lparr>tx_id = ''b'', tx_producer = 8, tx_status = Ongoing,
                 tx_partitions = [(''t'', 0, 25, U64_MAX)], tx_created_at = 0\<rparr>)],
      transactional_producers = [], next_producer_id = 1\<rparr>"
  by (simp add: run_ops_def txn_demo_ops_def new_manager_def begin_transaction_durable_def transition_def
      register_partition_durable_def prepare_durable_def complete_with_status_def new_state_def
      retire_from_lso_index_def unpin_lso_def pin_lso_def set_end_def Let_def)

lemma demo_orderly: "orderly_run txn_demo_ops new_manager"
  by (simp add: txn_demo_ops_def new_manager_def begin_transaction_durable_def transition_def
      register_partition_durable_def new_state_def held_def known_starts_def)

theorem lso_guards_open_transactions_witness:
  "last_stable_offset ''t'' 0 (run_ops txn_demo_ops new_manager) \<le> 25 \<and>
   lso_by_scan ''t'' 0 (run_ops txn_demo_ops new_manager) = 25 \<and>
   last_stable_offset ''t'' 0 (run_ops txn_demo_ops new_manager) = 25"
proof -
  have held: "(''t'', 0, 25) \<in> held (run_ops txn_demo_ops new_manager) ''b''"
    by (simp add: txn_demo_run held_def known_starts_def)
  have scan: "lso_by_scan ''t'' 0 (run_ops txn_demo_ops new_manager) = 25"
    by (simp add: txn_demo_run lso_by_scan_def open_starts_def starts_of_def)
  from lso_guards_open_transactions [of "''t''" 0 25 txn_demo_ops "''b''"] held demo_orderly scan
  show ?thesis by simp
qed

text \<open>C25 A fenced producer stays fenced: once a transactional id is initialised again, the
  epoch moves on by one and the producer that was valid before is refused, whatever happens
  afterwards, as long as no older epoch is restored.\<close>

theorem old_producer_fenced:
  assumes "validate_transactional_producer tid q e tm = Inr ()"
    and "init_transactional_producer tid tm = (tm', Inr (pid, e'))"
    and "\<And>p x. OpRestoreProducer tid p x \<in> set ops \<Longrightarrow> e < x"
  shows "pid = q \<and> e' = e + 1 \<and> validate_transactional_producer tid pid e' tm' = Inr () \<and>
    validate_transactional_producer tid q e (run_ops ops tm') \<noteq> Inr ()"
proof -
  from assms(1) obtain cur where cur: "map_of (transactional_producers tm) tid = Some cur"
    "tp_id cur = q" "tp_epoch cur = e"
    by (auto simp: validate_transactional_producer_def split: option.splits if_splits)
  with assms(2) have new: "pid = q" "e' = e + 1"
    "tm' = tm\<lparr>transactional_producers := AList.update tid (cur\<lparr>tp_epoch := e'\<rparr>) (transactional_producers tm)\<rparr>"
    by (auto simp: init_transactional_producer_def checked_add_i16_def split: option.splits if_splits)
  then have "epoch_above tid e tm'" by (simp add: epoch_above_def update_conv')
  from epoch_above_fenced [OF epoch_above_run [OF this assms(3)]] new cur show ?thesis
    by (simp add: validate_transactional_producer_def update_conv')
qed

definition demo_producer :: TransactionManager where
  "demo_producer = fst (init_transactional_producer ''x'' new_manager)"

theorem old_producer_fenced_witness:
  "validate_transactional_producer ''x'' 1 0 demo_producer = Inr () \<and>
   validate_transactional_producer ''x'' 1 0
     (run_ops [OpInitProducer ''x''] (fst (init_transactional_producer ''x'' demo_producer))) \<noteq> Inr ()"
proof
  have d: "demo_producer = new_manager\<lparr>transactional_producers := [(''x'', \<lparr>tp_id = 1, tp_epoch = 0\<rparr>)],
      next_producer_id := 2\<rparr>"
    by (simp add: demo_producer_def init_transactional_producer_def new_manager_def
        generate_producer_id_def add64_def)
  show v: "validate_transactional_producer ''x'' 1 0 demo_producer = Inr ()"
    by (simp add: d validate_transactional_producer_def)
  have i: "init_transactional_producer ''x'' demo_producer =
      (fst (init_transactional_producer ''x'' demo_producer), Inr (1, 1))"
    by (simp add: d init_transactional_producer_def checked_add_i16_def)
  show "validate_transactional_producer ''x'' 1 0
     (run_ops [OpInitProducer ''x''] (fst (init_transactional_producer ''x'' demo_producer))) \<noteq> Inr ()"
    using old_producer_fenced [OF v i, of "[OpInitProducer ''x'']"] by simp
qed

text \<open>C36 Bounding the table of sequence numbers sheds idle producers only, and few of them: after
  a sequence number is recorded, duplicates of that producer are recognised exactly. Nothing is
  lost while the table has fewer than 100000 entries or already has the producer; otherwise
  exactly 1000 entries are lost, or all that may be when there are fewer. No lost entry belongs
  to a producer with an open transaction, each was used before every surviving one that could
  have been lost, and every other entry stays as it was.\<close>

theorem eviction_sheds_idle_producers:
  assumes "length ops < 2 ^ 64" "tm = run_ops ops new_manager"
    and "pid \<noteq> 0" "tm' = record_sequence pid seq tm"
    and "table = map_of (producer_sequences tm)" "table' = map_of (producer_sequences tm')"
    and "lost = dom table - dom table'" "idle = dom table - protected_producers tm"
  shows "(is_duplicate pid s tm' \<longleftrightarrow> s \<le> seq) \<and> lost \<subseteq> idle \<and>
    card lost = (if length (producer_sequences tm) < 100000 \<or> pid \<in> dom table then 0
                 else min 1000 (card idle)) \<and>
    (\<forall>q\<in>lost. \<forall>r\<in>idle - lost. last_used (the (table q)) < last_used (the (table r))) \<and>
    (\<forall>q. q \<noteq> pid \<longrightarrow> q \<notin> lost \<longrightarrow> table' q = table q)"
proof -
  have ok: "seq_ok (length ops) tm" using ticks_distinct [OF assms(1)] assms(2) by simp
  then have d: "distinct (map fst (producer_sequences tm))" by (simp add: seq_ok_def)
  define full where "full \<longleftrightarrow> 100000 \<le> length (producer_sequences tm) \<and> pid \<notin> dom table"
  have t': "table' q = (if q = pid then Some \<lparr>last_sequence = seq, last_used = sequence_clock tm\<rparr>
      else if full \<and> q \<in> set (victims 1000 tm) then None else table q)" for q
    using record_sequence_table [OF assms(3), of seq tm q] assms(4-6) by (simp add: full_def domIff)
  have lost: "lost = (if full then set (victims 1000 tm) else {})"
    using t' victims_count(2) [OF d, of 1000] assms(5,7) by (auto simp: full_def domIff split: if_splits)
  have "last_used (the (table q)) < last_used (the (table r))" if q: "q \<in> lost" and r: "r \<in> idle - lost" for q r
  proof -
    from q lost assms(7) obtain e where e: "q \<in> set (victims 1000 tm)" "table q = Some e"
      by (auto split: if_splits)
    from q r lost assms(8) obtain f where f: "r \<notin> set (victims 1000 tm)" "table r = Some f"
      "r \<notin> protected_producers tm" by (auto split: if_splits)
    have "last_used e \<le> last_used f"
      using e f unfolding assms(5) by (intro victims_oldest [OF d])
    moreover have "last_used e \<noteq> last_used f"
      using ok e f unfolding seq_ok_def assms(5) by blast
    ultimately show ?thesis using e f by simp
  qed
  moreover have "is_duplicate pid s tm' \<longleftrightarrow> s \<le> seq"
    using assms(3,6) t' [of pid] by (simp add: is_duplicate_def)
  moreover have "lost \<subseteq> idle"
    using victims_unprotected [of _ 1000 tm] assms(7,8) lost by (auto split: if_splits)
  moreover have "card lost = (if length (producer_sequences tm) < 100000 \<or> pid \<in> dom table then 0
      else min 1000 (card idle))"
    using victims_count(1) [OF d, of 1000] assms(5,8) by (simp add: lost full_def not_less)
  moreover have "table' q = table q" if "q \<noteq> pid" "q \<notin> lost" for q
    using that t' [of q] lost by (auto split: if_splits)
  ultimately show ?thesis by blast
qed

text \<open>A table filled to the brim by the producers 1, 2, 3 and so on, each used once.\<close>

definition filling :: "nat \<Rightarrow> txn_op list" where
  "filling n = map (\<lambda>i. OpRecordSequence (Suc i) 5) [0 ..< n]"

lemma update_new_key: "k \<notin> fst ` set xs \<Longrightarrow> AList.update k e xs = xs @ [(k, e)]"
  by (induction xs) auto

lemma filling_table:
  "n \<le> 100000 \<Longrightarrow> run_ops (filling n) new_manager = new_manager\<lparr>sequence_clock := n,
     producer_sequences := map (\<lambda>i. (Suc i, \<lparr>last_sequence = 5, last_used = i\<rparr>)) [0 ..< n]\<rparr>"
proof (induction n)
  case 0
  then show ?case by (simp add: filling_def run_ops_def new_manager_def)
next
  case (Suc n)
  let ?xs = "map (\<lambda>i. (Suc i, \<lparr>last_sequence = 5, last_used = i\<rparr>)) [0 ..< n]"
  have "Suc n \<notin> fst ` set ?xs" by auto
  then have "AList.update (Suc n) e ?xs = ?xs @ [(Suc n, e)]" for e
    by (simp add: update_new_key)
  moreover have "run_ops (filling (Suc n)) new_manager =
      record_sequence (Suc n) 5 (run_ops (filling n) new_manager)"
    by (simp add: filling_def run_ops_def)
  ultimately show ?case
    using Suc by (simp add: record_sequence_def Let_def MAX_PRODUCER_SEQUENCES_def add64_exact)
qed

theorem eviction_sheds_idle_producers_witness:
  "card (dom (map_of (producer_sequences (run_ops (filling 100000) new_manager))) -
     dom (map_of (producer_sequences (record_sequence 200000 9 (run_ops (filling 100000) new_manager))))) = 1000 \<and>
   is_duplicate 200000 9 (record_sequence 200000 9 (run_ops (filling 100000) new_manager)) \<and>
   \<not> is_duplicate 200000 10 (record_sequence 200000 9 (run_ops (filling 100000) new_manager))"
proof -
  define n :: nat where "n = 100000"
  define tm where "tm = run_ops (filling n) new_manager"
  define table where "table = map_of (producer_sequences tm)"
  have tm: "tm = new_manager\<lparr>sequence_clock := n,
      producer_sequences := map (\<lambda>i. (Suc i, \<lparr>last_sequence = 5, last_used = i\<rparr>)) [0 ..< n]\<rparr>"
    unfolding tm_def by (rule filling_table) (simp add: n_def)
  have dom: "dom table = Suc ` {0 ..< n}"
    unfolding table_def by (simp add: tm dom_map_of_conv_image_fst image_image)
  have idle: "protected_producers tm = {}" by (simp add: tm protected_producers_def new_manager_def)
  have len: "length (filling n) < 2 ^ 64" by (simp add: filling_def n_def)
  have entries: "length (producer_sequences tm) = n" by (simp add: tm)
  have new: "200000 \<notin> Suc ` {0 ..< n}" by (auto simp: n_def)
  have "card (dom table - dom (map_of (producer_sequences (record_sequence 200000 9 tm)))) = 1000 \<and>
    (is_duplicate 200000 s (record_sequence 200000 9 tm) \<longleftrightarrow> s \<le> 9)" for s
    using eviction_sheds_idle_producers
      [OF len tm_def _ refl table_def refl refl refl, where pid = 200000 and seq = 9 and s = s]
    unfolding idle entries dom using new by (simp add: card_image n_def)
  then show ?thesis unfolding table_def tm_def n_def by simp
qed

text \<open>A transaction record of the state log reads back as it was written, and a record
  with anything behind it is refused.\<close>

theorem tx_record_roundtrip:
  assumes "pascal_ok tid" "pid < 2 ^ 64" "length rs \<le> 100000" "list_all range_ok rs"
  shows "\<exists>bs. encode_tx_state_record status pid tid rs = Some bs \<and>
    (\<forall>rest. decode_tx_state_record (bs @ rest) = (if rest = [] then Some (status, pid, tid, rs) else None))"
  using decode_tx_state_record_image [OF assms, of status]
  by (auto simp: encode_tx_state_record_def write_pascal_string_ok [OF assms(1)] encode_ranges_ok [OF assms(4)])

theorem tx_record_roundtrip_witness:
  "\<exists>bs. encode_tx_state_record PrepareCommit 7 ''tx'' [(''t'', 0, 10, 20)] = Some bs \<and>
     decode_tx_state_record bs = Some (PrepareCommit, 7, ''tx'', [(''t'', 0, 10, 20)])"
proof -
  have "pascal_ok ''tx''" "list_all range_ok [(''t'', 0, 10, 20)]"
    by (simp_all add: pascal_ok_def range_ok_def)
  from tx_record_roundtrip [OF this(1) _ _ this(2), of 7 PrepareCommit] show ?thesis
    by (force dest: spec [where x = "[]"])
qed

section \<open>Limits\<close>

text \<open>
  A registration below the start already known for the partition moves the start down and
  pins the new one, but leaves the old pin in place; completing the transaction releases
  only the new one, and readers stay stuck at the old.
\<close>

lemma late_registration_leaks_pin:
  "last_stable_offset ''t'' 0 (run_ops
     [OpBegin 0 ''a'' 7 True, OpRegister ''a'' ''t'' 0 10 True, OpRegister ''a'' ''t'' 0 5 True,
      OpPrepare ''a'' True True, OpComplete ''a'' True []] new_manager) = 10"
  by (simp add: run_ops_def new_manager_def begin_transaction_durable_def transition_def
      register_partition_durable_def prepare_durable_def complete_with_status_def new_state_def
      retire_from_lso_index_def unpin_lso_def pin_lso_def Let_def last_stable_offset_def)

text \<open>Pruning an open transaction forgets it without releasing what it pins.\<close>

lemma pruned_transaction_leaks_pin:
  "let tm = run_ops [OpBegin 0 ''a'' 7 True, OpRegister ''a'' ''t'' 0 10 True, OpPrune 50 40] new_manager
   in transactions tm = [] \<and> last_stable_offset ''t'' 0 tm = 10"
  by (simp add: run_ops_def new_manager_def begin_transaction_durable_def transition_def
      register_partition_durable_def new_state_def prune_stale_transactions_def stale_def
      pin_lso_def Let_def last_stable_offset_def)

end
