(* ===== verification/Assignors.thy ===== *)
theory Assignors
  imports Prelude "HOL-Library.Multiset"
begin

text \<open>
  The partition assignors of the group consumer (\<^verbatim>\<open>src/consumer.rs\<close>): range, round robin,
  sticky with its keep, fill and level phases, and the first round of a cooperative
  rebalance. A \<open>HashMap\<close> is an association list; the loop of the level phase is a function
  with a termination proof, by the sum of the squares of the loads.

  The lemmas show that every strategy hands out each partition exactly once and evenly, that
  the sticky assignor leaves a balanced assignment of an unchanged group alone, and that the
  first cooperative round never gives a member a partition another member still holds.
\<close>

type_synonym assignment = "(string \<times> nat list) list"

section \<open>Range and round robin\<close>

fun range_blocks :: "nat \<Rightarrow> nat \<Rightarrow> nat \<Rightarrow> nat \<Rightarrow> string list \<Rightarrow> assignment" where
  "range_blocks base remainder i next_partition [] = []"
| "range_blocks base remainder i next_partition (m # ms) =
     (let share = base + (if i < remainder then 1 else 0) in
      (m, [next_partition ..< next_partition + share]) #
        range_blocks base remainder (i + 1) (next_partition + share) ms)"

text \<open>The number of members is cast to \<open>u32\<close>; the sums stay below the number of partitions.\<close>

definition assign_range :: "nat \<Rightarrow> string list \<Rightarrow> assignment" where
  "assign_range partition_count member_ids =
     (if member_ids = [] then []
      else
        (let sorted_ids = sort member_ids;
             member_count = length sorted_ids mod 2 ^ 32
         in range_blocks (partition_count div member_count) (partition_count mod member_count) 0 0 sorted_ids))"

definition deal :: "nat \<Rightarrow> assignment \<Rightarrow> assignment" where
  "deal p result =
     (let i = p mod length result in result[i := (fst (result ! i), snd (result ! i) @ [p])])"

definition assign_roundrobin :: "nat \<Rightarrow> string list \<Rightarrow> assignment" where
  "assign_roundrobin partition_count member_ids =
     (if member_ids = [] then []
      else fold deal [0 ..< partition_count] (map (\<lambda>m. (m, [])) (sort member_ids)))"

section \<open>Sticky\<close>

definition owned_of :: "assignment \<Rightarrow> string \<Rightarrow> nat list" where
  "owned_of owned m = (case map_of owned m of None \<Rightarrow> [] | Some ps \<Rightarrow> ps)"

abbreviation load :: "assignment \<Rightarrow> string \<Rightarrow> nat" where
  "load owned m \<equiv> length (owned_of owned m)"

text \<open>Step 1: a present member keeps the partitions it had that exist and are not claimed.\<close>

definition keep_previous ::
    "nat \<Rightarrow> string list \<Rightarrow> assignment \<Rightarrow> string \<Rightarrow> assignment \<times> bool list \<Rightarrow> assignment \<times> bool list" where
  "keep_previous partition_count sorted_ids previous m st =
     (case st of (owned, claimed) \<Rightarrow>
        if m \<notin> set sorted_ids then (owned, claimed)
        else
          (let kept = sort (filter (\<lambda>p. p < partition_count \<and> \<not> claimed ! p) (owned_of previous m))
           in (AList.update m kept owned, fold (\<lambda>p c. c[p := True]) kept claimed)))"

definition keep_phase :: "nat \<Rightarrow> string list \<Rightarrow> assignment \<Rightarrow> assignment \<times> bool list" where
  "keep_phase partition_count sorted_ids previous =
     fold (keep_previous partition_count sorted_ids previous) (sort (map fst previous))
       (fold (\<lambda>m. AList.update m []) sorted_ids [], replicate partition_count False)"

text \<open>Step 3: \<open>min_by_key\<close> on the load and the member id.\<close>

fun least_loaded :: "assignment \<Rightarrow> string \<Rightarrow> string list \<Rightarrow> string" where
  "least_loaded owned best [] = best"
| "least_loaded owned best (m # ms) =
     (if load owned m < load owned best \<or> load owned m = load owned best \<and> m < best
      then least_loaded owned m ms else least_loaded owned best ms)"

definition fill_one :: "string list \<Rightarrow> nat \<Rightarrow> assignment \<Rightarrow> assignment" where
  "fill_one sorted_ids p owned =
     (let target = least_loaded owned (hd sorted_ids) (tl sorted_ids)
      in AList.update target (owned_of owned target @ [p]) owned)"

text \<open>Step 4: one move of the level loop, from the member \<open>full\<close> to the member \<open>short\<close>.\<close>

definition move_index :: "nat list \<Rightarrow> nat list \<Rightarrow> nat" where
  "move_index over_partitions previously_under =
     (let i = length (takeWhile (\<lambda>p. p \<in> set previously_under) over_partitions)
      in if i < length over_partitions then i else 0)"

definition move_one :: "assignment \<Rightarrow> string \<Rightarrow> string \<Rightarrow> assignment \<Rightarrow> assignment" where
  "move_one previous full short owned =
     (let ps = owned_of owned full;
          i = move_index ps (owned_of previous short);
          owned = AList.update full (take i ps @ drop (Suc i) ps) owned
      in AList.update short (owned_of owned short @ [ps ! i]) owned)"

definition max_load :: "string list \<Rightarrow> assignment \<Rightarrow> nat" where
  "max_load ids owned = Max (set (map (load owned) ids))"

definition min_load :: "string list \<Rightarrow> assignment \<Rightarrow> nat" where
  "min_load ids owned = Min (set (map (load owned) ids))"

definition first_with :: "string list \<Rightarrow> assignment \<Rightarrow> nat \<Rightarrow> string" where
  "first_with ids owned n = hd (filter (\<lambda>m. load owned m = n) ids)"

lemma owned_of_update: "owned_of (AList.update m ps owned) j = (if j = m then ps else owned_of owned j)"
  by (simp add: owned_of_def update_conv')

lemma first_with_in:
  assumes "n \<in> set (map (load owned) ids)"
  shows "first_with ids owned n \<in> set ids \<and> load owned (first_with ids owned n) = n"
proof -
  have "filter (\<lambda>m. load owned m = n) ids \<noteq> []" using assms by (auto simp: filter_empty_conv)
  then have "hd (filter (\<lambda>m. load owned m = n) ids) \<in> set (filter (\<lambda>m. load owned m = n) ids)"
    by (rule hd_in_set)
  then show ?thesis by (simp add: first_with_def)
qed

lemma max_load_in: "ids \<noteq> [] \<Longrightarrow> max_load ids owned \<in> set (map (load owned) ids)"
  unfolding max_load_def by (rule Max_in) auto

lemma min_load_in: "ids \<noteq> [] \<Longrightarrow> min_load ids owned \<in> set (map (load owned) ids)"
  unfolding min_load_def by (rule Min_in) auto

lemma move_index_less: "ps \<noteq> [] \<Longrightarrow> move_index ps qs < length ps"
  by (simp add: move_index_def Let_def)

lemma owned_of_move:
  assumes "full \<noteq> short"
  shows "owned_of (move_one previous full short owned) j =
    (let ps = owned_of owned full; i = move_index ps (owned_of previous short) in
     if j = short then owned_of owned short @ [ps ! i]
     else if j = full then take i ps @ drop (Suc i) ps else owned_of owned j)"
  using assms by (simp add: move_one_def Let_def owned_of_update)

lemma load_move:
  assumes "full \<noteq> short" "owned_of owned full \<noteq> []"
  shows "load (move_one previous full short owned) j =
    (if j = short then Suc (load owned short)
     else if j = full then load owned full - 1 else load owned j)"
  using move_index_less [OF assms(2), of "owned_of previous short"] assms(1)
  by (simp add: owned_of_move Let_def min_def)

definition spread :: "string list \<Rightarrow> assignment \<Rightarrow> nat" where
  "spread ids owned = (\<Sum>m\<in>set ids. load owned m * load owned m)"

lemma spread_move:
  assumes ids: "full \<in> set ids" "short \<in> set ids" and gap: "load owned short + 1 < load owned full"
  shows "spread ids (move_one previous full short owned) < spread ids owned"
proof -
  have ne: "full \<noteq> short" "owned_of owned full \<noteq> []" using gap by auto
  let ?rest = "set ids - {full} - {short}"
  have split: "(\<Sum>m\<in>set ids. f m) = f full + (f short + (\<Sum>m\<in>?rest. f m))" for f :: "string \<Rightarrow> nat"
    using ids ne by (simp add: sum.remove [of _ full] sum.remove [of _ short])
  have rest: "(\<Sum>m\<in>?rest. load (move_one previous full short owned) m * load (move_one previous full short owned) m)
      = (\<Sum>m\<in>?rest. load owned m * load owned m)"
    by (rule sum.cong) (auto simp: load_move [OF ne])
  define u where "u = load owned short"
  define d where "d = load owned full - u - 2"
  have u: "load owned short = u" and d: "load owned full = u + 2 + d"
    using gap by (simp_all add: u_def d_def)
  show ?thesis
    unfolding spread_def split rest using ne
    by (simp add: load_move [OF ne] u d algebra_simps)
qed

function level :: "string list \<Rightarrow> assignment \<Rightarrow> assignment \<Rightarrow> assignment" where
  "level ids previous owned =
     (if ids = [] \<or> max_load ids owned \<le> min_load ids owned + 1 then owned
      else level ids previous
        (move_one previous (first_with ids owned (max_load ids owned))
           (first_with ids owned (min_load ids owned)) owned))"
  by pat_completeness auto
termination
proof (relation "measure (\<lambda>(ids, previous, owned). spread ids owned)")
  fix ids previous owned
  assume c: "\<not> (ids = [] \<or> max_load ids owned \<le> min_load ids owned + 1)"
  note mx = first_with_in [OF max_load_in [of ids owned]] and mn = first_with_in [OF min_load_in [of ids owned]]
  from c mx mn show "((ids, previous, move_one previous (first_with ids owned (max_load ids owned))
      (first_with ids owned (min_load ids owned)) owned), ids, previous, owned)
      \<in> measure (\<lambda>(ids, previous, owned). spread ids owned)"
    by (auto intro!: spread_move)
qed simp

declare level.simps [simp del]

text \<open>The result: a member id given twice takes its partitions out at its first place.\<close>

fun take_out :: "string list \<Rightarrow> assignment \<Rightarrow> assignment" where
  "take_out [] owned = []"
| "take_out (m # ms) owned = (m, sort (owned_of owned m)) # take_out ms (AList.delete m owned)"

definition assign_sticky :: "nat \<Rightarrow> string list \<Rightarrow> assignment \<Rightarrow> assignment" where
  "assign_sticky partition_count member_ids previous =
     (if member_ids = [] then []
      else
        (let sorted_ids = sort member_ids;
             (owned, claimed) = keep_phase partition_count sorted_ids previous;
             remainder = sort (filter (\<lambda>p. \<not> claimed ! p) [0 ..< partition_count]);
             owned = fold (fill_one sorted_ids) remainder owned
         in take_out sorted_ids (level sorted_ids previous owned)))"

section \<open>Strategies\<close>

datatype AssignmentStrategy = Range | RoundRobin | Sticky | CooperativeSticky

definition from_protocol_name :: "string \<Rightarrow> AssignmentStrategy" where
  "from_protocol_name name =
     (if name = ''roundrobin'' then RoundRobin else if name = ''range'' then Range
      else if name = ''sticky'' then Sticky
      else if name = ''cooperative-sticky'' then CooperativeSticky else Range)"

fun assign :: "AssignmentStrategy \<Rightarrow> nat \<Rightarrow> string list \<Rightarrow> assignment \<Rightarrow> assignment" where
  "assign Range partition_count member_ids previous = assign_range partition_count member_ids"
| "assign RoundRobin partition_count member_ids previous = assign_roundrobin partition_count member_ids"
| "assign Sticky partition_count member_ids previous = assign_sticky partition_count member_ids previous"
| "assign CooperativeSticky partition_count member_ids previous =
     assign_sticky partition_count member_ids previous"

definition is_cooperative_strategy :: "AssignmentStrategy \<Rightarrow> bool" where
  "is_cooperative_strategy s \<longleftrightarrow> s = CooperativeSticky"

definition cooperative_round_one :: "assignment \<Rightarrow> assignment \<Rightarrow> assignment \<times> bool" where
  "cooperative_round_one target previous =
     (let keep = map (\<lambda>(m, ps). (m, filter (\<lambda>p. p \<in> set (owned_of previous m)) ps)) target in
      (keep, list_ex (\<lambda>(m, ps). length (filter (\<lambda>p. p \<in> set (owned_of previous m)) ps) \<noteq> length ps) target))"

section \<open>What an assignment must be\<close>

text \<open>Every partition exactly once, every list in order, loads at most one apart.\<close>

definition fair :: "nat \<Rightarrow> string list \<Rightarrow> assignment \<Rightarrow> bool" where
  "fair n ids r \<longleftrightarrow> map fst r = sort ids \<and> mset (concat (map snd r)) = mset [0 ..< n] \<and>
     list_all (\<lambda>(_, ps). sorted ps) r \<and>
     (\<forall>x\<in>set r. \<forall>y\<in>set r. length (snd x) \<le> length (snd y) + 1)"

subsection \<open>Range\<close>

lemma map_fst_range_blocks [simp]: "map fst (range_blocks base remainder i next ids) = ids"
  by (induction base remainder i "next" ids rule: range_blocks.induct) (simp_all add: Let_def)

lemma range_blocks_sizes:
  "x \<in> set (range_blocks base remainder i next ids) \<Longrightarrow>
     sorted (snd x) \<and> base \<le> length (snd x) \<and> length (snd x) \<le> base + 1 \<and>
     (remainder = 0 \<longrightarrow> length (snd x) = base)"
  by (induction base remainder i "next" ids rule: range_blocks.induct) (auto simp: Let_def)

lemma range_blocks_concat:
  "concat (map snd (range_blocks base remainder i next ids)) =
     [next ..< next + length ids * base + (min (i + length ids) remainder - min i remainder)]"
proof (induction base remainder i "next" ids rule: range_blocks.induct)
  case (2 base remainder i "next" m ms)
  define share where "share = base + (if i < remainder then 1 else 0)"
  have "[next ..< next + share] @ [next + share ..< next + share + length ms * base +
      (min (i + 1 + length ms) remainder - min (i + 1) remainder)] =
    [next ..< next + share + length ms * base + (min (i + 1 + length ms) remainder - min (i + 1) remainder)]"
    by (rule upt_add_eq_append [symmetric, of "next" "next + share" "length ms * base +
      (min (i + 1 + length ms) remainder - min (i + 1) remainder)", simplified add.assoc [symmetric]]) simp
  moreover have "next + share + length ms * base + (min (i + 1 + length ms) remainder - min (i + 1) remainder) =
      next + length (m # ms) * base + (min (i + length (m # ms)) remainder - min i remainder)"
    by (auto simp: share_def min_def algebra_simps)
  ultimately show ?case using 2 by (simp add: Let_def share_def [symmetric])
qed simp

lemma range_fair:
  assumes "ids \<noteq> []" "length ids < 2 ^ 32"
  shows "fair n ids (assign_range n ids)"
proof -
  let ?k = "length ids"
  have k: "?k mod 2 ^ 32 = ?k" "0 < ?k" using assms by simp_all
  let ?r = "range_blocks (n div ?k) (n mod ?k) 0 0 (sort ids)"
  have r: "assign_range n ids = ?r" using assms k by (simp add: assign_range_def Let_def)
  have "concat (map snd ?r) = [0 ..< ?k * (n div ?k) + min ?k (n mod ?k)]"
    by (simp add: range_blocks_concat)
  moreover have "min ?k (n mod ?k) = n mod ?k" using k(2) mod_less_divisor [of ?k n] by linarith
  ultimately have "concat (map snd ?r) = [0 ..< n]" by simp
  moreover have "length (snd x) \<le> length (snd y) + 1" if "x \<in> set ?r" "y \<in> set ?r" for x y
    using range_blocks_sizes [OF that(1)] range_blocks_sizes [OF that(2)] by linarith
  ultimately show ?thesis
    unfolding fair_def r using range_blocks_sizes by (fastforce simp: list_all_iff)
qed

subsection \<open>Round robin\<close>

text \<open>After \<open>n\<close> partitions are dealt, the member at place \<open>i\<close> has those that are \<open>i\<close> modulo the number of members.\<close>

lemma fold_deal:
  assumes "ids \<noteq> []"
  shows "fold deal [0 ..< n] (map (\<lambda>m. (m, [])) ids) =
    map (\<lambda>i. (ids ! i, filter (\<lambda>p. p mod length ids = i) [0 ..< n])) [0 ..< length ids]"
proof (induction n)
  case 0
  show ?case by (rule nth_equalityI) simp_all
next
  case (Suc n)
  let ?k = "length ids"
  let ?res = "\<lambda>n. map (\<lambda>i. (ids ! i, filter (\<lambda>p. p mod ?k = i) [0 ..< n])) [0 ..< ?k]"
  have i: "n mod ?k < ?k" using assms by simp
  have "fold deal [0 ..< Suc n] (map (\<lambda>m. (m, [])) ids) = deal n (?res n)"
    by (simp add: Suc)
  also have "\<dots> = ?res (Suc n)"
    by (rule nth_equalityI) (use i in \<open>auto simp: deal_def Let_def nth_list_update\<close>)
  finally show ?case .
qed

lemma mset_classes:
  "mset (concat (map (\<lambda>i. filter (\<lambda>p. f p = i) xs) [0 ..< k])) = mset (filter (\<lambda>p. f p < k) xs)"
proof (induction k)
  case (Suc k)
  have "mset (filter (\<lambda>p. f p < Suc k) xs) =
      mset (filter (\<lambda>p. f p < k) xs) + mset (filter (\<lambda>p. f p = k) xs)"
    by (induction xs) (auto simp: less_Suc_eq)
  with Suc show ?case by simp
qed simp

lemma length_class:
  assumes "0 < k" "i < k"
  shows "length (filter (\<lambda>p. p mod k = i) [0 ..< n]) = n div k + (if i < n mod k then 1 else 0)"
proof (induction n)
  case (Suc n)
  have step: "length (filter (\<lambda>p. p mod k = i) [0 ..< Suc n]) =
      n div k + (if i < n mod k then 1 else 0) + (if n mod k = i then 1 else 0)"
    using Suc by simp
  show ?case
  proof (cases "Suc (n mod k) = k")
    case True
    then have "Suc n mod k = 0" "Suc n div k = Suc (n div k)" by (simp_all add: mod_Suc div_Suc)
    moreover have "i < n mod k \<or> n mod k = i" using True assms(2) by linarith
    ultimately show ?thesis unfolding step by (elim disjE) simp_all
  next
    case False
    then have "Suc n mod k = Suc (n mod k)" "Suc n div k = n div k" by (simp_all add: mod_Suc div_Suc)
    then show ?thesis unfolding step by (simp add: less_Suc_eq)
  qed
qed (use assms in simp)

lemma roundrobin_fair:
  assumes "ids \<noteq> []"
  shows "fair n ids (assign_roundrobin n ids)"
proof -
  let ?k = "length ids"
  have k: "0 < ?k" "sort ids \<noteq> []" using assms by (simp, metis length_0_conv length_sort)
  let ?r = "map (\<lambda>i. (sort ids ! i, filter (\<lambda>p. p mod ?k = i) [0 ..< n])) [0 ..< ?k]"
  have r: "assign_roundrobin n ids = ?r"
    using assms fold_deal [OF k(2), of n] by (simp add: assign_roundrobin_def)
  have "map fst ?r = sort ids" by (rule nth_equalityI) simp_all
  moreover have "mset (concat (map snd ?r)) = mset [0 ..< n]"
  proof -
    have "filter (\<lambda>p. p mod ?k < ?k) [0 ..< n] = [0 ..< n]"
      by (rule filter_True) (use k(1) in simp)
    with mset_classes [of "\<lambda>p. p mod ?k" "[0 ..< n]" ?k] show ?thesis
      by (simp only: map_map comp_def snd_conv)
  qed
  moreover have "length (snd x) \<le> length (snd y) + 1" if "x \<in> set ?r" "y \<in> set ?r" for x y
    using that k(1) by (auto simp: length_class)
  ultimately show ?thesis unfolding fair_def r
    by (auto simp: list_all_iff sorted_wrt_filter)
qed

subsection \<open>Sticky\<close>

text \<open>All partitions owned by a set of members, with multiplicity.\<close>

definition pool :: "string list \<Rightarrow> assignment \<Rightarrow> nat multiset" where
  "pool ids owned = (\<Sum>m\<in>set ids. mset (owned_of owned m))"

lemma pool_update:
  assumes "m \<in> set ids"
  shows "pool ids (AList.update m ps owned) + mset (owned_of owned m) = pool ids owned + mset ps"
proof -
  have "pool ids o' = mset (owned_of o' m) + (\<Sum>j\<in>set ids - {m}. mset (owned_of o' j))" for o'
    using assms by (simp add: pool_def sum.remove)
  moreover have "(\<Sum>j\<in>set ids - {m}. mset (owned_of (AList.update m ps owned) j)) =
      (\<Sum>j\<in>set ids - {m}. mset (owned_of owned j))"
    by (rule sum.cong) (simp_all add: owned_of_update)
  ultimately show ?thesis by (simp add: owned_of_update)
qed

lemma pool_update_append:
  "m \<in> set ids \<Longrightarrow> pool ids (AList.update m (owned_of owned m @ ps) owned) = pool ids owned + mset ps"
  using pool_update [of m ids "owned_of owned m @ ps" owned] by simp

lemma least_loaded_in: "least_loaded owned best ms \<in> insert best (set ms)"
  by (induction owned best ms rule: least_loaded.induct) auto

lemma pool_fill_one: "ids \<noteq> [] \<Longrightarrow> pool ids (fill_one ids p owned) = pool ids owned + {#p#}"
  using least_loaded_in [of owned "hd ids" "tl ids"]
  by (cases ids) (auto simp: fill_one_def Let_def pool_update_append)

lemma pool_fill: "ids \<noteq> [] \<Longrightarrow> pool ids (fold (fill_one ids) ps owned) = pool ids owned + mset ps"
  by (induction ps arbitrary: owned) (simp_all add: pool_fill_one)

lemma pool_move:
  assumes ids: "full \<in> set ids" "short \<in> set ids" "full \<noteq> short" and ne: "owned_of owned full \<noteq> []"
  shows "pool ids (move_one previous full short owned) = pool ids owned"
proof -
  let ?ps = "owned_of owned full"
  let ?i = "move_index ?ps (owned_of previous short)"
  let ?o = "AList.update full (take ?i ?ps @ drop (Suc ?i) ?ps) owned"
  have i: "?i < length ?ps" by (rule move_index_less [OF ne])
  have "mset ?ps = add_mset (?ps ! ?i) (mset (take ?i ?ps @ drop (Suc ?i) ?ps))"
    using arg_cong [OF id_take_nth_drop [OF i], of mset] by simp
  then have "pool ids ?o + {#?ps ! ?i#} = pool ids owned"
    using pool_update [OF ids(1), of "take ?i ?ps @ drop (Suc ?i) ?ps" owned] by simp
  moreover have "move_one previous full short owned =
      AList.update short (owned_of ?o short @ [?ps ! ?i]) ?o"
    by (simp add: move_one_def Let_def)
  ultimately show ?thesis using pool_update_append [OF ids(2), of ?o "[?ps ! ?i]"] by simp
qed

lemma level_move:
  assumes "ids \<noteq> []" "\<not> max_load ids owned \<le> min_load ids owned + 1"
  defines "f \<equiv> first_with ids owned (max_load ids owned)" and "s \<equiv> first_with ids owned (min_load ids owned)"
  shows "f \<in> set ids" "s \<in> set ids" "f \<noteq> s" "owned_of owned f \<noteq> []"
  using first_with_in [OF max_load_in [OF assms(1), of owned]]
    first_with_in [OF min_load_in [OF assms(1), of owned]] assms(2)
  unfolding f_def s_def by auto

lemma pool_level: "pool ids (level ids previous owned) = pool ids owned"
proof (induction ids previous owned rule: level.induct)
  case (1 ids previous owned)
  show ?case
  proof (cases "ids = [] \<or> max_load ids owned \<le> min_load ids owned + 1")
    case True
    then show ?thesis by (simp add: level.simps [of ids previous owned])
  next
    case False
    then have c: "ids \<noteq> []" "\<not> max_load ids owned \<le> min_load ids owned + 1" by auto
    from 1 [OF False] pool_move [OF level_move [OF c]] show ?thesis
      by (subst level.simps) (simp add: c)
  qed
qed

lemma level_balanced:
  "ids \<noteq> [] \<Longrightarrow> max_load ids (level ids previous owned) \<le> min_load ids (level ids previous owned) + 1"
proof (induction ids previous owned rule: level.induct)
  case (1 ids previous owned)
  show ?case
  proof (cases "max_load ids owned \<le> min_load ids owned + 1")
    case True
    then show ?thesis using 1 by (simp add: level.simps [of ids previous owned])
  next
    case False
    with 1 show ?thesis by (subst (1 2) level.simps) simp
  qed
qed

lemma loads_balanced:
  "\<lbrakk>max_load ids owned \<le> min_load ids owned + 1; x \<in> set ids; y \<in> set ids\<rbrakk> \<Longrightarrow>
     load owned x \<le> load owned y + 1"
proof -
  assume b: "max_load ids owned \<le> min_load ids owned + 1" and xy: "x \<in> set ids" "y \<in> set ids"
  have "load owned x \<le> max_load ids owned" unfolding max_load_def using xy by (intro Max_ge) auto
  moreover have "min_load ids owned \<le> load owned y" unfolding min_load_def using xy by (intro Min_le) auto
  ultimately show ?thesis using b by linarith
qed

lemma take_out_distinct:
  "distinct ids \<Longrightarrow> take_out ids owned = map (\<lambda>m. (m, sort (owned_of owned m))) ids"
proof (induction ids arbitrary: owned)
  case (Cons m ms)
  have "owned_of (AList.delete m owned) j = owned_of owned j" if "j \<in> set ms" for j
    using that Cons.prems by (auto simp: owned_of_def delete_conv')
  with Cons show ?case by simp
qed simp

subsubsection \<open>The keep phase\<close>

definition claims :: "nat \<Rightarrow> bool list \<Rightarrow> nat set" where
  "claims n claimed = {p. p < n \<and> claimed ! p}"

lemma claim_fold:
  "length claimed = n \<Longrightarrow> \<forall>p\<in>set ps. p < n \<Longrightarrow>
     length (fold (\<lambda>p c. c[p := True]) ps claimed) = n \<and>
     claims n (fold (\<lambda>p c. c[p := True]) ps claimed) = claims n claimed \<union> set ps"
proof (induction ps arbitrary: claimed)
  case (Cons p ps)
  have "claims n (claimed[p := True]) = insert p (claims n claimed)"
    using Cons.prems by (auto simp: claims_def nth_list_update)
  with Cons show ?case by auto
qed simp

definition keep_inv :: "nat \<Rightarrow> string list \<Rightarrow> string list \<Rightarrow> assignment \<times> bool list \<Rightarrow> bool" where
  "keep_inv n ids todo st \<longleftrightarrow>
     length (snd st) = n \<and> pool ids (fst st) = mset_set (claims n (snd st)) \<and>
     (\<forall>m\<in>set todo. owned_of (fst st) m = [])"

lemma keep_previous_inv:
  assumes inv: "keep_inv n ids (m # todo) st" and d: "distinct (owned_of previous m)" "m \<notin> set todo"
  shows "keep_inv n ids todo (keep_previous n ids previous m st)"
proof (cases "m \<in> set ids")
  case False
  with inv show ?thesis by (cases st) (simp add: keep_inv_def keep_previous_def)
next
  case True
  obtain owned claimed where st: "st = (owned, claimed)" by (cases st)
  define kept where "kept = sort (filter (\<lambda>p. p < n \<and> \<not> claimed ! p) (owned_of previous m))"
  have k: "distinct kept" "\<forall>p\<in>set kept. p < n" "claims n claimed \<inter> set kept = {}"
    using d(1) by (auto simp: kept_def claims_def)
  have c: "length claimed = n" using inv by (simp add: keep_inv_def st)
  have eq: "keep_previous n ids previous m st =
      (AList.update m kept owned, fold (\<lambda>p c. c[p := True]) kept claimed)"
    using True by (simp add: keep_previous_def st kept_def Let_def)
  have fin: "finite (claims n claimed)" by (simp add: claims_def)
  have "pool ids (AList.update m kept owned) = pool ids owned + mset kept"
    using pool_update [OF True, of kept owned] inv by (simp add: keep_inv_def st)
  also have "\<dots> = mset_set (claims n claimed \<union> set kept)"
    using inv k fin by (simp add: keep_inv_def st mset_set_Union mset_set_set)
  finally have "pool ids (AList.update m kept owned) = mset_set (claims n claimed \<union> set kept)" .
  then show ?thesis
    unfolding eq keep_inv_def fst_conv snd_conv using inv claim_fold [OF c k(2)] d(2)
    by (auto simp: keep_inv_def st owned_of_update)
qed

lemma keep_phase_inv:
  assumes "distinct todo" "\<forall>m\<in>set todo. distinct (owned_of previous m)" "keep_inv n ids todo st"
  shows "keep_inv n ids [] (fold (keep_previous n ids previous) todo st)"
  using assms
proof (induction todo arbitrary: st)
  case (Cons m todo)
  from Cons.prems have "keep_inv n ids todo (keep_previous n ids previous m st)"
    by (intro keep_previous_inv) auto
  with Cons show ?case by simp
qed simp

lemma owned_of_empty: "owned_of (fold (\<lambda>m. AList.update m []) ids owned) j =
    (if j \<in> set ids then [] else owned_of owned j)"
  by (induction ids arbitrary: owned) (auto simp: owned_of_update)

definition previous_ok :: "assignment \<Rightarrow> bool" where
  "previous_ok previous \<longleftrightarrow> distinct (map fst previous) \<and> list_all (\<lambda>(_, ps). distinct ps) previous"

lemma previous_ok_distinct: "previous_ok previous \<Longrightarrow> distinct (owned_of previous m)"
  by (auto simp: previous_ok_def owned_of_def list_all_iff split: option.splits dest: map_of_SomeD)

lemma keep_phase_pool:
  assumes "previous_ok previous" "keep_phase n ids previous = (owned, claimed)"
  shows "pool ids owned = mset_set (claims n claimed)" "length claimed = n"
proof -
  have "claims n (replicate n False) = {}" by (auto simp: claims_def)
  then have "keep_inv n ids (sort (map fst previous))
      (fold (\<lambda>m. AList.update m []) ids [], replicate n False)"
    by (simp add: keep_inv_def owned_of_empty pool_def) (simp add: owned_of_def)
  from keep_phase_inv [OF _ _ this, of previous] assms have "keep_inv n ids [] (owned, claimed)"
    by (simp add: keep_phase_def previous_ok_distinct) (simp add: previous_ok_def)
  then show "pool ids owned = mset_set (claims n claimed)" "length claimed = n"
    by (simp_all add: keep_inv_def)
qed

lemma mset_filter_split: "mset (filter P xs) + mset (filter (\<lambda>x. \<not> P x) xs) = mset xs"
  by (induction xs) simp_all

lemma sticky_fair:
  assumes "ids \<noteq> []" "distinct ids" "previous_ok previous"
  shows "fair n ids (assign_sticky n ids previous)"
proof -
  let ?ids = "sort ids"
  have ne: "?ids \<noteq> []" using assms(1) by (metis length_0_conv length_sort)
  obtain owned claimed where kp: "keep_phase n ?ids previous = (owned, claimed)" by fastforce
  define rest where "rest = sort (filter (\<lambda>p. \<not> claimed ! p) [0 ..< n])"
  define final where "final = level ?ids previous (fold (fill_one ?ids) rest owned)"
  have r: "assign_sticky n ids previous = map (\<lambda>m. (m, sort (owned_of final m))) ?ids"
    using assms(1,2) kp by (simp add: assign_sticky_def Let_def rest_def final_def take_out_distinct)
  have claimed: "mset_set (claims n claimed) = mset (filter (\<lambda>p. claimed ! p) [0 ..< n])"
  proof -
    have "claims n claimed = set (filter (\<lambda>p. claimed ! p) [0 ..< n])" by (auto simp: claims_def)
    then show ?thesis by (simp only: mset_set_set distinct_filter distinct_upt)
  qed
  have "pool ?ids final = mset (filter (\<lambda>p. claimed ! p) [0 ..< n]) + mset (filter (\<lambda>p. \<not> claimed ! p) [0 ..< n])"
    using keep_phase_pool(1) [OF assms(3) kp] claimed ne
    by (simp add: final_def pool_level pool_fill rest_def del: mset_filter)
  also have "\<dots> = mset [0 ..< n]" by (rule mset_filter_split)
  finally have pool: "pool ?ids final = mset [0 ..< n]" .
  have "mset (concat (map (\<lambda>m. sort (owned_of final m)) xs)) = (\<Sum>m\<in>set xs. mset (owned_of final m))"
    if "distinct xs" for xs
    using that by (induction xs) simp_all
  from this [of ?ids] have "mset (concat (map snd (assign_sticky n ids previous))) = mset [0 ..< n]"
    using assms(2) pool by (simp only: r map_map comp_def snd_conv distinct_sort pool_def)
  moreover have "load final x \<le> load final y + 1" if "x \<in> set ids" "y \<in> set ids" for x y
    using loads_balanced [of ?ids final x y] level_balanced [OF ne] that by (simp add: final_def)
  ultimately show ?thesis by (auto simp: fair_def r list_all_iff comp_def)
qed

subsection \<open>Fair assignments are fixed points\<close>

lemma owned_of_Cons: "owned_of ((a, ps) # xs) m = (if m = a then ps else owned_of xs m)"
  by (simp add: owned_of_def)

lemma set_owned_of: "set (owned_of xs m) \<subseteq> set (concat (map snd xs))"
  by (induction xs) (auto simp: owned_of_def split: option.splits dest: map_of_SomeD)

lemma owned_disjoint:
  "\<lbrakk>distinct (concat (map snd xs)); m \<noteq> j\<rbrakk> \<Longrightarrow> set (owned_of xs m) \<inter> set (owned_of xs j) = {}"
proof (induction xs)
  case Nil
  then show ?case by (simp add: owned_of_def)
next
  case (Cons x xs)
  obtain a ps where x: "x = (a, ps)" by (cases x)
  from Cons show ?case using set_owned_of [of xs m] set_owned_of [of xs j]
    by (auto simp: x owned_of_Cons)
qed

lemma fair_facts:
  assumes "fair n ids r" "distinct ids"
  shows "distinct (map fst r)" "distinct (concat (map snd r))" "set (concat (map snd r)) = {0 ..< n}"
    "\<And>m. m \<in> set ids \<Longrightarrow> sorted (owned_of r m)"
    "\<And>x y. x \<in> set ids \<Longrightarrow> y \<in> set ids \<Longrightarrow> load r x \<le> load r y + 1"
    "r = map (\<lambda>m. (m, owned_of r m)) (sort ids)"
proof -
  have m: "mset (concat (map snd r)) = mset [0 ..< n]" and f: "map fst r = sort ids"
    and s: "\<And>x. x \<in> set r \<Longrightarrow> sorted (snd x)"
    and b: "\<And>x y. x \<in> set r \<Longrightarrow> y \<in> set r \<Longrightarrow> length (snd x) \<le> length (snd y) + 1"
    using assms(1) by (auto simp: fair_def list_all_iff)
  show "distinct (concat (map snd r))" using mset_eq_imp_distinct_iff [OF m] by simp
  show "set (concat (map snd r)) = {0 ..< n}" using mset_eq_setD [OF m] by simp
  show d: "distinct (map fst r)" using f assms(2) by simp
  have mem: "(m, owned_of r m) \<in> set r" if "m \<in> set ids" for m
  proof -
    from that f have "m \<in> fst ` set r" by (metis set_map set_sort)
    then obtain ps where "(m, ps) \<in> set r" by auto
    with d show ?thesis by (simp add: owned_of_def)
  qed
  show "sorted (owned_of r m)" if "m \<in> set ids" for m using s [OF mem [OF that]] by simp
  show "load r x \<le> load r y + 1" if "x \<in> set ids" "y \<in> set ids" for x y
    using b [OF mem [OF that(1)] mem [OF that(2)]] by simp
  have "map (\<lambda>m. (m, owned_of r m)) (map fst r) = r"
  proof -
    have "(fst x, owned_of r (fst x)) = x" if "x \<in> set r" for x
      using map_of_is_SomeI [OF d, of "fst x" "snd x"] that by (simp add: owned_of_def)
    then show ?thesis by (simp add: comp_def map_idI)
  qed
  then show "r = map (\<lambda>m. (m, owned_of r m)) (sort ids)" by (simp add: f)
qed

definition kept_so_far :: "nat \<Rightarrow> string list \<Rightarrow> assignment \<Rightarrow> assignment \<times> bool list \<Rightarrow> bool" where
  "kept_so_far n seen previous st \<longleftrightarrow>
     length (snd st) = n \<and> claims n (snd st) = (\<Union>m\<in>set seen. set (owned_of previous m)) \<and>
     (\<forall>m\<in>set seen. owned_of (fst st) m = owned_of previous m)"

lemma keep_step:
  assumes f: "fair n ids previous" "distinct ids" and m: "m \<in> set ids" "m \<notin> set seen"
    and inv: "kept_so_far n seen previous st"
  shows "kept_so_far n (seen @ [m]) previous (keep_previous n (sort ids) previous m st)"
proof -
  obtain owned claimed where st: "st = (owned, claimed)" by (cases st)
  let ?ps = "owned_of previous m"
  have lt: "\<forall>p\<in>set ?ps. p < n" using set_owned_of [of previous m] fair_facts(3) [OF f] by auto
  have un: "p \<notin> claims n claimed" if "p \<in> set ?ps" for p
  proof
    assume "p \<in> claims n claimed"
    then obtain j where "j \<in> set seen" "p \<in> set (owned_of previous j)"
      using inv by (auto simp: kept_so_far_def st)
    with owned_disjoint [OF fair_facts(2) [OF f], of m j] m(2) that show False by auto
  qed
  have "filter (\<lambda>p. p < n \<and> \<not> claimed ! p) ?ps = ?ps"
    by (rule filter_True) (use lt un in \<open>auto simp: claims_def\<close>)
  then have kept: "sort (filter (\<lambda>p. p < n \<and> \<not> claimed ! p) ?ps) = ?ps"
    using fair_facts(4) [OF f m(1)] by (simp add: sorted_sort_id)
  have eq: "keep_previous n (sort ids) previous m st =
      (AList.update m ?ps owned, fold (\<lambda>p c. c[p := True]) ?ps claimed)"
    using m(1) by (simp add: keep_previous_def st kept Let_def)
  have c: "length claimed = n" using inv by (simp add: kept_so_far_def st)
  show ?thesis
    unfolding eq kept_so_far_def fst_conv snd_conv using inv claim_fold [OF c lt] m(2)
    by (auto simp: kept_so_far_def st owned_of_update)
qed

lemma keep_all:
  assumes f: "fair n ids previous" "distinct ids"
    and "kept_so_far n seen previous st" "distinct (seen @ todo)" "set todo \<subseteq> set ids"
  shows "kept_so_far n (seen @ todo) previous (fold (keep_previous n (sort ids) previous) todo st)"
  using assms(3-5)
proof (induction todo arbitrary: seen st)
  case (Cons m todo)
  have "kept_so_far n (seen @ [m]) previous (keep_previous n (sort ids) previous m st)"
    using Cons.prems by (intro keep_step [OF f]) auto
  from Cons.IH [OF this] Cons.prems show ?case by simp
qed simp

lemma sticky_fixpoint:
  assumes ne: "ids \<noteq> []" and f: "distinct ids" "fair n ids previous"
  shows "assign_sticky n ids previous = previous"
proof -
  let ?ids = "sort ids"
  have ne': "?ids \<noteq> []" using ne by (metis length_0_conv length_sort)
  obtain owned claimed where kp: "keep_phase n ?ids previous = (owned, claimed)" by fastforce
  have "claims n (replicate n False) = {}" by (auto simp: claims_def)
  then have "kept_so_far n [] previous (fold (\<lambda>m. AList.update m []) ?ids [], replicate n False)"
    by (simp add: kept_so_far_def)
  from keep_all [OF f(2,1) this, of ?ids] f have kept: "kept_so_far n ?ids previous (owned, claimed)"
    using kp by (simp add: keep_phase_def fair_def sorted_sort_id)
  have own: "owned_of owned m = owned_of previous m" if "m \<in> set ids" for m
    using kept that by (simp add: kept_so_far_def)
  have "(\<Union>m\<in>set ids. set (owned_of previous m)) = set (concat (map snd previous))"
    by (subst (2) fair_facts(6) [OF f(2,1)]) simp
  then have "claims n claimed = {0 ..< n}"
    using kept fair_facts(3) [OF f(2,1)] by (simp add: kept_so_far_def)
  then have rest: "filter (\<lambda>p. \<not> claimed ! p) [0 ..< n] = []"
    by (auto simp: filter_empty_conv claims_def)
  have loads: "load owned x \<le> load owned y + 1" if "x \<in> set ids" "y \<in> set ids" for x y
    using fair_facts(5) [OF f(2,1) that] own that by simp
  have "max_load ?ids owned \<le> min_load ?ids owned + 1"
    using max_load_in [OF ne', of owned] min_load_in [OF ne', of owned] loads by auto
  then have "level ?ids previous owned = owned" by (subst level.simps) simp
  then have "assign_sticky n ids previous = map (\<lambda>m. (m, sort (owned_of owned m))) ?ids"
    using ne f(1) kp rest by (simp add: assign_sticky_def Let_def take_out_distinct)
  also have "\<dots> = map (\<lambda>m. (m, owned_of previous m)) ?ids"
    using own fair_facts(4) [OF f(2,1)] by (simp add: sorted_sort_id)
  also have "\<dots> = previous" using fair_facts(6) [OF f(2,1)] by simp
  finally show ?thesis .
qed

lemma filter_length_id: "length (filter P xs) = length xs \<Longrightarrow> filter P xs = xs"
  using length_filter_less [of _ xs P] by (metis filter_True less_irrefl)

section \<open>Properties\<close>

text \<open>C26 Every strategy computes a fair assignment of a topic with at least one partition: each
  member appears once and in order, every partition of the topic is handed out exactly once, in
  order within a member, and no member has more than one partition more than another. The range
  and round-robin strategies do so whatever the previous assignment is; the sticky ones when no
  member is listed twice in the previous assignment and none lists a partition twice. (Two
  members may list the same partition, and members and partitions may be gone.)\<close>

theorem assignment_fair:
  assumes "ids \<noteq> []" "distinct ids" "length ids < 2 ^ 32" "0 < n"
    and "strategy = Sticky \<or> strategy = CooperativeSticky \<Longrightarrow> previous_ok previous"
  shows "fair n ids (assign strategy n ids previous)"
  using assms range_fair roundrobin_fair sticky_fair by (cases strategy) simp_all

theorem assignment_fair_witness:
  "fair 5 [''b'', ''a''] (assign Sticky 5 [''b'', ''a''] [(''a'', [4, 0, 1, 2]), (''gone'', [3])]) \<and>
   fair 5 [''b'', ''a''] (assign Range 5 [''b'', ''a''] [(''a'', [4, 4])])"
proof
  show "fair 5 [''b'', ''a''] (assign Sticky 5 [''b'', ''a''] [(''a'', [4, 0, 1, 2]), (''gone'', [3])])"
    by (rule assignment_fair) (simp_all add: previous_ok_def)
  show "fair 5 [''b'', ''a''] (assign Range 5 [''b'', ''a''] [(''a'', [4, 4])])"
    by (rule assignment_fair) simp_all
qed

text \<open>C37 The sticky assignor moves nothing without need: any fair assignment of the topic to
  the members of the group, by whatever strategy it was made, is returned unchanged.\<close>

theorem sticky_keeps_fair_assignments:
  assumes "ids \<noteq> []" "distinct ids" "fair n ids previous"
  shows "assign Sticky n ids previous = previous"
  using sticky_fixpoint [OF assms] by simp

theorem sticky_keeps_fair_assignments_witness:
  "assign Sticky 3 [''b'', ''a''] [(''a'', [1]), (''b'', [0, 2])] = [(''a'', [1]), (''b'', [0, 2])]"
proof (rule sticky_keeps_fair_assignments)
  have "sort [''b'', ''a''] = [''a'', ''b'']" by (simp add: less_char_def)
  then show "fair 3 [''b'', ''a''] [(''a'', [1]), (''b'', [0, 2])]"
    by (simp add: fair_def numeral_3_eq_3 numeral_2_eq_2 add_mset_commute)
qed simp_all

text \<open>C27 A cooperative rebalance never has two owners of a partition: what a member holds
  after the first round it held before, so nobody else did; what it gets in the second round
  nobody else kept in the first; and when no second round is asked for, the first one already
  gave everything.\<close>

theorem cooperative_rebalance_exclusive:
  assumes "ids \<noteq> []" "distinct ids" "previous_ok previous"
    and "\<And>a b. a \<noteq> b \<Longrightarrow> set (owned_of previous a) \<inter> set (owned_of previous b) = {}"
    and "target = assign CooperativeSticky n ids previous"
    and "cooperative_round_one target previous = (keep, more)" "m \<noteq> j"
  shows "set (owned_of keep m) \<inter> set (owned_of previous j) = {} \<and>
    set (owned_of target m) \<inter> set (owned_of keep j) = {} \<and> (if more then True else keep = target)"
proof -
  have fair: "fair n ids target" using sticky_fair [OF assms(1-3)] assms(5) by simp
  have keep: "owned_of keep x = filter (\<lambda>p. p \<in> set (owned_of previous x)) (owned_of target x)" for x
  proof -
    have "keep = map (\<lambda>(m, ps). (m, filter (\<lambda>p. p \<in> set (owned_of previous m)) ps)) target"
      using assms(6) by (simp add: cooperative_round_one_def Let_def)
    moreover have "owned_of (map (\<lambda>(m, ps). (m, filter (\<lambda>p. p \<in> set (owned_of previous m)) ps)) xs) x =
        filter (\<lambda>p. p \<in> set (owned_of previous x)) (owned_of xs x)" for xs
      by (induction xs) (auto simp: owned_of_def)
    ultimately show ?thesis by simp
  qed
  have "keep = target" if "\<not> more"
  proof -
    have "filter (\<lambda>p. p \<in> set (owned_of previous a)) ps = ps" if "(a, ps) \<in> set target" for a ps
      using assms(6) \<open>\<not> more\<close> that
      by (intro filter_length_id) (auto simp: cooperative_round_one_def Let_def list_ex_iff)
    then show ?thesis
      using assms(6) by (auto simp: cooperative_round_one_def Let_def intro!: map_idI)
  qed
  then show ?thesis
    using keep assms(4) [OF assms(7)] owned_disjoint [OF fair_facts(2) [OF fair assms(2)] assms(7)] by auto
qed

definition demo_previous :: assignment where
  "demo_previous = [(''a'', [0, 1]), (''b'', [2])]"

definition demo_target :: assignment where
  "demo_target = assign CooperativeSticky 3 [''a'', ''b'', ''c''] demo_previous"

theorem cooperative_rebalance_exclusive_witness:
  "set (owned_of (fst (cooperative_round_one demo_target demo_previous)) ''a'') \<inter>
     set (owned_of demo_previous ''b'') = {} \<and>
   set (owned_of demo_target ''c'') \<inter>
     set (owned_of (fst (cooperative_round_one demo_target demo_previous)) ''a'') = {}"
proof -
  have p: "previous_ok demo_previous" by (simp add: previous_ok_def demo_previous_def)
  have e: "set (owned_of demo_previous a) \<inter> set (owned_of demo_previous b) = {}" if "a \<noteq> b" for a b
    using that by (auto simp: demo_previous_def owned_of_def split: if_splits)
  have ids: "[''a'', ''b'', ''c''] \<noteq> []" "distinct [''a'', ''b'', ''c'']" by simp_all
  have r: "cooperative_round_one demo_target demo_previous =
      (fst (cooperative_round_one demo_target demo_previous), snd (cooperative_round_one demo_target demo_previous))"
    by simp
  note x = cooperative_rebalance_exclusive [OF ids p e demo_target_def r]
  from x [of "''a''" "''b''"] x [of "''c''" "''a''"] show ?thesis by simp
qed

section \<open>Limits\<close>

text \<open>
  A previous assignment that lists a partition twice for a member is kept with the
  duplicate: the claims of a member are only recorded after its list is filtered.
\<close>

lemma duplicate_is_kept:
  "fst (keep_phase 2 [''a''] [(''a'', [0, 0])]) = [(''a'', [0, 0])]"
  by (simp add: keep_phase_def keep_previous_def owned_of_def Let_def)

end
