(* ===== verification/Wire_Types.thy ===== *)
theory Wire_Types
  imports Codec Share_Partition
begin

text \<open>
  The types of the client wire protocol (\<^verbatim>\<open>src/protocol/wire.rs\<close>): command codes, the
  payload of every request, the tagged fields of the versioned envelope and the framing a
  request arrived with.
\<close>

section \<open>Commands and requests\<close>

datatype CommandCode =
    CmdProduceBatch | CmdFetch | CmdCommitOffset | CmdFetchOffset | CmdSeek | CmdLatestOffset
  | CmdBeginTx | CmdCommitTx | CmdAbortTx | CmdFetchByTimestamp | CmdFetchCommitted | CmdPing
  | CmdListTopics | CmdDescribeCluster | CmdDeleteTopic | CmdJoinGroup | CmdSyncGroup
  | CmdHeartbeat | CmdLeaveGroup | CmdCreateTopic | CmdDescribeTopic | CmdListGroups
  | CmdDescribeGroup | CmdInitProducerId | CmdAddPartitionsToTxn | CmdEndTxn | CmdOffsetCommit
  | CmdOffsetFetch | CmdSaslHandshake | CmdSaslAuthenticate | CmdDescribeAcls | CmdCreateAcls
  | CmdDeleteAcls | CmdRegisterBroker | CmdUnregisterBroker | CmdSetClientId
  | CmdUpsertScramUser | CmdDeleteScramUser | CmdShareFetch | CmdShareAcknowledge
  | CmdShareGroupHeartbeat | CmdShareGroupDescribe | CmdDescribeConfigs | CmdAlterConfigs
  | CmdIncrementalAlterConfigs | CmdNegotiateProtocol

text \<open>The codes 0x01 to 0x2E in the order of the enum.\<close>

definition command_table :: "(byte \<times> CommandCode) list" where
  "command_table =
     [(1, CmdProduceBatch), (2, CmdFetch), (3, CmdCommitOffset), (4, CmdFetchOffset), (5, CmdSeek),
      (6, CmdLatestOffset), (7, CmdBeginTx), (8, CmdCommitTx), (9, CmdAbortTx),
      (10, CmdFetchByTimestamp), (11, CmdFetchCommitted), (12, CmdPing), (13, CmdListTopics),
      (14, CmdDescribeCluster), (15, CmdDeleteTopic), (16, CmdJoinGroup), (17, CmdSyncGroup),
      (18, CmdHeartbeat), (19, CmdLeaveGroup), (20, CmdCreateTopic), (21, CmdDescribeTopic),
      (22, CmdListGroups), (23, CmdDescribeGroup), (24, CmdInitProducerId),
      (25, CmdAddPartitionsToTxn), (26, CmdEndTxn), (27, CmdOffsetCommit), (28, CmdOffsetFetch),
      (29, CmdSaslHandshake), (30, CmdSaslAuthenticate), (31, CmdDescribeAcls),
      (32, CmdCreateAcls), (33, CmdDeleteAcls), (34, CmdRegisterBroker),
      (35, CmdUnregisterBroker), (36, CmdSetClientId), (37, CmdUpsertScramUser),
      (38, CmdDeleteScramUser), (39, CmdShareFetch), (40, CmdShareAcknowledge),
      (41, CmdShareGroupHeartbeat), (42, CmdShareGroupDescribe), (43, CmdDescribeConfigs),
      (44, CmdAlterConfigs), (45, CmdIncrementalAlterConfigs), (46, CmdNegotiateProtocol)]"

definition command_try_from :: "byte \<Rightarrow> WireError + CommandCode" where
  "command_try_from b =
     (case map_of command_table b of None \<Rightarrow> Inl (UnknownCommand b) | Some c \<Rightarrow> Inr c)"

definition command_byte :: "CommandCode \<Rightarrow> byte" where
  "command_byte c = fst (the (List.find (\<lambda>e. snd e = c) command_table))"

definition supported_command_codes :: "byte list" where
  "supported_command_codes =
     filter (\<lambda>b. case command_try_from b of Inl _ \<Rightarrow> False | Inr _ \<Rightarrow> True) (map of_nat [1 ..< 256])"

definition MAX_REQUEST_PAYLOAD_BYTES :: nat where "MAX_REQUEST_PAYLOAD_BYTES = 67108864"
definition VERSIONED_ENVELOPE_MAGIC :: byte where "VERSIONED_ENVELOPE_MAGIC = 241"
definition PROTOCOL_VERSION_MIN :: nat where "PROTOCOL_VERSION_MIN = 1"
definition PROTOCOL_VERSION_MAX :: nat where "PROTOCOL_VERSION_MAX = 1"
definition MAX_DECODED_COLLECTION_ITEMS :: nat where "MAX_DECODED_COLLECTION_ITEMS = 100000"

record MemberAssignment =
  ma_member_id :: string
  ma_topic :: string
  ma_partitions :: "nat list"

text \<open>The fields of the three requests on access rules.\<close>

record acl_fields =
  af_resource_type :: byte
  af_resource_name :: string
  af_pattern_type :: byte
  af_principal :: string
  af_host :: string
  af_operation :: byte
  af_permission_type :: byte

datatype (plugins only: size) RequestPayload =
    RqProduceBatch string string string nat bytes
  | RqFetch string nat nat nat
  | RqCommitOffset string string nat nat
  | RqFetchOffset string string nat
  | RqSeek string nat nat
  | RqLatestOffset string nat
  | RqBeginTx string nat
  | RqCommitTx string
  | RqAbortTx string
  | RqFetchByTimestamp string nat nat nat
  | RqFetchCommitted string nat nat nat
  | RqPing
  | RqNegotiateProtocol
  | RqListTopics
  | RqDescribeCluster
  | RqDeleteTopic string
  | RqJoinGroup string string "string list" "string option"
  | RqSyncGroup string nat string "MemberAssignment list"
  | RqHeartbeat string nat string
  | RqLeaveGroup string string "string option"
  | RqCreateTopic string nat
  | RqDescribeTopic string
  | RqListGroups
  | RqDescribeGroup string
  | RqInitProducerId string
  | RqAddPartitionsToTxn string nat int "(string \<times> nat list) list"
  | RqEndTxn string nat int bool
  | RqOffsetCommit string string nat nat string
  | RqOffsetFetch string string nat
  | RqSaslHandshake string
  | RqSaslAuthenticate bytes
  | RqDescribeAcls acl_fields
  | RqCreateAcls acl_fields
  | RqDeleteAcls acl_fields
  | RqRegisterBroker nat string
  | RqUnregisterBroker nat
  | RqSetClientId string
  | RqUpsertScramUser string nat bytes bytes bytes
  | RqDeleteScramUser string
  | RqShareFetch string string string nat nat nat nat "AckBatch list"
  | RqShareAcknowledge string string string nat "AckBatch list"
  | RqShareGroupHeartbeat string string
  | RqShareGroupDescribe string
  | RqDescribeConfigs string
  | RqAlterConfigs string "(string \<times> string) list"
  | RqIncrementalAlterConfigs string "(string \<times> string) list" "string list"

record WireRequest =
  rq_cmd :: CommandCode
  rq_payload :: RequestPayload

section \<open>Envelope tags and framing\<close>

definition ISOLATION_LEVEL :: nat where "ISOLATION_LEVEL = 1"
definition FORWARDED :: nat where "FORWARDED = 2"
definition SESSION_TIMEOUT_MS :: nat where "SESSION_TIMEOUT_MS = 3"
definition GROUP_MEMBER :: nat where "GROUP_MEMBER = 4"
definition MAX_WAIT_MS :: nat where "MAX_WAIT_MS = 5"
definition MIN_BYTES :: nat where "MIN_BYTES = 6"
definition COOPERATIVE_ROUND_TWO :: nat where "COOPERATIVE_ROUND_TWO = 7"

datatype IsolationLevel = ReadUncommitted | ReadCommitted

fun isolation_to_byte :: "IsolationLevel \<Rightarrow> byte" where
  "isolation_to_byte ReadUncommitted = 0"
| "isolation_to_byte ReadCommitted = 1"

definition isolation_from_byte :: "byte \<Rightarrow> IsolationLevel" where
  "isolation_from_byte b = (if b = 1 then ReadCommitted else ReadUncommitted)"

record RequestTags =
  isolation_level :: "IsolationLevel option"
  forwarded :: bool
  session_timeout_ms :: "nat option"
  group_member :: "(string \<times> string) option"
  max_wait_ms :: "nat option"
  min_bytes :: "nat option"
  cooperative_round_two :: bool

definition default_tags :: RequestTags where
  "default_tags = \<lparr>isolation_level = None, forwarded = False, session_timeout_ms = None,
     group_member = None, max_wait_ms = None, min_bytes = None, cooperative_round_two = False\<rparr>"

datatype RequestFraming = Legacy | Versioned nat nat RequestTags

fun correlation_id :: "RequestFraming \<Rightarrow> nat option" where
  "correlation_id Legacy = None"
| "correlation_id (Versioned _ corr _) = Some corr"

fun framing_tags :: "RequestFraming \<Rightarrow> RequestTags" where
  "framing_tags Legacy = default_tags"
| "framing_tags (Versioned _ _ t) = t"

definition framing_isolation_level :: "RequestFraming \<Rightarrow> IsolationLevel" where
  "framing_isolation_level f =
     (case isolation_level (framing_tags f) of None \<Rightarrow> ReadUncommitted | Some l \<Rightarrow> l)"

definition is_forwarded :: "RequestFraming \<Rightarrow> bool" where
  "is_forwarded f = forwarded (framing_tags f)"

definition framing_session_timeout_ms :: "RequestFraming \<Rightarrow> nat option" where
  "framing_session_timeout_ms f = session_timeout_ms (framing_tags f)"

definition framing_max_wait_ms :: "RequestFraming \<Rightarrow> nat" where
  "framing_max_wait_ms f = (case max_wait_ms (framing_tags f) of None \<Rightarrow> 0 | Some v \<Rightarrow> v)"

definition framing_min_bytes :: "RequestFraming \<Rightarrow> nat" where
  "framing_min_bytes f = max (case min_bytes (framing_tags f) of None \<Rightarrow> 1 | Some v \<Rightarrow> v) 1"

definition is_cooperative_round_two :: "RequestFraming \<Rightarrow> bool" where
  "is_cooperative_round_two f = cooperative_round_two (framing_tags f)"

definition framing_group_member :: "RequestFraming \<Rightarrow> (string \<times> string) option" where
  "framing_group_member f = group_member (framing_tags f)"

end
