(* ===== verification/Wire_Requests.thy ===== *)
theory Wire_Requests
  imports Wire_Types Record_Stream
begin

text \<open>
  Decoding of client requests (\<^verbatim>\<open>src/protocol/wire.rs\<close>): the envelope and its tagged fields,
  the body of every command, and the rewrapping of a request that is forwarded to another
  broker. A reader takes the buffer and the continuation that gets the value and what is
  left of the buffer, so that a definition lists the reads of a request in the order of the
  code, each with its check. The reservation of memory for a collection succeeds in the
  model: its size is bounded by \<open>MAX_DECODED_COLLECTION_ITEMS\<close>.
\<close>

section \<open>Readers\<close>

definition rd_str :: "bytes \<Rightarrow> (string \<Rightarrow> bytes \<Rightarrow> WireError + 'a) \<Rightarrow> WireError + 'a" where
  "rd_str buf k = (case read_pascal_string buf of Inl e \<Rightarrow> Inl e | Inr (s, buf) \<Rightarrow> k s buf)"

definition rd_trailing ::
  "bytes \<Rightarrow> (string option \<Rightarrow> bytes \<Rightarrow> WireError + 'a) \<Rightarrow> WireError + 'a" where
  "rd_trailing buf k =
     (case read_trailing_pascal_string buf of Inl e \<Rightarrow> Inl e | Inr (s, buf) \<Rightarrow> k s buf)"

definition rd_room :: "nat \<Rightarrow> bytes \<Rightarrow> WireError + 'a \<Rightarrow> WireError + 'a" where
  "rd_room n buf k = (if length buf < n then Inl (Incomplete n (length buf)) else k)"

definition rd_be :: "nat \<Rightarrow> bytes \<Rightarrow> (nat \<Rightarrow> bytes \<Rightarrow> 'a) \<Rightarrow> 'a" where
  "rd_be w buf k = (case take_be w buf of (v, buf) \<Rightarrow> k v buf)"

text \<open>\<open>get_i16\<close>: the two bytes as a two's complement number.\<close>

definition i16_of :: "nat \<Rightarrow> int" where
  "i16_of v = (if v < 32768 then int v else int v - 65536)"

definition validate_collection_count :: "nat \<Rightarrow> nat \<Rightarrow> nat \<Rightarrow> nat \<Rightarrow> WireError + nat" where
  "validate_collection_count count remaining minimum budget =
     (if remaining div minimum < count \<or> budget < count then Inl InvalidProtocol
      else Inr (budget - count))"

definition rd_count ::
  "nat \<Rightarrow> bytes \<Rightarrow> nat \<Rightarrow> nat \<Rightarrow> (nat \<Rightarrow> WireError + 'a) \<Rightarrow> WireError + 'a" where
  "rd_count count buf minimum budget k =
     (case validate_collection_count count (length buf) minimum budget of
        Inl e \<Rightarrow> Inl e | Inr budget \<Rightarrow> k budget)"

definition read_len_prefixed_bytes :: "bytes \<Rightarrow> bytes wire_read" where
  "read_len_prefixed_bytes buf =
     rd_room 2 buf (rd_be 2 buf (\<lambda>len buf.
     rd_room len buf (Inr (take len buf, drop len buf))))"

definition rd_bytes :: "bytes \<Rightarrow> (bytes \<Rightarrow> bytes \<Rightarrow> WireError + 'a) \<Rightarrow> WireError + 'a" where
  "rd_bytes buf k = (case read_len_prefixed_bytes buf of Inl e \<Rightarrow> Inl e | Inr (s, buf) \<Rightarrow> k s buf)"

subsection \<open>The loops of the collections\<close>

primrec read_u32s :: "nat \<Rightarrow> bytes \<Rightarrow> nat list \<times> bytes" where
  "read_u32s 0 buf = ([], buf)"
| "read_u32s (Suc n) buf =
     rd_be 4 buf (\<lambda>v buf. case read_u32s n buf of (vs, buf) \<Rightarrow> (v # vs, buf))"

primrec read_strings :: "nat \<Rightarrow> bytes \<Rightarrow> string list wire_read" where
  "read_strings 0 buf = Inr ([], buf)"
| "read_strings (Suc n) buf =
     rd_str buf (\<lambda>s buf.
     case read_strings n buf of Inl e \<Rightarrow> Inl e | Inr (ss, buf) \<Rightarrow> Inr (s # ss, buf))"

primrec read_pairs :: "nat \<Rightarrow> bytes \<Rightarrow> (string \<times> string) list wire_read" where
  "read_pairs 0 buf = Inr ([], buf)"
| "read_pairs (Suc n) buf =
     rd_str buf (\<lambda>key buf. rd_str buf (\<lambda>value buf.
     case read_pairs n buf of Inl e \<Rightarrow> Inl e | Inr (ps, buf) \<Rightarrow> Inr ((key, value) # ps, buf)))"

definition acknowledge_try_from :: "nat \<Rightarrow> WireError + AcknowledgeType" where
  "acknowledge_try_from v =
     (if v = 1 then Inr Accept else if v = 2 then Inr Release else if v = 3 then Inr Reject
      else if v = 4 then Inr Renew else if v = 5 then Inr Yield else Inl InvalidProtocol)"

primrec read_acks :: "nat \<Rightarrow> bytes \<Rightarrow> AckBatch list wire_read" where
  "read_acks 0 buf = Inr ([], buf)"
| "read_acks (Suc n) buf =
     rd_be 8 buf (\<lambda>first buf. rd_be 8 buf (\<lambda>last buf. rd_be 1 buf (\<lambda>raw buf.
     case acknowledge_try_from raw of
       Inl e \<Rightarrow> Inl e
     | Inr ty \<Rightarrow>
         (case read_acks n buf of
            Inl e \<Rightarrow> Inl e
          | Inr (as, buf) \<Rightarrow>
              Inr (\<lparr>ack_first = first, ack_last = last, ack_type = ty\<rparr> # as, buf)))))"

text \<open>A count, its check, and the partitions it announces; the budget is threaded through.\<close>

definition read_partitions :: "bytes \<Rightarrow> nat \<Rightarrow> WireError + (nat list \<times> bytes) \<times> nat" where
  "read_partitions buf budget =
     rd_room 4 buf (rd_be 4 buf (\<lambda>p_count buf.
     rd_count p_count buf 4 budget (\<lambda>budget.
     rd_room (p_count * 4) buf (Inr (read_u32s p_count buf, budget)))))"

primrec read_assignments :: "nat \<Rightarrow> bytes \<Rightarrow> nat \<Rightarrow> MemberAssignment list wire_read" where
  "read_assignments 0 buf budget = Inr ([], buf)"
| "read_assignments (Suc n) buf budget =
     rd_str buf (\<lambda>m buf. rd_str buf (\<lambda>t buf.
     case read_partitions buf budget of
       Inl e \<Rightarrow> Inl e
     | Inr ((ps, buf), budget) \<Rightarrow>
         (case read_assignments n buf budget of
            Inl e \<Rightarrow> Inl e
          | Inr (as, buf) \<Rightarrow>
              Inr (\<lparr>ma_member_id = m, ma_topic = t, ma_partitions = ps\<rparr> # as, buf))))"

primrec read_topics :: "nat \<Rightarrow> bytes \<Rightarrow> nat \<Rightarrow> (string \<times> nat list) list wire_read" where
  "read_topics 0 buf budget = Inr ([], buf)"
| "read_topics (Suc n) buf budget =
     rd_str buf (\<lambda>t buf.
     case read_partitions buf budget of
       Inl e \<Rightarrow> Inl e
     | Inr ((ps, buf), budget) \<Rightarrow>
         (case read_topics n buf budget of
            Inl e \<Rightarrow> Inl e
          | Inr (ts, buf) \<Rightarrow> Inr ((t, ps) # ts, buf)))"

section \<open>The bodies of the requests\<close>

type_synonym body_read = "WireError + RequestPayload"

definition decode_produce_batch :: "bytes \<Rightarrow> body_read" where
  "decode_produce_batch buf =
     rd_str buf (\<lambda>topic buf. rd_str buf (\<lambda>key buf. rd_str buf (\<lambda>transaction_id buf.
     rd_room 8 buf (rd_be 4 buf (\<lambda>num_partitions buf. rd_be 4 buf (\<lambda>batch_len buf.
     rd_room batch_len buf
       (Inr (RqProduceBatch topic key transaction_id num_partitions (take batch_len buf)))))))))"

definition decode_fetch :: "bytes \<Rightarrow> body_read" where
  "decode_fetch buf =
     rd_str buf (\<lambda>topic buf.
     rd_room 16 buf (rd_be 4 buf (\<lambda>p buf. rd_be 8 buf (\<lambda>offset buf. rd_be 4 buf (\<lambda>max_bytes _.
     Inr (RqFetch topic p offset max_bytes))))))"

definition decode_commit_offset :: "bytes \<Rightarrow> body_read" where
  "decode_commit_offset buf =
     rd_str buf (\<lambda>group_id buf. rd_str buf (\<lambda>topic buf.
     rd_room 12 buf (rd_be 4 buf (\<lambda>p buf. rd_be 8 buf (\<lambda>offset _.
     Inr (RqCommitOffset group_id topic p offset))))))"

definition decode_fetch_offset :: "bytes \<Rightarrow> body_read" where
  "decode_fetch_offset buf =
     rd_str buf (\<lambda>group_id buf. rd_str buf (\<lambda>topic buf.
     rd_room 4 buf (rd_be 4 buf (\<lambda>p _. Inr (RqFetchOffset group_id topic p)))))"

definition decode_seek :: "bytes \<Rightarrow> body_read" where
  "decode_seek buf =
     rd_str buf (\<lambda>topic buf.
     rd_room 12 buf (rd_be 4 buf (\<lambda>p buf. rd_be 8 buf (\<lambda>offset _.
     Inr (RqSeek topic p offset)))))"

definition decode_latest_offset :: "bytes \<Rightarrow> body_read" where
  "decode_latest_offset buf =
     rd_str buf (\<lambda>topic buf. rd_room 4 buf (rd_be 4 buf (\<lambda>p _. Inr (RqLatestOffset topic p))))"

definition decode_begin_tx :: "bytes \<Rightarrow> body_read" where
  "decode_begin_tx buf =
     rd_str buf (\<lambda>transaction_id buf.
     rd_room 8 buf (rd_be 8 buf (\<lambda>producer_id _. Inr (RqBeginTx transaction_id producer_id))))"

definition decode_commit_tx :: "bytes \<Rightarrow> body_read" where
  "decode_commit_tx buf = rd_str buf (\<lambda>transaction_id _. Inr (RqCommitTx transaction_id))"

definition decode_abort_tx :: "bytes \<Rightarrow> body_read" where
  "decode_abort_tx buf = rd_str buf (\<lambda>transaction_id _. Inr (RqAbortTx transaction_id))"

definition decode_fetch_by_timestamp :: "bytes \<Rightarrow> body_read" where
  "decode_fetch_by_timestamp buf =
     rd_str buf (\<lambda>topic buf.
     rd_room 16 buf (rd_be 4 buf (\<lambda>p buf. rd_be 8 buf (\<lambda>target buf. rd_be 4 buf (\<lambda>max_bytes _.
     Inr (RqFetchByTimestamp topic p target max_bytes))))))"

definition decode_fetch_committed :: "bytes \<Rightarrow> body_read" where
  "decode_fetch_committed buf =
     rd_str buf (\<lambda>topic buf.
     rd_room 16 buf (rd_be 4 buf (\<lambda>p buf. rd_be 8 buf (\<lambda>offset buf. rd_be 4 buf (\<lambda>max_bytes _.
     Inr (RqFetchCommitted topic p offset max_bytes))))))"

definition decode_delete_topic :: "bytes \<Rightarrow> body_read" where
  "decode_delete_topic buf = rd_str buf (\<lambda>topic _. Inr (RqDeleteTopic topic))"

definition decode_join_group :: "bytes \<Rightarrow> body_read" where
  "decode_join_group buf =
     rd_str buf (\<lambda>group_id buf. rd_str buf (\<lambda>member_id buf.
     rd_room 4 buf (rd_be 4 buf (\<lambda>proto_count buf.
     rd_count proto_count buf 2 MAX_DECODED_COLLECTION_ITEMS (\<lambda>_.
     case read_strings proto_count buf of
       Inl e \<Rightarrow> Inl e
     | Inr (protocols, buf) \<Rightarrow>
         rd_trailing buf (\<lambda>instance_id _.
         Inr (RqJoinGroup group_id member_id protocols instance_id)))))))"

definition decode_sync_group :: "bytes \<Rightarrow> body_read" where
  "decode_sync_group buf =
     rd_str buf (\<lambda>group_id buf. rd_room 4 buf (rd_be 4 buf (\<lambda>generation_id buf.
     rd_str buf (\<lambda>member_id buf. rd_room 4 buf (rd_be 4 buf (\<lambda>assign_count buf.
     rd_count assign_count buf 8 MAX_DECODED_COLLECTION_ITEMS (\<lambda>budget.
     case read_assignments assign_count buf budget of
       Inl e \<Rightarrow> Inl e
     | Inr (assignments, _) \<Rightarrow> Inr (RqSyncGroup group_id generation_id member_id assignments))))))))"

definition decode_heartbeat :: "bytes \<Rightarrow> body_read" where
  "decode_heartbeat buf =
     rd_str buf (\<lambda>group_id buf. rd_room 4 buf (rd_be 4 buf (\<lambda>generation_id buf.
     rd_str buf (\<lambda>member_id _. Inr (RqHeartbeat group_id generation_id member_id)))))"

definition decode_leave_group :: "bytes \<Rightarrow> body_read" where
  "decode_leave_group buf =
     rd_str buf (\<lambda>group_id buf. rd_str buf (\<lambda>member_id buf.
     rd_trailing buf (\<lambda>instance_id _. Inr (RqLeaveGroup group_id member_id instance_id))))"

definition decode_create_topic :: "bytes \<Rightarrow> body_read" where
  "decode_create_topic buf =
     rd_str buf (\<lambda>topic buf. rd_room 4 buf (rd_be 4 buf (\<lambda>n _. Inr (RqCreateTopic topic n))))"

definition decode_describe_topic :: "bytes \<Rightarrow> body_read" where
  "decode_describe_topic buf = rd_str buf (\<lambda>topic _. Inr (RqDescribeTopic topic))"

definition decode_describe_group :: "bytes \<Rightarrow> body_read" where
  "decode_describe_group buf = rd_str buf (\<lambda>group_id _. Inr (RqDescribeGroup group_id))"

definition decode_init_producer_id :: "bytes \<Rightarrow> body_read" where
  "decode_init_producer_id buf = rd_str buf (\<lambda>tid _. Inr (RqInitProducerId tid))"

definition decode_add_partitions_to_txn :: "bytes \<Rightarrow> body_read" where
  "decode_add_partitions_to_txn buf =
     rd_str buf (\<lambda>tid buf.
     rd_room 10 buf (rd_be 8 buf (\<lambda>producer_id buf. rd_be 2 buf (\<lambda>epoch buf.
     rd_room 4 buf (rd_be 4 buf (\<lambda>topic_count buf.
     rd_count topic_count buf 6 MAX_DECODED_COLLECTION_ITEMS (\<lambda>budget.
     case read_topics topic_count buf budget of
       Inl e \<Rightarrow> Inl e
     | Inr (topics, _) \<Rightarrow> Inr (RqAddPartitionsToTxn tid producer_id (i16_of epoch) topics))))))))"

definition decode_end_txn :: "bytes \<Rightarrow> body_read" where
  "decode_end_txn buf =
     rd_str buf (\<lambda>tid buf.
     rd_room 11 buf (rd_be 8 buf (\<lambda>producer_id buf. rd_be 2 buf (\<lambda>epoch buf.
     rd_be 1 buf (\<lambda>committed _.
     Inr (RqEndTxn tid producer_id (i16_of epoch) (committed \<noteq> 0)))))))"

definition decode_offset_commit :: "bytes \<Rightarrow> body_read" where
  "decode_offset_commit buf =
     rd_str buf (\<lambda>group_id buf. rd_str buf (\<lambda>topic buf.
     rd_room 12 buf (rd_be 4 buf (\<lambda>p buf. rd_be 8 buf (\<lambda>offset buf.
     if buf \<noteq> [] then rd_str buf (\<lambda>metadata _. Inr (RqOffsetCommit group_id topic p offset metadata))
     else Inr (RqOffsetCommit group_id topic p offset []))))))"

definition decode_offset_fetch :: "bytes \<Rightarrow> body_read" where
  "decode_offset_fetch buf =
     rd_str buf (\<lambda>group_id buf. rd_str buf (\<lambda>topic buf.
     rd_room 4 buf (rd_be 4 buf (\<lambda>p _. Inr (RqOffsetFetch group_id topic p)))))"

definition decode_sasl_handshake :: "bytes \<Rightarrow> body_read" where
  "decode_sasl_handshake buf = rd_str buf (\<lambda>mechanism _. Inr (RqSaslHandshake mechanism))"

definition decode_sasl_authenticate :: "bytes \<Rightarrow> body_read" where
  "decode_sasl_authenticate buf = Inr (RqSaslAuthenticate buf)"

text \<open>The three requests on access rules read the same fields.\<close>

definition read_acl_fields :: "(acl_fields \<Rightarrow> RequestPayload) \<Rightarrow> bytes \<Rightarrow> body_read" where
  "read_acl_fields mk buf =
     rd_room 1 buf (rd_be 1 buf (\<lambda>resource_type buf. rd_str buf (\<lambda>resource_name buf.
     rd_room 1 buf (rd_be 1 buf (\<lambda>pattern_type buf. rd_str buf (\<lambda>prin buf. rd_str buf (\<lambda>host buf.
     rd_room 2 buf (rd_be 1 buf (\<lambda>operation buf. rd_be 1 buf (\<lambda>permission_type _.
     Inr (mk \<lparr>af_resource_type = of_nat resource_type, af_resource_name = resource_name,
              af_pattern_type = of_nat pattern_type, af_principal = prin, af_host = host,
              af_operation = of_nat operation,
              af_permission_type = of_nat permission_type\<rparr>)))))))))))"

definition decode_describe_acls :: "bytes \<Rightarrow> body_read" where
  "decode_describe_acls = read_acl_fields RqDescribeAcls"

definition decode_create_acls :: "bytes \<Rightarrow> body_read" where
  "decode_create_acls = read_acl_fields RqCreateAcls"

definition decode_delete_acls :: "bytes \<Rightarrow> body_read" where
  "decode_delete_acls = read_acl_fields RqDeleteAcls"

definition decode_register_broker :: "bytes \<Rightarrow> body_read" where
  "decode_register_broker buf =
     rd_room 4 buf (rd_be 4 buf (\<lambda>node_id buf.
     rd_str buf (\<lambda>endpoint _. Inr (RqRegisterBroker node_id endpoint))))"

definition decode_unregister_broker :: "bytes \<Rightarrow> body_read" where
  "decode_unregister_broker buf =
     rd_room 4 buf (rd_be 4 buf (\<lambda>node_id _. Inr (RqUnregisterBroker node_id)))"

definition decode_set_client_id :: "bytes \<Rightarrow> body_read" where
  "decode_set_client_id buf = rd_str buf (\<lambda>client_id _. Inr (RqSetClientId client_id))"

definition decode_upsert_scram_user :: "bytes \<Rightarrow> body_read" where
  "decode_upsert_scram_user buf =
     rd_str buf (\<lambda>username buf. rd_room 4 buf (rd_be 4 buf (\<lambda>iterations buf.
     rd_bytes buf (\<lambda>salt buf. rd_bytes buf (\<lambda>stored_key buf. rd_bytes buf (\<lambda>server_key _.
     Inr (RqUpsertScramUser username iterations salt stored_key server_key)))))))"

definition decode_delete_scram_user :: "bytes \<Rightarrow> body_read" where
  "decode_delete_scram_user buf = rd_str buf (\<lambda>username _. Inr (RqDeleteScramUser username))"

definition decode_share_fetch :: "bytes \<Rightarrow> body_read" where
  "decode_share_fetch buf =
     rd_str buf (\<lambda>group_id buf. rd_str buf (\<lambda>member_id buf. rd_str buf (\<lambda>topic buf.
     rd_room 16 buf (rd_be 4 buf (\<lambda>p buf. rd_be 4 buf (\<lambda>max_records buf.
     rd_be 4 buf (\<lambda>max_bytes buf. rd_be 4 buf (\<lambda>lock_timeout_ms buf.
     rd_room 4 buf (rd_be 4 buf (\<lambda>ack_count buf.
     rd_count ack_count buf 17 MAX_DECODED_COLLECTION_ITEMS (\<lambda>_.
     rd_room (ack_count * 17) buf
       (case read_acks ack_count buf of
          Inl e \<Rightarrow> Inl e
        | Inr (acks, _) \<Rightarrow> Inr (RqShareFetch group_id member_id topic p max_records max_bytes
                                   lock_timeout_ms acks)))))))))))))"

definition decode_share_acknowledge :: "bytes \<Rightarrow> body_read" where
  "decode_share_acknowledge buf =
     rd_str buf (\<lambda>group_id buf. rd_str buf (\<lambda>member_id buf. rd_str buf (\<lambda>topic buf.
     rd_room 8 buf (rd_be 4 buf (\<lambda>p buf. rd_be 4 buf (\<lambda>ack_count buf.
     rd_count ack_count buf 17 MAX_DECODED_COLLECTION_ITEMS (\<lambda>_.
     rd_room (ack_count * 17) buf
       (case read_acks ack_count buf of
          Inl e \<Rightarrow> Inl e
        | Inr (acks, _) \<Rightarrow> Inr (RqShareAcknowledge group_id member_id topic p acks)))))))))"

definition decode_share_group_heartbeat :: "bytes \<Rightarrow> body_read" where
  "decode_share_group_heartbeat buf =
     rd_str buf (\<lambda>group_id buf. rd_str buf (\<lambda>member_id _.
     Inr (RqShareGroupHeartbeat group_id member_id)))"

definition decode_share_group_describe :: "bytes \<Rightarrow> body_read" where
  "decode_share_group_describe buf = rd_str buf (\<lambda>group_id _. Inr (RqShareGroupDescribe group_id))"

definition decode_describe_configs :: "bytes \<Rightarrow> body_read" where
  "decode_describe_configs buf = rd_str buf (\<lambda>topic _. Inr (RqDescribeConfigs topic))"

definition decode_alter_configs :: "bytes \<Rightarrow> body_read" where
  "decode_alter_configs buf =
     rd_str buf (\<lambda>topic buf. rd_room 4 buf (rd_be 4 buf (\<lambda>count buf.
     rd_count count buf 4 MAX_DECODED_COLLECTION_ITEMS (\<lambda>_.
     case read_pairs count buf of
       Inl e \<Rightarrow> Inl e
     | Inr (configs, _) \<Rightarrow> Inr (RqAlterConfigs topic configs)))))"

definition decode_incremental_alter_configs :: "bytes \<Rightarrow> body_read" where
  "decode_incremental_alter_configs buf =
     rd_str buf (\<lambda>topic buf. rd_room 4 buf (rd_be 4 buf (\<lambda>upsert_count buf.
     rd_count upsert_count buf 4 MAX_DECODED_COLLECTION_ITEMS (\<lambda>budget.
     case read_pairs upsert_count buf of
       Inl e \<Rightarrow> Inl e
     | Inr (upserts, buf) \<Rightarrow>
         rd_room 4 buf (rd_be 4 buf (\<lambda>delete_count buf.
         rd_count delete_count buf 2 budget (\<lambda>_.
         case read_strings delete_count buf of
           Inl e \<Rightarrow> Inl e
         | Inr (deletes, _) \<Rightarrow> Inr (RqIncrementalAlterConfigs topic upserts deletes))))))))"

definition decode_body :: "CommandCode \<Rightarrow> bytes \<Rightarrow> body_read" where
  "decode_body cmd buf =
     (case cmd of
        CmdProduceBatch \<Rightarrow> decode_produce_batch buf
      | CmdFetch \<Rightarrow> decode_fetch buf
      | CmdCommitOffset \<Rightarrow> decode_commit_offset buf
      | CmdFetchOffset \<Rightarrow> decode_fetch_offset buf
      | CmdSeek \<Rightarrow> decode_seek buf
      | CmdLatestOffset \<Rightarrow> decode_latest_offset buf
      | CmdBeginTx \<Rightarrow> decode_begin_tx buf
      | CmdCommitTx \<Rightarrow> decode_commit_tx buf
      | CmdAbortTx \<Rightarrow> decode_abort_tx buf
      | CmdFetchByTimestamp \<Rightarrow> decode_fetch_by_timestamp buf
      | CmdFetchCommitted \<Rightarrow> decode_fetch_committed buf
      | CmdPing \<Rightarrow> Inr RqPing
      | CmdNegotiateProtocol \<Rightarrow> Inr RqNegotiateProtocol
      | CmdListTopics \<Rightarrow> Inr RqListTopics
      | CmdDescribeCluster \<Rightarrow> Inr RqDescribeCluster
      | CmdDeleteTopic \<Rightarrow> decode_delete_topic buf
      | CmdJoinGroup \<Rightarrow> decode_join_group buf
      | CmdSyncGroup \<Rightarrow> decode_sync_group buf
      | CmdHeartbeat \<Rightarrow> decode_heartbeat buf
      | CmdLeaveGroup \<Rightarrow> decode_leave_group buf
      | CmdCreateTopic \<Rightarrow> decode_create_topic buf
      | CmdDescribeTopic \<Rightarrow> decode_describe_topic buf
      | CmdListGroups \<Rightarrow> Inr RqListGroups
      | CmdDescribeGroup \<Rightarrow> decode_describe_group buf
      | CmdInitProducerId \<Rightarrow> decode_init_producer_id buf
      | CmdAddPartitionsToTxn \<Rightarrow> decode_add_partitions_to_txn buf
      | CmdEndTxn \<Rightarrow> decode_end_txn buf
      | CmdOffsetCommit \<Rightarrow> decode_offset_commit buf
      | CmdOffsetFetch \<Rightarrow> decode_offset_fetch buf
      | CmdSaslHandshake \<Rightarrow> decode_sasl_handshake buf
      | CmdSaslAuthenticate \<Rightarrow> decode_sasl_authenticate buf
      | CmdDescribeAcls \<Rightarrow> decode_describe_acls buf
      | CmdCreateAcls \<Rightarrow> decode_create_acls buf
      | CmdDeleteAcls \<Rightarrow> decode_delete_acls buf
      | CmdRegisterBroker \<Rightarrow> decode_register_broker buf
      | CmdUnregisterBroker \<Rightarrow> decode_unregister_broker buf
      | CmdSetClientId \<Rightarrow> decode_set_client_id buf
      | CmdUpsertScramUser \<Rightarrow> decode_upsert_scram_user buf
      | CmdDeleteScramUser \<Rightarrow> decode_delete_scram_user buf
      | CmdShareFetch \<Rightarrow> decode_share_fetch buf
      | CmdShareAcknowledge \<Rightarrow> decode_share_acknowledge buf
      | CmdShareGroupHeartbeat \<Rightarrow> decode_share_group_heartbeat buf
      | CmdShareGroupDescribe \<Rightarrow> decode_share_group_describe buf
      | CmdDescribeConfigs \<Rightarrow> decode_describe_configs buf
      | CmdAlterConfigs \<Rightarrow> decode_alter_configs buf
      | CmdIncrementalAlterConfigs \<Rightarrow> decode_incremental_alter_configs buf)"

section \<open>The envelope\<close>

text \<open>
  One tagged field. A recognised tag whose value is too short is skipped like an unknown
  one; a group member whose strings do not decode is skipped as well.
\<close>

definition read_group_member :: "bytes \<Rightarrow> RequestTags \<Rightarrow> RequestTags" where
  "read_group_member val tags =
     (case read_pascal_string val of
        Inl _ \<Rightarrow> tags
      | Inr (group_id, val) \<Rightarrow>
          (case read_pascal_string val of
             Inl _ \<Rightarrow> tags
           | Inr (member_id, _) \<Rightarrow> tags\<lparr>group_member := Some (group_id, member_id)\<rparr>))"

definition apply_tag :: "nat \<Rightarrow> bytes \<Rightarrow> RequestTags \<Rightarrow> RequestTags" where
  "apply_tag tag val tags =
     (if tag = ISOLATION_LEVEL \<and> 1 \<le> length val
      then tags\<lparr>isolation_level := Some (isolation_from_byte (val ! 0))\<rparr>
      else if tag = FORWARDED then tags\<lparr>forwarded := True\<rparr>
      else if tag = SESSION_TIMEOUT_MS \<and> 4 \<le> length val
      then tags\<lparr>session_timeout_ms := Some (be_val (take 4 val))\<rparr>
      else if tag = COOPERATIVE_ROUND_TWO then tags\<lparr>cooperative_round_two := True\<rparr>
      else if tag = MAX_WAIT_MS \<and> 4 \<le> length val
      then tags\<lparr>max_wait_ms := Some (be_val (take 4 val))\<rparr>
      else if tag = MIN_BYTES \<and> 4 \<le> length val
      then tags\<lparr>min_bytes := Some (be_val (take 4 val))\<rparr>
      else if tag = GROUP_MEMBER then read_group_member val tags
      else tags)"

text \<open>The tags that the forwarding path recognises: four of the seven.\<close>

definition apply_forward_tag :: "nat \<Rightarrow> bytes \<Rightarrow> RequestTags \<Rightarrow> RequestTags" where
  "apply_forward_tag tag val tags =
     (if tag = ISOLATION_LEVEL \<and> 1 \<le> length val
      then tags\<lparr>isolation_level := Some (isolation_from_byte (val ! 0))\<rparr>
      else if tag = FORWARDED then tags\<lparr>forwarded := True\<rparr>
      else if tag = SESSION_TIMEOUT_MS \<and> 4 \<le> length val
      then tags\<lparr>session_timeout_ms := Some (be_val (take 4 val))\<rparr>
      else if tag = GROUP_MEMBER then read_group_member val tags
      else tags)"

primrec read_tags ::
  "(nat \<Rightarrow> bytes \<Rightarrow> RequestTags \<Rightarrow> RequestTags) \<Rightarrow> nat \<Rightarrow> bytes \<Rightarrow> RequestTags \<Rightarrow> RequestTags wire_read"
where
  "read_tags app 0 src tags = Inr (tags, src)"
| "read_tags app (Suc n) src tags =
     rd_room 3 src (rd_be 1 src (\<lambda>tag src. rd_be 2 src (\<lambda>len src.
     rd_room len src (read_tags app n (drop len src) (app tag (take len src) tags)))))"

definition decode_envelope :: "bytes \<Rightarrow> RequestFraming wire_read" where
  "decode_envelope src =
     (if src ! 0 = VERSIONED_ENVELOPE_MAGIC then
        rd_room 8 src
          (rd_be 1 src (\<lambda>_ src. rd_be 2 src (\<lambda>api_version src. rd_be 4 src (\<lambda>corr src.
           if \<not> (PROTOCOL_VERSION_MIN \<le> api_version \<and> api_version \<le> PROTOCOL_VERSION_MAX)
           then Inl (UnsupportedVersion api_version PROTOCOL_VERSION_MIN PROTOCOL_VERSION_MAX)
           else rd_be 1 src (\<lambda>tagged_count src.
             case read_tags apply_tag tagged_count src default_tags of
               Inl e \<Rightarrow> Inl e
             | Inr (tags, src) \<Rightarrow> Inr (Versioned api_version corr tags, src))))))
      else Inr (Legacy, src))"

text \<open>
  A command with its body, and a whole request. The number of consumed bytes is measured on
  the original buffer, so that it includes the envelope.
\<close>

definition decode_command :: "bytes \<Rightarrow> WireRequest wire_read" where
  "decode_command src =
     rd_room 5 src (rd_be 1 src (\<lambda>raw_cmd src.
     case command_try_from (of_nat raw_cmd) of
       Inl e \<Rightarrow> Inl e
     | Inr cmd \<Rightarrow>
         rd_be 4 src (\<lambda>payload_len src.
         if MAX_REQUEST_PAYLOAD_BYTES < payload_len then Inl InvalidProtocol
         else rd_room payload_len src
           (case decode_body cmd (take payload_len src) of
              Inl e \<Rightarrow> Inl e
            | Inr payload \<Rightarrow>
                Inr (\<lparr>rq_cmd = cmd, rq_payload = payload\<rparr>, drop payload_len src)))))"

definition decode_framed :: "bytes \<Rightarrow> WireError + WireRequest \<times> RequestFraming \<times> nat" where
  "decode_framed src0 =
     (if src0 = [] then Inl (Incomplete 1 0)
      else case decode_envelope src0 of
        Inl e \<Rightarrow> Inl e
      | Inr (framing, src) \<Rightarrow>
          (case decode_command src of
             Inl e \<Rightarrow> Inl e
           | Inr (req, rest) \<Rightarrow> Inr (req, framing, length src0 - length rest)))"

section \<open>Forwarding\<close>

definition strip_envelope :: "bytes \<Rightarrow> WireError + bytes \<times> RequestTags" where
  "strip_envelope src =
     (if src = [] \<or> src ! 0 \<noteq> VERSIONED_ENVELOPE_MAGIC then Inr (src, default_tags)
      else
        rd_room 8 src
          (rd_be 1 src (\<lambda>_ cur. rd_be 2 cur (\<lambda>_ cur. rd_be 4 cur (\<lambda>_ cur.
           rd_be 1 cur (\<lambda>tagged_count cur.
           case read_tags apply_forward_tag tagged_count cur default_tags of
             Inl e \<Rightarrow> Inl e
           | Inr (tags, cur) \<Rightarrow> Inr (drop (length src - length cur) src, tags)))))))"

definition tag_field :: "nat \<Rightarrow> bytes \<Rightarrow> bytes" where
  "tag_field tag val = be_bytes 1 tag @ be_bytes 2 (length val) @ val"

text \<open>The section of tags that the relaying broker writes, field by field; \<open>None\<close> is the panic
  of a string too long for its length field.\<close>

definition forward_tags :: "RequestTags \<Rightarrow> (nat \<times> bytes) list option" where
  "forward_tags tags =
     (let fixed =
        [(FORWARDED, [])]
        @ (case isolation_level tags of None \<Rightarrow> []
           | Some l \<Rightarrow> [(ISOLATION_LEVEL, [isolation_to_byte l])])
        @ (case session_timeout_ms tags of None \<Rightarrow> []
           | Some v \<Rightarrow> [(SESSION_TIMEOUT_MS, be_bytes 4 v)])
        @ (case max_wait_ms tags of None \<Rightarrow> []
           | Some v \<Rightarrow> [(MAX_WAIT_MS, be_bytes 4 v)])
        @ (case min_bytes tags of None \<Rightarrow> []
           | Some v \<Rightarrow> [(MIN_BYTES, be_bytes 4 v)])
        @ (if cooperative_round_two tags then [(COOPERATIVE_ROUND_TWO, [])] else [])
      in case group_member tags of
           None \<Rightarrow> Some fixed
         | Some (group_id, member_id) \<Rightarrow>
             (case (write_pascal_string group_id, write_pascal_string member_id) of
                (Some g, Some m) \<Rightarrow> Some (fixed @ [(GROUP_MEMBER, g @ m)])
              | _ \<Rightarrow> None))"

definition tag_section :: "(nat \<times> bytes) list \<Rightarrow> bytes" where
  "tag_section ts = concat (map (\<lambda>(tag, val). tag_field tag val) ts)"

definition wrap_forwarded_request :: "bytes \<Rightarrow> (WireError + bytes) option" where
  "wrap_forwarded_request raw =
     (case strip_envelope raw of
        Inl e \<Rightarrow> Some (Inl e)
      | Inr (inner, tags) \<Rightarrow>
          (case forward_tags tags of
             None \<Rightarrow> None
           | Some sect \<Rightarrow>
               Some (Inr ([VERSIONED_ENVELOPE_MAGIC] @ be_bytes 2 PROTOCOL_VERSION_MAX
                 @ be_bytes 4 0 @ be_bytes 1 (length sect) @ tag_section sect @ inner))))"

definition relay_response :: "bytes \<Rightarrow> RequestFraming \<Rightarrow> bytes" where
  "relay_response leader_response client_framing =
     (let inner = (if leader_response \<noteq> [] \<and> leader_response ! 0 = VERSIONED_ENVELOPE_MAGIC
                      \<and> 5 \<le> length leader_response
                   then drop 5 leader_response else leader_response)
      in case client_framing of
           Legacy \<Rightarrow> inner
         | Versioned _ corr _ \<Rightarrow> [VERSIONED_ENVELOPE_MAGIC] @ be_bytes 4 corr @ inner)"

section \<open>Commands\<close>

lemma command_try_from_byte [simp]: "command_try_from (command_byte c) = Inr c"
  by (cases c) (simp_all add: command_try_from_def command_byte_def command_table_def)

lemma command_byte_not_magic [simp]: "command_byte c \<noteq> VERSIONED_ENVELOPE_MAGIC"
  by (cases c) (simp_all add: VERSIONED_ENVELOPE_MAGIC_def command_byte_def command_table_def)

lemma acknowledge_try_from_cases:
  "acknowledge_try_from v = Inr a \<Longrightarrow> v \<in> {1, 2, 3, 4, 5}"
  by (auto simp: acknowledge_try_from_def split: if_splits)

section \<open>Requests on a connection\<close>

text \<open>
  What the connection loop of \<^verbatim>\<open>src/server/handler.rs\<close> makes of a decoding: \<open>Incomplete\<close> waits for
  more input, another error closes the connection, a request is served and its bytes are
  consumed.
\<close>

definition verdict :: "'a wire_read \<Rightarrow> 'a parse_step" where
  "verdict d =
     (case d of
        Inl (Incomplete _ _) \<Rightarrow> Need
      | Inl _ \<Rightarrow> Bad
      | Inr (v, rest) \<Rightarrow> Got v rest)"

definition parse_request :: "bytes \<Rightarrow> (WireRequest \<times> RequestFraming) parse_step" where
  "parse_request buf =
     (case decode_framed buf of
        Inl (Incomplete _ _) \<Rightarrow> Need
      | Inl _ \<Rightarrow> Bad
      | Inr (req, framing, n) \<Rightarrow> Got (req, framing) (drop n buf))"

lemma verdict_simps [simp]:
  "verdict (Inl (Incomplete a b)) = Need"
  "verdict (Inl InvalidProtocol) = Bad"
  "verdict (Inl (UnknownCommand c)) = Bad"
  "verdict (Inl (UnsupportedVersion v lo hi)) = Bad"
  "verdict (Inr (x, rest)) = Got x rest"
  by (simp_all add: verdict_def)

definition need_take :: "nat \<Rightarrow> bytes \<Rightarrow> bytes parse_step" where
  "need_take n buf = (if length buf < n then Need else Got (take n buf) (drop n buf))"

lemma stable_need_take [stable_intros]: "stable (need_take n)"
  by (rule stableI) (auto simp: need_take_def split: if_splits)

lemma stable_Need [stable_intros]: "stable (\<lambda>_. Need)"
  by (rule stableI) auto

lemma stable_sum [stable_intros]:
  "\<lbrakk>\<And>e. stable (f e); \<And>x. stable (g x)\<rbrakk> \<Longrightarrow> stable (\<lambda>xs. case d of Inl e \<Rightarrow> f e xs | Inr x \<Rightarrow> g x xs)"
  by (cases d) simp_all

lemma stable_verdict_Inl [stable_intros]: "stable (\<lambda>_. verdict (Inl e))"
  by (cases e) (simp_all add: stable_Need stable_Bad)

lemma length_ge_Suc: "Suc n \<le> length xs \<longleftrightarrow> (\<exists>x ys. xs = x # ys \<and> n \<le> length ys)"
  by (cases xs) auto

lemma verdict_read_tags:
  "verdict (read_tags app (Suc n) src tags) =
     pbind (require 3 src) (\<lambda>_ src. pbind (need_be 1 src) (\<lambda>tag src. pbind (need_be 2 src) (\<lambda>len src.
     pbind (need_take len src) (\<lambda>val src. verdict (read_tags app n src (app tag val tags))))))"
proof (cases "length src < 3")
  case False
  then obtain a b c ys where "src = a # b # c # ys"
    by (auto simp: not_less numeral_3_eq_3 length_ge_Suc)
  then show ?thesis
    by (simp add: rd_room_def rd_be_def take_be_def pbind_def require_def need_be_def need_take_def)
qed (simp add: rd_room_def require_def pbind_def)

lemma stable_read_tags: "stable (\<lambda>src. verdict (read_tags app n src tags))"
proof (induction n arbitrary: tags)
  case 0
  then show ?case by (simp add: stable_Got)
next
  case (Suc n)
  show ?case unfolding verdict_read_tags by (intro stable_intros Suc.IH)
qed

lemma verdict_decode_command:
  "verdict (decode_command src) =
     pbind (require 5 src) (\<lambda>_ src. pbind (need_be 1 src) (\<lambda>raw_cmd src.
     case command_try_from (of_nat raw_cmd) of
       Inl e \<Rightarrow> verdict (Inl e)
     | Inr cmd \<Rightarrow>
         pbind (need_be 4 src) (\<lambda>payload_len src.
         if MAX_REQUEST_PAYLOAD_BYTES < payload_len then Bad
         else pbind (need_take payload_len src) (\<lambda>body src.
           case decode_body cmd body of
             Inl e \<Rightarrow> verdict (Inl e)
           | Inr payload \<Rightarrow> Got \<lparr>rq_cmd = cmd, rq_payload = payload\<rparr> src))))"
proof (cases "length src < 5")
  case False
  then obtain a b c d e ys where "src = a # b # c # d # e # ys"
    by (auto simp: not_less eval_nat_numeral length_ge_Suc)
  then show ?thesis
    by (simp add: decode_command_def rd_room_def rd_be_def take_be_def pbind_def require_def
        need_be_def need_take_def split: sum.split)
qed (simp add: decode_command_def rd_room_def require_def pbind_def)

lemma stable_decode_command: "stable (\<lambda>src. verdict (decode_command src))"
  unfolding verdict_decode_command by (intro stable_intros)

text \<open>The envelope is told apart by the first byte.\<close>

lemma verdict_decode_envelope:
  "verdict (decode_envelope (b # src)) =
     (if b = VERSIONED_ENVELOPE_MAGIC then
        pbind (require 7 src) (\<lambda>_ src. pbind (need_be 2 src) (\<lambda>api_version src.
        pbind (need_be 4 src) (\<lambda>corr src.
        if \<not> (PROTOCOL_VERSION_MIN \<le> api_version \<and> api_version \<le> PROTOCOL_VERSION_MAX) then Bad
        else pbind (need_be 1 src) (\<lambda>tagged_count src.
          pbind (verdict (read_tags apply_tag tagged_count src default_tags)) (\<lambda>tags src.
          Got (Versioned api_version corr tags) src)))))
      else Got Legacy (b # src))"
proof (cases "length src < 7")
  case False
  then obtain a1 a2 a3 a4 a5 a6 a7 ys where "src = a1 # a2 # a3 # a4 # a5 # a6 # a7 # ys"
    by (auto simp: not_less eval_nat_numeral length_ge_Suc)
  then show ?thesis
    by (simp add: decode_envelope_def rd_room_def rd_be_def take_be_def pbind_def require_def
        need_be_def verdict_def split: sum.split WireError.split)
qed (simp add: decode_envelope_def rd_room_def require_def pbind_def)

lemma stable_peek:
  "stable p \<Longrightarrow>
   stable (\<lambda>xs. case xs of [] \<Rightarrow> Need | b # src \<Rightarrow> if b = m then p src else Got l (b # src))"
  by (rule stableI)
     (auto simp: stableD Cons_eq_append_conv split: list.splits if_splits dest: stableD(3) [of p])

lemma stable_decode_envelope:
  "stable (\<lambda>xs. case xs of [] \<Rightarrow> Need | b # src \<Rightarrow> verdict (decode_envelope (b # src)))"
  unfolding verdict_decode_envelope by (intro stable_peek stable_intros stable_read_tags)

lemma parse_request_pbind:
  "parse_request xs =
     pbind (case xs of [] \<Rightarrow> Need | b # src \<Rightarrow> verdict (decode_envelope (b # src))) (\<lambda>f src.
     pbind (verdict (decode_command src)) (\<lambda>r rest. Got (r, f) rest))"
proof (cases xs)
  case (Cons b src)
  show ?thesis
  proof (cases "decode_envelope xs")
    case (Inr fs)
    obtain f s where fs: "fs = (f, s)" by (cases fs)
    then obtain pre1 where p1: "xs = pre1 @ s"
      using Inr Cons stableD(3) [OF stable_decode_envelope, of xs f s] by auto
    show ?thesis
    proof (cases "decode_command s")
      case (Inr rr)
      obtain r rest where rr: "rr = (r, rest)" by (cases rr)
      then obtain pre2 where "s = pre2 @ rest"
        using Inr stableD(3) [OF stable_decode_command, of s r rest] by auto
      then have "drop (length xs - length rest) xs = rest" using p1 by simp
      then show ?thesis
        using Cons \<open>decode_envelope xs = Inr fs\<close> fs Inr rr
        by (simp add: parse_request_def decode_framed_def pbind_def)
    next
      case (Inl e)
      then show ?thesis
        using Cons \<open>decode_envelope xs = Inr fs\<close> fs
        by (cases e) (simp_all add: parse_request_def decode_framed_def pbind_def)
    qed
  next
    case (Inl e)
    then show ?thesis
      using Cons by (cases e) (simp_all add: parse_request_def decode_framed_def pbind_def)
  qed
qed (simp add: parse_request_def decode_framed_def pbind_def)

lemma stable_parse_request: "stable parse_request"
  unfolding parse_request_pbind [abs_def]
  by (intro stable_bind stable_decode_envelope stable_decode_command stable_Got)

lemma decode_command_shorter:
  "decode_command src = Inr (r, rest) \<Longrightarrow> length rest + 5 \<le> length src"
  by (auto simp: decode_command_def rd_room_def rd_be_def take_be_def split: sum.splits if_splits)

lemma decode_framed_length:
  assumes "decode_framed xs = Inr (r, f, n)"
  shows "5 \<le> n" and "n \<le> length xs"
proof -
  obtain b ys src rest where d: "xs = b # ys" "decode_envelope xs = Inr (f, src)"
      "decode_command src = Inr (r, rest)" "n = length xs - length rest"
    using assms by (cases xs) (auto simp: decode_framed_def split: sum.splits)
  obtain pre where "xs = pre @ src"
    using d(1,2) stableD(3) [OF stable_decode_envelope, of xs f src] by auto
  then have "length src \<le> length xs" by simp
  then show "5 \<le> n" "n \<le> length xs" using decode_command_shorter [OF d(3)] d(4) by auto
qed

lemma parse_request_progress: "parse_request xs = Got r rest \<Longrightarrow> length rest < length xs"
  using decode_framed_length [of xs]
  by (fastforce simp: parse_request_def split: sum.splits WireError.splits)

interpretation request_stream: stream_parser parse_request
  by unfold_locales (auto intro: stable_parse_request parse_request_progress)

section \<open>Forwarding\<close>

lemmas tag_consts = ISOLATION_LEVEL_def FORWARDED_def SESSION_TIMEOUT_MS_def GROUP_MEMBER_def
  MAX_WAIT_MS_def MIN_BYTES_def COOPERATIVE_ROUND_TWO_def

text \<open>The fields that the forwarding path does not read.\<close>

definition forgotten :: "RequestTags \<Rightarrow> RequestTags" where
  "forgotten t = t\<lparr>max_wait_ms := None, min_bytes := None, cooperative_round_two := False\<rparr>"

lemma forgotten_upd:
  "(forgotten t)\<lparr>isolation_level := l\<rparr> = forgotten (t\<lparr>isolation_level := l\<rparr>)"
  "(forgotten t)\<lparr>forwarded := b\<rparr> = forgotten (t\<lparr>forwarded := b\<rparr>)"
  "(forgotten t)\<lparr>session_timeout_ms := v\<rparr> = forgotten (t\<lparr>session_timeout_ms := v\<rparr>)"
  "(forgotten t)\<lparr>group_member := gm\<rparr> = forgotten (t\<lparr>group_member := gm\<rparr>)"
  by (simp_all add: forgotten_def)

lemma forgotten_upd_lost:
  "forgotten (t\<lparr>max_wait_ms := v\<rparr>) = forgotten t"
  "forgotten (t\<lparr>min_bytes := v\<rparr>) = forgotten t"
  "forgotten (t\<lparr>cooperative_round_two := b\<rparr>) = forgotten t"
  by (simp_all add: forgotten_def)

lemma read_group_member_forgotten:
  "read_group_member val (forgotten t) = forgotten (read_group_member val t)"
  by (simp add: read_group_member_def forgotten_upd split: sum.split prod.split)

lemma apply_forward_tag_forgotten:
  "apply_forward_tag tag val (forgotten t) = forgotten (apply_tag tag val t)"
  by (simp add: apply_forward_tag_def apply_tag_def forgotten_upd forgotten_upd_lost
      read_group_member_forgotten tag_consts)

lemma read_tags_forgotten:
  "read_tags apply_forward_tag n src (forgotten t) =
     (case read_tags apply_tag n src t of Inl e \<Rightarrow> Inl e | Inr (t', rest) \<Rightarrow> Inr (forgotten t', rest))"
  by (induction n arbitrary: src t)
     (simp_all add: rd_room_def rd_be_def apply_forward_tag_forgotten split: prod.split)

lemma forgotten_default [simp]: "forgotten default_tags = default_tags"
  by (simp add: forgotten_def default_tags_def)

text \<open>What was read fits the widths of the fields it is written to again.\<close>

definition tags_ok :: "RequestTags \<Rightarrow> bool" where
  "tags_ok t \<longleftrightarrow>
     (\<forall>v. session_timeout_ms t = Some v \<longrightarrow> v < 4294967296) \<and>
     (\<forall>v. max_wait_ms t = Some v \<longrightarrow> v < 4294967296) \<and>
     (\<forall>v. min_bytes t = Some v \<longrightarrow> v < 4294967296) \<and>
     (\<forall>g m. group_member t = Some (g, m) \<longrightarrow>
        pascal_ok g \<and> pascal_ok m \<and> length g + length m + 4 < 65536)"

lemma tags_ok_default [simp]: "tags_ok default_tags"
  by (simp add: tags_ok_def default_tags_def)

lemma tags_ok_forgotten: "tags_ok t \<Longrightarrow> tags_ok (forgotten t)"
  by (simp add: tags_ok_def forgotten_def)

lemma be_val_take4: "4 \<le> length val \<Longrightarrow> be_val (take 4 val) < 4294967296"
  using be_val_less [of "take 4 val"] by simp

lemma tags_ok_group_member:
  assumes "tags_ok t" "length val < 65536"
  shows "tags_ok (read_group_member val t)"
proof (cases "read_pascal_string val")
  case (Inr gv)
  obtain g val1 where gv: "gv = (g, val1)" by (cases gv)
  show ?thesis
  proof (cases "read_pascal_string val1")
    case (Inr mv)
    obtain m val2 where mv: "mv = (m, val2)" by (cases mv)
    have "pascal_ok g \<and> val = pascal g @ val1" "pascal_ok m \<and> val1 = pascal m @ val2"
      using read_pascal_string_rest \<open>read_pascal_string val = Inr gv\<close> gv Inr mv by auto
    then show ?thesis
      using assms \<open>read_pascal_string val = Inr gv\<close> gv Inr mv
      by (auto simp: read_group_member_def tags_ok_def)
  qed (use assms Inr gv in \<open>simp add: read_group_member_def\<close>)
qed (use assms in \<open>simp add: read_group_member_def\<close>)

lemma tags_ok_apply_tag:
  assumes "tags_ok t" "length val < 65536"
  shows "tags_ok (apply_tag tag val t)"
  using tags_ok_group_member [OF assms] assms(1) be_val_take4 [of val]
  by (simp add: apply_tag_def) (simp add: tags_ok_def)

lemma tags_ok_read_tags:
  "\<lbrakk>read_tags apply_tag n src t = Inr (t', rest); tags_ok t\<rbrakk> \<Longrightarrow> tags_ok t'"
proof (induction n arbitrary: src t)
  case (Suc n)
  define len where "len = be_val (take 2 (drop 1 src))"
  have "len < 256 ^ length (take 2 (drop 1 src))" unfolding len_def by (rule be_val_less)
  also have "\<dots> \<le> 256 ^ 2" by (intro power_increasing) auto
  finally have len: "len < 65536" by simp
  let ?src = "drop 2 (drop 1 src)"
  have "read_tags apply_tag n (drop len ?src)
      (apply_tag (be_val (take 1 src)) (take len ?src) t) = Inr (t', rest)"
    using Suc.prems(1)
    by (simp add: rd_room_def rd_be_def take_be_def len_def split: if_splits)
  then show ?case
    by (rule Suc.IH) (use len Suc.prems(2) in \<open>auto intro: tags_ok_apply_tag\<close>)
qed simp

lemma read_tags_section:
  "\<forall>(tag, val)\<in>set ts. tag < 256 \<and> length val < 65536 \<Longrightarrow>
   read_tags app (length ts) (tag_section ts @ rest) t =
     Inr (fold (\<lambda>(tag, val). app tag val) ts t, rest)"
proof (induction ts arbitrary: t)
  case (Cons x ts)
  obtain tag val where x: "x = (tag, val)" by (cases x)
  have "tag < 256 ^ 1" "length val < 256 ^ 2" using Cons.prems x by auto
  then show ?case
    using Cons x
    by (simp add: tag_section_def tag_field_def rd_room_def rd_be_def take_be_append
        del: be_bytes.simps One_nat_def)
qed (simp add: tag_section_def)

subsection \<open>Readers on written fields\<close>

lemma rd_be_append [codec_simps]: "v < 256 ^ w \<Longrightarrow> rd_be w (be_bytes w v @ rest) k = k v rest"
  by (simp add: rd_be_def take_be_append)

lemma rd_be_end [codec_simps]: "v < 256 ^ w \<Longrightarrow> rd_be w (be_bytes w v) k = k v []"
  by (simp add: rd_be_def take_be_be_bytes)

lemma rd_be_Cons [codec_simps]: "rd_be 1 (b # rest) k = k (unat b) rest"
  by (simp add: rd_be_def take_be_def be_val_def)

lemma rd_room_ok [codec_simps]: "n \<le> length buf \<Longrightarrow> rd_room n buf k = k"
  by (simp add: rd_room_def)

lemma rd_str_append [codec_simps]: "pascal_ok s \<Longrightarrow> rd_str (pascal s @ rest) k = k s rest"
  by (simp add: rd_str_def read_pascal_string_append)

lemma rd_str_end [codec_simps]: "pascal_ok s \<Longrightarrow> rd_str (pascal s) k = k s []"
  using rd_str_append [of s "[]" k] by simp

subsection \<open>The relayed envelope\<close>

definition apply_tags :: "(nat \<times> bytes) list \<Rightarrow> RequestTags \<Rightarrow> RequestTags" where
  "apply_tags ts = fold (\<lambda>(tag, val). apply_tag tag val) ts"

lemma apply_tags_simps [simp]:
  "apply_tags [] t = t"
  "apply_tags ((tag, val) # ts) t = apply_tags ts (apply_tag tag val t)"
  "apply_tags (ts @ us) t = apply_tags us (apply_tags ts t)"
  by (simp_all add: apply_tags_def)

lemma isolation_from_to [simp]: "isolation_from_byte (isolation_to_byte l) = l"
  by (cases l) (simp_all add: isolation_from_byte_def)

lemma apply_tag_known:
  "apply_tag FORWARDED [] t = t\<lparr>forwarded := True\<rparr>"
  "apply_tag ISOLATION_LEVEL [isolation_to_byte l] t = t\<lparr>isolation_level := Some l\<rparr>"
  "v < 4294967296 \<Longrightarrow> apply_tag SESSION_TIMEOUT_MS (be_bytes 4 v) t = t\<lparr>session_timeout_ms := Some v\<rparr>"
  "v < 4294967296 \<Longrightarrow> apply_tag MAX_WAIT_MS (be_bytes 4 v) t = t\<lparr>max_wait_ms := Some v\<rparr>"
  "v < 4294967296 \<Longrightarrow> apply_tag MIN_BYTES (be_bytes 4 v) t = t\<lparr>min_bytes := Some v\<rparr>"
  "apply_tag COOPERATIVE_ROUND_TWO [] t = t\<lparr>cooperative_round_two := True\<rparr>"
  "\<lbrakk>pascal_ok g; pascal_ok m\<rbrakk> \<Longrightarrow>
   apply_tag GROUP_MEMBER (pascal g @ pascal m) t = t\<lparr>group_member := Some (g, m)\<rparr>"
  using read_pascal_string_append [of m "[]"]
  by (simp_all add: apply_tag_def tag_consts read_group_member_def read_pascal_string_append
      be_val_be_bytes_exact)

text \<open>The decoder reads back the tags that the relaying broker writes.\<close>

lemma forward_tags_ok:
  assumes "tags_ok t"
  obtains ts where "forward_tags t = Some ts"
    "\<forall>(tag, val)\<in>set ts. tag < 256 \<and> length val < 65536" "length ts < 256"
    "apply_tags ts default_tags = t\<lparr>forwarded := True\<rparr>"
proof -
  obtain il f st gm mw mb cr where t: "t = \<lparr>isolation_level = il, forwarded = f,
      session_timeout_ms = st, group_member = gm, max_wait_ms = mw, min_bytes = mb,
      cooperative_round_two = cr\<rparr>" by (cases t)
  define fixed where "fixed =
        [(FORWARDED, [])]
        @ (case il of None \<Rightarrow> [] | Some l \<Rightarrow> [(ISOLATION_LEVEL, [isolation_to_byte l])])
        @ (case st of None \<Rightarrow> [] | Some v \<Rightarrow> [(SESSION_TIMEOUT_MS, be_bytes 4 v)])
        @ (case mw of None \<Rightarrow> [] | Some v \<Rightarrow> [(MAX_WAIT_MS, be_bytes 4 v)])
        @ (case mb of None \<Rightarrow> [] | Some v \<Rightarrow> [(MIN_BYTES, be_bytes 4 v)])
        @ (if cr then [(COOPERATIVE_ROUND_TWO, [])] else [])"
  have ok: "\<forall>(tag, val)\<in>set fixed. tag < 256 \<and> length val < 65536" "length fixed < 255"
    unfolding fixed_def by (auto simp: tag_consts split: option.split)
  have ft: "forward_tags t = (case gm of None \<Rightarrow> Some fixed | Some (group_id, member_id) \<Rightarrow>
      (case (write_pascal_string group_id, write_pascal_string member_id) of
         (Some g, Some m) \<Rightarrow> Some (fixed @ [(GROUP_MEMBER, g @ m)])
       | _ \<Rightarrow> None))"
    by (simp only: forward_tags_def fixed_def t Let_def RequestTags.select_convs)
  have app: "apply_tags fixed default_tags = t\<lparr>forwarded := True, group_member := None\<rparr>"
    using assms unfolding fixed_def t tags_ok_def
    by (cases il; cases st; cases mw; cases mb; cases cr)
       (simp_all add: apply_tag_known default_tags_def)
  show ?thesis
  proof (cases gm)
    case None
    show ?thesis
      by (rule that [of fixed])
         (use None ok app ft in \<open>simp_all add: t\<close>)
  next
    case (Some p)
    obtain g m where p: "p = (g, m)" by (cases p)
    have gm: "pascal_ok g" "pascal_ok m" "length g + length m + 4 < 65536"
      using assms Some p by (auto simp: t tags_ok_def)
    show ?thesis
      by (rule that [of "fixed @ [(GROUP_MEMBER, pascal g @ pascal m)]"])
         (use Some p gm ok app ft in \<open>simp_all add: t write_pascal_string_ok apply_tag_known,
            simp_all add: tag_consts\<close>)
  qed
qed

lemma decode_envelope_written:
  assumes "\<forall>(tag, val)\<in>set ts. tag < 256 \<and> length val < 65536" "length ts < 256"
    "corr < 4294967296"
  shows "decode_envelope (VERSIONED_ENVELOPE_MAGIC # be_bytes 2 PROTOCOL_VERSION_MAX
      @ be_bytes 4 corr @ be_bytes 1 (length ts) @ tag_section ts @ rest) =
    Inr (Versioned PROTOCOL_VERSION_MAX corr (apply_tags ts default_tags), rest)"
  using assms read_tags_section [OF assms(1), of apply_tag rest default_tags]
  by (simp add: decode_envelope_def codec_simps PROTOCOL_VERSION_MAX_def PROTOCOL_VERSION_MIN_def
      apply_tags_def del: be_bytes.simps One_nat_def)

lemma decode_envelope_tags_ok:
  "\<lbrakk>src \<noteq> []; decode_envelope src = Inr (f, rest)\<rbrakk> \<Longrightarrow> tags_ok (framing_tags f)"
  using tags_ok_read_tags
  by (fastforce simp: decode_envelope_def rd_room_def rd_be_def split: if_splits sum.splits prod.splits)

lemma strip_envelope_decoded:
  assumes "src \<noteq> []" "decode_envelope src = Inr (f, rest)"
  shows "strip_envelope src = Inr (rest, forgotten (framing_tags f))"
proof -
  obtain b xs where "src = b # xs" using assms(1) by (cases src) auto
  then obtain pre where pre: "src = pre @ rest"
    using assms(2) stableD(3) [OF stable_decode_envelope, of src f rest] by auto
  have dr: "drop (length src - length rest) src = rest" unfolding pre by simp
  show ?thesis
    using assms dr read_tags_forgotten [of _ _ default_tags]
    by (auto simp: strip_envelope_def decode_envelope_def rd_room_def rd_be_def
        split: if_splits sum.splits prod.splits)
qed

text \<open>What a forwarded request looks like to the broker it is relayed to.\<close>

lemma forwarded_request_tags:
  assumes "decode_framed raw = Inr (req, framing, n)"
  shows "\<exists>out. wrap_forwarded_request raw = Some (Inr out) \<and>
    decode_framed out = Inr (req,
      Versioned PROTOCOL_VERSION_MAX 0 ((framing_tags framing)\<lparr>forwarded := True,
        max_wait_ms := None, min_bytes := None, cooperative_round_two := False\<rparr>),
      length out - (length raw - n))"
proof -
  obtain src rest where d: "raw \<noteq> []" "decode_envelope raw = Inr (framing, src)"
      "decode_command src = Inr (req, rest)" "n = length raw - length rest"
    using assms by (auto simp: decode_framed_def split: if_splits sum.splits)
  obtain b ys where "raw = b # ys" using d(1) by (cases raw) auto
  then obtain pre where "raw = pre @ src"
    using d(2) stableD(3) [OF stable_decode_envelope, of raw framing src] by auto
  then have n: "length raw - n = length rest" using decode_command_shorter [OF d(3)] d(4) by auto
  have ok: "tags_ok (forgotten (framing_tags framing))"
    by (rule tags_ok_forgotten, rule decode_envelope_tags_ok, rule d(1), rule d(2))
  from forward_tags_ok [OF ok] obtain ts where ts: "forward_tags (forgotten (framing_tags framing)) = Some ts"
    "\<forall>(tag, val)\<in>set ts. tag < 256 \<and> length val < 65536" "length ts < 256"
    "apply_tags ts default_tags = (forgotten (framing_tags framing))\<lparr>forwarded := True\<rparr>" .
  define out where "out = VERSIONED_ENVELOPE_MAGIC # be_bytes 2 PROTOCOL_VERSION_MAX
      @ be_bytes 4 0 @ be_bytes 1 (length ts) @ tag_section ts @ src"
  have w: "wrap_forwarded_request raw = Some (Inr out)"
    using strip_envelope_decoded [OF d(1,2)] ts(1) by (simp add: wrap_forwarded_request_def out_def)
  have "decode_envelope out = Inr (Versioned PROTOCOL_VERSION_MAX 0
      ((forgotten (framing_tags framing))\<lparr>forwarded := True\<rparr>), src)"
    unfolding out_def using decode_envelope_written [OF ts(2,3), of 0 src] ts(4) by simp
  moreover have "out \<noteq> []" by (simp add: out_def)
  ultimately have "decode_framed out = Inr (req, Versioned PROTOCOL_VERSION_MAX 0
      ((forgotten (framing_tags framing))\<lparr>forwarded := True\<rparr>), length out - length rest)"
    using d(3) by (simp add: decode_framed_def)
  with w n show ?thesis by (auto simp: forgotten_def)
qed

text \<open>C28 Forwarding keeps the request.
  A request that a broker can decode is rewrapped without error, the broker it is relayed to
  decodes the same request from the relayed bytes and consumes exactly them, and it sees the
  tags of the original (the isolation level, the session timeout and the group member) and the
  mark of a forwarded request, for every request that carries neither of the two tags of a
  waiting fetch nor the tag of the second round of a cooperative rebalance: these three are
  lost on the way (\<open>forwarding_forgets_tags\<close> below).\<close>

theorem forwarded_request_preserved:
  assumes "decode_framed raw = Inr (req, framing, n)"
    and "max_wait_ms (framing_tags framing) = None" "min_bytes (framing_tags framing) = None"
      "\<not> cooperative_round_two (framing_tags framing)"
  shows "\<exists>out. wrap_forwarded_request raw = Some (Inr out) \<and>
    decode_framed out = Inr (req,
      Versioned PROTOCOL_VERSION_MAX 0 ((framing_tags framing)\<lparr>forwarded := True\<rparr>),
      length out - (length raw - n))"
proof -
  have "(framing_tags framing)\<lparr>forwarded := True, max_wait_ms := None, min_bytes := None,
      cooperative_round_two := False\<rparr> = (framing_tags framing)\<lparr>forwarded := True\<rparr>"
    using assms(2-4) by simp
  with forwarded_request_tags [OF assms(1)] show ?thesis by simp
qed

definition demo_tags :: "(nat \<times> bytes) list" where
  "demo_tags = [(ISOLATION_LEVEL, [isolation_to_byte ReadCommitted]), (SESSION_TIMEOUT_MS, be_bytes 4 256)]"

definition demo_forwarded :: bytes where
  "demo_forwarded = VERSIONED_ENVELOPE_MAGIC # be_bytes 2 PROTOCOL_VERSION_MAX
      @ be_bytes 4 9 @ be_bytes 1 (length demo_tags) @ tag_section demo_tags
      @ command_byte CmdDeleteTopic # be_bytes 4 3 @ pascal ''t''"

lemma demo_tags_ok:
  "\<forall>(tag, val)\<in>set demo_tags. tag < 256 \<and> length val < 65536" "length demo_tags < 256"
  "apply_tags demo_tags default_tags =
     default_tags\<lparr>isolation_level := Some ReadCommitted, session_timeout_ms := Some 256\<rparr>"
  by (simp add: demo_tags_def tag_consts del: be_bytes.simps, simp add: demo_tags_def,
      simp add: demo_tags_def apply_tag_known del: be_bytes.simps isolation_to_byte.simps)

lemma demo_forwarded_decoded:
  "decode_framed demo_forwarded =
     Inr (\<lparr>rq_cmd = CmdDeleteTopic, rq_payload = RqDeleteTopic ''t''\<rparr>,
          Versioned 1 9 (default_tags\<lparr>isolation_level := Some ReadCommitted, session_timeout_ms := Some 256\<rparr>),
          length demo_forwarded)"
proof -
  have t: "pascal_ok ''t''" by (simp add: pascal_ok_def)
  have "decode_envelope demo_forwarded = Inr (Versioned 1 9
      (default_tags\<lparr>isolation_level := Some ReadCommitted, session_timeout_ms := Some 256\<rparr>),
      command_byte CmdDeleteTopic # be_bytes 4 3 @ pascal ''t'')"
    using decode_envelope_written [OF demo_tags_ok(1,2), of 9] demo_tags_ok(3)
    unfolding demo_forwarded_def by (simp add: PROTOCOL_VERSION_MAX_def del: be_bytes.simps)
  moreover have "decode_command (command_byte CmdDeleteTopic # be_bytes 4 3 @ pascal ''t'') =
      Inr (\<lparr>rq_cmd = CmdDeleteTopic, rq_payload = RqDeleteTopic ''t''\<rparr>, [])"
    using t by (simp add: decode_command_def codec_simps MAX_REQUEST_PAYLOAD_BYTES_def decode_body_def
        decode_delete_topic_def del: be_bytes.simps One_nat_def)
  ultimately show ?thesis by (simp add: decode_framed_def demo_forwarded_def)
qed

theorem forwarded_request_preserved_witness:
  "\<exists>out. wrap_forwarded_request demo_forwarded = Some (Inr out) \<and>
    decode_framed out = Inr (\<lparr>rq_cmd = CmdDeleteTopic, rq_payload = RqDeleteTopic ''t''\<rparr>,
      Versioned PROTOCOL_VERSION_MAX 0
        (default_tags\<lparr>isolation_level := Some ReadCommitted, session_timeout_ms := Some 256,
           forwarded := True\<rparr>), length out)"
  using forwarded_request_preserved [OF demo_forwarded_decoded]
  by (simp add: default_tags_def)

subsection \<open>Limits\<close>

text \<open>
  \<open>strip_envelope\<close> does not read the tags of a waiting fetch nor the one of the second round of
  a cooperative rebalance, so \<open>wrap_forwarded_request\<close> never writes them again.
\<close>

lemma forwarding_forgets_tags:
  assumes "decode_framed raw = Inr (req, framing, n)" "wrap_forwarded_request raw = Some (Inr out)"
    and "decode_framed out = Inr (req', framing', n')"
  shows "max_wait_ms (framing_tags framing') = None \<and> min_bytes (framing_tags framing') = None \<and>
    \<not> cooperative_round_two (framing_tags framing')"
  using forwarded_request_tags [OF assms(1)] assms(2,3) by auto

text \<open>
  A request that arrived whole but whose body ends too early is reported as incomplete, like
  a request that is still on its way: the connection loop waits for bytes that change
  nothing, and no later request on the connection is served.
\<close>

lemma short_body_never_served:
  assumes "decode_body cmd body = Inl (Incomplete a b)" "length body \<le> MAX_REQUEST_PAYLOAD_BYTES"
  shows "drain parse_request (command_byte cmd # be_bytes 4 (length body) @ body @ later) =
    ([], command_byte cmd # be_bytes 4 (length body) @ body @ later, False)"
proof -
  have "length body < 256 ^ 4" using assms(2) by (simp add: MAX_REQUEST_PAYLOAD_BYTES_def)
  then have "decode_command (command_byte cmd # be_bytes 4 (length body) @ body @ later) =
      Inl (Incomplete a b)"
    using assms by (simp add: decode_command_def codec_simps del: be_bytes.simps One_nat_def)
  then have "parse_request (command_byte cmd # be_bytes 4 (length body) @ body @ later) = Need"
    by (simp add: parse_request_def decode_framed_def decode_envelope_def)
  then show ?thesis
    by (simp add: drain.simps [of parse_request "command_byte cmd # be_bytes 4 (length body) @ body @ later"])
qed

end
