(* ===== verification/Client_Requests.thy ===== *)
theory Client_Requests
  imports Wire_Requests
begin

text \<open>
  The requests the client library builds (\<^verbatim>\<open>src/client.rs\<close>): one definition per method for the
  body, the two framings, and the pipelined sending of requests. The lemmas show that the
  decoder of the broker reads back exactly what the client asked for.
\<close>

section \<open>Writing\<close>

text \<open>The writes to a buffer in order; \<open>None\<close> is the panic of a string that is too long.\<close>

fun put_all :: "bytes option list \<Rightarrow> bytes option" where
  "put_all [] = Some []"
| "put_all (w # ws) =
     (case w of None \<Rightarrow> None | Some bs \<Rightarrow> map_option (\<lambda>rest. bs @ rest) (put_all ws))"

abbreviation put_str :: "string \<Rightarrow> bytes option" where
  "put_str s \<equiv> write_pascal_string s"

abbreviation put_be :: "nat \<Rightarrow> nat \<Rightarrow> bytes option" where
  "put_be w v \<equiv> Some (be_bytes w v)"

abbreviation put_u8 :: "byte \<Rightarrow> bytes option" where
  "put_u8 b \<equiv> Some [b]"

definition put_i16 :: "int \<Rightarrow> bytes option" where
  "put_i16 e = Some (be_bytes 2 (nat (e mod 65536)))"

definition write_len_prefixed_bytes :: "bytes \<Rightarrow> bytes option" where
  "write_len_prefixed_bytes bs = Some (be_bytes 2 (length bs) @ bs)"

definition legacy_request :: "CommandCode \<Rightarrow> bytes \<Rightarrow> bytes" where
  "legacy_request cmd inner = command_byte cmd # be_bytes 4 (length inner) @ inner"

definition encode_versioned_request ::
  "nat \<Rightarrow> CommandCode \<Rightarrow> (nat \<times> bytes) list \<Rightarrow> bytes \<Rightarrow> bytes" where
  "encode_versioned_request corr cmd tagged_fields inner =
     VERSIONED_ENVELOPE_MAGIC # be_bytes 2 PROTOCOL_VERSION_MAX @ be_bytes 4 corr
       @ be_bytes 1 (length tagged_fields) @ tag_section tagged_fields
       @ command_byte cmd # be_bytes 4 (length inner) @ inner"

section \<open>The bodies\<close>

text \<open>The batch is encoded by the record batch format, and is an argument here.\<close>

definition body_produce :: "string \<Rightarrow> string \<Rightarrow> string option \<Rightarrow> nat \<Rightarrow> bytes \<Rightarrow> bytes option" where
  "body_produce topic key transaction_id num_partitions encoded_batch =
     put_all [put_str topic, put_str key,
       put_str (case transaction_id of None \<Rightarrow> [] | Some t \<Rightarrow> t),
       put_be 4 num_partitions, put_be 4 (length encoded_batch), Some encoded_batch]"

definition body_fetch :: "string \<Rightarrow> nat \<Rightarrow> nat \<Rightarrow> nat \<Rightarrow> bytes option" where
  "body_fetch topic p offset max_bytes =
     put_all [put_str topic, put_be 4 p, put_be 8 offset, put_be 4 max_bytes]"

definition body_commit_offset :: "string \<Rightarrow> string \<Rightarrow> nat \<Rightarrow> nat \<Rightarrow> bytes option" where
  "body_commit_offset group_id topic p offset =
     put_all [put_str group_id, put_str topic, put_be 4 p, put_be 8 offset]"

definition body_fetch_offset :: "string \<Rightarrow> string \<Rightarrow> nat \<Rightarrow> bytes option" where
  "body_fetch_offset group_id topic p = put_all [put_str group_id, put_str topic, put_be 4 p]"

definition body_seek :: "string \<Rightarrow> nat \<Rightarrow> nat \<Rightarrow> bytes option" where
  "body_seek topic p offset = put_all [put_str topic, put_be 4 p, put_be 8 offset]"

definition body_latest_offset :: "string \<Rightarrow> nat \<Rightarrow> bytes option" where
  "body_latest_offset topic p = put_all [put_str topic, put_be 4 p]"

definition body_begin_transaction :: "string \<Rightarrow> nat \<Rightarrow> bytes option" where
  "body_begin_transaction transaction_id producer_id =
     put_all [put_str transaction_id, put_be 8 producer_id]"

definition body_commit_transaction :: "string \<Rightarrow> bytes option" where
  "body_commit_transaction transaction_id = put_all [put_str transaction_id]"

definition body_abort_transaction :: "string \<Rightarrow> bytes option" where
  "body_abort_transaction transaction_id = put_all [put_str transaction_id]"

definition body_fetch_by_timestamp :: "string \<Rightarrow> nat \<Rightarrow> nat \<Rightarrow> nat \<Rightarrow> bytes option" where
  "body_fetch_by_timestamp topic p target max_bytes =
     put_all [put_str topic, put_be 4 p, put_be 8 target, put_be 4 max_bytes]"

definition body_fetch_committed :: "string \<Rightarrow> nat \<Rightarrow> nat \<Rightarrow> nat \<Rightarrow> bytes option" where
  "body_fetch_committed topic p offset max_bytes =
     put_all [put_str topic, put_be 4 p, put_be 8 offset, put_be 4 max_bytes]"

definition body_delete_topic :: "string \<Rightarrow> bytes option" where
  "body_delete_topic topic = put_all [put_str topic]"

definition put_trailing :: "string option \<Rightarrow> bytes option list" where
  "put_trailing instance_id = (case instance_id of None \<Rightarrow> [] | Some i \<Rightarrow> [put_str i])"

definition body_join_group :: "string \<Rightarrow> string \<Rightarrow> string option \<Rightarrow> string list \<Rightarrow> bytes option" where
  "body_join_group group_id member_id instance_id protocols =
     put_all ([put_str group_id, put_str member_id, put_be 4 (length protocols)]
       @ map put_str protocols @ put_trailing instance_id)"

definition put_assignment :: "MemberAssignment \<Rightarrow> bytes option" where
  "put_assignment a =
     put_all ([put_str (ma_member_id a), put_str (ma_topic a), put_be 4 (length (ma_partitions a))]
       @ map (put_be 4) (ma_partitions a))"

definition body_sync_group ::
  "string \<Rightarrow> nat \<Rightarrow> string \<Rightarrow> MemberAssignment list \<Rightarrow> bytes option" where
  "body_sync_group group_id generation_id member_id assignments =
     put_all ([put_str group_id, put_be 4 generation_id, put_str member_id,
         put_be 4 (length assignments)] @ map put_assignment assignments)"

definition body_heartbeat :: "string \<Rightarrow> nat \<Rightarrow> string \<Rightarrow> bytes option" where
  "body_heartbeat group_id generation_id member_id =
     put_all [put_str group_id, put_be 4 generation_id, put_str member_id]"

definition body_leave_group :: "string \<Rightarrow> string \<Rightarrow> string option \<Rightarrow> bytes option" where
  "body_leave_group group_id member_id instance_id =
     put_all ([put_str group_id, put_str member_id] @ put_trailing instance_id)"

definition body_create_topic :: "string \<Rightarrow> nat \<Rightarrow> bytes option" where
  "body_create_topic topic n = put_all [put_str topic, put_be 4 n]"

definition body_describe_topic :: "string \<Rightarrow> bytes option" where
  "body_describe_topic topic = put_all [put_str topic]"

definition body_describe_group :: "string \<Rightarrow> bytes option" where
  "body_describe_group group_id = put_all [put_str group_id]"

definition body_init_producer_id :: "string \<Rightarrow> bytes option" where
  "body_init_producer_id tid = put_all [put_str tid]"

definition put_topic :: "string \<times> nat list \<Rightarrow> bytes option" where
  "put_topic tp =
     put_all ([put_str (fst tp), put_be 4 (length (snd tp))] @ map (put_be 4) (snd tp))"

definition body_add_partitions_to_txn ::
  "string \<Rightarrow> nat \<Rightarrow> int \<Rightarrow> (string \<times> nat list) list \<Rightarrow> bytes option" where
  "body_add_partitions_to_txn tid producer_id epoch topics =
     put_all ([put_str tid, put_be 8 producer_id, put_i16 epoch, put_be 4 (length topics)]
       @ map put_topic topics)"

definition body_end_txn :: "string \<Rightarrow> nat \<Rightarrow> int \<Rightarrow> bool \<Rightarrow> bytes option" where
  "body_end_txn tid producer_id epoch committed =
     put_all [put_str tid, put_be 8 producer_id, put_i16 epoch,
       put_u8 (if committed then 1 else 0)]"

definition body_offset_commit :: "string \<Rightarrow> string \<Rightarrow> nat \<Rightarrow> nat \<Rightarrow> string \<Rightarrow> bytes option" where
  "body_offset_commit group_id topic p offset metadata =
     put_all [put_str group_id, put_str topic, put_be 4 p, put_be 8 offset, put_str metadata]"

definition body_offset_fetch :: "string \<Rightarrow> string \<Rightarrow> nat \<Rightarrow> bytes option" where
  "body_offset_fetch group_id topic p = put_all [put_str group_id, put_str topic, put_be 4 p]"

definition body_sasl_handshake :: "string \<Rightarrow> bytes option" where
  "body_sasl_handshake mechanism = put_all [put_str mechanism]"

definition body_sasl_authenticate :: "bytes \<Rightarrow> bytes option" where
  "body_sasl_authenticate auth_bytes = Some auth_bytes"

definition put_acl :: "acl_fields \<Rightarrow> bytes option" where
  "put_acl b =
     put_all [put_u8 (af_resource_type b), put_str (af_resource_name b),
       put_u8 (af_pattern_type b), put_str (af_principal b), put_str (af_host b),
       put_u8 (af_operation b), put_u8 (af_permission_type b)]"

definition body_create_acl :: "acl_fields \<Rightarrow> bytes option" where
  "body_create_acl binding = put_acl binding"

definition body_describe_acls :: "acl_fields \<Rightarrow> bytes option" where
  "body_describe_acls flt = put_acl flt"

definition body_register_broker :: "nat \<Rightarrow> string \<Rightarrow> bytes option" where
  "body_register_broker node_id endpoint = put_all [put_be 4 node_id, put_str endpoint]"

definition body_unregister_broker :: "nat \<Rightarrow> bytes option" where
  "body_unregister_broker node_id = put_all [put_be 4 node_id]"

definition body_set_client_id :: "string \<Rightarrow> bytes option" where
  "body_set_client_id client_id = put_all [put_str client_id]"

definition body_upsert_scram_user ::
  "string \<Rightarrow> nat \<Rightarrow> bytes \<Rightarrow> bytes \<Rightarrow> bytes \<Rightarrow> bytes option" where
  "body_upsert_scram_user username iterations salt stored_key server_key =
     put_all [put_str username, put_be 4 iterations, write_len_prefixed_bytes salt,
       write_len_prefixed_bytes stored_key, write_len_prefixed_bytes server_key]"

definition body_delete_scram_user :: "string \<Rightarrow> bytes option" where
  "body_delete_scram_user username = put_all [put_str username]"

fun ack_byte :: "AcknowledgeType \<Rightarrow> byte" where
  "ack_byte Accept = 1"
| "ack_byte Release = 2"
| "ack_byte Reject = 3"
| "ack_byte Renew = 4"
| "ack_byte Yield = 5"

definition put_ack :: "AckBatch \<Rightarrow> bytes option" where
  "put_ack a = put_all [put_be 8 (ack_first a), put_be 8 (ack_last a), put_u8 (ack_byte (ack_type a))]"

definition body_share_fetch ::
  "string \<Rightarrow> string \<Rightarrow> string \<Rightarrow> nat \<Rightarrow> nat \<Rightarrow> nat \<Rightarrow> nat \<Rightarrow> AckBatch list \<Rightarrow> bytes option" where
  "body_share_fetch group_id member_id topic p max_records max_bytes lock_timeout_ms acks =
     put_all ([put_str group_id, put_str member_id, put_str topic, put_be 4 p,
         put_be 4 max_records, put_be 4 max_bytes, put_be 4 lock_timeout_ms,
         put_be 4 (length acks)] @ map put_ack acks)"

definition body_share_acknowledge ::
  "string \<Rightarrow> string \<Rightarrow> string \<Rightarrow> nat \<Rightarrow> AckBatch list \<Rightarrow> bytes option" where
  "body_share_acknowledge group_id member_id topic p acks =
     put_all ([put_str group_id, put_str member_id, put_str topic, put_be 4 p,
         put_be 4 (length acks)] @ map put_ack acks)"

definition body_share_group_heartbeat :: "string \<Rightarrow> string \<Rightarrow> bytes option" where
  "body_share_group_heartbeat group_id member_id = put_all [put_str group_id, put_str member_id]"

definition body_share_group_describe :: "string \<Rightarrow> bytes option" where
  "body_share_group_describe group_id = put_all [put_str group_id]"

definition body_describe_configs :: "string \<Rightarrow> bytes option" where
  "body_describe_configs topic = put_all [put_str topic]"

definition put_pair :: "string \<times> string \<Rightarrow> bytes option" where
  "put_pair kv = put_all [put_str (fst kv), put_str (snd kv)]"

definition body_alter_configs :: "string \<Rightarrow> (string \<times> string) list \<Rightarrow> bytes option" where
  "body_alter_configs topic configs =
     put_all ([put_str topic, put_be 4 (length configs)] @ map put_pair configs)"

definition body_incremental_alter_configs ::
  "string \<Rightarrow> (string \<times> string) list \<Rightarrow> string list \<Rightarrow> bytes option" where
  "body_incremental_alter_configs topic upserts deletes =
     put_all ([put_str topic, put_be 4 (length upserts)] @ map put_pair upserts
       @ [put_be 4 (length deletes)] @ map put_str deletes)"

text \<open>
  The method for each request. The library has none that lists groups or deletes access
  rules.
\<close>

fun client_body :: "RequestPayload \<Rightarrow> (CommandCode \<times> bytes option) option" where
  "client_body (RqProduceBatch t k x n b) =
     Some (CmdProduceBatch, body_produce t k (if x = [] then None else Some x) n b)"
| "client_body (RqFetch t p off m) = Some (CmdFetch, body_fetch t p off m)"
| "client_body (RqCommitOffset g t p off) = Some (CmdCommitOffset, body_commit_offset g t p off)"
| "client_body (RqFetchOffset g t p) = Some (CmdFetchOffset, body_fetch_offset g t p)"
| "client_body (RqSeek t p off) = Some (CmdSeek, body_seek t p off)"
| "client_body (RqLatestOffset t p) = Some (CmdLatestOffset, body_latest_offset t p)"
| "client_body (RqBeginTx x i) = Some (CmdBeginTx, body_begin_transaction x i)"
| "client_body (RqCommitTx x) = Some (CmdCommitTx, body_commit_transaction x)"
| "client_body (RqAbortTx x) = Some (CmdAbortTx, body_abort_transaction x)"
| "client_body (RqFetchByTimestamp t p ts m) =
     Some (CmdFetchByTimestamp, body_fetch_by_timestamp t p ts m)"
| "client_body (RqFetchCommitted t p off m) = Some (CmdFetchCommitted, body_fetch_committed t p off m)"
| "client_body RqPing = Some (CmdPing, Some [])"
| "client_body RqNegotiateProtocol = Some (CmdNegotiateProtocol, Some [])"
| "client_body RqListTopics = Some (CmdListTopics, Some [])"
| "client_body RqDescribeCluster = Some (CmdDescribeCluster, Some [])"
| "client_body (RqDeleteTopic t) = Some (CmdDeleteTopic, body_delete_topic t)"
| "client_body (RqJoinGroup g m ps i) = Some (CmdJoinGroup, body_join_group g m i ps)"
| "client_body (RqSyncGroup g e m as) = Some (CmdSyncGroup, body_sync_group g e m as)"
| "client_body (RqHeartbeat g e m) = Some (CmdHeartbeat, body_heartbeat g e m)"
| "client_body (RqLeaveGroup g m i) = Some (CmdLeaveGroup, body_leave_group g m i)"
| "client_body (RqCreateTopic t n) = Some (CmdCreateTopic, body_create_topic t n)"
| "client_body (RqDescribeTopic t) = Some (CmdDescribeTopic, body_describe_topic t)"
| "client_body RqListGroups = None"
| "client_body (RqDescribeGroup g) = Some (CmdDescribeGroup, body_describe_group g)"
| "client_body (RqInitProducerId x) = Some (CmdInitProducerId, body_init_producer_id x)"
| "client_body (RqAddPartitionsToTxn x i e ts) =
     Some (CmdAddPartitionsToTxn, body_add_partitions_to_txn x i e ts)"
| "client_body (RqEndTxn x i e c) = Some (CmdEndTxn, body_end_txn x i e c)"
| "client_body (RqOffsetCommit g t p off d) = Some (CmdOffsetCommit, body_offset_commit g t p off d)"
| "client_body (RqOffsetFetch g t p) = Some (CmdOffsetFetch, body_offset_fetch g t p)"
| "client_body (RqSaslHandshake m) = Some (CmdSaslHandshake, body_sasl_handshake m)"
| "client_body (RqSaslAuthenticate bs) = Some (CmdSaslAuthenticate, body_sasl_authenticate bs)"
| "client_body (RqDescribeAcls b) = Some (CmdDescribeAcls, body_describe_acls b)"
| "client_body (RqCreateAcls b) = Some (CmdCreateAcls, body_create_acl b)"
| "client_body (RqDeleteAcls b) = None"
| "client_body (RqRegisterBroker n e) = Some (CmdRegisterBroker, body_register_broker n e)"
| "client_body (RqUnregisterBroker n) = Some (CmdUnregisterBroker, body_unregister_broker n)"
| "client_body (RqSetClientId c) = Some (CmdSetClientId, body_set_client_id c)"
| "client_body (RqUpsertScramUser u n s k v) =
     Some (CmdUpsertScramUser, body_upsert_scram_user u n s k v)"
| "client_body (RqDeleteScramUser u) = Some (CmdDeleteScramUser, body_delete_scram_user u)"
| "client_body (RqShareFetch g m t p r b l as) =
     Some (CmdShareFetch, body_share_fetch g m t p r b l as)"
| "client_body (RqShareAcknowledge g m t p as) =
     Some (CmdShareAcknowledge, body_share_acknowledge g m t p as)"
| "client_body (RqShareGroupHeartbeat g m) =
     Some (CmdShareGroupHeartbeat, body_share_group_heartbeat g m)"
| "client_body (RqShareGroupDescribe g) = Some (CmdShareGroupDescribe, body_share_group_describe g)"
| "client_body (RqDescribeConfigs t) = Some (CmdDescribeConfigs, body_describe_configs t)"
| "client_body (RqAlterConfigs t cs) = Some (CmdAlterConfigs, body_alter_configs t cs)"
| "client_body (RqIncrementalAlterConfigs t us ds) =
     Some (CmdIncrementalAlterConfigs, body_incremental_alter_configs t us ds)"

section \<open>Requests within their bounds\<close>

definition u32_ok :: "nat \<Rightarrow> bool" where "u32_ok v \<longleftrightarrow> v < 4294967296"
definition u64_ok :: "nat \<Rightarrow> bool" where "u64_ok v \<longleftrightarrow> v < 18446744073709551616"
definition i16_ok :: "int \<Rightarrow> bool" where "i16_ok e \<longleftrightarrow> -32768 \<le> e \<and> e < 32768"

definition instance_ok :: "string option \<Rightarrow> bool" where
  "instance_ok i \<longleftrightarrow> (case i of None \<Rightarrow> True | Some s \<Rightarrow> pascal_ok s \<and> s \<noteq> [])"

definition assignment_ok :: "MemberAssignment \<Rightarrow> bool" where
  "assignment_ok a \<longleftrightarrow> pascal_ok (ma_member_id a) \<and> pascal_ok (ma_topic a) \<and>
     list_all u32_ok (ma_partitions a)"

definition topic_ok :: "string \<times> nat list \<Rightarrow> bool" where
  "topic_ok tp \<longleftrightarrow> pascal_ok (fst tp) \<and> list_all u32_ok (snd tp)"

definition acl_ok :: "acl_fields \<Rightarrow> bool" where
  "acl_ok b \<longleftrightarrow> pascal_ok (af_resource_name b) \<and> pascal_ok (af_principal b) \<and> pascal_ok (af_host b)"

definition ack_ok :: "AckBatch \<Rightarrow> bool" where
  "ack_ok a \<longleftrightarrow> u64_ok (ack_first a) \<and> u64_ok (ack_last a)"

definition pair_ok :: "string \<times> string \<Rightarrow> bool" where
  "pair_ok kv \<longleftrightarrow> pascal_ok (fst kv) \<and> pascal_ok (snd kv)"

definition items_ok :: "nat \<Rightarrow> bool" where
  "items_ok n \<longleftrightarrow> n \<le> MAX_DECODED_COLLECTION_ITEMS"

fun request_ok :: "RequestPayload \<Rightarrow> bool" where
  "request_ok (RqProduceBatch t k x n b) \<longleftrightarrow>
     pascal_ok t \<and> pascal_ok k \<and> pascal_ok x \<and> u32_ok n \<and> u32_ok (length b)"
| "request_ok (RqFetch t p off m) \<longleftrightarrow> pascal_ok t \<and> u32_ok p \<and> u64_ok off \<and> u32_ok m"
| "request_ok (RqCommitOffset g t p off) \<longleftrightarrow> pascal_ok g \<and> pascal_ok t \<and> u32_ok p \<and> u64_ok off"
| "request_ok (RqFetchOffset g t p) \<longleftrightarrow> pascal_ok g \<and> pascal_ok t \<and> u32_ok p"
| "request_ok (RqSeek t p off) \<longleftrightarrow> pascal_ok t \<and> u32_ok p \<and> u64_ok off"
| "request_ok (RqLatestOffset t p) \<longleftrightarrow> pascal_ok t \<and> u32_ok p"
| "request_ok (RqBeginTx x i) \<longleftrightarrow> pascal_ok x \<and> u64_ok i"
| "request_ok (RqCommitTx x) \<longleftrightarrow> pascal_ok x"
| "request_ok (RqAbortTx x) \<longleftrightarrow> pascal_ok x"
| "request_ok (RqFetchByTimestamp t p ts m) \<longleftrightarrow> pascal_ok t \<and> u32_ok p \<and> u64_ok ts \<and> u32_ok m"
| "request_ok (RqFetchCommitted t p off m) \<longleftrightarrow> pascal_ok t \<and> u32_ok p \<and> u64_ok off \<and> u32_ok m"
| "request_ok RqPing \<longleftrightarrow> True"
| "request_ok RqNegotiateProtocol \<longleftrightarrow> True"
| "request_ok RqListTopics \<longleftrightarrow> True"
| "request_ok RqDescribeCluster \<longleftrightarrow> True"
| "request_ok (RqDeleteTopic t) \<longleftrightarrow> pascal_ok t"
| "request_ok (RqJoinGroup g m ps i) \<longleftrightarrow> pascal_ok g \<and> pascal_ok m \<and> list_all pascal_ok ps \<and>
     items_ok (length ps) \<and> instance_ok i"
| "request_ok (RqSyncGroup g e m as) \<longleftrightarrow> pascal_ok g \<and> u32_ok e \<and> pascal_ok m \<and>
     list_all assignment_ok as \<and>
     items_ok (length as + (\<Sum>a\<leftarrow>as. length (ma_partitions a)))"
| "request_ok (RqHeartbeat g e m) \<longleftrightarrow> pascal_ok g \<and> u32_ok e \<and> pascal_ok m"
| "request_ok (RqLeaveGroup g m i) \<longleftrightarrow> pascal_ok g \<and> pascal_ok m \<and> instance_ok i"
| "request_ok (RqCreateTopic t n) \<longleftrightarrow> pascal_ok t \<and> u32_ok n"
| "request_ok (RqDescribeTopic t) \<longleftrightarrow> pascal_ok t"
| "request_ok RqListGroups \<longleftrightarrow> False"
| "request_ok (RqDescribeGroup g) \<longleftrightarrow> pascal_ok g"
| "request_ok (RqInitProducerId x) \<longleftrightarrow> pascal_ok x"
| "request_ok (RqAddPartitionsToTxn x i e ts) \<longleftrightarrow> pascal_ok x \<and> u64_ok i \<and> i16_ok e \<and>
     list_all topic_ok ts \<and> items_ok (length ts + (\<Sum>t\<leftarrow>ts. length (snd t)))"
| "request_ok (RqEndTxn x i e c) \<longleftrightarrow> pascal_ok x \<and> u64_ok i \<and> i16_ok e"
| "request_ok (RqOffsetCommit g t p off d) \<longleftrightarrow>
     pascal_ok g \<and> pascal_ok t \<and> u32_ok p \<and> u64_ok off \<and> pascal_ok d"
| "request_ok (RqOffsetFetch g t p) \<longleftrightarrow> pascal_ok g \<and> pascal_ok t \<and> u32_ok p"
| "request_ok (RqSaslHandshake m) \<longleftrightarrow> pascal_ok m"
| "request_ok (RqSaslAuthenticate bs) \<longleftrightarrow> True"
| "request_ok (RqDescribeAcls b) \<longleftrightarrow> acl_ok b"
| "request_ok (RqCreateAcls b) \<longleftrightarrow> acl_ok b"
| "request_ok (RqDeleteAcls b) \<longleftrightarrow> False"
| "request_ok (RqRegisterBroker n e) \<longleftrightarrow> u32_ok n \<and> pascal_ok e"
| "request_ok (RqUnregisterBroker n) \<longleftrightarrow> u32_ok n"
| "request_ok (RqSetClientId c) \<longleftrightarrow> pascal_ok c"
| "request_ok (RqUpsertScramUser u n s k v) \<longleftrightarrow> pascal_ok u \<and> u32_ok n \<and>
     length s < 65536 \<and> length k < 65536 \<and> length v < 65536"
| "request_ok (RqDeleteScramUser u) \<longleftrightarrow> pascal_ok u"
| "request_ok (RqShareFetch g m t p r b l as) \<longleftrightarrow> pascal_ok g \<and> pascal_ok m \<and> pascal_ok t \<and>
     u32_ok p \<and> u32_ok r \<and> u32_ok b \<and> u32_ok l \<and> list_all ack_ok as \<and> items_ok (length as)"
| "request_ok (RqShareAcknowledge g m t p as) \<longleftrightarrow> pascal_ok g \<and> pascal_ok m \<and> pascal_ok t \<and>
     u32_ok p \<and> list_all ack_ok as \<and> items_ok (length as)"
| "request_ok (RqShareGroupHeartbeat g m) \<longleftrightarrow> pascal_ok g \<and> pascal_ok m"
| "request_ok (RqShareGroupDescribe g) \<longleftrightarrow> pascal_ok g"
| "request_ok (RqDescribeConfigs t) \<longleftrightarrow> pascal_ok t"
| "request_ok (RqAlterConfigs t cs) \<longleftrightarrow> pascal_ok t \<and> list_all pair_ok cs \<and> items_ok (length cs)"
| "request_ok (RqIncrementalAlterConfigs t us ds) \<longleftrightarrow> pascal_ok t \<and> list_all pair_ok us \<and>
     list_all pascal_ok ds \<and> items_ok (length us + length ds)"

section \<open>Reading back collections\<close>

lemma put_all_map:
  "list_all (\<lambda>x. f x = Some (g x)) xs \<Longrightarrow>
   put_all (map f xs @ ws) = map_option (\<lambda>rest. concat (map g xs) @ rest) (put_all ws)"
  by (induction xs; cases "put_all ws") simp_all

lemmas put_all_map_end = put_all_map [where ws = "[]", simplified]

lemma rd_count_ok:
  "\<lbrakk>count * minimum \<le> length buf; 0 < minimum; count \<le> budget\<rbrakk> \<Longrightarrow>
   rd_count count buf minimum budget k = k (budget - count)"
  using less_eq_div_iff_mult_less_eq [of minimum count "length buf"]
  by (simp add: rd_count_def validate_collection_count_def not_less [symmetric])

lemma length_concat_ge: "list_all (\<lambda>x. m \<le> length (g x)) xs \<Longrightarrow> length xs * m \<le> length (concat (map g xs))"
  by (induction xs) auto

lemma length_concat_eq: "list_all (\<lambda>x. length (g x) = m) xs \<Longrightarrow> length (concat (map g xs)) = length xs * m"
  by (induction xs) auto

lemma read_u32s_written:
  "list_all u32_ok vs \<Longrightarrow> read_u32s (length vs) (concat (map (be_bytes 4) vs) @ rest) = (vs, rest)"
  by (induction vs) (simp_all add: rd_be_append u32_ok_def)

lemma read_strings_written:
  "list_all pascal_ok ss \<Longrightarrow> read_strings (length ss) (concat (map pascal ss) @ rest) = Inr (ss, rest)"
  by (induction ss) (simp_all add: rd_str_append)

definition pair_bytes :: "string \<times> string \<Rightarrow> bytes" where
  "pair_bytes kv = pascal (fst kv) @ pascal (snd kv)"

lemma read_pairs_written:
  "list_all pair_ok ps \<Longrightarrow> read_pairs (length ps) (concat (map pair_bytes ps) @ rest) = Inr (ps, rest)"
  by (induction ps) (simp_all add: rd_str_append pair_ok_def pair_bytes_def)

lemma acknowledge_try_from_byte [simp]: "acknowledge_try_from (unat (ack_byte a)) = Inr a"
  by (cases a) (simp_all add: acknowledge_try_from_def)

definition ack_bytes :: "AckBatch \<Rightarrow> bytes" where
  "ack_bytes a = be_bytes 8 (ack_first a) @ be_bytes 8 (ack_last a) @ [ack_byte (ack_type a)]"

lemma read_acks_written:
  "list_all ack_ok as \<Longrightarrow> read_acks (length as) (concat (map ack_bytes as) @ rest) = Inr (as, rest)"
  by (induction as)
     (simp_all add: rd_be_append rd_be_Cons ack_ok_def u64_ok_def ack_bytes_def del: One_nat_def)

definition partitions_bytes :: "nat list \<Rightarrow> bytes" where
  "partitions_bytes ps = be_bytes 4 (length ps) @ concat (map (be_bytes 4) ps)"

lemma read_partitions_written:
  assumes "list_all u32_ok ps" "length ps \<le> budget" "budget \<le> MAX_DECODED_COLLECTION_ITEMS"
  shows "read_partitions (partitions_bytes ps @ rest) budget = Inr ((ps, rest), budget - length ps)"
proof -
  have len: "length (concat (map (be_bytes 4) ps)) = length ps * 4"
    by (rule length_concat_eq) (simp add: list_all_iff)
  have "length ps < 256 ^ 4" using assms(2,3) by (simp add: MAX_DECODED_COLLECTION_ITEMS_def)
  then show ?thesis
    using assms read_u32s_written [OF assms(1), of rest]
    by (simp add: read_partitions_def partitions_bytes_def rd_be_append rd_room_ok rd_count_ok len)
qed

definition assignment_bytes :: "MemberAssignment \<Rightarrow> bytes" where
  "assignment_bytes a =
     pascal (ma_member_id a) @ pascal (ma_topic a) @ partitions_bytes (ma_partitions a)"

lemma read_assignments_written:
  "\<lbrakk>list_all assignment_ok as; (\<Sum>a\<leftarrow>as. length (ma_partitions a)) \<le> budget;
    budget \<le> MAX_DECODED_COLLECTION_ITEMS\<rbrakk> \<Longrightarrow>
   read_assignments (length as) (concat (map assignment_bytes as) @ rest) budget = Inr (as, rest)"
proof (induction as arbitrary: budget)
  case (Cons a as)
  have "read_assignments (length as) (concat (map assignment_bytes as) @ rest)
      (budget - length (ma_partitions a)) = Inr (as, rest)"
    by (rule Cons.IH) (use Cons.prems in auto)
  then show ?case
    using Cons.prems
    by (simp add: assignment_bytes_def [of a] assignment_ok_def [of a] rd_str_append read_partitions_written)
qed simp

definition topic_bytes :: "string \<times> nat list \<Rightarrow> bytes" where
  "topic_bytes tp = pascal (fst tp) @ partitions_bytes (snd tp)"

lemma read_topics_written:
  "\<lbrakk>list_all topic_ok ts; (\<Sum>t\<leftarrow>ts. length (snd t)) \<le> budget;
    budget \<le> MAX_DECODED_COLLECTION_ITEMS\<rbrakk> \<Longrightarrow>
   read_topics (length ts) (concat (map topic_bytes ts) @ rest) budget = Inr (ts, rest)"
proof (induction ts arbitrary: budget)
  case (Cons t ts)
  have "read_topics (length ts) (concat (map topic_bytes ts) @ rest)
      (budget - length (snd t)) = Inr (ts, rest)"
    by (rule Cons.IH) (use Cons.prems in auto)
  then show ?case
    using Cons.prems
    by (simp add: topic_bytes_def [of t] topic_ok_def [of t] rd_str_append read_partitions_written)
qed simp

lemma put_items_ok:
  "pair_ok kv \<Longrightarrow> put_pair kv = Some (pair_bytes kv)"
  "put_ack a = Some (ack_bytes a)"
  "assignment_ok m \<Longrightarrow> put_assignment m = Some (assignment_bytes m)"
  "topic_ok tp \<Longrightarrow> put_topic tp = Some (topic_bytes tp)"
  by (simp_all add: put_pair_def pair_ok_def pair_bytes_def put_ack_def ack_bytes_def
      put_assignment_def assignment_ok_def assignment_bytes_def put_topic_def topic_ok_def
      topic_bytes_def partitions_bytes_def write_pascal_string_ok
      put_all_map_end [where f = "\<lambda>v. Some (be_bytes 4 v)" and g = "be_bytes 4"] list_all_iff)

lemma put_lists_ok:
  "list_all pascal_ok ss \<Longrightarrow> put_all (map write_pascal_string ss @ ws) =
     map_option (\<lambda>rest. concat (map pascal ss) @ rest) (put_all ws)"
  "list_all pair_ok ps \<Longrightarrow> put_all (map put_pair ps @ ws) =
     map_option (\<lambda>rest. concat (map pair_bytes ps) @ rest) (put_all ws)"
  "put_all (map put_ack as @ ws) =
     map_option (\<lambda>rest. concat (map ack_bytes as) @ rest) (put_all ws)"
  "list_all assignment_ok ms \<Longrightarrow> put_all (map put_assignment ms @ ws) =
     map_option (\<lambda>rest. concat (map assignment_bytes ms) @ rest) (put_all ws)"
  "list_all topic_ok ts \<Longrightarrow> put_all (map put_topic ts @ ws) =
     map_option (\<lambda>rest. concat (map topic_bytes ts) @ rest) (put_all ws)"
  by (rule put_all_map; simp add: list_all_iff write_pascal_string_ok put_items_ok)+

lemmas put_lists_end = put_lists_ok [where ws = "[]", simplified]

lemma length_items:
  "length ss * 2 \<le> length (concat (map pascal ss))"
  "length ps * 4 \<le> length (concat (map pair_bytes ps))"
  "length (concat (map ack_bytes as)) = length as * 17"
  "length ms * 8 \<le> length (concat (map assignment_bytes ms))"
  "length ts * 6 \<le> length (concat (map topic_bytes ts))"
  by (rule length_concat_ge length_concat_eq;
      simp add: list_all_iff pair_bytes_def ack_bytes_def assignment_bytes_def topic_bytes_def
        partitions_bytes_def)+

lemma i16_of_put:
  assumes "i16_ok e"
  shows "i16_of (nat (e mod 65536)) = e"
proof (cases "0 \<le> e")
  case True
  then have "e mod 65536 = e" using assms by (simp add: i16_ok_def mod_pos_pos_trivial)
  then show ?thesis using True assms by (simp add: i16_of_def i16_ok_def nat_less_iff)
next
  case False
  have "e mod 65536 = (e + 65536) mod 65536" by simp
  also have "\<dots> = e + 65536"
    using False assms by (intro mod_pos_pos_trivial) (simp_all add: i16_ok_def)
  finally show ?thesis using False assms by (simp add: i16_of_def i16_ok_def nat_less_iff)
qed

lemma i16_range: "nat (e mod 65536) < 65536"
  by (simp add: nat_less_iff)

lemma rd_bytes_append:
  "length bs < 65536 \<Longrightarrow> rd_bytes (be_bytes 2 (length bs) @ bs @ rest) k = k bs rest"
  by (simp add: rd_bytes_def read_len_prefixed_bytes_def rd_room_ok rd_be_append)

lemma rd_trailing_written:
  "rd_trailing [] k = k None []"
  "\<lbrakk>pascal_ok s; s \<noteq> []\<rbrakk> \<Longrightarrow> rd_trailing (pascal s) k = k (Some s) []"
  using read_pascal_string_append [of s "[]"]
  by (simp_all add: rd_trailing_def read_trailing_pascal_string_def)

section \<open>Reading back requests\<close>

lemmas client_read = codec_simps rd_bytes_append rd_trailing_written put_lists_ok put_lists_end
  write_pascal_string_ok u32_ok_def u64_ok_def put_i16_def i16_of_put i16_range
  write_len_prefixed_bytes_def

lemma decode_produce_written:
  "request_ok (RqProduceBatch t k x n b) \<Longrightarrow>
   \<exists>inner. body_produce t k (if x = [] then None else Some x) n b = Some inner \<and>
     decode_produce_batch inner = Inr (RqProduceBatch t k x n b)"
  by (auto simp: body_produce_def decode_produce_batch_def client_read)

lemma decode_join_group_written:
  assumes "request_ok (RqJoinGroup g m ps i)"
  shows "\<exists>inner. body_join_group g m i ps = Some inner \<and>
    decode_join_group inner = Inr (RqJoinGroup g m ps i)"
proof -
  have n: "length ps < 4294967296" "length ps \<le> MAX_DECODED_COLLECTION_ITEMS"
    using assms by (auto simp: items_ok_def MAX_DECODED_COLLECTION_ITEMS_def)
  show ?thesis
    using assms n read_strings_written [of ps "[]"] read_strings_written [of ps "pascal (the i)"]
      length_items(1) [of ps]
    by (cases i) (auto simp: body_join_group_def decode_join_group_def put_trailing_def instance_ok_def
        client_read rd_count_ok)
qed

lemma decode_sync_group_written:
  assumes "request_ok (RqSyncGroup g e m as)"
  shows "\<exists>inner. body_sync_group g e m as = Some inner \<and>
    decode_sync_group inner = Inr (RqSyncGroup g e m as)"
proof -
  have n: "length as < 4294967296" "length as \<le> MAX_DECODED_COLLECTION_ITEMS"
    using assms by (auto simp: items_ok_def MAX_DECODED_COLLECTION_ITEMS_def)
  have "read_assignments (length as) (concat (map assignment_bytes as))
      (MAX_DECODED_COLLECTION_ITEMS - length as) = Inr (as, [])"
    using read_assignments_written [of as "MAX_DECODED_COLLECTION_ITEMS - length as" "[]"] assms
    by (auto simp: items_ok_def)
  then show ?thesis
    using assms n length_items(4) [of as]
    by (simp add: body_sync_group_def decode_sync_group_def client_read rd_count_ok)
qed

lemma decode_add_partitions_written:
  assumes "request_ok (RqAddPartitionsToTxn x i e ts)"
  shows "\<exists>inner. body_add_partitions_to_txn x i e ts = Some inner \<and>
    decode_add_partitions_to_txn inner = Inr (RqAddPartitionsToTxn x i e ts)"
proof -
  have n: "length ts < 4294967296" "length ts \<le> MAX_DECODED_COLLECTION_ITEMS"
    using assms by (auto simp: items_ok_def MAX_DECODED_COLLECTION_ITEMS_def)
  have "read_topics (length ts) (concat (map topic_bytes ts))
      (MAX_DECODED_COLLECTION_ITEMS - length ts) = Inr (ts, [])"
    using read_topics_written [of ts "MAX_DECODED_COLLECTION_ITEMS - length ts" "[]"] assms
    by (auto simp: items_ok_def)
  then show ?thesis
    using assms n length_items(5) [of ts]
    by (simp add: body_add_partitions_to_txn_def decode_add_partitions_to_txn_def client_read
        rd_count_ok)
qed

lemma decode_end_txn_written:
  "request_ok (RqEndTxn x i e c) \<Longrightarrow>
   \<exists>inner. body_end_txn x i e c = Some inner \<and> decode_end_txn inner = Inr (RqEndTxn x i e c)"
  by (simp add: body_end_txn_def decode_end_txn_def client_read del: One_nat_def)

lemma read_acl_written:
  "acl_ok b \<Longrightarrow> \<exists>inner. put_acl b = Some inner \<and> read_acl_fields mk inner = Inr (mk b)"
  by (cases b) (simp add: put_acl_def acl_ok_def read_acl_fields_def client_read del: One_nat_def)

lemma decode_share_fetch_written:
  assumes "request_ok (RqShareFetch g m t p r b l as)"
  shows "\<exists>inner. body_share_fetch g m t p r b l as = Some inner \<and>
    decode_share_fetch inner = Inr (RqShareFetch g m t p r b l as)"
proof -
  have n: "length as < 4294967296" "length as \<le> MAX_DECODED_COLLECTION_ITEMS"
    using assms by (auto simp: items_ok_def MAX_DECODED_COLLECTION_ITEMS_def)
  show ?thesis
    using assms n read_acks_written [of as "[]"] length_items(3) [of as]
    by (simp add: body_share_fetch_def decode_share_fetch_def client_read rd_count_ok)
qed

lemma decode_share_acknowledge_written:
  assumes "request_ok (RqShareAcknowledge g m t p as)"
  shows "\<exists>inner. body_share_acknowledge g m t p as = Some inner \<and>
    decode_share_acknowledge inner = Inr (RqShareAcknowledge g m t p as)"
proof -
  have n: "length as < 4294967296" "length as \<le> MAX_DECODED_COLLECTION_ITEMS"
    using assms by (auto simp: items_ok_def MAX_DECODED_COLLECTION_ITEMS_def)
  show ?thesis
    using assms n read_acks_written [of as "[]"] length_items(3) [of as]
    by (simp add: body_share_acknowledge_def decode_share_acknowledge_def client_read rd_count_ok)
qed

lemma decode_alter_configs_written:
  assumes "request_ok (RqAlterConfigs t cs)"
  shows "\<exists>inner. body_alter_configs t cs = Some inner \<and>
    decode_alter_configs inner = Inr (RqAlterConfigs t cs)"
proof -
  have n: "length cs < 4294967296" "length cs \<le> MAX_DECODED_COLLECTION_ITEMS"
    using assms by (auto simp: items_ok_def MAX_DECODED_COLLECTION_ITEMS_def)
  show ?thesis
    using assms n read_pairs_written [of cs "[]"] length_items(2) [of cs]
    by (simp add: body_alter_configs_def decode_alter_configs_def client_read rd_count_ok)
qed

lemma decode_incremental_written:
  assumes "request_ok (RqIncrementalAlterConfigs t us ds)"
  shows "\<exists>inner. body_incremental_alter_configs t us ds = Some inner \<and>
    decode_incremental_alter_configs inner = Inr (RqIncrementalAlterConfigs t us ds)"
proof -
  have n: "length us < 4294967296" "length ds < 4294967296"
      "length us \<le> MAX_DECODED_COLLECTION_ITEMS"
      "length ds \<le> MAX_DECODED_COLLECTION_ITEMS - length us"
    using assms by (auto simp: items_ok_def MAX_DECODED_COLLECTION_ITEMS_def)
  have "read_strings (length ds) (concat (map pascal ds)) = Inr (ds, [])"
    using read_strings_written [of ds "[]"] assms by simp
  then show ?thesis
    using assms n read_pairs_written [of us] length_items(2) [of us] length_items(1) [of ds]
    by (simp add: body_incremental_alter_configs_def decode_incremental_alter_configs_def
        client_read rd_count_ok)
qed

lemmas simple_bodies = body_fetch_def decode_fetch_def body_commit_offset_def
  decode_commit_offset_def body_fetch_offset_def decode_fetch_offset_def body_seek_def
  decode_seek_def body_latest_offset_def decode_latest_offset_def body_begin_transaction_def
  decode_begin_tx_def body_commit_transaction_def decode_commit_tx_def
  body_abort_transaction_def decode_abort_tx_def body_fetch_by_timestamp_def
  decode_fetch_by_timestamp_def body_fetch_committed_def decode_fetch_committed_def
  body_delete_topic_def decode_delete_topic_def body_heartbeat_def decode_heartbeat_def
  body_create_topic_def decode_create_topic_def body_describe_topic_def decode_describe_topic_def
  body_describe_group_def decode_describe_group_def body_init_producer_id_def
  decode_init_producer_id_def body_offset_commit_def decode_offset_commit_def
  body_offset_fetch_def decode_offset_fetch_def body_sasl_handshake_def decode_sasl_handshake_def
  body_sasl_authenticate_def decode_sasl_authenticate_def body_register_broker_def
  decode_register_broker_def body_unregister_broker_def decode_unregister_broker_def
  body_set_client_id_def decode_set_client_id_def body_delete_scram_user_def
  decode_delete_scram_user_def body_share_group_heartbeat_def decode_share_group_heartbeat_def
  body_share_group_describe_def decode_share_group_describe_def body_describe_configs_def
  decode_describe_configs_def body_upsert_scram_user_def decode_upsert_scram_user_def

lemma pascal_not_Nil [simp]: "pascal s \<noteq> []"
  by (simp add: pascal_def)

lemma rd_bytes_end: "length bs < 65536 \<Longrightarrow> rd_bytes (be_bytes 2 (length bs) @ bs) k = k bs []"
  using rd_bytes_append [of bs "[]" k] by simp

lemma decode_leave_group_written:
  "request_ok (RqLeaveGroup g m i) \<Longrightarrow>
   \<exists>inner. body_leave_group g m i = Some inner \<and> decode_leave_group inner = Inr (RqLeaveGroup g m i)"
  by (cases i) (simp_all add: body_leave_group_def decode_leave_group_def put_trailing_def
      instance_ok_def client_read)

lemma client_body_decoded:
  assumes "request_ok r"
  shows "\<exists>cmd inner. client_body r = Some (cmd, Some inner) \<and> decode_body cmd inner = Inr r"
proof (cases r)
  case RqProduceBatch
  then show ?thesis using decode_produce_written assms by (fastforce simp: decode_body_def)
next
  case RqJoinGroup
  then show ?thesis using decode_join_group_written assms by (fastforce simp: decode_body_def)
next
  case RqSyncGroup
  then show ?thesis using decode_sync_group_written assms by (fastforce simp: decode_body_def)
next
  case RqLeaveGroup
  then show ?thesis using decode_leave_group_written assms by (fastforce simp: decode_body_def)
next
  case RqAddPartitionsToTxn
  then show ?thesis using decode_add_partitions_written assms by (fastforce simp: decode_body_def)
next
  case RqEndTxn
  then show ?thesis using decode_end_txn_written assms by (fastforce simp: decode_body_def)
next
  case (RqDescribeAcls b)
  then show ?thesis using read_acl_written [of b RqDescribeAcls] assms
    by (simp add: decode_body_def body_describe_acls_def decode_describe_acls_def)
next
  case (RqCreateAcls b)
  then show ?thesis using read_acl_written [of b RqCreateAcls] assms
    by (simp add: decode_body_def body_create_acl_def decode_create_acls_def)
next
  case RqShareFetch
  then show ?thesis using decode_share_fetch_written assms by (fastforce simp: decode_body_def)
next
  case RqShareAcknowledge
  then show ?thesis using decode_share_acknowledge_written assms by (fastforce simp: decode_body_def)
next
  case RqAlterConfigs
  then show ?thesis using decode_alter_configs_written assms by (fastforce simp: decode_body_def)
next
  case RqIncrementalAlterConfigs
  then show ?thesis using decode_incremental_written assms by (fastforce simp: decode_body_def)
qed (use assms in \<open>simp_all add: decode_body_def simple_bodies client_read rd_bytes_end\<close>)

section \<open>Requests on a connection\<close>

text \<open>
  A request as the client sends it: with the bare framing, or in the envelope with a
  correlation id and tagged fields.
\<close>

datatype sent = Plain RequestPayload | Framed nat "(nat \<times> bytes) list" RequestPayload

fun sent_payload :: "sent \<Rightarrow> RequestPayload" where
  "sent_payload (Plain r) = r"
| "sent_payload (Framed _ _ r) = r"

fun sent_framing :: "sent \<Rightarrow> RequestFraming" where
  "sent_framing (Plain _) = Legacy"
| "sent_framing (Framed corr ts _) =
     Versioned PROTOCOL_VERSION_MAX corr (apply_tags ts default_tags)"

fun frame_body :: "sent \<Rightarrow> CommandCode \<Rightarrow> bytes \<Rightarrow> bytes" where
  "frame_body (Plain _) cmd inner = legacy_request cmd inner"
| "frame_body (Framed corr ts _) cmd inner = encode_versioned_request corr cmd ts inner"

definition sent_bytes :: "sent \<Rightarrow> bytes option" where
  "sent_bytes s =
     (case client_body (sent_payload s) of
        None \<Rightarrow> None
      | Some (cmd, inner) \<Rightarrow> map_option (frame_body s cmd) inner)"

definition sent_decoded :: "sent \<Rightarrow> WireRequest \<times> RequestFraming" where
  "sent_decoded s =
     (\<lparr>rq_cmd = fst (the (client_body (sent_payload s))), rq_payload = sent_payload s\<rparr>,
      sent_framing s)"

text \<open>
  The methods that use tagged fields. A duration is a number of milliseconds here, and is
  capped at the largest 32-bit value.
\<close>

definition fetch_records_waiting ::
  "nat \<Rightarrow> string \<Rightarrow> nat \<Rightarrow> nat \<Rightarrow> nat \<Rightarrow> nat \<Rightarrow> nat \<Rightarrow> sent" where
  "fetch_records_waiting corr topic p offset max_bytes wait minimum =
     Framed corr [(MAX_WAIT_MS, be_bytes 4 (min wait U32_MAX)), (MIN_BYTES, be_bytes 4 minimum)]
       (RqFetch topic p offset max_bytes)"

definition fetch_with_isolation ::
  "nat \<Rightarrow> string \<Rightarrow> nat \<Rightarrow> nat \<Rightarrow> nat \<Rightarrow> IsolationLevel \<Rightarrow> sent" where
  "fetch_with_isolation corr topic p offset max_bytes isolation =
     Framed corr [(ISOLATION_LEVEL, [isolation_to_byte isolation])] (RqFetch topic p offset max_bytes)"

definition fetch_as_member ::
  "nat \<Rightarrow> string \<Rightarrow> nat \<Rightarrow> nat \<Rightarrow> nat \<Rightarrow> string \<Rightarrow> string \<Rightarrow> sent option" where
  "fetch_as_member corr topic p offset max_bytes group_id member_id =
     map_option (\<lambda>member_payload.
       Framed corr [(GROUP_MEMBER, member_payload)] (RqFetch topic p offset max_bytes))
       (put_all [put_str group_id, put_str member_id])"

definition join_group_full ::
  "nat \<Rightarrow> string \<Rightarrow> string \<Rightarrow> string option \<Rightarrow> string list \<Rightarrow> nat option \<Rightarrow> bool \<Rightarrow> sent" where
  "join_group_full corr group_id member_id instance_id protocols session_timeout round_two =
     (let ts = (case session_timeout of None \<Rightarrow> []
                | Some t \<Rightarrow> [(SESSION_TIMEOUT_MS, be_bytes 4 (if t \<le> U32_MAX then t else U32_MAX))])
               @ (if round_two then [(COOPERATIVE_ROUND_TWO, [])] else []);
          r = RqJoinGroup group_id member_id protocols instance_id
      in if ts = [] then Plain r else Framed corr ts r)"

definition body_fits :: "RequestPayload \<Rightarrow> bool" where
  "body_fits r =
     (case client_body r of
        Some (_, Some inner) \<Rightarrow> length inner \<le> MAX_REQUEST_PAYLOAD_BYTES | _ \<Rightarrow> False)"

fun framing_ok :: "sent \<Rightarrow> bool" where
  "framing_ok (Plain _) \<longleftrightarrow> True"
| "framing_ok (Framed corr ts _) \<longleftrightarrow> u32_ok corr \<and> length ts < 256 \<and>
     list_all (\<lambda>(tag, val). tag < 256 \<and> length val < 65536) ts"

definition sent_ok :: "sent \<Rightarrow> bool" where
  "sent_ok s \<longleftrightarrow> request_ok (sent_payload s) \<and> body_fits (sent_payload s) \<and> framing_ok s"

text \<open>What the broker makes of these tags.\<close>

lemma framing_of_methods:
  "framing_isolation_level (sent_framing (fetch_with_isolation corr t p off m l)) = l"
  "u32_ok minimum \<Longrightarrow>
   framing_max_wait_ms (sent_framing (fetch_records_waiting corr t p off m wait minimum)) =
     min wait U32_MAX"
  "u32_ok minimum \<Longrightarrow>
   framing_min_bytes (sent_framing (fetch_records_waiting corr t p off m wait minimum)) = max minimum 1"
  "\<lbrakk>pascal_ok g; pascal_ok mem; fetch_as_member corr t p off m g mem = Some s\<rbrakk> \<Longrightarrow>
   framing_group_member (sent_framing s) = Some (g, mem)"
  by (auto simp: fetch_with_isolation_def fetch_records_waiting_def fetch_as_member_def apply_tag_known
      framing_isolation_level_def framing_max_wait_ms_def framing_min_bytes_def
      framing_group_member_def u32_ok_def write_pascal_string_ok simp del: be_bytes.simps isolation_to_byte.simps)

lemma framing_of_join:
  "is_cooperative_round_two
     (sent_framing (join_group_full corr g m i ps st round_two)) = round_two"
  "framing_session_timeout_ms (sent_framing (join_group_full corr g m i ps st round_two)) =
     map_option (\<lambda>t. min t U32_MAX) st"
  by (cases st; cases round_two; simp add: join_group_full_def is_cooperative_round_two_def
      framing_session_timeout_ms_def apply_tag_known default_tags_def min_def)+

lemma decode_command_written:
  assumes "decode_body cmd inner = Inr r" "length inner \<le> MAX_REQUEST_PAYLOAD_BYTES"
  shows "decode_command (legacy_request cmd inner) = Inr (\<lparr>rq_cmd = cmd, rq_payload = r\<rparr>, [])"
proof -
  have "length inner < 256 ^ 4" using assms(2) by (simp add: MAX_REQUEST_PAYLOAD_BYTES_def)
  then show ?thesis
    using assms by (simp add: decode_command_def legacy_request_def codec_simps
        del: be_bytes.simps One_nat_def)
qed

lemma decode_envelope_frame:
  "framing_ok s \<Longrightarrow> decode_envelope (frame_body s cmd inner) =
     Inr (sent_framing s, legacy_request cmd inner)"
proof (cases s)
  case (Framed corr ts r)
  moreover assume "framing_ok s"
  ultimately have "\<forall>(tag, val)\<in>set ts. tag < 256 \<and> length val < 65536" "length ts < 256"
      "corr < 4294967296"
    by (simp_all add: list_all_iff u32_ok_def)
  from decode_envelope_written [OF this, of "legacy_request cmd inner"] Framed show ?thesis
    by (simp add: encode_versioned_request_def legacy_request_def)
qed (simp add: legacy_request_def decode_envelope_def)

lemma parse_sent:
  assumes "sent_ok s"
  obtains bs where "sent_bytes s = Some bs" "parse_request bs = Got (sent_decoded s) []"
proof -
  obtain cmd inner where c: "client_body (sent_payload s) = Some (cmd, Some inner)"
      "decode_body cmd inner = Inr (sent_payload s)"
    using client_body_decoded [of "sent_payload s"] assms by (auto simp: sent_ok_def)
  have fit: "length inner \<le> MAX_REQUEST_PAYLOAD_BYTES"
    using assms c(1) by (simp add: sent_ok_def body_fits_def)
  have e: "decode_envelope (frame_body s cmd inner) = Inr (sent_framing s, legacy_request cmd inner)"
    by (rule decode_envelope_frame) (use assms in \<open>simp add: sent_ok_def\<close>)
  have ne: "frame_body s cmd inner \<noteq> []"
    by (cases s) (simp_all add: legacy_request_def encode_versioned_request_def)
  show ?thesis
  proof
    show "sent_bytes s = Some (frame_body s cmd inner)" using c(1) by (simp add: sent_bytes_def)
    show "parse_request (frame_body s cmd inner) = Got (sent_decoded s) []"
      using e ne decode_command_written [OF c(2) fit] c(1)
      by (simp add: parse_request_def decode_framed_def sent_decoded_def)
  qed
qed

lemma drain_sent:
  "list_all sent_ok ss \<Longrightarrow> \<exists>stream. put_all (map sent_bytes ss) = Some stream \<and>
     drain parse_request stream = (map sent_decoded ss, [], False)"
proof (induction ss)
  case Nil
  then show ?case by (simp add: drain.simps [of parse_request "[]"])
next
  case (Cons s ss)
  then obtain stream where st: "put_all (map sent_bytes ss) = Some stream"
      "drain parse_request stream = (map sent_decoded ss, [], False)" by auto
  have "sent_ok s" using Cons.prems by simp
  from parse_sent [OF this] obtain bs where
    bs: "sent_bytes s = Some bs" "parse_request bs = Got (sent_decoded s) []" .
  have step: "parse_request (bs @ stream) = Got (sent_decoded s) stream"
    using stableD(1) [OF stable_parse_request bs(2), of stream] by simp
  have "bs @ stream \<noteq> []" "length stream < length (bs @ stream)"
    using parse_request_progress [OF step] by auto
  then have "drain parse_request (bs @ stream) = (map sent_decoded (s # ss), [], False)"
    using step st(2) by (simp add: drain.simps [of parse_request "bs @ stream"])
  then show ?case using st(1) bs(1) by simp
qed

text \<open>C19 The broker serves the requests the client sends.
  For every sequence of requests within their bounds, bare or in the envelope, the client
  builds a byte stream without panicking, and however the connection cuts that stream, the
  broker decodes from it exactly those requests, in their order, each with its correlation id
  and tags, and consumes all of it.\<close>

theorem client_requests_served_in_order:
  assumes "list_all sent_ok ss"
  shows "\<exists>stream. put_all (map sent_bytes ss) = Some stream \<and>
    (\<forall>chunks. concat chunks = stream \<longrightarrow>
       read_chunks parse_request 0 [] chunks = (map sent_decoded ss, length stream, False))"
proof -
  obtain stream where st: "put_all (map sent_bytes ss) = Some stream"
      "drain parse_request stream = (map sent_decoded ss, [], False)"
    using drain_sent [OF assms] by blast
  have "read_chunks parse_request 0 [] chunks = (map sent_decoded ss, length stream, False)"
    if "concat chunks = stream" for chunks
    using request_stream.read_chunks_eq_drain [of chunks "map sent_decoded ss" "[]" False] st(2) that
    by simp
  with st(1) show ?thesis by blast
qed

definition demo_sent :: "sent list" where
  "demo_sent = [Plain (RqDeleteTopic ''t''), Framed 7 [(COOPERATIVE_ROUND_TWO, [])]
     (RqJoinGroup ''g'' ''m'' [''range''] None)]"

theorem client_requests_served_in_order_witness:
  "\<exists>stream. put_all (map sent_bytes demo_sent) = Some stream \<and>
     read_chunks parse_request 0 [] [take 3 stream, drop 3 stream] =
       ([(\<lparr>rq_cmd = CmdDeleteTopic, rq_payload = RqDeleteTopic ''t''\<rparr>, Legacy),
         (\<lparr>rq_cmd = CmdJoinGroup, rq_payload = RqJoinGroup ''g'' ''m'' [''range''] None\<rparr>,
          Versioned 1 7 (default_tags\<lparr>cooperative_round_two := True\<rparr>))], length stream, False)"
proof -
  have str: "pascal_ok ''t''" "pascal_ok ''g''" "pascal_ok ''m''" "pascal_ok ''range''"
    by (simp_all add: pascal_ok_def)
  have "list_all sent_ok demo_sent"
    using str by (simp add: demo_sent_def sent_ok_def body_fits_def body_delete_topic_def
        body_join_group_def put_trailing_def instance_ok_def items_ok_def u32_ok_def tag_consts
        write_pascal_string_ok MAX_DECODED_COLLECTION_ITEMS_def MAX_REQUEST_PAYLOAD_BYTES_def)
  from client_requests_served_in_order [OF this] obtain stream where
    st: "put_all (map sent_bytes demo_sent) = Some stream"
      "\<forall>chunks. concat chunks = stream \<longrightarrow>
         read_chunks parse_request 0 [] chunks = (map sent_decoded demo_sent, length stream, False)"
    by blast
  have eq: "map sent_decoded demo_sent =
       [(\<lparr>rq_cmd = CmdDeleteTopic, rq_payload = RqDeleteTopic ''t''\<rparr>, Legacy),
         (\<lparr>rq_cmd = CmdJoinGroup, rq_payload = RqJoinGroup ''g'' ''m'' [''range''] None\<rparr>,
          Versioned 1 7 (default_tags\<lparr>cooperative_round_two := True\<rparr>))]"
    by (simp add: demo_sent_def sent_decoded_def PROTOCOL_VERSION_MAX_def apply_tag_known)
  have "read_chunks parse_request 0 [] [take 3 stream, drop 3 stream] =
      (map sent_decoded demo_sent, length stream, False)"
    by (rule st(2) [rule_format]) simp
  with st(1) show ?thesis unfolding eq by blast
qed

end
