(* ===== verification/Wire_Responses.thy ===== *)
theory Wire_Responses
  imports Client_Requests Share_State
begin

text \<open>
  Responses (\<^verbatim>\<open>src/protocol/wire.rs\<close>) and how the client reads them (\<^verbatim>\<open>src/client.rs\<close>): the two
  framings, the pipelined exchange with its window of outstanding correlation ids, and the
  body of a share fetch. The incoming side of a connection is the list of bytes the broker
  will have written.
\<close>

section \<open>Responses\<close>

record WireResponse =
  rs_status :: byte
  rs_payload :: bytes

definition response_ok :: "bytes \<Rightarrow> WireResponse" where
  "response_ok payload = \<lparr>rs_status = 0, rs_payload = payload\<rparr>"

definition response_error :: "string \<Rightarrow> WireResponse" where
  "response_error msg = \<lparr>rs_status = 1, rs_payload = str_bytes msg\<rparr>"

definition encode_response :: "WireResponse \<Rightarrow> bytes" where
  "encode_response r = rs_status r # be_bytes 4 (length (rs_payload r)) @ rs_payload r"

definition encode_framed :: "WireResponse \<Rightarrow> RequestFraming \<Rightarrow> bytes" where
  "encode_framed r framing =
     (case framing of
        Versioned _ corr _ \<Rightarrow> VERSIONED_ENVELOPE_MAGIC # be_bytes 4 corr @ encode_response r
      | Legacy \<Rightarrow> encode_response r)"

section \<open>Reading a response\<close>

datatype ClientError = UnexpectedEof | InvalidResponse

definition MAX_CLIENT_RESPONSE_PAYLOAD_BYTES :: nat where
  "MAX_CLIENT_RESPONSE_PAYLOAD_BYTES = 67108864"

definition stream_read :: "nat \<Rightarrow> bytes \<Rightarrow> ClientError + bytes \<times> bytes" where
  "stream_read n inp =
     (if length inp < n then Inl UnexpectedEof else Inr (take n inp, drop n inp))"

definition read_wire_response :: "bytes \<Rightarrow> ClientError + WireResponse \<times> bytes" where
  "read_wire_response inp =
     (case stream_read 5 inp of
        Inl e \<Rightarrow> Inl e
      | Inr (header, inp) \<Rightarrow>
          (let payload_len = be_val (take 4 (drop 1 header)) in
           if MAX_CLIENT_RESPONSE_PAYLOAD_BYTES < payload_len then Inl InvalidResponse
           else case stream_read payload_len inp of
                  Inl e \<Rightarrow> Inl e
                | Inr (payload, inp) \<Rightarrow>
                    Inr (\<lparr>rs_status = header ! 0, rs_payload = payload\<rparr>, inp)))"

definition verify_correlation_id :: "nat \<Rightarrow> nat \<Rightarrow> ClientError + unit" where
  "verify_correlation_id expected echoed =
     (if expected \<noteq> echoed then Inl InvalidResponse else Inr ())"

definition read_versioned_response :: "nat \<Rightarrow> bytes \<Rightarrow> ClientError + WireResponse \<times> bytes" where
  "read_versioned_response expected inp =
     (case stream_read 5 inp of
        Inl e \<Rightarrow> Inl e
      | Inr (prefix, inp) \<Rightarrow>
          if prefix ! 0 \<noteq> VERSIONED_ENVELOPE_MAGIC then Inl InvalidResponse
          else case verify_correlation_id expected (be_val (take 4 (drop 1 prefix))) of
                 Inl e \<Rightarrow> Inl e
               | Inr _ \<Rightarrow> read_wire_response inp)"

section \<open>The pipelined exchange\<close>

record InFlightWindow =
  max_in_flight :: nat
  pending :: "nat list"

definition window_new :: "nat \<Rightarrow> InFlightWindow" where
  "window_new m = \<lparr>max_in_flight = max m 1, pending = []\<rparr>"

definition window_full :: "InFlightWindow \<Rightarrow> bool" where
  "window_full w \<longleftrightarrow> max_in_flight w \<le> length (pending w)"

definition try_push :: "nat \<Rightarrow> InFlightWindow \<Rightarrow> InFlightWindow \<times> bool" where
  "try_push corr w =
     (if window_full w then (w, False) else (w\<lparr>pending := pending w @ [corr]\<rparr>, True))"

definition window_pop :: "InFlightWindow \<Rightarrow> (nat \<times> InFlightWindow) option" where
  "window_pop w = (case pending w of [] \<Rightarrow> None | c # cs \<Rightarrow> Some (c, w\<lparr>pending := cs\<rparr>))"

text \<open>The counter of correlation ids wraps around.\<close>

definition next_corr :: "nat \<Rightarrow> nat" where
  "next_corr c = (c + 1) mod 4294967296"

type_synonym pipelined = "CommandCode \<times> (nat \<times> bytes) list \<times> bytes"

definition write_pipelined :: "nat \<Rightarrow> pipelined \<Rightarrow> bytes" where
  "write_pipelined corr q =
     (case q of (cmd, tagged_fields, inner) \<Rightarrow> encode_versioned_request corr cmd tagged_fields inner)"

text \<open>Filling the window up, and the loop around it; the result has what was written.\<close>

fun top_up ::
  "nat \<Rightarrow> InFlightWindow \<Rightarrow> pipelined list \<Rightarrow> nat \<times> InFlightWindow \<times> pipelined list \<times> bytes list"
where
  "top_up corr w [] = (corr, w, [], [])"
| "top_up corr w (q # qs) =
     (if window_full w then (corr, w, q # qs, [])
      else case top_up (next_corr corr) (fst (try_push corr w)) qs of
             (corr', w', qs', written) \<Rightarrow> (corr', w', qs', write_pipelined corr q # written))"

lemma top_up_lengths:
  "top_up corr w qs = (corr', w', qs', written) \<Longrightarrow>
   length qs' + length (pending w') = length qs + length (pending w)"
  by (induction corr w qs arbitrary: written rule: top_up.induct)
     (auto simp: try_push_def split: if_splits prod.splits)

function pipeline_loop ::
  "nat \<Rightarrow> InFlightWindow \<Rightarrow> pipelined list \<Rightarrow> bytes \<Rightarrow> bytes list \<times> (ClientError + WireResponse list)"
where
  "pipeline_loop corr w qs inp =
     (case top_up corr w qs of
        (corr', w', qs', written) \<Rightarrow>
          (case window_pop w' of
             None \<Rightarrow> (written, Inr [])
           | Some (expected, w'') \<Rightarrow>
               (case read_versioned_response expected inp of
                  Inl e \<Rightarrow> (written, Inl e)
                | Inr (resp, inp') \<Rightarrow>
                    (case pipeline_loop corr' w'' qs' inp' of
                       (written', res) \<Rightarrow> (written @ written',
                         case res of Inl e \<Rightarrow> Inl e | Inr rs \<Rightarrow> Inr (resp # rs))))))"
  by pat_completeness auto
termination
  by (relation "measure (\<lambda>(_, w, qs, _). length qs + length (pending w))")
     (auto simp: window_pop_def dest!: top_up_lengths [OF sym] split: list.splits)

declare pipeline_loop.simps [simp del]

definition send_pipelined ::
  "nat \<Rightarrow> pipelined list \<Rightarrow> nat \<Rightarrow> bytes \<Rightarrow> bytes list \<times> (ClientError + WireResponse list)" where
  "send_pipelined corr requests m inp = pipeline_loop corr (window_new m) requests inp"

section \<open>The body of a share fetch\<close>

definition put_nullable :: "bytes option \<Rightarrow> bytes" where
  "put_nullable v =
     (case v of None \<Rightarrow> be_bytes 4 4294967295 | Some bs \<Rightarrow> be_bytes 4 (length bs) @ bs)"

definition encode_share_record :: "Record \<Rightarrow> bytes" where
  "encode_share_record r = be_bytes 8 (rec_offset r) @ be_bytes 8 (rec_timestamp r)
     @ put_nullable (rec_key r) @ put_nullable (rec_value r)"

definition encode_share_batch :: "AcquiredRecordBatch \<Rightarrow> bytes" where
  "encode_share_batch b = be_bytes 8 (ab_first_offset b) @ be_bytes 8 (ab_last_offset b)
     @ be_bytes 2 (ab_delivery_count b) @ be_bytes 4 (length (ab_records b))
     @ concat (map encode_share_record (ab_records b))"

definition encode_share_fetch_response :: "AcquiredRecordBatch list \<Rightarrow> bytes" where
  "encode_share_fetch_response bs = be_bytes 4 (length bs) @ concat (map encode_share_batch bs)"

text \<open>A length is read as a signed number; a negative one means null.\<close>

definition need_room :: "nat \<Rightarrow> bytes \<Rightarrow> ClientError + 'a \<Rightarrow> ClientError + 'a" where
  "need_room n cur k = (if length cur < n then Inl InvalidResponse else k)"

definition read_nullable ::
  "bytes \<Rightarrow> (bytes option \<Rightarrow> bytes \<Rightarrow> ClientError + 'a) \<Rightarrow> ClientError + 'a" where
  "read_nullable cur k =
     rd_be 4 cur (\<lambda>len cur.
     if 2147483648 \<le> len then k None cur
     else need_room len cur (k (Some (take len cur)) (drop len cur)))"

primrec decode_share_records :: "nat \<Rightarrow> bytes \<Rightarrow> ClientError + Record list \<times> bytes" where
  "decode_share_records 0 cur = Inr ([], cur)"
| "decode_share_records (Suc n) cur =
     need_room 20 cur (rd_be 8 cur (\<lambda>off cur. rd_be 8 cur (\<lambda>ts cur.
     read_nullable cur (\<lambda>key cur. need_room 4 cur (read_nullable cur (\<lambda>val cur.
     case decode_share_records n cur of
       Inl e \<Rightarrow> Inl e
     | Inr (rs, cur) \<Rightarrow>
         Inr (\<lparr>rec_offset = off, rec_timestamp = ts, rec_key = key, rec_value = val,
               is_control = False\<rparr> # rs, cur)))))))"

primrec decode_share_batches :: "nat \<Rightarrow> bytes \<Rightarrow> ClientError + AcquiredRecordBatch list" where
  "decode_share_batches 0 cur = Inr []"
| "decode_share_batches (Suc n) cur =
     need_room 22 cur (rd_be 8 cur (\<lambda>first cur. rd_be 8 cur (\<lambda>last cur.
     rd_be 2 cur (\<lambda>deliveries cur. rd_be 4 cur (\<lambda>record_count cur.
     case decode_share_records record_count cur of
       Inl e \<Rightarrow> Inl e
     | Inr (rs, cur) \<Rightarrow>
         (case decode_share_batches n cur of
            Inl e \<Rightarrow> Inl e
          | Inr bs \<Rightarrow>
              Inr (\<lparr>ab_first_offset = first, ab_last_offset = last,
                    ab_delivery_count = deliveries, ab_records = rs\<rparr> # bs)))))))"

definition decode_share_fetch_response :: "bytes \<Rightarrow> ClientError + AcquiredRecordBatch list" where
  "decode_share_fetch_response cur =
     need_room 4 cur (rd_be 4 cur (\<lambda>batch_count cur. decode_share_batches batch_count cur))"

section \<open>Exchange\<close>

definition payload_fits :: "WireResponse \<Rightarrow> bool" where
  "payload_fits r \<longleftrightarrow> length (rs_payload r) \<le> MAX_CLIENT_RESPONSE_PAYLOAD_BYTES"

lemma read_wire_response_encode:
  assumes "payload_fits r"
  shows "read_wire_response (encode_response r @ rest) = Inr (r, rest)"
proof -
  have "length (rs_payload r) < 256 ^ 4"
    using assms by (simp add: payload_fits_def MAX_CLIENT_RESPONSE_PAYLOAD_BYTES_def)
  then show ?thesis
    using assms
    by (simp add: read_wire_response_def stream_read_def encode_response_def payload_fits_def
        be_val_be_bytes_exact take_Cons' drop_Cons')
qed

lemma read_versioned_response_encode:
  assumes "payload_fits r" "corr < 4294967296"
  shows "read_versioned_response expected (encode_framed r (Versioned v corr t) @ rest) =
    (if corr = expected then Inr (r, rest) else Inl InvalidResponse)"
  using assms read_wire_response_encode [OF assms(1), of rest]
  by (simp add: read_versioned_response_def stream_read_def encode_framed_def
      verify_correlation_id_def be_val_be_bytes_exact take_Cons' drop_Cons')

text \<open>A response relayed for another broker reaches the client as if it were answered directly.\<close>

lemma relay_response_reframes:
  "relay_response (encode_framed r (Versioned v corr t)) framing = encode_framed r framing"
  by (cases framing) (simp_all add: relay_response_def encode_framed_def)

primrec corr_ids :: "nat \<Rightarrow> nat \<Rightarrow> nat list" where
  "corr_ids c 0 = []"
| "corr_ids c (Suc n) = c # corr_ids (next_corr c) n"

lemma length_corr_ids [simp]: "length (corr_ids c n) = n"
  by (induction n arbitrary: c) simp_all

definition reply_bytes :: "(nat \<times> WireResponse) list \<Rightarrow> bytes" where
  "reply_bytes rs =
     concat (map (\<lambda>(corr, r). encode_framed r (Versioned PROTOCOL_VERSION_MAX corr default_tags)) rs)"

lemma top_up_ids:
  "top_up corr w qs = (corr', w', qs', written) \<Longrightarrow>
   pending w' @ corr_ids corr' (length qs') = pending w @ corr_ids corr (length qs) \<and>
   written @ map2 write_pipelined (corr_ids corr' (length qs')) qs' =
     map2 write_pipelined (corr_ids corr (length qs)) qs \<and>
   max_in_flight w' = max_in_flight w"
  by (induction corr w qs arbitrary: written rule: top_up.induct)
     (auto simp: try_push_def split: if_splits prod.splits)

lemma top_up_window:
  "\<lbrakk>top_up corr w qs = (corr', w', qs', written); length (pending w) \<le> max_in_flight w\<rbrakk> \<Longrightarrow>
   length (pending w') \<le> max_in_flight w' \<and> (qs' \<noteq> [] \<longrightarrow> window_full w')"
  by (induction corr w qs arbitrary: written rule: top_up.induct)
     (auto simp: try_push_def window_full_def split: if_splits prod.splits)

lemma corr_ids_bound: "\<lbrakk>c < 4294967296; x \<in> set (corr_ids c n)\<rbrakk> \<Longrightarrow> x < 4294967296"
proof (induction n arbitrary: c)
  case (Suc n)
  then show ?case using Suc.IH [of "next_corr c"] by (auto simp: next_corr_def)
qed simp

lemma pipeline_loop_replies:
  "\<lbrakk>length (pending w) \<le> max_in_flight w; 1 \<le> max_in_flight w;
    length rs = length (pending w) + length qs; list_all payload_fits rs;
    list_all (\<lambda>c. c < 4294967296) (pending w @ corr_ids corr (length qs))\<rbrakk> \<Longrightarrow>
   pipeline_loop corr w qs (reply_bytes (zip (pending w @ corr_ids corr (length qs)) rs) @ rest) =
     (map2 write_pipelined (corr_ids corr (length qs)) qs, Inr rs)"
proof (induction "length qs + length (pending w)" arbitrary: corr w qs rs)
  case 0
  then show ?case
    by (simp add: pipeline_loop.simps [of corr w "[]"] window_pop_def)
next
  case (Suc n)
  obtain corr' w' qs' written where t: "top_up corr w qs = (corr', w', qs', written)"
    using prod_cases4 by blast
  note ids = top_up_ids [OF t] and win = top_up_window [OF t Suc.prems(1)]
    and len = top_up_lengths [OF t]
  have "pending w' \<noteq> []"
  proof
    assume e: "pending w' = []"
    then have "qs' = []" using win ids Suc.prems(2) by (auto simp: window_full_def)
    then show False using len e Suc.hyps(2) by simp
  qed
  then obtain c cs where p: "pending w' = c # cs" by (cases "pending w'") auto
  have all: "pending w @ corr_ids corr (length qs) = c # cs @ corr_ids corr' (length qs')"
    using ids p by simp
  obtain r rs' where rs: "rs = r # rs'" using Suc.prems(3) Suc.hyps(2) by (cases rs) auto
  have "pipeline_loop corr' (w'\<lparr>pending := cs\<rparr>) qs'
      (reply_bytes (zip (pending (w'\<lparr>pending := cs\<rparr>) @ corr_ids corr' (length qs')) rs') @ rest) =
      (map2 write_pipelined (corr_ids corr' (length qs')) qs', Inr rs')"
  proof (rule Suc.hyps(1))
    show "n = length qs' + length (pending (w'\<lparr>pending := cs\<rparr>))" using Suc.hyps(2) len p by simp
    show "length (pending (w'\<lparr>pending := cs\<rparr>)) \<le> max_in_flight (w'\<lparr>pending := cs\<rparr>)"
      using win p by simp
    show "1 \<le> max_in_flight (w'\<lparr>pending := cs\<rparr>)" using ids Suc.prems(2) by simp
    show "length rs' = length (pending (w'\<lparr>pending := cs\<rparr>)) + length qs'"
      using Suc.prems(3) rs len p by simp
    show "list_all payload_fits rs'" using Suc.prems(4) rs by simp
    show "list_all (\<lambda>c. c < 4294967296) (pending (w'\<lparr>pending := cs\<rparr>) @ corr_ids corr' (length qs'))"
      using Suc.prems(5) unfolding all by simp
  qed
  moreover have "read_versioned_response c
      (reply_bytes (zip (c # cs @ corr_ids corr' (length qs')) (r # rs')) @ rest) =
      Inr (r, reply_bytes (zip (cs @ corr_ids corr' (length qs')) rs') @ rest)"
    using Suc.prems(4,5) rs unfolding all
    by (simp add: reply_bytes_def read_versioned_response_encode)
  ultimately show ?case
    using t p ids unfolding all rs
    by (simp add: pipeline_loop.simps [of corr w qs] window_pop_def)
qed

text \<open>
  The requests of the caller, with the correlation ids that the client gives them.
\<close>

definition pipelined_of :: "(nat \<times> bytes) list \<times> RequestPayload \<Rightarrow> pipelined" where
  "pipelined_of q =
     (case client_body (snd q) of
        Some (cmd, Some inner) \<Rightarrow> (cmd, fst q, inner) | _ \<Rightarrow> (CmdPing, fst q, []))"

definition framed_requests :: "nat \<Rightarrow> ((nat \<times> bytes) list \<times> RequestPayload) list \<Rightarrow> sent list" where
  "framed_requests corr reqs =
     map2 (\<lambda>c (ts, r). Framed c ts r) (corr_ids corr (length reqs)) reqs"

text \<open>The broker answers every request it decodes, in order, in the framing of the request.\<close>

definition broker_replies ::
  "(WireRequest \<times> RequestFraming) list \<Rightarrow> WireResponse list \<Rightarrow> bytes" where
  "broker_replies decoded rs = concat (map2 (\<lambda>(_, framing) r. encode_framed r framing) decoded rs)"

lemma broker_replies_reply_bytes:
  "broker_replies (map sent_decoded (framed_requests corr reqs)) rs =
     reply_bytes (zip (corr_ids corr (length reqs)) rs)"
proof (induction reqs arbitrary: corr rs)
  case (Cons q reqs)
  then show ?case
    by (cases rs; cases q)
       (auto simp: broker_replies_def framed_requests_def reply_bytes_def sent_decoded_def
          encode_framed_def)
qed (simp add: broker_replies_def framed_requests_def reply_bytes_def)

lemma written_framed:
  "list_all sent_ok (framed_requests corr reqs) \<Longrightarrow>
   put_all (map sent_bytes (framed_requests corr reqs)) =
     Some (concat (map2 write_pipelined (corr_ids corr (length reqs)) (map pipelined_of reqs)))"
proof (induction reqs arbitrary: corr)
  case (Cons q reqs)
  obtain ts r where q: "q = (ts, r)" by (cases q)
  have "request_ok r" using Cons.prems q by (simp add: framed_requests_def sent_ok_def)
  then obtain cmd inner where "client_body r = Some (cmd, Some inner)"
    using client_body_decoded by blast
  then show ?case
    using Cons q by (simp add: framed_requests_def sent_bytes_def write_pipelined_def pipelined_of_def)
qed (simp add: framed_requests_def)

text \<open>C22 A pipelined exchange matches answers to requests.
  Whatever the size of the window, the broker decodes from what the client writes exactly the
  caller's requests in order, and when it answers them in order the caller gets the answers,
  one for each request in the order of the requests; correlation ids may wrap around.\<close>

theorem pipelined_exchange:
  assumes "list_all sent_ok (framed_requests corr reqs)" "corr < 4294967296"
    "length rs = length reqs" "list_all payload_fits rs"
  shows "\<exists>written decoded.
    send_pipelined corr (map pipelined_of reqs) m (broker_replies decoded rs) = (written, Inr rs) \<and>
    drain parse_request (concat written) = (decoded, [], False) \<and>
    decoded = map sent_decoded (framed_requests corr reqs)"
proof -
  let ?ids = "corr_ids corr (length reqs)"
  have "pipeline_loop corr (window_new m) (map pipelined_of reqs) (reply_bytes (zip ?ids rs)) =
      (map2 write_pipelined ?ids (map pipelined_of reqs), Inr rs)"
    using pipeline_loop_replies [of "window_new m" rs "map pipelined_of reqs" corr "[]"] assms
      corr_ids_bound [OF assms(2)]
    by (auto simp: window_new_def list_all_iff)
  moreover have "drain parse_request (concat (map2 write_pipelined ?ids (map pipelined_of reqs))) =
      (map sent_decoded (framed_requests corr reqs), [], False)"
    using drain_sent [OF assms(1)] written_framed [OF assms(1)] by simp
  ultimately show ?thesis
    by (simp add: send_pipelined_def broker_replies_reply_bytes)
qed

definition demo_pipelined :: "((nat \<times> bytes) list \<times> RequestPayload) list" where
  "demo_pipelined = [([], RqPing), ([], RqDeleteTopic ''t'')]"

theorem pipelined_exchange_witness:
  "\<exists>written decoded.
    send_pipelined 4294967295 (map pipelined_of demo_pipelined) 1
      (broker_replies decoded [response_ok [80], response_error ''no'']) =
        (written, Inr [response_ok [80], response_error ''no'']) \<and>
    drain parse_request (concat written) = (decoded, [], False) \<and>
    map (correlation_id \<circ> snd) decoded = [Some 4294967295, Some 0]"
proof -
  have t: "pascal_ok ''t''" by (simp add: pascal_ok_def)
  have fr: "framed_requests 4294967295 demo_pipelined =
      [Framed 4294967295 [] RqPing, Framed 0 [] (RqDeleteTopic ''t'')]"
    by (simp add: framed_requests_def demo_pipelined_def next_corr_def)
  have ok: "list_all sent_ok (framed_requests 4294967295 demo_pipelined)"
    using t by (simp add: fr sent_ok_def body_fits_def u32_ok_def body_delete_topic_def
        write_pascal_string_ok MAX_REQUEST_PAYLOAD_BYTES_def)
  have "list_all payload_fits [response_ok [80], response_error ''no'']"
    by (simp add: payload_fits_def response_ok_def response_error_def str_bytes_def
        MAX_CLIENT_RESPONSE_PAYLOAD_BYTES_def)
  from pipelined_exchange [OF ok _ _ this, of 1] obtain written decoded where
    ex: "send_pipelined 4294967295 (map pipelined_of demo_pipelined) 1
      (broker_replies decoded [response_ok [80], response_error ''no'']) =
        (written, Inr [response_ok [80], response_error ''no''])"
    "drain parse_request (concat written) = (decoded, [], False)"
    "decoded = map sent_decoded (framed_requests 4294967295 demo_pipelined)"
    by (auto simp: demo_pipelined_def)
  have ids: "map (correlation_id \<circ> snd)
      (map sent_decoded (framed_requests 4294967295 demo_pipelined)) = [Some 4294967295, Some 0]"
    by (simp add: fr sent_decoded_def)
  show ?thesis
    by (rule exI [of _ written], rule exI [of _ decoded], intro conjI)
       (rule ex(1), rule ex(2), unfold ex(3), rule ids)
qed

section \<open>Share fetch round trip\<close>

definition nullable_ok :: "bytes option \<Rightarrow> bool" where
  "nullable_ok v \<longleftrightarrow> (case v of None \<Rightarrow> True | Some bs \<Rightarrow> length bs < 2147483648)"

definition share_record_ok :: "Record \<Rightarrow> bool" where
  "share_record_ok r \<longleftrightarrow> u64_ok (rec_offset r) \<and> u64_ok (rec_timestamp r) \<and>
     nullable_ok (rec_key r) \<and> nullable_ok (rec_value r) \<and> \<not> is_control r"

definition share_batch_ok :: "AcquiredRecordBatch \<Rightarrow> bool" where
  "share_batch_ok b \<longleftrightarrow> u64_ok (ab_first_offset b) \<and> u64_ok (ab_last_offset b) \<and>
     ab_delivery_count b < 65536 \<and> u32_ok (length (ab_records b)) \<and>
     list_all share_record_ok (ab_records b)"

lemma read_nullable_put:
  "nullable_ok v \<Longrightarrow> read_nullable (put_nullable v @ rest) k = k v rest"
  by (cases v) (simp_all add: read_nullable_def put_nullable_def nullable_ok_def need_room_def
      rd_be_append)

lemma length_put_nullable: "4 \<le> length (put_nullable v)"
  by (cases v) (simp_all add: put_nullable_def)

lemma decode_share_records_encode:
  "list_all share_record_ok rs \<Longrightarrow>
   decode_share_records (length rs) (concat (map encode_share_record rs) @ rest) = Inr (rs, rest)"
proof (induction rs)
  case (Cons r rs)
  have "20 \<le> length (encode_share_record r @ concat (map encode_share_record rs) @ rest)"
    using length_put_nullable [of "rec_key r"] by (simp add: encode_share_record_def)
  moreover have "\<lparr>rec_offset = rec_offset r, rec_timestamp = rec_timestamp r, rec_key = rec_key r,
      rec_value = rec_value r, is_control = False\<rparr> = r"
    using Cons.prems by (cases r) (simp add: share_record_ok_def)
  ultimately show ?case
    using Cons length_put_nullable [of "rec_value r"]
    by (simp add: share_record_ok_def [of r] encode_share_record_def [of r] need_room_def
        rd_be_append read_nullable_put u64_ok_def)
qed simp

lemma decode_share_batches_encode:
  "list_all share_batch_ok bs \<Longrightarrow>
   decode_share_batches (length bs) (concat (map encode_share_batch bs)) = Inr bs"
proof (induction bs)
  case (Cons b bs)
  then show ?case
    using decode_share_records_encode [of "ab_records b" "concat (map encode_share_batch bs)"]
    by (simp add: share_batch_ok_def [of b] encode_share_batch_def [of b] need_room_def rd_be_append
        u64_ok_def u32_ok_def)
qed simp

text \<open>The client reads the acquired records that the broker sent.
  Batches of acquired records with their delivery counts, keys and values come back from the
  body of a share fetch response as they were, with null kept apart from empty.\<close>

theorem share_fetch_response_roundtrip:
  assumes "list_all share_batch_ok bs" "u32_ok (length bs)"
  shows "decode_share_fetch_response (encode_share_fetch_response bs) = Inr bs"
  using assms decode_share_batches_encode [OF assms(1)]
  by (simp add: decode_share_fetch_response_def encode_share_fetch_response_def need_room_def
      rd_be_append u32_ok_def)

definition demo_share_batch :: AcquiredRecordBatch where
  "demo_share_batch = \<lparr>ab_first_offset = 4, ab_last_offset = 5, ab_delivery_count = 1,
     ab_records = [\<lparr>rec_offset = 4, rec_timestamp = 9, rec_key = None, rec_value = Some [],
       is_control = False\<rparr>, \<lparr>rec_offset = 5, rec_timestamp = 9, rec_key = Some [1],
       rec_value = None, is_control = False\<rparr>]\<rparr>"

theorem share_fetch_response_roundtrip_witness:
  "decode_share_fetch_response (encode_share_fetch_response [demo_share_batch]) =
     Inr [demo_share_batch]"
  by (rule share_fetch_response_roundtrip)
     (simp_all add: demo_share_batch_def share_batch_ok_def share_record_ok_def nullable_ok_def
        u32_ok_def u64_ok_def)

end
