(* ===== verification/Cluster_Metadata.thy ===== *)
theory Cluster_Metadata
  imports Client_Requests Acl Transactions
begin

text \<open>
  The records of the cluster metadata log (\<^verbatim>\<open>src/replication/metadata.rs\<close>): what the
  controller writes and every broker replays. Shown: every record reads back as it was
  written, and the layouts from before the optional trailing fields still decode.
\<close>

section \<open>Records\<close>

datatype (plugins only: size) MetadataRecord =
    TransactionState nat nat bytes
  | TopicPartition string nat nat "nat list"
  | BrokerRegister nat string bytes
  | TopicCreated string nat nat
  | TopicDeleted string
  | PartitionLeadershipChange string nat nat nat "nat list" "nat list option"
  | AclCreated AclBinding
  | AclDeleted AclBinding
  | BrokerUnregister nat
  | ScramCredentialUpsert string nat bytes bytes bytes byte
  | ScramCredentialDelete string
  | TransactionalProducerRegistration string nat int
  | TopicConfigChanged string "(string \<times> string) list"

definition put_u32_list :: "nat list \<Rightarrow> bytes" where
  "put_u32_list ids = be_bytes 4 (length ids) @ concat (map (be_bytes 4) ids)"

definition put_binding :: "AclBinding \<Rightarrow> bytes option" where
  "put_binding b =
     put_all [put_be 1 (resource_type b), put_str (resource_name b), put_be 1 (pattern_type b),
       put_str (acl_principal b), put_str (acl_host b), put_be 1 (acl_operation b),
       put_be 1 (permission_type b)]"

fun encode_metadata :: "MetadataRecord \<Rightarrow> bytes option" where
  "encode_metadata (TransactionState revision created_at_ms st) =
     put_all [put_u8 13, put_be 8 revision, put_be 8 created_at_ms, Some st]"
| "encode_metadata (TopicPartition topic p leader_id replicas) =
     put_all [put_u8 1, put_str topic, put_be 4 p, put_be 4 leader_id, Some (put_u32_list replicas)]"
| "encode_metadata (BrokerRegister node_id bind_addr roles) =
     put_all [put_u8 2, put_be 4 node_id, put_str bind_addr, put_be 1 (length roles), Some roles]"
| "encode_metadata (TopicCreated topic num_partitions replication_factor) =
     put_all [put_u8 3, put_str topic, put_be 4 num_partitions, put_be 2 replication_factor]"
| "encode_metadata (TopicDeleted topic) = put_all [put_u8 4, put_str topic]"
| "encode_metadata (PartitionLeadershipChange topic p leader_id leader_epoch isr replicas) =
     put_all [put_u8 5, put_str topic, put_be 4 p, put_be 4 leader_id, put_be 4 leader_epoch,
       Some (put_u32_list isr),
       Some (case replicas of None \<Rightarrow> [] | Some ids \<Rightarrow> put_u32_list ids)]"
| "encode_metadata (AclCreated b) = put_all [put_u8 6, put_binding b]"
| "encode_metadata (AclDeleted b) = put_all [put_u8 7, put_binding b]"
| "encode_metadata (BrokerUnregister node_id) = put_all [put_u8 8, put_be 4 node_id]"
| "encode_metadata (ScramCredentialUpsert username iterations salt stored_key server_key mechanism) =
     put_all [put_u8 9, put_str username, put_be 4 iterations, write_len_prefixed_bytes salt,
       write_len_prefixed_bytes stored_key, write_len_prefixed_bytes server_key, put_u8 mechanism]"
| "encode_metadata (ScramCredentialDelete username) = put_all [put_u8 10, put_str username]"
| "encode_metadata (TransactionalProducerRegistration tid producer_id epoch) =
     put_all [put_u8 11, put_str tid, put_be 8 producer_id, put_i16 epoch]"
| "encode_metadata (TopicConfigChanged topic configs) =
     put_all ([put_u8 12, put_str topic, put_be 4 (length configs)] @ map put_pair configs)"

section \<open>Decoding\<close>

datatype MetaError = MetaEof | MetaInvalid

definition read_pascal_string_io :: "bytes \<Rightarrow> MetaError + string \<times> bytes" where
  "read_pascal_string_io buf =
     (if length buf < 2 then Inl MetaEof
      else rd_be 2 buf (\<lambda>len buf.
        if length buf < len then Inl MetaEof
        else case from_utf8 (take len buf) of
               None \<Rightarrow> Inl MetaInvalid | Some s \<Rightarrow> Inr (s, drop len buf)))"

definition m_str :: "bytes \<Rightarrow> (string \<Rightarrow> bytes \<Rightarrow> MetaError + 'a) \<Rightarrow> MetaError + 'a" where
  "m_str buf k = (case read_pascal_string_io buf of Inl e \<Rightarrow> Inl e | Inr (s, buf) \<Rightarrow> k s buf)"

definition m_room :: "nat \<Rightarrow> bytes \<Rightarrow> MetaError + 'a \<Rightarrow> MetaError + 'a" where
  "m_room n buf k = (if length buf < n then Inl MetaEof else k)"

definition m_bytes :: "bytes \<Rightarrow> (bytes \<Rightarrow> bytes \<Rightarrow> MetaError + 'a) \<Rightarrow> MetaError + 'a" where
  "m_bytes buf k =
     m_room 2 buf (rd_be 2 buf (\<lambda>len buf. m_room len buf (k (take len buf) (drop len buf))))"

text \<open>A count, its two limits and the ids it announces.\<close>

definition m_u32s :: "bytes \<Rightarrow> (nat list \<Rightarrow> bytes \<Rightarrow> MetaError + 'a) \<Rightarrow> MetaError + 'a" where
  "m_u32s buf k =
     rd_be 4 buf (\<lambda>len buf.
     if 100000 < len \<or> length buf div 4 < len then Inl MetaInvalid
     else m_room (len * 4) buf (case read_u32s len buf of (ids, buf) \<Rightarrow> k ids buf))"

primrec m_pairs :: "nat \<Rightarrow> bytes \<Rightarrow> MetaError + (string \<times> string) list" where
  "m_pairs 0 buf = Inr []"
| "m_pairs (Suc n) buf =
     m_str buf (\<lambda>key buf. m_str buf (\<lambda>val buf.
     case m_pairs n buf of Inl e \<Rightarrow> Inl e | Inr ps \<Rightarrow> Inr ((key, val) # ps)))"

definition m_binding :: "(AclBinding \<Rightarrow> MetadataRecord) \<Rightarrow> bytes \<Rightarrow> MetaError + MetadataRecord" where
  "m_binding mk src =
     m_room 1 src (rd_be 1 src (\<lambda>rt src. m_str src (\<lambda>rn src.
     m_room 1 src (rd_be 1 src (\<lambda>pt src. m_str src (\<lambda>pr src. m_str src (\<lambda>host src.
     m_room 2 src (rd_be 1 src (\<lambda>opn src. rd_be 1 src (\<lambda>perm _.
     Inr (mk \<lparr>resource_type = rt, resource_name = rn, pattern_type = pt, acl_principal = pr,
              acl_host = host, acl_operation = opn, permission_type = perm\<rparr>)))))))))))"

definition m_transaction_state :: "bytes \<Rightarrow> MetaError + MetadataRecord" where
  "m_transaction_state src =
     m_room 16 src (rd_be 8 src (\<lambda>revision src. rd_be 8 src (\<lambda>created_at_ms src.
     if decode_tx_state_record src = None then Inl MetaInvalid
     else Inr (TransactionState revision created_at_ms src))))"

definition m_topic_partition :: "bytes \<Rightarrow> MetaError + MetadataRecord" where
  "m_topic_partition src =
     m_str src (\<lambda>topic src. m_room 12 src (rd_be 4 src (\<lambda>p src. rd_be 4 src (\<lambda>leader_id src.
     m_u32s src (\<lambda>replicas _. Inr (TopicPartition topic p leader_id replicas))))))"

definition m_broker_register :: "bytes \<Rightarrow> MetaError + MetadataRecord" where
  "m_broker_register src =
     m_room 6 src (rd_be 4 src (\<lambda>node_id src. m_str src (\<lambda>bind_addr src.
     if src \<noteq> [] then
       rd_be 1 src (\<lambda>count src.
       m_room count src (Inr (BrokerRegister node_id bind_addr (take count src))))
     else Inr (BrokerRegister node_id bind_addr []))))"

definition m_topic_created :: "bytes \<Rightarrow> MetaError + MetadataRecord" where
  "m_topic_created src =
     m_str src (\<lambda>topic src. m_room 6 src (rd_be 4 src (\<lambda>n src. rd_be 2 src (\<lambda>rf _.
     Inr (TopicCreated topic n rf)))))"

definition m_topic_deleted :: "bytes \<Rightarrow> MetaError + MetadataRecord" where
  "m_topic_deleted src = m_str src (\<lambda>topic _. Inr (TopicDeleted topic))"

definition m_leadership_change :: "bytes \<Rightarrow> MetaError + MetadataRecord" where
  "m_leadership_change src =
     m_str src (\<lambda>topic src. m_room 16 src (rd_be 4 src (\<lambda>p src. rd_be 4 src (\<lambda>leader_id src.
     rd_be 4 src (\<lambda>leader_epoch src. m_u32s src (\<lambda>isr src.
     if 4 \<le> length src then
       m_u32s src (\<lambda>replicas _.
       Inr (PartitionLeadershipChange topic p leader_id leader_epoch isr (Some replicas)))
     else Inr (PartitionLeadershipChange topic p leader_id leader_epoch isr None)))))))"

definition m_broker_unregister :: "bytes \<Rightarrow> MetaError + MetadataRecord" where
  "m_broker_unregister src = m_room 4 src (rd_be 4 src (\<lambda>node_id _. Inr (BrokerUnregister node_id)))"

definition m_scram_upsert :: "bytes \<Rightarrow> MetaError + MetadataRecord" where
  "m_scram_upsert src =
     m_str src (\<lambda>username src. m_room 4 src (rd_be 4 src (\<lambda>iterations src.
     m_bytes src (\<lambda>salt src. m_bytes src (\<lambda>stored_key src. m_bytes src (\<lambda>server_key src.
     Inr (ScramCredentialUpsert username iterations salt stored_key server_key
            (if src = [] then 0 else src ! 0))))))))"

definition m_scram_delete :: "bytes \<Rightarrow> MetaError + MetadataRecord" where
  "m_scram_delete src = m_str src (\<lambda>username _. Inr (ScramCredentialDelete username))"

definition m_producer_registration :: "bytes \<Rightarrow> MetaError + MetadataRecord" where
  "m_producer_registration src =
     m_str src (\<lambda>tid src. m_room 10 src (rd_be 8 src (\<lambda>producer_id src. rd_be 2 src (\<lambda>epoch _.
     Inr (TransactionalProducerRegistration tid producer_id (i16_of epoch))))))"

definition m_config_changed :: "bytes \<Rightarrow> MetaError + MetadataRecord" where
  "m_config_changed src =
     m_str src (\<lambda>topic src. m_room 4 src (rd_be 4 src (\<lambda>count src.
     if 100000 < count \<or> length src div 4 < count then Inl MetaInvalid
     else case m_pairs count src of
            Inl e \<Rightarrow> Inl e | Inr configs \<Rightarrow> Inr (TopicConfigChanged topic configs))))"

definition decode_metadata :: "bytes \<Rightarrow> MetaError + MetadataRecord" where
  "decode_metadata src =
     (case src of
        [] \<Rightarrow> Inl MetaEof
      | ty # src \<Rightarrow>
          if ty = 13 then m_transaction_state src
          else if ty = 1 then m_topic_partition src
          else if ty = 2 then m_broker_register src
          else if ty = 3 then m_topic_created src
          else if ty = 4 then m_topic_deleted src
          else if ty = 5 then m_leadership_change src
          else if ty = 6 then m_binding AclCreated src
          else if ty = 7 then m_binding AclDeleted src
          else if ty = 8 then m_broker_unregister src
          else if ty = 9 then m_scram_upsert src
          else if ty = 10 then m_scram_delete src
          else if ty = 11 then m_producer_registration src
          else if ty = 12 then m_config_changed src
          else Inl MetaInvalid)"

section \<open>Round trip\<close>

definition ids_ok :: "nat list \<Rightarrow> bool" where
  "ids_ok ids \<longleftrightarrow> list_all u32_ok ids \<and> length ids \<le> 100000"

definition binding_ok :: "AclBinding \<Rightarrow> bool" where
  "binding_ok b \<longleftrightarrow> resource_type b < 256 \<and> pascal_ok (resource_name b) \<and> pattern_type b < 256 \<and>
     pascal_ok (acl_principal b) \<and> pascal_ok (acl_host b) \<and> acl_operation b < 256 \<and>
     permission_type b < 256"

fun metadata_ok :: "MetadataRecord \<Rightarrow> bool" where
  "metadata_ok (TransactionState revision created_at_ms st) \<longleftrightarrow>
     u64_ok revision \<and> u64_ok created_at_ms \<and> decode_tx_state_record st \<noteq> None"
| "metadata_ok (TopicPartition topic p leader_id replicas) \<longleftrightarrow>
     pascal_ok topic \<and> u32_ok p \<and> u32_ok leader_id \<and> ids_ok replicas"
| "metadata_ok (BrokerRegister node_id bind_addr roles) \<longleftrightarrow>
     u32_ok node_id \<and> pascal_ok bind_addr \<and> length roles < 256"
| "metadata_ok (TopicCreated topic n rf) \<longleftrightarrow> pascal_ok topic \<and> u32_ok n \<and> rf < 65536"
| "metadata_ok (TopicDeleted topic) \<longleftrightarrow> pascal_ok topic"
| "metadata_ok (PartitionLeadershipChange topic p leader_id leader_epoch isr replicas) \<longleftrightarrow>
     pascal_ok topic \<and> u32_ok p \<and> u32_ok leader_id \<and> u32_ok leader_epoch \<and> ids_ok isr \<and>
     (case replicas of None \<Rightarrow> True | Some ids \<Rightarrow> ids_ok ids)"
| "metadata_ok (AclCreated b) \<longleftrightarrow> binding_ok b"
| "metadata_ok (AclDeleted b) \<longleftrightarrow> binding_ok b"
| "metadata_ok (BrokerUnregister node_id) \<longleftrightarrow> u32_ok node_id"
| "metadata_ok (ScramCredentialUpsert username iterations salt stored_key server_key mechanism) \<longleftrightarrow>
     pascal_ok username \<and> u32_ok iterations \<and> length salt < 65536 \<and> length stored_key < 65536 \<and>
     length server_key < 65536"
| "metadata_ok (ScramCredentialDelete username) \<longleftrightarrow> pascal_ok username"
| "metadata_ok (TransactionalProducerRegistration tid producer_id epoch) \<longleftrightarrow>
     pascal_ok tid \<and> u64_ok producer_id \<and> i16_ok epoch"
| "metadata_ok (TopicConfigChanged topic configs) \<longleftrightarrow>
     pascal_ok topic \<and> list_all pair_ok configs \<and> length configs \<le> 100000"

lemma m_str_append: "pascal_ok s \<Longrightarrow> m_str (pascal s @ rest) k = k s rest"
  by (simp add: m_str_def read_pascal_string_io_def pascal_def pascal_ok_def rd_be_append
      from_utf8_str_bytes)

lemma m_str_end: "pascal_ok s \<Longrightarrow> m_str (pascal s) k = k s []"
  using m_str_append [of s "[]" k] by simp

lemma m_bytes_append:
  "length bs < 65536 \<Longrightarrow> m_bytes (be_bytes 2 (length bs) @ bs @ rest) k = k bs rest"
  by (simp add: m_bytes_def m_room_def rd_be_append)

lemma m_u32s_append:
  assumes "ids_ok ids"
  shows "m_u32s (put_u32_list ids @ rest) k = k ids rest"
proof -
  have len: "length (concat (map (be_bytes 4) ids)) = length ids * 4"
    by (rule length_concat_eq) (simp add: list_all_iff)
  have "length ids < 256 ^ 4" using assms by (simp add: ids_ok_def)
  then show ?thesis
    using assms read_u32s_written [of ids rest]
    by (simp add: m_u32s_def put_u32_list_def rd_be_append ids_ok_def m_room_def len)
qed

lemma length_put_u32_list: "length (put_u32_list ids) = 4 + length ids * 4"
proof -
  have "length (concat (map (be_bytes 4) ids)) = length ids * 4"
    by (rule length_concat_eq) (simp add: list_all_iff)
  then show ?thesis by (simp add: put_u32_list_def)
qed

lemma m_u32s_end: "ids_ok ids \<Longrightarrow> m_u32s (put_u32_list ids) k = k ids []"
  using m_u32s_append [of ids "[]" k] by simp

lemma m_pairs_written:
  "list_all pair_ok ps \<Longrightarrow> m_pairs (length ps) (concat (map pair_bytes ps)) = Inr ps"
  by (induction ps) (simp_all add: m_str_append pair_ok_def [of "(_, _)"] pair_ok_def pair_bytes_def)

lemmas meta_read = m_str_append m_str_end m_bytes_append m_u32s_append m_u32s_end m_room_def
  rd_be_append rd_be_end rd_be_Cons write_pascal_string_ok u32_ok_def u64_ok_def put_i16_def
  i16_of_put i16_range write_len_prefixed_bytes_def length_put_u32_list

lemma m_binding_written:
  "binding_ok b \<Longrightarrow> \<exists>bs. put_binding b = Some bs \<and> m_binding mk bs = Inr (mk b)"
  by (cases b) (simp add: put_binding_def binding_ok_def m_binding_def meta_read
      del: be_bytes.simps One_nat_def)

lemma m_config_changed_written:
  assumes "metadata_ok (TopicConfigChanged topic configs)"
  shows "m_config_changed (pascal topic @ be_bytes 4 (length configs) @ concat (map pair_bytes configs)) =
    Inr (TopicConfigChanged topic configs)"
proof -
  have "length configs * 4 \<le> length (concat (map pair_bytes configs))" by (rule length_items(2))
  then have "\<not> length (concat (map pair_bytes configs)) div 4 < length configs" by simp
  then show ?thesis
    using assms m_pairs_written [of configs] by (simp add: m_config_changed_def meta_read)
qed

text \<open>C39 The metadata log reads back as it was written.
  Every metadata record whose fields fit their widths is encoded without a panic, and the
  decoder returns exactly that record, with an absent replica set kept apart from an empty
  one.\<close>

theorem metadata_record_roundtrip:
  assumes "metadata_ok r"
  shows "\<exists>bs. encode_metadata r = Some bs \<and> decode_metadata bs = Inr r"
proof (cases r)
  case (AclCreated b)
  then show ?thesis
    using assms m_binding_written [of b AclCreated] by (auto simp: decode_metadata_def)
next
  case (AclDeleted b)
  then show ?thesis
    using assms m_binding_written [of b AclDeleted] by (auto simp: decode_metadata_def)
next
  case (TopicConfigChanged topic configs)
  then show ?thesis
    using assms m_config_changed_written [of topic configs]
    by (simp add: decode_metadata_def put_lists_end write_pascal_string_ok)
next
  case (PartitionLeadershipChange topic p leader_id leader_epoch isr replicas)
  then show ?thesis
    using assms
    by (cases replicas) (simp_all add: decode_metadata_def m_leadership_change_def meta_read)
next
  case (TransactionState revision created_at_ms st)
  then show ?thesis
    using assms by (auto simp: decode_metadata_def m_transaction_state_def meta_read)
qed (use assms in \<open>simp_all add: decode_metadata_def m_topic_partition_def m_broker_register_def
    m_topic_created_def m_topic_deleted_def m_broker_unregister_def m_scram_upsert_def
    m_scram_delete_def m_producer_registration_def meta_read del: be_bytes.simps One_nat_def\<close>)

theorem metadata_record_roundtrip_witness:
  "\<exists>bs. encode_metadata (PartitionLeadershipChange ''t'' 0 2 7 [2, 3] (Some [])) = Some bs \<and>
     decode_metadata bs = Inr (PartitionLeadershipChange ''t'' 0 2 7 [2, 3] (Some []))"
  by (rule metadata_record_roundtrip) (simp add: pascal_ok_def ids_ok_def u32_ok_def)

lemma m_bytes_empty:
  "m_bytes (be_bytes 2 0 @ rest) k = k [] rest"
  "m_bytes (be_bytes 2 0) k = k [] []"
  using m_bytes_append [of "[]" rest k] m_bytes_append [of "[]" "[]" k] by simp_all

text \<open>Records from before the optional fields: no roles, no replica set, no mechanism.\<close>

lemma legacy_records_decode:
  assumes "pascal_ok s" "u32_ok n" "ids_ok isr"
  shows "decode_metadata (2 # be_bytes 4 n @ pascal s) = Inr (BrokerRegister n s [])"
    and "decode_metadata (5 # pascal s @ be_bytes 4 n @ be_bytes 4 n @ be_bytes 4 n @ put_u32_list isr) =
      Inr (PartitionLeadershipChange s n n n isr None)"
    and "decode_metadata (9 # pascal s @ be_bytes 4 n @ concat (replicate 3 (be_bytes 2 0))) =
      Inr (ScramCredentialUpsert s n [] [] [] 0)"
  using assms
  by (simp_all add: decode_metadata_def m_broker_register_def m_leadership_change_def
      m_scram_upsert_def meta_read m_bytes_empty numeral_3_eq_3)

end
