(* ===== verification/Record_Batch.thy ===== *)
theory Record_Batch
  imports Wire_Requests
begin

unbundle bit_operations_syntax

text \<open>
  Record batches (\<^verbatim>\<open>src/protocol/batch.rs\<close>), the entries of the log (\<^verbatim>\<open>src/segment/entry.rs\<close>)
  and how a client turns a fetched stretch of the log into records (\<^verbatim>\<open>src/client.rs\<close>). The
  checksum of \<open>crc32fast\<close> and the compression of \<open>lz4_flex\<close> and \<open>zstd\<close> are arguments: the
  checksum a function to 32-bit numbers, a codec a pair of functions of which the theorems
  assume that decompression undoes compression. Subtractions and additions of times and
  offsets wrap around as in the release build.
\<close>

section \<open>Batches\<close>

definition MAX_DECOMPRESSED_BATCH_BYTES :: nat where "MAX_DECOMPRESSED_BATCH_BYTES = 67108864"
definition BATCH_MAGIC_BYTE :: byte where "BATCH_MAGIC_BYTE = 192"
definition BATCH_HEADER_SIZE :: nat where "BATCH_HEADER_SIZE = 53"
definition BATCH_LENGTH_COVERED_FIXED :: nat where
  "BATCH_LENGTH_COVERED_FIXED = BATCH_HEADER_SIZE - 1 - 4"
definition RECORD_ENTRY_MIN_SIZE :: nat where "RECORD_ENTRY_MIN_SIZE = 20"
definition ATTR_COMPRESSION_MASK :: "16 word" where "ATTR_COMPRESSION_MASK = 7"
definition ATTR_TRANSACTIONAL_FLAG :: "16 word" where "ATTR_TRANSACTIONAL_FLAG = 8"
definition ATTR_CONTROL_FLAG :: "16 word" where "ATTR_CONTROL_FLAG = 16"

datatype BatchError =
    BufferTooShort nat nat
  | InvalidMagic byte byte
  | InvalidBatchLength nat nat
  | CrcMismatch nat nat
  | InvalidCompressionCodec nat
  | TruncatedRecord
  | TrailingRecordData nat nat
  | BatchIo

datatype BatchCompression = NoCompression | Lz4 | Zstd

fun to_bits :: "BatchCompression \<Rightarrow> 16 word" where
  "to_bits NoCompression = 0"
| "to_bits Lz4 = 1"
| "to_bits Zstd = 2"

definition from_bits :: "16 word \<Rightarrow> BatchError + BatchCompression" where
  "from_bits bits =
     (if bits = 0 then Inr NoCompression else if bits = 1 then Inr Lz4
      else if bits = 2 then Inr Zstd else Inl (InvalidCompressionCodec (unat bits)))"

record BatchRecord =
  br_offset :: nat
  br_timestamp :: nat
  br_key :: "bytes option"
  br_value :: "bytes option"

record RecordBatch =
  rb_magic :: byte
  rb_crc :: nat
  rb_base_offset :: nat
  rb_last_offset_delta :: nat
  rb_base_timestamp :: nat
  rb_producer_id :: nat
  rb_producer_epoch :: int
  rb_base_sequence :: int
  rb_leader_epoch :: nat
  rb_attributes :: "16 word"
  rb_record_count :: nat
  rb_record_data :: bytes

text \<open>The third-party codecs: compression, and decompression that may fail.\<close>

record codecs =
  lz4_compress :: "bytes \<Rightarrow> bytes"
  lz4_decompress :: "bytes \<Rightarrow> bytes option"
  zstd_encode :: "bytes \<Rightarrow> bytes"
  zstd_decode :: "bytes \<Rightarrow> bytes option"

text \<open>Signed numbers of \<open>w\<close> bytes in two's complement.\<close>

definition put_signed :: "nat \<Rightarrow> int \<Rightarrow> bytes" where
  "put_signed w v = be_bytes w (nat (v mod 256 ^ w))"

definition signed_of :: "nat \<Rightarrow> nat \<Rightarrow> int" where
  "signed_of w v = (if 2 * int v < 256 ^ w then int v else int v - 256 ^ w)"

definition encode_opt_bytes :: "bytes option \<Rightarrow> bytes" where
  "encode_opt_bytes v =
     (case v of None \<Rightarrow> put_signed 4 (- 1) | Some b \<Rightarrow> be_bytes 4 (length b) @ b)"

definition decode_opt_bytes :: "bytes \<Rightarrow> BatchError + bytes option \<times> bytes" where
  "decode_opt_bytes cur =
     (if length cur < 4 then Inl TruncatedRecord
      else rd_be 4 cur (\<lambda>raw cur.
        let len = signed_of 4 raw in
        if len = - 1 then Inr (None, cur)
        else if len < - 1 then Inl TruncatedRecord
        else if length cur < nat len then Inl TruncatedRecord
        else Inr (Some (take (nat len) cur), drop (nat len) cur)))"

definition put_record :: "nat \<Rightarrow> nat \<Rightarrow> nat \<Rightarrow> bytes option \<Rightarrow> bytes option \<Rightarrow> bytes" where
  "put_record base_timestamp delta timestamp key val =
     be_bytes 4 delta @ be_bytes 8 (sub64 timestamp base_timestamp)
       @ encode_opt_bytes key @ encode_opt_bytes val"

definition compress :: "codecs \<Rightarrow> BatchCompression \<Rightarrow> bytes \<Rightarrow> bytes" where
  "compress cs codec raw =
     (case codec of NoCompression \<Rightarrow> raw | Lz4 \<Rightarrow> lz4_compress cs raw | Zstd \<Rightarrow> zstd_encode cs raw)"

definition batch_attributes :: "BatchCompression \<Rightarrow> bool \<Rightarrow> 16 word" where
  "batch_attributes codec transactional =
     (let attributes = to_bits codec AND ATTR_COMPRESSION_MASK
      in if transactional then attributes OR ATTR_TRANSACTIONAL_FLAG else attributes)"

definition calculate_crc :: "(bytes \<Rightarrow> nat) \<Rightarrow> RecordBatch \<Rightarrow> nat" where
  "calculate_crc crc b =
     crc (be_bytes 8 (rb_base_offset b) @ be_bytes 4 (rb_last_offset_delta b)
       @ be_bytes 8 (rb_base_timestamp b) @ be_bytes 8 (rb_producer_id b)
       @ put_signed 2 (rb_producer_epoch b) @ put_signed 4 (rb_base_sequence b)
       @ be_bytes 4 (rb_leader_epoch b) @ be_bytes 2 (unat (rb_attributes b))
       @ be_bytes 4 (rb_record_count b) @ rb_record_data b)"

definition seal :: "(bytes \<Rightarrow> nat) \<Rightarrow> RecordBatch \<Rightarrow> RecordBatch" where
  "seal crc b = b\<lparr>rb_crc := calculate_crc crc b\<rparr>"

type_synonym new_record = "nat \<times> bytes option \<times> bytes option"

definition create ::
  "(bytes \<Rightarrow> nat) \<Rightarrow> codecs \<Rightarrow> nat \<Rightarrow> nat \<Rightarrow> nat \<Rightarrow> nat \<Rightarrow> int \<Rightarrow> int \<Rightarrow> bool \<Rightarrow> BatchCompression
    \<Rightarrow> new_record list \<Rightarrow> RecordBatch" where
  "create crc cs base_offset base_timestamp leader_epoch producer_id producer_epoch
     base_sequence transactional codec records =
     (let raw = concat (map (\<lambda>(i, ts, k, v). put_record base_timestamp i ts k v)
                  (zip [0 ..< length records] records))
      in seal crc \<lparr>rb_magic = BATCH_MAGIC_BYTE, rb_crc = 0, rb_base_offset = base_offset,
           rb_last_offset_delta = length records mod 4294967296 - 1, rb_base_timestamp = base_timestamp,
           rb_producer_id = producer_id, rb_producer_epoch = producer_epoch,
           rb_base_sequence = base_sequence, rb_leader_epoch = leader_epoch,
           rb_attributes = batch_attributes codec transactional,
           rb_record_count = length records mod 4294967296,
           rb_record_data = compress cs codec raw\<rparr>)"

text \<open>A batch over records that have their offsets; records before the base are left out.\<close>

definition add_at_offset ::
  "nat \<Rightarrow> nat \<Rightarrow> nat \<times> new_record \<Rightarrow> bytes \<times> nat \<times> nat \<Rightarrow> bytes \<times> nat \<times> nat" where
  "add_at_offset base_offset base_timestamp = (\<lambda>(off, ts, k, v) (raw, record_count, last_delta).
     if off < base_offset then (raw, record_count, last_delta)
     else (let delta = (off - base_offset) mod 4294967296
           in (raw @ put_record base_timestamp delta ts k v, record_count + 1, max last_delta delta)))"

definition create_with_offsets ::
  "(bytes \<Rightarrow> nat) \<Rightarrow> codecs \<Rightarrow> nat \<Rightarrow> nat \<Rightarrow> nat \<Rightarrow> nat \<Rightarrow> int \<Rightarrow> int \<Rightarrow> bool \<Rightarrow> BatchCompression
    \<Rightarrow> (nat \<times> new_record) list \<Rightarrow> RecordBatch" where
  "create_with_offsets crc cs base_offset base_timestamp leader_epoch producer_id producer_epoch
     base_sequence transactional codec records =
     (case fold (add_at_offset base_offset base_timestamp) records ([], 0, 0) of
        (raw, record_count, last_delta) \<Rightarrow>
          seal crc \<lparr>rb_magic = BATCH_MAGIC_BYTE, rb_crc = 0, rb_base_offset = base_offset,
            rb_last_offset_delta = last_delta, rb_base_timestamp = base_timestamp,
            rb_producer_id = producer_id, rb_producer_epoch = producer_epoch,
            rb_base_sequence = base_sequence, rb_leader_epoch = leader_epoch,
            rb_attributes = batch_attributes codec transactional,
            rb_record_count = record_count mod 4294967296,
            rb_record_data = compress cs codec raw\<rparr>)"

definition compression :: "RecordBatch \<Rightarrow> BatchError + BatchCompression" where
  "compression b = from_bits (rb_attributes b AND ATTR_COMPRESSION_MASK)"

definition is_transactional :: "RecordBatch \<Rightarrow> bool" where
  "is_transactional b \<longleftrightarrow> rb_attributes b AND ATTR_TRANSACTIONAL_FLAG \<noteq> 0"

definition is_control_batch :: "RecordBatch \<Rightarrow> bool" where
  "is_control_batch b \<longleftrightarrow> rb_attributes b AND ATTR_CONTROL_FLAG \<noteq> 0"

definition set_control :: "(bytes \<Rightarrow> nat) \<Rightarrow> RecordBatch \<Rightarrow> RecordBatch" where
  "set_control crc b = seal crc (b\<lparr>rb_attributes := rb_attributes b OR ATTR_CONTROL_FLAG\<rparr>)"

definition assign_base_offset_and_leader_epoch ::
  "(bytes \<Rightarrow> nat) \<Rightarrow> nat \<Rightarrow> nat \<Rightarrow> RecordBatch \<Rightarrow> RecordBatch" where
  "assign_base_offset_and_leader_epoch crc base_offset leader_epoch b =
     seal crc (b\<lparr>rb_base_offset := base_offset, rb_leader_epoch := leader_epoch\<rparr>)"

definition verify_crc :: "(bytes \<Rightarrow> nat) \<Rightarrow> RecordBatch \<Rightarrow> BatchError + unit" where
  "verify_crc crc b =
     (let calculated = calculate_crc crc b
      in if calculated \<noteq> rb_crc b then Inl (CrcMismatch (rb_crc b) calculated) else Inr ())"

text \<open>\<open>u32::from_le_bytes\<close> of the size that lz4 puts in front.\<close>

definition le_val :: "bytes \<Rightarrow> nat" where
  "le_val bs = be_val (rev bs)"

definition decompress :: "codecs \<Rightarrow> RecordBatch \<Rightarrow> BatchError + bytes" where
  "decompress cs b =
     (case compression b of
        Inl e \<Rightarrow> Inl e
      | Inr NoCompression \<Rightarrow> Inr (rb_record_data b)
      | Inr Lz4 \<Rightarrow>
          (if length (rb_record_data b) < 4 then Inl TruncatedRecord
           else if MAX_DECOMPRESSED_BATCH_BYTES < le_val (take 4 (rb_record_data b)) then Inl BatchIo
           else case lz4_decompress cs (rb_record_data b) of
                  None \<Rightarrow> Inl BatchIo | Some raw \<Rightarrow> Inr raw)
      | Inr Zstd \<Rightarrow>
          (case zstd_decode cs (rb_record_data b) of
             None \<Rightarrow> Inl BatchIo
           | Some out \<Rightarrow>
               (let raw = take (MAX_DECOMPRESSED_BATCH_BYTES + 1) out
                in if MAX_DECOMPRESSED_BATCH_BYTES < length raw then Inl BatchIo else Inr raw)))"

primrec decode_record_list ::
  "nat \<Rightarrow> nat \<Rightarrow> nat \<Rightarrow> bytes \<Rightarrow> BatchError + BatchRecord list \<times> bytes" where
  "decode_record_list 0 base_offset base_timestamp cur = Inr ([], cur)"
| "decode_record_list (Suc n) base_offset base_timestamp cur =
     (if length cur < 12 then Inl TruncatedRecord
      else rd_be 4 cur (\<lambda>offset_delta cur. rd_be 8 cur (\<lambda>timestamp_delta cur.
        case decode_opt_bytes cur of
          Inl e \<Rightarrow> Inl e
        | Inr (key, cur) \<Rightarrow>
            (case decode_opt_bytes cur of
               Inl e \<Rightarrow> Inl e
             | Inr (val, cur) \<Rightarrow>
                 (case decode_record_list n base_offset base_timestamp cur of
                    Inl e \<Rightarrow> Inl e
                  | Inr (rs, cur) \<Rightarrow>
                      Inr (\<lparr>br_offset = add64 base_offset offset_delta,
                            br_timestamp = add64 base_timestamp timestamp_delta,
                            br_key = key, br_value = val\<rparr> # rs, cur))))))"

definition decode_records :: "nat \<Rightarrow> nat \<Rightarrow> nat \<Rightarrow> bytes \<Rightarrow> BatchError + BatchRecord list" where
  "decode_records record_count base_offset base_timestamp data =
     (case decode_record_list record_count base_offset base_timestamp data of
        Inl e \<Rightarrow> Inl e
      | Inr (rs, cur) \<Rightarrow>
          if cur \<noteq> [] then Inl (TrailingRecordData record_count (length cur)) else Inr rs)"

definition batch_records :: "codecs \<Rightarrow> RecordBatch \<Rightarrow> BatchError + BatchRecord list" where
  "batch_records cs b =
     (if MAX_DECOMPRESSED_BATCH_BYTES < length (rb_record_data b) then Inl BatchIo
      else case decompress cs b of
        Inl e \<Rightarrow> Inl e
      | Inr raw \<Rightarrow>
          if length raw div RECORD_ENTRY_MIN_SIZE < rb_record_count b then Inl TruncatedRecord
          else if 100000 < rb_record_count b then Inl BatchIo
          else decode_records (rb_record_count b) (rb_base_offset b) (rb_base_timestamp b) raw)"

definition encoded_size :: "RecordBatch \<Rightarrow> nat" where
  "encoded_size b = BATCH_HEADER_SIZE + length (rb_record_data b)"

definition encode_record_batch :: "RecordBatch \<Rightarrow> bytes" where
  "encode_record_batch b =
     rb_magic b # be_bytes 4 (BATCH_LENGTH_COVERED_FIXED + length (rb_record_data b))
       @ be_bytes 4 (rb_crc b) @ be_bytes 8 (rb_base_offset b)
       @ be_bytes 4 (rb_last_offset_delta b) @ be_bytes 8 (rb_base_timestamp b)
       @ be_bytes 8 (rb_producer_id b) @ put_signed 2 (rb_producer_epoch b)
       @ put_signed 4 (rb_base_sequence b) @ be_bytes 4 (rb_leader_epoch b)
       @ be_bytes 2 (unat (rb_attributes b)) @ be_bytes 4 (rb_record_count b)
       @ rb_record_data b"

definition decode_batch :: "(bytes \<Rightarrow> nat) \<Rightarrow> bytes \<Rightarrow> BatchError + RecordBatch \<times> nat" where
  "decode_batch crc src =
     (if length src < 5 then Inl (BufferTooShort 5 (length src))
      else rd_be 1 src (\<lambda>magic src.
        if of_nat magic \<noteq> BATCH_MAGIC_BYTE then Inl (InvalidMagic BATCH_MAGIC_BYTE (of_nat magic))
        else rd_be 4 src (\<lambda>batch_length src.
          if batch_length < BATCH_LENGTH_COVERED_FIXED
          then Inl (InvalidBatchLength batch_length BATCH_LENGTH_COVERED_FIXED)
          else if length src < batch_length then Inl (BufferTooShort batch_length (length src))
          else rd_be 4 src (\<lambda>c src. rd_be 8 src (\<lambda>base_offset src. rd_be 4 src (\<lambda>delta src.
            rd_be 8 src (\<lambda>base_timestamp src. rd_be 8 src (\<lambda>producer_id src.
            rd_be 2 src (\<lambda>epoch src. rd_be 4 src (\<lambda>sequence src. rd_be 4 src (\<lambda>leader_epoch src.
            rd_be 2 src (\<lambda>attributes src. rd_be 4 src (\<lambda>record_count src.
            let b = \<lparr>rb_magic = of_nat magic, rb_crc = c, rb_base_offset = base_offset,
                  rb_last_offset_delta = delta, rb_base_timestamp = base_timestamp,
                  rb_producer_id = producer_id, rb_producer_epoch = signed_of 2 epoch,
                  rb_base_sequence = signed_of 4 sequence, rb_leader_epoch = leader_epoch,
                  rb_attributes = of_nat attributes, rb_record_count = record_count,
                  rb_record_data = take (batch_length - BATCH_LENGTH_COVERED_FIXED) src\<rparr>
            in case verify_crc crc b of
                 Inl e \<Rightarrow> Inl e | Inr _ \<Rightarrow> Inr (b, 5 + batch_length))))))))))))))"

section \<open>Log entries\<close>

datatype LogEntry = Batch RecordBatch

definition decode_entry :: "(bytes \<Rightarrow> nat) \<Rightarrow> bytes \<Rightarrow> BatchError + LogEntry \<times> nat" where
  "decode_entry crc src =
     (case src of
        [] \<Rightarrow> Inl (BufferTooShort 1 0)
      | b # _ \<Rightarrow>
          if b = BATCH_MAGIC_BYTE
          then (case decode_batch crc src of Inl e \<Rightarrow> Inl e | Inr (batch, n) \<Rightarrow> Inr (Batch batch, n))
          else Inl (InvalidMagic BATCH_MAGIC_BYTE b))"

definition is_buffer_too_short :: "BatchError \<Rightarrow> bool" where
  "is_buffer_too_short e = (case e of BufferTooShort _ _ \<Rightarrow> True | _ \<Rightarrow> False)"

fun entry_records :: "codecs \<Rightarrow> LogEntry \<Rightarrow> Record list" where
  "entry_records cs (Batch b) =
     (case batch_records cs b of
        Inl _ \<Rightarrow> []
      | Inr rs \<Rightarrow>
          map (\<lambda>r. \<lparr>rec_offset = br_offset r, rec_timestamp = br_timestamp r, rec_key = br_key r,
                    rec_value = br_value r, is_control = is_control_batch b\<rparr>) rs)"

definition records_from_entries :: "codecs \<Rightarrow> LogEntry list \<Rightarrow> Record list" where
  "records_from_entries cs entries = concat (map (entry_records cs) entries)"

section \<open>Reading back\<close>

lemma signed_of_put:
  assumes "- (256 ^ w) \<le> 2 * v" "2 * v < 256 ^ w"
  shows "signed_of w (nat (v mod 256 ^ w)) = v"
proof (cases "0 \<le> v")
  case True
  then have "v mod 256 ^ w = v" using assms by (intro mod_pos_pos_trivial) auto
  then show ?thesis using True assms(2) by (simp add: signed_of_def)
next
  case False
  have "v mod 256 ^ w = (v + 256 ^ w) mod 256 ^ w" by simp
  also have "\<dots> = v + 256 ^ w" using False assms by (intro mod_pos_pos_trivial) auto
  finally show ?thesis using False assms by (auto simp: signed_of_def)
qed

lemma put_signed_range: "nat (v mod 256 ^ w) < 256 ^ w"
  by (simp add: nat_less_iff)

lemma length_put_signed [simp]: "length (put_signed w v) = w"
  by (simp add: put_signed_def)

lemma rd_be_put_signed: "rd_be w (put_signed w v @ rest) k = k (nat (v mod 256 ^ w)) rest"
  by (simp add: put_signed_def rd_be_append put_signed_range)

definition field_ok :: "bytes option \<Rightarrow> bool" where
  "field_ok v \<longleftrightarrow> (case v of None \<Rightarrow> True | Some b \<Rightarrow> length b < 2147483648)"

lemma decode_opt_bytes_encode:
  "field_ok v \<Longrightarrow> decode_opt_bytes (encode_opt_bytes v @ rest) = Inr (v, rest)"
  using signed_of_put [of 4 "- 1"]
  by (cases v) (simp_all add: decode_opt_bytes_def encode_opt_bytes_def field_ok_def rd_be_put_signed
      rd_be_append signed_of_def)

lemma length_encode_opt_bytes: "4 \<le> length (encode_opt_bytes v)"
  by (cases v) (simp_all add: encode_opt_bytes_def)

lemma add64_sub64:
  assumes "b < 2 ^ 64" "t < 2 ^ 64"
  shows "add64 b (sub64 t b) = t"
proof -
  have "(b + (t + 2 ^ 64 - b) mod 2 ^ 64) mod 2 ^ 64 = (b + (t + 2 ^ 64 - b)) mod 2 ^ 64"
    by (rule mod_add_right_eq)
  then show ?thesis using assms by (simp add: add64_def sub64_def)
qed

definition batch_entry_ok :: "nat \<times> new_record \<Rightarrow> bool" where
  "batch_entry_ok = (\<lambda>(delta, ts, k, v). delta < 4294967296 \<and> ts < 2 ^ 64 \<and> field_ok k \<and> field_ok v)"

definition put_entry :: "nat \<Rightarrow> nat \<times> new_record \<Rightarrow> bytes" where
  "put_entry bt = (\<lambda>(delta, ts, k, v). put_record bt delta ts k v)"

definition read_entry :: "nat \<Rightarrow> nat \<times> new_record \<Rightarrow> BatchRecord" where
  "read_entry bo = (\<lambda>(delta, ts, k, v).
     \<lparr>br_offset = add64 bo delta, br_timestamp = ts, br_key = k, br_value = v\<rparr>)"

lemma length_put_entry: "20 \<le> length (put_entry bt e)"
  using length_encode_opt_bytes [of "fst (snd (snd e))"] length_encode_opt_bytes [of "snd (snd (snd e))"]
  by (cases e) (simp add: put_entry_def put_record_def)

lemma length_put_entries: "length es * 20 \<le> length (concat (map (put_entry bt) es))"
  by (induction es) (simp_all add: add_mono length_put_entry)

lemma decode_record_list_written:
  "\<lbrakk>list_all batch_entry_ok es; bt < 2 ^ 64\<rbrakk> \<Longrightarrow>
   decode_record_list (length es) bo bt (concat (map (put_entry bt) es) @ rest) =
     Inr (map (read_entry bo) es, rest)"
proof (induction es)
  case (Cons e es)
  obtain delta ts k v where e: "e = (delta, ts, k, v)" by (cases e)
  have b: "delta < 256 ^ 4" "sub64 ts bt < 256 ^ 8" "add64 bt (sub64 ts bt) = ts" "field_ok k" "field_ok v"
    using Cons.prems e by (simp_all add: batch_entry_ok_def add64_sub64) (simp add: sub64_def)
  show ?case
    using Cons b
    by (simp add: e put_entry_def [of bt, THEN fun_cong, of "(delta, ts, k, v)"]
        read_entry_def [of bo, THEN fun_cong, of "(delta, ts, k, v)"] put_record_def rd_be_append
        decode_opt_bytes_encode)
qed simp

lemmas batch_sizes = BATCH_HEADER_SIZE_def BATCH_LENGTH_COVERED_FIXED_def

definition record_batch_ok :: "(bytes \<Rightarrow> nat) \<Rightarrow> RecordBatch \<Rightarrow> bool" where
  "record_batch_ok crc b \<longleftrightarrow> rb_magic b = BATCH_MAGIC_BYTE \<and> rb_crc b = calculate_crc crc b \<and>
     rb_crc b < 4294967296 \<and> rb_base_offset b < 2 ^ 64 \<and> rb_last_offset_delta b < 4294967296 \<and>
     rb_base_timestamp b < 2 ^ 64 \<and> rb_producer_id b < 2 ^ 64 \<and>
     - 32768 \<le> rb_producer_epoch b \<and> rb_producer_epoch b < 32768 \<and>
     - 2147483648 \<le> rb_base_sequence b \<and> rb_base_sequence b < 2147483648 \<and>
     rb_leader_epoch b < 4294967296 \<and> rb_record_count b < 4294967296 \<and>
     length (rb_record_data b) + 48 < 4294967296"

lemma length_encode_record_batch: "length (encode_record_batch b) = encoded_size b"
  by (simp add: encode_record_batch_def encoded_size_def batch_sizes)

lemma decode_batch_encode:
  assumes "record_batch_ok crc b"
  shows "decode_batch crc (encode_record_batch b @ rest) = Inr (b, encoded_size b)"
proof -
  have u: "unat (rb_attributes b) < 256 ^ 2" using unsigned_less [of "rb_attributes b", where ?'a = nat] by simp
  have s: "signed_of 2 (nat (rb_producer_epoch b mod 256 ^ 2)) = rb_producer_epoch b"
    "signed_of 4 (nat (rb_base_sequence b mod 256 ^ 4)) = rb_base_sequence b"
    by (rule signed_of_put; use assms in \<open>simp add: record_batch_ok_def\<close>)+
  have "verify_crc crc b = Inr ()"
    using assms by (simp add: verify_crc_def record_batch_ok_def)
  moreover have "rb_record_data b = take (length (rb_record_data b)) (rb_record_data b @ rest)" by simp
  ultimately show ?thesis
    using assms u s
    by (cases b) (simp add: decode_batch_def encode_record_batch_def encoded_size_def record_batch_ok_def batch_sizes
        rd_be_Cons rd_be_append rd_be_put_signed del: be_bytes.simps One_nat_def)
qed

lemma decode_entry_encode:
  "record_batch_ok crc b \<Longrightarrow> decode_entry crc (encode_record_batch b @ rest) = Inr (Batch b, encoded_size b)"
  using decode_batch_encode [of crc b rest]
  by (simp add: decode_entry_def encode_record_batch_def record_batch_ok_def)

section \<open>From the producer to the consumer\<close>

text \<open>What the theorems assume of the compression crates.\<close>

definition codec_ok :: "codecs \<Rightarrow> bool" where
  "codec_ok cs \<longleftrightarrow>
     (\<forall>raw. lz4_decompress cs (lz4_compress cs raw) = Some raw) \<and>
     (\<forall>raw. length raw < 4294967296 \<longrightarrow>
        4 \<le> length (lz4_compress cs raw) \<and> le_val (take 4 (lz4_compress cs raw)) = length raw) \<and>
     (\<forall>raw. zstd_decode cs (zstd_encode cs raw) = Some raw)"

lemma attributes_of_codec:
  "from_bits (batch_attributes codec transactional AND ATTR_COMPRESSION_MASK) = Inr codec"
  "batch_attributes codec transactional AND ATTR_CONTROL_FLAG = 0"
  "(batch_attributes codec transactional AND ATTR_TRANSACTIONAL_FLAG \<noteq> 0) = transactional"
  by (cases codec; cases transactional; simp add: batch_attributes_def from_bits_def
      ATTR_COMPRESSION_MASK_def ATTR_TRANSACTIONAL_FLAG_def ATTR_CONTROL_FLAG_def)+

lemma decompress_compress:
  assumes "codec_ok cs" "length raw \<le> MAX_DECOMPRESSED_BATCH_BYTES"
    "rb_attributes b = batch_attributes codec tx" "rb_record_data b = compress cs codec raw"
  shows "decompress cs b = Inr raw"
proof -
  have "length raw < 4294967296" using assms(2) by (simp add: MAX_DECOMPRESSED_BATCH_BYTES_def)
  then show ?thesis
    using assms
    by (cases codec) (auto simp: decompress_def compression_def attributes_of_codec compress_def
        codec_ok_def Let_def)
qed

text \<open>The records of a batch with the offset of the first.\<close>

definition numbered :: "new_record list \<Rightarrow> (nat \<times> new_record) list" where
  "numbered rs = zip [0 ..< length rs] rs"

definition raw_records :: "nat \<Rightarrow> new_record list \<Rightarrow> bytes" where
  "raw_records bt rs = concat (map (put_entry bt) (numbered rs))"

definition delivered :: "nat \<Rightarrow> new_record list \<Rightarrow> Record list" where
  "delivered off rs =
     map (\<lambda>(i, ts, k, v). \<lparr>rec_offset = off + i, rec_timestamp = ts, rec_key = k, rec_value = v,
           is_control = False\<rparr>) (numbered rs)"

definition new_record_ok :: "new_record \<Rightarrow> bool" where
  "new_record_ok = (\<lambda>(ts, k, v). ts < 2 ^ 64 \<and> field_ok k \<and> field_ok v)"

lemma numbered_ok:
  assumes "list_all new_record_ok rs" "length rs \<le> 100000"
  shows "list_all batch_entry_ok (numbered rs)"
  unfolding list_all_length
proof (intro allI impI)
  fix i assume "i < length (numbered rs)"
  then have i: "i < length rs" by (simp add: numbered_def)
  then have "new_record_ok (rs ! i)" using assms(1) by (simp add: list_all_length)
  then show "batch_entry_ok (numbered rs ! i)"
    using i assms(2) by (cases "rs ! i") (simp add: numbered_def batch_entry_ok_def new_record_ok_def)
qed

lemma length_numbered [simp]: "length (numbered rs) = length rs"
  by (simp add: numbered_def)

lemma batch_records_created:
  assumes "codec_ok cs" "list_all new_record_ok rs" "length rs \<le> 100000" "bt < 2 ^ 64"
    "length (raw_records bt rs) \<le> MAX_DECOMPRESSED_BATCH_BYTES"
    "length (compress cs codec (raw_records bt rs)) \<le> MAX_DECOMPRESSED_BATCH_BYTES"
    "rb_attributes b = batch_attributes codec tx" "rb_record_count b = length rs"
    "rb_record_data b = compress cs codec (raw_records bt rs)" "rb_base_timestamp b = bt"
  shows "batch_records cs b = Inr (map (read_entry (rb_base_offset b)) (numbered rs))"
proof -
  have d: "decompress cs b = Inr (raw_records bt rs)"
    by (rule decompress_compress) (use assms in auto)
  have "length rs * 20 \<le> length (raw_records bt rs)"
    using length_put_entries [of "numbered rs" bt] by (simp add: raw_records_def)
  then have "\<not> length (raw_records bt rs) div RECORD_ENTRY_MIN_SIZE < length rs"
    by (simp add: RECORD_ENTRY_MIN_SIZE_def)
  moreover have "decode_records (length rs) (rb_base_offset b) bt (raw_records bt rs) =
      Inr (map (read_entry (rb_base_offset b)) (numbered rs))"
    using decode_record_list_written [OF numbered_ok [OF assms(2,3)] assms(4), of "rb_base_offset b" "[]"]
    by (simp add: decode_records_def raw_records_def)
  ultimately show ?thesis
    using assms(3,6,8,9,10) d by (simp add: batch_records_def)
qed

text \<open>C16 What a producer sends is what a consumer reads.
  The producer builds and compresses a batch, the broker gives it an offset and its leader
  epoch without touching the record data, and the entry is stored. Reading the entry back from
  the log, with whatever follows it, gives the batch and its exact size, and its records are
  those of the producer, with the times, keys and values they had (null apart from empty) and
  consecutive offsets from the assigned one.\<close>

theorem produced_records_read_back:
  assumes "codec_ok cs" "\<forall>bs. crc bs < 4294967296"
    and "list_all new_record_ok rs" "length rs \<le> 100000" "bt < 2 ^ 64"
    and "length (raw_records bt rs) \<le> MAX_DECOMPRESSED_BATCH_BYTES"
      "length (compress cs codec (raw_records bt rs)) \<le> MAX_DECOMPRESSED_BATCH_BYTES"
    and "off + length rs < 2 ^ 64" "leader_epoch < 4294967296" "producer_id < 2 ^ 64"
      "- 32768 \<le> epoch" "epoch < 32768" "- 2147483648 \<le> seq" "seq < 2147483648"
  shows "let sent_batch = create crc cs 0 bt 0 producer_id epoch seq tx codec rs;
        stored = assign_base_offset_and_leader_epoch crc off leader_epoch sent_batch
    in decode_entry crc (encode_record_batch stored @ rest) = Inr (Batch stored, length (encode_record_batch stored)) \<and>
       records_from_entries cs [Batch stored] = delivered off rs \<and>
       rb_record_data stored = rb_record_data sent_batch \<and>
       is_transactional stored = tx"
proof -
  define sent_batch where "sent_batch = create crc cs 0 bt 0 producer_id epoch seq tx codec rs"
  define stored where "stored = assign_base_offset_and_leader_epoch crc off leader_epoch sent_batch"
  have raw: "concat (map (\<lambda>(i, ts, k, v). put_record bt i ts k v) (zip [0 ..< length rs] rs)) =
      raw_records bt rs"
    by (simp add: raw_records_def numbered_def put_entry_def)
  have f: "rb_magic stored = BATCH_MAGIC_BYTE" "rb_base_offset stored = off"
    "rb_last_offset_delta stored = length rs - 1" "rb_base_timestamp stored = bt"
    "rb_producer_id stored = producer_id" "rb_producer_epoch stored = epoch"
    "rb_base_sequence stored = seq" "rb_leader_epoch stored = leader_epoch"
    "rb_attributes stored = batch_attributes codec tx" "rb_record_count stored = length rs"
    "rb_record_data stored = compress cs codec (raw_records bt rs)"
    "rb_record_data sent_batch = compress cs codec (raw_records bt rs)"
    using assms(4) raw
    by (simp_all add: stored_def sent_batch_def assign_base_offset_and_leader_epoch_def create_def
        seal_def Let_def)
  have c: "rb_crc stored = calculate_crc crc stored"
    by (simp add: stored_def assign_base_offset_and_leader_epoch_def seal_def calculate_crc_def)
  have ok: "record_batch_ok crc stored"
    unfolding record_batch_ok_def
    using f c assms(2,4,5,7-14) by (simp add: calculate_crc_def MAX_DECOMPRESSED_BATCH_BYTES_def)
  have "batch_records cs stored = Inr (map (read_entry off) (numbered rs))"
    using batch_records_created [OF assms(1,3,4,5,6,7), of stored tx] f by simp
  moreover have "add64 off i = off + i" if "i < length rs" for i
    using assms(8) that by (simp add: add64_def)
  ultimately have "entry_records cs (Batch stored) = delivered off rs"
    using f(9) by (auto simp: delivered_def is_control_batch_def attributes_of_codec read_entry_def
        numbered_def set_zip)
  then have "decode_entry crc (encode_record_batch stored @ rest) = Inr (Batch stored, length (encode_record_batch stored)) \<and>
       records_from_entries cs [Batch stored] = delivered off rs \<and>
       rb_record_data stored = rb_record_data sent_batch \<and> is_transactional stored = tx"
    using decode_entry_encode [OF ok, of rest] f
    by (simp add: length_encode_record_batch records_from_entries_def is_transactional_def
        attributes_of_codec)
  then show ?thesis unfolding stored_def sent_batch_def Let_def .
qed

definition demo_codecs :: codecs where
  "demo_codecs = \<lparr>lz4_compress = (\<lambda>raw. rev (be_bytes 4 (length raw)) @ raw),
     lz4_decompress = (\<lambda>bs. Some (drop 4 bs)), zstd_encode = (\<lambda>raw. raw), zstd_decode = Some\<rparr>"

definition demo_crc :: "bytes \<Rightarrow> nat" where
  "demo_crc bs = length bs mod 4294967296"

definition demo_new_records :: "new_record list" where
  "demo_new_records = [(100, None, Some []), (107, Some [1], None)]"

lemma demo_codec_ok: "codec_ok demo_codecs"
  by (simp add: codec_ok_def demo_codecs_def le_val_def be_val_be_bytes)

theorem produced_records_read_back_witness:
  "records_from_entries demo_codecs [Batch (assign_base_offset_and_leader_epoch demo_crc 40 3
      (create demo_crc demo_codecs 0 105 0 9 (- 1) (- 1) True Lz4 demo_new_records))] =
    [\<lparr>rec_offset = 40, rec_timestamp = 100, rec_key = None, rec_value = Some [], is_control = False\<rparr>,
     \<lparr>rec_offset = 41, rec_timestamp = 107, rec_key = Some [1], rec_value = None, is_control = False\<rparr>]"
proof -
  have ok: "list_all new_record_ok demo_new_records"
    by (simp add: demo_new_records_def new_record_ok_def field_ok_def)
  have len: "length (raw_records 105 demo_new_records) = 41" "length demo_new_records = 2"
    by (simp_all add: raw_records_def numbered_def demo_new_records_def put_entry_def put_record_def
        encode_opt_bytes_def upt_conv_Cons)
  from produced_records_read_back [OF demo_codec_ok _ ok, of demo_crc 105 Lz4 40 3 9 "- 1" "- 1" True]
  have "records_from_entries demo_codecs [Batch (assign_base_offset_and_leader_epoch demo_crc 40 3
      (create demo_crc demo_codecs 0 105 0 9 (- 1) (- 1) True Lz4 demo_new_records))] =
      delivered 40 demo_new_records"
    using len by (simp add: Let_def demo_crc_def compress_def MAX_DECOMPRESSED_BATCH_BYTES_def)
       (simp add: demo_codecs_def len)
  then show ?thesis
    by (simp add: delivered_def numbered_def demo_new_records_def upt_conv_Cons)
qed

section \<open>Fetching\<close>

text \<open>
  A fetch answers with entries as they are stored, together with what a consumer needs to
  leave out uncommitted records itself.
\<close>

definition fetch_entries_response_header :: "nat \<Rightarrow> (nat \<times> nat) list \<Rightarrow> nat \<Rightarrow> bytes" where
  "fetch_entries_response_header last_stable_offset aborted entries_len =
     be_bytes 8 last_stable_offset @ be_bytes 4 (length aborted)
       @ concat (map (\<lambda>(start, end). be_bytes 8 start @ be_bytes 8 end) aborted)
       @ be_bytes 4 entries_len"

definition encode_fetch_entries_response :: "nat \<Rightarrow> (nat \<times> nat) list \<Rightarrow> bytes \<Rightarrow> bytes" where
  "encode_fetch_entries_response last_stable_offset aborted entries =
     fetch_entries_response_header last_stable_offset aborted (length entries) @ entries"

lemma decode_entry_consumes:
  "decode_entry crc src = Inr (e, n) \<Longrightarrow> src \<noteq> [] \<and> 0 < n"
  by (auto simp: decode_entry_def decode_batch_def rd_be_def Let_def
      split: list.splits if_splits sum.splits prod.splits)

text \<open>The client's loop over the entries; it stops at the first that does not decode.\<close>

function scan_entries :: "(bytes \<Rightarrow> nat) \<Rightarrow> bytes \<Rightarrow> LogEntry list" where
  "scan_entries crc bs =
     (case decode_entry crc bs of Inl _ \<Rightarrow> [] | Inr (e, n) \<Rightarrow> e # scan_entries crc (drop n bs))"
  by pat_completeness auto
termination
  by (relation "measure (length \<circ> snd)") (auto dest!: decode_entry_consumes)

declare scan_entries.simps [simp del]

primrec read_ranges :: "nat \<Rightarrow> bytes \<Rightarrow> (nat \<times> nat) list \<times> bytes" where
  "read_ranges 0 cur = ([], cur)"
| "read_ranges (Suc n) cur =
     rd_be 8 cur (\<lambda>start cur. rd_be 8 cur (\<lambda>end cur.
     case read_ranges n cur of (rs, cur) \<Rightarrow> ((start, end) # rs, cur)))"

definition excluded :: "nat \<Rightarrow> (nat \<times> nat) list \<Rightarrow> Record \<Rightarrow> bool" where
  "excluded last_stable_offset aborted r \<longleftrightarrow>
     is_control r \<or> last_stable_offset \<le> rec_offset r \<or>
     list_ex (\<lambda>(s, e). s \<le> rec_offset r \<and> rec_offset r \<le> e) aborted"

text \<open>\<open>None\<close> is the error of a response that is too short.\<close>

definition decode_fetch_entries_records ::
  "(bytes \<Rightarrow> nat) \<Rightarrow> codecs \<Rightarrow> bytes \<Rightarrow> nat \<Rightarrow> bool \<Rightarrow> Record list option" where
  "decode_fetch_entries_records crc cs payload from_offset drop_control_and_aborted =
     (if length payload < 12 then None
      else rd_be 8 payload (\<lambda>last_stable_offset cur. rd_be 4 cur (\<lambda>aborted_count cur.
        if length cur < aborted_count * 16 + 4 then None
        else case read_ranges aborted_count cur of
          (aborted, cur) \<Rightarrow> rd_be 4 cur (\<lambda>entries_len cur.
            if length cur < entries_len then None
            else Some (filter (\<lambda>r. from_offset \<le> rec_offset r \<and>
                     \<not> (drop_control_and_aborted \<and> excluded last_stable_offset aborted r))
                   (records_from_entries cs (scan_entries crc (take entries_len cur))))))))"

lemma read_ranges_written:
  "list_all (\<lambda>(s, e). s < 2 ^ 64 \<and> e < 2 ^ 64) rs \<Longrightarrow>
   read_ranges (length rs) (concat (map (\<lambda>(start, end). be_bytes 8 start @ be_bytes 8 end) rs) @ rest) =
     (rs, rest)"
proof (induction rs)
  case (Cons r rs)
  obtain a b where r: "r = (a, b)" by (cases r)
  have "a < 256 ^ 8" "b < 256 ^ 8" using Cons.prems r by simp_all
  then show ?case using Cons r by (simp add: rd_be_append)
qed simp

lemma length_ranges:
  "length (concat (map (\<lambda>(start, end). be_bytes 8 start @ be_bytes 8 end) rs)) = length rs * 16"
  by (induction rs) auto

lemma scan_entries_written:
  "list_all (record_batch_ok crc) bs \<Longrightarrow>
   scan_entries crc (concat (map encode_record_batch bs)) = map Batch bs"
proof (induction bs)
  case Nil
  then show ?case by (simp add: scan_entries.simps [of crc "[]"] decode_entry_def)
next
  case (Cons b bs)
  have "decode_entry crc (encode_record_batch b @ concat (map encode_record_batch bs)) =
      Inr (Batch b, length (encode_record_batch b))"
    using decode_entry_encode [of crc b] Cons.prems by (simp add: length_encode_record_batch)
  then show ?case
    using Cons by (simp add: scan_entries.simps [of crc "encode_record_batch b @ concat (map encode_record_batch bs)"])
qed

text \<open>C24 A consumer of committed records sees no aborted and no unstable one.
  The client reads a fetch response made of stored batches to the end. It gets exactly the
  records of the batches from the offset it asked for on; when it asked for committed
  records, exactly those of them below the last stable offset that are in no aborted range
  and are no control marker, in the order of the log.\<close>

theorem fetched_records_exact:
  assumes "list_all (record_batch_ok crc) bs" "length (concat (map encode_record_batch bs)) < 4294967296"
    and "lso < 2 ^ 64" "length aborted < 4294967296"
    and "list_all (\<lambda>(s, e). s < 2 ^ 64 \<and> e < 2 ^ 64) aborted"
  shows "decode_fetch_entries_records crc cs
      (encode_fetch_entries_response lso aborted (concat (map encode_record_batch bs))) start committed =
    Some (filter (\<lambda>r. start \<le> rec_offset r \<and>
        (committed \<longrightarrow> \<not> is_control r \<and> rec_offset r < lso \<and>
           \<not> (\<exists>(s, e)\<in>set aborted. s \<le> rec_offset r \<and> rec_offset r \<le> e)))
      (records_from_entries cs (map Batch bs)))"
proof -
  have w: "lso < 256 ^ 8" "length aborted < 256 ^ 4" "length (concat (map encode_record_batch bs)) < 256 ^ 4"
    using assms by simp_all
  have "(\<lambda>r. start \<le> rec_offset r \<and> \<not> (committed \<and> excluded lso aborted r)) =
      (\<lambda>r. start \<le> rec_offset r \<and> (committed \<longrightarrow> \<not> is_control r \<and> rec_offset r < lso \<and>
           \<not> (\<exists>(s, e)\<in>set aborted. s \<le> rec_offset r \<and> rec_offset r \<le> e)))"
    by (rule ext) (auto simp: excluded_def list_ex_iff not_le)
  moreover have "decode_fetch_entries_records crc cs
      (encode_fetch_entries_response lso aborted (concat (map encode_record_batch bs))) start committed =
    Some (filter (\<lambda>r. start \<le> rec_offset r \<and> \<not> (committed \<and> excluded lso aborted r))
      (records_from_entries cs (map Batch bs)))"
    using w read_ranges_written [OF assms(5)] length_ranges [of aborted] scan_entries_written [OF assms(1)]
    by (simp add: decode_fetch_entries_records_def encode_fetch_entries_response_def
        fetch_entries_response_header_def rd_be_append)
  ultimately show ?thesis by (simp only:)
qed

definition demo_stored :: RecordBatch where
  "demo_stored = assign_base_offset_and_leader_epoch demo_crc 40 3
      (create demo_crc demo_codecs 0 105 0 9 0 0 False NoCompression demo_new_records)"

lemma demo_stored_ok: "record_batch_ok demo_crc demo_stored"
  by (simp add: demo_stored_def assign_base_offset_and_leader_epoch_def create_def seal_def Let_def
      record_batch_ok_def calculate_crc_def demo_crc_def demo_new_records_def compress_def put_record_def
      encode_opt_bytes_def upt_conv_Cons)

lemma demo_stored_records:
  "records_from_entries demo_codecs [Batch demo_stored] =
    [\<lparr>rec_offset = 40, rec_timestamp = 100, rec_key = None, rec_value = Some [], is_control = False\<rparr>,
     \<lparr>rec_offset = 41, rec_timestamp = 107, rec_key = Some [1], rec_value = None, is_control = False\<rparr>]"
proof -
  have ok: "list_all new_record_ok demo_new_records" "length demo_new_records = 2"
    by (simp_all add: demo_new_records_def new_record_ok_def field_ok_def)
  have raw: "raw_records 105 demo_new_records =
      put_record 105 0 100 None (Some []) @ put_record 105 1 107 (Some [1]) None"
    by (simp add: raw_records_def numbered_def demo_new_records_def put_entry_def upt_conv_Cons)
  have f: "rb_attributes demo_stored = batch_attributes NoCompression False"
    "rb_record_count demo_stored = 2" "rb_base_timestamp demo_stored = 105"
    "rb_base_offset demo_stored = 40"
    "rb_record_data demo_stored = compress demo_codecs NoCompression (raw_records 105 demo_new_records)"
    unfolding raw
    by (simp_all add: demo_stored_def assign_base_offset_and_leader_epoch_def create_def seal_def
        Let_def demo_new_records_def upt_conv_Cons)
  have "batch_records demo_codecs demo_stored = Inr (map (read_entry 40) (numbered demo_new_records))"
    using batch_records_created [OF demo_codec_ok ok(1), of 105 NoCompression demo_stored False] f ok(2)
    by (simp add: raw compress_def MAX_DECOMPRESSED_BATCH_BYTES_def put_record_def encode_opt_bytes_def)
  then show ?thesis
    using f(1) by (simp add: records_from_entries_def is_control_batch_def attributes_of_codec
        read_entry_def numbered_def demo_new_records_def upt_conv_Cons add64_def)
qed

theorem fetched_records_exact_witness:
  "decode_fetch_entries_records demo_crc demo_codecs
      (encode_fetch_entries_response 100 [(41, 50)] (concat (map encode_record_batch [demo_stored]))) 0 True =
    Some [\<lparr>rec_offset = 40, rec_timestamp = 100, rec_key = None, rec_value = Some [],
           is_control = False\<rparr>]"
proof -
  have "length (encode_record_batch demo_stored) < 4294967296"
    by (simp add: length_encode_record_batch encoded_size_def BATCH_HEADER_SIZE_def demo_stored_def
        assign_base_offset_and_leader_epoch_def create_def seal_def Let_def demo_new_records_def
        compress_def put_record_def encode_opt_bytes_def upt_conv_Cons)
  then show ?thesis
    using fetched_records_exact [of demo_crc "[demo_stored]" 100 "[(41, 50)]" demo_codecs 0 True]
      demo_stored_ok demo_stored_records
    by simp
qed

end
