(* ===== verification/Segment_Log.thy ===== *)
theory Segment_Log
  imports Record_Batch Indexes
begin

text \<open>
  The log of one partition (\<^verbatim>\<open>src/segment/log.rs\<close>, \<^verbatim>\<open>src/segment/manager.rs\<close>,
  \<^verbatim>\<open>src/segment/mmap.rs\<close>): files of record batches with their indexes, the active file that
  grows and the rotated ones behind it. A file is its bytes; what the file system answers to
  each write, truncation and sync of a call is an argument of the operation. Reads of regular
  files return all bytes asked for. Two handles on one file are two values of the model, which
  are equal when the second is opened. Of the directory the names count that segments were removed
  under (\<open>lm_unlinked\<close>): removing a file succeeds, and a handle on it goes on working. Paths and
  failing opens of a new segment's files are not modelled.
\<close>

section \<open>One log file\<close>

definition HEADER_SIZE :: nat where "HEADER_SIZE = BATCH_HEADER_SIZE"

text \<open>\<open>lg_clean\<close> is the content of the \<open>.clean\<close> marker beside the file.\<close>

record LogSegment =
  lg_base_offset :: offset
  lg_next_offset :: offset
  lg_file :: bytes
  lg_physical_size :: nat
  lg_is_preallocated :: bool
  lg_clean :: "nat option"

datatype log_io = SetLenError | SyncError | LogDone

definition set_len :: "nat \<Rightarrow> bytes \<Rightarrow> bytes" where
  "set_len n f = take n f @ replicate (n - length f) 0"

definition write_at :: "nat \<Rightarrow> bytes \<Rightarrow> bytes \<Rightarrow> bytes" where
  "write_at pos bs f = set_len pos f @ bs @ drop (pos + length bs) f"

definition append_bytes :: "write_result \<Rightarrow> bytes \<Rightarrow> LogSegment \<Rightarrow> LogSegment \<times> nat option" where
  "append_bytes w bs l =
     (let written_pos = lg_physical_size l in
      case w of
        Written \<Rightarrow>
          (l\<lparr>lg_file := write_at written_pos bs (lg_file l),
             lg_physical_size := written_pos + length bs\<rparr>, Some written_pos)
      | Torn n \<Rightarrow> (l\<lparr>lg_file := write_at written_pos (take n bs) (lg_file l)\<rparr>, None))"

definition read_at :: "nat \<Rightarrow> nat \<Rightarrow> LogSegment \<Rightarrow> bytes" where
  "read_at physical_pos max_bytes l =
     (if lg_physical_size l \<le> physical_pos then []
      else take (min (lg_physical_size l - physical_pos) max_bytes) (drop physical_pos (lg_file l)))"

text \<open>The marker is written on a best-effort basis: \<open>marked\<close> tells whether that works.\<close>

definition finalize :: "log_io \<Rightarrow> bool \<Rightarrow> LogSegment \<Rightarrow> LogSegment \<times> bool" where
  "finalize io marked l =
     (case io of
        SetLenError \<Rightarrow> (l, False)
      | SyncError \<Rightarrow> (l\<lparr>lg_file := set_len (lg_physical_size l) (lg_file l)\<rparr>, False)
      | LogDone \<Rightarrow>
          (l\<lparr>lg_file := set_len (lg_physical_size l) (lg_file l),
             lg_clean := (if marked then Some (lg_physical_size l) else lg_clean l)\<rparr>, True))"

definition truncate_to :: "log_io \<Rightarrow> nat \<Rightarrow> LogSegment \<Rightarrow> LogSegment \<times> bool" where
  "truncate_to io n l =
     (case io of
        SetLenError \<Rightarrow> (l, False)
      | SyncError \<Rightarrow> (l\<lparr>lg_file := set_len n (lg_file l)\<rparr>, False)
      | LogDone \<Rightarrow>
          (l\<lparr>lg_file := set_len n (lg_file l), lg_physical_size := n, lg_clean := None\<rparr>, True))"

subsection \<open>Opening a file: the recovery scan\<close>

record scan_state =
  sc_pos :: nat
  sc_next_offset :: offset
  sc_index :: "IndexEntry list"
  sc_bytes_since_last_index :: nat

definition all_zero :: "bytes \<Rightarrow> bool" where
  "all_zero bs = list_all (\<lambda>b. b = 0) bs"

definition batch_last_offset :: "RecordBatch \<Rightarrow> offset" where
  "batch_last_offset b = add64 (rb_base_offset b) (rb_last_offset_delta b)"

definition scan_entry :: "offset \<Rightarrow> nat \<Rightarrow> RecordBatch \<Rightarrow> nat \<Rightarrow> scan_state \<Rightarrow> scan_state" where
  "scan_entry base index_interval b entry_len st =
     (let indexed = index_interval \<le> sc_bytes_since_last_index st \<or> sc_index st = [];
          e = \<lparr>relative_offset = (rb_base_offset b - base) mod 2 ^ 32,
               physical_position = sc_pos st mod 2 ^ 32\<rparr>
      in \<lparr>sc_pos = sc_pos st + entry_len,
          sc_next_offset = add64 (batch_last_offset b) 1,
          sc_index = (if indexed then sc_index st @ [e] else sc_index st),
          sc_bytes_since_last_index =
            (if indexed then entry_len else sc_bytes_since_last_index st + entry_len)\<rparr>)"

text \<open>
  The inner loop over what has been read so far. \<open>reading\<close> is that the last read returned
  something. The result is the state, the bytes not consumed, and whether they are corrupt.
\<close>

function scan_chunk ::
  "(bytes \<Rightarrow> nat) \<Rightarrow> offset \<Rightarrow> nat \<Rightarrow> bool \<Rightarrow> bytes \<Rightarrow> scan_state \<Rightarrow> scan_state \<times> bytes \<times> bool" where
  "scan_chunk crc base interval reading buf st =
     (if buf = [] then (st, [], False)
      else if length buf < HEADER_SIZE then (st, buf, \<not> all_zero buf \<and> \<not> reading)
      else if all_zero (take HEADER_SIZE buf) then (st, buf, False)
      else case decode_entry crc buf of
        Inr (Batch b, n) \<Rightarrow> scan_chunk crc base interval reading (drop n buf) (scan_entry base interval b n st)
      | Inl e \<Rightarrow> (st, buf, \<not> (is_buffer_too_short e \<and> reading) \<and> \<not> all_zero buf))"
  by pat_completeness auto
termination
  by (relation "measure (\<lambda>(crc, base, interval, reading, buf, st). length buf)")
    (auto dest!: decode_entry_consumes)

declare scan_chunk.simps [simp del]

text \<open>The reads of the file return it in pieces; the read after the last one returns nothing.\<close>

fun recover_loop ::
  "(bytes \<Rightarrow> nat) \<Rightarrow> offset \<Rightarrow> nat \<Rightarrow> bytes list \<Rightarrow> bytes \<Rightarrow> scan_state \<Rightarrow> scan_state \<times> bool" where
  "recover_loop crc base interval [] read_buf st =
     (if read_buf = [] then (st, False)
      else case scan_chunk crc base interval False read_buf st of (st', _, bad) \<Rightarrow> (st', bad))"
| "recover_loop crc base interval (c # cs) read_buf st =
     (case scan_chunk crc base interval True (read_buf @ c) st of
        (st', left, bad) \<Rightarrow> if bad then (st', True) else recover_loop crc base interval cs left st')"

text \<open>The entries behind the last indexed one, all of which must decode.\<close>

function tail_end :: "(bytes \<Rightarrow> nat) \<Rightarrow> bytes \<Rightarrow> offset \<Rightarrow> offset option" where
  "tail_end crc tail lst =
     (if tail = [] then Some lst
      else case decode_entry crc tail of
        Inr (Batch b, n) \<Rightarrow> tail_end crc (drop n tail) (batch_last_offset b)
      | Inl _ \<Rightarrow> None)"
  by pat_completeness auto
termination
  by (relation "measure (\<lambda>(crc, tail, lst). length tail)") (auto dest!: decode_entry_consumes)

declare tail_end.simps [simp del]

definition trusted_end :: "(bytes \<Rightarrow> nat) \<Rightarrow> offset \<Rightarrow> bytes \<Rightarrow> IndexSegment \<Rightarrow> (nat \<times> offset) option" where
  "trusted_end crc base f index =
     (case last_entry index of
        Some e \<Rightarrow>
          (if length f < physical_position e then None
           else case tail_end crc (drop (physical_position e) f) base of
             Some lst \<Rightarrow> Some (length f, add64 lst 1)
           | None \<Rightarrow> None)
      | None \<Rightarrow> if f = [] then Some (0, base) else None)"

record SegmentConfig =
  cf_max_segment_bytes :: nat
  cf_index_interval_bytes :: nat
  cf_preallocate_segments :: bool
  cf_segment_ms :: "nat option"
  cf_retention_bytes :: "nat option"
  cf_retention_millis :: "nat option"
  cf_delete_retention_millis :: "nat option"

definition full_scan ::
  "(bytes \<Rightarrow> nat) \<Rightarrow> SegmentConfig \<Rightarrow> offset \<Rightarrow> bytes list \<Rightarrow> nat option \<Rightarrow> IndexSegment \<Rightarrow> LogSegment \<times> IndexSegment" where
  "full_scan crc cfg base reads clean index =
     (case recover_loop crc base (cf_index_interval_bytes cfg) reads []
             \<lparr>sc_pos = 0, sc_next_offset = base, sc_index = [], sc_bytes_since_last_index = 0\<rparr> of
        (st, encountered_corruption) \<Rightarrow>
          (\<lparr>lg_base_offset = base, lg_next_offset = sc_next_offset st,
            lg_file = (if encountered_corruption then set_len (sc_pos st) (concat reads) else concat reads),
            lg_physical_size = sc_pos st, lg_is_preallocated = False, lg_clean = clean\<rparr>,
           fst (truncate_and_rebuild (Writes [] True) (sc_index st) index)))"

text \<open>\<open>None\<close> is a file that does not exist, \<open>Some\<close> one by the pieces its reads return.\<close>

definition open_at_path_with_trust ::
  "(bytes \<Rightarrow> nat) \<Rightarrow> SegmentConfig \<Rightarrow> offset \<Rightarrow> bool \<Rightarrow> bytes list option \<Rightarrow> nat option \<Rightarrow> IndexSegment
    \<Rightarrow> LogSegment \<times> IndexSegment" where
  "open_at_path_with_trust crc cfg base trust_if_clean f clean index =
     (case f of
        None \<Rightarrow>
          (\<lparr>lg_base_offset = base, lg_next_offset = base,
            lg_file = (if cf_preallocate_segments cfg then replicate (cf_max_segment_bytes cfg) 0 else []),
            lg_physical_size = 0, lg_is_preallocated = cf_preallocate_segments cfg, lg_clean = clean\<rparr>, index)
      | Some reads \<Rightarrow>
          (case (if trust_if_clean \<and> clean = Some (length (concat reads))
                 then trusted_end crc base (concat reads) index else None) of
             Some (trusted_size, trusted_next_offset) \<Rightarrow>
               (\<lparr>lg_base_offset = base, lg_next_offset = trusted_next_offset, lg_file = concat reads,
                 lg_physical_size = trusted_size, lg_is_preallocated = False, lg_clean = clean\<rparr>, index)
           | None \<Rightarrow> full_scan crc cfg base reads clean index))"

section \<open>Segments and their manager\<close>

text \<open>\<open>sp_mmap\<close> holds the bytes of the mapping of a rotated file.\<close>

record SegmentPair =
  sp_base_offset :: offset
  sp_log :: LogSegment
  sp_index :: IndexSegment
  sp_time_index :: TimeIndexSegment
  sp_txn_index :: TxnIndexSegment
  sp_mmap :: "bytes option"

record SegmentManager =
  lm_config :: SegmentConfig
  lm_active :: SegmentPair
  lm_historical :: "SegmentPair list"
  lm_bytes_since_last_index :: nat
  lm_high_watermark :: offset
  lm_active_created_at_ms :: nat
  lm_unlinked :: "offset list"

text \<open>
  \<open>lm_unlinked\<close> holds the base offsets whose files were removed from the directory and not
  created again. A handle stays usable without a name, so a segment can be live and unlinked.
\<close>

definition unlink_files :: "SegmentPair list \<Rightarrow> SegmentManager \<Rightarrow> SegmentManager" where
  "unlink_files ps m = m\<lparr>lm_unlinked := map sp_base_offset ps @ lm_unlinked m\<rparr>"

lemma unlink_files_sel [simp]:
  "lm_config (unlink_files ps m) = lm_config m" "lm_active (unlink_files ps m) = lm_active m"
  "lm_historical (unlink_files ps m) = lm_historical m"
  "lm_high_watermark (unlink_files ps m) = lm_high_watermark m"
  "lm_unlinked (unlink_files ps m) = map sp_base_offset ps @ lm_unlinked m"
  by (simp_all add: unlink_files_def)

subsection \<open>Rotation\<close>

datatype rotate_io = FinalizeFails log_io bool | IndexSyncFails bool | Rotates bool bool

definition set_active_log :: "LogSegment \<Rightarrow> SegmentManager \<Rightarrow> SegmentManager" where
  "set_active_log l m = m\<lparr>lm_active := (lm_active m)\<lparr>sp_log := l\<rparr>\<rparr>"

text \<open>
  The files of the new segment exist already when the segment rotated has the same base and they
  were not removed since.
\<close>

definition fresh_pair ::
  "(bytes \<Rightarrow> nat) \<Rightarrow> SegmentConfig \<Rightarrow> offset \<Rightarrow> offset list \<Rightarrow> SegmentPair \<Rightarrow> SegmentPair" where
  "fresh_pair crc cfg base unlinked old =
     (let same = (sp_base_offset old = base \<and> base \<notin> set unlinked);
          index = open_index (if same then ix_content (sp_index old) else []) base;
          time_index = open_time_index (if same then ti_content (sp_time_index old) else []) base;
          txn_index = open_txn_index (if same then tx_content (sp_txn_index old) else [])
      in case open_at_path_with_trust crc cfg base False
                (if same then Some [lg_file (sp_log old)] else None)
                (if same then lg_clean (sp_log old) else None) index of
           (l, index) \<Rightarrow>
             \<lparr>sp_base_offset = base, sp_log = l, sp_index = index, sp_time_index = time_index,
              sp_txn_index = txn_index, sp_mmap = None\<rparr>)"

definition rotate_segment ::
  "(bytes \<Rightarrow> nat) \<Rightarrow> rotate_io \<Rightarrow> nat \<Rightarrow> SegmentManager \<Rightarrow> SegmentManager \<times> bool" where
  "rotate_segment crc io now m =
     (let l = sp_log (lm_active m) in
      case io of
        FinalizeFails e marked \<Rightarrow> (set_active_log (fst (finalize e marked l)) m, False)
      | IndexSyncFails marked \<Rightarrow> (set_active_log (fst (finalize LogDone marked l)) m, False)
      | Rotates marked mapped \<Rightarrow>
          (let old = (lm_active m)\<lparr>sp_log := fst (finalize LogDone marked l)\<rparr>;
               old' = old\<lparr>sp_mmap := (if mapped then Some (lg_file (sp_log old)) else None)\<rparr>
           in (m\<lparr>lm_active := fresh_pair crc (lm_config m) (lm_high_watermark m) (lm_unlinked m) old,
                 lm_historical := lm_historical m @ [old'],
                 lm_bytes_since_last_index := 0,
                 lm_active_created_at_ms := now,
                 lm_unlinked := removeAll (lm_high_watermark m) (lm_unlinked m)\<rparr>, True)))"

definition should_roll_by_time :: "nat \<Rightarrow> SegmentManager \<Rightarrow> bool" where
  "should_roll_by_time now m =
     (case cf_segment_ms (lm_config m) of
        Some segment_ms \<Rightarrow>
          0 < segment_ms \<and> 0 < lg_physical_size (sp_log (lm_active m))
            \<and> segment_ms \<le> now - lm_active_created_at_ms m
      | None \<Rightarrow> False)"

definition maybe_rotate_before_append ::
  "(bytes \<Rightarrow> nat) \<Rightarrow> rotate_io \<Rightarrow> nat \<Rightarrow> nat \<Rightarrow> SegmentManager \<Rightarrow> SegmentManager \<times> bool" where
  "maybe_rotate_before_append crc io now frame_size m =
     (if cf_max_segment_bytes (lm_config m) < lg_physical_size (sp_log (lm_active m)) + frame_size
         \<or> should_roll_by_time now m
      then rotate_segment crc io now m else (m, True))"

subsection \<open>Appending\<close>

record append_io =
  ap_rotate :: rotate_io
  ap_now :: nat
  ap_write :: write_result
  ap_index :: write_result
  ap_time :: write_result

definition append_batch_to_active ::
  "write_result \<Rightarrow> RecordBatch \<Rightarrow> SegmentManager \<Rightarrow> SegmentManager \<times> nat option" where
  "append_batch_to_active w b m =
     (case append_bytes w (encode_record_batch b) (sp_log (lm_active m)) of
        (l, pos) \<Rightarrow> (set_active_log l m, pos))"

text \<open>The sparse index entry; a failure of the time index is ignored.\<close>

definition index_batch ::
  "append_io \<Rightarrow> RecordBatch \<Rightarrow> nat \<Rightarrow> nat \<Rightarrow> SegmentManager \<Rightarrow> SegmentManager \<times> bool" where
  "index_batch io b base_timestamp physical_pos m =
     (let p = lm_active m in
      if cf_index_interval_bytes (lm_config m) \<le> lm_bytes_since_last_index m \<or> ix_entries (sp_index p) = []
      then (case append_index (ap_index io) (rb_base_offset b) physical_pos (sp_index p) of
              (index, ok) \<Rightarrow>
                if \<not> ok then (m\<lparr>lm_active := p\<lparr>sp_index := index\<rparr>\<rparr>, False)
                else (m\<lparr>lm_active := p\<lparr>sp_index := index,
                         sp_time_index := fst (append_time (ap_time io) base_timestamp (rb_base_offset b)
                           (sp_time_index p))\<rparr>,
                       lm_bytes_since_last_index := 0\<rparr>, True))
      else (m, True))"

definition store_batch ::
  "(bytes \<Rightarrow> nat) \<Rightarrow> append_io \<Rightarrow> RecordBatch \<Rightarrow> offset \<Rightarrow> SegmentManager \<Rightarrow> SegmentManager \<times> bool" where
  "store_batch crc io b new_hw m =
     (case maybe_rotate_before_append crc (ap_rotate io) (ap_now io) (encoded_size b) m of
        (m1, rotated) \<Rightarrow>
          if \<not> rotated then (m1, False)
          else (case append_batch_to_active (ap_write io) b m1 of
            (m2, None) \<Rightarrow> (m2, False)
          | (m2, Some physical_pos) \<Rightarrow>
              (case index_batch io b (rb_base_timestamp b) physical_pos m2 of
                 (m3, indexed) \<Rightarrow>
                   if \<not> indexed then (m3, False)
                   else (set_active_log ((sp_log (lm_active m3))\<lparr>lg_next_offset := new_hw\<rparr>)
                           (m3\<lparr>lm_bytes_since_last_index := lm_bytes_since_last_index m3 + encoded_size b,
                              lm_high_watermark := new_hw\<rparr>), True))))"

definition append_batch ::
  "(bytes \<Rightarrow> nat) \<Rightarrow> append_io \<Rightarrow> RecordBatch \<Rightarrow> nat \<Rightarrow> SegmentManager \<Rightarrow> SegmentManager \<times> RecordBatch option" where
  "append_batch crc io batch leader_epoch m =
     (let b = assign_base_offset_and_leader_epoch crc (lm_high_watermark m) leader_epoch batch in
      case store_batch crc io b (add64 (lm_high_watermark m) (rb_last_offset_delta b + 1)) m of
        (m', ok) \<Rightarrow> (m', if ok then Some b else None))"

datatype VerbatimAppendResult = Appended | AlreadyApplied | Gap offset

definition append_batch_verbatim ::
  "(bytes \<Rightarrow> nat) \<Rightarrow> append_io \<Rightarrow> RecordBatch \<Rightarrow> SegmentManager \<Rightarrow> SegmentManager \<times> VerbatimAppendResult option" where
  "append_batch_verbatim crc io b m =
     (let hw = lm_high_watermark m; lst = batch_last_offset b in
      if lst < hw then (m, Some AlreadyApplied)
      else if hw < rb_base_offset b then (m, Some (Gap hw))
      else if rb_base_offset b < hw then (m, Some (Gap hw))
      else case store_batch crc io b (add64 lst 1) m of
        (m', ok) \<Rightarrow> (m', if ok then Some Appended else None))"

datatype CompressionCodec = CodecProducer | CodecNone | CodecLz4 | CodecZstd

definition for_broker_authored_frame :: "CompressionCodec \<Rightarrow> CompressionCodec" where
  "for_broker_authored_frame c = (case c of CodecProducer \<Rightarrow> CodecNone | other \<Rightarrow> other)"

definition append_record ::
  "(bytes \<Rightarrow> nat) \<Rightarrow> codecs \<Rightarrow> append_io \<Rightarrow> bytes \<Rightarrow> nat \<Rightarrow> CompressionCodec \<Rightarrow> SegmentManager
    \<Rightarrow> SegmentManager \<times> RecordBatch option" where
  "append_record crc cs io payload ts codec m =
     (let batch_codec = (case for_broker_authored_frame codec of
            CodecLz4 \<Rightarrow> Lz4 | CodecZstd \<Rightarrow> Zstd | _ \<Rightarrow> NoCompression)
      in append_batch crc io
           (create crc cs 0 ts 0 0 0 0 False batch_codec [(ts, None, Some payload)]) 0 m)"

text \<open>The outer \<open>None\<close> is the panic on a transaction id that is too long.\<close>

definition append_control_marker ::
  "(bytes \<Rightarrow> nat) \<Rightarrow> codecs \<Rightarrow> append_io \<Rightarrow> nat \<Rightarrow> nat \<Rightarrow> string \<Rightarrow> nat \<Rightarrow> SegmentManager
    \<Rightarrow> (SegmentManager \<times> RecordBatch option) option" where
  "append_control_marker crc cs io control_type producer_id transaction_id ts m =
     (case write_pascal_string transaction_id of
        None \<Rightarrow> None
      | Some tid \<Rightarrow>
          (let val = be_bytes 1 control_type @ be_bytes 8 producer_id @ tid;
               batch = create crc cs 0 ts 0 producer_id 0 0 True NoCompression
                         [(ts, None, Some val)]
           in Some (append_batch crc io (set_control crc batch) 0 m)))"

subsection \<open>Truncation\<close>

function trunc_scan :: "(bytes \<Rightarrow> nat) \<Rightarrow> offset \<Rightarrow> nat \<Rightarrow> bytes \<Rightarrow> (nat \<times> offset) option" where
  "trunc_scan crc off phys raw =
     (if length raw < HEADER_SIZE then None
      else case decode_entry crc raw of
        Inr (Batch b, n) \<Rightarrow>
          if off \<le> batch_last_offset b then Some (phys, rb_base_offset b)
          else trunc_scan crc off (phys + n) (drop n raw)
      | Inl _ \<Rightarrow> None)"
  by pat_completeness auto
termination
  by (relation "measure (\<lambda>(crc, off, phys, raw). length raw)") (auto dest!: decode_entry_consumes)

declare trunc_scan.simps [simp del]

definition seek_pos :: "offset \<Rightarrow> SegmentPair \<Rightarrow> nat" where
  "seek_pos off p =
     (case find_nearest_physical_pos off (sp_index p) of None \<Rightarrow> 0 | Some e \<Rightarrow> physical_position e)"

definition physical_pos_for_offset :: "(bytes \<Rightarrow> nat) \<Rightarrow> offset \<Rightarrow> SegmentPair \<Rightarrow> nat \<times> offset" where
  "physical_pos_for_offset crc off p =
     (let start_pos = seek_pos off p;
          raw = read_at start_pos (lg_physical_size (sp_log p)) (sp_log p)
      in case trunc_scan crc off start_pos raw of
           Some found \<Rightarrow> found
         | None \<Rightarrow> (lg_physical_size (sp_log p), off))"

record trunc_io =
  tr_log :: log_io
  tr_index :: rebuild_io
  tr_time :: rebuild_io
  tr_txn :: rebuild_io

definition truncate_segment_pair ::
  "(bytes \<Rightarrow> nat) \<Rightarrow> trunc_io \<Rightarrow> offset \<Rightarrow> SegmentPair \<Rightarrow> SegmentPair \<times> offset option" where
  "truncate_segment_pair crc io off p =
     (case physical_pos_for_offset crc off p of
        (phys, effective_offset) \<Rightarrow>
          (case truncate_to (tr_log io) phys (sp_log p) of (l, log_ok) \<Rightarrow>
           let p1 = p\<lparr>sp_log := l\<rparr> in
           if \<not> log_ok then (p1, None)
           else case truncate_index_after (tr_index io) effective_offset (sp_index p) of (ix, ix_ok) \<Rightarrow>
           let p2 = p1\<lparr>sp_index := ix\<rparr> in
           if \<not> ix_ok then (p2, None)
           else case truncate_time_after (tr_time io) effective_offset (sp_time_index p) of (ti, ti_ok) \<Rightarrow>
           let p3 = p2\<lparr>sp_time_index := ti\<rparr> in
           if \<not> ti_ok then (p3, None)
           else case truncate_txn_after (tr_txn io) effective_offset (sp_txn_index p) of (tx, tx_ok) \<Rightarrow>
           let p4 = p3\<lparr>sp_txn_index := tx\<rparr> in
           if \<not> tx_ok then (p4, None)
           else (p4\<lparr>sp_mmap := None\<rparr>, Some effective_offset)))"

definition end_at :: "offset \<Rightarrow> SegmentManager \<Rightarrow> SegmentManager" where
  "end_at eff m =
     set_active_log ((sp_log (lm_active m))\<lparr>lg_next_offset := eff\<rparr>)
       (m\<lparr>lm_high_watermark := eff, lm_bytes_since_last_index := 0\<rparr>)"

text \<open>
  The files of discarded segments are removed before the cut, those of the active one after a
  promotion. A segment that is promoted and then fails to be cut has already left the manager.
\<close>

definition truncate_after ::
  "(bytes \<Rightarrow> nat) \<Rightarrow> trunc_io \<Rightarrow> offset \<Rightarrow> SegmentManager \<Rightarrow> SegmentManager \<times> bool" where
  "truncate_after crc io off m =
     (if lm_high_watermark m \<le> off then (m, True)
      else let kept = filter (\<lambda>p. sp_base_offset p < off) (lm_historical m);
               discarded = filter (\<lambda>p. \<not> sp_base_offset p < off) (lm_historical m);
               m0 = unlink_files discarded m in
        if off < sp_base_offset (lm_active m) \<and> kept \<noteq> []
        then (let m1 = m0\<lparr>lm_historical := butlast kept\<rparr> in
              case truncate_segment_pair crc io off (last kept) of
                (promoted, None) \<Rightarrow> (m1, False)
              | (promoted, Some eff) \<Rightarrow>
                  (end_at eff (unlink_files [lm_active m] (m1\<lparr>lm_active := promoted\<rparr>)), True))
        else (let m1 = m0\<lparr>lm_historical := kept\<rparr> in
              case truncate_segment_pair crc io off (lm_active m) of
                (p, None) \<Rightarrow> (m1\<lparr>lm_active := p\<rparr>, False)
              | (p, Some eff) \<Rightarrow> (end_at eff (m1\<lparr>lm_active := p\<rparr>), True)))"

subsection \<open>Reading\<close>

text \<open>The segment an offset is looked up in: \<open>None\<close> the active one, else a position in the list.\<close>

definition find_segment_pair :: "offset \<Rightarrow> SegmentManager \<Rightarrow> nat option" where
  "find_segment_pair off m =
     (if sp_base_offset (lm_active m) \<le> off \<or> lm_historical m = [] then None
      else case filter (\<lambda>i. sp_base_offset (lm_historical m ! i) \<le> off) (rev [0 ..< length (lm_historical m)]) of
        i # _ \<Rightarrow> Some i
      | [] \<Rightarrow> Some 0)"

definition pair_at :: "nat option \<Rightarrow> SegmentManager \<Rightarrow> SegmentPair" where
  "pair_at i m = (case i of None \<Rightarrow> lm_active m | Some i \<Rightarrow> lm_historical m ! i)"

definition BATCH_FRAMING_PREFIX_SIZE :: nat where "BATCH_FRAMING_PREFIX_SIZE = 21"
definition FRAMING_SCAN_READ_AHEAD :: nat where "FRAMING_SCAN_READ_AHEAD = 65536"

text \<open>The length of an entry and its last offset, read from its header.\<close>

definition frame_entry :: "bytes \<Rightarrow> (nat \<times> offset) option" where
  "frame_entry prefix =
     (if length prefix < BATCH_FRAMING_PREFIX_SIZE \<or> hd prefix \<noteq> BATCH_MAGIC_BYTE then None
      else let batch_length = be_val (take 4 (drop 1 prefix)) in
        if batch_length < BATCH_LENGTH_COVERED_FIXED then None
        else Some (5 + batch_length,
               saturating_add64 (be_val (take 8 (drop 9 prefix))) (be_val (take 4 (drop 17 prefix)))))"

record plan_state =
  pl_cursor :: nat
  pl_budget :: nat
  pl_first_included :: "nat option"
  pl_end :: nat
  pl_window :: bytes
  pl_window_start :: nat

definition refill_window :: "LogSegment \<Rightarrow> nat \<Rightarrow> nat \<Rightarrow> plan_state \<Rightarrow> plan_state" where
  "refill_window l base_pos available st =
     (if pl_cursor st < pl_window_start st
         \<or> pl_window_start st + length (pl_window st) < pl_cursor st + BATCH_FRAMING_PREFIX_SIZE
      then st\<lparr>pl_window_start := pl_cursor st,
              pl_window := read_at (base_pos + pl_cursor st)
                (min FRAMING_SCAN_READ_AHEAD (available - pl_cursor st)) l\<rparr>
      else st)"

text \<open>One round of the loop; \<open>None\<close> is a \<open>break\<close>.\<close>

definition plan_step ::
  "LogSegment \<Rightarrow> nat \<Rightarrow> nat \<Rightarrow> offset \<Rightarrow> offset \<Rightarrow> plan_state \<Rightarrow> plan_state option" where
  "plan_step l base_pos available from_offset max_offset_exclusive st0 =
     (if available < pl_cursor st0 + BATCH_FRAMING_PREFIX_SIZE then None
      else let st = refill_window l base_pos available st0 in
        if length (pl_window st) < BATCH_FRAMING_PREFIX_SIZE then None
        else case frame_entry (take BATCH_FRAMING_PREFIX_SIZE
                    (drop (pl_cursor st - pl_window_start st) (pl_window st))) of
          None \<Rightarrow> None
        | Some (total_len, lst) \<Rightarrow>
            (let next = pl_cursor st + total_len in
             if U64_MAX < next \<or> available < next then None
             else if pl_budget st < next \<and> pl_first_included st \<noteq> None then None
             else if max_offset_exclusive \<le> lst then None
             else let st1 = st\<lparr>pl_budget := max (pl_budget st) next, pl_cursor := next\<rparr> in
               if from_offset \<le> lst
               then Some (st1\<lparr>pl_first_included := (case pl_first_included st of
                            None \<Rightarrow> Some (pl_cursor st) | Some c \<Rightarrow> Some c),
                          pl_end := next\<rparr>)
               else Some st1))"

lemma refill_window_cursor [simp]:
  "pl_cursor (refill_window l bp av st) = pl_cursor st"
  "pl_first_included (refill_window l bp av st) = pl_first_included st"
  "pl_budget (refill_window l bp av st) = pl_budget st"
  "pl_end (refill_window l bp av st) = pl_end st"
  by (simp_all add: refill_window_def)

lemma frame_entry_pos: "frame_entry prefix = Some (n, lst) \<Longrightarrow> 0 < n"
  by (auto simp: frame_entry_def Let_def split: if_splits)

lemma plan_step_advances:
  assumes "plan_step l base_pos available a e st = Some st'"
  shows "pl_cursor st < pl_cursor st' \<and> pl_cursor st' \<le> available"
proof -
  let ?st = "refill_window l base_pos available st"
  obtain n lst where f: "frame_entry (take BATCH_FRAMING_PREFIX_SIZE
      (drop (pl_cursor ?st - pl_window_start ?st) (pl_window ?st))) = Some (n, lst)"
    using assms by (auto simp: plan_step_def Let_def split: if_splits option.splits)
  have "pl_cursor st' = pl_cursor st + n \<and> \<not> available < pl_cursor st + n"
    using assms unfolding plan_step_def Let_def f by (auto split: if_splits)
  then show ?thesis using frame_entry_pos [OF f] by simp
qed

function plan_loop ::
  "LogSegment \<Rightarrow> nat \<Rightarrow> nat \<Rightarrow> offset \<Rightarrow> offset \<Rightarrow> plan_state \<Rightarrow> plan_state" where
  "plan_loop l base_pos available from_offset max_offset_exclusive st =
     (case plan_step l base_pos available from_offset max_offset_exclusive st of
        None \<Rightarrow> st
      | Some st' \<Rightarrow> plan_loop l base_pos available from_offset max_offset_exclusive st')"
  by pat_completeness auto
termination
  by (relation "measure (\<lambda>(l, base_pos, available, a, e, st). available - pl_cursor st)")
    (auto dest!: plan_step_advances)

declare plan_loop.simps [simp del]

text \<open>The position and the length of the bytes that answer a fetch.\<close>

definition plan_entries_range ::
  "offset \<Rightarrow> nat \<Rightarrow> offset \<Rightarrow> SegmentManager \<Rightarrow> (nat \<times> nat) option" where
  "plan_entries_range from_offset max_bytes max_offset_exclusive m =
     (let p = pair_at (find_segment_pair from_offset m) m;
          base_pos = seek_pos from_offset p;
          available = lg_physical_size (sp_log p) - base_pos;
          st = plan_loop (sp_log p) base_pos available from_offset max_offset_exclusive
                 \<lparr>pl_cursor = 0, pl_budget = max_bytes, pl_first_included = None, pl_end = 0,
                  pl_window = [], pl_window_start = 0\<rparr>
      in case pl_first_included st of
           None \<Rightarrow> None
         | Some begin_at \<Rightarrow> Some (base_pos + begin_at, pl_end st - begin_at))"

definition fetch_entries :: "offset \<Rightarrow> nat \<Rightarrow> offset \<Rightarrow> SegmentManager \<Rightarrow> bytes" where
  "fetch_entries from_offset max_bytes max_offset_exclusive m =
     (case plan_entries_range from_offset max_bytes max_offset_exclusive m of
        None \<Rightarrow> []
      | Some (physical_start, physical_len) \<Rightarrow>
          read_at physical_start physical_len (sp_log (pair_at (find_segment_pair from_offset m) m)))"

definition get_slice :: "nat \<Rightarrow> nat \<Rightarrow> bytes \<Rightarrow> bytes option" where
  "get_slice pos max_bytes mapping =
     (if length mapping \<le> pos then None else Some (take (min (length mapping - pos) max_bytes) (drop pos mapping)))"

definition raw_from :: "nat \<Rightarrow> nat \<Rightarrow> bytes \<Rightarrow> bytes" where
  "raw_from pos max_bytes mapping =
     (case get_slice pos max_bytes mapping of
        None \<Rightarrow> []
      | Some part \<Rightarrow>
          if part \<noteq> [] \<and> hd part = BATCH_MAGIC_BYTE
          then (case get_slice pos (length mapping) mapping of Some whole \<Rightarrow> whole | None \<Rightarrow> part)
          else part)"

definition widen_to_whole_first_entry :: "LogSegment \<Rightarrow> nat \<Rightarrow> bytes \<Rightarrow> bytes" where
  "widen_to_whole_first_entry l start_pos raw =
     (let prefix = (if BATCH_FRAMING_PREFIX_SIZE \<le> length raw then take BATCH_FRAMING_PREFIX_SIZE raw
                    else read_at start_pos BATCH_FRAMING_PREFIX_SIZE l)
      in case frame_entry prefix of
           None \<Rightarrow> raw
         | Some (total_len, _) \<Rightarrow> if total_len \<le> length raw then raw else read_at start_pos total_len l)"

text \<open>The loop over whole entries that \<open>fetch\<close> and \<open>read_all_entries\<close> share.\<close>

function whole_entries :: "(bytes \<Rightarrow> nat) \<Rightarrow> bytes \<Rightarrow> LogEntry list" where
  "whole_entries crc raw =
     (if length raw < HEADER_SIZE then []
      else case decode_entry crc raw of
        Inl _ \<Rightarrow> []
      | Inr (e, n) \<Rightarrow> e # whole_entries crc (drop n raw))"
  by pat_completeness auto
termination
  by (relation "measure (\<lambda>(crc, raw). length raw)") (auto dest!: decode_entry_consumes)

declare whole_entries.simps [simp del]

definition fetch :: "(bytes \<Rightarrow> nat) \<Rightarrow> codecs \<Rightarrow> offset \<Rightarrow> nat \<Rightarrow> SegmentManager \<Rightarrow> Record list" where
  "fetch crc cs from_offset max_bytes m =
     (let p = pair_at (find_segment_pair from_offset m) m;
          start_pos = seek_pos from_offset p;
          raw = (case sp_mmap p of
                   Some mapping \<Rightarrow> raw_from start_pos max_bytes mapping
                 | None \<Rightarrow> widen_to_whole_first_entry (sp_log p) start_pos (read_at start_pos max_bytes (sp_log p)))
      in filter (\<lambda>r. from_offset \<le> rec_offset r) (records_from_entries cs (whole_entries crc raw)))"

definition seek :: "offset \<Rightarrow> SegmentManager \<Rightarrow> (offset \<times> nat) option" where
  "seek target m =
     (let p = pair_at (find_segment_pair target m) m in
      case find_nearest_physical_pos target (sp_index p) of
        None \<Rightarrow> None
      | Some e \<Rightarrow> Some (add64 (sp_base_offset p) (relative_offset e), physical_position e))"

definition offset_for_timestamp :: "nat \<Rightarrow> SegmentManager \<Rightarrow> offset" where
  "offset_for_timestamp target m =
     (let newest = (if lm_historical m = [] then max_timestamp (sp_time_index (lm_active m))
                    else max_timestamp (sp_time_index (last (lm_historical m))))
      in case List.map_filter (\<lambda>p. find_offset_for_timestamp target (sp_time_index p))
                (lm_historical m @ [lm_active m]) of
           off # _ \<Rightarrow> off
         | [] \<Rightarrow>
             (if (case newest of None \<Rightarrow> False | Some n \<Rightarrow> n < target)
              then lg_next_offset (sp_log (lm_active m))
              else (case lm_historical m of
                      p # _ \<Rightarrow> sp_base_offset p | [] \<Rightarrow> sp_base_offset (lm_active m))))"

definition fetch_entries_by_timestamp :: "nat \<Rightarrow> nat \<Rightarrow> offset \<Rightarrow> SegmentManager \<Rightarrow> bytes" where
  "fetch_entries_by_timestamp target max_bytes max_offset_exclusive m =
     fetch_entries (offset_for_timestamp target m) max_bytes max_offset_exclusive m"

definition fetch_by_timestamp ::
  "(bytes \<Rightarrow> nat) \<Rightarrow> codecs \<Rightarrow> nat \<Rightarrow> nat \<Rightarrow> SegmentManager \<Rightarrow> Record list" where
  "fetch_by_timestamp crc cs target max_bytes m =
     filter (\<lambda>r. target \<le> rec_timestamp r) (fetch crc cs (offset_for_timestamp target m) max_bytes m)"

definition append_aborted_txn ::
  "write_result \<Rightarrow> bool \<Rightarrow> nat \<Rightarrow> offset \<Rightarrow> offset \<Rightarrow> SegmentManager \<Rightarrow> SegmentManager \<times> bool" where
  "append_aborted_txn w synced producer_id lo hi m =
     (let i = find_segment_pair lo m; p = pair_at i m in
      case append_txn w synced producer_id lo hi (sp_txn_index p) of
        (tx, ok) \<Rightarrow>
          (case i of
             None \<Rightarrow> m\<lparr>lm_active := p\<lparr>sp_txn_index := tx\<rparr>\<rparr>
           | Some i \<Rightarrow> m\<lparr>lm_historical := (lm_historical m)[i := p\<lparr>sp_txn_index := tx\<rparr>]\<rparr>, ok))"

definition segment_aborted_ranges :: "SegmentManager \<Rightarrow> (offset \<times> offset) list" where
  "segment_aborted_ranges m =
     map (\<lambda>e. (first_offset e, last_offset e))
       (concat (map (\<lambda>p. tx_entries (sp_txn_index p)) (lm_historical m))
          @ tx_entries (sp_txn_index (lm_active m)))"

definition is_offset_aborted :: "offset \<Rightarrow> SegmentManager \<Rightarrow> bool" where
  "is_offset_aborted off m \<longleftrightarrow>
     is_aborted off (sp_txn_index (lm_active m))
       \<or> list_ex (\<lambda>p. is_aborted off (sp_txn_index p)) (lm_historical m)"

subsection \<open>Dropping old segments\<close>

text \<open>
  The files of a dropped segment are removed by name, also when a later segment has the same one.
\<close>

fun trim_list :: "offset \<Rightarrow> offset \<Rightarrow> SegmentPair list \<Rightarrow> SegmentPair list \<times> nat" where
  "trim_list off active_base [] = ([], 0)"
| "trim_list off active_base (p # ps) =
     (let next_base_offset = (case ps of q # _ \<Rightarrow> sp_base_offset q | [] \<Rightarrow> active_base) in
      if off < next_base_offset then (p # ps, 0)
      else case trim_list off active_base ps of (ps', n) \<Rightarrow> (ps', Suc n))"

definition trim_before :: "offset \<Rightarrow> SegmentManager \<Rightarrow> SegmentManager \<times> nat" where
  "trim_before off m =
     (case trim_list off (sp_base_offset (lm_active m)) (lm_historical m) of
        (ps, n) \<Rightarrow> (unlink_files (take n (lm_historical m)) (m\<lparr>lm_historical := ps\<rparr>), n))"

text \<open>\<open>mtime\<close> is the modification time of a segment's file, by its base offset.\<close>

definition expired_segment ::
  "SegmentConfig \<Rightarrow> nat \<Rightarrow> (offset \<Rightarrow> nat) \<Rightarrow> nat \<Rightarrow> SegmentPair \<Rightarrow> bool" where
  "expired_segment cfg now mtime total_bytes p =
     (let record_age_ms = (case max_timestamp (sp_time_index p) of
            Some t \<Rightarrow> t | None \<Rightarrow> mtime (sp_base_offset p))
      in (case cf_retention_millis cfg of
            None \<Rightarrow> False
          | Some max_age_ms \<Rightarrow> record_age_ms < now \<and> max_age_ms < now - record_age_ms)
         \<or> (case cf_retention_bytes cfg of None \<Rightarrow> False | Some max_bytes \<Rightarrow> max_bytes < total_bytes))"

fun retain ::
  "SegmentConfig \<Rightarrow> nat \<Rightarrow> (offset \<Rightarrow> nat) \<Rightarrow> nat \<Rightarrow> SegmentPair list \<Rightarrow> SegmentPair list
    \<Rightarrow> SegmentPair list \<times> SegmentPair list" where
  "retain cfg now mtime active_bytes kept [] = (kept, [])"
| "retain cfg now mtime active_bytes kept (p # ps) =
     (let total_bytes = sum_list (map (lg_physical_size \<circ> sp_log) (kept @ p # ps)) + active_bytes in
      if expired_segment cfg now mtime total_bytes p
      then (case retain cfg now mtime active_bytes kept ps of (ps', removed) \<Rightarrow> (ps', p # removed))
      else retain cfg now mtime active_bytes (kept @ [p]) ps)"

definition apply_delete_retention ::
  "nat \<Rightarrow> (offset \<Rightarrow> nat) \<Rightarrow> SegmentManager \<Rightarrow> SegmentManager \<times> nat" where
  "apply_delete_retention now mtime m =
     (case retain (lm_config m) now mtime (lg_physical_size (sp_log (lm_active m))) [] (lm_historical m) of
        (ps, removed) \<Rightarrow> (unlink_files removed (m\<lparr>lm_historical := ps\<rparr>), length removed))"

subsection \<open>Opening a partition directory\<close>

text \<open>The files of one base offset.\<close>

record segment_files =
  sf_log :: "bytes list option"
  sf_clean :: "nat option"
  sf_index :: bytes
  sf_time_index :: bytes
  sf_txn_index :: bytes

definition open_pair ::
  "(bytes \<Rightarrow> nat) \<Rightarrow> SegmentConfig \<Rightarrow> bool \<Rightarrow> bool \<Rightarrow> offset \<times> segment_files \<Rightarrow> SegmentPair" where
  "open_pair crc cfg historical mapped = (\<lambda>(base, f).
     case open_at_path_with_trust crc cfg base historical (sf_log f) (sf_clean f) (open_index (sf_index f) base) of
       (l, index) \<Rightarrow>
         \<lparr>sp_base_offset = base, sp_log = l, sp_index = index,
          sp_time_index = open_time_index (sf_time_index f) base,
          sp_txn_index = open_txn_index (sf_txn_index f),
          sp_mmap = (if historical \<and> mapped then Some (lg_file l) else None)\<rparr>)"

definition open_manager ::
  "(bytes \<Rightarrow> nat) \<Rightarrow> SegmentConfig \<Rightarrow> bool \<Rightarrow> nat \<Rightarrow> (offset \<times> segment_files) list \<Rightarrow> SegmentManager" where
  "open_manager crc cfg mapped now files =
     (let sorted_files = sort_key fst files;
          segs = (if sorted_files = []
                  then [(0, \<lparr>sf_log = None, sf_clean = None, sf_index = [], sf_time_index = [],
                             sf_txn_index = []\<rparr>)]
                  else sorted_files);
          active = open_pair crc cfg False mapped (last segs)
      in \<lparr>lm_config = cfg, lm_active = active,
          lm_historical = map (open_pair crc cfg True mapped) (butlast segs),
          lm_bytes_since_last_index = 0,
          lm_high_watermark = lg_next_offset (sp_log active),
          lm_active_created_at_ms = now, lm_unlinked = []\<rparr>)"

end
