(* ===== verification/Log_Refinement.thy ===== *)
theory Log_Refinement
  imports Segment_Log
begin

text \<open>
  The log of a partition as a list of record batches. A segment holds the batches whose
  encodings its file starts with; the log of a manager is what its segments hold, oldest
  first. Appending, truncating and dropping segments act on that list.
\<close>

section \<open>Chains of batches\<close>

primrec chained :: "offset \<Rightarrow> RecordBatch list \<Rightarrow> bool" where
  "chained a [] \<longleftrightarrow> True"
| "chained a (b # bs) \<longleftrightarrow> rb_base_offset b = a \<and> chained (a + rb_last_offset_delta b + 1) bs"

definition log_end :: "offset \<Rightarrow> RecordBatch list \<Rightarrow> offset" where
  "log_end a bs = a + sum_list (map (\<lambda>b. rb_last_offset_delta b + 1) bs)"

definition log_image :: "RecordBatch list \<Rightarrow> bytes" where
  "log_image bs = concat (map encode_record_batch bs)"

lemma log_end_simps [simp]:
  "log_end a [] = a" "log_end a (b # bs) = log_end (a + rb_last_offset_delta b + 1) bs"
  "log_end a (bs @ cs) = log_end (log_end a bs) cs"
  by (simp_all add: log_end_def)

lemma log_end_ge: "a \<le> log_end a bs"
  by (simp add: log_end_def)

lemma log_image_simps [simp]:
  "log_image [] = []" "log_image (b # bs) = encode_record_batch b @ log_image bs"
  "log_image (bs @ cs) = log_image bs @ log_image cs"
  by (simp_all add: log_image_def)

lemma chained_append [simp]: "chained a (bs @ cs) \<longleftrightarrow> chained a bs \<and> chained (log_end a bs) cs"
  by (induction bs arbitrary: a) auto

lemma chained_base_ge: "\<lbrakk>chained a bs; b \<in> set bs\<rbrakk> \<Longrightarrow> a \<le> rb_base_offset b"
  by (induction bs arbitrary: a) (auto dest: add_leD1 Suc_leD)

lemma chained_last_less:
  "\<lbrakk>chained a bs; b \<in> set bs\<rbrakk> \<Longrightarrow> rb_base_offset b + rb_last_offset_delta b < log_end a bs"
proof (induction bs arbitrary: a)
  case (Cons c bs)
  then show ?case using log_end_ge [of "a + rb_last_offset_delta c + 1" bs] by auto
qed simp

text \<open>Below the end of the address space the last offset of a batch does not wrap around.\<close>

lemma chained_last_exact:
  "\<lbrakk>chained a bs; log_end a bs < 2 ^ 64; b \<in> set bs\<rbrakk>
    \<Longrightarrow> batch_last_offset b = rb_base_offset b + rb_last_offset_delta b"
  using chained_last_less [of a bs b] by (simp add: batch_last_offset_def arith_simps)

lemma chained_split:
  assumes "chained a bs" "log_end a bs < 2 ^ 64" "a \<le> off" "off < log_end a bs"
  obtains xs b ys where "bs = xs @ b # ys" "rb_base_offset b = log_end a xs" "log_end a xs \<le> off"
    "off \<le> batch_last_offset b" "\<And>x. x \<in> set xs \<Longrightarrow> batch_last_offset x < off"
proof -
  have "\<exists>xs b ys. bs = xs @ b # ys \<and> rb_base_offset b = log_end a xs \<and> log_end a xs \<le> off \<and>
    off \<le> batch_last_offset b \<and> (\<forall>x\<in>set xs. batch_last_offset x < off)"
    using assms
  proof (induction bs arbitrary: a)
    case (Cons c bs)
    let ?a = "a + rb_last_offset_delta c + 1"
    have c: "batch_last_offset c = a + rb_last_offset_delta c"
      using chained_last_exact [OF Cons.prems(1,2), of c] Cons.prems(1) by simp
    show ?case
    proof (cases "off \<le> batch_last_offset c")
      case True
      then show ?thesis using Cons.prems by (intro exI [of _ "[]"] exI [of _ c] exI [of _ bs]) simp
    next
      case False
      then have "?a \<le> off" using c by simp
      then obtain xs b ys where "bs = xs @ b # ys" "rb_base_offset b = log_end ?a xs"
        "log_end ?a xs \<le> off" "off \<le> batch_last_offset b" "\<forall>x\<in>set xs. batch_last_offset x < off"
        using Cons.IH [of ?a] Cons.prems by auto
      then show ?thesis using False
        by (intro exI [of _ "c # xs"] exI [of _ b] exI [of _ ys]) simp
    qed
  qed simp
  then show ?thesis using that by blast
qed

lemma length_encode_ge: "53 \<le> length (encode_record_batch b)"
  by (simp add: length_encode_record_batch encoded_size_def BATCH_HEADER_SIZE_def)

section \<open>What a segment holds\<close>

definition index_points :: "offset \<Rightarrow> RecordBatch list \<Rightarrow> IndexEntry \<Rightarrow> bool" where
  "index_points base bs e \<longleftrightarrow> (\<exists>xs ys. bs = xs @ ys \<and> ys \<noteq> [] \<and>
     physical_position e = length (log_image xs) \<and> base + relative_offset e = log_end base xs)"

definition pair_holds :: "(bytes \<Rightarrow> nat) \<Rightarrow> RecordBatch list \<Rightarrow> SegmentPair \<Rightarrow> bool" where
  "pair_holds crc bs p \<longleftrightarrow>
     lg_physical_size (sp_log p) = length (log_image bs) \<and>
     (\<exists>rest. lg_file (sp_log p) = log_image bs @ rest) \<and>
     list_all (record_batch_ok crc) bs \<and> chained (sp_base_offset p) bs \<and>
     log_end (sp_base_offset p) bs < 2 ^ 64 \<and>
     log_end (sp_base_offset p) bs < sp_base_offset p + 2 ^ 32 \<and>
     index_ok (sp_base_offset p) (log_end (sp_base_offset p) bs) (sp_index p) \<and>
     list_all (index_points (sp_base_offset p) bs) (ix_entries (sp_index p)) \<and>
     (bs \<noteq> [] \<longrightarrow> (\<exists>e es. ix_entries (sp_index p) = e # es \<and> relative_offset e = 0)) \<and>
     (case sp_mmap p of None \<Rightarrow> True | Some mapping \<Rightarrow> mapping = log_image bs)"

text \<open>The batches a segment holds, computed from its file.\<close>

fun entry_batch :: "LogEntry \<Rightarrow> RecordBatch" where "entry_batch (Batch b) = b"

definition stored_batches :: "(bytes \<Rightarrow> nat) \<Rightarrow> SegmentPair \<Rightarrow> RecordBatch list" where
  "stored_batches crc p =
     map entry_batch (whole_entries crc (read_at 0 (lg_physical_size (sp_log p)) (sp_log p)))"

lemma whole_entries_image:
  "list_all (record_batch_ok crc) bs \<Longrightarrow> whole_entries crc (log_image bs) = map Batch bs"
proof (induction bs)
  case Nil
  then show ?case by (simp add: whole_entries.simps HEADER_SIZE_def BATCH_HEADER_SIZE_def)
next
  case (Cons b bs)
  then show ?case
    using decode_entry_encode [of crc b "log_image bs"] length_encode_ge [of b]
      length_encode_record_batch [of b]
    by (subst whole_entries.simps) (simp add: HEADER_SIZE_def BATCH_HEADER_SIZE_def)
qed

lemma read_at_image:
  assumes "pair_holds crc (xs @ ys) p" "length (log_image ys) \<le> n"
  shows "read_at (length (log_image xs)) n (sp_log p) = log_image ys"
  using assms by (auto simp: pair_holds_def read_at_def)

lemma stored_batches_holds: "pair_holds crc bs p \<Longrightarrow> stored_batches crc p = bs"
  using read_at_image [of crc "[]" bs p "lg_physical_size (sp_log p)"]
  by (simp add: stored_batches_def whole_entries_image pair_holds_def comp_def)


subsection \<open>A batch more\<close>

lemma index_ok_mono: "\<lbrakk>index_ok base n x; n \<le> n'; n' \<le> base + 2 ^ 32\<rbrakk> \<Longrightarrow> index_ok base n' x"
  by (auto simp: index_ok_def list_all_iff intro: order.strict_trans2)

lemma index_ok_append:
  assumes ok: "index_ok base n x" and n: "n < n'" "n' \<le> base + 2 ^ 32"
    and ap: "append_index w n pos x = (x', True)"
  shows "index_ok base n' x'"
proof -
  have b: "ix_base_offset x = base" "base \<le> n" and img: "ix_content x = index_file.image (ix_entries x)"
    using ok by (simp_all add: index_ok_def)
  have rel: "relative x n = n - base" using n b by (simp add: relative_def)
  have old: "\<forall>e \<in> set (ix_entries x). base + relative_offset e < n"
    using ok by (auto simp: index_ok_def list_all_iff)
  show ?thesis
    using append_index_done [OF ap img] ok old n b rel
    by (auto simp: index_ok_def index_entry_ok_def sorted_wrt_append list_all_iff)
qed

lemma index_points_append: "index_points base bs e \<Longrightarrow> index_points base (bs @ cs) e"
  unfolding index_points_def by (metis append_assoc append_is_Nil_conv)

lemma index_points_end: "\<lbrakk>base + relative_offset e = log_end base bs; physical_position e = length (log_image bs); cs \<noteq> []\<rbrakk>
    \<Longrightarrow> index_points base (bs @ cs) e"
  unfolding index_points_def by blast

lemma pair_holds_snoc:
  assumes p: "pair_holds crc bs p" and b: "record_batch_ok crc b"
    and base: "rb_base_offset b = log_end (sp_base_offset p) bs"
    and room: "log_end (sp_base_offset p) (bs @ [b]) < 2 ^ 64"
      "log_end (sp_base_offset p) (bs @ [b]) < sp_base_offset p + 2 ^ 32"
    and l: "lg_physical_size (sp_log p') = length (log_image (bs @ [b]))"
      "lg_file (sp_log p') = log_image (bs @ [b]) @ rest"
    and ix: "(sp_index p' = sp_index p \<and> ix_entries (sp_index p) \<noteq> []) \<or>
      append_index w (rb_base_offset b) (length (log_image bs)) (sp_index p) = (sp_index p', True)"
    and same: "sp_base_offset p' = sp_base_offset p" "sp_mmap p' = None"
  shows "pair_holds crc (bs @ [b]) p'"
proof -
  let ?a = "sp_base_offset p" and ?n = "log_end (sp_base_offset p) bs"
  let ?n' = "log_end (sp_base_offset p) (bs @ [b])"
  have ok: "index_ok ?a ?n (sp_index p)"
    and pts: "list_all (index_points ?a bs) (ix_entries (sp_index p))"
    and hd0: "bs \<noteq> [] \<longrightarrow> (\<exists>e es. ix_entries (sp_index p) = e # es \<and> relative_offset e = 0)"
    using p by (simp_all add: pair_holds_def)
  have lt: "?n < ?n'" "?n' \<le> ?a + 2 ^ 32" using room(2) by simp_all
  have "index_ok ?a ?n' (sp_index p') \<and> list_all (index_points ?a (bs @ [b])) (ix_entries (sp_index p')) \<and>
    (\<exists>e es. ix_entries (sp_index p') = e # es \<and> relative_offset e = 0)"
    using ix
  proof
    assume same: "sp_index p' = sp_index p \<and> ix_entries (sp_index p) \<noteq> []"
    then have "bs \<noteq> []" using pts by (cases "ix_entries (sp_index p)") (auto simp: index_points_def)
    then show ?thesis using same hd0 pts index_ok_mono [OF ok _ lt(2)] lt(1)
      by (auto simp: list_all_iff intro!: index_points_append)
  next
    assume ap: "append_index w (rb_base_offset b) (length (log_image bs)) (sp_index p) = (sp_index p', True)"
    have ok': "index_ok ?a ?n' (sp_index p')"
      using index_ok_append [OF ok lt] ap base by simp
    have e: "ix_entries (sp_index p') = ix_entries (sp_index p) @
        [\<lparr>relative_offset = ?n - ?a, physical_position = length (log_image bs)\<rparr>]"
      using append_index_done [OF ap] ok base room log_end_ge [of ?a bs]
      by (simp add: index_ok_def relative_def)
    have "index_points ?a (bs @ [b]) \<lparr>relative_offset = ?n - ?a, physical_position = length (log_image bs)\<rparr>"
      by (rule index_points_end) (use log_end_ge [of ?a bs] in simp_all)
    moreover have "list_all (index_points ?a (bs @ [b])) (ix_entries (sp_index p))"
      using pts by (auto simp: list_all_iff intro: index_points_append)
    moreover have "bs = [] \<longrightarrow> ix_entries (sp_index p) = []"
      using pts by (cases "ix_entries (sp_index p)") (auto simp: index_points_def)
    ultimately show ?thesis using ok' e hd0 by (cases "bs = []") auto
  qed
  then show ?thesis using p b base room l same by (simp add: pair_holds_def)
qed

section \<open>What the manager holds\<close>

fun linked :: "(offset \<times> RecordBatch list) list \<Rightarrow> offset \<Rightarrow> bool" where
  "linked [] e \<longleftrightarrow> True"
| "linked [(a, bs)] e \<longleftrightarrow> log_end a bs = e"
| "linked ((a, bs) # (a', bs') # segs) e \<longleftrightarrow> log_end a bs = a' \<and> linked ((a', bs') # segs) e"

lemma linked_snoc [simp]: "linked (segs @ [(a, bs)]) e \<longleftrightarrow> linked segs a \<and> log_end a bs = e"
  by (induction segs e rule: linked.induct) auto

definition manager_holds ::
  "(bytes \<Rightarrow> nat) \<Rightarrow> RecordBatch list list \<Rightarrow> RecordBatch list \<Rightarrow> SegmentManager \<Rightarrow> bool" where
  "manager_holds crc hs bs m \<longleftrightarrow>
     list_all2 (pair_holds crc) hs (lm_historical m) \<and>
     linked (zip (map sp_base_offset (lm_historical m)) hs) (sp_base_offset (lm_active m)) \<and>
     pair_holds crc bs (lm_active m) \<and> sp_mmap (lm_active m) = None \<and>
     lm_high_watermark m = log_end (sp_base_offset (lm_active m)) bs \<and>
     lg_next_offset (sp_log (lm_active m)) = lm_high_watermark m"

definition manager_ok :: "(bytes \<Rightarrow> nat) \<Rightarrow> SegmentManager \<Rightarrow> bool" where
  "manager_ok crc m \<longleftrightarrow> (\<exists>hs bs. manager_holds crc hs bs m)"

definition log_batches :: "(bytes \<Rightarrow> nat) \<Rightarrow> SegmentManager \<Rightarrow> RecordBatch list" where
  "log_batches crc m =
     concat (map (stored_batches crc) (lm_historical m)) @ stored_batches crc (lm_active m)"

lemma log_batches_holds:
  assumes "manager_holds crc hs bs m"
  shows "log_batches crc m = concat hs @ bs"
proof -
  have "map (stored_batches crc) ps = hs" if "list_all2 (pair_holds crc) hs ps" for ps
    using that by (induction hs ps rule: list_all2_induct) (simp_all add: stored_batches_holds)
  then show ?thesis using assms by (simp add: manager_holds_def log_batches_def stored_batches_holds)
qed

subsection \<open>Rotation\<close>

lemma pair_holds_log:
  assumes "pair_holds crc bs p"
    and "lg_physical_size l = lg_physical_size (sp_log p)" "lg_file l = log_image bs @ rest"
  shows "pair_holds crc bs (p\<lparr>sp_log := l\<rparr>)"
  using assms by (auto simp: pair_holds_def)

lemma set_len_image: "set_len (length xs) (xs @ ys) = xs"
  by (simp add: set_len_def)

lemma finalize_holds:
  assumes "pair_holds crc bs p"
  shows "pair_holds crc bs (p\<lparr>sp_log := fst (finalize io marked (sp_log p))\<rparr>)"
    and "io \<noteq> SetLenError \<Longrightarrow> lg_file (fst (finalize io marked (sp_log p))) = log_image bs"
    and "lg_next_offset (fst (finalize io marked (sp_log p))) = lg_next_offset (sp_log p)"
proof -
  obtain rest where f: "lg_file (sp_log p) = log_image bs @ rest"
    and n: "lg_physical_size (sp_log p) = length (log_image bs)"
    using assms by (auto simp: pair_holds_def)
  then show whole: "io \<noteq> SetLenError \<Longrightarrow> lg_file (fst (finalize io marked (sp_log p))) = log_image bs"
    by (cases io) (simp_all add: finalize_def set_len_image)
  have "lg_physical_size (fst (finalize io marked (sp_log p))) = lg_physical_size (sp_log p)"
    by (cases io) (simp_all add: finalize_def)
  moreover have "lg_file (fst (finalize io marked (sp_log p))) =
      log_image bs @ (if io = SetLenError then rest else [])"
    using whole f by (cases io) (simp_all add: finalize_def)
  ultimately show "pair_holds crc bs (p\<lparr>sp_log := fst (finalize io marked (sp_log p))\<rparr>)"
    by (rule pair_holds_log [OF assms])
  show "lg_next_offset (fst (finalize io marked (sp_log p))) = lg_next_offset (sp_log p)"
    by (cases io) (simp_all add: finalize_def)
qed

lemma index_ok_empty: "index_ok base base (open_index [] base)"
  by (simp add: index_ok_def open_index_def INDEX_ENTRY_SIZE_def)

lemma full_scan_empty:
  "full_scan crc cfg base [[]] clean index =
     (\<lparr>lg_base_offset = base, lg_next_offset = base, lg_file = [], lg_physical_size = 0,
       lg_is_preallocated = False, lg_clean = clean\<rparr>,
      fst (truncate_and_rebuild (Writes [] True) [] index))"
  by (simp add: full_scan_def scan_chunk.simps [of _ _ _ _ "[]"])

lemma fresh_pair_holds:
  assumes "pair_holds crc bs old" "lg_file (sp_log old) = log_image bs"
    and "base = log_end (sp_base_offset old) bs"
  shows "pair_holds crc [] (fresh_pair crc cfg base gone old) \<and>
    sp_base_offset (fresh_pair crc cfg base gone old) = base \<and>
    lg_next_offset (sp_log (fresh_pair crc cfg base gone old)) = base \<and>
    sp_mmap (fresh_pair crc cfg base gone old) = None"
proof (cases "sp_base_offset old = base \<and> base \<notin> set gone")
  case False
  then have "(sp_base_offset old = base \<and> base \<notin> set gone) = False" by blast
  note new = fresh_pair_def [of crc cfg base gone old, unfolded this Let_def if_False]
  show ?thesis
    using assms index_ok_empty [of base] unfolding new
    by (simp add: open_at_path_with_trust_def pair_holds_def open_index_def INDEX_ENTRY_SIZE_def)
next
  case True
  then have bs: "bs = []" using assms(3) by (cases bs) (auto simp: log_end_def)
  then have ix: "ix_entries (sp_index old) = []" "ix_content (sp_index old) = []"
    using assms(1) by (cases "ix_entries (sp_index old)"; auto simp: pair_holds_def index_ok_def index_points_def)+
  show ?thesis
    using True assms bs ix index_ok_empty [of base]
    by (simp add: fresh_pair_def open_at_path_with_trust_def pair_holds_def Let_def full_scan_empty
        truncate_and_rebuild_def rewrite_entries_def ix_store_def open_index_def INDEX_ENTRY_SIZE_def)
qed

lemma rotate_segment_holds:
  assumes m: "manager_holds crc hs bs m" and r: "rotate_segment crc io now m = (m', ok)"
  shows "lm_high_watermark m' = lm_high_watermark m \<and> lm_config m' = lm_config m \<and>
    (if ok then manager_holds crc (hs @ [bs]) [] m' \<and> sp_base_offset (lm_active m') = lm_high_watermark m
     else manager_holds crc hs bs m' \<and> sp_base_offset (lm_active m') = sp_base_offset (lm_active m))"
proof (cases io)
  case (Rotates marked mapped)
  let ?l = "fst (finalize LogDone marked (sp_log (lm_active m)))"
  let ?old = "(lm_active m)\<lparr>sp_log := ?l\<rparr>"
  have p: "pair_holds crc bs (lm_active m)" and hw: "lm_high_watermark m = log_end (sp_base_offset ?old) bs"
    using m by (simp_all add: manager_holds_def)
  have old: "pair_holds crc bs ?old" "lg_file (sp_log ?old) = log_image bs"
    using finalize_holds [OF p, of LogDone marked] by simp_all
  then have "pair_holds crc bs (?old\<lparr>sp_mmap := (if mapped then Some (lg_file (sp_log ?old)) else None)\<rparr>)"
    by (simp add: pair_holds_def)
  with fresh_pair_holds [OF old hw, of "lm_config m" "lm_unlinked m"] m r Rotates hw show ?thesis
    by (auto simp: rotate_segment_def manager_holds_def Let_def intro!: list_all2_appendI
        simp: list_all2_lengthD)
next
  case (FinalizeFails e marked)
  have p: "pair_holds crc bs (lm_active m)" using m by (simp add: manager_holds_def)
  show ?thesis using finalize_holds [OF p, of e marked] m r FinalizeFails
    by (auto simp: rotate_segment_def manager_holds_def set_active_log_def)
next
  case (IndexSyncFails marked)
  have p: "pair_holds crc bs (lm_active m)" using m by (simp add: manager_holds_def)
  show ?thesis using finalize_holds [OF p, of LogDone marked] m r IndexSyncFails
    by (auto simp: rotate_segment_def manager_holds_def set_active_log_def)
qed


subsection \<open>Appending\<close>

lemma write_at_image: "write_at (length xs) bs (xs @ rest) = xs @ bs @ drop (length bs) rest"
  by (simp add: write_at_def set_len_image)

lemma maybe_rotate_holds:
  assumes m: "manager_holds crc hs bs m"
    and r: "maybe_rotate_before_append crc io now n m = (m', ok)"
  shows "\<exists>hs' bs'. manager_holds crc hs' bs' m' \<and> concat hs' @ bs' = concat hs @ bs \<and>
    lm_high_watermark m' = lm_high_watermark m \<and> lm_config m' = lm_config m \<and>
    (ok \<longrightarrow> bs' = [] \<or> length (log_image bs') + n \<le> cf_max_segment_bytes (lm_config m)) \<and>
    (sp_base_offset (lm_active m') = sp_base_offset (lm_active m) \<or>
     sp_base_offset (lm_active m') = lm_high_watermark m)"
proof (cases "rotate_segment crc io now m = (m', ok)")
  case True
  from rotate_segment_holds [OF m True] show ?thesis
    by (cases ok) (simp_all, rule exI [of _ "hs @ [bs]"], rule exI [of _ "[]"], simp, blast)
next
  case False
  then have "m' = m" "length (log_image bs) + n \<le> cf_max_segment_bytes (lm_config m)"
    using r m by (auto simp: maybe_rotate_before_append_def manager_holds_def pair_holds_def split: if_splits)
  then show ?thesis using m by auto
qed

lemma active_holds:
  assumes "manager_holds crc hs bs m" "pair_holds crc bs' p" "sp_base_offset p = sp_base_offset (lm_active m)"
    and "sp_mmap p = None" "lg_next_offset (sp_log p) = hw" "hw = log_end (sp_base_offset p) bs'"
    and "lm_historical m' = lm_historical m" "lm_active m' = p" "lm_high_watermark m' = hw"
  shows "manager_holds crc hs bs' m'"
  using assms by (simp add: manager_holds_def)

lemma append_torn_holds:
  assumes m: "manager_holds crc hs bs m"
    and a: "append_batch_to_active w b m = (m', None)"
  shows "manager_holds crc hs bs m'"
proof -
  obtain rest where f: "lg_file (sp_log (lm_active m)) = log_image bs @ rest"
    and n: "lg_physical_size (sp_log (lm_active m)) = length (log_image bs)"
    and p: "pair_holds crc bs (lm_active m)"
    using m by (auto simp: manager_holds_def pair_holds_def)
  obtain k where w: "w = Torn k" using a
    by (cases w) (auto simp: append_batch_to_active_def append_bytes_def Let_def)
  let ?l = "(sp_log (lm_active m))\<lparr>lg_file := log_image bs @
      take k (encode_record_batch b) @ drop (min (length (encode_record_batch b)) k) rest\<rparr>"
  have m': "m' = set_active_log ?l m"
    using a w f n by (auto simp: append_batch_to_active_def append_bytes_def Let_def write_at_image)
  have "pair_holds crc bs ((lm_active m)\<lparr>sp_log := ?l\<rparr>)"
    by (rule pair_holds_log [OF p]) simp_all
  then show ?thesis using m by (simp add: m' set_active_log_def manager_holds_def)
qed

lemma index_batch_done:
  assumes "ap_index io = Written" "physical_pos < 2 ^ 32"
  obtains m' where "index_batch io b ts physical_pos m = (m', True)"
    "lm_historical m' = lm_historical m" "lm_config m' = lm_config m"
    "sp_base_offset (lm_active m') = sp_base_offset (lm_active m)"
    "sp_log (lm_active m') = sp_log (lm_active m)" "sp_mmap (lm_active m') = sp_mmap (lm_active m)"
    "(sp_index (lm_active m') = sp_index (lm_active m) \<and> ix_entries (sp_index (lm_active m)) \<noteq> []) \<or>
      append_index Written (rb_base_offset b) physical_pos (sp_index (lm_active m)) =
        (sp_index (lm_active m'), True)"
proof (cases "cf_index_interval_bytes (lm_config m) \<le> lm_bytes_since_last_index m \<or>
    ix_entries (sp_index (lm_active m)) = []")
  case True
  obtain ix where ix: "append_index Written (rb_base_offset b) physical_pos (sp_index (lm_active m)) = (ix, True)"
    using assms(2) by (simp add: append_index_def)
  show ?thesis
    by (rule that [of "m\<lparr>lm_active := (lm_active m)\<lparr>sp_index := ix,
          sp_time_index := fst (append_time (ap_time io) ts (rb_base_offset b) (sp_time_index (lm_active m)))\<rparr>,
        lm_bytes_since_last_index := 0\<rparr>"])
      (use True ix assms(1) in \<open>simp_all add: index_batch_def Let_def\<close>)
next
  case False
  then show ?thesis by (intro that [of m]) (auto simp: index_batch_def Let_def)
qed

lemma append_written_holds:
  assumes m: "manager_holds crc hs bs m" and b: "record_batch_ok crc b" "rb_base_offset b = lm_high_watermark m"
    and room: "lm_high_watermark m + rb_last_offset_delta b + 1 < 2 ^ 64"
      "lm_high_watermark m + rb_last_offset_delta b + 1 < sp_base_offset (lm_active m) + 2 ^ 32"
    and pos: "length (log_image bs) < 2 ^ 32" and io: "ap_index io = Written"
    and a: "append_batch_to_active w b m = (m1, Some physical_pos)"
  obtains m2 where "index_batch io b ts physical_pos m1 = (m2, True)" "lm_config m2 = lm_config m"
    "sp_base_offset (lm_active m2) = sp_base_offset (lm_active m)"
    "\<And>since. manager_holds crc hs (bs @ [b]) (set_active_log ((sp_log (lm_active m2))\<lparr>lg_next_offset :=
        lm_high_watermark m + rb_last_offset_delta b + 1\<rparr>)
      (m2\<lparr>lm_bytes_since_last_index := since, lm_high_watermark := lm_high_watermark m + rb_last_offset_delta b + 1\<rparr>))"
proof -
  let ?hw = "lm_high_watermark m + rb_last_offset_delta b + 1"
  obtain rest where f: "lg_file (sp_log (lm_active m)) = log_image bs @ rest"
    and n: "lg_physical_size (sp_log (lm_active m)) = length (log_image bs)"
    and p: "pair_holds crc bs (lm_active m)" and mm: "sp_mmap (lm_active m) = None"
    and hw: "lm_high_watermark m = log_end (sp_base_offset (lm_active m)) bs"
    using m by (auto simp: manager_holds_def pair_holds_def)
  have "w = Written" using a by (cases w) (auto simp: append_batch_to_active_def append_bytes_def Let_def)
  then have m1: "m1 = set_active_log ((sp_log (lm_active m))\<lparr>
      lg_file := log_image (bs @ [b]) @ drop (encoded_size b) rest,
      lg_physical_size := length (log_image (bs @ [b]))\<rparr>) m" and pp: "physical_pos = length (log_image bs)"
    using a f n by (auto simp: append_batch_to_active_def append_bytes_def Let_def write_at_image
        length_encode_record_batch)
  have act: "lm_historical m1 = lm_historical m" "lm_config m1 = lm_config m"
    "sp_base_offset (lm_active m1) = sp_base_offset (lm_active m)" "sp_mmap (lm_active m1) = None"
    "sp_index (lm_active m1) = sp_index (lm_active m)"
    "lg_physical_size (sp_log (lm_active m1)) = length (log_image (bs @ [b]))"
    "lg_file (sp_log (lm_active m1)) = log_image (bs @ [b]) @ drop (encoded_size b) rest"
    using mm by (simp_all add: m1 set_active_log_def)
  obtain m2 where m2: "index_batch io b ts physical_pos m1 = (m2, True)"
    "lm_historical m2 = lm_historical m1" "lm_config m2 = lm_config m1"
    "sp_base_offset (lm_active m2) = sp_base_offset (lm_active m1)"
    "sp_log (lm_active m2) = sp_log (lm_active m1)" "sp_mmap (lm_active m2) = sp_mmap (lm_active m1)"
    and ix: "(sp_index (lm_active m2) = sp_index (lm_active m1) \<and> ix_entries (sp_index (lm_active m1)) \<noteq> []) \<or>
      append_index Written (rb_base_offset b) physical_pos (sp_index (lm_active m1)) =
        (sp_index (lm_active m2), True)"
    using index_batch_done [OF io, of physical_pos b ts m1] pp pos by metis
  let ?p = "(lm_active m2)\<lparr>sp_log := (sp_log (lm_active m2))\<lparr>lg_next_offset := ?hw\<rparr>\<rparr>"
  have e: "log_end (sp_base_offset (lm_active m)) (bs @ [b]) = ?hw" using hw by simp
  have h: "pair_holds crc (bs @ [b]) ?p"
    by (rule pair_holds_snoc [OF p b(1), where w = Written and rest = "drop (encoded_size b) rest"])
      (use b hw room e m2 ix act pp in simp_all)
  have "manager_holds crc hs (bs @ [b]) (set_active_log ((sp_log (lm_active m2))\<lparr>lg_next_offset := ?hw\<rparr>)
      (m2\<lparr>lm_bytes_since_last_index := since, lm_high_watermark := ?hw\<rparr>))" for since
    by (rule active_holds [OF m h]) (use m2 act e in \<open>simp_all add: set_active_log_def\<close>)
  moreover have "lm_config m2 = lm_config m" "sp_base_offset (lm_active m2) = sp_base_offset (lm_active m)"
    using m2 act by simp_all
  ultimately show ?thesis using that [OF m2(1)] by simp
qed

text \<open>
  What an append needs: the offsets of the batch exist, the segment spans less than 2^32
  offsets, the configured segment size fits the index, and the index can be written.
\<close>

definition append_room :: "append_io \<Rightarrow> RecordBatch \<Rightarrow> SegmentManager \<Rightarrow> bool" where
  "append_room io b m \<longleftrightarrow>
     lm_high_watermark m + rb_last_offset_delta b + 1 < 2 ^ 64 \<and>
     lm_high_watermark m + rb_last_offset_delta b + 1 < sp_base_offset (lm_active m) + 2 ^ 32 \<and>
     cf_max_segment_bytes (lm_config m) \<le> 2 ^ 32 \<and> ap_index io = Written"

lemma store_batch_holds:
  assumes m: "manager_holds crc hs bs m" and b: "record_batch_ok crc b" "rb_base_offset b = lm_high_watermark m"
    and room: "append_room io b m"
    and s: "store_batch crc io b (lm_high_watermark m + rb_last_offset_delta b + 1) m = (m', ok)"
  shows "\<exists>hs' bs'. manager_holds crc hs' bs' m' \<and> lm_config m' = lm_config m \<and>
    concat hs' @ bs' = concat hs @ bs @ (if ok then [b] else []) \<and>
    lm_high_watermark m' = (if ok then lm_high_watermark m + rb_last_offset_delta b + 1 else lm_high_watermark m) \<and>
    sp_base_offset (lm_active m) \<le> sp_base_offset (lm_active m')"
proof -
  obtain m1 rot where r: "maybe_rotate_before_append crc (ap_rotate io) (ap_now io) (encoded_size b) m = (m1, rot)"
    by (cases "maybe_rotate_before_append crc (ap_rotate io) (ap_now io) (encoded_size b) m")
  from maybe_rotate_holds [OF m r] obtain hs1 bs1 where m1: "manager_holds crc hs1 bs1 m1"
    and same: "concat hs1 @ bs1 = concat hs @ bs" "lm_high_watermark m1 = lm_high_watermark m"
      "lm_config m1 = lm_config m"
    and fits: "rot \<longrightarrow> bs1 = [] \<or> length (log_image bs1) + encoded_size b \<le> cf_max_segment_bytes (lm_config m)"
      "sp_base_offset (lm_active m1) = sp_base_offset (lm_active m) \<or>
       sp_base_offset (lm_active m1) = lm_high_watermark m" by blast
  have up: "sp_base_offset (lm_active m) \<le> sp_base_offset (lm_active m1)"
    using fits(2) m log_end_ge [of "sp_base_offset (lm_active m)" bs] by (auto simp: manager_holds_def)
  show ?thesis
  proof (cases rot)
    case False
    then show ?thesis using s r m1 same up by (auto simp: store_batch_def)
  next
    case True
    obtain m2 pos where a: "append_batch_to_active (ap_write io) b m1 = (m2, pos)"
      by (cases "append_batch_to_active (ap_write io) b m1")
    show ?thesis
    proof (cases pos)
      case None
      have h: "manager_holds crc hs1 bs1 m2" using append_torn_holds [OF m1] a None by simp
      have "lm_high_watermark m2 = lm_high_watermark m1" "lm_config m2 = lm_config m1"
        "sp_base_offset (lm_active m2) = sp_base_offset (lm_active m1)"
        using a by (auto simp: append_batch_to_active_def set_active_log_def split: prod.splits)
      then show ?thesis using s r a h True None same up by (auto simp: store_batch_def)
    next
      case (Some k)
      have lim: "lm_high_watermark m1 + rb_last_offset_delta b + 1 < 2 ^ 64"
        "lm_high_watermark m1 + rb_last_offset_delta b + 1 < sp_base_offset (lm_active m1) + 2 ^ 32"
        "length (log_image bs1) < 2 ^ 32" "ap_index io = Written"
        using True fits room same b(1) log_end_ge [of "sp_base_offset (lm_active m)" bs] m
        by (auto simp: append_room_def manager_holds_def record_batch_ok_def encoded_size_def BATCH_HEADER_SIZE_def)
      have base: "rb_base_offset b = lm_high_watermark m1" using b(2) same(2) by simp
      obtain m3 where m3: "index_batch io b (rb_base_timestamp b) k m2 = (m3, True)" "lm_config m3 = lm_config m1"
        "sp_base_offset (lm_active m3) = sp_base_offset (lm_active m1)"
        and h: "manager_holds crc hs1 (bs1 @ [b]) (set_active_log ((sp_log (lm_active m3))\<lparr>lg_next_offset :=
            lm_high_watermark m1 + rb_last_offset_delta b + 1\<rparr>)
          (m3\<lparr>lm_bytes_since_last_index := lm_bytes_since_last_index m3 + encoded_size b,
             lm_high_watermark := lm_high_watermark m1 + rb_last_offset_delta b + 1\<rparr>))"
        using append_written_holds [OF m1 b(1) base lim(1,2,3,4) a [unfolded Some], of "rb_base_timestamp b" thesis]
        by blast
      have "(m', ok) = (set_active_log ((sp_log (lm_active m3))\<lparr>lg_next_offset :=
            lm_high_watermark m1 + rb_last_offset_delta b + 1\<rparr>)
          (m3\<lparr>lm_bytes_since_last_index := lm_bytes_since_last_index m3 + encoded_size b,
             lm_high_watermark := lm_high_watermark m1 + rb_last_offset_delta b + 1\<rparr>), True)"
        using s r a m3(1) True Some same(2) by (simp add: store_batch_def)
      then show ?thesis using h m3(2,3) same up
        by (intro exI [of _ hs1] exI [of _ "bs1 @ [b]"])
          (auto simp: set_active_log_def simp flip: append_assoc)
    qed
  qed
qed


lemma assigned_batch_ok:
  assumes "\<And>x. crc x < 4294967296" "record_batch_ok crc b" "hw < 2 ^ 64" "leader_epoch < 4294967296"
  shows "record_batch_ok crc (assign_base_offset_and_leader_epoch crc hw leader_epoch b)"
  using assms by (simp add: record_batch_ok_def assign_base_offset_and_leader_epoch_def seal_def calculate_crc_def)

lemma assigned_batch_sel [simp]:
  "rb_base_offset (assign_base_offset_and_leader_epoch crc hw le b) = hw"
  "rb_last_offset_delta (assign_base_offset_and_leader_epoch crc hw le b) = rb_last_offset_delta b"
  by (simp_all add: assign_base_offset_and_leader_epoch_def seal_def)

lemma append_batch_refines:
  assumes crc: "\<And>x. crc x < 4294967296" and m: "manager_ok crc m"
    and b: "record_batch_ok crc batch" "leader_epoch < 4294967296" and room: "append_room io batch m"
    and a: "append_batch crc io batch leader_epoch m = (m', r)"
  shows "manager_ok crc m' \<and> lm_config m' = lm_config m \<and>
    sp_base_offset (lm_active m) \<le> sp_base_offset (lm_active m') \<and>
    (case r of
       None \<Rightarrow> log_batches crc m' = log_batches crc m \<and> lm_high_watermark m' = lm_high_watermark m
     | Some b \<Rightarrow>
         b = assign_base_offset_and_leader_epoch crc (lm_high_watermark m) leader_epoch batch \<and>
         log_batches crc m' = log_batches crc m @ [b] \<and>
         lm_high_watermark m' = lm_high_watermark m + rb_last_offset_delta batch + 1)"
proof -
  obtain hs bs where h: "manager_holds crc hs bs m" using m by (auto simp: manager_ok_def)
  let ?b = "assign_base_offset_and_leader_epoch crc (lm_high_watermark m) leader_epoch batch"
  have lim: "lm_high_watermark m + rb_last_offset_delta batch + 1 < 2 ^ 64"
    using room by (simp add: append_room_def)
  then have ok: "record_batch_ok crc ?b" by (intro assigned_batch_ok crc b) simp
  obtain ok' where s: "store_batch crc io ?b (lm_high_watermark m + rb_last_offset_delta ?b + 1) m = (m', ok')"
    and r: "r = (if ok' then Some ?b else None)"
    using a lim by (auto simp: append_batch_def Let_def arith_simps split: prod.splits)
  have "append_room io ?b m" using room by (simp add: append_room_def)
  from store_batch_holds [OF h ok _ this s] r show ?thesis
    by (auto simp: manager_ok_def log_batches_holds [OF h] dest: log_batches_holds split: if_splits)
qed

lemma append_batch_verbatim_refines:
  assumes m: "manager_ok crc m" and b: "record_batch_ok crc b" and room: "append_room io b m"
    and a: "append_batch_verbatim crc io b m = (m', r)"
  shows "manager_ok crc m' \<and> lm_config m' = lm_config m \<and>
    sp_base_offset (lm_active m) \<le> sp_base_offset (lm_active m') \<and>
    (if r = Some Appended
     then rb_base_offset b = lm_high_watermark m \<and> log_batches crc m' = log_batches crc m @ [b] \<and>
       lm_high_watermark m' = lm_high_watermark m + rb_last_offset_delta b + 1
     else log_batches crc m' = log_batches crc m \<and> lm_high_watermark m' = lm_high_watermark m)"
proof (cases "rb_base_offset b = lm_high_watermark m \<and> \<not> batch_last_offset b < lm_high_watermark m")
  case False
  then have "m' = m" "r \<noteq> Some Appended"
    using a by (auto simp: append_batch_verbatim_def Let_def split: if_splits)
  then show ?thesis using m by simp
next
  case True
  obtain hs bs where h: "manager_holds crc hs bs m" using m by (auto simp: manager_ok_def)
  have "add64 (batch_last_offset b) 1 = lm_high_watermark m + rb_last_offset_delta b + 1"
    using True room by (simp add: append_room_def batch_last_offset_def arith_simps)
  then obtain ok where s: "store_batch crc io b (lm_high_watermark m + rb_last_offset_delta b + 1) m = (m', ok)"
    and r: "r = (if ok then Some Appended else None)"
    using a True by (auto simp: append_batch_verbatim_def Let_def split: prod.splits)
  from store_batch_holds [OF h b _ room s] True r show ?thesis
    by (auto simp: manager_ok_def log_batches_holds [OF h] dest: log_batches_holds split: if_splits)
qed

subsection \<open>Truncation\<close>

lemma nearest_by_scan_last:
  "filter (\<lambda>e. ix_base_offset x + relative_offset e \<le> t) (ix_entries x) \<noteq> [] \<Longrightarrow>
   nearest_by_scan t x = Some (last (filter (\<lambda>e. ix_base_offset x + relative_offset e \<le> t) (ix_entries x)))"
  by (auto simp: nearest_by_scan_def split: list.splits)

lemma seek_pos_holds:
  assumes p: "pair_holds crc bs p" and off: "sp_base_offset p \<le> off" "off < sp_base_offset p + 2 ^ 32"
  obtains xs ys where "bs = xs @ ys" "seek_pos off p = length (log_image xs)"
    "\<And>x. x \<in> set xs \<Longrightarrow> batch_last_offset x < off" "log_end (sp_base_offset p) xs \<le> off"
proof (cases "bs = []")
  case True
  then have "ix_entries (sp_index p) = []"
    using p by (cases "ix_entries (sp_index p)") (auto simp: pair_holds_def index_points_def)
  then have "seek_pos off p = 0" by (simp add: seek_pos_def find_nearest_physical_pos_def)
  then show ?thesis using that [of "[]" "[]"] True off by simp
next
  case False
  let ?a = "sp_base_offset p" and ?P = "\<lambda>e. ix_base_offset (sp_index p) + relative_offset e \<le> off"
  have ok: "index_ok ?a (log_end ?a bs) (sp_index p)" and ix: "ix_base_offset (sp_index p) = ?a"
    using p by (simp_all add: pair_holds_def index_ok_def)
  obtain e0 es where es: "ix_entries (sp_index p) = e0 # es" "relative_offset e0 = 0"
    using p False by (auto simp: pair_holds_def)
  define fs where "fs = filter ?P (ix_entries (sp_index p))"
  have "fs \<noteq> []" using es ix off by (simp add: fs_def)
  then have "last fs \<in> set fs" by simp
  then have e: "last fs \<in> set (ix_entries (sp_index p))" "?a + relative_offset (last fs) \<le> off"
    using ix by (auto simp: fs_def)
  then obtain xs ys where xs: "bs = xs @ ys" "physical_position (last fs) = length (log_image xs)"
    "?a + relative_offset (last fs) = log_end ?a xs"
    using p unfolding pair_holds_def list_all_iff index_points_def by metis
  have "seek_pos off p = physical_position (last fs)"
    using index_search [OF ok off] nearest_by_scan_last [of "sp_index p" off] \<open>fs \<noteq> []\<close>
    by (simp add: seek_pos_def fs_def)
  moreover have "batch_last_offset x < off" if "x \<in> set xs" for x
  proof -
    have "chained ?a xs" "log_end ?a bs < 2 ^ 64" using p xs by (auto simp: pair_holds_def)
    moreover have "log_end ?a xs \<le> log_end ?a bs" using xs log_end_ge by simp
    ultimately show ?thesis
      using chained_last_less [of ?a xs x] chained_last_exact [of ?a xs x] that xs e by simp
  qed
  ultimately show ?thesis using that xs e by metis
qed

lemma trunc_scan_image:
  assumes "list_all (record_batch_ok crc) (xs @ ys)" "\<And>x. x \<in> set xs \<Longrightarrow> batch_last_offset x < off"
    and "\<And>y. y \<in> set ys \<Longrightarrow> off \<le> batch_last_offset y"
  shows "trunc_scan crc off phys (log_image (xs @ ys)) =
    (if ys = [] then None else Some (phys + length (log_image xs), rb_base_offset (hd ys)))"
  using assms
proof (induction xs arbitrary: phys)
  case Nil
  show ?case
  proof (cases ys)
    case Nil
    then show ?thesis by (simp add: trunc_scan.simps HEADER_SIZE_def BATCH_HEADER_SIZE_def)
  next
    case (Cons y ys')
    then show ?thesis
      using Nil.prems decode_entry_encode [of crc y "log_image ys'"] length_encode_ge [of y]
      by (subst trunc_scan.simps) (simp add: HEADER_SIZE_def BATCH_HEADER_SIZE_def)
  qed
next
  case (Cons x xs)
  have "\<not> off \<le> batch_last_offset x" using Cons.prems(2) by (simp add: not_le)
  moreover have "trunc_scan crc off (phys + encoded_size x) (log_image (xs @ ys)) =
      (if ys = [] then None else Some (phys + encoded_size x + length (log_image xs), rb_base_offset (hd ys)))"
    using Cons.prems by (intro Cons.IH) auto
  ultimately show ?case
    using Cons.prems(1) decode_entry_encode [of crc x "log_image (xs @ ys)"] length_encode_ge [of x]
      length_encode_record_batch [of x]
    by (subst trunc_scan.simps) (simp add: HEADER_SIZE_def BATCH_HEADER_SIZE_def)
qed

lemma physical_pos_holds:
  assumes p: "pair_holds crc (xs @ ys) p" and off: "sp_base_offset p \<le> off" "off \<le> log_end (sp_base_offset p) (xs @ ys)"
    and xs: "\<And>x. x \<in> set xs \<Longrightarrow> batch_last_offset x < off"
    and ys: "\<And>y. y \<in> set ys \<Longrightarrow> off \<le> batch_last_offset y"
  shows "physical_pos_for_offset crc off p =
    (length (log_image xs), if ys = [] then off else log_end (sp_base_offset p) xs)"
proof -
  have lim: "off < sp_base_offset p + 2 ^ 32" using p off by (simp add: pair_holds_def)
  obtain us vs where us: "xs @ ys = us @ vs" "seek_pos off p = length (log_image us)"
    "\<And>x. x \<in> set us \<Longrightarrow> batch_last_offset x < off"
    using seek_pos_holds [OF p off(1) lim] by metis
  have "length us \<le> length xs"
  proof (rule ccontr)
    assume "\<not> length us \<le> length xs"
    then have n: "length xs < length us" by simp
    then have "us ! length xs = ys ! 0" "ys \<noteq> []"
      using us(1) by (metis nth_append nth_append_length_plus add_0_right, cases ys) (use n us(1) in auto)
    then show False using us(3) [OF nth_mem [OF n]] ys [of "ys ! 0"] by simp
  qed
  then obtain ws where ws: "xs = us @ ws" "vs = ws @ ys"
    using us(1) by (auto simp: append_eq_append_conv2)
  have ok: "list_all (record_batch_ok crc) (ws @ ys)" using p ws by (simp add: pair_holds_def)
  have raw: "read_at (seek_pos off p) (lg_physical_size (sp_log p)) (sp_log p) = log_image (ws @ ys)"
    using read_at_image [of crc us "ws @ ys" p "lg_physical_size (sp_log p)"] p ws us
    by (simp add: pair_holds_def)
  have base: "ys \<noteq> [] \<Longrightarrow> rb_base_offset (hd ys) = log_end (sp_base_offset p) xs"
    using p by (cases ys) (auto simp: pair_holds_def)
  show ?thesis
    using trunc_scan_image [OF ok, of off "seek_pos off p"] xs ys ws us(2) raw base p
    by (auto simp: physical_pos_for_offset_def Let_def pair_holds_def)
qed


lemma index_points_prefix:
  assumes "index_points base (xs @ ys) e" "base + relative_offset e < log_end base xs"
  shows "index_points base xs e"
proof -
  obtain us vs where us: "xs @ ys = us @ vs" "physical_position e = length (log_image us)"
    "base + relative_offset e = log_end base us"
    using assms(1) by (auto simp: index_points_def)
  then consider zs where "xs = us @ zs" | zs where "us = xs @ zs" by (auto simp: append_eq_append_conv2)
  then show ?thesis
  proof cases
    case 1
    then show ?thesis using us assms(2) unfolding index_points_def
      by (intro exI [of _ us] exI [of _ zs]) auto
  next
    case 2
    then show ?thesis using us assms(2) log_end_ge [of "log_end base xs" zs] by simp
  qed
qed

lemma truncate_segment_pair_holds:
  assumes p: "pair_holds crc (xs @ ys) p" and off: "sp_base_offset p \<le> off" "off \<le> log_end (sp_base_offset p) (xs @ ys)"
    and xs: "\<And>x. x \<in> set xs \<Longrightarrow> batch_last_offset x < off"
    and ys: "\<And>y. y \<in> set ys \<Longrightarrow> off \<le> batch_last_offset y"
    and full: "ys = [] \<Longrightarrow> off = log_end (sp_base_offset p) xs"
    and t: "truncate_segment_pair crc io off p = (p', Some eff)"
  shows "pair_holds crc xs p' \<and> eff = log_end (sp_base_offset p) xs \<and> sp_mmap p' = None \<and>
    sp_base_offset p' = sp_base_offset p"
proof -
  let ?a = "sp_base_offset p"
  have pos: "physical_pos_for_offset crc off p = (length (log_image xs), log_end ?a xs)"
    using physical_pos_holds [OF p off xs ys] full by auto
  obtain l ix where l: "truncate_to (tr_log io) (length (log_image xs)) (sp_log p) = (l, True)"
    and ix: "truncate_index_after (tr_index io) (log_end ?a xs) (sp_index p) = (ix, True)"
    and p': "sp_log p' = l" "sp_index p' = ix" "sp_mmap p' = None" "sp_base_offset p' = ?a"
    and eff: "eff = log_end ?a xs"
    using t by (auto simp: truncate_segment_pair_def pos Let_def split: prod.splits if_splits)
  obtain rest where f: "lg_file (sp_log p) = log_image xs @ rest" using p by (auto simp: pair_holds_def)
  have l': "lg_physical_size l = length (log_image xs)" "lg_file l = log_image xs"
    using l f by (auto simp: truncate_to_def set_len_image split: log_io.splits)
  have ok: "index_ok ?a (log_end ?a (xs @ ys)) (sp_index p)"
    and pts: "list_all (index_points ?a (xs @ ys)) (ix_entries (sp_index p))"
    and hd0: "xs @ ys \<noteq> [] \<longrightarrow> (\<exists>e es. ix_entries (sp_index p) = e # es \<and> relative_offset e = 0)"
    and lim: "log_end ?a (xs @ ys) < ?a + 2 ^ 32" "log_end ?a (xs @ ys) < 2 ^ 64"
    using p by (simp_all add: pair_holds_def)
  have le: "?a \<le> log_end ?a xs" "log_end ?a xs \<le> log_end ?a (xs @ ys)" by (simp_all add: log_end_ge)
  have rel: "relative (sp_index p) (log_end ?a xs) = log_end ?a xs - ?a"
    using ok le lim by (simp add: relative_def index_ok_def)
  have e: "ix_content ix = index_file.image (ix_entries ix)"
    "ix_entries ix = filter (\<lambda>e. relative_offset e < log_end ?a xs - ?a) (ix_entries (sp_index p))"
    "ix_base_offset ix = ?a"
    using truncate_and_rebuild_done [OF ix [unfolded truncate_index_after_def rel]] ok
    by (simp_all add: index_ok_def)
  have below: "\<forall>e \<in> set (ix_entries ix). ?a + relative_offset e < log_end ?a xs"
    using le(1) by (simp add: e(2)) linarith
  have "list_all index_entry_ok (ix_entries ix)"
    "sorted_wrt (\<lambda>a b. relative_offset a < relative_offset b) (ix_entries ix)"
    using ok by (simp_all add: e(2) index_ok_def list_all_iff sorted_wrt_filter)
  then have "index_ok ?a (log_end ?a xs) ix"
    using e(1,3) below le lim by (simp add: index_ok_def list_all_iff)
  moreover have "list_all (index_points ?a xs) (ix_entries ix)"
    using pts below by (simp add: list_all_iff e(2)) (blast intro: index_points_prefix)
  moreover have "xs \<noteq> [] \<longrightarrow> (\<exists>e es. ix_entries ix = e # es \<and> relative_offset e = 0)"
    using hd0 by (cases xs) (auto simp: e(2) log_end_def)
  ultimately show ?thesis using p l' p' eff le lim by (simp add: pair_holds_def)
qed

subsection \<open>The segments as one chain\<close>

definition chain_start :: "(offset \<times> RecordBatch list) list \<Rightarrow> offset \<Rightarrow> offset" where
  "chain_start segs e = (case segs of [] \<Rightarrow> e | (a, _) # _ \<Rightarrow> a)"

lemma chain_start_simps [simp]: "chain_start [] e = e" "chain_start ((a, bs) # segs) e = a"
  by (simp_all add: chain_start_def)

lemma linked_Cons: "linked ((a, bs) # segs) e \<longleftrightarrow> log_end a bs = chain_start segs e \<and> linked segs e"
  by (cases segs) auto

lemma linked_append: "linked (xs @ ys) e \<longleftrightarrow> linked xs (chain_start ys e) \<and> linked ys e"
proof (induction xs)
  case (Cons x xs)
  then show ?case by (cases x; cases xs) (auto simp: linked_Cons)
qed simp

lemma linked_chain:
  "\<lbrakk>linked segs e; \<forall>(a, bs) \<in> set segs. chained a bs\<rbrakk> \<Longrightarrow>
    chained (chain_start segs e) (concat (map snd segs)) \<and>
    log_end (chain_start segs e) (concat (map snd segs)) = e"
proof (induction segs)
  case (Cons s segs)
  obtain a bs where s: "s = (a, bs)" by (cases s)
  with Cons show ?case by (auto simp: linked_Cons)
qed simp

lemma linked_start_le: "linked segs e \<Longrightarrow> chain_start segs e \<le> e \<and> (\<forall>s\<in>set segs. chain_start segs e \<le> fst s \<and> fst s \<le> e)"
proof (induction segs)
  case (Cons s segs)
  obtain a bs where s: "s = (a, bs)" by (cases s)
  have l: "log_end a bs = chain_start segs e" "linked segs e" using Cons.prems s by (simp_all add: linked_Cons)
  have "a \<le> chain_start segs e" using log_end_ge [of a bs] l by simp
  then show ?case using Cons.IH [OF l(2)] s by fastforce
qed simp

lemma linked_split:
  assumes "linked segs e"
  obtains xs ys where "segs = xs @ ys" "\<And>s. s \<in> set xs \<Longrightarrow> fst s < off" "\<And>s. s \<in> set ys \<Longrightarrow> off \<le> fst s"
proof -
  define xs ys where "xs = takeWhile (\<lambda>s. fst s < off) segs" and "ys = dropWhile (\<lambda>s. fst s < off) segs"
  then have segs: "segs = xs @ ys" by simp
  have "linked ys e" using assms linked_append [of xs ys e] segs by simp
  then have le: "\<forall>s\<in>set ys. chain_start ys e \<le> fst s" using linked_start_le by blast
  have "off \<le> fst s" if s: "s \<in> set ys" for s
  proof (cases ys)
    case (Cons z zs)
    then have "off \<le> fst z" using hd_dropWhile [of "\<lambda>s. fst s < off" segs] by (simp add: ys_def)
    moreover have "fst z = chain_start ys e" using Cons by (cases z) simp
    ultimately show ?thesis using le s by fastforce
  qed (use s in simp)
  then show ?thesis using that [OF segs] by (auto simp: xs_def dest: set_takeWhileD)
qed


definition log_start :: "SegmentManager \<Rightarrow> offset" where
  "log_start m = (case lm_historical m of [] \<Rightarrow> sp_base_offset (lm_active m) | p # _ \<Rightarrow> sp_base_offset p)"

abbreviation segs_of :: "RecordBatch list list \<Rightarrow> SegmentPair list \<Rightarrow> (offset \<times> RecordBatch list) list" where
  "segs_of hs ps \<equiv> zip (map sp_base_offset ps) hs"

lemma segs_chained:
  assumes "list_all2 (pair_holds crc) hs ps"
  shows "\<forall>(a, bs) \<in> set (segs_of hs ps). chained a bs" and "map snd (segs_of hs ps) = hs"
    and "list_all (list_all (record_batch_ok crc)) hs" and "length hs = length ps"
  using assms by (induction hs ps rule: list_all2_induct) (auto simp: pair_holds_def)

lemma manager_chained:
  assumes m: "manager_holds crc hs bs m"
  shows "chained (log_start m) (concat hs @ bs)" and "log_end (log_start m) (concat hs @ bs) = lm_high_watermark m"
    and "list_all (record_batch_ok crc) (concat hs @ bs)" and "lm_high_watermark m < 2 ^ 64"
proof -
  have h: "list_all2 (pair_holds crc) hs (lm_historical m)"
    and l: "linked (segs_of hs (lm_historical m)) (sp_base_offset (lm_active m))"
    and p: "pair_holds crc bs (lm_active m)" and hw: "lm_high_watermark m = log_end (sp_base_offset (lm_active m)) bs"
    using m by (simp_all add: manager_holds_def)
  have st: "chain_start (segs_of hs (lm_historical m)) (sp_base_offset (lm_active m)) = log_start m"
    using segs_chained(4) [OF h] by (cases "lm_historical m"; cases hs) (simp_all add: log_start_def)
  show "chained (log_start m) (concat hs @ bs)" "log_end (log_start m) (concat hs @ bs) = lm_high_watermark m"
    using linked_chain [OF l segs_chained(1) [OF h]] segs_chained(2) [OF h] st p hw
    by (simp_all add: pair_holds_def)
  show "list_all (record_batch_ok crc) (concat hs @ bs)"
    using segs_chained(3) [OF h] p by (auto simp: pair_holds_def list_all_iff)
  show "lm_high_watermark m < 2 ^ 64" using p hw by (simp add: pair_holds_def)
qed

lemma chained_filter_below:
  assumes "chained a bs" "log_end a bs < 2 ^ 64" "log_end a bs \<le> off"
  shows "filter (\<lambda>b. batch_last_offset b < off) bs = bs"
  using assms chained_last_less [OF assms(1)] chained_last_exact [OF assms(1,2)]
  by (intro filter_True) fastforce

lemma chained_filter_above:
  assumes "chained a bs" "log_end a bs < 2 ^ 64" "off \<le> a"
  shows "filter (\<lambda>b. batch_last_offset b < off) bs = []"
  using assms chained_base_ge [OF assms(1)] chained_last_exact [OF assms(1,2)]
  by (intro filter_False) fastforce

lemma segment_cut:
  assumes p: "pair_holds crc bs p" and off: "sp_base_offset p \<le> off" "off \<le> log_end (sp_base_offset p) bs"
    and t: "truncate_segment_pair crc io off p = (p', Some eff)"
  defines "xs \<equiv> filter (\<lambda>b. batch_last_offset b < off) bs"
  shows "pair_holds crc xs p' \<and> eff = log_end (sp_base_offset p) xs \<and> sp_mmap p' = None \<and>
    sp_base_offset p' = sp_base_offset p"
proof (cases "off = log_end (sp_base_offset p) bs")
  case True
  have c: "chained (sp_base_offset p) bs" "log_end (sp_base_offset p) bs < 2 ^ 64"
    using p by (simp_all add: pair_holds_def)
  have xs: "xs = bs" unfolding xs_def using chained_filter_below [OF c] True by simp
  have "batch_last_offset x < off" if "x \<in> set bs" for x
    using that xs unfolding xs_def by (metis (no_types, lifting) filter_id_conv)
  then show ?thesis
    using truncate_segment_pair_holds [of crc bs "[]" p off io p' eff] p off t xs True by simp
next
  case False
  have c: "chained (sp_base_offset p) bs" "log_end (sp_base_offset p) bs < 2 ^ 64"
    using p by (simp_all add: pair_holds_def)
  obtain us b ys where s: "bs = us @ b # ys" "log_end (sp_base_offset p) us \<le> off" "off \<le> batch_last_offset b"
    "\<And>x. x \<in> set us \<Longrightarrow> batch_last_offset x < off"
    using chained_split [OF c off(1)] False off(2) by (metis le_neq_implies_less)
  have above: "off \<le> batch_last_offset y" if "y \<in> set ys" for y
  proof -
    let ?c = "log_end (sp_base_offset p) us + rb_last_offset_delta b + 1"
    have "chained ?c ys" "log_end ?c ys < 2 ^ 64" using c s(1) by simp_all
    then have "?c \<le> batch_last_offset y"
      using chained_base_ge [of ?c ys y] chained_last_exact [of ?c ys y] that by simp
    moreover have "batch_last_offset b = log_end (sp_base_offset p) us + rb_last_offset_delta b"
      using chained_last_exact [OF c, of b] c s(1) by simp
    ultimately show ?thesis using s(3) by simp
  qed
  have "filter (\<lambda>b. batch_last_offset b < off) ys = []"
    using above by (intro filter_False) fastforce
  moreover have "filter (\<lambda>b. batch_last_offset b < off) us = us" using s(4) by (intro filter_True) simp
  ultimately have xs: "xs = us" using s(3) by (simp add: xs_def s(1))
  show ?thesis unfolding xs
    by (rule truncate_segment_pair_holds [OF p [unfolded s(1)] off(1) off(2) [unfolded s(1)] s(4) _ _ t])
      (use s(3) above in auto)
qed

text \<open>
  Truncation keeps exactly the batches that end below the offset, provided the log has a
  segment that starts below it or the offset lies in the active segment.
\<close>

lemma concat_filter_above:
  assumes "list_all2 (pair_holds crc) hs ps" "\<forall>p \<in> set ps. off \<le> sp_base_offset p"
  shows "filter (\<lambda>b. batch_last_offset b < off) (concat hs) = []"
  using assms
proof (induction hs ps rule: list_all2_induct)
  case (Cons h hs p ps)
  then show ?case using chained_filter_above [of "sp_base_offset p" h off] by (simp add: pair_holds_def)
qed simp

lemma history_split:
  assumes h: "list_all2 (pair_holds crc) hs ps" and l: "linked (segs_of hs ps) e"
  obtains ps1 ps2 hs1 hs2 where "ps = ps1 @ ps2" "hs = hs1 @ hs2"
    "list_all2 (pair_holds crc) hs1 ps1" "list_all2 (pair_holds crc) hs2 ps2"
    "\<And>p. p \<in> set ps1 \<Longrightarrow> sp_base_offset p < off" "\<And>p. p \<in> set ps2 \<Longrightarrow> off \<le> sp_base_offset p"
    "linked (segs_of hs1 ps1) (chain_start (segs_of hs2 ps2) e)" "linked (segs_of hs2 ps2) e"
proof -
  obtain s1 s2 where s: "segs_of hs ps = s1 @ s2" "\<And>s. s \<in> set s1 \<Longrightarrow> fst s < off"
    "\<And>s. s \<in> set s2 \<Longrightarrow> off \<le> fst s"
    using linked_split [OF l, where off = off] by metis
  define n where "n = length s1"
  have z: "s1 = segs_of (take n hs) (take n ps)" "s2 = segs_of (drop n hs) (drop n ps)"
    using arg_cong [OF s(1), of "take n"] arg_cong [OF s(1), of "drop n"]
    by (simp_all add: n_def take_zip drop_zip take_map drop_map)
  have len: "length hs = length ps" using h by (rule list_all2_lengthD)
  show ?thesis
  proof (rule that [of "take n ps" "drop n ps" "take n hs" "drop n hs"])
    have m: "map fst s1 = map sp_base_offset (take n ps)" "map fst s2 = map sp_base_offset (drop n ps)"
      using len by (simp_all add: z)
    show "sp_base_offset p < off" if "p \<in> set (take n ps)" for p
      using that s(2) m(1) by (metis (no_types, opaque_lifting) imageE imageI list.set_map)
    show "off \<le> sp_base_offset p" if "p \<in> set (drop n ps)" for p
      using that s(3) m(2) by (metis (no_types, opaque_lifting) imageE imageI list.set_map)
    show "linked (segs_of (take n hs) (take n ps)) (chain_start (segs_of (drop n hs) (drop n ps)) e)"
      "linked (segs_of (drop n hs) (drop n ps)) e"
      using l s(1) z linked_append by metis+
  qed (use h in \<open>simp_all add: list_all2_takeI list_all2_dropI\<close>)
qed

lemma log_start_chain:
  assumes "manager_holds crc hs bs m"
  shows "log_start m = chain_start (segs_of hs (lm_historical m)) (sp_base_offset (lm_active m))"
  using assms by (cases "lm_historical m"; cases hs) (auto simp: manager_holds_def log_start_def)

lemma end_at_holds:
  assumes "list_all2 (pair_holds crc) hs ps" "linked (segs_of hs ps) (sp_base_offset p)"
    and "pair_holds crc bs p" "sp_mmap p = None" "eff = log_end (sp_base_offset p) bs"
    and "lm_historical m = ps" "lm_active m = p"
  shows "manager_holds crc hs bs (end_at eff m)"
  using assms by (auto simp: manager_holds_def end_at_def set_active_log_def pair_holds_def)

lemma truncate_active_refines:
  assumes m: "manager_holds crc hs bs m" and off: "sp_base_offset (lm_active m) \<le> off" "off < lm_high_watermark m"
    and t: "truncate_after crc io off m = (m', True)"
  obtains hs' where "manager_holds crc hs' (filter (\<lambda>b. batch_last_offset b < off) bs) m'"
    "concat hs' = filter (\<lambda>b. batch_last_offset b < off) (concat hs)" "log_start m' = log_start m"
proof -
  let ?act = "sp_base_offset (lm_active m)"
  have h: "list_all2 (pair_holds crc) hs (lm_historical m)" "linked (segs_of hs (lm_historical m)) ?act"
    and p: "pair_holds crc bs (lm_active m)" "lm_high_watermark m = log_end ?act bs"
    using m by (simp_all add: manager_holds_def)
  obtain ps1 ps2 hs1 hs2 where s: "lm_historical m = ps1 @ ps2" "hs = hs1 @ hs2"
    "list_all2 (pair_holds crc) hs1 ps1" "list_all2 (pair_holds crc) hs2 ps2"
    "\<And>p. p \<in> set ps1 \<Longrightarrow> sp_base_offset p < off" "\<And>p. p \<in> set ps2 \<Longrightarrow> off \<le> sp_base_offset p"
    "linked (segs_of hs1 ps1) (chain_start (segs_of hs2 ps2) ?act)" "linked (segs_of hs2 ps2) ?act"
    using history_split [OF h, where off = off] by metis
  have e1: "chain_start (segs_of hs2 ps2) ?act = ?act"
    using s(6) [of "hd ps2"] linked_start_le [OF s(8)] off(1) list_all2_lengthD [OF s(4)]
    by (cases ps2; cases hs2) auto
  have kept: "filter (\<lambda>p. sp_base_offset p < off) (lm_historical m) = ps1"
    using s(1,5,6) by (auto simp: filter_id_conv filter_empty_conv not_less)
  obtain p' eff m1 where c: "truncate_segment_pair crc io off (lm_active m) = (p', Some eff)"
    and m': "m' = end_at eff m1" "lm_historical m1 = ps1" "lm_active m1 = p'"
    using t off kept by (auto simp: truncate_after_def Let_def split: prod.splits option.splits)
  note cut = segment_cut [OF p(1) off(1) less_imp_le [OF off(2) [unfolded p(2)]] c]
  have "manager_holds crc hs1 (filter (\<lambda>b. batch_last_offset b < off) bs) m'"
    unfolding m'(1) by (rule end_at_holds [OF s(3)]) (use cut s(7) e1 m' in simp_all)
  moreover have "log_end (chain_start (segs_of hs1 ps1) ?act) (concat hs1) = ?act"
    "chained (chain_start (segs_of hs1 ps1) ?act) (concat hs1)"
    using linked_chain [OF s(7) segs_chained(1) [OF s(3)]] segs_chained(2) [OF s(3)] e1 by simp_all
  then have "filter (\<lambda>b. batch_last_offset b < off) (concat hs1) = concat hs1"
    using chained_filter_below [of "chain_start (segs_of hs1 ps1) ?act" "concat hs1" off] off(1) p
      log_end_ge [of ?act bs] by (simp add: pair_holds_def)
  then have "concat hs1 = filter (\<lambda>b. batch_last_offset b < off) (concat hs)"
    using concat_filter_above [OF s(4)] s(2,6) by simp
  moreover have "log_start m' = log_start m"
    using s(1) e1 cut list_all2_lengthD [OF s(4)]
    by (cases ps1; cases ps2; cases hs2) (auto simp: m' log_start_def end_at_def set_active_log_def)
  ultimately show ?thesis using that by blast
qed

lemma truncate_history_refines:
  assumes m: "manager_holds crc hs bs m" and off: "off < sp_base_offset (lm_active m)" "log_start m < off"
    and t: "truncate_after crc io off m = (m', True)"
  obtains hs' bs' where "manager_holds crc hs' bs' m'"
    "concat hs' @ bs' = filter (\<lambda>b. batch_last_offset b < off) (concat hs @ bs)" "log_start m' = log_start m"
proof -
  let ?act = "sp_base_offset (lm_active m)" and ?P = "\<lambda>b. batch_last_offset b < off"
  have h: "list_all2 (pair_holds crc) hs (lm_historical m)" "linked (segs_of hs (lm_historical m)) ?act"
    and p: "pair_holds crc bs (lm_active m)" "lm_high_watermark m = log_end ?act bs"
    using m by (simp_all add: manager_holds_def)
  obtain ps1 ps2 hs1 hs2 where s: "lm_historical m = ps1 @ ps2" "hs = hs1 @ hs2"
    "list_all2 (pair_holds crc) hs1 ps1" "list_all2 (pair_holds crc) hs2 ps2"
    "\<And>p. p \<in> set ps1 \<Longrightarrow> sp_base_offset p < off" "\<And>p. p \<in> set ps2 \<Longrightarrow> off \<le> sp_base_offset p"
    "linked (segs_of hs1 ps1) (chain_start (segs_of hs2 ps2) ?act)"
    using history_split [OF h, where off = off] by metis
  have e1: "off \<le> chain_start (segs_of hs2 ps2) ?act"
    using s(6) [of "hd ps2"] off(1) list_all2_lengthD [OF s(4)] by (cases ps2; cases hs2) auto
  have kept: "filter (\<lambda>p. sp_base_offset p < off) (lm_historical m) = ps1"
    using s(1,5,6) by (auto simp: filter_id_conv filter_empty_conv not_less)
  have "ps1 \<noteq> []" using off s(1) s(6) [of "hd ps2"] by (cases ps2) (auto simp: log_start_def)
  then obtain qs q gs g where q: "ps1 = qs @ [q]" "hs1 = gs @ [g]"
    using list_all2_lengthD [OF s(3)] by (cases ps1 rule: rev_cases; cases hs1 rule: rev_cases) auto
  have gq: "list_all2 (pair_holds crc) gs qs" "pair_holds crc g q"
    using s(3) q list_all2_lengthD [OF s(3)] by (simp_all add: list_all2_append)
  have lk: "linked (segs_of gs qs) (sp_base_offset q)" "log_end (sp_base_offset q) g = chain_start (segs_of hs2 ps2) ?act"
    using s(7) q list_all2_lengthD [OF gq(1)] by simp_all
  obtain q' eff m1 where c: "truncate_segment_pair crc io off q = (q', Some eff)"
    and m': "m' = end_at eff m1" "lm_historical m1 = qs" "lm_active m1 = q'"
    using t off kept q p(2) log_end_ge [of ?act bs]
    by (auto simp: truncate_after_def Let_def split: prod.splits option.splits if_splits)
  have base: "sp_base_offset q \<le> off" using s(5) q by (simp add: less_imp_le)
  note cut = segment_cut [OF gq(2) base e1 [folded lk(2)] c]
  have "manager_holds crc gs (filter ?P g) m'"
    unfolding m'(1) by (rule end_at_holds [OF gq(1)]) (use cut lk m' in simp_all)
  moreover have "filter ?P (concat gs) = concat gs"
  proof (rule chained_filter_below)
    show "chained (chain_start (segs_of gs qs) (sp_base_offset q)) (concat gs)"
      "log_end (chain_start (segs_of gs qs) (sp_base_offset q)) (concat gs) < 2 ^ 64"
      "log_end (chain_start (segs_of gs qs) (sp_base_offset q)) (concat gs) \<le> off"
      using linked_chain [OF lk(1) segs_chained(1) [OF gq(1)]] segs_chained(2) [OF gq(1)] base gq(2)
        log_end_ge [of "sp_base_offset q" g] by (simp_all add: pair_holds_def)
  qed
  moreover have "filter ?P bs = []"
    using chained_filter_above [of ?act bs off] p off by (simp add: pair_holds_def)
  moreover have "filter ?P (concat hs2) = []" using concat_filter_above [OF s(4)] s(6) by blast
  ultimately have "manager_holds crc gs (filter ?P g) m'"
    "concat gs @ filter ?P g = filter ?P (concat hs @ bs)" using s(2) q by simp_all
  moreover have "log_start m' = log_start m"
    using s(1) q cut by (cases qs) (auto simp: m' log_start_def end_at_def set_active_log_def)
  ultimately show ?thesis using that by blast
qed

lemma truncate_after_refines:
  assumes m: "manager_ok crc m" and cut: "sp_base_offset (lm_active m) \<le> off \<or> log_start m < off"
    and t: "truncate_after crc io off m = (m', True)"
  shows "manager_ok crc m' \<and> log_start m' = log_start m \<and>
    log_batches crc m' = filter (\<lambda>b. batch_last_offset b < off) (log_batches crc m)"
proof -
  obtain hs bs where h: "manager_holds crc hs bs m" using m by (auto simp: manager_ok_def)
  note log = log_batches_holds [OF h]
  consider "lm_high_watermark m \<le> off" | "sp_base_offset (lm_active m) \<le> off" "off < lm_high_watermark m"
    | "off < sp_base_offset (lm_active m)" "log_start m < off" using cut by linarith
  then show ?thesis
  proof cases
    case 1
    have "filter (\<lambda>b. batch_last_offset b < off) (concat hs @ bs) = concat hs @ bs"
      by (rule chained_filter_below) (use manager_chained [OF h] 1 in auto)
    then show ?thesis using t m 1 log by (simp add: truncate_after_def)
  next
    case 2
    obtain hs' where "manager_holds crc hs' (filter (\<lambda>b. batch_last_offset b < off) bs) m'"
      "concat hs' = filter (\<lambda>b. batch_last_offset b < off) (concat hs)" "log_start m' = log_start m"
      by (rule truncate_active_refines [OF h 2 t])
    then show ?thesis using log log_batches_holds by (auto simp: manager_ok_def)
  next
    case 3
    obtain hs' bs' where "manager_holds crc hs' bs' m'"
      "concat hs' @ bs' = filter (\<lambda>b. batch_last_offset b < off) (concat hs @ bs)" "log_start m' = log_start m"
      by (rule truncate_history_refines [OF h 3 t])
    then show ?thesis using log log_batches_holds by (auto simp: manager_ok_def)
  qed
qed

text \<open>A truncation whose very cut of the active file is refused leaves the log as it was.\<close>

lemma truncate_refused_ok:
  assumes m: "manager_ok crc m" and off: "sp_base_offset (lm_active m) \<le> off" and io: "tr_log io = SetLenError"
    and t: "truncate_after crc io off m = (m', False)"
  shows "manager_ok crc m' \<and> lm_high_watermark m' = lm_high_watermark m"
proof -
  let ?act = "sp_base_offset (lm_active m)"
  obtain hs bs where h: "manager_holds crc hs bs m" using m by (auto simp: manager_ok_def)
  then have l: "list_all2 (pair_holds crc) hs (lm_historical m)" "linked (segs_of hs (lm_historical m)) ?act"
    by (simp_all add: manager_holds_def)
  obtain ps1 ps2 hs1 hs2 where s: "lm_historical m = ps1 @ ps2"
    "list_all2 (pair_holds crc) hs1 ps1" "list_all2 (pair_holds crc) hs2 ps2"
    "\<And>p. p \<in> set ps1 \<Longrightarrow> sp_base_offset p < off" "\<And>p. p \<in> set ps2 \<Longrightarrow> off \<le> sp_base_offset p"
    "linked (segs_of hs1 ps1) (chain_start (segs_of hs2 ps2) ?act)" "linked (segs_of hs2 ps2) ?act"
    using history_split [OF l, where off = off] by metis
  have e1: "chain_start (segs_of hs2 ps2) ?act = ?act"
    using s(5) [of "hd ps2"] linked_start_le [OF s(7)] off list_all2_lengthD [OF s(3)]
    by (cases ps2; cases hs2) auto
  have kept: "filter (\<lambda>p. sp_base_offset p < off) (lm_historical m) = ps1"
    using s(1,4,5) by (auto simp: filter_id_conv filter_empty_conv not_less)
  have "truncate_segment_pair crc io off (lm_active m) = (lm_active m, None)"
    using io by (simp add: truncate_segment_pair_def truncate_to_def case_prod_unfold)
  then have m': "lm_historical m' = ps1" "lm_active m' = lm_active m" "lm_high_watermark m' = lm_high_watermark m"
    using t off kept by (auto simp: truncate_after_def Let_def split: if_splits)
  then have "manager_holds crc hs1 bs m'" using h s(2,6) e1 by (simp add: manager_holds_def)
  then show ?thesis using m'(3) by (auto simp: manager_ok_def)
qed

end
