(* ===== verification/Log_Fetch.thy ===== *)
theory Log_Fetch
  imports Log_Refinement
begin

text \<open>
  What a fetch serves. The scan over entry headers, through its window, stops where the
  reference on the list of batches stops, so a fetch returns whole batches of the log: in
  order, none of them before the offset asked for, none at or beyond the bound, and at least
  one when there is one.
\<close>

section \<open>Framing\<close>

lemma frame_entry_encode:
  assumes "record_batch_ok crc b" "rb_base_offset b + rb_last_offset_delta b < 2 ^ 64"
  shows "frame_entry (take BATCH_FRAMING_PREFIX_SIZE (encode_record_batch b @ rest)) =
    Some (encoded_size b, batch_last_offset b)"
proof -
  let ?n = "BATCH_LENGTH_COVERED_FIXED + length (rb_record_data b)"
  have f: "?n < 256 ^ 4" "rb_base_offset b < 256 ^ 8" "rb_last_offset_delta b < 256 ^ 4"
    using assms(1) by (simp_all add: record_batch_ok_def batch_sizes)
  obtain tl where e: "encode_record_batch b @ rest = BATCH_MAGIC_BYTE # be_bytes 4 ?n @ be_bytes 4 (rb_crc b)
      @ be_bytes 8 (rb_base_offset b) @ be_bytes 4 (rb_last_offset_delta b) @ tl"
    using assms(1) by (simp add: encode_record_batch_def record_batch_ok_def)
  have t: "take 21 (encode_record_batch b @ rest) = BATCH_MAGIC_BYTE # be_bytes 4 ?n @ be_bytes 4 (rb_crc b)
      @ be_bytes 8 (rb_base_offset b) @ be_bytes 4 (rb_last_offset_delta b)"
    unfolding e by (simp add: take_Cons' del: be_bytes.simps)
  show ?thesis
    unfolding BATCH_FRAMING_PREFIX_SIZE_def t
    using f assms(2)
    by (simp add: frame_entry_def BATCH_FRAMING_PREFIX_SIZE_def drop_Cons' be_val_be_bytes_exact encoded_size_def
        batch_sizes Let_def saturating_add64_def batch_last_offset_def arith_simps del: be_bytes.simps)
qed

section \<open>The window\<close>

definition window_ok :: "bytes \<Rightarrow> nat \<Rightarrow> plan_state \<Rightarrow> bool" where
  "window_ok f base_pos st \<longleftrightarrow>
     (\<exists>n. pl_window st = take n (drop (base_pos + pl_window_start st) f))"

lemma window_ok_update [simp]:
  "window_ok f bp (st\<lparr>pl_cursor := c\<rparr>) = window_ok f bp st"
  "window_ok f bp (st\<lparr>pl_budget := b\<rparr>) = window_ok f bp st"
  "window_ok f bp (st\<lparr>pl_first_included := i\<rparr>) = window_ok f bp st"
  "window_ok f bp (st\<lparr>pl_end := e\<rparr>) = window_ok f bp st"
  by (simp_all add: window_ok_def)

lemma refill_window_prefix:
  assumes w: "window_ok f base_pos st" and f: "take (lg_physical_size l) (lg_file l) = f" "length f = lg_physical_size l"
    and room: "pl_cursor st + 21 \<le> available" "base_pos + available = length f"
  defines "st' \<equiv> refill_window l base_pos available st"
  shows "window_ok f base_pos st'" and "21 \<le> length (pl_window st')"
    and "take 21 (drop (pl_cursor st' - pl_window_start st') (pl_window st')) = take 21 (drop (base_pos + pl_cursor st) f)"
proof -
  let ?n = "min FRAMING_SCAN_READ_AHEAD (available - pl_cursor st)"
  have read: "read_at (base_pos + pl_cursor st) ?n l = take ?n (drop (base_pos + pl_cursor st) f)"
  proof -
    have "drop (base_pos + pl_cursor st) f =
        take (lg_physical_size l - (base_pos + pl_cursor st)) (drop (base_pos + pl_cursor st) (lg_file l))"
      by (simp add: f(1) [symmetric] drop_take)
    then show ?thesis using f(2) room
      by (simp add: read_at_def min.commute min.assoc)
  qed
  have n: "21 \<le> ?n" using room(1) by (simp add: FRAMING_SCAN_READ_AHEAD_def)
  have "window_ok f base_pos st' \<and> 21 \<le> length (pl_window st') \<and>
    take 21 (drop (pl_cursor st' - pl_window_start st') (pl_window st')) = take 21 (drop (base_pos + pl_cursor st) f)"
  proof (cases "pl_cursor st < pl_window_start st \<or>
      pl_window_start st + length (pl_window st) < pl_cursor st + BATCH_FRAMING_PREFIX_SIZE")
    case True
    then have st': "pl_window st' = take ?n (drop (base_pos + pl_cursor st) f)"
      "pl_window_start st' = pl_cursor st" "pl_cursor st' = pl_cursor st"
      by (simp_all add: st'_def refill_window_def read)
    have "min 21 ?n = 21" using n by simp
    then show ?thesis using st' n room f(2) by (auto simp: window_ok_def)
  next
    case False
    then have same: "st' = st" "pl_window_start st \<le> pl_cursor st"
      "pl_cursor st + 21 \<le> pl_window_start st + length (pl_window st)"
      by (simp_all add: st'_def refill_window_def BATCH_FRAMING_PREFIX_SIZE_def)
    obtain k where k: "pl_window st = take k (drop (base_pos + pl_window_start st) f)"
      using w by (auto simp: window_ok_def)
    have "length (pl_window st) \<le> k" using k by simp
    then have "min 21 (k - (pl_cursor st - pl_window_start st)) = 21" using same(2,3) by simp
    moreover have "base_pos + pl_window_start st + (pl_cursor st - pl_window_start st) = base_pos + pl_cursor st"
      using same(2) by simp
    ultimately have "take 21 (drop (pl_cursor st - pl_window_start st) (pl_window st)) =
        take 21 (drop (base_pos + pl_cursor st) f)"
      by (simp add: k drop_take add.commute add.left_commute)
    moreover have "21 \<le> length (pl_window st)" using same(2,3) by linarith
    ultimately show ?thesis using w same(1) by simp
  qed
  then show "window_ok f base_pos st'" "21 \<le> length (pl_window st')"
    "take 21 (drop (pl_cursor st' - pl_window_start st') (pl_window st')) = take 21 (drop (base_pos + pl_cursor st) f)"
    by blast+
qed

section \<open>The scan\<close>

text \<open>The state of the scan after the batches \<open>sk\<close> have been skipped and \<open>inc\<close> included.\<close>

definition scanned :: "RecordBatch list \<Rightarrow> RecordBatch list \<Rightarrow> plan_state \<Rightarrow> bool" where
  "scanned sk inc st \<longleftrightarrow>
     pl_cursor st = length (log_image (sk @ inc)) \<and>
     pl_first_included st = (if inc = [] then None else Some (length (log_image sk))) \<and>
     (inc \<noteq> [] \<longrightarrow> pl_end st = length (log_image (sk @ inc)))"

definition served :: "offset \<Rightarrow> offset \<Rightarrow> RecordBatch list \<Rightarrow> RecordBatch list \<Rightarrow> RecordBatch list \<Rightarrow> bool" where
  "served lo hi sk inc rest \<longleftrightarrow>
     (\<forall>b \<in> set sk. batch_last_offset b < lo) \<and>
     (\<forall>b \<in> set inc. lo \<le> batch_last_offset b \<and> batch_last_offset b < hi) \<and>
     (inc = [] \<longrightarrow> rest = [] \<or> hi \<le> batch_last_offset (hd rest))"

lemma plan_step_scanned:
  assumes p: "pair_holds crc (us @ sk @ inc @ z # zs) p" and bp: "base_pos = length (log_image us)"
    and av: "available = length (log_image (sk @ inc @ z # zs))" "available \<le> U64_MAX"
    and w: "window_ok (log_image (us @ sk @ inc @ z # zs)) base_pos st" and s: "scanned sk inc st"
    and lo: "inc \<noteq> [] \<Longrightarrow> lo \<le> batch_last_offset z"
  shows "case plan_step (sp_log p) base_pos available lo hi st of
      None \<Rightarrow> hi \<le> batch_last_offset z \<or> inc \<noteq> []
    | Some st' \<Rightarrow> batch_last_offset z < hi \<and> window_ok (log_image (us @ sk @ inc @ z # zs)) base_pos st' \<and>
        (if batch_last_offset z < lo then scanned (sk @ [z]) [] st' \<and> inc = [] else scanned sk (inc @ [z]) st')"
proof -
  let ?f = "log_image (us @ sk @ inc @ z # zs)" and ?st = "refill_window (sp_log p) base_pos available st"
  have cur: "pl_cursor st = length (log_image (sk @ inc))" using s by (simp add: scanned_def)
  have f: "take (lg_physical_size (sp_log p)) (lg_file (sp_log p)) = ?f" "length ?f = lg_physical_size (sp_log p)"
    using p by (auto simp: pair_holds_def)
  have room: "pl_cursor st + 21 \<le> available" "base_pos + available = length ?f"
    using cur av bp length_encode_ge [of z] by simp_all
  note rw = refill_window_prefix [OF w f room]
  have z: "record_batch_ok crc z" "rb_base_offset z + rb_last_offset_delta z < 2 ^ 64"
    using p chained_last_less [of "sp_base_offset p" "us @ sk @ inc @ z # zs" z]
    by (auto simp: pair_holds_def)
  have "drop (base_pos + pl_cursor st) ?f = encode_record_batch z @ log_image zs"
    by (simp add: bp cur)
  then have fr: "frame_entry (take BATCH_FRAMING_PREFIX_SIZE (drop (pl_cursor st - pl_window_start ?st) (pl_window ?st))) =
      Some (encoded_size z, batch_last_offset z)"
    using rw(3) frame_entry_encode [OF z, of "log_image zs"] by (simp add: BATCH_FRAMING_PREFIX_SIZE_def)
  have nx: "pl_cursor st + encoded_size z \<le> available"
    using cur av by (simp add: length_encode_record_batch)
  have ok: "\<not> (U64_MAX < pl_cursor st + encoded_size z \<or> available < pl_cursor st + encoded_size z)"
    using nx av(2) by linarith
  have c1: "\<not> available < pl_cursor st + BATCH_FRAMING_PREFIX_SIZE"
    and c2: "\<not> length (pl_window ?st) < BATCH_FRAMING_PREFIX_SIZE"
    using room(1) rw(2) by (simp_all add: BATCH_FRAMING_PREFIX_SIZE_def)
  have fi: "pl_first_included st = None \<longleftrightarrow> inc = []" using s by (simp add: scanned_def)
  have step: "plan_step (sp_log p) base_pos available lo hi st =
    (if pl_budget st < pl_cursor st + encoded_size z \<and> inc \<noteq> [] then None
     else if hi \<le> batch_last_offset z then None
     else let st1 = ?st\<lparr>pl_budget := max (pl_budget st) (pl_cursor st + encoded_size z),
                pl_cursor := pl_cursor st + encoded_size z\<rparr> in
       if lo \<le> batch_last_offset z
       then Some (st1\<lparr>pl_first_included := (case pl_first_included st of
                    None \<Rightarrow> Some (pl_cursor st) | Some c \<Rightarrow> Some c),
                  pl_end := pl_cursor st + encoded_size z\<rparr>)
       else Some st1)"
    unfolding plan_step_def Let_def if_not_P [OF c1] refill_window_cursor if_not_P [OF c2] fr option.case
      prod.case if_not_P [OF ok] fi ..
  consider "pl_budget st < pl_cursor st + encoded_size z \<and> inc \<noteq> [] \<or> hi \<le> batch_last_offset z"
    | "\<not> (pl_budget st < pl_cursor st + encoded_size z \<and> inc \<noteq> [])" "\<not> hi \<le> batch_last_offset z"
      "lo \<le> batch_last_offset z"
    | "\<not> (pl_budget st < pl_cursor st + encoded_size z \<and> inc \<noteq> [])" "\<not> hi \<le> batch_last_offset z"
      "\<not> lo \<le> batch_last_offset z" by blast
  then show ?thesis
  proof cases
    case 1
    then have "plan_step (sp_log p) base_pos available lo hi st = None" unfolding step by auto
    then show ?thesis using 1 by auto
  next
    case 2
    have "pl_first_included st = (if inc = [] then None else Some (length (log_image sk)))"
      using s by (simp add: scanned_def)
    then show ?thesis unfolding step if_not_P [OF 2(1)] if_not_P [OF 2(2)] Let_def if_P [OF 2(3)] option.case
      using 2(2,3) rw(1) cur by (cases "inc = []") (simp_all add: scanned_def length_encode_record_batch)
  next
    case 3
    have "inc = []" using lo 3(3) by blast
    then show ?thesis unfolding step if_not_P [OF 3(1)] if_not_P [OF 3(2)] Let_def if_not_P [OF 3(3)] option.case
      using 3(2,3) rw(1) cur s by (simp add: scanned_def length_encode_record_batch)
  qed
qed

lemma plan_step_end:
  assumes "available < pl_cursor st + 21"
  shows "plan_step l base_pos available lo hi st = None"
  using assms by (simp add: plan_step_def BATCH_FRAMING_PREFIX_SIZE_def)

lemma plan_loop_scanned:
  assumes p: "pair_holds crc (us @ sk @ inc @ zs) p" and bp: "base_pos = length (log_image us)"
    and av: "available = length (log_image (sk @ inc @ zs))" "available \<le> U64_MAX"
    and w: "window_ok (log_image (us @ sk @ inc @ zs)) base_pos st" and s: "scanned sk inc st"
    and old: "\<forall>b \<in> set sk. batch_last_offset b < lo" "\<forall>b \<in> set inc. lo \<le> batch_last_offset b \<and> batch_last_offset b < hi"
  shows "\<exists>sk' inc' rest. sk @ inc @ zs = sk' @ inc' @ rest \<and> served lo hi sk' inc' rest \<and>
    scanned sk' inc' (plan_loop (sp_log p) base_pos available lo hi st)"
  using assms
proof (induction zs arbitrary: sk inc st)
  case Nil
  have "plan_step (sp_log p) base_pos available lo hi st = None"
    using Nil.prems by (intro plan_step_end) (simp add: scanned_def)
  then show ?case using Nil.prems
    by (intro exI [of _ sk] exI [of _ inc] exI [of _ "[]"]) (simp add: plan_loop.simps served_def)
next
  case (Cons z zs)
  have lo: "lo \<le> batch_last_offset z" if inc: "inc \<noteq> []"
  proof -
    let ?a = "sp_base_offset p" and ?bs = "us @ sk @ inc @ z # zs"
    have c: "chained ?a ?bs" "log_end ?a ?bs < 2 ^ 64" using Cons.prems(1) by (simp_all add: pair_holds_def)
    obtain i where i: "i \<in> set inc" using inc by (cases inc) auto
    have "chained ?a (us @ sk @ inc)" using c(1) by simp
    then have "rb_base_offset i + rb_last_offset_delta i < log_end ?a (us @ sk @ inc)"
      by (rule chained_last_less) (use i in simp)
    moreover have "rb_base_offset z = log_end ?a (us @ sk @ inc)" using c(1) by simp
    moreover have "batch_last_offset i = rb_base_offset i + rb_last_offset_delta i"
      "batch_last_offset z = rb_base_offset z + rb_last_offset_delta z"
      by (rule chained_last_exact [OF c]; use i in simp)+
    moreover have "lo \<le> batch_last_offset i" using Cons.prems(8) i by blast
    ultimately show ?thesis by linarith
  qed
  note step = plan_step_scanned [OF Cons.prems(1-6) lo, of hi]
  show ?case
  proof (cases "plan_step (sp_log p) base_pos available lo hi st")
    case None
    then show ?thesis using step Cons.prems
      by (intro exI [of _ sk] exI [of _ inc] exI [of _ "z # zs"]) (auto simp: plan_loop.simps served_def)
  next
    case (Some st')
    have run: "plan_loop (sp_log p) base_pos available lo hi st = plan_loop (sp_log p) base_pos available lo hi st'"
      using Some by (subst plan_loop.simps) simp
    show ?thesis
    proof (cases "batch_last_offset z < lo")
      case True
      have inc: "inc = []" and st0: "scanned (sk @ [z]) [] st'"
        "window_ok (log_image (us @ sk @ inc @ z # zs)) base_pos st'"
        using step unfolding Some option.case if_P [OF True] by blast+
      have st': "scanned (sk @ [z]) [] st'" "window_ok (log_image (us @ (sk @ [z]) @ [] @ zs)) base_pos st'"
        using st0 by (simp_all add: inc)
      then show ?thesis unfolding run
        using Cons.IH [of "sk @ [z]" "[]" st'] Cons.prems(1-4,7,8) True inc by simp
    next
      case False
      then have st': "scanned sk (inc @ [z]) st'" "batch_last_offset z < hi"
        "window_ok (log_image (us @ sk @ (inc @ [z]) @ zs)) base_pos st'"
        using step Some by simp_all
      then show ?thesis unfolding run
        using Cons.IH [of sk "inc @ [z]" st'] Cons.prems(1-4,7,8) False by simp
    qed
  qed
qed


section \<open>A fetch of the log\<close>

lemma fetch_pair:
  fixes hi max_bytes :: nat
  assumes p: "pair_holds crc bs p" and lo: "sp_base_offset p \<le> lo" "lo < sp_base_offset p + 2 ^ 32"
    and size: "length (log_image bs) \<le> U64_MAX"
  defines "st \<equiv> plan_loop (sp_log p) (seek_pos lo p) (lg_physical_size (sp_log p) - seek_pos lo p) lo hi
      \<lparr>pl_cursor = 0, pl_budget = max_bytes, pl_first_included = None, pl_end = 0, pl_window = [], pl_window_start = 0\<rparr>"
  shows "\<exists>sk inc rest. bs = sk @ inc @ rest \<and> served lo hi sk inc rest \<and>
    (case pl_first_included st of
       None \<Rightarrow> inc = []
     | Some b \<Rightarrow> read_at (seek_pos lo p + b) (pl_end st - b) (sp_log p) = log_image inc)"
proof -
  let ?st = "\<lparr>pl_cursor = 0, pl_budget = max_bytes, pl_first_included = None, pl_end = 0,
      pl_window = [], pl_window_start = 0\<rparr> :: plan_state"
  obtain us vs where us: "bs = us @ vs" "seek_pos lo p = length (log_image us)"
    "\<And>x. x \<in> set us \<Longrightarrow> batch_last_offset x < lo" using seek_pos_holds [OF p lo] by metis
  have av: "lg_physical_size (sp_log p) - seek_pos lo p = length (log_image ([] @ [] @ vs))"
    using p us by (simp add: pair_holds_def)
  have le: "lg_physical_size (sp_log p) - seek_pos lo p \<le> U64_MAX"
    using p size by (simp add: pair_holds_def)
  have "window_ok (log_image (us @ [] @ [] @ vs)) (seek_pos lo p) ?st" by (auto simp: window_ok_def)
  moreover have "scanned [] [] ?st" by (simp add: scanned_def)
  moreover have "pair_holds crc (us @ [] @ [] @ vs) p" using p us by simp
  ultimately obtain sk inc rest where s: "vs = sk @ inc @ rest" "served lo hi sk inc rest" "scanned sk inc st"
    using plan_loop_scanned [of crc us "[]" "[]" vs p "seek_pos lo p" "lg_physical_size (sp_log p) - seek_pos lo p" ?st lo hi]
      us(2) av le by (auto simp: st_def)
  have "served lo hi (us @ sk) inc rest" using s(2) us(3) by (auto simp: served_def)
  moreover have "read_at (length (log_image (us @ sk))) (length (log_image inc)) (sp_log p) = log_image inc"
    using p us(1) s(1) by (auto simp: pair_holds_def read_at_def)
  ultimately show ?thesis using us(1,2) s
    by (intro exI [of _ "us @ sk"] exI [of _ inc] exI [of _ rest]) (auto simp: scanned_def split: option.splits if_splits)
qed

text \<open>The segment an offset is looked up in: those before it end at or below the offset.\<close>

lemma find_segment_pair_holds:
  assumes m: "manager_holds crc hs bs m" and lo: "log_start m \<le> lo"
  obtains cs before behind where "pair_holds crc cs (pair_at (find_segment_pair lo m) m)"
    "sp_base_offset (pair_at (find_segment_pair lo m) m) \<le> lo"
    "concat hs @ bs = before @ cs @ behind"
    "\<forall>b \<in> set before. batch_last_offset b < lo"
    "behind = [] \<and> log_end (sp_base_offset (pair_at (find_segment_pair lo m) m)) cs = lm_high_watermark m \<or>
      lo < log_end (sp_base_offset (pair_at (find_segment_pair lo m) m)) cs"
proof -
  let ?act = "sp_base_offset (lm_active m)"
  have h: "list_all2 (pair_holds crc) hs (lm_historical m)" "linked (segs_of hs (lm_historical m)) ?act"
    and p: "pair_holds crc bs (lm_active m)" and hw: "lm_high_watermark m = log_end ?act bs"
    using m by (simp_all add: manager_holds_def)
  have below: "batch_last_offset b < lo" if c: "chained a xs" "log_end a xs < 2 ^ 64" "log_end a xs \<le> lo" "b \<in> set xs" for a xs b
    using chained_last_less [OF c(1,4)] chained_last_exact [OF c(1,2,4)] c(3) by simp
  show ?thesis
  proof (cases "?act \<le> lo")
    case True
    then have f: "pair_at (find_segment_pair lo m) m = lm_active m"
      by (simp add: find_segment_pair_def pair_at_def)
    have "log_end (log_start m) (concat hs) = ?act \<and> chained (log_start m) (concat hs)"
      using linked_chain [OF h(2) segs_chained(1) [OF h(1)]] segs_chained(2) [OF h(1)] log_start_chain [OF m] by simp
    then have "batch_last_offset b < lo" if "b \<in> set (concat hs)" for b
      using below [of "log_start m" "concat hs" b] that True p log_end_ge [of ?act bs] by (simp add: pair_holds_def)
    then show ?thesis using that [of bs "concat hs" "[]"] f p True hw by simp
  next
    case False
    obtain ps1 ps2 hs1 hs2 where s: "lm_historical m = ps1 @ ps2" "hs = hs1 @ hs2"
      "list_all2 (pair_holds crc) hs1 ps1" "list_all2 (pair_holds crc) hs2 ps2"
      "\<And>p. p \<in> set ps1 \<Longrightarrow> sp_base_offset p < lo + 1" "\<And>p. p \<in> set ps2 \<Longrightarrow> lo + 1 \<le> sp_base_offset p"
      "linked (segs_of hs1 ps1) (chain_start (segs_of hs2 ps2) ?act)"
      using history_split [OF h, where off = "lo + 1"] by metis
    have "ps1 \<noteq> []" using lo False s(1) s(6) [of "hd ps2"] by (cases ps2) (auto simp: log_start_def)
    then obtain qs q gs g where q: "ps1 = qs @ [q]" "hs1 = gs @ [g]"
      using list_all2_lengthD [OF s(3)] by (cases ps1 rule: rev_cases; cases hs1 rule: rev_cases) auto
    have gq: "list_all2 (pair_holds crc) gs qs" "pair_holds crc g q"
      using s(3) q list_all2_lengthD [OF s(3)] by (simp_all add: list_all2_append)
    have lk: "linked (segs_of gs qs) (sp_base_offset q)" "log_end (sp_base_offset q) g = chain_start (segs_of hs2 ps2) ?act"
      using s(7) q list_all2_lengthD [OF gq(1)] by simp_all
    have base: "sp_base_offset q \<le> lo" using s(5) [of q] q by simp
    have e: "lo < log_end (sp_base_offset q) g"
      using lk(2) s(6) [of "hd ps2"] False list_all2_lengthD [OF s(4)] by (cases ps2; cases hs2) auto
    have up: "rev [0 ..< length (lm_historical m)] = rev [length ps1 ..< length (lm_historical m)] @ (length qs # rev [0 ..< length qs])"
      using s(1) q upt_add_eq_append [of 0 "length ps1" "length ps2"] by simp
    have none: "filter (\<lambda>i. sp_base_offset (lm_historical m ! i) \<le> lo) (rev [length ps1 ..< length (lm_historical m)]) = []"
      using s(6) by (auto simp: filter_empty_conv s(1) nth_append not_le Suc_le_eq)
    have "lm_historical m ! length qs = q" using s(1) q by simp
    then have "filter (\<lambda>i. sp_base_offset (lm_historical m ! i) \<le> lo) (rev [0 ..< length (lm_historical m)]) =
        length qs # filter (\<lambda>i. sp_base_offset (lm_historical m ! i) \<le> lo) (rev [0 ..< length qs])"
      using base unfolding up filter_append none by simp
    then have f: "pair_at (find_segment_pair lo m) m = q"
      using False s(1) q by (simp add: find_segment_pair_def pair_at_def)
    have "log_end (chain_start (segs_of gs qs) (sp_base_offset q)) (concat gs) = sp_base_offset q \<and>
        chained (chain_start (segs_of gs qs) (sp_base_offset q)) (concat gs)"
      using linked_chain [OF lk(1) segs_chained(1) [OF gq(1)]] segs_chained(2) [OF gq(1)] by simp
    then have "batch_last_offset b < lo" if "b \<in> set (concat gs)" for b
      using below [of "chain_start (segs_of gs qs) (sp_base_offset q)" "concat gs" b] that base gq(2)
        log_end_ge [of "sp_base_offset q" g] by (simp add: pair_holds_def)
    then show ?thesis
      using that [of g "concat gs" "concat hs2 @ bs"] f gq(2) base e s(2) q by simp
  qed
qed


lemma log_image_part: "log = before @ cs @ behind \<Longrightarrow> length (log_image cs) \<le> length (log_image log)"
  by simp

lemma fetch_serves_log:
  assumes m: "manager_ok crc m" and lo: "log_start m \<le> lo" "lo \<le> lm_high_watermark m"
    and size: "length (log_image (log_batches crc m)) \<le> U64_MAX"
  shows "\<exists>sk inc rest. log_batches crc m = sk @ inc @ rest \<and> served lo hi sk inc rest \<and>
    fetch_entries lo max_bytes hi m = log_image inc"
proof -
  obtain hs bs where h: "manager_holds crc hs bs m" using m by (auto simp: manager_ok_def)
  let ?p = "pair_at (find_segment_pair lo m) m"
  obtain cs before behind where f: "pair_holds crc cs ?p" "sp_base_offset ?p \<le> lo" "concat hs @ bs = before @ cs @ behind"
    "\<forall>b \<in> set before. batch_last_offset b < lo"
    and e: "behind = [] \<and> log_end (sp_base_offset ?p) cs = lm_high_watermark m \<or> lo < log_end (sp_base_offset ?p) cs"
    by (rule find_segment_pair_holds [OF h lo(1)])
  note log = log_batches_holds [OF h]
  have lim: "lo < sp_base_offset ?p + 2 ^ 32" using f(1) e lo(2) by (auto simp: pair_holds_def)
  have part: "length (log_image cs) \<le> U64_MAX" using log_image_part [OF f(3)] size log by simp
  define st where "st = plan_loop (sp_log ?p) (seek_pos lo ?p) (lg_physical_size (sp_log ?p) - seek_pos lo ?p) lo hi
      \<lparr>pl_cursor = 0, pl_budget = max_bytes, pl_first_included = None, pl_end = 0, pl_window = [], pl_window_start = 0\<rparr>"
  obtain sk inc rest where s: "cs = sk @ inc @ rest" "served lo hi sk inc rest"
    and st: "case pl_first_included st of None \<Rightarrow> inc = []
      | Some b \<Rightarrow> read_at (seek_pos lo ?p + b) (pl_end st - b) (sp_log ?p) = log_image inc"
    using fetch_pair [OF f(1,2) lim part, of hi max_bytes, folded st_def] by blast
  have "plan_entries_range lo max_bytes hi m = (case pl_first_included st of None \<Rightarrow> None
      | Some b \<Rightarrow> Some (seek_pos lo ?p + b, pl_end st - b))"
    unfolding plan_entries_range_def Let_def st_def ..
  then have r: "fetch_entries lo max_bytes hi m = log_image inc"
    using st by (cases "pl_first_included st") (simp_all add: fetch_entries_def)
  have "rest \<noteq> []" if "inc = []" "behind \<noteq> []"
  proof
    assume "rest = []"
    then have cs: "cs = sk" using s(1) that by simp
    then have "cs \<noteq> []" using e that f(2) by auto
    then obtain xs b where b: "cs = xs @ [b]" by (cases cs rule: rev_cases) auto
    have c: "chained (sp_base_offset ?p) cs" "log_end (sp_base_offset ?p) cs < 2 ^ 64"
      using f(1) by (simp_all add: pair_holds_def)
    have "batch_last_offset b = rb_base_offset b + rb_last_offset_delta b"
      by (rule chained_last_exact [OF c]) (simp add: b)
    then have "log_end (sp_base_offset ?p) cs = batch_last_offset b + 1" using c(1) by (simp add: b)
    moreover have "batch_last_offset b < lo" using s(2) cs b by (auto simp: served_def)
    ultimately show False using e that by simp
  qed
  then have "served lo hi (before @ sk) inc (rest @ behind)"
    using s(2) f(4) by (cases rest; cases behind) (auto simp: served_def)
  then show ?thesis using r s(1) f(3) log
    by (intro exI [of _ "before @ sk"] exI [of _ inc] exI [of _ "rest @ behind"]) simp
qed

end
