(* ===== verification/Log_Recovery.thy ===== *)
theory Log_Recovery
  imports Log_Fetch "HOL-Library.Multiset"
begin

text \<open>
  Restarting a partition. The recovery scan of \<^verbatim>\<open>src/segment/log.rs\<close> reads a file in pieces and
  stops at the first bytes that are no batch; what it finds is shown to be the batches that were
  written, whatever the pieces are and however the last write was cut. What a crash leaves is what
  the directory still names; the last section shows when that is every live segment.
\<close>

section \<open>Bytes that hold no batch\<close>

definition dead_tail :: "(bytes \<Rightarrow> nat) \<Rightarrow> bytes \<Rightarrow> bool" where
  "dead_tail crc tail \<longleftrightarrow> (\<forall>n. isl (decode_entry crc (take n tail)))"

lemma dead_tail_prefix: "dead_tail crc (xs @ ys) \<Longrightarrow> dead_tail crc xs"
  unfolding dead_tail_def by (metis append_eq_conv_conj take_take)

lemma dead_tail_zeros: "dead_tail crc (replicate z 0)"
proof -
  have "isl (decode_entry crc (replicate k 0))" for k
    by (cases k) (simp_all add: decode_entry_def BATCH_MAGIC_BYTE_def)
  then show ?thesis by (simp add: dead_tail_def)
qed

lemma decode_entry_part:
  assumes b: "record_batch_ok crc b" and e: "encode_record_batch b = part @ q" "q \<noteq> []"
  shows "\<exists>x y. decode_entry crc part = Inl (BufferTooShort x y)"
proof (cases "length part < 5")
  case True
  have "part \<noteq> [] \<Longrightarrow> hd part = BATCH_MAGIC_BYTE"
    using e(1) b by (cases part) (auto simp: encode_record_batch_def record_batch_ok_def)
  then show ?thesis using True by (cases part) (auto simp: decode_entry_def decode_batch_def)
next
  case False
  let ?n = "BATCH_LENGTH_COVERED_FIXED + length (rb_record_data b)"
  obtain body where body: "encode_record_batch b = BATCH_MAGIC_BYTE # be_bytes 4 ?n @ body" "length body = ?n"
    using b by (simp add: encode_record_batch_def record_batch_ok_def batch_sizes)
  have "part = BATCH_MAGIC_BYTE # be_bytes 4 ?n @ drop 5 part"
  proof -
    have "take 5 (encode_record_batch b) = take 5 part" using e(1) False by simp
    moreover have "take 5 (encode_record_batch b) = BATCH_MAGIC_BYTE # be_bytes 4 ?n"
      using body(1) by (simp add: take_Cons')
    ultimately have "take 5 part = BATCH_MAGIC_BYTE # be_bytes 4 ?n" by simp
    then show ?thesis by (metis append_Cons append_take_drop_id)
  qed
  then obtain pb where pb: "part = BATCH_MAGIC_BYTE # be_bytes 4 ?n @ pb" by blast
  have "length pb < ?n"
    using arg_cong [OF e(1), of length] arg_cong [OF body(1), of length] body(2) pb e(2) by (cases q) auto
  moreover have "?n < 256 ^ 4" using b by (simp add: record_batch_ok_def batch_sizes)
  ultimately show ?thesis
    unfolding pb
    by (simp add: decode_entry_def decode_batch_def rd_be_append rd_be_Cons del: One_nat_def)
qed

lemma dead_tail_part:
  assumes "record_batch_ok crc b" "encode_record_batch b = part @ q" "q \<noteq> []"
  shows "dead_tail crc part"
proof -
  have "isl (decode_entry crc (take n part))" for n
  proof -
    have "encode_record_batch b = take n part @ drop n part @ q" using assms(2) by simp
    then show ?thesis using decode_entry_part [OF assms(1), of "take n part" "drop n part @ q"] assms(3) by auto
  qed
  then show ?thesis by (simp add: dead_tail_def)
qed

section \<open>The scan\<close>

definition scan_batches :: "offset \<Rightarrow> nat \<Rightarrow> RecordBatch list \<Rightarrow> scan_state \<Rightarrow> scan_state" where
  "scan_batches base interval bs st = fold (\<lambda>b. scan_entry base interval b (encoded_size b)) bs st"

lemma scan_batches_simps [simp]:
  "scan_batches base interval [] st = st"
  "scan_batches base interval (b # bs) st =
     scan_batches base interval bs (scan_entry base interval b (encoded_size b) st)"
  "scan_batches base interval (bs @ cs) st = scan_batches base interval cs (scan_batches base interval bs st)"
  by (simp_all add: scan_batches_def)

lemma encode_not_zero: "record_batch_ok crc b \<Longrightarrow> encode_record_batch b = part @ q \<Longrightarrow> part \<noteq> [] \<Longrightarrow>
    \<not> all_zero (take HEADER_SIZE (part @ rest))"
  by (cases part) (auto simp: encode_record_batch_def record_batch_ok_def all_zero_def HEADER_SIZE_def
      BATCH_HEADER_SIZE_def BATCH_MAGIC_BYTE_def take_Cons')

lemma scan_chunk_batch:
  assumes b: "record_batch_ok crc b"
  shows "scan_chunk crc base interval r (encode_record_batch b @ rest) st =
    scan_chunk crc base interval r rest (scan_entry base interval b (encoded_size b) st)"
proof -
  have n: "encode_record_batch b \<noteq> []" "\<not> length (encode_record_batch b @ rest) < HEADER_SIZE"
    using length_encode_ge [of b] by (auto simp: HEADER_SIZE_def BATCH_HEADER_SIZE_def)
  have z: "\<not> all_zero (take HEADER_SIZE (encode_record_batch b @ rest))"
    using encode_not_zero [OF b, of "encode_record_batch b" "[]" rest] n(1) by simp
  show ?thesis
    using n z decode_entry_encode [OF b, of rest]
    by (subst scan_chunk.simps) (simp add: length_encode_record_batch)
qed

lemma scan_chunk_image:
  "list_all (record_batch_ok crc) bs \<Longrightarrow> scan_chunk crc base interval r (log_image bs @ rest) st =
     scan_chunk crc base interval r rest (scan_batches base interval bs st)"
  by (induction bs arbitrary: st) (simp_all add: scan_chunk_batch)

lemma scan_chunk_dead:
  assumes "dead_tail crc tail"
  shows "\<exists>bad. scan_chunk crc base interval r tail st = (st, tail, bad)"
proof -
  have "isl (decode_entry crc (take (length tail) tail))" using assms unfolding dead_tail_def by blast
  then obtain e where "decode_entry crc tail = Inl e" by (auto simp: isl_def)
  then show ?thesis by (subst scan_chunk.simps) auto
qed

lemma scan_chunk_part:
  assumes b: "record_batch_ok crc b" and e: "encode_record_batch b = part @ q" "q \<noteq> []"
  shows "scan_chunk crc base interval True part st = (st, part, False)"
proof -
  obtain x y where "decode_entry crc part = Inl (BufferTooShort x y)" using decode_entry_part [OF b e] by blast
  moreover have "part \<noteq> [] \<Longrightarrow> \<not> all_zero (take HEADER_SIZE part)"
    using encode_not_zero [OF b e(1), of "[]"] by simp
  ultimately show ?thesis by (subst scan_chunk.simps) (simp add: is_buffer_too_short_def)
qed

lemma image_split:
  "buf @ behind = log_image bs @ tail \<Longrightarrow>
     (\<exists>t. buf = log_image bs @ t \<and> tail = t @ behind) \<or>
     (\<exists>bs1 b bs2 part q. bs = bs1 @ b # bs2 \<and> buf = log_image bs1 @ part \<and>
        encode_record_batch b = part @ q \<and> q \<noteq> [] \<and> behind = q @ log_image bs2 @ tail)"
proof (induction bs arbitrary: buf)
  case Nil
  then show ?case by simp
next
  case (Cons b bs)
  have "buf @ behind = encode_record_batch b @ log_image bs @ tail" using Cons.prems by simp
  then consider
    (whole) us where "buf = encode_record_batch b @ us" "us @ behind = log_image bs @ tail"
    | (cut) q where "encode_record_batch b = buf @ q" "q \<noteq> []" "behind = q @ log_image bs @ tail"
    unfolding append_eq_append_conv2 by (metis append_Nil append_Nil2)
  then show ?case
  proof cases
    case us: whole
    show ?thesis
      using Cons.IH [OF us(2)]
    proof (elim disjE exE conjE)
      fix t assume "us = log_image bs @ t" "tail = t @ behind"
      then show ?thesis using us(1) by simp
    next
      fix bs1 b' bs2 part q
      assume "bs = bs1 @ b' # bs2" "us = log_image bs1 @ part" "encode_record_batch b' = part @ q" "q \<noteq> []"
        "behind = q @ log_image bs2 @ tail"
      then have "b # bs = (b # bs1) @ b' # bs2" "buf = log_image (b # bs1) @ part" using us(1) by simp_all
      then show ?thesis using \<open>encode_record_batch b' = part @ q\<close> \<open>q \<noteq> []\<close> \<open>behind = q @ log_image bs2 @ tail\<close> by blast
    qed
  next
    case cut
    then have "b # bs = [] @ b # bs" "buf = log_image [] @ buf" "encode_record_batch b = buf @ q" "q \<noteq> []"
      "behind = q @ log_image bs @ tail" by simp_all
    then show ?thesis by blast
  qed
qed

lemma recover_loop_image:
  "\<lbrakk>read_buf @ concat reads = log_image bs @ tail; list_all (record_batch_ok crc) bs; dead_tail crc tail\<rbrakk>
     \<Longrightarrow> fst (recover_loop crc base interval reads read_buf st) = scan_batches base interval bs st"
proof (induction reads arbitrary: read_buf bs st)
  case Nil
  obtain bad where "scan_chunk crc base interval False tail (scan_batches base interval bs st) =
      (scan_batches base interval bs st, tail, bad)"
    using scan_chunk_dead [OF Nil.prems(3)] by blast
  moreover have "read_buf = [] \<Longrightarrow> bs = []"
    using Nil.prems(1) length_encode_ge [of "hd bs"] by (cases bs) auto
  ultimately show ?case using Nil.prems by (auto simp: scan_chunk_image)
next
  case (Cons c reads)
  have "(read_buf @ c) @ concat reads = log_image bs @ tail" using Cons.prems(1) by simp
  from image_split [OF this] show ?case
  proof (elim disjE exE conjE)
    fix t assume t: "read_buf @ c = log_image bs @ t" "tail = t @ concat reads"
    have "dead_tail crc t" using Cons.prems(3) t(2) dead_tail_prefix by blast
    from scan_chunk_dead [OF this] obtain bad where
      "scan_chunk crc base interval True t (scan_batches base interval bs st) = (scan_batches base interval bs st, t, bad)"
      by blast
    then show ?thesis
      using Cons.IH [of t "[]" "scan_batches base interval bs st"] Cons.prems(2,3) t
      by (simp add: scan_chunk_image)
  next
    fix bs1 b bs2 part q
    assume s: "bs = bs1 @ b # bs2" "read_buf @ c = log_image bs1 @ part" "encode_record_batch b = part @ q"
      "q \<noteq> []" "concat reads = q @ log_image bs2 @ tail"
    have ok: "list_all (record_batch_ok crc) bs1" "record_batch_ok crc b" "list_all (record_batch_ok crc) bs2"
      using Cons.prems(2) s(1) by simp_all
    then show ?thesis
      using Cons.IH [of part "b # bs2" "scan_batches base interval bs1 st"] Cons.prems(3) s
        scan_chunk_part [OF ok(2) s(3,4)]
      by (simp add: scan_chunk_image)
  qed
qed

section \<open>The index the scan rebuilds\<close>

lemma batch_end_exact:
  assumes "rb_base_offset b + rb_last_offset_delta b + 1 < 2 ^ 64"
  shows "add64 (batch_last_offset b) 1 = rb_base_offset b + rb_last_offset_delta b + 1"
  using assms by (simp add: batch_last_offset_def arith_simps)

definition scan_start :: "offset \<Rightarrow> scan_state" where
  "scan_start base = \<lparr>sc_pos = 0, sc_next_offset = base, sc_index = [], sc_bytes_since_last_index = 0\<rparr>"

definition scan_exact :: "offset \<Rightarrow> RecordBatch list \<Rightarrow> scan_state \<Rightarrow> bool" where
  "scan_exact base bs st \<longleftrightarrow>
     sc_pos st = length (log_image bs) \<and> sc_next_offset st = log_end base bs \<and>
     list_all index_entry_ok (sc_index st) \<and>
     sorted_wrt (\<lambda>a b. relative_offset a < relative_offset b) (sc_index st) \<and>
     list_all (\<lambda>e. base + relative_offset e < log_end base bs) (sc_index st) \<and>
     list_all (index_points base bs) (sc_index st) \<and>
     (bs \<noteq> [] \<longrightarrow> (\<exists>e es. sc_index st = e # es \<and> relative_offset e = 0))"

lemma scan_entry_exact:
  assumes st: "scan_exact base bs st" and b: "rb_base_offset b = log_end base bs"
    and n: "log_end base (bs @ [b]) < 2 ^ 64" "log_end base (bs @ [b]) < base + 2 ^ 32"
    and size: "length (log_image (bs @ [b])) \<le> 2 ^ 32"
  shows "scan_exact base (bs @ [b]) (scan_entry base interval b (encoded_size b) st)"
proof -
  let ?e = "\<lparr>relative_offset = log_end base bs - base, physical_position = length (log_image bs)\<rparr>"
  have le: "base \<le> log_end base bs" by (rule log_end_ge)
  have small: "length (log_image bs) < 2 ^ 32" "log_end base bs - base < 2 ^ 32"
    using size n le length_encode_ge [of b] by simp_all
  have fresh: "index_points base (bs @ [b]) ?e" using le by (intro index_points_end) simp_all
  have old: "list_all (index_points base (bs @ [b])) (sc_index st)"
    using st by (auto simp: scan_exact_def list_all_iff intro: index_points_append)
  have nxt: "add64 (batch_last_offset b) 1 = log_end base (bs @ [b])"
    using b n by (subst batch_end_exact) simp_all
  have below: "list_all (\<lambda>e. base + relative_offset e < log_end base (bs @ [b])) (sc_index st)"
    using st by (auto simp: scan_exact_def list_all_iff)
  have ent: "\<lparr>relative_offset = (rb_base_offset b - base) mod 2 ^ 32, physical_position = sc_pos st mod 2 ^ 32\<rparr> = ?e"
    using st b small by (simp add: scan_exact_def)
  have pos: "sc_pos st + encoded_size b = length (log_image (bs @ [b]))"
    using st by (simp add: scan_exact_def length_encode_record_batch)
  have rel: "\<forall>e\<in>set (sc_index st). relative_offset e < log_end base bs - base"
    using st by (auto simp: scan_exact_def list_all_iff)
  show ?thesis
  proof (cases "interval \<le> sc_bytes_since_last_index st \<or> sc_index st = []")
    case True
    have ix: "sc_index (scan_entry base interval b (encoded_size b) st) = sc_index st @ [?e]"
      using True ent by (simp add: scan_entry_def Let_def)
    have first: "\<exists>e es. sc_index st @ [?e] = e # es \<and> relative_offset e = 0"
    proof (cases "bs = []")
      case True
      then have "sc_index st = []" using st by (auto simp: scan_exact_def index_points_def list_all_iff)
      then show ?thesis using True by simp
    next
      case False
      then show ?thesis using st by (auto simp: scan_exact_def)
    qed
    show ?thesis
      using st old fresh below rel small le nxt pos first
      unfolding scan_exact_def ix
      by (simp add: scan_entry_def Let_def sorted_wrt_append index_entry_ok_def)
  next
    case False
    then have ix: "sc_index (scan_entry base interval b (encoded_size b) st) = sc_index st"
      by (simp add: scan_entry_def Let_def)
    have "bs \<noteq> []" using False st by (cases "sc_index st") (auto simp: scan_exact_def index_points_def)
    then show ?thesis
      using st old below nxt pos unfolding scan_exact_def ix by (simp add: scan_entry_def Let_def)
  qed
qed

lemma scan_batches_exact:
  "\<lbrakk>chained base bs; log_end base bs < 2 ^ 64; log_end base bs < base + 2 ^ 32; length (log_image bs) \<le> 2 ^ 32\<rbrakk>
     \<Longrightarrow> scan_exact base bs (scan_batches base interval bs (scan_start base))"
proof (induction bs rule: rev_induct)
  case Nil
  then show ?case by (simp add: scan_exact_def scan_start_def)
next
  case (snoc b bs)
  then show ?case by (auto intro!: scan_entry_exact)
qed

lemma rebuild_succeeds: "snd (truncate_and_rebuild (Writes [] True) es x)"
proof -
  have "snd (push_entries encode_index [] es st)" for st
    by (induction es arbitrary: st) (auto simp: push_entry_def split: prod.splits)
  from this [of "([], [])"] show ?thesis
    by (auto simp: truncate_and_rebuild_def rewrite_entries_def split: prod.splits)
qed

section \<open>Opening the files of a segment\<close>

lemma full_scan_exact:
  assumes f: "concat reads = log_image bs @ tail" "dead_tail crc tail" "list_all (record_batch_ok crc) bs"
    and c: "chained base bs" "log_end base bs < 2 ^ 64" "log_end base bs < base + 2 ^ 32" "length (log_image bs) \<le> 2 ^ 32"
    and x: "ix_base_offset index = base"
    and o: "full_scan crc cfg base reads clean index = (l, index')"
  shows "lg_next_offset l = log_end base bs" "lg_physical_size l = length (log_image bs)"
    "\<exists>rest. lg_file l = log_image bs @ rest" "tail = [] \<Longrightarrow> lg_file l = log_image bs"
    "index_ok base (log_end base bs) index'" "list_all (index_points base bs) (ix_entries index')"
    "bs \<noteq> [] \<longrightarrow> (\<exists>e es. ix_entries index' = e # es \<and> relative_offset e = 0)"
proof -
  let ?st = "scan_batches base (cf_index_interval_bytes cfg) bs (scan_start base)"
  obtain bad where r: "recover_loop crc base (cf_index_interval_bytes cfg) reads [] (scan_start base) = (?st, bad)"
    using recover_loop_image [of "[]" reads bs tail crc base "cf_index_interval_bytes cfg" "scan_start base"] f
    by (cases "recover_loop crc base (cf_index_interval_bytes cfg) reads [] (scan_start base)") simp
  have st: "scan_exact base bs ?st" by (rule scan_batches_exact [OF c])
  have l: "l = \<lparr>lg_base_offset = base, lg_next_offset = sc_next_offset ?st,
      lg_file = (if bad then set_len (sc_pos ?st) (concat reads) else concat reads),
      lg_physical_size = sc_pos ?st, lg_is_preallocated = False, lg_clean = clean\<rparr>"
    and i: "truncate_and_rebuild (Writes [] True) (sc_index ?st) index = (index', True)"
    using o rebuild_succeeds [of "sc_index ?st" index]
    unfolding full_scan_def scan_start_def [symmetric] r by (auto simp: prod_eq_iff)
  show "lg_next_offset l = log_end base bs" "lg_physical_size l = length (log_image bs)"
    using st l by (simp_all add: scan_exact_def)
  show "\<exists>rest. lg_file l = log_image bs @ rest" "tail = [] \<Longrightarrow> lg_file l = log_image bs"
    using st l f(1) by (auto simp: scan_exact_def set_len_def)
  show "index_ok base (log_end base bs) index'" "list_all (index_points base bs) (ix_entries index')"
    "bs \<noteq> [] \<longrightarrow> (\<exists>e es. ix_entries index' = e # es \<and> relative_offset e = 0)"
    using st truncate_and_rebuild_done [OF i] x log_end_ge [of base bs] c by (simp_all add: scan_exact_def index_ok_def)
qed

lemma open_active_holds:
  assumes f: "sf_log f = Some reads" "concat reads = log_image bs @ tail" "dead_tail crc tail" "list_all (record_batch_ok crc) bs"
    and c: "chained base bs" "log_end base bs < 2 ^ 64" "log_end base bs < base + 2 ^ 32" "length (log_image bs) \<le> 2 ^ 32"
  shows "pair_holds crc bs (open_pair crc cfg False mapped (base, f))"
    and "sp_base_offset (open_pair crc cfg False mapped (base, f)) = base"
    and "sp_mmap (open_pair crc cfg False mapped (base, f)) = None"
    and "lg_next_offset (sp_log (open_pair crc cfg False mapped (base, f))) = log_end base bs"
proof -
  obtain l x where o: "full_scan crc cfg base reads (sf_clean f) (open_index (sf_index f) base) = (l, x)"
    by (cases "full_scan crc cfg base reads (sf_clean f) (open_index (sf_index f) base)")
  have "ix_base_offset (open_index (sf_index f) base) = base" by (simp add: open_index_def)
  note e = full_scan_exact [OF f(2-4) c this o]
  have p: "open_pair crc cfg False mapped (base, f) =
      \<lparr>sp_base_offset = base, sp_log = l, sp_index = x, sp_time_index = open_time_index (sf_time_index f) base,
       sp_txn_index = open_txn_index (sf_txn_index f), sp_mmap = None\<rparr>"
    using f(1) o by (simp add: open_pair_def open_at_path_with_trust_def)
  show "pair_holds crc bs (open_pair crc cfg False mapped (base, f))"
    unfolding p pair_holds_def using e(2,3,5-7) f(4) c by simp
  show "sp_base_offset (open_pair crc cfg False mapped (base, f)) = base"
    "sp_mmap (open_pair crc cfg False mapped (base, f)) = None"
    "lg_next_offset (sp_log (open_pair crc cfg False mapped (base, f))) = log_end base bs"
    using p e(1) by simp_all
qed

lemma trusted_end_size:
  "trusted_end crc base f index = Some (n, nxt) \<Longrightarrow> n = length f"
  by (auto simp: trusted_end_def split: option.splits if_splits)

lemma open_history_holds:
  assumes p: "pair_holds crc bs p"
    and f: "sf_log f = Some reads" "concat reads = log_image bs" "sf_index f = ix_content (sp_index p)"
    and size: "length (log_image bs) \<le> 2 ^ 32"
  shows "pair_holds crc bs (open_pair crc cfg True mapped (sp_base_offset p, f)) \<and>
    sp_base_offset (open_pair crc cfg True mapped (sp_base_offset p, f)) = sp_base_offset p"
proof -
  let ?base = "sp_base_offset p"
  have c: "list_all (record_batch_ok crc) bs" "chained ?base bs" "log_end ?base bs < 2 ^ 64" "log_end ?base bs < ?base + 2 ^ 32"
    and x: "index_ok ?base (log_end ?base bs) (sp_index p)" "list_all (index_points ?base bs) (ix_entries (sp_index p))"
      "bs \<noteq> [] \<longrightarrow> (\<exists>e es. ix_entries (sp_index p) = e # es \<and> relative_offset e = 0)"
    using p by (simp_all add: pair_holds_def)
  have ix: "open_index (sf_index f) ?base = sp_index p" using index_ok_reopen [OF x(1)] f(3) by simp
  let ?t = "if sf_clean f = Some (length (concat reads)) then trusted_end crc ?base (concat reads) (sp_index p) else None"
  show ?thesis
  proof (cases ?t)
    case None
    obtain l y where o: "full_scan crc cfg ?base reads (sf_clean f) (sp_index p) = (l, y)"
      by (cases "full_scan crc cfg ?base reads (sf_clean f) (sp_index p)")
    have "dead_tail crc []" using dead_tail_zeros [of crc 0] by simp
    moreover have "concat reads = log_image bs @ []" "ix_base_offset (sp_index p) = ?base"
      using f(2) x(1) by (simp_all add: index_ok_def)
    ultimately have e: "lg_physical_size l = length (log_image bs)" "lg_file l = log_image bs"
      "index_ok ?base (log_end ?base bs) y" "list_all (index_points ?base bs) (ix_entries y)"
      "bs \<noteq> [] \<longrightarrow> (\<exists>e es. ix_entries y = e # es \<and> relative_offset e = 0)"
      using full_scan_exact [OF _ _ c(1,2,3,4) size _ o] by simp_all
    have "open_at_path_with_trust crc cfg ?base True (sf_log f) (sf_clean f) (sp_index p) = (l, y)"
      using None f(1) o unfolding open_at_path_with_trust_def by simp
    then show ?thesis using e c unfolding open_pair_def ix prod.case by (simp add: pair_holds_def)
  next
    case (Some r)
    obtain n nxt where r: "r = (n, nxt)" by (cases r)
    have n: "n = length (log_image bs)" using Some r trusted_end_size f(2) by (auto split: if_splits)
    have "open_at_path_with_trust crc cfg ?base True (sf_log f) (sf_clean f) (sp_index p) =
        (\<lparr>lg_base_offset = ?base, lg_next_offset = nxt, lg_file = concat reads, lg_physical_size = n,
          lg_is_preallocated = False, lg_clean = sf_clean f\<rparr>, sp_index p)"
      using Some r f(1) unfolding open_at_path_with_trust_def by simp
    then show ?thesis using c x n f(2) unfolding open_pair_def ix prod.case by (simp add: pair_holds_def)
  qed
qed

section \<open>Opening the log after a crash\<close>

text \<open>
  The files a crash leaves are those the directory names: not the files removed by
  truncation, trimming or retention, and one file for the segments of one base offset, which is
  the latest one's. Rotated segments are complete; of the active file the first \<open>n\<close> bytes survive,
  with nothing behind them or, when all of it survived, the zeros of the preallocated space. The
  index of the active segment may hold anything. Reads return the files in any pieces, and the
  directory lists them in any order.
\<close>

primrec own_files :: "offset \<Rightarrow> SegmentPair list \<Rightarrow> SegmentPair list" where
  "own_files active_base [] = []"
| "own_files active_base (p # ps) =
     (if sp_base_offset p = active_base \<or> sp_base_offset p \<in> set (map sp_base_offset ps)
      then own_files active_base ps else p # own_files active_base ps)"

definition dir_history :: "SegmentManager \<Rightarrow> SegmentPair list" where
  "dir_history m =
     filter (\<lambda>p. sp_base_offset p \<notin> set (lm_unlinked m))
       (own_files (sp_base_offset (lm_active m)) (lm_historical m))"

definition segment_names :: "SegmentManager \<Rightarrow> offset list" where
  "segment_names m = map sp_base_offset (lm_historical m) @ [sp_base_offset (lm_active m)]"

text \<open>No live segment has lost its files; and no two segments share them.\<close>

definition files_linked :: "SegmentManager \<Rightarrow> bool" where
  "files_linked m \<longleftrightarrow> list_all (\<lambda>a. a \<notin> set (lm_unlinked m)) (segment_names m)"

definition names_intact :: "SegmentManager \<Rightarrow> bool" where
  "names_intact m \<longleftrightarrow> distinct (segment_names m) \<and> files_linked m"

definition history_survives :: "SegmentPair \<Rightarrow> offset \<times> segment_files \<Rightarrow> bool" where
  "history_survives p = (\<lambda>(base, f). base = sp_base_offset p \<and> sf_index f = ix_content (sp_index p) \<and>
     lg_physical_size (sp_log p) \<le> 2 ^ 32 \<and>
     (\<exists>reads. sf_log f = Some reads \<and>
        concat reads = take (lg_physical_size (sp_log p)) (lg_file (sp_log p))))"

definition active_survives :: "SegmentPair \<Rightarrow> nat \<Rightarrow> offset \<times> segment_files \<Rightarrow> bool" where
  "active_survives p n = (\<lambda>(base, f). base = sp_base_offset p \<and> n \<le> lg_physical_size (sp_log p) \<and>
     lg_physical_size (sp_log p) \<le> 2 ^ 32 \<and>
     (\<exists>reads z. sf_log f = Some reads \<and> concat reads = take n (lg_file (sp_log p)) @ replicate z 0 \<and>
        (z = 0 \<or> n = lg_physical_size (sp_log p))))"

definition crash_files :: "SegmentManager \<Rightarrow> nat \<Rightarrow> (offset \<times> segment_files) list \<Rightarrow> bool" where
  "crash_files m n files \<longleftrightarrow>
     (\<exists>hist. list_all2 history_survives (dir_history m) hist \<and>
        (if sp_base_offset (lm_active m) \<in> set (lm_unlinked m) then mset files = mset hist
         else \<exists>act. mset files = mset (hist @ [act]) \<and> active_survives (lm_active m) n act))"

lemma image_cut:
  assumes "list_all (record_batch_ok crc) bs" "n \<le> length (log_image bs)"
  shows "\<exists>kept lost part. bs = kept @ lost \<and> take n (log_image bs) = log_image kept @ part \<and> dead_tail crc part \<and>
    (if lost = [] then part = [] \<and> n = length (log_image bs) else n < length (log_image (kept @ [hd lost])))"
proof -
  have "take n (log_image bs) @ drop n (log_image bs) = log_image bs @ []" by simp
  from image_split [OF this] show ?thesis
  proof (elim disjE exE conjE)
    fix t assume "take n (log_image bs) = log_image bs @ t" "[] = t @ drop n (log_image bs)"
    then have "bs = bs @ []" "take n (log_image bs) = log_image bs @ []" "n = length (log_image bs)"
      using assms(2) by auto
    then show ?thesis using dead_tail_zeros [of crc 0]
      by (intro exI [of _ bs] exI [of _ "[]"] exI [of _ "[]"]) simp
  next
    fix bs1 b bs2 part q
    assume s: "bs = bs1 @ b # bs2" "take n (log_image bs) = log_image bs1 @ part" "encode_record_batch b = part @ q"
      "q \<noteq> []" "drop n (log_image bs) = q @ log_image bs2 @ []"
    have "dead_tail crc part" using dead_tail_part [OF _ s(3,4)] assms(1) s(1) by simp
    moreover have "n = length (log_image bs1) + length part"
      using arg_cong [OF s(2), of length] assms(2) by simp
    then have "n < length (log_image (bs1 @ [b]))" using s(3,4) by simp
    ultimately show ?thesis using s(1,2) by (intro exI [of _ bs1] exI [of _ "b # bs2"] exI [of _ part]) simp
  qed
qed

lemma open_active_cut:
  assumes p: "pair_holds crc bs p" and f: "active_survives p n act"
  shows "\<exists>kept lost. bs = kept @ lost \<and>
    (if lost = [] then n = length (log_image bs) else n < length (log_image (kept @ [hd lost]))) \<and>
    pair_holds crc kept (open_pair crc cfg False mapped act) \<and>
    sp_base_offset (open_pair crc cfg False mapped act) = sp_base_offset p \<and>
    sp_mmap (open_pair crc cfg False mapped act) = None \<and>
    lg_next_offset (sp_log (open_pair crc cfg False mapped act)) = log_end (sp_base_offset p) kept"
proof -
  obtain f reads z where a: "act = (sp_base_offset p, f)" "sf_log f = Some reads"
    "concat reads = take n (lg_file (sp_log p)) @ replicate z 0" "z = 0 \<or> n = lg_physical_size (sp_log p)"
    "n \<le> lg_physical_size (sp_log p)" "lg_physical_size (sp_log p) \<le> 2 ^ 32"
    using f by (auto simp: active_survives_def)
  have q: "lg_physical_size (sp_log p) = length (log_image bs)" "list_all (record_batch_ok crc) bs"
    using p by (simp_all add: pair_holds_def)
  then have n: "n \<le> length (log_image bs)" "take n (lg_file (sp_log p)) = take n (log_image bs)"
    using p a(5) by (auto simp: pair_holds_def)
  obtain kept lost part where k: "bs = kept @ lost" "take n (log_image bs) = log_image kept @ part" "dead_tail crc part"
    "if lost = [] then part = [] \<and> n = length (log_image bs) else n < length (log_image (kept @ [hd lost]))"
    using image_cut [OF q(2) n(1)] by blast
  have "z = 0 \<or> lost = []"
    using a(4) k(1,4) q(1) by (cases lost) auto
  then have "dead_tail crc (part @ replicate z 0)" using k(3,4) dead_tail_zeros by auto
  moreover have "concat reads = log_image kept @ part @ replicate z 0" using a(3) n(2) k(2) by simp
  moreover have "list_all (record_batch_ok crc) kept" "chained (sp_base_offset p) kept"
    "log_end (sp_base_offset p) kept < 2 ^ 64" "log_end (sp_base_offset p) kept < sp_base_offset p + 2 ^ 32"
    "length (log_image kept) \<le> 2 ^ 32"
    using p k(1) a(6) log_end_ge [of "log_end (sp_base_offset p) kept" lost] by (auto simp: pair_holds_def)
  ultimately have "pair_holds crc kept (open_pair crc cfg False mapped (sp_base_offset p, f))"
    "sp_base_offset (open_pair crc cfg False mapped (sp_base_offset p, f)) = sp_base_offset p"
    "sp_mmap (open_pair crc cfg False mapped (sp_base_offset p, f)) = None"
    "lg_next_offset (sp_log (open_pair crc cfg False mapped (sp_base_offset p, f))) = log_end (sp_base_offset p) kept"
    using open_active_holds [OF a(2), of kept "part @ replicate z 0" crc "sp_base_offset p" cfg mapped] by blast+
  then show ?thesis using k(1,4) a(1) by (intro exI [of _ kept] exI [of _ lost]) auto
qed

lemma linked_sorted: "linked segs e \<Longrightarrow> sorted (map fst segs) \<and> (\<forall>a\<in>set (map fst segs). a \<le> e)"
proof (induction segs)
  case (Cons s segs)
  obtain a bs where s: "s = (a, bs)" by (cases s)
  have l: "log_end a bs = chain_start segs e" "linked segs e" using Cons.prems s by (simp_all add: linked_Cons)
  have "a \<le> chain_start segs e" using log_end_ge [of a bs] l by simp
  then show ?case using Cons.IH [OF l(2)] linked_start_le [OF l(2)] s by fastforce
qed simp

lemma own_files_names:
  "set (own_files a ps) \<subseteq> set ps" "distinct (map sp_base_offset (own_files a ps) @ [a])"
  by (induction ps) auto

lemma own_files_distinct: "distinct (map sp_base_offset ps @ [a]) \<Longrightarrow> own_files a ps = ps"
  by (induction ps) auto

lemma dir_history_linked:
  assumes "files_linked m"
  shows "dir_history m = own_files (sp_base_offset (lm_active m)) (lm_historical m)"
    and "sp_base_offset (lm_active m) \<notin> set (lm_unlinked m)"
  using assms own_files_names(1) [of "sp_base_offset (lm_active m)" "lm_historical m"]
  by (auto simp: dir_history_def files_linked_def segment_names_def list_all_iff filter_id_conv)

lemma own_files_hold:
  "\<lbrakk>list_all2 (pair_holds crc) hs ps; linked (segs_of hs ps) a\<rbrakk> \<Longrightarrow>
   \<exists>hs'. list_all2 (pair_holds crc) hs' (own_files a ps) \<and> concat hs' = concat hs \<and>
     linked (segs_of hs' (own_files a ps)) a \<and>
     chain_start (segs_of hs' (own_files a ps)) a = chain_start (segs_of hs ps) a"
proof (induction hs ps rule: list_all2_induct)
  case (Cons h hs p ps)
  have l: "log_end (sp_base_offset p) h = chain_start (segs_of hs ps) a" "linked (segs_of hs ps) a"
    using Cons.prems by (simp_all add: linked_Cons)
  obtain hs' where IH: "list_all2 (pair_holds crc) hs' (own_files a ps)" "concat hs' = concat hs"
    "linked (segs_of hs' (own_files a ps)) a" "chain_start (segs_of hs' (own_files a ps)) a = chain_start (segs_of hs ps) a"
    using Cons.IH l(2) by blast
  show ?case
  proof (cases "sp_base_offset p = a \<or> sp_base_offset p \<in> set (map sp_base_offset ps)")
    case True
    have "chain_start (segs_of hs ps) a \<le> x" if "x = a \<or> x \<in> set (map sp_base_offset ps)" for x
      using that linked_sorted [OF l(2)] linked_start_le [OF l(2)] list_all2_lengthD [OF Cons.hyps(2)]
      by (cases ps; cases hs) auto
    then have "log_end (sp_base_offset p) h \<le> sp_base_offset p" using True l(1) by simp
    then have "h = []" "sp_base_offset p = chain_start (segs_of hs ps) a"
      using log_end_ge [of "sp_base_offset p" h] l(1) by (cases h; simp add: log_end_def)+
    then show ?thesis using True IH by auto
  next
    case False
    then show ?thesis using IH l Cons.hyps(1) by (intro exI [of _ "h # hs'"]) (simp add: linked_Cons)
  qed
qed simp

lemma open_histories_hold:
  "\<lbrakk>list_all2 (pair_holds crc) hs ps; list_all2 history_survives ps hist\<rbrakk> \<Longrightarrow>
   list_all2 (pair_holds crc) hs (map (open_pair crc cfg True mapped) hist) \<and>
      map sp_base_offset (map (open_pair crc cfg True mapped) hist) = map sp_base_offset ps"
proof (induction hs ps arbitrary: hist rule: list_all2_induct)
  case (Cons b bss q qs)
  obtain a rest where a: "hist = a # rest" "history_survives q a" "list_all2 history_survives qs rest"
    using Cons.prems by (cases hist) auto
  obtain g reads where g: "a = (sp_base_offset q, g)" "sf_index g = ix_content (sp_index q)" "sf_log g = Some reads"
    "lg_physical_size (sp_log q) \<le> 2 ^ 32" "concat reads = take (lg_physical_size (sp_log q)) (lg_file (sp_log q))"
    using a(2) by (auto simp: history_survives_def)
  have "concat reads = log_image b" "length (log_image b) \<le> 2 ^ 32"
    using g(4,5) Cons.hyps(1) by (auto simp: pair_holds_def)
  then show ?case using open_history_holds [OF Cons.hyps(1) g(3) _ g(2)] Cons.IH [OF a(3)] a(1) g(1) by simp
qed simp

lemma open_manager_recovers:
  assumes m: "manager_holds crc hs bs m" and linked: "files_linked m" and f: "crash_files m n files"
  shows "\<exists>hs' kept lost. bs = kept @ lost \<and> concat hs' = concat hs \<and>
    (if lost = [] then n = length (log_image bs) else n < length (log_image (kept @ [hd lost]))) \<and>
    manager_holds crc hs' kept (open_manager crc cfg mapped now files) \<and>
    log_start (open_manager crc cfg mapped now files) = log_start m \<and>
    sp_base_offset (lm_active (open_manager crc cfg mapped now files)) = sp_base_offset (lm_active m) \<and>
    names_intact (open_manager crc cfg mapped now files)"
proof -
  let ?act = "sp_base_offset (lm_active m)"
  let ?own = "own_files ?act (lm_historical m)"
  have p: "pair_holds crc bs (lm_active m)" using m by (simp add: manager_holds_def)
  obtain hs' where h: "list_all2 (pair_holds crc) hs' ?own" "concat hs' = concat hs"
    and l: "linked (segs_of hs' ?own) ?act" "chain_start (segs_of hs' ?own) ?act = log_start m"
    using own_files_hold [of crc hs "lm_historical m" ?act] m log_start_chain [OF m] by (auto simp: manager_holds_def)
  obtain hist act where fs: "mset files = mset (hist @ [act])"
    "list_all2 history_survives ?own hist" "active_survives (lm_active m) n act"
    using f dir_history_linked [OF linked] unfolding crash_files_def by auto
  have fst_hist: "map fst hist = map sp_base_offset ?own"
    using fs(2) by (induction rule: list_all2_induct) (auto simp: history_survives_def)
  have fst_act: "fst act = ?act" using fs(3) by (auto simp: active_survives_def)
  have d: "distinct (map fst (hist @ [act]))"
    using own_files_names(2) [of ?act "lm_historical m"] fst_hist fst_act by simp
  have "sorted (map fst (hist @ [act]))"
    using linked_sorted [OF l(1)] segs_chained(4) [OF h(1)] fst_hist fst_act by (simp add: sorted_append)
  moreover have "inj_on fst (set files)"
    using d mset_eq_setD [OF fs(1)] by (auto simp: distinct_map)
  ultimately have sorted_files: "sort_key fst files = hist @ [act]"
    using fs(1) by (intro sort_key_inj_key_eq)
  let ?m = "open_manager crc cfg mapped now files"
  have hm: "lm_historical ?m = map (open_pair crc cfg True mapped) hist" "lm_active ?m = open_pair crc cfg False mapped act"
    "lm_high_watermark ?m = lg_next_offset (sp_log (lm_active ?m))"
    using sorted_files by (simp_all add: open_manager_def Let_def)
  obtain kept lost where k: "bs = kept @ lost"
    "if lost = [] then n = length (log_image bs) else n < length (log_image (kept @ [hd lost]))"
    "pair_holds crc kept (lm_active ?m)" "sp_base_offset (lm_active ?m) = sp_base_offset (lm_active m)"
    "sp_mmap (lm_active ?m) = None" "lm_high_watermark ?m = log_end (sp_base_offset (lm_active m)) kept"
    using open_active_cut [OF p fs(3), of cfg mapped] hm(2,3) by auto
  note o = open_histories_hold [OF h(1) fs(2), of cfg mapped]
  have "lm_unlinked ?m = []" by (simp add: open_manager_def Let_def)
  then have "names_intact ?m"
    using o hm(1) k(4) d fst_hist fst_act by (simp add: names_intact_def files_linked_def segment_names_def list_all_iff)
  moreover have "manager_holds crc hs' kept ?m"
    using o hm k l(1) unfolding manager_holds_def by simp
  moreover from this have "log_start ?m = log_start m"
    using log_start_chain o hm(1) k(4) l(2) by simp
  ultimately show ?thesis using k h(2) by blast
qed

section \<open>The names of the segment files\<close>

text \<open>
  A segment is named by its base offset. As long as every batch fits a segment, an empty segment is
  never rotated, so that names stay distinct and no operation removes the files of a live
  segment. A larger batch rotates an empty segment too, to one of the same name.
\<close>

lemma segment_names_set_active [simp]:
  "segment_names (set_active_log l m) = segment_names m" "lm_unlinked (set_active_log l m) = lm_unlinked m"
  by (simp_all add: segment_names_def set_active_log_def)

lemma names_intact_cong:
  "\<lbrakk>segment_names m' = segment_names m; lm_unlinked m' = lm_unlinked m\<rbrakk> \<Longrightarrow> names_intact m' = names_intact m"
  by (simp add: names_intact_def files_linked_def)

lemma names_intact_shrink:
  assumes "names_intact m" "distinct (segment_names m')" "set (segment_names m') \<subseteq> set (segment_names m)"
    and "set (lm_unlinked m') \<inter> set (segment_names m') \<subseteq> set (lm_unlinked m)"
  shows "names_intact m'"
  using assms by (auto simp: names_intact_def files_linked_def list_all_iff)

lemma fresh_pair_base: "sp_base_offset (fresh_pair crc cfg base gone old) = base"
  by (simp add: fresh_pair_def Let_def split: prod.splits)

lemma rotate_names:
  assumes m: "manager_holds crc hs bs m" "bs \<noteq> []" and n: "names_intact m"
    and r: "rotate_segment crc io now m = (m', ok)"
  shows "names_intact m'"
proof (cases io)
  case (Rotates marked mapped)
  have new: "segment_names m' = segment_names m @ [lm_high_watermark m]"
    "lm_unlinked m' = removeAll (lm_high_watermark m) (lm_unlinked m)"
    using r Rotates by (auto simp: rotate_segment_def Let_def segment_names_def fresh_pair_base)
  have l: "linked (segs_of hs (lm_historical m)) (sp_base_offset (lm_active m))"
    "length hs = length (lm_historical m)"
    using m(1) by (auto simp: manager_holds_def dest: list_all2_lengthD)
  have "sp_base_offset (lm_active m) < lm_high_watermark m"
    using m log_end_ge [of "sp_base_offset (lm_active m)" bs] by (cases bs) (simp_all add: manager_holds_def log_end_def)
  then have "\<forall>a\<in>set (segment_names m). a < lm_high_watermark m"
    using linked_sorted [OF l(1)] l(2) by (auto simp: segment_names_def)
  then show ?thesis using n new by (auto simp: names_intact_def files_linked_def list_all_iff)
qed (use n r in \<open>auto simp: rotate_segment_def Let_def names_intact_def files_linked_def\<close>)

lemma index_batch_names:
  "segment_names (fst (index_batch io b ts pos m)) = segment_names m"
  "lm_unlinked (fst (index_batch io b ts pos m)) = lm_unlinked m"
  by (simp_all add: index_batch_def Let_def segment_names_def split: prod.splits)

lemma store_batch_names:
  assumes m: "manager_holds crc hs bs m" and n: "names_intact m"
    and fits: "encoded_size b \<le> cf_max_segment_bytes (lm_config m)"
  shows "names_intact (fst (store_batch crc io b hw m))"
proof -
  obtain m1 ok where r: "maybe_rotate_before_append crc (ap_rotate io) (ap_now io) (encoded_size b) m = (m1, ok)"
    by (cases "maybe_rotate_before_append crc (ap_rotate io) (ap_now io) (encoded_size b) m")
  have "lg_physical_size (sp_log (lm_active m)) = length (log_image bs)" using m by (simp add: manager_holds_def pair_holds_def)
  then have "names_intact m1"
    using r n fits rotate_names [OF m _ n, of "ap_rotate io" "ap_now io" m1 ok]
    by (cases bs) (auto simp: maybe_rotate_before_append_def should_roll_by_time_def split: if_splits option.splits)
  moreover have "segment_names (fst (store_batch crc io b hw m)) = segment_names m1"
    "lm_unlinked (fst (store_batch crc io b hw m)) = lm_unlinked m1"
    using r index_batch_names [of io b "rb_base_timestamp b"]
    by (auto simp: store_batch_def append_batch_to_active_def segment_names_def set_active_log_def case_prod_unfold
        split: option.splits)
  ultimately show ?thesis using names_intact_cong by blast
qed

lemma truncate_segment_pair_base: "sp_base_offset (fst (truncate_segment_pair crc io off p)) = sp_base_offset p"
  by (simp add: truncate_segment_pair_def Let_def case_prod_unfold split: option.splits)

lemma truncate_names:
  assumes n: "names_intact m" and t: "truncate_after crc io off m = (m', ok)"
  shows "names_intact m'"
proof -
  let ?kept = "filter (\<lambda>p. sp_base_offset p < off) (lm_historical m)"
  have d: "distinct (segment_names m)" using n by (simp add: names_intact_def)
  have k: "distinct (map sp_base_offset ?kept @ [sp_base_offset (lm_active m)])"
    using d by (auto simp: segment_names_def distinct_map_filter)
  have b: "map sp_base_offset (butlast ?kept) @ [sp_base_offset (last ?kept)] = map sp_base_offset ?kept" if "?kept \<noteq> []"
    using that by (metis append_butlast_last_id list.simps(8,9) map_append)
  consider "m' = m"
    | "segment_names m' = map sp_base_offset ?kept" "?kept \<noteq> []" "off < sp_base_offset (lm_active m)"
      "set (lm_unlinked m') = {sp_base_offset (lm_active m)} \<union>
        sp_base_offset ` {p \<in> set (lm_historical m). \<not> sp_base_offset p < off} \<union> set (lm_unlinked m)"
    | ps where "segment_names m' = map sp_base_offset ps @ [sp_base_offset (lm_active m)]"
      "ps = ?kept \<or> ?kept \<noteq> [] \<and> ps = butlast ?kept"
      "set (lm_unlinked m') = sp_base_offset ` {p \<in> set (lm_historical m). \<not> sp_base_offset p < off} \<union> set (lm_unlinked m)"
    using t b truncate_segment_pair_base [of crc io off "lm_active m"] truncate_segment_pair_base [of crc io off "last ?kept"]
    by (auto simp: truncate_after_def Let_def segment_names_def end_at_def set_active_log_def
        split: if_splits prod.splits option.splits)
  then show ?thesis
  proof cases
    case 2
    then show ?thesis using k d by (intro names_intact_shrink [OF n]) (auto simp: segment_names_def)
  next
    case 3
    have "set ps \<subseteq> set ?kept" "distinct (map sp_base_offset ps)"
      using 3(2) k by (auto simp: map_butlast distinct_butlast dest: in_set_butlastD)
    then show ?thesis using 3(1,3) k d by (intro names_intact_shrink [OF n]) (auto simp: segment_names_def)
  qed (use n in simp)
qed

lemma trim_list_suffix: "trim_list off a ps = (ps', n) \<Longrightarrow> n \<le> length ps \<and> ps' = drop n ps"
  by (induction ps arbitrary: ps' n) (auto simp: Let_def split: if_splits prod.splits)

lemma trim_names:
  assumes n: "names_intact m" and t: "trim_before off m = (m', k)"
  shows "names_intact m'"
proof -
  have m': "m' = unlink_files (take k (lm_historical m)) (m\<lparr>lm_historical := drop k (lm_historical m)\<rparr>)"
    using t trim_list_suffix by (auto simp: trim_before_def split: prod.splits)
  have "distinct (map sp_base_offset (take k (lm_historical m)) @ map sp_base_offset (drop k (lm_historical m)) @
      [sp_base_offset (lm_active m)])"
    using n by (simp add: names_intact_def segment_names_def flip: map_append append_assoc)
  then show ?thesis
    by (intro names_intact_shrink [OF n])
      (auto simp: m' segment_names_def dest: in_set_dropD)
qed

lemma trim_list_all: "\<lbrakk>\<forall>p\<in>set ps. sp_base_offset p \<le> off; a \<le> off\<rbrakk> \<Longrightarrow> trim_list off a ps = ([], length ps)"
  by (induction ps) (auto simp: Let_def split: list.splits)

text \<open>
  A batch larger than a segment that comes while the active segment is empty: the segment is
  rotated to one of the same name, and the next trim up to there removes the file the batch was
  written to.
\<close>

lemma oversized_batch_loses_files:
  assumes m: "manager_holds crc hs [] m" and r: "ap_rotate io = Rotates marked mapped"
    and large: "cf_max_segment_bytes (lm_config m) < encoded_size b" and off: "lm_high_watermark m \<le> off"
  shows "\<not> files_linked (fst (trim_before off (fst (store_batch crc io b hw m))))"
proof -
  let ?m = "fst (store_batch crc io b hw m)"
  have act: "sp_base_offset (lm_active m) = lm_high_watermark m" using m by (simp add: manager_holds_def)
  have "segment_names ?m = segment_names m @ [lm_high_watermark m]"
    using r large index_batch_names(1) [of io b "rb_base_timestamp b"]
    by (auto simp: store_batch_def maybe_rotate_before_append_def rotate_segment_def Let_def append_batch_to_active_def
        segment_names_def set_active_log_def fresh_pair_base case_prod_unfold split: option.splits)
  then have n: "map sp_base_offset (lm_historical ?m) = segment_names m" "sp_base_offset (lm_active ?m) = lm_high_watermark m"
    by (simp_all add: segment_names_def)
  have "linked (segs_of hs (lm_historical m)) (sp_base_offset (lm_active m))" "length hs = length (lm_historical m)"
    using m by (auto simp: manager_holds_def dest: list_all2_lengthD)
  then have "\<forall>a\<in>set (segment_names m). a \<le> off"
    using linked_sorted act off by (fastforce simp: segment_names_def)
  then have "\<forall>p\<in>set (lm_historical ?m). sp_base_offset p \<le> off" using n(1) by (metis image_eqI list.set_map)
  then have "trim_before off ?m = (unlink_files (lm_historical ?m) (?m\<lparr>lm_historical := []\<rparr>), length (lm_historical ?m))"
    using n(2) off by (simp add: trim_before_def trim_list_all)
  then show ?thesis using n act by (simp add: files_linked_def segment_names_def list_all_iff)
qed

end
