(* ===== verification/Partition_Log.thy ===== *)
theory Partition_Log
  imports Log_Recovery
begin

text \<open>
  One partition of a topic (\<^verbatim>\<open>src/server/partition.rs\<close>): the log, the log end and the committed
  high watermark with its checkpoint file, and the state of the idempotent producers with its
  snapshot file. The locks of a partition make every operation one step. The iteration order
  of the hash map of producers is the order of the list that models it.
\<close>

section \<open>Idempotent producers\<close>

record ProducerStateEntry =
  ps_epoch :: int
  ps_last_sequence :: int
  ps_last_offset :: offset

record ProducerStateManager =
  ps_states :: "(nat \<times> ProducerStateEntry) list"
  ps_snapshot :: "bytes option"

definition wrap32 :: "int \<Rightarrow> int" where
  "wrap32 x = (x + 2 ^ 31) mod 2 ^ 32 - 2 ^ 31"

definition encode_producer :: "nat \<times> ProducerStateEntry \<Rightarrow> bytes" where
  "encode_producer = (\<lambda>(pid, st). be_bytes 8 pid @ put_signed 2 (ps_epoch st)
     @ put_signed 4 (ps_last_sequence st) @ be_bytes 8 (ps_last_offset st))"

definition decode_producer :: "bytes \<Rightarrow> nat \<times> ProducerStateEntry" where
  "decode_producer buf =
     (be_val (take 8 buf),
      \<lparr>ps_epoch = signed_of 2 (be_val (take 2 (drop 8 buf))),
       ps_last_sequence = signed_of 4 (be_val (take 4 (drop 10 buf))),
       ps_last_offset = be_val (take 8 (drop 14 buf))\<rparr>)"

definition open_producers :: "bytes option \<Rightarrow> ProducerStateManager" where
  "open_producers snap =
     \<lparr>ps_states = (case snap of
        None \<Rightarrow> []
      | Some content \<Rightarrow> fold (\<lambda>(pid, st). AList.update pid st) (map decode_producer (as_chunks 22 content)) []),
      ps_snapshot = snap\<rparr>"

text \<open>The error tells whether the batch is a duplicate, and the offset it had.\<close>

definition validate_sequence :: "ProducerStateManager \<Rightarrow> nat \<Rightarrow> int \<Rightarrow> int \<Rightarrow> (bool \<times> offset) + unit" where
  "validate_sequence psm producer_id epoch base_sequence =
     (case map_of (ps_states psm) producer_id of
        None \<Rightarrow> Inr ()
      | Some e \<Rightarrow>
          if epoch < ps_epoch e then Inl (False, 0)
          else if epoch = ps_epoch e
          then (if base_sequence \<le> ps_last_sequence e then Inl (True, ps_last_offset e)
                else if wrap32 (ps_last_sequence e + 1) < base_sequence then Inl (False, 0)
                else Inr ())
          else Inr ())"

definition update_producer :: "nat \<Rightarrow> int \<Rightarrow> int \<Rightarrow> offset \<Rightarrow> ProducerStateManager \<Rightarrow> ProducerStateManager" where
  "update_producer producer_id epoch last_sequence lst psm =
     psm\<lparr>ps_states := AList.update producer_id
       \<lparr>ps_epoch = epoch, ps_last_sequence = last_sequence, ps_last_offset = lst\<rparr> (ps_states psm)\<rparr>"

text \<open>The old file is removed before the new one is renamed into its place.\<close>

datatype snapshot_io = TemporaryFails | RemoveFails | RenameFails | SnapshotDone

definition take_snapshot :: "snapshot_io \<Rightarrow> ProducerStateManager \<Rightarrow> ProducerStateManager \<times> bool" where
  "take_snapshot io psm =
     (case io of
        TemporaryFails \<Rightarrow> (psm, False)
      | RemoveFails \<Rightarrow> (psm, False)
      | RenameFails \<Rightarrow> (psm\<lparr>ps_snapshot := None\<rparr>, False)
      | SnapshotDone \<Rightarrow> (psm\<lparr>ps_snapshot := Some (concat (map encode_producer (ps_states psm)))\<rparr>, True))"

section \<open>The partition\<close>

datatype FlushPolicy = SyncEveryBatch | AsyncPeriodic duration nat | UnbufferedSync

record PartitionManager =
  pm_segments :: SegmentManager
  pm_log_end_offset :: offset
  pm_committed_hw :: offset
  pm_checkpoint :: "bytes option"
  pm_unsynced_bytes :: nat
  pm_producers :: ProducerStateManager
  pm_leader_id :: nat
  pm_leader_epoch :: nat
  pm_replicas :: "nat list"
  pm_isr :: "nat list"
  pm_compression_codec :: CompressionCodec
  pm_flush_policy :: FlushPolicy

text \<open>\<open>durable::replace\<close>: nothing changes, the file is replaced but the call fails, or it succeeds.\<close>

datatype replace_io = NotReplaced | ReplacedUnsynced | Replaced

datatype open_error = InvalidCheckpoint | CheckpointExceedsLog | LegacyLog | CheckpointWriteFails

definition open_partition ::
  "(bytes \<Rightarrow> nat) \<Rightarrow> SegmentConfig \<Rightarrow> nat \<Rightarrow> CompressionCodec \<Rightarrow> FlushPolicy \<Rightarrow> bool \<Rightarrow> nat
    \<Rightarrow> replace_io \<Rightarrow> (offset \<times> segment_files) list \<Rightarrow> bytes option \<Rightarrow> bytes option \<Rightarrow> open_error + PartitionManager" where
  "open_partition crc cfg node_id codec policy mapped now io files checkpoint snap =
     (let segs = open_manager crc cfg mapped now files;
          recovered_offset = lm_high_watermark segs;
          pm = (\<lambda>committed ck.
            \<lparr>pm_segments = segs, pm_log_end_offset = recovered_offset, pm_committed_hw = committed,
             pm_checkpoint = Some ck, pm_unsynced_bytes = 0, pm_producers = open_producers snap,
             pm_leader_id = node_id, pm_leader_epoch = 0, pm_replicas = [node_id], pm_isr = [node_id],
             pm_compression_codec = codec, pm_flush_policy = policy\<rparr>)
      in case checkpoint of
           Some ck \<Rightarrow>
             if length ck \<noteq> 8 then Inl InvalidCheckpoint
             else if recovered_offset < be_val ck then Inl CheckpointExceedsLog
             else Inr (pm (be_val ck) ck)
         | None \<Rightarrow>
             if 0 < recovered_offset then Inl LegacyLog
             else (case io of Replaced \<Rightarrow> Inr (pm 0 (be_bytes 8 0)) | _ \<Rightarrow> Inl CheckpointWriteFails))"

definition is_leader :: "nat \<Rightarrow> PartitionManager \<Rightarrow> bool" where
  "is_leader self_node_id pm \<longleftrightarrow> pm_leader_id pm = self_node_id"

definition update_leadership :: "nat \<Rightarrow> nat \<Rightarrow> nat list \<Rightarrow> nat list \<Rightarrow> PartitionManager \<Rightarrow> PartitionManager" where
  "update_leadership leader_id leader_epoch replicas isr pm =
     pm\<lparr>pm_leader_id := leader_id, pm_leader_epoch := leader_epoch, pm_replicas := replicas, pm_isr := isr\<rparr>"

definition advance_committed_hw ::
  "bool \<Rightarrow> replace_io \<Rightarrow> offset \<Rightarrow> PartitionManager \<Rightarrow> PartitionManager \<times> bool" where
  "advance_committed_hw synced io candidate0 pm =
     (let candidate = min candidate0 (pm_log_end_offset pm) in
      if candidate \<le> pm_committed_hw pm then (pm, True)
      else if \<not> synced then (pm, False)
      else case io of
        NotReplaced \<Rightarrow> (pm, False)
      | ReplacedUnsynced \<Rightarrow> (pm\<lparr>pm_checkpoint := Some (be_bytes 8 candidate)\<rparr>, False)
      | Replaced \<Rightarrow>
          (pm\<lparr>pm_checkpoint := Some (be_bytes 8 candidate), pm_committed_hw := candidate\<rparr>, True))"

subsection \<open>Producing\<close>

record produce_io =
  pi_append :: append_io
  pi_snapshot :: snapshot_io
  pi_synced :: bool

datatype produce_result = ProduceFailed | OutOfOrderSequence | DuplicateOf offset | Produced RecordBatch

definition check_sequence :: "nat \<Rightarrow> int \<Rightarrow> int \<Rightarrow> PartitionManager \<Rightarrow> produce_result option" where
  "check_sequence producer_id epoch sequence pm =
     (if producer_id = 0 then None
      else case validate_sequence (pm_producers pm) producer_id epoch sequence of
        Inr _ \<Rightarrow> None
      | Inl (is_duplicate, lst) \<Rightarrow> Some (if is_duplicate then DuplicateOf lst else OutOfOrderSequence))"

text \<open>The group commit: enough bytes since the last sync force one. \<open>False\<close> is its failure.\<close>

definition account_unsynced :: "bool \<Rightarrow> nat \<Rightarrow> PartitionManager \<Rightarrow> PartitionManager \<times> bool" where
  "account_unsynced synced n_bytes pm =
     (let prev_unsynced = pm_unsynced_bytes pm;
          pm1 = pm\<lparr>pm_unsynced_bytes := add64 prev_unsynced n_bytes\<rparr>
      in case pm_flush_policy pm of
           AsyncPeriodic _ max_bytes \<Rightarrow>
             if 0 < max_bytes \<and> max_bytes \<le> prev_unsynced + n_bytes
             then (if synced then (pm1\<lparr>pm_unsynced_bytes := 0\<rparr>, True) else (pm1, False))
             else (pm1, True)
         | _ \<Rightarrow> (pm1, True))"

text \<open>What both ways of producing do once the log has taken the batch.\<close>

definition after_append ::
  "produce_io \<Rightarrow> nat \<Rightarrow> int \<Rightarrow> int \<Rightarrow> RecordBatch \<Rightarrow> SegmentManager \<Rightarrow> PartitionManager \<Rightarrow> PartitionManager \<times> produce_result" where
  "after_append io producer_id epoch last_sequence b segs pm =
     (let rolled = sp_base_offset (lm_active (pm_segments pm)) \<noteq> sp_base_offset (lm_active segs);
          lst = batch_last_offset b;
          psm1 = (if producer_id \<noteq> 0 then update_producer producer_id epoch last_sequence lst (pm_producers pm)
                  else pm_producers pm);
          psm2 = (if rolled then fst (take_snapshot (pi_snapshot io) psm1) else psm1);
          pm1 = pm\<lparr>pm_segments := segs, pm_log_end_offset := add64 lst 1, pm_producers := psm2\<rparr>
      in case account_unsynced (pi_synced io) (encoded_size b) pm1 of
           (pm2, ok) \<Rightarrow> (pm2, if ok then Produced b else ProduceFailed))"

definition produce_batch_eos ::
  "(bytes \<Rightarrow> nat) \<Rightarrow> produce_io \<Rightarrow> RecordBatch \<Rightarrow> PartitionManager \<Rightarrow> PartitionManager \<times> produce_result" where
  "produce_batch_eos crc io batch pm =
     (case check_sequence (rb_producer_id batch) (rb_producer_epoch batch) (rb_base_sequence batch) pm of
        Some r \<Rightarrow> (pm, r)
      | None \<Rightarrow>
          (case append_batch crc (pi_append io) batch (pm_leader_epoch pm) (pm_segments pm) of
             (segs, None) \<Rightarrow> (pm\<lparr>pm_segments := segs\<rparr>, ProduceFailed)
           | (segs, Some b) \<Rightarrow>
               after_append io (rb_producer_id batch) (rb_producer_epoch b)
                 (wrap32 (rb_base_sequence b + (wrap32 (int (rb_record_count b)) - 1))) b segs pm))"

definition produce_frame_eos ::
  "(bytes \<Rightarrow> nat) \<Rightarrow> codecs \<Rightarrow> produce_io \<Rightarrow> nat \<Rightarrow> bytes \<Rightarrow> nat \<Rightarrow> int \<Rightarrow> int \<Rightarrow> PartitionManager
    \<Rightarrow> PartitionManager \<times> produce_result" where
  "produce_frame_eos crc cs io now_ms payload producer_id epoch sequence pm =
     (case check_sequence producer_id epoch sequence pm of
        Some r \<Rightarrow> (pm, r)
      | None \<Rightarrow>
          (case append_record crc cs (pi_append io) payload now_ms (pm_compression_codec pm) (pm_segments pm) of
             (segs, None) \<Rightarrow> (pm\<lparr>pm_segments := segs\<rparr>, ProduceFailed)
           | (segs, Some b) \<Rightarrow> after_append io producer_id epoch sequence b segs pm))"

definition flush_durable :: "bool \<Rightarrow> PartitionManager \<Rightarrow> PartitionManager \<times> bool" where
  "flush_durable synced pm = (if synced then (pm\<lparr>pm_unsynced_bytes := 0\<rparr>, True) else (pm, False))"

definition flush_if_sync_policy :: "bool \<Rightarrow> PartitionManager \<Rightarrow> PartitionManager \<times> bool" where
  "flush_if_sync_policy synced pm =
     (case pm_flush_policy pm of
        AsyncPeriodic _ _ \<Rightarrow> (pm, True)
      | _ \<Rightarrow> if synced then (pm\<lparr>pm_unsynced_bytes := 0\<rparr>, True) else (pm, False))"

definition flush_partition :: "bool \<Rightarrow> snapshot_io \<Rightarrow> PartitionManager \<Rightarrow> PartitionManager \<times> bool" where
  "flush_partition synced io pm =
     (if \<not> synced then (pm, False)
      else (pm\<lparr>pm_unsynced_bytes := 0, pm_producers := fst (take_snapshot io (pm_producers pm))\<rparr>, True))"

text \<open>A record the broker writes itself; \<open>None\<close> is an error.\<close>

definition produce_frame ::
  "(bytes \<Rightarrow> nat) \<Rightarrow> codecs \<Rightarrow> produce_io \<Rightarrow> bool \<Rightarrow> replace_io \<Rightarrow> bool \<Rightarrow> nat \<Rightarrow> bytes \<Rightarrow> PartitionManager
    \<Rightarrow> PartitionManager \<times> RecordBatch option" where
  "produce_frame crc cs io synced rio flushed now_ms payload pm =
     (case produce_frame_eos crc cs io now_ms payload 0 0 0 pm of
        (pm1, Produced b) \<Rightarrow>
          (case advance_committed_hw synced rio (add64 (rb_base_offset b) 1) pm1 of
             (pm2, False) \<Rightarrow> (pm2, None)
           | (pm2, True) \<Rightarrow>
               (case flush_if_sync_policy flushed pm2 of (pm3, ok) \<Rightarrow> (pm3, if ok then Some b else None)))
      | (pm1, _) \<Rightarrow> (pm1, None))"

definition produce_control_marker_uncommitted ::
  "(bytes \<Rightarrow> nat) \<Rightarrow> codecs \<Rightarrow> append_io \<Rightarrow> nat \<Rightarrow> nat \<Rightarrow> nat \<Rightarrow> string \<Rightarrow> PartitionManager
    \<Rightarrow> (PartitionManager \<times> RecordBatch option) option" where
  "produce_control_marker_uncommitted crc cs io now_ms control_type producer_id transaction_id pm =
     (case append_control_marker crc cs io control_type producer_id transaction_id now_ms (pm_segments pm) of
        None \<Rightarrow> None
      | Some (segs, None) \<Rightarrow> Some (pm\<lparr>pm_segments := segs\<rparr>, None)
      | Some (segs, Some b) \<Rightarrow>
          Some (pm\<lparr>pm_segments := segs, pm_log_end_offset := add64 (rb_base_offset b) 1\<rparr>, Some b))"

definition produce_control_marker ::
  "(bytes \<Rightarrow> nat) \<Rightarrow> codecs \<Rightarrow> append_io \<Rightarrow> bool \<Rightarrow> replace_io \<Rightarrow> nat \<Rightarrow> nat \<Rightarrow> nat \<Rightarrow> string \<Rightarrow> PartitionManager
    \<Rightarrow> (PartitionManager \<times> RecordBatch option) option" where
  "produce_control_marker crc cs io synced rio now_ms control_type producer_id transaction_id pm =
     (case produce_control_marker_uncommitted crc cs io now_ms control_type producer_id transaction_id pm of
        None \<Rightarrow> None
      | Some (pm1, None) \<Rightarrow> Some (pm1, None)
      | Some (pm1, Some b) \<Rightarrow>
          (case advance_committed_hw synced rio (add64 (rb_base_offset b) 1) pm1 of
             (pm2, ok) \<Rightarrow> Some (pm2, if ok then Some b else None)))"

subsection \<open>Replicating\<close>

text \<open>
  The entries a leader sent, appended as they are. \<open>ios\<close> gives what happens to the \<open>k\<close>-th of
  them. \<open>None\<close> is an error of the file system.
\<close>

function replicate_loop ::
  "(bytes \<Rightarrow> nat) \<Rightarrow> (nat \<Rightarrow> append_io) \<Rightarrow> nat \<Rightarrow> bytes \<Rightarrow> nat \<Rightarrow> VerbatimAppendResult \<Rightarrow> PartitionManager
    \<Rightarrow> PartitionManager \<times> (nat \<times> VerbatimAppendResult) option" where
  "replicate_loop crc ios k entries appended lst pm =
     (if entries = [] then (pm, Some (appended, lst))
      else case decode_entry crc entries of
        Inl _ \<Rightarrow> (pm, Some (appended, lst))
      | Inr (Batch b, consumed) \<Rightarrow>
          (case append_batch_verbatim crc (ios k) b (pm_segments pm) of
             (segs, None) \<Rightarrow> (pm\<lparr>pm_segments := segs\<rparr>, None)
           | (segs, Some Appended) \<Rightarrow>
               replicate_loop crc ios (Suc k) (drop consumed entries) (Suc appended) Appended
                 (pm\<lparr>pm_segments := segs, pm_log_end_offset := add64 (batch_last_offset b) 1,
                    pm_unsynced_bytes := add64 (pm_unsynced_bytes pm) consumed\<rparr>)
           | (segs, Some AlreadyApplied) \<Rightarrow>
               replicate_loop crc ios (Suc k) (drop consumed entries) appended AlreadyApplied
                 (pm\<lparr>pm_segments := segs\<rparr>)
           | (segs, Some (Gap expected)) \<Rightarrow> (pm\<lparr>pm_segments := segs\<rparr>, Some (appended, Gap expected))))"
  by pat_completeness auto
termination
  by (relation "measure (\<lambda>(crc, ios, k, entries, appended, lst, pm). length entries)")
    (auto dest!: decode_entry_consumes)

declare replicate_loop.simps [simp del]

definition append_replica_entries_verbatim ::
  "(bytes \<Rightarrow> nat) \<Rightarrow> (nat \<Rightarrow> append_io) \<Rightarrow> bytes \<Rightarrow> PartitionManager
    \<Rightarrow> PartitionManager \<times> (nat \<times> VerbatimAppendResult) option" where
  "append_replica_entries_verbatim crc ios entries pm = replicate_loop crc ios 0 entries 0 AlreadyApplied pm"

definition append_replica_entry_verbatim ::
  "(bytes \<Rightarrow> nat) \<Rightarrow> append_io \<Rightarrow> bool \<Rightarrow> RecordBatch \<Rightarrow> PartitionManager
    \<Rightarrow> PartitionManager \<times> VerbatimAppendResult option" where
  "append_replica_entry_verbatim crc io synced b pm =
     (case append_batch_verbatim crc io b (pm_segments pm) of
        (segs, None) \<Rightarrow> (pm\<lparr>pm_segments := segs\<rparr>, None)
      | (segs, Some r) \<Rightarrow>
          if r = Appended
          then (case account_unsynced synced (encoded_size b)
                  (pm\<lparr>pm_segments := segs, pm_log_end_offset := add64 (batch_last_offset b) 1\<rparr>) of
                  (pm1, ok) \<Rightarrow> (pm1, if ok then Some r else None))
          else (pm\<lparr>pm_segments := segs\<rparr>, Some r))"

definition truncate_partition ::
  "(bytes \<Rightarrow> nat) \<Rightarrow> trunc_io \<Rightarrow> offset \<Rightarrow> PartitionManager \<Rightarrow> PartitionManager \<times> bool" where
  "truncate_partition crc io off pm =
     (case truncate_after crc io off (pm_segments pm) of
        (segs, False) \<Rightarrow> (pm\<lparr>pm_segments := segs\<rparr>, False)
      | (segs, True) \<Rightarrow>
          (let effective_offset = lm_high_watermark segs in
           (pm\<lparr>pm_segments := segs, pm_log_end_offset := effective_offset,
              pm_committed_hw := min (pm_committed_hw pm) effective_offset\<rparr>, True)))"

definition trim_partition :: "offset \<Rightarrow> PartitionManager \<Rightarrow> PartitionManager \<times> nat" where
  "trim_partition off pm = (case trim_before off (pm_segments pm) of (segs, n) \<Rightarrow> (pm\<lparr>pm_segments := segs\<rparr>, n))"

subsection \<open>Reading\<close>

definition fetch_committed_entries :: "offset \<Rightarrow> nat \<Rightarrow> PartitionManager \<Rightarrow> bytes" where
  "fetch_committed_entries from_offset max_bytes pm =
     fetch_entries from_offset max_bytes (pm_committed_hw pm) (pm_segments pm)"

definition fetch_entries_for_replication :: "offset \<Rightarrow> nat \<Rightarrow> PartitionManager \<Rightarrow> bytes" where
  "fetch_entries_for_replication from_offset max_bytes pm =
     fetch_entries from_offset max_bytes (pm_log_end_offset pm) (pm_segments pm)"

definition fetch_committed_by_timestamp :: "nat \<Rightarrow> nat \<Rightarrow> PartitionManager \<Rightarrow> bytes" where
  "fetch_committed_by_timestamp target max_bytes pm =
     fetch_entries_by_timestamp target max_bytes (pm_committed_hw pm) (pm_segments pm)"


section \<open>The invariant of a partition\<close>

definition partition_sound :: "(bytes \<Rightarrow> nat) \<Rightarrow> PartitionManager \<Rightarrow> bool" where
  "partition_sound crc pm \<longleftrightarrow>
     manager_ok crc (pm_segments pm) \<and> pm_log_end_offset pm = lm_high_watermark (pm_segments pm) \<and>
     pm_committed_hw pm \<le> pm_log_end_offset pm"

abbreviation partition_batches :: "(bytes \<Rightarrow> nat) \<Rightarrow> PartitionManager \<Rightarrow> RecordBatch list" where
  "partition_batches crc pm \<equiv> log_batches crc (pm_segments pm)"

lemma manager_ok_chained:
  assumes "manager_ok crc m"
  shows "chained (log_start m) (log_batches crc m)" and "log_end (log_start m) (log_batches crc m) = lm_high_watermark m"
    and "list_all (record_batch_ok crc) (log_batches crc m)" and "lm_high_watermark m < 2 ^ 64"
  using assms manager_chained log_batches_holds unfolding manager_ok_def by metis+

lemma account_unsynced_sel [simp]:
  "pm_segments (fst (account_unsynced synced n pm)) = pm_segments pm"
  "pm_log_end_offset (fst (account_unsynced synced n pm)) = pm_log_end_offset pm"
  "pm_committed_hw (fst (account_unsynced synced n pm)) = pm_committed_hw pm"
  "pm_producers (fst (account_unsynced synced n pm)) = pm_producers pm"
  "pm_leader_epoch (fst (account_unsynced synced n pm)) = pm_leader_epoch pm"
  "pm_checkpoint (fst (account_unsynced synced n pm)) = pm_checkpoint pm"
  by (simp_all add: account_unsynced_def Let_def split: FlushPolicy.splits)

lemma after_append_sel [simp]:
  "pm_segments (fst (after_append io pid ep sq b segs pm)) = segs"
  "pm_log_end_offset (fst (after_append io pid ep sq b segs pm)) = add64 (batch_last_offset b) 1"
  "pm_committed_hw (fst (after_append io pid ep sq b segs pm)) = pm_committed_hw pm"
  "pm_leader_epoch (fst (after_append io pid ep sq b segs pm)) = pm_leader_epoch pm"
  "pm_checkpoint (fst (after_append io pid ep sq b segs pm)) = pm_checkpoint pm"
  by (simp_all add: after_append_def Let_def case_prod_unfold)

lemma advance_committed_hw_ok:
  assumes "partition_sound crc pm" "advance_committed_hw synced io candidate pm = (pm', ok)"
  shows "partition_sound crc pm' \<and> pm_committed_hw pm \<le> pm_committed_hw pm' \<and> pm_segments pm' = pm_segments pm \<and>
    (ok \<longrightarrow> min candidate (pm_log_end_offset pm) \<le> pm_committed_hw pm')"
  using assms
  by (auto simp: advance_committed_hw_def partition_sound_def Let_def split: if_splits replace_io.splits)

lemma produce_batch_eos_ok:
  assumes crc: "\<And>x. crc x < 4294967296" and pm: "partition_sound crc pm" and b: "record_batch_ok crc batch"
    and le: "pm_leader_epoch pm < 4294967296" and room: "append_room (pi_append io) batch (pm_segments pm)"
    and p: "produce_batch_eos crc io batch pm = (pm', r)"
  shows "partition_sound crc pm' \<and> pm_committed_hw pm' = pm_committed_hw pm \<and>
    (\<exists>xs. partition_batches crc pm' = partition_batches crc pm @ xs \<and>
      (case r of Produced b \<Rightarrow> xs = [b] \<and> rb_base_offset b = pm_log_end_offset pm
       | ProduceFailed \<Rightarrow> length xs \<le> 1 | _ \<Rightarrow> pm' = pm))"
proof (cases "check_sequence (rb_producer_id batch) (rb_producer_epoch batch) (rb_base_sequence batch) pm")
  case (Some r')
  then have "pm' = pm \<and> r = r' \<and> (\<forall>x. r' \<noteq> Produced x)"
    using p by (auto simp: produce_batch_eos_def check_sequence_def split: if_splits sum.splits)
  then show ?thesis using pm by (intro conjI exI [of _ "[]"]) (auto split: produce_result.splits)
next
  case None
  obtain segs a where a: "append_batch crc (pi_append io) batch (pm_leader_epoch pm) (pm_segments pm) = (segs, a)"
    by (cases "append_batch crc (pi_append io) batch (pm_leader_epoch pm) (pm_segments pm)")
  have m: "manager_ok crc (pm_segments pm)" using pm by (simp add: partition_sound_def)
  note ref = append_batch_refines [OF crc m b le room a]
  show ?thesis
  proof (cases a)
    case None': None
    then have "pm' = pm\<lparr>pm_segments := segs\<rparr>" "r = ProduceFailed"
      using p None a by (simp_all add: produce_batch_eos_def)
    then show ?thesis using ref None' pm by (auto simp: partition_sound_def)
  next
    case (Some b')
    have b': "b' = assign_base_offset_and_leader_epoch crc (lm_high_watermark (pm_segments pm)) (pm_leader_epoch pm) batch"
      and log: "log_batches crc segs = partition_batches crc pm @ [b']" "manager_ok crc segs"
        "lm_high_watermark segs = lm_high_watermark (pm_segments pm) + rb_last_offset_delta batch + 1"
      using ref Some by simp_all
    obtain sq where af: "after_append io (rb_producer_id batch) (rb_producer_epoch b') sq b' segs pm = (pm', r)"
      using p None a Some by (auto simp: produce_batch_eos_def)
    have pm': "pm' = fst (after_append io (rb_producer_id batch) (rb_producer_epoch b') sq b' segs pm)"
      by (simp add: af)
    have r: "r = Produced b' \<or> r = ProduceFailed"
      using af by (auto simp: after_append_def Let_def split: prod.splits if_splits)
    have "add64 (batch_last_offset b') 1 = lm_high_watermark segs"
      using room log(3) by (subst batch_end_exact) (simp_all add: b' append_room_def)
    then show ?thesis using log r pm
      by (intro conjI exI [of _ "[b']"]) (auto simp: pm' partition_sound_def b' split: produce_result.splits)
  qed
qed


subsection \<open>Retries of an idempotent producer\<close>

lemma wrap32_id: "\<lbrakk>- (2 ^ 31) \<le> x; x < 2 ^ 31\<rbrakk> \<Longrightarrow> wrap32 x = x"
  by (simp add: wrap32_def)

lemma snapshot_states [simp]: "ps_states (fst (take_snapshot io psm)) = ps_states psm"
  by (simp add: take_snapshot_def split: snapshot_io.splits)

lemma after_append_states:
  assumes "pid \<noteq> 0"
  shows "map_of (ps_states (pm_producers (fst (after_append io pid ep sq b segs pm)))) pid =
    Some \<lparr>ps_epoch = ep, ps_last_sequence = sq, ps_last_offset = batch_last_offset b\<rparr>"
  using assms by (simp add: after_append_def Let_def case_prod_unfold update_producer_def AList.update_conv')

lemma produced_sequence:
  assumes "produce_batch_eos crc io batch pm = (pm', Produced b)"
  shows "\<exists>segs. pm' = fst (after_append io (rb_producer_id batch) (rb_producer_epoch batch)
      (wrap32 (rb_base_sequence batch + (wrap32 (int (rb_record_count batch)) - 1))) b segs pm)"
proof -
  obtain segs a where a: "append_batch crc (pi_append io) batch (pm_leader_epoch pm) (pm_segments pm) = (segs, a)"
    by (cases "append_batch crc (pi_append io) batch (pm_leader_epoch pm) (pm_segments pm)")
  obtain b' where b': "a = Some b'"
    and af: "after_append io (rb_producer_id batch) (rb_producer_epoch b')
      (wrap32 (rb_base_sequence b' + (wrap32 (int (rb_record_count b')) - 1))) b' segs pm = (pm', Produced b)"
    using assms a
    by (cases a; cases "check_sequence (rb_producer_id batch) (rb_producer_epoch batch) (rb_base_sequence batch) pm")
      (auto simp: produce_batch_eos_def check_sequence_def split: if_splits sum.splits)
  have e: "b' = b" using af by (auto simp: after_append_def Let_def split: prod.splits if_splits)
  have "rb_producer_epoch b' = rb_producer_epoch batch" "rb_base_sequence b' = rb_base_sequence batch"
    "rb_record_count b' = rb_record_count batch"
    using a b' by (auto simp: append_batch_def Let_def assign_base_offset_and_leader_epoch_def seal_def
        split: prod.splits if_splits)
  then show ?thesis using af e by (metis fst_conv)
qed

section \<open>Replication\<close>

lemma split_unique:
  assumes "sk @ inc @ zs = xs @ ys" "inc \<noteq> []" "\<forall>x\<in>set xs. P x" "\<forall>y\<in>set ys. \<not> P y"
    "\<forall>x\<in>set sk. P x" "\<forall>y\<in>set inc. \<not> P y"
  shows "sk = xs \<and> inc @ zs = ys"
proof -
  have "takeWhile P (xs @ ys) = xs" using assms(3,4) by (cases ys) simp_all
  moreover have "takeWhile P (sk @ inc @ zs) = sk" using assms(2,5,6) by (cases inc) simp_all
  ultimately show ?thesis using assms(1) by simp
qed

lemma replicate_loop_image:
  assumes "partition_sound crc pm" "chained (pm_log_end_offset pm) inc" "list_all (record_batch_ok crc) inc"
    and "log_end (pm_log_end_offset pm) inc < 2 ^ 64"
    and "log_end (pm_log_end_offset pm) inc < sp_base_offset (lm_active (pm_segments pm)) + 2 ^ 32"
    and "cf_max_segment_bytes (lm_config (pm_segments pm)) \<le> 2 ^ 32" "\<And>k. ap_index (ios k) = Written"
    and "replicate_loop crc ios k (log_image inc) n lst pm = (pm', r)"
  shows "\<exists>xs ys. inc = xs @ ys \<and> partition_sound crc pm' \<and> pm_committed_hw pm' = pm_committed_hw pm \<and>
    partition_batches crc pm' = partition_batches crc pm @ xs \<and> (r \<noteq> None \<longrightarrow> ys = [])"
  using assms
proof (induction inc arbitrary: k n lst pm)
  case Nil
  then show ?case by (simp add: replicate_loop.simps)
next
  case (Cons b inc)
  let ?m = "pm_segments pm" and ?e = "rb_base_offset b + rb_last_offset_delta b + 1"
  have leo: "pm_log_end_offset pm = lm_high_watermark ?m" "rb_base_offset b = lm_high_watermark ?m"
    "manager_ok crc ?m" using Cons.prems(1,2) by (simp_all add: partition_sound_def)
  have lim: "?e < 2 ^ 64" "?e < sp_base_offset (lm_active ?m) + 2 ^ 32"
    using Cons.prems(2,4,5) leo log_end_ge [of ?e inc] by simp_all
  have room: "append_room (ios k) b ?m" using lim leo Cons.prems(6,7) by (simp add: append_room_def)
  have b: "record_batch_ok crc b" using Cons.prems(3) by simp
  obtain segs a where a: "append_batch_verbatim crc (ios k) b ?m = (segs, a)"
    by (cases "append_batch_verbatim crc (ios k) b ?m")
  note ref = append_batch_verbatim_refines [OF leo(3) b room a]
  have dec: "decode_entry crc (log_image (b # inc)) = Inr (Batch b, encoded_size b)"
    using decode_entry_encode [OF b, of "log_image inc"] by simp
  have ne: "log_image (b # inc) \<noteq> []" using length_encode_ge [of b] by auto
  note go = Cons.prems(8) [unfolded replicate_loop.simps [of crc ios k "log_image (b # inc)" n lst pm]
      if_not_P [OF ne] dec]
  have "a = None \<or> a = Some Appended"
    using a leo lim(1) by (auto simp: append_batch_verbatim_def Let_def batch_last_offset_def arith_simps
        split: prod.splits if_splits)
  then show ?case
  proof
    assume n: "a = None"
    then have "pm' = pm\<lparr>pm_segments := segs\<rparr>" "r = None"
      using go a by simp_all
    then show ?thesis using ref n Cons.prems(1)
      by (intro exI [of _ "[]"] exI [of _ "b # inc"]) (simp add: partition_sound_def)
  next
    assume ap: "a = Some Appended"
    define pm1 where "pm1 = pm\<lparr>pm_segments := segs, pm_log_end_offset := add64 (batch_last_offset b) 1,
        pm_unsynced_bytes := add64 (pm_unsynced_bytes pm) (encoded_size b)\<rparr>"
    have e: "add64 (batch_last_offset b) 1 = ?e" by (rule batch_end_exact [OF lim(1)])
    have pm1': "pm_log_end_offset pm1 = ?e" "pm_segments pm1 = segs" using e by (simp_all add: pm1_def)
    have run: "replicate_loop crc ios (Suc k) (log_image inc) (Suc n) Appended pm1 = (pm', r)"
      using go a ap length_encode_record_batch [of b] by (simp add: pm1_def)
    have ok: "partition_sound crc pm1" and log: "partition_batches crc pm1 = partition_batches crc pm @ [b]"
      using ref ap Cons.prems(1) leo e by (auto simp: partition_sound_def pm1_def)
    have "\<exists>xs ys. inc = xs @ ys \<and> partition_sound crc pm' \<and> pm_committed_hw pm' = pm_committed_hw pm1 \<and>
        partition_batches crc pm' = partition_batches crc pm1 @ xs \<and> (r \<noteq> None \<longrightarrow> ys = [])"
    proof (rule Cons.IH [OF ok _ _ _ _ _ Cons.prems(7) run])
      show "chained (pm_log_end_offset pm1) inc" "log_end (pm_log_end_offset pm1) inc < 2 ^ 64"
        "log_end (pm_log_end_offset pm1) inc < sp_base_offset (lm_active (pm_segments pm1)) + 2 ^ 32"
        using Cons.prems(2,4,5) ref unfolding pm1' by auto
      show "list_all (record_batch_ok crc) inc" using Cons.prems(3) by simp
      show "cf_max_segment_bytes (lm_config (pm_segments pm1)) \<le> 2 ^ 32"
        using ref Cons.prems(6) by (simp add: pm1_def)
    qed
    then obtain xs ys where "inc = xs @ ys" "partition_sound crc pm'" "pm_committed_hw pm' = pm_committed_hw pm"
      "partition_batches crc pm' = partition_batches crc pm @ b # xs" "r \<noteq> None \<longrightarrow> ys = []"
      using log by (auto simp: pm1_def)
    then show ?thesis by (intro exI [of _ "b # xs"] exI [of _ ys]) simp
  qed
qed


section \<open>The life of a partition\<close>

lemma trim_before_ok:
  assumes m: "manager_ok crc m" and t: "trim_before off m = (m', n)"
  shows "manager_ok crc m' \<and> lm_high_watermark m' = lm_high_watermark m \<and>
    (\<exists>cut. log_batches crc m = cut @ log_batches crc m')"
proof -
  obtain hs bs where h: "manager_holds crc hs bs m" using m by (auto simp: manager_ok_def)
  have m': "m' = unlink_files (take n (lm_historical m)) (m\<lparr>lm_historical := drop n (lm_historical m)\<rparr>)"
    using t trim_list_suffix by (auto simp: trim_before_def split: prod.splits)
  have z: "segs_of (drop n hs) (drop n (lm_historical m)) = drop n (segs_of hs (lm_historical m))"
    by (simp add: drop_zip drop_map)
  have "linked (drop n (segs_of hs (lm_historical m))) (sp_base_offset (lm_active m))"
    using h linked_append [of "take n (segs_of hs (lm_historical m))" "drop n (segs_of hs (lm_historical m))"]
    by (simp add: manager_holds_def)
  then have h': "manager_holds crc (drop n hs) bs m'"
    using h z by (simp add: m' manager_holds_def list_all2_dropI)
  have "concat hs @ bs = concat (take n hs) @ concat (drop n hs) @ bs"
    by (simp flip: append_assoc concat_append)
  then show ?thesis using h' log_batches_holds [OF h] log_batches_holds [OF h'] m'
    by (auto simp: manager_ok_def)
qed

lemma open_manager_empty:
  "manager_ok crc (open_manager crc cfg mapped now [])" "lm_high_watermark (open_manager crc cfg mapped now []) = 0"
proof -
  have "manager_holds crc [] [] (open_manager crc cfg mapped now [])"
    using index_ok_empty [of 0]
    by (simp add: manager_holds_def pair_holds_def open_manager_def open_pair_def open_at_path_with_trust_def
        Let_def open_index_def INDEX_ENTRY_SIZE_def)
  then show "manager_ok crc (open_manager crc cfg mapped now [])" by (auto simp: manager_ok_def)
  show "lm_high_watermark (open_manager crc cfg mapped now []) = 0"
    by (simp add: open_manager_def open_pair_def open_at_path_with_trust_def Let_def)
qed

text \<open>
  The states of a partition that was created empty: any sequence of produced batches, batches
  of a leader, moves of the committed watermark, truncations, trims, changes of leadership, and
  crashes with a restart from what they leave of the files. With \<open>fits\<close> every batch is at most as
  large as a segment. Writes, rotations, syncs and checkpoints fail as they like, with these
  exceptions: writes of the offset index succeed; a truncation succeeds or is refused before it
  cuts anything, and it is at an offset in the active segment or above the start of the log; and a
  restart is from a state in which no live segment has lost its files, which is proved for
  batches that fit. A truncation that fails after its cut returns before the log end is lowered.
\<close>

inductive partition_life :: "(bytes \<Rightarrow> nat) \<Rightarrow> bool \<Rightarrow> PartitionManager \<Rightarrow> bool" for crc fits where
  opened: "open_partition crc cfg node codec policy mapped now io [] None snap = Inr pm \<Longrightarrow> partition_life crc fits pm"
| produce: "\<lbrakk>partition_life crc fits pm; record_batch_ok crc batch; pm_leader_epoch pm < 4294967296;
    fits \<longrightarrow> encoded_size batch \<le> cf_max_segment_bytes (lm_config (pm_segments pm));
    append_room (pi_append io) batch (pm_segments pm); produce_batch_eos crc io batch pm = (pm', r)\<rbrakk>
    \<Longrightarrow> partition_life crc fits pm'"
| replicate: "\<lbrakk>partition_life crc fits pm; record_batch_ok crc b; append_room io b (pm_segments pm);
    fits \<longrightarrow> encoded_size b \<le> cf_max_segment_bytes (lm_config (pm_segments pm));
    append_replica_entry_verbatim crc io synced b pm = (pm', r)\<rbrakk> \<Longrightarrow> partition_life crc fits pm'"
| advance: "\<lbrakk>partition_life crc fits pm; advance_committed_hw synced rio candidate pm = (pm', ok)\<rbrakk>
    \<Longrightarrow> partition_life crc fits pm'"
| truncate: "\<lbrakk>partition_life crc fits pm;
    sp_base_offset (lm_active (pm_segments pm)) \<le> off \<or> log_start (pm_segments pm) < off;
    truncate_partition crc tio off pm = (pm', True)\<rbrakk> \<Longrightarrow> partition_life crc fits pm'"
| refused: "\<lbrakk>partition_life crc fits pm; sp_base_offset (lm_active (pm_segments pm)) \<le> off;
    tr_log tio = SetLenError; truncate_partition crc tio off pm = (pm', False)\<rbrakk> \<Longrightarrow> partition_life crc fits pm'"
| trim: "\<lbrakk>partition_life crc fits pm; trim_partition off pm = (pm', n)\<rbrakk> \<Longrightarrow> partition_life crc fits pm'"
| restart: "\<lbrakk>partition_life crc fits pm; files_linked (pm_segments pm); crash_files (pm_segments pm) n files;
    open_partition crc cfg node codec policy mapped now io files (pm_checkpoint pm) snap = Inr pm'\<rbrakk>
    \<Longrightarrow> partition_life crc fits pm'"
| lead: "partition_life crc fits pm \<Longrightarrow> partition_life crc fits (update_leadership leader epoch replicas isr pm)"

abbreviation partition_reach :: "(bytes \<Rightarrow> nat) \<Rightarrow> PartitionManager \<Rightarrow> bool" where
  "partition_reach crc \<equiv> partition_life crc False"

lemma append_replica_entry_ok:
  assumes pm: "partition_sound crc pm" and b: "record_batch_ok crc b" and room: "append_room io b (pm_segments pm)"
    and a: "append_replica_entry_verbatim crc io synced b pm = (pm', r)"
  shows "partition_sound crc pm'"
proof -
  obtain segs v where v: "append_batch_verbatim crc io b (pm_segments pm) = (segs, v)"
    by (cases "append_batch_verbatim crc io b (pm_segments pm)")
  have m: "manager_ok crc (pm_segments pm)" using pm by (simp add: partition_sound_def)
  note ref = append_batch_verbatim_refines [OF m b room v]
  show ?thesis
  proof (cases "v = Some Appended")
    case True
    let ?pm = "pm\<lparr>pm_segments := segs, pm_log_end_offset := add64 (batch_last_offset b) 1\<rparr>"
    have "pm' = fst (account_unsynced synced (encoded_size b) ?pm)"
      using a v True by (auto simp: append_replica_entry_verbatim_def split: prod.splits)
    moreover have "add64 (batch_last_offset b) 1 = lm_high_watermark segs"
      using ref True room by (subst batch_end_exact) (simp_all add: append_room_def)
    ultimately show ?thesis using ref True pm by (auto simp: partition_sound_def)
  next
    case False
    then have "pm' = pm\<lparr>pm_segments := segs\<rparr>"
      using a v by (auto simp: append_replica_entry_verbatim_def split: option.splits)
    then show ?thesis using ref False pm by (auto simp: partition_sound_def)
  qed
qed

lemma truncate_partition_ok:
  assumes pm: "partition_sound crc pm"
    and cut: "sp_base_offset (lm_active (pm_segments pm)) \<le> off \<or> log_start (pm_segments pm) < off"
    and t: "truncate_partition crc io off pm = (pm', True)"
  shows "partition_sound crc pm' \<and> log_start (pm_segments pm') = log_start (pm_segments pm) \<and>
    partition_batches crc pm' = filter (\<lambda>b. batch_last_offset b < off) (partition_batches crc pm) \<and>
    pm_committed_hw pm' = min (pm_committed_hw pm) (pm_log_end_offset pm')"
proof -
  obtain segs where s: "truncate_after crc io off (pm_segments pm) = (segs, True)"
    using t by (auto simp: truncate_partition_def Let_def split: prod.splits bool.splits)
  have m: "manager_ok crc (pm_segments pm)" using pm by (simp add: partition_sound_def)
  show ?thesis using truncate_after_refines [OF m cut s] t s
    by (auto simp: truncate_partition_def Let_def partition_sound_def)
qed

lemma partition_reach_ok:
  assumes crc: "\<And>x. crc x < 4294967296" and "partition_life crc fits pm"
  shows "partition_sound crc pm"
  using assms(2)
proof (induction rule: partition_life.induct)
  case (opened cfg node codec policy mapped now io snap pm)
  then show ?case
    using open_manager_empty [of crc cfg mapped now]
    by (auto simp: open_partition_def Let_def partition_sound_def split: replace_io.splits)
next
  case (produce pm batch io pm' r)
  then show ?case using produce_batch_eos_ok [of crc, OF crc] by blast
next
  case (replicate pm b io synced pm' r)
  then show ?case using append_replica_entry_ok by blast
next
  case (advance pm synced rio candidate pm' ok)
  then show ?case using advance_committed_hw_ok by blast
next
  case (truncate pm off tio pm')
  then show ?case using truncate_partition_ok by blast
next
  case (refused pm off tio pm')
  then show ?case using truncate_refused_ok [of crc "pm_segments pm" off tio]
    by (auto simp: truncate_partition_def Let_def partition_sound_def split: prod.splits bool.splits)
next
  case (trim pm off pm' n)
  then show ?case using trim_before_ok by (auto simp: trim_partition_def partition_sound_def split: prod.splits)
next
  case (restart pm n files cfg node codec policy mapped now io snap pm')
  obtain hs bs where m: "manager_holds crc hs bs (pm_segments pm)"
    using restart.IH by (auto simp: partition_sound_def manager_ok_def)
  then obtain hs' kept where "manager_holds crc hs' kept (open_manager crc cfg mapped now files)"
    using open_manager_recovers [OF m restart.hyps(2,3)] by blast
  then have "manager_ok crc (open_manager crc cfg mapped now files)" by (auto simp: manager_ok_def)
  then show ?case
    using restart.hyps(4)
    by (auto simp: open_partition_def Let_def partition_sound_def split: option.splits if_splits replace_io.splits)
next
  case (lead pm leader epoch replicas isr)
  then show ?case by (simp add: update_leadership_def partition_sound_def)
qed

subsection \<open>The checkpoint\<close>

definition checkpoint_covers :: "PartitionManager \<Rightarrow> bool" where
  "checkpoint_covers pm \<longleftrightarrow> (\<exists>ck. pm_checkpoint pm = Some ck \<and> length ck = 8 \<and> pm_committed_hw pm \<le> be_val ck)"

lemma produce_batch_eos_keep [simp]:
  "pm_checkpoint (fst (produce_batch_eos crc io batch pm)) = pm_checkpoint pm"
  "pm_committed_hw (fst (produce_batch_eos crc io batch pm)) = pm_committed_hw pm"
  by (simp_all add: produce_batch_eos_def split: option.splits prod.splits)

lemma append_replica_entry_keep [simp]:
  "pm_checkpoint (fst (append_replica_entry_verbatim crc io synced b pm)) = pm_checkpoint pm"
  "pm_committed_hw (fst (append_replica_entry_verbatim crc io synced b pm)) = pm_committed_hw pm"
  by (simp_all add: append_replica_entry_verbatim_def case_prod_unfold split: option.splits)

lemma partition_reach_checkpoint:
  assumes crc: "\<And>x. crc x < 4294967296" and "partition_life crc fits pm"
  shows "checkpoint_covers pm"
  using assms(2)
proof (induction rule: partition_life.induct)
  case (opened cfg node codec policy mapped now io snap pm)
  then show ?case by (auto simp: open_partition_def Let_def checkpoint_covers_def split: if_splits replace_io.splits)
next
  case (produce pm batch io pm' r)
  then show ?case using produce_batch_eos_keep [of crc io batch pm] by (simp add: checkpoint_covers_def)
next
  case (replicate pm b io synced pm' r)
  then show ?case using append_replica_entry_keep [of crc io synced b pm] by (simp add: checkpoint_covers_def)
next
  case (advance pm synced rio candidate pm' ok)
  have "pm_log_end_offset pm < 2 ^ 64"
    using partition_reach_ok [of crc, OF crc advance.hyps(1)] manager_chained(4)
    by (auto simp: partition_sound_def manager_ok_def)
  then have "be_val (be_bytes 8 (min candidate (pm_log_end_offset pm))) = min candidate (pm_log_end_offset pm)"
    by (intro be_val_be_bytes_exact) simp
  then show ?case using advance
    by (auto simp: advance_committed_hw_def Let_def checkpoint_covers_def split: if_splits replace_io.splits)
next
  case (truncate pm off tio pm')
  then show ?case
    by (auto simp: truncate_partition_def Let_def checkpoint_covers_def split: prod.splits bool.splits)
next
  case (refused pm off tio pm')
  then show ?case
    by (auto simp: truncate_partition_def Let_def checkpoint_covers_def split: prod.splits bool.splits)
next
  case (trim pm off pm' n)
  then show ?case by (auto simp: trim_partition_def checkpoint_covers_def split: prod.splits)
next
  case (restart pm n files cfg node codec policy mapped now io snap pm')
  then show ?case
    by (auto simp: open_partition_def Let_def checkpoint_covers_def split: option.splits if_splits replace_io.splits)
next
  case (lead pm leader epoch replicas isr)
  then show ?case by (simp add: checkpoint_covers_def update_leadership_def)
qed

lemma kept_covers:
  assumes c: "chained a (kept @ lost)" and l: "lost \<noteq> []"
    and n: "length (log_image (filter (\<lambda>b. rb_base_offset b < ck) (kept @ lost))) \<le> n" "n < length (log_image (kept @ [hd lost]))"
  shows "ck \<le> log_end a kept"
proof (rule ccontr)
  assume "\<not> ck \<le> log_end a kept"
  then have "\<forall>b\<in>set (kept @ [hd lost]). rb_base_offset b < ck"
    using c l chained_last_less [of a kept] by (cases lost) fastforce+
  then have "filter (\<lambda>b. rb_base_offset b < ck) (kept @ lost) =
      kept @ [hd lost] @ filter (\<lambda>b. rb_base_offset b < ck) (tl lost)"
    using l by (cases lost) (auto intro: filter_True)
  then show False using n by simp
qed

subsection \<open>The files of the segments\<close>

lemma append_batch_names:
  assumes m: "manager_ok crc m" "names_intact m" and fits: "encoded_size b \<le> cf_max_segment_bytes (lm_config m)"
  shows "names_intact (fst (append_batch crc io b epoch m))" "names_intact (fst (append_batch_verbatim crc io b m))"
proof -
  obtain hs bs where h: "manager_holds crc hs bs m" using m(1) by (auto simp: manager_ok_def)
  have "encoded_size (assign_base_offset_and_leader_epoch crc hw epoch b) = encoded_size b" for hw
    by (simp add: assign_base_offset_and_leader_epoch_def seal_def encoded_size_def)
  then show "names_intact (fst (append_batch crc io b epoch m))" "names_intact (fst (append_batch_verbatim crc io b m))"
    using store_batch_names [OF h m(2)] fits m(2)
    by (simp_all add: append_batch_def append_batch_verbatim_def Let_def case_prod_unfold)
qed

lemma after_append_segments: "pm_segments (fst (after_append io pid ep sq b segs pm)) = segs"
  by (simp add: after_append_def Let_def case_prod_unfold)

lemma produce_batch_segments:
  "pm_segments (fst (produce_batch_eos crc io batch pm)) = pm_segments pm \<or>
   pm_segments (fst (produce_batch_eos crc io batch pm)) =
     fst (append_batch crc (pi_append io) batch (pm_leader_epoch pm) (pm_segments pm))"
  by (auto simp: produce_batch_eos_def after_append_segments split: option.splits prod.splits)

lemma append_replica_segments:
  "pm_segments (fst (append_replica_entry_verbatim crc io synced b pm)) =
     fst (append_batch_verbatim crc io b (pm_segments pm))"
  by (simp add: append_replica_entry_verbatim_def case_prod_unfold split: option.splits)

lemma partition_life_names:
  assumes crc: "\<And>x. crc x < 4294967296" and "partition_life crc True pm"
  shows "names_intact (pm_segments pm)"
  using assms(2)
proof (induction rule: partition_life.induct)
  case (opened cfg node codec policy mapped now io snap pm)
  then have "pm_segments pm = open_manager crc cfg mapped now []"
    by (auto simp: open_partition_def Let_def split: if_splits replace_io.splits)
  then show ?case by (simp add: names_intact_def files_linked_def segment_names_def open_manager_def Let_def)
next
  case (produce pm batch io pm' r)
  then show ?case
    using append_batch_names(1) [of crc "pm_segments pm" batch] produce_batch_segments [of crc io batch pm]
      partition_reach_ok [of crc, OF crc produce.hyps(1)] by (auto simp: partition_sound_def)
next
  case (replicate pm b io synced pm' r)
  then show ?case
    using append_batch_names(2) [of crc "pm_segments pm" b] append_replica_segments [of crc io synced b pm]
      partition_reach_ok [of crc, OF crc replicate.hyps(1)] by (auto simp: partition_sound_def)
next
  case (advance pm synced rio candidate pm' ok)
  then show ?case by (auto simp: advance_committed_hw_def Let_def split: if_splits replace_io.splits)
next
  case (truncate pm off tio pm')
  then show ?case using truncate_names by (auto simp: truncate_partition_def Let_def split: prod.splits bool.splits)
next
  case (refused pm off tio pm')
  then show ?case using truncate_names by (auto simp: truncate_partition_def Let_def split: prod.splits bool.splits)
next
  case (trim pm off pm' n)
  then show ?case using trim_names by (auto simp: trim_partition_def split: prod.splits)
next
  case (restart pm n files cfg node codec policy mapped now io snap pm')
  obtain hs bs where m: "manager_holds crc hs bs (pm_segments pm)"
    using partition_reach_ok [of crc, OF crc restart.hyps(1)] by (auto simp: partition_sound_def manager_ok_def)
  have "pm_segments pm' = open_manager crc cfg mapped now files"
    using restart.hyps(4) by (auto simp: open_partition_def Let_def split: option.splits if_splits replace_io.splits)
  then show ?case using open_manager_recovers [OF m restart.hyps(2,3), of cfg mapped now] by auto
qed (simp add: update_leadership_def)

section \<open>Properties\<close>



definition demo_config :: SegmentConfig where
  "demo_config = \<lparr>cf_max_segment_bytes = 1000, cf_index_interval_bytes = 4096, cf_preallocate_segments = False,
     cf_segment_ms = None, cf_retention_bytes = None, cf_retention_millis = None, cf_delete_retention_millis = None\<rparr>"

definition demo_empty :: PartitionManager where
  "demo_empty =
     \<lparr>pm_segments = open_manager demo_crc demo_config False 0 [], pm_log_end_offset = 0, pm_committed_hw = 0,
      pm_checkpoint = Some (be_bytes 8 0), pm_unsynced_bytes = 0, pm_producers = open_producers None,
      pm_leader_id = 1, pm_leader_epoch = 0, pm_replicas = [1], pm_isr = [1],
      pm_compression_codec = CodecProducer, pm_flush_policy = SyncEveryBatch\<rparr>"

definition demo_append_io :: append_io where
  "demo_append_io = \<lparr>ap_rotate = Rotates True False, ap_now = 5, ap_write = Written, ap_index = Written, ap_time = Written\<rparr>"

definition demo_io :: produce_io where
  "demo_io = \<lparr>pi_append = demo_append_io, pi_snapshot = SnapshotDone, pi_synced = True\<rparr>"

definition demo_request :: RecordBatch where
  "demo_request = create demo_crc demo_codecs 0 105 0 9 0 0 False NoCompression demo_new_records"

definition demo_produced :: RecordBatch where
  "demo_produced = assign_base_offset_and_leader_epoch demo_crc 0 0 demo_request"

definition demo_written :: PartitionManager where
  "demo_written = fst (produce_batch_eos demo_crc demo_io demo_request demo_empty)"

lemma demo_crc_less: "demo_crc x < 4294967296"
  by (simp add: demo_crc_def)

lemma demo_empty_open:
  "open_partition demo_crc demo_config 1 CodecProducer SyncEveryBatch False 0 Replaced [] None None = Inr demo_empty"
  using open_manager_empty(2) [of demo_crc demo_config False 0]
  by (simp add: open_partition_def Let_def demo_empty_def)

lemma demo_empty_reach: "partition_life demo_crc fits demo_empty"
  by (rule opened [OF demo_empty_open])

lemma demo_request_ok: "record_batch_ok demo_crc demo_request"
  by (simp add: demo_request_def create_def seal_def Let_def record_batch_ok_def calculate_crc_def demo_crc_def
      demo_new_records_def compress_def put_record_def encode_opt_bytes_def upt_conv_Cons)

lemma demo_request_sel:
  "rb_producer_id demo_request = 9" "rb_producer_epoch demo_request = 0" "rb_base_sequence demo_request = 0"
  "rb_record_count demo_request = 2" "rb_last_offset_delta demo_request = 1" "encoded_size demo_request = 94"
  by (simp_all add: demo_request_def create_def seal_def Let_def demo_new_records_def encoded_size_def
      BATCH_HEADER_SIZE_def compress_def put_record_def encode_opt_bytes_def upt_conv_Cons)


lemma demo_produced_sel:
  "rb_base_offset demo_produced = 0" "rb_last_offset_delta demo_produced = 1" "encoded_size demo_produced = 94"
  "rb_producer_epoch demo_produced = 0" "rb_base_sequence demo_produced = 0" "rb_record_count demo_produced = 2"
  "batch_last_offset demo_produced = 1"
  using demo_request_sel
  by (simp_all add: demo_produced_def assign_base_offset_and_leader_epoch_def seal_def encoded_size_def
      batch_last_offset_def add64_def)

lemma demo_room: "append_room demo_append_io demo_request (pm_segments demo_empty)"
  using open_manager_empty(2) [of demo_crc demo_config False 0] demo_request_sel(5)
  by (simp add: append_room_def demo_empty_def demo_append_io_def demo_config_def open_manager_def Let_def)

lemmas demo_append_defs =
  append_batch_def store_batch_def maybe_rotate_before_append_def should_roll_by_time_def Let_def
  demo_empty_def demo_config_def demo_append_io_def open_manager_def open_pair_def open_at_path_with_trust_def
  append_batch_to_active_def append_bytes_def index_batch_def append_index_def set_active_log_def
  open_index_def INDEX_ENTRY_SIZE_def demo_produced_def case_prod_unfold

lemma demo_append:
  "snd (append_batch demo_crc demo_append_io demo_request 0 (pm_segments demo_empty)) = Some demo_produced"
  using open_manager_empty(2) [of demo_crc demo_config False 0] demo_produced_sel
  by (simp add: demo_append_defs)

lemma demo_produce: "produce_batch_eos demo_crc demo_io demo_request demo_empty = (demo_written, Produced demo_produced)"
proof -
  have "check_sequence 9 0 0 demo_empty = None"
    by (simp add: check_sequence_def validate_sequence_def demo_empty_def open_producers_def)
  then have "snd (produce_batch_eos demo_crc demo_io demo_request demo_empty) = Produced demo_produced"
    using demo_append demo_request_sel
    by (auto simp: produce_batch_eos_def demo_io_def demo_empty_def after_append_def account_unsynced_def Let_def
        split: prod.splits option.splits)
  then show ?thesis by (simp add: demo_written_def prod_eq_iff)
qed

lemma demo_written_reach: "partition_life demo_crc fits demo_written"
proof -
  have "lm_config (pm_segments demo_empty) = demo_config" by (simp add: demo_empty_def open_manager_def Let_def)
  then have "encoded_size demo_request \<le> cf_max_segment_bytes (lm_config (pm_segments demo_empty))"
    using demo_request_sel by (simp add: demo_config_def)
  then show ?thesis
    using produce [OF demo_empty_reach demo_request_ok _ _ _ demo_produce] demo_room
    by (simp add: demo_io_def demo_empty_def)
qed

lemma demo_written_log:
  "log_batches demo_crc (pm_segments demo_written) = [demo_produced]" "pm_log_end_offset demo_written = 2"
  "pm_committed_hw demo_written = 0" "log_start (pm_segments demo_written) = 0"
proof -
  have ok: "partition_sound demo_crc demo_empty"
    by (rule partition_reach_ok [of demo_crc, OF demo_crc_less demo_empty_reach])
  have "pm_leader_epoch demo_empty < 4294967296" by (simp add: demo_empty_def)
  from produce_batch_eos_ok [of demo_crc, OF demo_crc_less ok demo_request_ok this _ demo_produce]
  have p: "partition_sound demo_crc demo_written" "pm_committed_hw demo_written = pm_committed_hw demo_empty"
    "log_batches demo_crc (pm_segments demo_written) = log_batches demo_crc (pm_segments demo_empty) @ [demo_produced]"
    using demo_room by (simp_all add: demo_io_def)
  have "log_batches demo_crc (pm_segments demo_empty) = []"
    using manager_ok_chained(1,2) [of demo_crc "pm_segments demo_empty"] ok open_manager_empty(2) [of demo_crc demo_config False 0]
    by (cases "log_batches demo_crc (pm_segments demo_empty)")
      (auto simp: partition_sound_def demo_empty_def log_end_def)
  then show l: "log_batches demo_crc (pm_segments demo_written) = [demo_produced]" using p(3) by simp
  show "pm_committed_hw demo_written = 0" using p(2) by (simp add: demo_empty_def)
  have c: "chained (log_start (pm_segments demo_written)) [demo_produced]"
    "log_end (log_start (pm_segments demo_written)) [demo_produced] = pm_log_end_offset demo_written"
    using manager_ok_chained(1,2) [of demo_crc "pm_segments demo_written"] p(1) l by (simp_all add: partition_sound_def)
  then show "log_start (pm_segments demo_written) = 0" using demo_produced_sel by simp
  then show "pm_log_end_offset demo_written = 2" using c(2) demo_produced_sel by simp
qed


text \<open>C7 A fetch serves whole committed batches, and some if there are any.
  A consumer's fetch from an offset within the log returns bytes of the log: the encodings of
  a run of its batches. No batch ends before the offset asked for, none reaches the committed
  watermark, none is left out in between; and when nothing is returned there is no committed
  batch to return, however small the budget of the client is.\<close>

theorem committed_fetch_exact:
  assumes "\<And>x. crc x < 4294967296" "partition_reach crc pm"
    and "log_start (pm_segments pm) \<le> from_offset" "from_offset \<le> pm_log_end_offset pm"
    and "length (log_image (log_batches crc (pm_segments pm))) \<le> U64_MAX"
  shows "\<exists>before run behind. log_batches crc (pm_segments pm) = before @ run @ behind \<and>
    fetch_committed_entries from_offset max_bytes pm = log_image run \<and>
    (\<forall>b\<in>set before. batch_last_offset b < from_offset) \<and>
    (\<forall>b\<in>set run. from_offset \<le> batch_last_offset b \<and> batch_last_offset b < pm_committed_hw pm) \<and>
    (run = [] \<longrightarrow> (\<forall>b\<in>set behind. pm_committed_hw pm \<le> batch_last_offset b))"
proof -
  let ?m = "pm_segments pm"
  have ok: "manager_ok crc ?m" "pm_log_end_offset pm = lm_high_watermark ?m"
    using partition_reach_ok [of crc, OF assms(1,2)] by (simp_all add: partition_sound_def)
  obtain sk inc rest where s: "log_batches crc ?m = sk @ inc @ rest" "served from_offset (pm_committed_hw pm) sk inc rest"
    "fetch_entries from_offset max_bytes (pm_committed_hw pm) ?m = log_image inc"
    using fetch_serves_log [OF ok(1) assms(3) _ assms(5)] assms(4) ok(2) by metis
  have "\<forall>b\<in>set rest. pm_committed_hw pm \<le> batch_last_offset b" if "inc = []"
  proof (cases rest)
    case (Cons z zs)
    have c: "chained (log_start ?m) (sk @ inc @ z # zs)" "log_end (log_start ?m) (sk @ inc @ z # zs) < 2 ^ 64"
      using manager_ok_chained [OF ok(1)] s(1) Cons by simp_all
    have "batch_last_offset z \<le> batch_last_offset b" if "b \<in> set zs" for b
    proof -
      have "chained (rb_base_offset z + rb_last_offset_delta z + 1) zs" using c(1) by simp
      from chained_base_ge [OF this that] show ?thesis
        using chained_last_exact [OF c, of z] chained_last_exact [OF c, of b] that by simp
    qed
    moreover have "pm_committed_hw pm \<le> batch_last_offset z" using s(2) that Cons by (simp add: served_def)
    ultimately show ?thesis using Cons by (auto intro: le_trans)
  qed simp
  then show ?thesis using s
    by (intro exI [of _ sk] exI [of _ inc] exI [of _ rest]) (auto simp: fetch_committed_entries_def served_def)
qed

definition demo_committed :: PartitionManager where
  "demo_committed = fst (advance_committed_hw True Replaced 7 demo_written)"

lemma demo_committed_sel:
  "pm_segments demo_committed = pm_segments demo_written" "pm_committed_hw demo_committed = 2"
  "pm_log_end_offset demo_committed = 2"
  using demo_written_log by (simp_all add: demo_committed_def advance_committed_hw_def Let_def)

lemma demo_committed_reach: "partition_life demo_crc fits demo_committed"
  using advance [OF demo_written_reach, of True Replaced 7 demo_committed True] demo_written_log
  by (simp add: demo_committed_def advance_committed_hw_def Let_def)

theorem committed_fetch_exact_witness:
  "fetch_committed_entries 1 0 demo_committed = encode_record_batch demo_produced \<and>
   fetch_committed_entries 0 1000 demo_written = []"
proof -
  have len: "length (log_image [demo_produced]) \<le> U64_MAX"
    using demo_produced_sel by (simp add: length_encode_record_batch)
  obtain before run behind where c: "[demo_produced] = before @ run @ behind"
    "fetch_committed_entries 1 0 demo_committed = log_image run"
    "\<forall>b\<in>set before. batch_last_offset b < 1"
    "run = [] \<longrightarrow> (\<forall>b\<in>set behind. 2 \<le> batch_last_offset b)"
    using committed_fetch_exact [of demo_crc, OF demo_crc_less demo_committed_reach, of 1 0]
      demo_committed_sel demo_written_log len by auto
  have "run = [demo_produced]" using c demo_produced_sel by (cases before; cases run) auto
  moreover have "fetch_committed_entries 0 1000 demo_written = []"
    using committed_fetch_exact [of demo_crc, OF demo_crc_less demo_written_reach, of 0 1000]
      demo_written_log len by auto
  ultimately show ?thesis using c(2) by simp
qed

text \<open>
  What a partition does while it is open, as far as the producer \<open>pid\<close> is concerned: batches of any
  producer with any outcome, where those of \<open>pid\<close> keep their sequence numbers below \<open>2\<^sup>3\<^sup>1\<close>, and every
  other operation. A restart is no step: it goes back to the last snapshot of the producers.
\<close>

definition sequence_fits :: "RecordBatch \<Rightarrow> bool" where
  "sequence_fits b \<longleftrightarrow> - (2 ^ 31) \<le> rb_base_sequence b \<and> 0 < rb_record_count b \<and> rb_record_count b < 2 ^ 31 \<and>
     rb_base_sequence b + int (rb_record_count b) \<le> 2 ^ 31"

inductive producer_step :: "(bytes \<Rightarrow> nat) \<Rightarrow> nat \<Rightarrow> PartitionManager \<Rightarrow> PartitionManager \<Rightarrow> bool" for crc pid where
  step_batch: "\<lbrakk>rb_producer_id batch = pid \<longrightarrow> sequence_fits batch; produce_batch_eos crc io batch pm = (pm', r)\<rbrakk>
    \<Longrightarrow> producer_step crc pid pm pm'"
| step_frame: "produce_frame_eos crc cs io now payload other epoch sequence pm = (pm', r) \<Longrightarrow> producer_step crc pid pm pm'"
| step_marker: "produce_control_marker_uncommitted crc cs aio now control other tid pm = Some (pm', res)
    \<Longrightarrow> producer_step crc pid pm pm'"
| step_replica: "append_replica_entry_verbatim crc aio synced b pm = (pm', v) \<Longrightarrow> producer_step crc pid pm pm'"
| step_entries: "append_replica_entries_verbatim crc ios entries pm = (pm', got) \<Longrightarrow> producer_step crc pid pm pm'"
| step_advance: "advance_committed_hw synced rio candidate pm = (pm', ok) \<Longrightarrow> producer_step crc pid pm pm'"
| step_truncate: "truncate_partition crc tio off pm = (pm', ok) \<Longrightarrow> producer_step crc pid pm pm'"
| step_trim: "trim_partition off pm = (pm', n) \<Longrightarrow> producer_step crc pid pm pm'"
| step_flush: "flush_partition synced sio pm = (pm', ok) \<Longrightarrow> producer_step crc pid pm pm'"
| step_sync: "flush_durable synced pm = (pm', ok) \<Longrightarrow> producer_step crc pid pm pm'"
| step_policy: "flush_if_sync_policy synced pm = (pm', ok) \<Longrightarrow> producer_step crc pid pm pm'"
| step_lead: "producer_step crc pid pm (update_leadership leader epoch replicas isr pm)"

text \<open>The producer's state covers a sequence number: a newer epoch, or the same and a number not smaller.\<close>

definition sequence_covered :: "nat \<Rightarrow> int \<Rightarrow> int \<Rightarrow> PartitionManager \<Rightarrow> bool" where
  "sequence_covered pid ep sq pm \<longleftrightarrow> (\<exists>e. map_of (ps_states (pm_producers pm)) pid = Some e \<and>
     (ep < ps_epoch e \<or> ep = ps_epoch e \<and> sq \<le> ps_last_sequence e))"

lemma sequence_covered_cong:
  "ps_states (pm_producers pm') = ps_states (pm_producers pm) \<Longrightarrow> sequence_covered pid ep sq pm' = sequence_covered pid ep sq pm"
  by (simp add: sequence_covered_def)

lemma after_append_other:
  "other = 0 \<or> other \<noteq> pid \<Longrightarrow>
   map_of (ps_states (pm_producers (fst (after_append io other ep sq b segs pm)))) pid =
   map_of (ps_states (pm_producers pm)) pid"
  by (auto simp: after_append_def Let_def case_prod_unfold update_producer_def AList.update_conv')

lemma accepted_covers:
  assumes c: "sequence_covered pid ep sq pm" and ok: "check_sequence other ep' sq' pm = None"
    and l: "other = pid \<longrightarrow> sq' \<le> lst"
  shows "sequence_covered pid ep sq (fst (after_append io other ep' lst b segs pm))"
proof (cases "other = pid \<and> other \<noteq> 0")
  case True
  obtain e where e: "map_of (ps_states (pm_producers pm)) pid = Some e"
    "ep < ps_epoch e \<or> ep = ps_epoch e \<and> sq \<le> ps_last_sequence e" using c by (auto simp: sequence_covered_def)
  then have "ep < ep' \<or> ep = ep' \<and> sq < sq'"
    using ok True by (auto simp: check_sequence_def validate_sequence_def split: if_splits)
  then show ?thesis using after_append_states [of pid io ep' lst b segs pm] True l by (auto simp: sequence_covered_def)
next
  case False
  then have "other = 0 \<or> other \<noteq> pid" by blast
  from after_append_other [OF this] show ?thesis using c by (simp add: sequence_covered_def)
qed

lemma sequence_end:
  assumes "sequence_fits b"
  shows "wrap32 (rb_base_sequence b + (wrap32 (int (rb_record_count b)) - 1)) =
    rb_base_sequence b + (int (rb_record_count b) - 1)"
proof -
  have "wrap32 (int (rb_record_count b)) = int (rb_record_count b)"
    using assms by (intro wrap32_id) (auto simp: sequence_fits_def)
  then show ?thesis using assms by (auto simp: sequence_fits_def intro!: wrap32_id)
qed

lemma produce_batch_covers:
  assumes c: "sequence_covered pid ep sq pm" and f: "rb_producer_id batch = pid \<longrightarrow> sequence_fits batch"
  shows "sequence_covered pid ep sq (fst (produce_batch_eos crc io batch pm))"
proof (cases "check_sequence (rb_producer_id batch) (rb_producer_epoch batch) (rb_base_sequence batch) pm")
  case None
  obtain segs a where a: "append_batch crc (pi_append io) batch (pm_leader_epoch pm) (pm_segments pm) = (segs, a)"
    by (cases "append_batch crc (pi_append io) batch (pm_leader_epoch pm) (pm_segments pm)")
  show ?thesis
  proof (cases a)
    case (Some b)
    then have b: "rb_producer_epoch b = rb_producer_epoch batch" "rb_base_sequence b = rb_base_sequence batch"
      "rb_record_count b = rb_record_count batch"
      using a by (auto simp: append_batch_def Let_def assign_base_offset_and_leader_epoch_def seal_def
          split: prod.splits if_splits)
    have "rb_base_sequence batch \<le> wrap32 (rb_base_sequence batch + (wrap32 (int (rb_record_count batch)) - 1))"
      if "rb_producer_id batch = pid"
      using f that sequence_end [of batch] by (simp add: sequence_fits_def)
    then show ?thesis using accepted_covers [OF c None] None a Some b by (simp add: produce_batch_eos_def)
  qed (use None a c in \<open>simp add: produce_batch_eos_def sequence_covered_def\<close>)
qed (use c in \<open>simp add: produce_batch_eos_def\<close>)

lemma replicate_loop_producers:
  "pm_producers (fst (replicate_loop crc ios k entries appended lst pm)) = pm_producers pm"
proof (induction crc ios k entries appended lst pm rule: replicate_loop.induct)
  case (1 crc ios k entries appended lst pm)
  show ?case
    by (subst replicate_loop.simps)
      (auto simp: "1.IH" simp del: One_nat_def split: sum.splits LogEntry.splits prod.splits option.splits VerbatimAppendResult.splits)
qed

lemma producer_step_covers:
  assumes "producer_step crc pid pm pm'" and c: "sequence_covered pid ep sq pm"
  shows "sequence_covered pid ep sq pm'"
  using assms(1)
proof cases
  case (step_batch batch io r)
  then show ?thesis using produce_batch_covers [OF c] by (metis fst_conv)
next
  case (step_frame cs io now payload other epoch sequence r)
  show ?thesis
  proof (cases "check_sequence other epoch sequence pm")
    case None
    have "sequence_covered pid ep sq (fst (after_append io other epoch sequence b segs pm))" for b segs
      by (rule accepted_covers [OF c None]) simp
    then have "sequence_covered pid ep sq
        (fst (produce_frame_eos crc cs io now payload other epoch sequence pm))"
      using None c by (auto simp: produce_frame_eos_def sequence_covered_def split: prod.splits option.splits)
    then show ?thesis using step_frame by simp
  qed (use step_frame c in \<open>simp add: produce_frame_eos_def\<close>)
next
  case (step_marker cs aio now control other tid res)
  then show ?thesis using c
    by (auto simp: produce_control_marker_uncommitted_def sequence_covered_def split: option.splits prod.splits)
next
  case (step_replica aio synced b v)
  have "pm_producers (fst (append_replica_entry_verbatim crc aio synced b pm)) = pm_producers pm"
    by (simp add: append_replica_entry_verbatim_def case_prod_unfold split: option.splits)
  then show ?thesis using step_replica c by (simp add: sequence_covered_def)
next
  case (step_entries ios entries got)
  then have "pm_producers pm' = pm_producers pm"
    using replicate_loop_producers [of crc ios 0 entries 0 AlreadyApplied pm]
    by (simp add: append_replica_entries_verbatim_def)
  then show ?thesis using c by (simp add: sequence_covered_def)
next
  case (step_advance synced rio candidate ok)
  then show ?thesis using c
    by (auto simp: advance_committed_hw_def Let_def sequence_covered_def split: if_splits replace_io.splits)
next
  case (step_truncate tio off ok)
  then show ?thesis using c
    by (auto simp: truncate_partition_def Let_def sequence_covered_def split: prod.splits bool.splits)
qed (use c in \<open>auto simp: trim_partition_def flush_partition_def flush_durable_def flush_if_sync_policy_def
  update_leadership_def sequence_covered_def split: prod.splits if_splits FlushPolicy.splits\<close>)

lemma produced_entry:
  assumes "produce_batch_eos crc io batch pm = (pm', Produced b)" "rb_producer_id batch \<noteq> 0" "sequence_fits batch"
  shows "map_of (ps_states (pm_producers pm')) (rb_producer_id batch) =
    Some \<lparr>ps_epoch = rb_producer_epoch batch,
      ps_last_sequence = rb_base_sequence batch + (int (rb_record_count batch) - 1),
      ps_last_offset = batch_last_offset b\<rparr>"
  using produced_sequence [OF assms(1)] after_append_states [OF assms(2)] sequence_end [OF assms(3)] by auto

lemma covered_is_refused:
  assumes "map_of (ps_states (pm_producers pm)) (rb_producer_id batch) = Some e" "rb_producer_id batch \<noteq> 0"
    and "rb_producer_epoch batch < ps_epoch e \<or>
      rb_producer_epoch batch = ps_epoch e \<and> rb_base_sequence batch \<le> ps_last_sequence e"
  shows "produce_batch_eos crc io batch pm =
    (pm, if rb_producer_epoch batch < ps_epoch e then OutOfOrderSequence else DuplicateOf (ps_last_offset e))"
  using assms by (auto simp: produce_batch_eos_def check_sequence_def validate_sequence_def)

text \<open>C8 A retried batch is not written again while the partition stays open.
  After an idempotent producer's batch was produced, sending it again at once is answered with the
  offset its last record got. Sent again after any further steps of the partition, also after
  later batches of the producer, it changes nothing: it is answered as a duplicate, with the
  offset of the producer's latest batch, or refused when the producer has a newer epoch. A batch
  of an older epoch of the producer is refused and changes nothing. (Sequence numbers of the
  producer must not pass the largest 32-bit number; restarts are not steps.)\<close>

theorem produce_retry_is_duplicate:
  assumes "produce_batch_eos crc io batch pm = (pm', Produced b)" "rb_producer_id batch \<noteq> 0" "sequence_fits batch"
    and "(producer_step crc (rb_producer_id batch))\<^sup>*\<^sup>* pm' pm''"
  shows "produce_batch_eos crc io' batch pm' = (pm', DuplicateOf (batch_last_offset b)) \<and>
    (\<exists>e. map_of (ps_states (pm_producers pm'')) (rb_producer_id batch) = Some e \<and>
       produce_batch_eos crc io' batch pm'' =
         (pm'', if rb_producer_epoch batch < ps_epoch e then OutOfOrderSequence else DuplicateOf (ps_last_offset e))) \<and>
    (rb_producer_id old = rb_producer_id batch \<and> rb_producer_epoch old < rb_producer_epoch batch \<longrightarrow>
       produce_batch_eos crc io' old pm'' = (pm'', OutOfOrderSequence))"
proof -
  note st = produced_entry [OF assms(1-3)]
  have "rb_base_sequence batch \<le> rb_base_sequence batch + (int (rb_record_count batch) - 1)"
    using assms(3) by (simp add: sequence_fits_def)
  then have now: "sequence_covered (rb_producer_id batch) (rb_producer_epoch batch) (rb_base_sequence batch) pm'"
    "produce_batch_eos crc io' batch pm' = (pm', DuplicateOf (batch_last_offset b))"
    using st covered_is_refused [OF st assms(2)] by (simp_all add: sequence_covered_def)
  have "sequence_covered (rb_producer_id batch) (rb_producer_epoch batch) (rb_base_sequence batch) pm''"
    using assms(4) now(1) by (induction rule: rtranclp_induct) (auto intro: producer_step_covers)
  then obtain e where e: "map_of (ps_states (pm_producers pm'')) (rb_producer_id batch) = Some e"
    "rb_producer_epoch batch < ps_epoch e \<or>
     rb_producer_epoch batch = ps_epoch e \<and> rb_base_sequence batch \<le> ps_last_sequence e"
    by (auto simp: sequence_covered_def)
  have "produce_batch_eos crc io' old pm'' = (pm'', OutOfOrderSequence)"
    if "rb_producer_id old = rb_producer_id batch" "rb_producer_epoch old < rb_producer_epoch batch"
    using covered_is_refused [of pm'' old e] e that assms(2) by auto
  then show ?thesis using now(2) e covered_is_refused [OF e(1) assms(2) e(2)] by blast
qed

theorem produce_retry_is_duplicate_witness:
  "produce_batch_eos demo_crc demo_io demo_request demo_written = (demo_written, DuplicateOf 1) \<and>
   produce_batch_eos demo_crc demo_io demo_request demo_committed = (demo_committed, DuplicateOf 1) \<and>
   produce_batch_eos demo_crc demo_io (demo_request\<lparr>rb_producer_epoch := - 1\<rparr>) demo_committed =
     (demo_committed, OutOfOrderSequence)"
proof -
  have fits: "sequence_fits demo_request" "rb_producer_id demo_request \<noteq> 0"
    using demo_request_sel by (simp_all add: sequence_fits_def)
  have c: "advance_committed_hw True Replaced 7 demo_written = (demo_committed, True)"
    using demo_written_log by (simp add: demo_committed_def advance_committed_hw_def Let_def)
  then have run: "(producer_step demo_crc (rb_producer_id demo_request))\<^sup>*\<^sup>* demo_written demo_committed"
    by (intro r_into_rtranclp step_advance)
  have "pm_producers demo_committed = pm_producers demo_written"
    using demo_written_log by (simp add: demo_committed_def advance_committed_hw_def Let_def)
  then have "map_of (ps_states (pm_producers demo_committed)) (rb_producer_id demo_request) =
      Some \<lparr>ps_epoch = 0, ps_last_sequence = 1, ps_last_offset = 1\<rparr>"
    using produced_entry [OF demo_produce fits(2,1)] demo_request_sel demo_produced_sel by simp
  then show ?thesis
    using produce_retry_is_duplicate [OF demo_produce fits(2,1) run, of demo_io "demo_request\<lparr>rb_producer_epoch := - 1\<rparr>"]
      demo_request_sel demo_produced_sel by simp
qed

lemma fetch_next_batches:
  assumes leader: "partition_sound crc L" "length (log_image (log_batches crc (pm_segments L))) \<le> U64_MAX"
    and follower: "partition_sound crc F" "log_start (pm_segments F) = log_start (pm_segments L)"
      "log_batches crc (pm_segments L) = log_batches crc (pm_segments F) @ rest"
  shows "\<exists>inc later. rest = inc @ later \<and> (rest \<noteq> [] \<longrightarrow> inc \<noteq> []) \<and>
    fetch_entries_for_replication (pm_log_end_offset F) max_bytes L = log_image inc \<and>
    chained (pm_log_end_offset F) rest \<and> log_end (pm_log_end_offset F) rest = pm_log_end_offset L \<and>
    list_all (record_batch_ok crc) rest \<and> pm_log_end_offset L < 2 ^ 64"
proof -
  let ?l = "pm_segments L" and ?f = "pm_segments F" and ?s = "log_start (pm_segments L)"
  have ok: "manager_ok crc ?l" "pm_log_end_offset L = lm_high_watermark ?l"
    "manager_ok crc ?f" "pm_log_end_offset F = lm_high_watermark ?f"
    using leader(1) follower(1) by (simp_all add: partition_sound_def)
  note lc = manager_ok_chained [OF ok(1)] and fc = manager_ok_chained [OF ok(3)]
  have leo: "log_end ?s (log_batches crc ?f) = pm_log_end_offset F" using fc(2) follower(2) ok(4) by simp
  have tail: "chained (pm_log_end_offset F) rest" "log_end (pm_log_end_offset F) rest = pm_log_end_offset L"
    using lc(1,2) follower(3) leo ok(2) by simp_all
  have le: "?s \<le> pm_log_end_offset F" "pm_log_end_offset F \<le> lm_high_watermark ?l"
    using leo log_end_ge [of ?s "log_batches crc ?f"] tail(2) log_end_ge [of "pm_log_end_offset F" rest] ok(2)
    by simp_all
  obtain sk inc more' where s: "log_batches crc ?l = sk @ inc @ more'"
    "served (pm_log_end_offset F) (pm_log_end_offset L) sk inc more'"
    "fetch_entries (pm_log_end_offset F) max_bytes (pm_log_end_offset L) ?l = log_image inc"
    using fetch_serves_log [OF ok(1) le leader(2)] by metis
  have lasts: "batch_last_offset b = rb_base_offset b + rb_last_offset_delta b" if "b \<in> set (log_batches crc ?l)" for b
    using chained_last_exact [OF lc(1) _ that] lc(2,4) by simp
  have below: "\<forall>b\<in>set (log_batches crc ?f). batch_last_offset b < pm_log_end_offset F"
    using chained_last_less [OF fc(1)] fc(2) ok(4) lasts follower(3) by fastforce
  have above: "\<forall>b\<in>set rest. pm_log_end_offset F \<le> batch_last_offset b"
    using chained_base_ge [OF tail(1)] lasts follower(3) by fastforce
  have inc: "inc \<noteq> []" if "rest \<noteq> []"
  proof
    assume "inc = []"
    then consider "more' = []" | z where "z \<in> set (log_batches crc ?l)" "pm_log_end_offset L \<le> batch_last_offset z"
      using s(1,2) by (cases more') (auto simp: served_def)
    then show False
    proof cases
      case 1
      then have "set rest \<subseteq> set sk" using s(1) follower(3) \<open>inc = []\<close> by auto
      then show False using above s(2) that by (fastforce simp: served_def neq_Nil_conv)
    next
      case 2
      then show False using chained_last_less [OF lc(1) 2(1)] lasts [OF 2(1)] lc(2) ok(2) by simp
    qed
  qed
  have f: "fetch_entries_for_replication (pm_log_end_offset F) max_bytes L = log_image inc"
    using s(3) by (simp add: fetch_entries_for_replication_def)
  have r: "list_all (record_batch_ok crc) rest" "pm_log_end_offset L < 2 ^ 64" using lc(3,4) follower(3) ok(2) by simp_all
  show ?thesis
  proof (cases "inc = []")
    case True
    then show ?thesis using inc f tail r by (intro exI [of _ "[]"] exI [of _ rest]) auto
  next
    case False
    have "sk = log_batches crc ?f \<and> inc @ more' = rest"
      by (rule split_unique [where P = "\<lambda>b. batch_last_offset b < pm_log_end_offset F"])
        (use s(1,2) follower(3) below above False in \<open>auto simp: served_def not_less\<close>)
    then show ?thesis using f tail r False by (intro exI [of _ inc] exI [of _ more']) auto
  qed
qed

lemma append_fetched:
  assumes F: "partition_sound crc F" "chained (pm_log_end_offset F) (inc @ later)"
      "list_all (record_batch_ok crc) inc" "log_end (pm_log_end_offset F) (inc @ later) = e"
    and room: "e < 2 ^ 64" "e < sp_base_offset (lm_active (pm_segments F)) + 2 ^ 32"
      "cf_max_segment_bytes (lm_config (pm_segments F)) \<le> 2 ^ 32" "\<And>k. ap_index (ios k) = Written"
    and run: "append_replica_entries_verbatim crc ios (log_image inc) F = (F', r)"
  shows "\<exists>got missing. inc = got @ missing \<and> partition_sound crc F' \<and>
    log_batches crc (pm_segments F') = log_batches crc (pm_segments F) @ got \<and>
    pm_committed_hw F' = pm_committed_hw F \<and> (r \<noteq> None \<longrightarrow> missing = [])"
proof -
  have "chained (pm_log_end_offset F) inc" "log_end (pm_log_end_offset F) inc \<le> e"
    using F(2,4) log_end_ge [of "log_end (pm_log_end_offset F) inc" later] by auto
  then have "\<exists>xs ys. inc = xs @ ys \<and> partition_sound crc F' \<and> pm_committed_hw F' = pm_committed_hw F \<and>
      partition_batches crc F' = partition_batches crc F @ xs \<and> (r \<noteq> None \<longrightarrow> ys = [])"
    using replicate_loop_image [OF F(1) _ F(3) _ _ room(3,4) run [unfolded append_replica_entries_verbatim_def]] room(1,2)
    by simp
  then show ?thesis by blast
qed

text \<open>C6 A replica's log is a prefix of its leader's and grows.
  A follower whose log is a prefix of the leader's fetches from its own log end and appends
  the bytes it gets. Whatever the budget of the fetch and whichever writes fail, its log is
  again a prefix of the leader's and extends what it had; and if no write failed and the leader
  had more, the follower has got more.\<close>

theorem replica_follows_leader:
  assumes leader: "partition_sound crc L" "length (log_image (log_batches crc (pm_segments L))) \<le> U64_MAX"
    and follower: "partition_sound crc F" "log_start (pm_segments F) = log_start (pm_segments L)"
      "log_batches crc (pm_segments L) = log_batches crc (pm_segments F) @ rest"
    and room: "pm_log_end_offset L < sp_base_offset (lm_active (pm_segments F)) + 2 ^ 32"
      "cf_max_segment_bytes (lm_config (pm_segments F)) \<le> 2 ^ 32" "\<And>k. ap_index (ios k) = Written"
    and "append_replica_entries_verbatim crc ios
      (fetch_entries_for_replication (pm_log_end_offset F) max_bytes L) F = (F', r)"
  shows "\<exists>got missing. rest = got @ missing \<and> partition_sound crc F' \<and>
    log_batches crc (pm_segments F') = log_batches crc (pm_segments F) @ got \<and>
    pm_committed_hw F' = pm_committed_hw F \<and> (r \<noteq> None \<and> rest \<noteq> [] \<longrightarrow> got \<noteq> [])"
proof -
  obtain inc later where f: "rest = inc @ later" "rest \<noteq> [] \<longrightarrow> inc \<noteq> []"
    "fetch_entries_for_replication (pm_log_end_offset F) max_bytes L = log_image inc"
    "chained (pm_log_end_offset F) rest" "log_end (pm_log_end_offset F) rest = pm_log_end_offset L"
    "list_all (record_batch_ok crc) rest" "pm_log_end_offset L < 2 ^ 64"
    using fetch_next_batches [OF leader follower, of max_bytes] by blast
  have "chained (pm_log_end_offset F) (inc @ later)" "list_all (record_batch_ok crc) inc"
    "log_end (pm_log_end_offset F) (inc @ later) = pm_log_end_offset L" using f by simp_all
  from append_fetched [OF follower(1) this f(7) room assms(9) [unfolded f(3)]]
  obtain got missing where "inc = got @ missing" "partition_sound crc F'"
    "log_batches crc (pm_segments F') = log_batches crc (pm_segments F) @ got"
    "pm_committed_hw F' = pm_committed_hw F" "r \<noteq> None \<longrightarrow> missing = []" by blast
  then show ?thesis using f(1,2) by (intro exI [of _ got] exI [of _ "missing @ later"]) auto
qed

lemma demo_written_ok: "partition_sound demo_crc demo_written" "partition_sound demo_crc demo_empty"
  by (rule partition_reach_ok [of demo_crc, OF demo_crc_less], rule demo_written_reach demo_empty_reach)+


lemma demo_empty_log:
  "log_batches demo_crc (pm_segments demo_empty) = []" "log_start (pm_segments demo_empty) = 0"
  "sp_base_offset (lm_active (pm_segments demo_empty)) = 0" "lm_config (pm_segments demo_empty) = demo_config"
proof -
  show b: "log_start (pm_segments demo_empty) = 0" "sp_base_offset (lm_active (pm_segments demo_empty)) = 0"
    "lm_config (pm_segments demo_empty) = demo_config"
    by (simp_all add: demo_empty_def log_start_def open_manager_def open_pair_def open_at_path_with_trust_def Let_def)
  show "log_batches demo_crc (pm_segments demo_empty) = []"
    using manager_ok_chained(1,2) [of demo_crc "pm_segments demo_empty"] demo_written_ok(2) b
      open_manager_empty(2) [of demo_crc demo_config False 0]
    by (cases "log_batches demo_crc (pm_segments demo_empty)") (auto simp: partition_sound_def demo_empty_def log_end_def)
qed

lemma demo_fetched: "fetch_entries_for_replication 0 0 demo_written = encode_record_batch demo_produced"
proof -
  have len: "length (log_image [demo_produced]) \<le> U64_MAX"
    using demo_produced_sel by (simp add: length_encode_record_batch)
  have m: "manager_ok demo_crc (pm_segments demo_written)" "lm_high_watermark (pm_segments demo_written) = 2"
    using demo_written_ok(1) demo_written_log(2) by (simp_all add: partition_sound_def)
  obtain sk inc rest where s: "[demo_produced] = sk @ inc @ rest" "served 0 2 sk inc rest"
    "fetch_entries 0 0 2 (pm_segments demo_written) = log_image inc"
    using fetch_serves_log [OF m(1), of 0 2 0] demo_written_log len m(2) by auto
  have "inc = [demo_produced]"
    using s(1,2) demo_produced_sel by (cases sk; cases inc) (auto simp: served_def)
  then show ?thesis using s(3) demo_written_log by (simp add: fetch_entries_for_replication_def)
qed

definition demo_replica :: PartitionManager where
  "demo_replica = fst (append_replica_entries_verbatim demo_crc (\<lambda>_. demo_append_io)
     (fetch_entries_for_replication 0 0 demo_written) demo_empty)"

lemma demo_verbatim:
  "snd (append_batch_verbatim demo_crc demo_append_io demo_produced (pm_segments demo_empty)) = Some Appended"
  using open_manager_empty(2) [of demo_crc demo_config False 0] demo_produced_sel
  by (simp add: append_batch_verbatim_def store_batch_def maybe_rotate_before_append_def should_roll_by_time_def Let_def
      demo_empty_def demo_config_def demo_append_io_def open_manager_def open_pair_def open_at_path_with_trust_def
      append_batch_to_active_def append_bytes_def index_batch_def append_index_def set_active_log_def
      open_index_def INDEX_ENTRY_SIZE_def case_prod_unfold)

lemma demo_replica_run:
  "append_replica_entries_verbatim demo_crc (\<lambda>_. demo_append_io)
     (fetch_entries_for_replication 0 0 demo_written) demo_empty = (demo_replica, Some (1, Appended))"
proof -
  have ok: "record_batch_ok demo_crc demo_produced"
    using demo_written_ok(1) manager_ok_chained(3) [of demo_crc "pm_segments demo_written"] demo_written_log(1)
    by (simp add: partition_sound_def)
  obtain segs where v: "append_batch_verbatim demo_crc demo_append_io demo_produced (pm_segments demo_empty) = (segs, Some Appended)"
    using demo_verbatim by (cases "append_batch_verbatim demo_crc demo_append_io demo_produced (pm_segments demo_empty)") simp
  have "decode_entry demo_crc (encode_record_batch demo_produced) = Inr (Batch demo_produced, 94)"
    using decode_entry_encode [OF ok, of "[]"] demo_produced_sel by simp
  moreover have "encode_record_batch demo_produced \<noteq> []" "drop 94 (encode_record_batch demo_produced) = []"
    using length_encode_record_batch [of demo_produced] demo_produced_sel by auto
  ultimately have "snd (append_replica_entries_verbatim demo_crc (\<lambda>_. demo_append_io)
     (fetch_entries_for_replication 0 0 demo_written) demo_empty) = Some (1, Appended)"
    using v unfolding append_replica_entries_verbatim_def demo_fetched
    by (simp add: replicate_loop.simps [of _ _ _ "encode_record_batch demo_produced"]
        replicate_loop.simps [of _ _ _ "[]"])
  then show ?thesis by (simp add: demo_replica_def prod_eq_iff)
qed

theorem replica_follows_leader_witness:
  "log_batches demo_crc (pm_segments demo_replica) = [demo_produced] \<and> pm_committed_hw demo_replica = 0"
proof -
  have len: "length (log_image (log_batches demo_crc (pm_segments demo_written))) \<le> U64_MAX"
    using demo_produced_sel demo_written_log by (simp add: length_encode_record_batch)
  have e: "pm_log_end_offset demo_empty = 0" "pm_committed_hw demo_empty = 0" by (simp_all add: demo_empty_def)
  obtain got missing where "[demo_produced] = got @ missing" "got \<noteq> []"
    "log_batches demo_crc (pm_segments demo_replica) = got" "pm_committed_hw demo_replica = 0"
    using replica_follows_leader [OF demo_written_ok(1) len demo_written_ok(2), of "[demo_produced]"
        "\<lambda>_. demo_append_io" 0 demo_replica "Some (1, Appended)"]
      demo_replica_run demo_empty_log demo_written_log e
    by (auto simp: demo_append_io_def demo_config_def)
  then show ?thesis by (cases got) auto
qed

text \<open>C9 Truncation keeps exactly the batches below the offset.
  When a partition's log is truncated, without an error of the file system, at an offset that lies
  in the active segment or above the start of the log, exactly the batches that end below the
  offset remain - a batch the offset falls into goes as a whole - the log end is the end of
  what remains, and the committed watermark becomes the smaller of what it was and the new log end.
  Truncations at an offset below the active segment and not above the start of the log, and
  truncations that fail, are not covered.\<close>

theorem truncate_keeps_prefix:
  assumes "\<And>x. crc x < 4294967296" "partition_reach crc pm"
    and "sp_base_offset (lm_active (pm_segments pm)) \<le> off \<or> log_start (pm_segments pm) < off"
    and "truncate_partition crc io off pm = (pm', True)"
  shows "log_batches crc (pm_segments pm') =
      filter (\<lambda>b. batch_last_offset b < off) (log_batches crc (pm_segments pm)) \<and>
    pm_log_end_offset pm' = log_end (log_start (pm_segments pm)) (log_batches crc (pm_segments pm')) \<and>
    pm_committed_hw pm' = min (pm_committed_hw pm) (pm_log_end_offset pm')"
proof -
  have ok: "partition_sound crc pm" by (rule partition_reach_ok [of crc, OF assms(1,2)])
  note t = truncate_partition_ok [OF ok assms(3,4)]
  then have "manager_ok crc (pm_segments pm')" "pm_log_end_offset pm' = lm_high_watermark (pm_segments pm')"
    by (simp_all add: partition_sound_def)
  with manager_ok_chained(2) t show ?thesis by metis
qed

definition demo_trunc_io :: trunc_io where
  "demo_trunc_io = \<lparr>tr_log = LogDone, tr_index = Writes [] True, tr_time = Writes [] True, tr_txn = Writes [] True\<rparr>"

lemma rewrite_entries_done: "snd (rewrite_entries enc (Writes [] True) new st)"
proof -
  have "snd (push_entries enc [] new st)" for st
    by (induction new arbitrary: st) (auto simp: push_entry_def split: prod.splits)
  then show ?thesis by (simp add: rewrite_entries_def case_prod_unfold)
qed

lemma truncate_done: "snd (truncate_segment_pair crc demo_trunc_io off p) \<noteq> None"
  by (simp add: rewrite_entries_done truncate_segment_pair_def truncate_to_def truncate_index_after_def truncate_and_rebuild_def
      truncate_time_after_def truncate_txn_after_def demo_trunc_io_def Let_def case_prod_unfold)

definition demo_truncated :: PartitionManager where
  "demo_truncated = fst (truncate_partition demo_crc demo_trunc_io 1 demo_committed)"

lemma truncate_after_done: "snd (truncate_after crc demo_trunc_io off m)"
proof -
  have t: "\<exists>p' eff. truncate_segment_pair crc demo_trunc_io off p = (p', Some eff)" for p
    using truncate_done [of crc off p] by (cases "truncate_segment_pair crc demo_trunc_io off p") auto
  obtain p1 e1 where "truncate_segment_pair crc demo_trunc_io off
      (last (filter (\<lambda>p. sp_base_offset p < off) (lm_historical m))) = (p1, Some e1)" using t by blast
  moreover obtain p2 e2 where "truncate_segment_pair crc demo_trunc_io off (lm_active m) = (p2, Some e2)"
    using t by blast
  ultimately show ?thesis by (simp add: truncate_after_def Let_def)
qed

lemma demo_truncate: "truncate_partition demo_crc demo_trunc_io 1 demo_committed = (demo_truncated, True)"
proof -
  obtain segs where "truncate_after demo_crc demo_trunc_io 1 (pm_segments demo_committed) = (segs, True)"
    using truncate_after_done [of demo_crc 1 "pm_segments demo_committed"]
    by (cases "truncate_after demo_crc demo_trunc_io 1 (pm_segments demo_committed)") simp
  then show ?thesis by (simp add: demo_truncated_def truncate_partition_def Let_def)
qed

theorem truncate_keeps_prefix_witness:
  "log_batches demo_crc (pm_segments demo_truncated) = [] \<and> pm_log_end_offset demo_truncated = 0 \<and>
   pm_committed_hw demo_truncated = 0"
  using truncate_keeps_prefix [of demo_crc, OF demo_crc_less demo_committed_reach _ demo_truncate]
    demo_committed_sel demo_written_log demo_produced_sel by simp

text \<open>C5 Nothing committed is lost by a crash.
  A crash leaves the files the directory names, and of the active file a prefix that holds at
  least the batches that begin below the checkpoint of the committed watermark, which are synced
  before the checkpoint is written; it may cut the file inside a batch. If the checkpoint is not
  beyond the log end, the partition then opens, whatever the state of the index and of the producer
  snapshot is; its log is what was there before up to a suffix of batches behind the committed
  watermark, and the watermark has not moved back. If the checkpoint is beyond the log end,
  which a truncation below the committed watermark brings about, opening is refused. The
  partition's past is any of \<open>partition_life\<close> in which every batch fits a segment; a larger one can make
  a trim remove the active file (\<open>oversized_batch_loses_files\<close>).\<close>

theorem restart_keeps_commits:
  assumes "\<And>x. crc x < 4294967296" "partition_life crc True pm" "crash_files (pm_segments pm) n files"
    and "pm_checkpoint pm = Some ck"
    and "length (log_image (filter (\<lambda>b. rb_base_offset b < be_val ck)
      (stored_batches crc (lm_active (pm_segments pm))))) \<le> n"
  shows "if be_val ck \<le> pm_log_end_offset pm
    then \<exists>pm' lost. open_partition crc cfg node codec policy mapped now io files (pm_checkpoint pm) snap = Inr pm' \<and>
      log_batches crc (pm_segments pm) = log_batches crc (pm_segments pm') @ lost \<and>
      (\<forall>b\<in>set lost. pm_committed_hw pm' \<le> rb_base_offset b) \<and>
      pm_committed_hw pm \<le> pm_committed_hw pm' \<and> pm_committed_hw pm' \<le> pm_log_end_offset pm'
    else open_partition crc cfg node codec policy mapped now io files (pm_checkpoint pm) snap = Inl CheckpointExceedsLog"
proof -
  let ?m = "pm_segments pm" and ?m' = "open_manager crc cfg mapped now files"
  have linked: "files_linked ?m" using partition_life_names [of crc, OF assms(1,2)] by (simp add: names_intact_def)
  have sound: "partition_sound crc pm" by (rule partition_reach_ok [of crc, OF assms(1,2)])
  then obtain hs bs where m: "manager_holds crc hs bs ?m" by (auto simp: partition_sound_def manager_ok_def)
  then have bs: "stored_batches crc (lm_active ?m) = bs" "chained (sp_base_offset (lm_active ?m)) bs"
    "log_end (sp_base_offset (lm_active ?m)) bs = pm_log_end_offset pm"
    using sound by (simp_all add: manager_holds_def stored_batches_holds pair_holds_def partition_sound_def)
  obtain hs' kept lost where k: "bs = kept @ lost"
    "if lost = [] then n = length (log_image bs) else n < length (log_image (kept @ [hd lost]))"
    "manager_holds crc hs' kept ?m'" "sp_base_offset (lm_active ?m') = sp_base_offset (lm_active ?m)"
    "concat hs' = concat hs"
    using open_manager_recovers [OF m linked assms(3), of cfg mapped now] by blast
  have hw: "lm_high_watermark ?m' = log_end (sp_base_offset (lm_active ?m)) kept"
    using k(3,4) by (simp add: manager_holds_def)
  have le: "lm_high_watermark ?m' \<le> pm_log_end_offset pm"
    using hw bs(3) k(1) log_end_ge [of "log_end (sp_base_offset (lm_active ?m)) kept" lost] by simp
  have ck8: "length ck = 8" "pm_committed_hw pm \<le> be_val ck"
    using partition_reach_checkpoint [of crc, OF assms(1,2)] assms(4) by (simp_all add: checkpoint_covers_def)
  show ?thesis
  proof (cases "be_val ck \<le> pm_log_end_offset pm")
    case False
    then show ?thesis using le ck8(1) assms(4) by (simp add: open_partition_def Let_def)
  next
    case within: True
    have ck: "be_val ck \<le> lm_high_watermark ?m'"
    proof (cases "lost = []")
      case True
      then show ?thesis using k(1) bs(3) hw within by simp
    next
      case False
      then show ?thesis
        using kept_covers [of "sp_base_offset (lm_active ?m)" kept lost "be_val ck" n] bs(1,2) k(1,2) assms(5) hw by simp
    qed
    from this ck8(1) obtain pm' where
      "open_partition crc cfg node codec policy mapped now io files (Some ck) snap = Inr pm'"
      "pm_segments pm' = ?m'" "pm_committed_hw pm' = be_val ck" "pm_log_end_offset pm' = lm_high_watermark ?m'"
      by (simp add: open_partition_def Let_def)
    moreover have "log_batches crc ?m = log_batches crc ?m' @ lost"
      using log_batches_holds [OF m] log_batches_holds [OF k(3)] k(1,5) by simp
    moreover have "\<forall>b\<in>set lost. be_val ck \<le> rb_base_offset b"
      using chained_base_ge [of "log_end (sp_base_offset (lm_active ?m)) kept" lost] bs(2) k(1) ck hw by fastforce
    ultimately show ?thesis using assms(4) ck ck8(2) within by auto
  qed
qed

lemma demo_written_active:
  "lm_historical (pm_segments demo_written) = []" "sp_base_offset (lm_active (pm_segments demo_written)) = 0"
  "lm_unlinked (pm_segments demo_written) = []"
proof -
  have "lm_historical (fst (append_batch demo_crc demo_append_io demo_request 0 (pm_segments demo_empty))) = [] \<and>
      sp_base_offset (lm_active (fst (append_batch demo_crc demo_append_io demo_request 0 (pm_segments demo_empty)))) = 0 \<and>
      lm_unlinked (fst (append_batch demo_crc demo_append_io demo_request 0 (pm_segments demo_empty))) = []"
    using open_manager_empty(2) [of demo_crc demo_config False 0] demo_produced_sel
    by (simp add: demo_append_defs)
  moreover have "pm_segments demo_written = fst (append_batch demo_crc demo_append_io demo_request 0 (pm_segments demo_empty))"
  proof -
    have "check_sequence 9 0 0 demo_empty = None"
      by (simp add: check_sequence_def validate_sequence_def demo_empty_def open_producers_def)
    then show ?thesis
      using demo_append demo_request_sel
      by (auto simp: demo_written_def produce_batch_eos_def demo_io_def demo_empty_def split: prod.splits option.splits)
  qed
  ultimately show "lm_historical (pm_segments demo_written) = []" "sp_base_offset (lm_active (pm_segments demo_written)) = 0"
    "lm_unlinked (pm_segments demo_written) = []"
    by simp_all
qed

definition demo_files :: "(offset \<times> segment_files) list" where
  "demo_files =
     [(0, \<lparr>sf_log = Some [take 20 (log_image [demo_produced]), drop 20 (log_image [demo_produced]), replicate 9 0],
           sf_clean = None, sf_index = [7, 7, 7], sf_time_index = [], sf_txn_index = []\<rparr>)]"

lemma demo_committed_holds: "manager_holds demo_crc [] [demo_produced] (pm_segments demo_committed)"
proof -
  obtain hs bs where m: "manager_holds demo_crc hs bs (pm_segments demo_committed)"
    using partition_reach_ok [of demo_crc, OF demo_crc_less demo_committed_reach]
    by (auto simp: partition_sound_def manager_ok_def)
  then have "hs = []" using demo_written_active(1) demo_committed_sel(1) by (simp add: manager_holds_def)
  then show ?thesis using m log_batches_holds [OF m] demo_written_log(1) demo_committed_sel(1) by simp
qed

text \<open>
  A truncation that fails in the sync behind its cut: the records are gone from the file, while the
  log end still lies behind them.
\<close>

lemma failed_truncation_keeps_log_end:
  "\<exists>pm'. truncate_partition demo_crc (demo_trunc_io\<lparr>tr_log := SyncError\<rparr>) 1 demo_committed = (pm', False) \<and>
     lg_file (sp_log (lm_active (pm_segments pm'))) = [] \<and> pm_log_end_offset pm' = 2"
proof -
  let ?m = "pm_segments demo_committed"
  have m: "lm_historical ?m = []" "sp_base_offset (lm_active ?m) = 0" "lm_high_watermark ?m = 2"
    "pair_holds demo_crc ([] @ [demo_produced]) (lm_active ?m)"
    using demo_committed_holds demo_written_active demo_committed_sel(1) demo_produced_sel by (simp_all add: manager_holds_def)
  have "physical_pos_for_offset demo_crc 1 (lm_active ?m) = (0, 0)"
    using physical_pos_holds [OF m(4), of 1] m(2) demo_produced_sel by simp
  then have "truncate_segment_pair demo_crc (demo_trunc_io\<lparr>tr_log := SyncError\<rparr>) 1 (lm_active ?m) =
      ((lm_active ?m)\<lparr>sp_log := (sp_log (lm_active ?m))\<lparr>lg_file := []\<rparr>\<rparr>, None)"
    by (simp add: truncate_segment_pair_def truncate_to_def set_len_def)
  then show ?thesis
    using m demo_committed_sel(3) by (simp add: truncate_partition_def truncate_after_def Let_def)
qed

lemma demo_crash: "crash_files (pm_segments demo_committed) (length (log_image [demo_produced])) demo_files"
proof -
  note m = demo_committed_holds
  have p: "lg_physical_size (sp_log (lm_active (pm_segments demo_committed))) = length (log_image [demo_produced])"
    "take (length (log_image [demo_produced])) (lg_file (sp_log (lm_active (pm_segments demo_committed)))) = log_image [demo_produced]"
    using m by (auto simp: manager_holds_def pair_holds_def)
  have "length (log_image [demo_produced]) \<le> 2 ^ 32" using demo_produced_sel by (simp add: length_encode_record_batch)
  then have "active_survives (lm_active (pm_segments demo_committed)) (length (log_image [demo_produced])) (hd demo_files)"
    using p demo_written_active(2) demo_committed_sel(1)
    by (auto simp: active_survives_def demo_files_def intro!: exI [of _ 9])
  then show ?thesis
    using demo_written_active(1,3) demo_committed_sel(1)
    by (auto simp: crash_files_def demo_files_def dir_history_def)
qed

theorem restart_keeps_commits_witness:
  "\<exists>pm'. open_partition demo_crc demo_config 1 CodecNone SyncEveryBatch False 0 Replaced demo_files (Some (be_bytes 8 2)) None = Inr pm' \<and>
     log_batches demo_crc (pm_segments pm') = [demo_produced] \<and> pm_committed_hw pm' = 2"
proof -
  have ck: "pm_checkpoint demo_committed = Some (be_bytes 8 2)" "be_val (be_bytes 8 2) = 2"
    using demo_written_log by (simp_all add: demo_committed_def advance_committed_hw_def Let_def be_val_be_bytes_exact)
  have "length (log_image (filter P (stored_batches demo_crc (lm_active (pm_segments demo_committed)))))
      \<le> length (log_image [demo_produced])" for P
    using demo_written_log(1) demo_written_active(1) demo_committed_sel(1) by (simp add: log_batches_def)
  then obtain pm' lost where
    "open_partition demo_crc demo_config 1 CodecNone SyncEveryBatch False 0 Replaced demo_files (Some (be_bytes 8 2)) None = Inr pm'"
    "[demo_produced] = log_batches demo_crc (pm_segments pm') @ lost" "\<forall>b\<in>set lost. pm_committed_hw pm' \<le> rb_base_offset b"
    "2 \<le> pm_committed_hw pm'" "pm_committed_hw pm' \<le> pm_log_end_offset pm'"
    using restart_keeps_commits [of demo_crc, OF demo_crc_less demo_committed_reach demo_crash ck(1),
        of demo_config 1 CodecNone SyncEveryBatch False 0 Replaced None] ck demo_committed_sel demo_written_log by auto
  moreover from this have "lost = []" using demo_produced_sel by (cases "log_batches demo_crc (pm_segments pm')") auto
  moreover have "pm_committed_hw pm' = 2" using calculation(1) ck(2) by (auto simp: open_partition_def Let_def split: if_splits)
  ultimately show ?thesis by simp
qed

end
