(* ===== verification/Data_Replication.thy ===== *)
theory Data_Replication
  imports Partition_Log Envelope
begin

text \<open>
  Replication of a data partition: followers pull the leader's log (the fetcher loop of
  \<^verbatim>\<open>src/replication/mod.rs\<close>), the leader learns from their fetch offsets what they hold
  (\<open>handle_replication_fetch\<close> of \<^verbatim>\<open>src/server/handler.rs\<close>), and a produced batch is committed
  once every in-sync replica has it (\<open>await_full_isr_ack\<close> and the end of \<open>produce_batch_local\<close>
  of \<^verbatim>\<open>src/server/engine.rs\<close>). One leader and its followers are an inductive step relation.
\<close>

section \<open>What the leader knows of its replicas\<close>

record ReplicationState =
  rm_watermarks :: "((string \<times> nat \<times> string) \<times> offset) list"
  rm_ack_time :: "((string \<times> nat \<times> string) \<times> nat) list"

definition update_replica_watermark ::
  "nat \<Rightarrow> string \<Rightarrow> nat \<Rightarrow> string \<Rightarrow> offset \<Rightarrow> ReplicationState \<Rightarrow> ReplicationState" where
  "update_replica_watermark now topic part peer_addr off rm =
     rm\<lparr>rm_watermarks := AList.update (topic, part, peer_addr) off (rm_watermarks rm),
        rm_ack_time := AList.update (topic, part, peer_addr) now (rm_ack_time rm)\<rparr>"

definition replica_watermark :: "string \<Rightarrow> nat \<Rightarrow> string \<Rightarrow> ReplicationState \<Rightarrow> offset option" where
  "replica_watermark topic part peer_addr rm = map_of (rm_watermarks rm) (topic, part, peer_addr)"

definition replica_ack_age :: "nat \<Rightarrow> string \<Rightarrow> nat \<Rightarrow> string \<Rightarrow> ReplicationState \<Rightarrow> nat option" where
  "replica_ack_age now topic part peer_addr rm =
     map_option (\<lambda>t. now - t) (map_of (rm_ack_time rm) (topic, part, peer_addr))"

text \<open>What the engine of a node knows: itself, its peers, the addresses of brokers, and the
  \<open>min.insync.replicas\<close> in force for the topic.\<close>

record EngineView =
  ev_node_id :: nat
  ev_peer_addrs :: "string list"
  ev_broker_addrs :: "(nat \<times> string) list"
  ev_min_isr :: nat

definition get_broker_address :: "EngineView \<Rightarrow> nat \<Rightarrow> string option" where
  "get_broker_address ev node_id = map_of (ev_broker_addrs ev) node_id"

section \<open>Waiting for the in-sync replicas\<close>

datatype isr_error = TooFewAcks nat nat | NotEnoughReplicas nat nat | MissingAcks "nat list"

text \<open>One round of the wait: done, still waiting (with the error a timeout gives), or refused.\<close>

datatype isr_verdict = IsrAcked | IsrPending isr_error | IsrRefused isr_error

definition peer_acked :: "ReplicationState \<Rightarrow> string \<Rightarrow> nat \<Rightarrow> offset \<Rightarrow> string \<Rightarrow> bool" where
  "peer_acked rm topic part target peer =
     (case replica_watermark topic part peer rm of None \<Rightarrow> False | Some w \<Rightarrow> target \<le> w)"

definition isr_poll ::
  "EngineView \<Rightarrow> ReplicationState \<Rightarrow> string \<Rightarrow> nat \<Rightarrow> offset \<Rightarrow> nat list \<Rightarrow> isr_verdict" where
  "isr_poll ev rm topic part target isr =
     (if isr = []
      then (let acked = 1 + length (filter (peer_acked rm topic part target) (ev_peer_addrs ev)) in
            if ev_min_isr ev \<le> acked then IsrAcked else IsrPending (TooFewAcks acked (ev_min_isr ev)))
      else if length isr < ev_min_isr ev then IsrRefused (NotEnoughReplicas (length isr) (ev_min_isr ev))
      else (let missing = filter (\<lambda>n. n \<noteq> ev_node_id ev \<and>
                  \<not> (case get_broker_address ev n of
                       None \<Rightarrow> False | Some addr \<Rightarrow> peer_acked rm topic part target addr)) isr
            in if missing = [] then IsrAcked else IsrPending (MissingAcks missing)))"

text \<open>
  The loop. The in-sync set and the watermarks are read anew in every round; \<open>rounds\<close> are what
  the rounds after the first one find, until the timeout has passed.
\<close>

fun await_full_isr_ack ::
  "EngineView \<Rightarrow> string \<Rightarrow> nat \<Rightarrow> offset \<Rightarrow> nat list \<times> ReplicationState \<Rightarrow> (nat list \<times> ReplicationState) list \<Rightarrow> isr_error + unit" where
  "await_full_isr_ack ev topic part target (isr, rm) rounds =
     (case isr_poll ev rm topic part target isr of
        IsrAcked \<Rightarrow> Inr ()
      | IsrRefused e \<Rightarrow> Inl e
      | IsrPending e \<Rightarrow>
          (case rounds of [] \<Rightarrow> Inl e | r # rs \<Rightarrow> await_full_isr_ack ev topic part target r rs))"

section \<open>Producing with acknowledgement of the replicas\<close>

text \<open>The blocking part of a produce request: first and last offset, or an error.\<close>

definition produce_append ::
  "(bytes \<Rightarrow> nat) \<Rightarrow> produce_io \<Rightarrow> bool \<Rightarrow> RecordBatch \<Rightarrow> PartitionManager \<Rightarrow> PartitionManager \<times> (offset \<times> offset) option" where
  "produce_append crc io flushed batch pm =
     (case produce_batch_eos crc io batch pm of
        (pm1, r) \<Rightarrow>
          (case (case r of
                   Produced b \<Rightarrow> Some (rb_base_offset b, batch_last_offset b)
                 | DuplicateOf lst \<Rightarrow> Some (lst - sub64 (rb_record_count batch) 1, lst)
                 | _ \<Rightarrow> None) of
             None \<Rightarrow> (pm1, None)
           | Some offs \<Rightarrow>
               (case flush_if_sync_policy flushed pm1 of (pm2, ok) \<Rightarrow> (pm2, if ok then Some offs else None))))"

datatype commit_result = NotYet isr_error | Refused isr_error | CommitFailed | CommitDone

text \<open>A round of the wait, where there is one, and the commit behind it, for a write outside the
  distributed transactions.\<close>

definition commit_produced ::
  "EngineView \<Rightarrow> bool \<Rightarrow> ReplicationState \<Rightarrow> string \<Rightarrow> nat \<Rightarrow> bool \<Rightarrow> replace_io \<Rightarrow> offset \<Rightarrow> PartitionManager
    \<Rightarrow> PartitionManager \<times> commit_result" where
  "commit_produced ev leads rm topic part synced rio lst pm =
     (let verdict =
            (if leads \<and> ev_peer_addrs ev \<noteq> [] \<and> 1 < ev_min_isr ev
             then isr_poll ev rm topic part lst (pm_isr pm) else IsrAcked)
      in case verdict of
           IsrPending e \<Rightarrow> (pm, NotYet e)
         | IsrRefused e \<Rightarrow> (pm, Refused e)
         | IsrAcked \<Rightarrow>
             (case advance_committed_hw synced rio (add64 lst 1) pm of
                (pm', ok) \<Rightarrow> (pm', if ok then CommitDone else CommitFailed)))"

section \<open>Serving and applying fetches\<close>

definition handle_replication_fetch ::
  "EngineView \<Rightarrow> bool \<Rightarrow> nat \<Rightarrow> ReplicationFetchRequest \<Rightarrow> PartitionManager option \<Rightarrow> ReplicationState
    \<Rightarrow> ReplicationState \<times> ReplicationFetchResponse" where
  "handle_replication_fetch ev leads now req opened rm =
     (case (if leads then opened else None) of
        None \<Rightarrow> (rm, \<lparr>rs_leader_watermark = 0, rs_isr_count = 0, rs_entries = []\<rparr>)
      | Some pm \<Rightarrow>
          (let entries = fetch_entries_for_replication (rf_fetch_offset req) (rf_max_bytes req) pm;
               rm' = (if 0 < rf_fetch_offset req
                      then (case get_broker_address ev (rf_follower_node_id req) of
                              Some addr \<Rightarrow> update_replica_watermark now (rf_topic req) (rf_partition req) addr
                                             (rf_fetch_offset req - 1) rm
                            | None \<Rightarrow> rm)
                      else rm)
           in (rm', \<lparr>rs_leader_watermark = pm_committed_hw pm, rs_isr_count = 1, rs_entries = entries\<rparr>)))"

text \<open>The offset a follower asks for; what it has is synced first. \<open>None\<close> is a failed sync.\<close>

definition next_fetch_offset :: "bool \<Rightarrow> offset \<Rightarrow> PartitionManager \<Rightarrow> PartitionManager \<times> offset option" where
  "next_fetch_offset synced durable_fetch_offset pm =
     (let end_offset = pm_log_end_offset pm in
      if end_offset \<noteq> durable_fetch_offset
      then (case flush_durable synced pm of (pm', ok) \<Rightarrow> (pm', if ok then Some end_offset else None))
      else (pm, Some durable_fetch_offset))"

text \<open>What a follower does with a response; the result is whether it made progress.\<close>

definition apply_fetch_response ::
  "(bytes \<Rightarrow> nat) \<Rightarrow> (nat \<Rightarrow> append_io) \<Rightarrow> bool \<Rightarrow> bool \<Rightarrow> replace_io \<Rightarrow> ReplicationFetchResponse \<Rightarrow> PartitionManager
    \<Rightarrow> PartitionManager \<times> bool" where
  "apply_fetch_response crc ios flushed synced rio resp pm =
     (case append_replica_entries_verbatim crc ios (rs_entries resp) pm of
        (pm1, r) \<Rightarrow>
          (let applied_any = (case r of None \<Rightarrow> False | Some (appended, _) \<Rightarrow> 0 < appended);
               pm2 = (if applied_any then fst (flush_if_sync_policy flushed pm1) else pm1);
               follower_hw = min (rs_leader_watermark resp) (pm_log_end_offset pm2)
           in (fst (advance_committed_hw synced rio follower_hw pm2), applied_any)))"

section \<open>A leader and its followers\<close>

text \<open>
  \<open>fo_synced\<close> is no variable of the code: everything below it has been synced to the disk of the
  follower. \<open>fo_response\<close> is the response on its way. The leader's \<open>cl_acked\<close> is no variable of
  the code either: the offsets whose commit succeeded, each with the in-sync set of that moment.
\<close>

record Follower =
  fo_partition :: PartitionManager
  fo_durable_fetch_offset :: offset
  fo_synced :: offset
  fo_response :: "ReplicationFetchResponse option"

record replica_group =
  cl_leader :: PartitionManager
  cl_state :: ReplicationState
  cl_follower :: "nat \<Rightarrow> Follower"
  cl_acked :: "(offset \<times> nat list) list"

definition fresh_partition :: "(bytes \<Rightarrow> nat) \<Rightarrow> PartitionManager \<Rightarrow> bool" where
  "fresh_partition crc pm \<longleftrightarrow> (\<exists>cfg node codec policy mapped now io snap.
     open_partition crc cfg node codec policy mapped now io [] None snap = Inr pm)"

definition fresh_follower :: "(bytes \<Rightarrow> nat) \<Rightarrow> Follower \<Rightarrow> bool" where
  "fresh_follower crc f \<longleftrightarrow> fresh_partition crc (fo_partition f) \<and> fo_durable_fetch_offset f = 0 \<and>
     fo_synced f = 0 \<and> fo_response f = None"

text \<open>The room a follower needs for what it may be sent, and the working of its index file.\<close>

definition follower_room :: "(nat \<Rightarrow> append_io) \<Rightarrow> PartitionManager \<Rightarrow> PartitionManager \<Rightarrow> bool" where
  "follower_room ios L F \<longleftrightarrow> pm_log_end_offset L < sp_base_offset (lm_active (pm_segments F)) + 2 ^ 32 \<and>
     cf_max_segment_bytes (lm_config (pm_segments F)) \<le> 2 ^ 32 \<and> (\<forall>k. ap_index (ios k) = Written)"

inductive replica_group_reach :: "(bytes \<Rightarrow> nat) \<Rightarrow> EngineView \<Rightarrow> string \<Rightarrow> nat \<Rightarrow> replica_group \<Rightarrow> bool" for crc ev topic part where
  start: "\<lbrakk>fresh_partition crc (cl_leader c); \<forall>n. fresh_follower crc (cl_follower c n);
    rm_watermarks (cl_state c) = []; cl_acked c = []\<rbrakk> \<Longrightarrow> replica_group_reach crc ev topic part c"
| append: "\<lbrakk>replica_group_reach crc ev topic part c; record_batch_ok crc batch; pm_leader_epoch (cl_leader c) < 4294967296;
    append_room (pi_append io) batch (pm_segments (cl_leader c));
    produce_append crc io flushed batch (cl_leader c) = (L, r)\<rbrakk>
    \<Longrightarrow> replica_group_reach crc ev topic part (c\<lparr>cl_leader := L\<rparr>)"
| commit: "\<lbrakk>replica_group_reach crc ev topic part c;
    commit_produced ev True (cl_state c) topic part synced rio lst (cl_leader c) = (L, r)\<rbrakk>
    \<Longrightarrow> replica_group_reach crc ev topic part (c\<lparr>cl_leader := L,
      cl_acked := (if r = CommitDone then (lst, pm_isr (cl_leader c)) # cl_acked c else cl_acked c)\<rparr>)"
| isr: "replica_group_reach crc ev topic part c
    \<Longrightarrow> replica_group_reach crc ev topic part (c\<lparr>cl_leader := update_leadership leader epoch replicas isr (cl_leader c)\<rparr>)"
| refused: "\<lbrakk>replica_group_reach crc ev topic part c;
    next_fetch_offset synced (fo_durable_fetch_offset (cl_follower c n)) (fo_partition (cl_follower c n)) = (F, None)\<rbrakk>
    \<Longrightarrow> replica_group_reach crc ev topic part
      (c\<lparr>cl_follower := (cl_follower c)(n := (cl_follower c n)\<lparr>fo_partition := F\<rparr>)\<rparr>)"
| fetch: "\<lbrakk>replica_group_reach crc ev topic part c; fo_response (cl_follower c n) = None;
    next_fetch_offset synced (fo_durable_fetch_offset (cl_follower c n)) (fo_partition (cl_follower c n)) = (F, Some off);
    length (log_image (log_batches crc (pm_segments (cl_leader c)))) \<le> U64_MAX;
    handle_replication_fetch ev True now
      \<lparr>rf_follower_node_id = n, rf_topic = topic, rf_partition = part, rf_fetch_offset = off, rf_max_bytes = max_bytes\<rparr>
      (Some (cl_leader c)) (cl_state c) = (rm, resp)\<rbrakk>
    \<Longrightarrow> replica_group_reach crc ev topic part (c\<lparr>cl_state := rm,
      cl_follower := (cl_follower c)(n := \<lparr>fo_partition = F, fo_durable_fetch_offset = off, fo_synced = max off (fo_synced (cl_follower c n)),
        fo_response = Some resp\<rparr>)\<rparr>)"
| lost: "replica_group_reach crc ev topic part c \<Longrightarrow> replica_group_reach crc ev topic part
      (c\<lparr>cl_follower := (cl_follower c)(n := (cl_follower c n)\<lparr>fo_response := None\<rparr>)\<rparr>)"
| applied: "\<lbrakk>replica_group_reach crc ev topic part c; fo_response (cl_follower c n) = Some resp;
    follower_room ios (cl_leader c) (fo_partition (cl_follower c n));
    apply_fetch_response crc ios flushed synced rio resp (fo_partition (cl_follower c n)) = (F, progress)\<rbrakk>
    \<Longrightarrow> replica_group_reach crc ev topic part
      (c\<lparr>cl_follower := (cl_follower c)(n := (cl_follower c n)\<lparr>fo_partition := F, fo_response := None\<rparr>)\<rparr>)"
| crash: "\<lbrakk>replica_group_reach crc ev topic part c; crash_files (pm_segments (fo_partition (cl_follower c n))) k files;
    length (log_image (filter (\<lambda>b. rb_base_offset b < fo_synced (cl_follower c n))
      (stored_batches crc (lm_active (pm_segments (fo_partition (cl_follower c n))))))) \<le> k;
    open_partition crc cfg node codec policy mapped now io files
      (pm_checkpoint (fo_partition (cl_follower c n))) snap = Inr F\<rbrakk>
    \<Longrightarrow> replica_group_reach crc ev topic part
      (c\<lparr>cl_follower := (cl_follower c)(n := (cl_follower c n)\<lparr>fo_partition := F, fo_durable_fetch_offset := 0, fo_response := None\<rparr>)\<rparr>)"

section \<open>The start of a log\<close>

lemma log_start_upd [simp]:
  "log_start (set_active_log l m) = log_start m"
  "log_start (m\<lparr>lm_high_watermark := h\<rparr>) = log_start m" "log_start (m\<lparr>lm_bytes_since_last_index := n\<rparr>) = log_start m"
  by (simp_all add: log_start_def set_active_log_def split: list.splits)

lemma rotate_segment_start: "log_start (fst (rotate_segment crc io now m)) = log_start m"
  by (cases io) (simp_all add: rotate_segment_def Let_def log_start_def set_active_log_def case_prod_unfold split: list.splits)

lemma append_start:
  "log_start (fst (maybe_rotate_before_append crc rio now n m)) = log_start m"
  "log_start (fst (append_batch_to_active w b m)) = log_start m"
  "log_start (fst (index_batch io b ts pos m)) = log_start m"
  by (simp_all add: maybe_rotate_before_append_def rotate_segment_start append_batch_to_active_def case_prod_unfold)
    (simp add: index_batch_def Let_def log_start_def case_prod_unfold split: list.splits)

lemma store_batch_start: "log_start (fst (store_batch crc io b hw m)) = log_start m"
proof -
  obtain m1 ok1 where 1: "maybe_rotate_before_append crc (ap_rotate io) (ap_now io) (encoded_size b) m = (m1, ok1)" by fastforce
  obtain m2 pos where 2: "append_batch_to_active (ap_write io) b m1 = (m2, pos)" by fastforce
  have "log_start m1 = log_start m" "log_start m2 = log_start m1"
    using append_start(1) [of crc "ap_rotate io" "ap_now io" "encoded_size b" m] append_start(2) [of "ap_write io" b m1] 1 2
    by simp_all
  then show ?thesis using append_start(3) [of io b "rb_base_timestamp b" "the pos" m2] 1 2
    by (cases pos) (simp_all add: store_batch_def case_prod_unfold)
qed

lemma append_batch_start [simp]:
  "log_start (fst (append_batch crc io b epoch m)) = log_start m"
  "log_start (fst (append_batch_verbatim crc io b m)) = log_start m"
  by (simp_all add: append_batch_def append_batch_verbatim_def Let_def case_prod_unfold store_batch_start)

lemma produce_batch_eos_start [simp]:
  "log_start (pm_segments (fst (produce_batch_eos crc io batch pm))) = log_start (pm_segments pm)"
  by (simp add: produce_batch_eos_def case_prod_unfold split: option.splits)

lemma replicate_loop_start:
  "log_start (pm_segments (fst (replicate_loop crc ios k entries n lst pm))) = log_start (pm_segments pm) \<and>
   pm_checkpoint (fst (replicate_loop crc ios k entries n lst pm)) = pm_checkpoint pm"
proof (induction "length entries" arbitrary: k entries n lst pm rule: less_induct)
  case less
  show ?case
  proof (cases "entries = [] \<or> isl (decode_entry crc entries)")
    case True
    then show ?thesis unfolding replicate_loop.simps [of crc ios k entries n lst pm] by (auto simp: isl_def)
  next
    case False
    then obtain b m where d: "decode_entry crc entries = Inr (Batch b, m)" and e: "entries \<noteq> []"
      by (cases "decode_entry crc entries") (auto, metis LogEntry.exhaust)
    obtain segs r where a: "append_batch_verbatim crc (ios k) b (pm_segments pm) = (segs, r)" by fastforce
    have st: "log_start segs = log_start (pm_segments pm)"
      using append_batch_start(2) [of crc "ios k" b "pm_segments pm"] a by simp
    show ?thesis
    proof (cases r)
      case None
      then show ?thesis using d e a st unfolding replicate_loop.simps [of crc ios k entries n lst pm] by simp
    next
      case (Some v)
      have "length (drop m entries) < length entries" using decode_entry_consumes [OF d] by simp
      note IH = less.hyps [OF this]
      show ?thesis
      proof (cases v)
        case Appended
        then show ?thesis using Some d e a st unfolding replicate_loop.simps [of crc ios k entries n lst pm] by (simp add: IH)
      next
        case AlreadyApplied
        then show ?thesis using Some d e a st unfolding replicate_loop.simps [of crc ios k entries n lst pm] by (simp add: IH)
      next
        case (Gap x)
        then show ?thesis using Some d e a st unfolding replicate_loop.simps [of crc ios k entries n lst pm] by simp
      qed
    qed
  qed
qed

section \<open>What the steps keep\<close>

lemma flush_sel [simp]:
  "pm_segments (fst (flush_if_sync_policy ok pm)) = pm_segments pm" "pm_segments (fst (flush_durable ok pm)) = pm_segments pm"
  "pm_log_end_offset (fst (flush_if_sync_policy ok pm)) = pm_log_end_offset pm"
  "pm_log_end_offset (fst (flush_durable ok pm)) = pm_log_end_offset pm"
  "pm_committed_hw (fst (flush_if_sync_policy ok pm)) = pm_committed_hw pm"
  "pm_committed_hw (fst (flush_durable ok pm)) = pm_committed_hw pm"
  "pm_checkpoint (fst (flush_if_sync_policy ok pm)) = pm_checkpoint pm"
  "pm_checkpoint (fst (flush_durable ok pm)) = pm_checkpoint pm"
  by (simp_all add: flush_if_sync_policy_def flush_durable_def split: FlushPolicy.splits)

lemma partition_sound_cong:
  "\<lbrakk>partition_sound crc pm; pm_segments pm' = pm_segments pm; pm_log_end_offset pm' = pm_log_end_offset pm;
    pm_committed_hw pm' = pm_committed_hw pm\<rbrakk> \<Longrightarrow> partition_sound crc pm'"
  by (simp add: partition_sound_def)

lemma produce_append_keeps:
  assumes crc: "\<And>x. crc x < 4294967296" and L: "partition_sound crc pm" "record_batch_ok crc batch"
      "pm_leader_epoch pm < 4294967296" "append_room (pi_append io) batch (pm_segments pm)"
    and p: "produce_append crc io flushed batch pm = (pm', r)"
  shows "partition_sound crc pm' \<and> log_start (pm_segments pm') = log_start (pm_segments pm) \<and>
    pm_committed_hw pm' = pm_committed_hw pm \<and>
    (\<exists>xs. log_batches crc (pm_segments pm') = log_batches crc (pm_segments pm) @ xs)"
proof -
  obtain pm1 q where q: "produce_batch_eos crc io batch pm = (pm1, q)" by fastforce
  have k: "pm' = pm1 \<or> pm' = fst (flush_if_sync_policy flushed pm1)"
    using p q by (auto simp: produce_append_def split: option.splits prod.splits)
  have s: "pm_segments pm' = pm_segments pm1" "pm_log_end_offset pm' = pm_log_end_offset pm1"
    "pm_committed_hw pm' = pm_committed_hw pm1" using k by auto
  have 1: "partition_sound crc pm1 \<and> pm_committed_hw pm1 = pm_committed_hw pm \<and>
      (\<exists>xs. log_batches crc (pm_segments pm1) = log_batches crc (pm_segments pm) @ xs)"
    using produce_batch_eos_ok [of crc, OF crc L q] by blast
  have "log_start (pm_segments pm1) = log_start (pm_segments pm)"
    using produce_batch_eos_start [of crc io batch pm] q by simp
  then show ?thesis using 1 s partition_sound_cong [of crc pm1 pm'] by simp
qed

lemma advance_sel [simp]:
  "pm_segments (fst (advance_committed_hw ok rio cand pm)) = pm_segments pm"
  "pm_log_end_offset (fst (advance_committed_hw ok rio cand pm)) = pm_log_end_offset pm"
  by (simp_all add: advance_committed_hw_def Let_def split: replace_io.splits)

lemma advance_keeps:
  assumes "partition_sound crc pm"
  shows "partition_sound crc (fst (advance_committed_hw ok rio cand pm))"
    and "pm_committed_hw pm \<le> pm_committed_hw (fst (advance_committed_hw ok rio cand pm))"
  using advance_committed_hw_ok [OF assms, of ok rio cand "fst (advance_committed_hw ok rio cand pm)"
      "snd (advance_committed_hw ok rio cand pm)"] by simp_all

lemma commit_produced_keeps:
  assumes L: "partition_sound crc pm" and c: "commit_produced ev leads rm topic part synced rio lst pm = (pm', r)"
  shows "partition_sound crc pm' \<and> pm_segments pm' = pm_segments pm \<and> pm_committed_hw pm \<le> pm_committed_hw pm' \<and>
    (r = CommitDone \<and> leads \<and> ev_peer_addrs ev \<noteq> [] \<and> 1 < ev_min_isr ev \<longrightarrow>
       isr_poll ev rm topic part lst (pm_isr pm) = IsrAcked)"
proof -
  have "pm' = pm \<or> pm' = fst (advance_committed_hw synced rio (add64 lst 1) pm)"
    using c by (auto simp: commit_produced_def Let_def split: isr_verdict.splits prod.splits if_splits)
  then have "partition_sound crc pm' \<and> pm_segments pm' = pm_segments pm \<and> pm_committed_hw pm \<le> pm_committed_hw pm'"
    using L advance_keeps [OF L, of synced rio "add64 lst 1"] by (elim disjE) simp_all
  moreover have "isr_poll ev rm topic part lst (pm_isr pm) = IsrAcked"
    if "r = CommitDone" "leads" "ev_peer_addrs ev \<noteq> []" "1 < ev_min_isr ev"
    using c that by (auto simp: commit_produced_def Let_def split: isr_verdict.splits prod.splits if_splits)
  ultimately show ?thesis by blast
qed

section \<open>The invariant\<close>

definition follower_prefix :: "(bytes \<Rightarrow> nat) \<Rightarrow> PartitionManager \<Rightarrow> Follower \<Rightarrow> bool" where
  "follower_prefix crc L f \<longleftrightarrow>
     (\<exists>rest. log_batches crc (pm_segments L) = log_batches crc (pm_segments (fo_partition f)) @ rest \<and>
        (case fo_response f of None \<Rightarrow> True
         | Some resp \<Rightarrow> rs_leader_watermark resp \<le> pm_committed_hw L \<and>
             (\<exists>inc later. rest = inc @ later \<and> rs_entries resp = log_image inc)))"

definition checkpoint_below :: "offset \<Rightarrow> PartitionManager \<Rightarrow> bool" where
  "checkpoint_below h pm \<longleftrightarrow> (\<exists>ck. pm_checkpoint pm = Some ck \<and> be_val ck \<le> h) \<and> pm_committed_hw pm \<le> h"

definition watermark_below :: "EngineView \<Rightarrow> string \<Rightarrow> nat \<Rightarrow> ReplicationState \<Rightarrow> nat \<Rightarrow> offset \<Rightarrow> bool" where
  "watermark_below ev topic part rm n h \<longleftrightarrow>
     (\<forall>addr w. get_broker_address ev n = Some addr \<and> replica_watermark topic part addr rm = Some w \<longrightarrow> w < h)"

definition follower_ok ::
  "(bytes \<Rightarrow> nat) \<Rightarrow> EngineView \<Rightarrow> string \<Rightarrow> nat \<Rightarrow> PartitionManager \<Rightarrow> ReplicationState \<Rightarrow> nat \<Rightarrow> Follower \<Rightarrow> bool" where
  "follower_ok crc ev topic part L rm n f \<longleftrightarrow>
     partition_sound crc (fo_partition f) \<and> log_start (pm_segments (fo_partition f)) = log_start (pm_segments L) \<and>
     follower_prefix crc L f \<and> checkpoint_below (pm_committed_hw L) (fo_partition f) \<and>
     fo_durable_fetch_offset f \<le> fo_synced f \<and> fo_synced f \<le> pm_log_end_offset (fo_partition f) \<and>
     watermark_below ev topic part rm n (fo_synced f)"

definition acked_ok :: "EngineView \<Rightarrow> (nat \<Rightarrow> Follower) \<Rightarrow> (offset \<times> nat list) list \<Rightarrow> bool" where
  "acked_ok ev fs done_writes \<longleftrightarrow> (ev_peer_addrs ev \<noteq> [] \<and> 1 < ev_min_isr ev \<longrightarrow>
     (\<forall>a\<in>set done_writes. snd a \<noteq> [] \<longrightarrow> (\<forall>n\<in>set (snd a). n \<noteq> ev_node_id ev \<longrightarrow> fst a < fo_synced (fs n))))"

definition cluster_ok :: "(bytes \<Rightarrow> nat) \<Rightarrow> EngineView \<Rightarrow> string \<Rightarrow> nat \<Rightarrow> replica_group \<Rightarrow> bool" where
  "cluster_ok crc ev topic part c \<longleftrightarrow>
     partition_sound crc (cl_leader c) \<and>
     (\<forall>n. follower_ok crc ev topic part (cl_leader c) (cl_state c) n (cl_follower c n)) \<and>
     acked_ok ev (cl_follower c) (cl_acked c)"

lemma fresh_partition_ok:
  assumes "fresh_partition crc pm"
  shows "partition_sound crc pm" "log_start (pm_segments pm) = 0" "log_batches crc (pm_segments pm) = []"
    "pm_committed_hw pm = 0" "pm_log_end_offset pm = 0" "pm_checkpoint pm = Some (be_bytes 8 0)"
proof -
  obtain cfg node codec policy mapped now io snap where
    o: "open_partition crc cfg node codec policy mapped now io [] None snap = Inr pm"
    using assms unfolding fresh_partition_def by blast
  then have "io = Replaced" by (cases io) (simp_all add: open_partition_def Let_def open_manager_empty(2))
  then have m: "pm_segments pm = open_manager crc cfg mapped now []"
    and f: "pm_committed_hw pm = 0" "pm_log_end_offset pm = 0" "pm_checkpoint pm = Some (be_bytes 8 0)"
    using o by (auto simp: open_partition_def Let_def open_manager_empty(2))
  show s: "partition_sound crc pm" using m f open_manager_empty [of crc cfg mapped now] by (simp add: partition_sound_def)
  show st: "log_start (pm_segments pm) = 0"
    unfolding m by (simp add: open_manager_def log_start_def open_pair_def open_at_path_with_trust_def Let_def)
  have "chained 0 (log_batches crc (pm_segments pm))" "log_end 0 (log_batches crc (pm_segments pm)) = 0"
    using manager_ok_chained(1,2) [of crc "pm_segments pm"] s st f by (simp_all add: partition_sound_def)
  then show "log_batches crc (pm_segments pm) = []" by (cases "log_batches crc (pm_segments pm)") (auto simp: log_end_def)
  show "pm_committed_hw pm = 0" "pm_log_end_offset pm = 0" "pm_checkpoint pm = Some (be_bytes 8 0)" using f by simp_all
qed

lemma be_zero: "be_val (be_bytes 8 0) = 0"
  by (simp add: be_val_be_bytes_exact)

lemma follower_prefix_leader:
  assumes "follower_prefix crc L f" "pm_committed_hw L \<le> pm_committed_hw L'"
    and L: "log_batches crc (pm_segments L') = log_batches crc (pm_segments L) @ xs"
  shows "follower_prefix crc L' f"
proof -
  obtain rest where r: "log_batches crc (pm_segments L) = log_batches crc (pm_segments (fo_partition f)) @ rest"
    "case fo_response f of None \<Rightarrow> True
      | Some resp \<Rightarrow> rs_leader_watermark resp \<le> pm_committed_hw L \<and> (\<exists>inc later. rest = inc @ later \<and> rs_entries resp = log_image inc)"
    using assms(1) unfolding follower_prefix_def by blast
  have "case fo_response f of None \<Rightarrow> True
      | Some resp \<Rightarrow> rs_leader_watermark resp \<le> pm_committed_hw L' \<and> (\<exists>inc later. rest @ xs = inc @ later \<and> rs_entries resp = log_image inc)"
    using r(2) assms(2) by (fastforce split: option.splits)
  moreover have "log_batches crc (pm_segments L') = log_batches crc (pm_segments (fo_partition f)) @ rest @ xs"
    using r(1) L by simp
  ultimately show ?thesis unfolding follower_prefix_def by blast
qed

lemma follower_ok_leader:
  assumes f: "follower_ok crc ev topic part L rm n f"
    and L: "log_start (pm_segments L') = log_start (pm_segments L)"
      "log_batches crc (pm_segments L') = log_batches crc (pm_segments L) @ xs" "pm_committed_hw L \<le> pm_committed_hw L'"
  shows "follower_ok crc ev topic part L' rm n f"
proof -
  have "checkpoint_below (pm_committed_hw L') (fo_partition f)"
    using f L(3) unfolding follower_ok_def checkpoint_below_def by fastforce
  then show ?thesis using f L(1) follower_prefix_leader [OF _ L(3,2)] unfolding follower_ok_def by simp
qed

lemma cluster_ok_leader:
  assumes c: "cluster_ok crc ev topic part c" and "partition_sound crc L"
    and "log_start (pm_segments L) = log_start (pm_segments (cl_leader c))"
      "log_batches crc (pm_segments L) = log_batches crc (pm_segments (cl_leader c)) @ xs" "pm_committed_hw (cl_leader c) \<le> pm_committed_hw L"
  shows "cluster_ok crc ev topic part (c\<lparr>cl_leader := L\<rparr>)"
  using c assms(2) follower_ok_leader [OF _ assms(3-5)] by (simp add: cluster_ok_def)

text \<open>A step of one follower: the others and the acknowledged writes stand if its synced offset does not fall.\<close>

lemma cluster_ok_follower:
  assumes c: "cluster_ok crc ev topic part c" and f: "follower_ok crc ev topic part (cl_leader c) (cl_state c) n f"
    and s: "fo_synced (cl_follower c n) \<le> fo_synced f"
  shows "cluster_ok crc ev topic part (c\<lparr>cl_follower := (cl_follower c)(n := f)\<rparr>)"
proof -
  have "acked_ok ev ((cl_follower c)(n := f)) (cl_acked c)"
    using c s unfolding cluster_ok_def acked_ok_def by (metis fun_upd_apply order.strict_trans2)
  then show ?thesis using c f by (simp add: cluster_ok_def)
qed

lemma isr_poll_acked:
  assumes "isr_poll ev rm topic part lst isr = IsrAcked" "isr \<noteq> []" "n \<in> set isr" "n \<noteq> ev_node_id ev"
  shows "\<exists>addr w. get_broker_address ev n = Some addr \<and> replica_watermark topic part addr rm = Some w \<and> lst \<le> w"
proof -
  have "filter (\<lambda>n. n \<noteq> ev_node_id ev \<and> \<not> (case get_broker_address ev n of
      None \<Rightarrow> False | Some addr \<Rightarrow> peer_acked rm topic part lst addr)) isr = []"
    using assms(1,2) by (simp add: isr_poll_def Let_def split: if_splits)
  then have "case get_broker_address ev n of None \<Rightarrow> False | Some addr \<Rightarrow> peer_acked rm topic part lst addr"
    using assms(3,4) by (auto simp: filter_empty_conv)
  then show ?thesis by (auto simp: peer_acked_def split: option.splits)
qed

lemma prefix_rest:
  assumes "partition_sound crc L" "partition_sound crc F" "log_start (pm_segments F) = log_start (pm_segments L)"
    and "log_batches crc (pm_segments L) = log_batches crc (pm_segments F) @ rest"
  shows "chained (pm_log_end_offset F) rest" "log_end (pm_log_end_offset F) rest = pm_log_end_offset L"
    "list_all (record_batch_ok crc) rest" "pm_log_end_offset L < 2 ^ 64" "pm_log_end_offset F \<le> pm_log_end_offset L"
proof -
  have ok: "manager_ok crc (pm_segments L)" "pm_log_end_offset L = lm_high_watermark (pm_segments L)"
    "manager_ok crc (pm_segments F)" "pm_log_end_offset F = lm_high_watermark (pm_segments F)"
    using assms(1,2) by (simp_all add: partition_sound_def)
  note l = manager_ok_chained [OF ok(1)] and f = manager_ok_chained [OF ok(3)]
  show r: "chained (pm_log_end_offset F) rest" "log_end (pm_log_end_offset F) rest = pm_log_end_offset L"
    "list_all (record_batch_ok crc) rest" "pm_log_end_offset L < 2 ^ 64"
    using l f(2) assms(3,4) ok(2,4) by simp_all
  show "pm_log_end_offset F \<le> pm_log_end_offset L" using r(2) log_end_ge [of "pm_log_end_offset F" rest] by simp
qed

lemma advance_below:
  assumes "checkpoint_below h pm" "cand \<le> h" "pm_log_end_offset pm < 2 ^ 64"
  shows "checkpoint_below h (fst (advance_committed_hw ok rio cand pm))"
proof -
  have "be_val (be_bytes 8 (min cand (pm_log_end_offset pm))) = min cand (pm_log_end_offset pm)"
    using assms(3) by (intro be_val_be_bytes_exact) simp
  then show ?thesis
    using assms(1,2) by (auto simp: checkpoint_below_def advance_committed_hw_def Let_def split: replace_io.splits)
qed

lemma next_fetch_offset_keeps:
  assumes "next_fetch_offset ok d pm = (pm', r)"
  shows "pm_segments pm' = pm_segments pm" "pm_log_end_offset pm' = pm_log_end_offset pm"
    "pm_committed_hw pm' = pm_committed_hw pm" "pm_checkpoint pm' = pm_checkpoint pm"
    "\<And>off. r = Some off \<Longrightarrow> off = pm_log_end_offset pm"
proof -
  have "pm' = pm \<or> pm' = fst (flush_durable ok pm)"
    using assms by (auto simp: next_fetch_offset_def Let_def split: if_splits prod.splits)
  then show "pm_segments pm' = pm_segments pm" "pm_log_end_offset pm' = pm_log_end_offset pm"
    "pm_committed_hw pm' = pm_committed_hw pm" "pm_checkpoint pm' = pm_checkpoint pm" by auto
  show "off = pm_log_end_offset pm" if "r = Some off" for off
    using assms that by (auto simp: next_fetch_offset_def Let_def split: if_splits prod.splits)
qed

lemma follower_ok_cong:
  assumes "follower_ok crc ev topic part L rm n f"
    and "pm_segments F = pm_segments (fo_partition f)" "pm_log_end_offset F = pm_log_end_offset (fo_partition f)"
      "pm_committed_hw F = pm_committed_hw (fo_partition f)" "pm_checkpoint F = pm_checkpoint (fo_partition f)"
  shows "follower_ok crc ev topic part L rm n (f\<lparr>fo_partition := F\<rparr>)"
  using assms by (simp add: follower_ok_def partition_sound_def follower_prefix_def checkpoint_below_def)

lemma follower_ok_lost:
  "follower_ok crc ev topic part L rm n f \<Longrightarrow> follower_ok crc ev topic part L rm n (f\<lparr>fo_response := None\<rparr>)"
  by (auto simp: follower_ok_def follower_prefix_def)

lemma watermark_below_mono: "\<lbrakk>watermark_below ev topic part rm n h; h \<le> h'\<rbrakk> \<Longrightarrow> watermark_below ev topic part rm n h'"
  unfolding watermark_below_def by (meson order.strict_trans2)

lemma watermark_update:
  assumes "distinct (map snd (ev_broker_addrs ev))" "get_broker_address ev n = Some addr" "watermark_below ev topic part rm k h"
  shows "watermark_below ev topic part (update_replica_watermark now topic part addr w rm) k (if k = n then max (Suc w) h else h)"
proof -
  have inj: "k = n" if "get_broker_address ev k = Some addr"
  proof -
    have "(k, addr) \<in> set (ev_broker_addrs ev)" "(n, addr) \<in> set (ev_broker_addrs ev)"
      using that assms(2) by (simp_all add: get_broker_address_def map_of_SomeD)
    then have "(k, addr) = (n, addr)" using assms(1) by (intro inj_onD [of snd "set (ev_broker_addrs ev)"]) (simp_all add: distinct_map)
    then show ?thesis by simp
  qed
  have upd: "replica_watermark topic part a (update_replica_watermark now topic part addr w rm) =
      (if a = addr then Some w else replica_watermark topic part a rm)" for a
    by (simp add: replica_watermark_def update_replica_watermark_def update_conv')
  have "v < (if k = n then max (Suc w) h else h)"
    if k: "get_broker_address ev k = Some a" and v: "replica_watermark topic part a (update_replica_watermark now topic part addr w rm) = Some v"
    for a v
  proof (cases "a = addr")
    case True
    then have "k = n" "v = w" using inj k v upd by simp_all
    then show ?thesis by simp
  next
    case False
    then have "replica_watermark topic part a rm = Some v" using v upd by simp
    then have "v < h" using assms(3) k unfolding watermark_below_def by blast
    then show ?thesis by (simp add: less_max_iff_disj)
  qed
  then show ?thesis unfolding watermark_below_def by blast
qed

section \<open>The steps keep the invariant\<close>

lemma cluster_fetch_ok:
  assumes addrs: "distinct (map snd (ev_broker_addrs ev))" and c: "cluster_ok crc ev topic part c"
    and nf: "next_fetch_offset synced (fo_durable_fetch_offset (cl_follower c n)) (fo_partition (cl_follower c n)) = (F, Some off)"
    and size: "length (log_image (log_batches crc (pm_segments (cl_leader c)))) \<le> U64_MAX"
    and h: "handle_replication_fetch ev True now
      \<lparr>rf_follower_node_id = n, rf_topic = topic, rf_partition = part, rf_fetch_offset = off, rf_max_bytes = max_bytes\<rparr>
      (Some (cl_leader c)) (cl_state c) = (rm, resp)"
  shows "cluster_ok crc ev topic part (c\<lparr>cl_state := rm,
      cl_follower := (cl_follower c)(n := \<lparr>fo_partition = F, fo_durable_fetch_offset = off,
        fo_synced = max off (fo_synced (cl_follower c n)), fo_response = Some resp\<rparr>)\<rparr>)"
proof -
  let ?L = "cl_leader c" and ?f = "cl_follower c n"
  have ok: "partition_sound crc ?L" "follower_ok crc ev topic part ?L (cl_state c) n ?f" and acks: "acked_ok ev (cl_follower c) (cl_acked c)"
    and all: "\<And>k. follower_ok crc ev topic part ?L (cl_state c) k (cl_follower c k)"
    using c by (simp_all add: cluster_ok_def)
  note keep = next_fetch_offset_keeps [OF nf]
  have off: "off = pm_log_end_offset (fo_partition ?f)" using keep(5) by simp
  obtain rest where rest: "log_batches crc (pm_segments ?L) = log_batches crc (pm_segments (fo_partition ?f)) @ rest"
    using ok(2) unfolding follower_ok_def follower_prefix_def by blast
  obtain inc later where inc: "rest = inc @ later" "fetch_entries_for_replication off max_bytes ?L = log_image inc"
    using fetch_next_batches [OF ok(1) size _ _ rest, of max_bytes] ok(2) off unfolding follower_ok_def by blast
  have resp: "resp = \<lparr>rs_leader_watermark = pm_committed_hw ?L, rs_isr_count = 1, rs_entries = log_image inc\<rparr>"
    and rm: "rm = (if 0 < off then (case get_broker_address ev n of
        Some addr \<Rightarrow> update_replica_watermark now topic part addr (off - 1) (cl_state c) | None \<Rightarrow> cl_state c) else cl_state c)"
    using h inc(2) by (simp_all add: handle_replication_fetch_def Let_def split: option.splits if_splits)
  have wm: "watermark_below ev topic part rm k (if k = n then max off (fo_synced (cl_follower c k)) else fo_synced (cl_follower c k))" for k
  proof -
    have w: "watermark_below ev topic part (cl_state c) k (fo_synced (cl_follower c k))" using all by (simp add: follower_ok_def)
    show ?thesis
    proof (cases "0 < off \<and> get_broker_address ev n \<noteq> None")
      case True
      then obtain addr where a: "get_broker_address ev n = Some addr" "0 < off" by auto
      then have "rm = update_replica_watermark now topic part addr (off - 1) (cl_state c)" "Suc (off - 1) = off" using rm by simp_all
      then show ?thesis using watermark_update [OF addrs a(1) w, of now "off - 1"] by (cases "k = n") simp_all
    next
      case False
      then have "rm = cl_state c" using rm by (auto split: option.splits)
      then show ?thesis using watermark_below_mono [OF w] by simp
    qed
  qed
  let ?f' = "\<lparr>fo_partition = F, fo_durable_fetch_offset = off, fo_synced = max off (fo_synced ?f), fo_response = Some resp\<rparr>"
  have "follower_prefix crc ?L ?f'" using rest inc(1) resp keep(1) by (auto simp: follower_prefix_def)
  then have f': "follower_ok crc ev topic part ?L rm n ?f'"
    using ok(2) keep(1-4) off wm [of n] by (simp add: follower_ok_def partition_sound_def checkpoint_below_def)
  have others: "follower_ok crc ev topic part ?L rm k (cl_follower c k)" if "k \<noteq> n" for k
    using all [of k] wm [of k] that by (simp add: follower_ok_def)
  have "acked_ok ev ((cl_follower c)(n := ?f')) (cl_acked c)"
    using acks by (auto simp: acked_ok_def less_max_iff_disj)
  then show ?thesis using ok(1) f' others by (simp add: cluster_ok_def)
qed

lemma cluster_apply_ok:
  assumes c: "cluster_ok crc ev topic part c" and r: "fo_response (cl_follower c n) = Some resp"
    and room: "follower_room ios (cl_leader c) (fo_partition (cl_follower c n))"
    and ap: "apply_fetch_response crc ios flushed synced rio resp (fo_partition (cl_follower c n)) = (F, progress)"
  shows "follower_ok crc ev topic part (cl_leader c) (cl_state c) n ((cl_follower c n)\<lparr>fo_partition := F, fo_response := None\<rparr>)"
proof -
  let ?L = "cl_leader c" and ?f = "cl_follower c n" and ?F = "fo_partition (cl_follower c n)"
  have L: "partition_sound crc ?L" and f: "follower_ok crc ev topic part ?L (cl_state c) n ?f" using c by (simp_all add: cluster_ok_def)
  then have F: "partition_sound crc ?F" "log_start (pm_segments ?F) = log_start (pm_segments ?L)"
    "checkpoint_below (pm_committed_hw ?L) ?F" by (simp_all add: follower_ok_def)
  obtain inc later where p: "log_batches crc (pm_segments ?L) = log_batches crc (pm_segments ?F) @ inc @ later"
    "rs_leader_watermark resp \<le> pm_committed_hw ?L" "rs_entries resp = log_image inc"
    using f r by (auto simp: follower_ok_def follower_prefix_def)
  note rest = prefix_rest [OF L F(1,2) p(1)]
  obtain F1 q where a: "append_replica_entries_verbatim crc ios (log_image inc) ?F = (F1, q)" by fastforce
  have rm: "pm_log_end_offset ?L < sp_base_offset (lm_active (pm_segments ?F)) + 2 ^ 32"
    "cf_max_segment_bytes (lm_config (pm_segments ?F)) \<le> 2 ^ 32" "\<And>k. ap_index (ios k) = Written"
    using room by (simp_all add: follower_room_def)
  have oki: "list_all (record_batch_ok crc) inc" using rest(3) by simp
  obtain got missing where g: "inc = got @ missing" "partition_sound crc F1"
    "log_batches crc (pm_segments F1) = log_batches crc (pm_segments ?F) @ got" "pm_committed_hw F1 = pm_committed_hw ?F"
    using append_fetched [OF F(1) rest(1) oki rest(2) rest(4) rm a] by blast
  have st: "log_start (pm_segments F1) = log_start (pm_segments ?F)" "pm_checkpoint F1 = pm_checkpoint ?F"
    using replicate_loop_start [of crc ios 0 "log_image inc" 0 AlreadyApplied ?F] a
    by (simp_all add: append_replica_entries_verbatim_def)
  have pre: "log_batches crc (pm_segments ?L) = log_batches crc (pm_segments F1) @ missing @ later" using p(1) g(1,3) by simp
  note rest1 = prefix_rest [OF L g(2) _ pre]
  have end_mono: "pm_log_end_offset ?F \<le> pm_log_end_offset F1"
    by (rule prefix_rest(5) [OF g(2) F(1) _ g(3)]) (simp add: st)
  obtain F2 where F2: "F = fst (advance_committed_hw synced rio (min (rs_leader_watermark resp) (pm_log_end_offset F2)) F2)"
    "pm_segments F2 = pm_segments F1" "pm_log_end_offset F2 = pm_log_end_offset F1" "pm_committed_hw F2 = pm_committed_hw F1"
    "pm_checkpoint F2 = pm_checkpoint F1"
  proof -
    let ?F2 = "if (case q of None \<Rightarrow> False | Some (appended, _) \<Rightarrow> 0 < appended) then fst (flush_if_sync_policy flushed F1) else F1"
    have "F = fst (advance_committed_hw synced rio (min (rs_leader_watermark resp) (pm_log_end_offset ?F2)) ?F2)"
      using ap a p(3) unfolding apply_fetch_response_def Let_def
      by (cases "case q of None \<Rightarrow> False | Some (appended, _) \<Rightarrow> 0 < appended") auto
    then show ?thesis by (rule that) simp_all
  qed
  have "partition_sound crc F2" by (rule partition_sound_cong [OF g(2) F2(2-4)])
  then have "partition_sound crc F" unfolding F2(1) by (rule advance_keeps)
  moreover have "checkpoint_below (pm_committed_hw ?L) F" unfolding F2(1)
    by (rule advance_below) (use F(3) F2 g(4) st p(2) rest1(4,5) st F(2) in \<open>auto simp: checkpoint_below_def\<close>)
  moreover have "pm_segments F = pm_segments F1" "pm_log_end_offset F = pm_log_end_offset F1" using F2 by simp_all
  ultimately show ?thesis
    using f pre st F(2) end_mono by (auto simp: follower_ok_def follower_prefix_def)
qed

lemma restart_log:
  assumes pm: "partition_sound crc pm" and linked: "files_linked (pm_segments pm)"
    and f: "crash_files (pm_segments pm) k files" and s: "s \<le> pm_log_end_offset pm"
      "length (log_image (filter (\<lambda>b. rb_base_offset b < s) (stored_batches crc (lm_active (pm_segments pm))))) \<le> k"
    and ck: "pm_checkpoint pm = Some ck"
    and o: "open_partition crc cfg node codec policy mapped now io files (pm_checkpoint pm) snap = Inr pm'"
  shows "partition_sound crc pm'" "log_start (pm_segments pm') = log_start (pm_segments pm)"
    "\<exists>lost. log_batches crc (pm_segments pm) = log_batches crc (pm_segments pm') @ lost" "s \<le> pm_log_end_offset pm'"
    "pm_checkpoint pm' = Some ck" "pm_committed_hw pm' = be_val ck"
proof -
  let ?m = "pm_segments pm" and ?m' = "open_manager crc cfg mapped now files"
  obtain hs bs where m: "manager_holds crc hs bs ?m" using pm by (auto simp: partition_sound_def manager_ok_def)
  then have bs: "stored_batches crc (lm_active ?m) = bs" "chained (sp_base_offset (lm_active ?m)) bs"
    "log_end (sp_base_offset (lm_active ?m)) bs = pm_log_end_offset pm"
    using pm by (simp_all add: manager_holds_def stored_batches_holds pair_holds_def partition_sound_def)
  obtain hs' kept lost where k: "bs = kept @ lost"
    "if lost = [] then k = length (log_image bs) else k < length (log_image (kept @ [hd lost]))"
    "manager_holds crc hs' kept ?m'" "log_start ?m' = log_start ?m" "sp_base_offset (lm_active ?m') = sp_base_offset (lm_active ?m)"
    "concat hs' = concat hs"
    using open_manager_recovers [OF m linked f, of cfg mapped now] by blast
  have hw: "lm_high_watermark ?m' = log_end (sp_base_offset (lm_active ?m)) kept" using k(3,5) by (simp add: manager_holds_def)
  have pm': "pm_segments pm' = ?m'" "pm_log_end_offset pm' = lm_high_watermark ?m'" "pm_committed_hw pm' \<le> lm_high_watermark ?m'"
    "pm_checkpoint pm' = Some ck" "pm_committed_hw pm' = be_val ck"
    using o ck by (auto simp: open_partition_def Let_def split: if_splits)
  show "partition_sound crc pm'" using pm' k(3) by (auto simp: partition_sound_def manager_ok_def)
  show "log_start (pm_segments pm') = log_start ?m" "pm_checkpoint pm' = Some ck" "pm_committed_hw pm' = be_val ck" using pm' k(4) by simp_all
  show "\<exists>lost. log_batches crc ?m = log_batches crc (pm_segments pm') @ lost"
    using log_batches_holds [OF m] log_batches_holds [OF k(3)] k(1,6) pm'(1) by simp
  show "s \<le> pm_log_end_offset pm'"
  proof (cases "lost = []")
    case True
    then show ?thesis using k(1) bs(3) hw s(1) pm'(2) by simp
  next
    case False
    then show ?thesis
      using kept_covers [of "sp_base_offset (lm_active ?m)" kept lost s k] bs(1,2) k(1,2) s(2) hw pm'(2) by simp
  qed
qed

lemma cluster_crash_ok:
  assumes f: "follower_ok crc ev topic part L rm n f" and linked: "files_linked (pm_segments (fo_partition f))"
    and files: "crash_files (pm_segments (fo_partition f)) k files"
    and k: "length (log_image (filter (\<lambda>b. rb_base_offset b < fo_synced f)
      (stored_batches crc (lm_active (pm_segments (fo_partition f)))))) \<le> k"
    and o: "open_partition crc cfg node codec policy mapped now io files (pm_checkpoint (fo_partition f)) snap = Inr F"
  shows "follower_ok crc ev topic part L rm n (f\<lparr>fo_partition := F, fo_durable_fetch_offset := 0, fo_response := None\<rparr>)"
proof -
  obtain ck where ck: "pm_checkpoint (fo_partition f) = Some ck" "be_val ck \<le> pm_committed_hw L"
    using f by (auto simp: follower_ok_def checkpoint_below_def)
  have s: "partition_sound crc (fo_partition f)" "fo_synced f \<le> pm_log_end_offset (fo_partition f)" using f by (simp_all add: follower_ok_def)
  note r = restart_log [OF s(1) linked files s(2) k ck(1) o]
  obtain lost where "log_batches crc (pm_segments (fo_partition f)) = log_batches crc (pm_segments F) @ lost" using r(3) by blast
  moreover obtain rest where "log_batches crc (pm_segments L) = log_batches crc (pm_segments (fo_partition f)) @ rest"
    using f unfolding follower_ok_def follower_prefix_def by blast
  ultimately show ?thesis using f r(1,2,4,5,6) ck(2) by (simp add: follower_ok_def follower_prefix_def checkpoint_below_def)
qed

lemma fresh_cluster_ok:
  assumes L: "fresh_partition crc (cl_leader c)" and f: "\<forall>n. fresh_follower crc (cl_follower c n)"
    and "rm_watermarks (cl_state c) = []" "cl_acked c = []"
  shows "cluster_ok crc ev topic part c"
proof -
  note l = fresh_partition_ok [OF L]
  have "follower_ok crc ev topic part (cl_leader c) (cl_state c) n (cl_follower c n)" for n
  proof -
    have n: "fresh_partition crc (fo_partition (cl_follower c n))" "fo_durable_fetch_offset (cl_follower c n) = 0"
      "fo_synced (cl_follower c n) = 0" "fo_response (cl_follower c n) = None"
      using f by (simp_all add: fresh_follower_def)
    show ?thesis
      using l fresh_partition_ok [OF n(1)] n(2-4) assms(3)
      by (simp add: follower_ok_def follower_prefix_def checkpoint_below_def watermark_below_def replica_watermark_def be_zero)
  qed
  then show ?thesis using l(1) assms(4) by (simp add: cluster_ok_def acked_ok_def)
qed

text \<open>No follower removes the files of a segment: nothing of it is truncated or trimmed.\<close>

lemma store_batch_unlinked: "lm_unlinked m = [] \<Longrightarrow> lm_unlinked (fst (store_batch crc io b hw m)) = []"
  using index_batch_names(2) [of io b "rb_base_timestamp b"]
  by (auto simp: store_batch_def maybe_rotate_before_append_def rotate_segment_def Let_def append_batch_to_active_def
      case_prod_unfold split: option.splits rotate_io.splits)

lemma append_verbatim_unlinked:
  "lm_unlinked m = [] \<Longrightarrow> lm_unlinked (fst (append_batch_verbatim crc io b m)) = []"
  by (simp add: append_batch_verbatim_def Let_def case_prod_unfold store_batch_unlinked)

lemma replicate_loop_unlinked:
  "lm_unlinked (pm_segments pm) = [] \<Longrightarrow>
   lm_unlinked (pm_segments (fst (replicate_loop crc ios k entries appended lst pm))) = []"
proof (induction crc ios k entries appended lst pm rule: replicate_loop.induct)
  case (1 crc ios k entries appended lst pm)
  have "lm_unlinked segs = []" if "append_batch_verbatim crc (ios k) b (pm_segments pm) = (segs, v)" for b segs v
    using append_verbatim_unlinked [OF "1.prems", of crc "ios k" b] that by simp
  then show ?case using "1.prems"
    by (subst replicate_loop.simps)
      (auto intro!: "1.IH" simp del: One_nat_def split: sum.splits LogEntry.splits prod.splits option.splits VerbatimAppendResult.splits)
qed

lemma open_partition_unlinked:
  assumes "open_partition crc cfg node codec policy mapped now io files ck snap = Inr pm"
  shows "lm_unlinked (pm_segments pm) = []"
proof -
  have "lm_unlinked (open_manager crc cfg mapped now files) = []" by (simp add: open_manager_def Let_def)
  then show ?thesis
    using assms by (auto simp: open_partition_def Let_def split: if_splits option.splits replace_io.splits)
qed

lemma follower_unlinked:
  assumes "replica_group_reach crc ev topic part c"
  shows "lm_unlinked (pm_segments (fo_partition (cl_follower c n))) = []"
  using assms
proof (induction arbitrary: n rule: replica_group_reach.induct)
  case (start c)
  then have "fresh_partition crc (fo_partition (cl_follower c n))" by (simp add: fresh_follower_def)
  then show ?case using open_partition_unlinked unfolding fresh_partition_def by blast
next
  case (refused c synced k F)
  then show ?case using next_fetch_offset_keeps [OF refused.hyps(2)] by simp
next
  case (fetch c k synced F off now max_bytes rm resp)
  then show ?case using next_fetch_offset_keeps [OF fetch.hyps(3)] by simp
next
  case (applied c k resp ios flushed synced rio F progress)
  have "pm_segments F = pm_segments (fst (append_replica_entries_verbatim crc ios (rs_entries resp)
      (fo_partition (cl_follower c k))))"
    using applied.hyps(4) by (auto simp: apply_fetch_response_def Let_def case_prod_unfold split: if_splits)
  then show ?case using applied.IH replicate_loop_unlinked by (simp add: append_replica_entries_verbatim_def)
next
  case (crash c k j files cfg node codec policy mapped now io snap F)
  then show ?case using open_partition_unlinked [OF crash.hyps(4)] by simp
qed simp_all

lemma cluster_reach_ok:
  assumes crc: "\<And>x. crc x < 4294967296" and addrs: "distinct (map snd (ev_broker_addrs ev))"
    and "replica_group_reach crc ev topic part c"
  shows "cluster_ok crc ev topic part c"
  using assms(3)
proof (induction rule: replica_group_reach.induct)
  case (start c)
  then show ?case by (intro fresh_cluster_ok) simp_all
next
  case (append c batch io flushed L r)
  then have "partition_sound crc (cl_leader c)" by (simp add: cluster_ok_def)
  from produce_append_keeps [of crc, OF crc this append.hyps(2-5)] obtain xs where
    "partition_sound crc L" "log_start (pm_segments L) = log_start (pm_segments (cl_leader c))"
    "pm_committed_hw L = pm_committed_hw (cl_leader c)"
    "log_batches crc (pm_segments L) = log_batches crc (pm_segments (cl_leader c)) @ xs" by blast
  then show ?case by (intro cluster_ok_leader [OF append.IH]) simp_all
next
  case (commit c synced rio lst L r)
  then have "partition_sound crc (cl_leader c)" by (simp add: cluster_ok_def)
  note k = commit_produced_keeps [OF this commit.hyps(2)]
  have "cluster_ok crc ev topic part (c\<lparr>cl_leader := L\<rparr>)"
    by (rule cluster_ok_leader [OF commit.IH, of _ "[]"]) (use k in simp_all)
  moreover have "lst < fo_synced (cl_follower c n)"
    if "r = CommitDone" "ev_peer_addrs ev \<noteq> []" "1 < ev_min_isr ev" "pm_isr (cl_leader c) \<noteq> []"
      "n \<in> set (pm_isr (cl_leader c))" "n \<noteq> ev_node_id ev" for n
  proof -
    have "isr_poll ev (cl_state c) topic part lst (pm_isr (cl_leader c)) = IsrAcked" using k that by blast
    from isr_poll_acked [OF this that(4-6)] obtain addr w where
      "get_broker_address ev n = Some addr" "replica_watermark topic part addr (cl_state c) = Some w" "lst \<le> w" by blast
    moreover have "watermark_below ev topic part (cl_state c) n (fo_synced (cl_follower c n))"
      using commit.IH by (simp add: cluster_ok_def follower_ok_def)
    ultimately show ?thesis unfolding watermark_below_def by (meson order.strict_trans1)
  qed
  ultimately show ?case by (auto simp: cluster_ok_def acked_ok_def)
next
  case (isr c leader epoch replicas isr)
  show ?case
    by (rule cluster_ok_leader [OF isr.IH, of _ "[]"])
      (use isr.IH in \<open>simp_all add: update_leadership_def cluster_ok_def partition_sound_def\<close>)
next
  case (refused c synced n F)
  have "follower_ok crc ev topic part (cl_leader c) (cl_state c) n (cl_follower c n)" using refused.IH by (simp add: cluster_ok_def)
  then show ?case
    using cluster_ok_follower [OF refused.IH follower_ok_cong] next_fetch_offset_keeps [OF refused.hyps(2)] by simp
next
  case (fetch c n synced F off now max_bytes rm resp)
  then show ?case by (intro cluster_fetch_ok [OF addrs])
next
  case (lost c n)
  have "follower_ok crc ev topic part (cl_leader c) (cl_state c) n (cl_follower c n)" using lost.IH by (simp add: cluster_ok_def)
  then show ?case by (intro cluster_ok_follower [OF lost.IH] follower_ok_lost) simp_all
next
  case (applied c n resp ios flushed synced rio F progress)
  then show ?case by (intro cluster_ok_follower [OF applied.IH] cluster_apply_ok) simp_all
next
  case (crash c n k files cfg node codec policy mapped now io snap F)
  have "follower_ok crc ev topic part (cl_leader c) (cl_state c) n (cl_follower c n)" using crash.IH by (simp add: cluster_ok_def)
  moreover have "files_linked (pm_segments (fo_partition (cl_follower c n)))"
    using follower_unlinked [OF crash.hyps(1)] by (simp add: files_linked_def list_all_iff)
  ultimately show ?case using crash.hyps by (intro cluster_ok_follower [OF crash.IH] cluster_crash_ok) simp_all
qed

section \<open>Properties\<close>

text \<open>C4 With \<open>min.insync.replicas\<close> above 1, an acknowledged write is on every replica that was in sync.
  A leader with its followers produces, replicates, loses responses and commits in any order,
  the in-sync set changes, and followers crash and recover from what was synced of their files.
  Suppose the leader has peers and \<open>min.insync.replicas\<close> is at least 2; otherwise it acknowledges
  without waiting, and nothing is claimed. When it has acknowledged a write at an offset, every
  other member of the in-sync set of that moment has in its own log everything of the leader's log
  up to that offset, then and in every later state; and what a follower takes for committed is
  committed on the leader. (The leader does not change; brokers have distinct addresses; writes of
  offset indexes succeed, and a segment spans fewer than \<open>2\<^sup>3\<^sup>2\<close> offsets.)\<close>

theorem acked_write_survives:
  assumes "\<And>x. crc x < 4294967296" "distinct (map snd (ev_broker_addrs ev))" "replica_group_reach crc ev topic part c"
    and "ev_peer_addrs ev \<noteq> []" "1 < ev_min_isr ev"
    and "(lst, isr) \<in> set (cl_acked c)" "n \<in> set isr" "n \<noteq> ev_node_id ev"
  shows "\<exists>rest. log_batches crc (pm_segments (cl_leader c)) =
      log_batches crc (pm_segments (fo_partition (cl_follower c n))) @ rest \<and>
    (\<forall>b\<in>set rest. lst < rb_base_offset b) \<and>
    pm_committed_hw (fo_partition (cl_follower c n)) \<le> pm_committed_hw (cl_leader c)"
proof -
  have ok: "cluster_ok crc ev topic part c" by (rule cluster_reach_ok [of crc, OF assms(1-3)])
  then have L: "partition_sound crc (cl_leader c)"
    and f: "follower_ok crc ev topic part (cl_leader c) (cl_state c) n (cl_follower c n)"
    and a: "lst < fo_synced (cl_follower c n)"
    using assms(4-8) by (fastforce simp: cluster_ok_def acked_ok_def)+
  obtain rest where rest: "log_batches crc (pm_segments (cl_leader c)) =
      log_batches crc (pm_segments (fo_partition (cl_follower c n))) @ rest"
    using f unfolding follower_ok_def follower_prefix_def by blast
  have F: "partition_sound crc (fo_partition (cl_follower c n))"
    "log_start (pm_segments (fo_partition (cl_follower c n))) = log_start (pm_segments (cl_leader c))"
    "fo_synced (cl_follower c n) \<le> pm_log_end_offset (fo_partition (cl_follower c n))"
    "pm_committed_hw (fo_partition (cl_follower c n)) \<le> pm_committed_hw (cl_leader c)"
    using f by (simp_all add: follower_ok_def checkpoint_below_def)
  have "\<forall>b\<in>set rest. lst < rb_base_offset b"
    using chained_base_ge [OF prefix_rest(1) [OF L F(1,2) rest]] a F(3) by fastforce
  then show ?thesis using rest F(4) by blast
qed

definition demo_view :: EngineView where
  "demo_view = \<lparr>ev_node_id = 1, ev_peer_addrs = [''b''], ev_broker_addrs = [(1, ''a''), (2, ''b'')], ev_min_isr = 2\<rparr>"

definition demo_ios :: "nat \<Rightarrow> append_io" where
  "demo_ios k = demo_append_io"

definition demo_leader :: PartitionManager where
  "demo_leader = update_leadership 1 0 [1, 2] [1, 2] (fst (produce_append demo_crc demo_io True demo_request demo_empty))"

definition demo_group :: replica_group where
  "demo_group = \<lparr>cl_leader = demo_empty, cl_state = \<lparr>rm_watermarks = [], rm_ack_time = []\<rparr>,
     cl_follower = (\<lambda>_. \<lparr>fo_partition = demo_empty, fo_durable_fetch_offset = 0, fo_synced = 0, fo_response = None\<rparr>), cl_acked = []\<rparr>"

lemma demo_leader_sel:
  "pm_segments demo_leader = pm_segments demo_written" "pm_log_end_offset demo_leader = 2" "pm_committed_hw demo_leader = 0"
  "pm_isr demo_leader = [1, 2]"
  using demo_produce demo_written_log
  by (simp_all add: demo_leader_def update_leadership_def produce_append_def case_prod_unfold)

lemma demo_group_reach: "replica_group_reach demo_crc demo_view ''t'' 0 demo_group"
proof -
  have "fresh_partition demo_crc demo_empty"
    unfolding fresh_partition_def
    using open_manager_empty(2) [of demo_crc demo_config False 0]
    by (intro exI [of _ demo_config] exI [of _ 1] exI [of _ CodecProducer] exI [of _ SyncEveryBatch] exI [of _ False] exI [of _ 0]
        exI [of _ Replaced] exI [of _ None]) (simp add: open_partition_def demo_empty_def Let_def)
  then show ?thesis by (intro start) (simp_all add: demo_group_def fresh_follower_def)
qed

definition demo_first_response :: ReplicationFetchResponse where
  "demo_first_response = \<lparr>rs_leader_watermark = 0, rs_isr_count = 1, rs_entries = fetch_entries_for_replication 0 0 demo_leader\<rparr>"

definition demo_follower :: PartitionManager where
  "demo_follower = fst (apply_fetch_response demo_crc demo_ios True True Replaced demo_first_response demo_empty)"

lemma demo_image_small: "length (log_image (log_batches demo_crc (pm_segments demo_written))) \<le> U64_MAX"
  using demo_produced_sel demo_written_log by (simp add: length_encode_record_batch)

lemma demo_replica_end: "pm_log_end_offset demo_replica = 2" "log_batches demo_crc (pm_segments demo_replica) = [demo_produced]"
proof -
  have e: "pm_log_end_offset demo_empty = 0" by (simp add: demo_empty_def)
  have pre: "log_batches demo_crc (pm_segments demo_written) = log_batches demo_crc (pm_segments demo_empty) @ [demo_produced]"
    and st: "log_start (pm_segments demo_empty) = log_start (pm_segments demo_written)"
    using demo_empty_log demo_written_log by simp_all
  note rest = prefix_rest [OF demo_written_ok st pre]
  obtain inc later where inc: "[demo_produced] = inc @ later" "inc \<noteq> []"
    "fetch_entries_for_replication 0 0 demo_written = log_image inc"
    using fetch_next_batches [OF demo_written_ok(1) demo_image_small demo_written_ok(2) st pre, of 0] e by auto
  then have one: "inc = [demo_produced]" by (cases inc) auto
  have ok: "list_all (record_batch_ok demo_crc) [demo_produced]" using rest(3) by simp
  have room: "pm_log_end_offset demo_written < sp_base_offset (lm_active (pm_segments demo_empty)) + 2 ^ 32"
    "cf_max_segment_bytes (lm_config (pm_segments demo_empty)) \<le> 2 ^ 32" "\<And>k. ap_index ((\<lambda>_. demo_append_io) k) = Written"
    using demo_written_log demo_empty_log by (simp_all add: demo_config_def demo_append_io_def)
  have "\<exists>got missing. [demo_produced] = got @ missing \<and> partition_sound demo_crc demo_replica \<and>
      log_batches demo_crc (pm_segments demo_replica) = log_batches demo_crc (pm_segments demo_empty) @ got \<and>
      pm_committed_hw demo_replica = pm_committed_hw demo_empty \<and> (Some (1::nat, Appended) \<noteq> None \<longrightarrow> missing = [])"
    by (rule append_fetched [where later = "[]" and e = "pm_log_end_offset demo_written"])
      (use demo_written_ok(2) rest ok room demo_replica_run inc(3) one in simp_all)
  then have s: "partition_sound demo_crc demo_replica" and l: "log_batches demo_crc (pm_segments demo_replica) = [demo_produced]"
    using demo_empty_log(1) by auto
  have "log_start (pm_segments demo_replica) = 0"
    using replicate_loop_start [of demo_crc "\<lambda>_. demo_append_io" 0 "fetch_entries_for_replication 0 0 demo_written" 0 AlreadyApplied demo_empty]
      demo_empty_log(2) by (simp add: demo_replica_def append_replica_entries_verbatim_def)
  then show "pm_log_end_offset demo_replica = 2"
    using manager_ok_chained(2) [of demo_crc "pm_segments demo_replica"] s l demo_produced_sel by (simp add: partition_sound_def)
  show "log_batches demo_crc (pm_segments demo_replica) = [demo_produced]" by (rule l)
qed

lemma demo_follower_sel: "pm_segments demo_follower = pm_segments demo_replica" "pm_log_end_offset demo_follower = 2"
proof -
  have "fetch_entries_for_replication 0 0 demo_leader = fetch_entries_for_replication 0 0 demo_written"
    using demo_leader_sel demo_written_log by (simp add: fetch_entries_for_replication_def)
  then have r: "append_replica_entries_verbatim demo_crc demo_ios (rs_entries demo_first_response) demo_empty = (demo_replica, Some (1, Appended))"
    using demo_replica_run by (simp add: demo_first_response_def demo_ios_def [abs_def])
  have "pm_log_end_offset demo_replica = 2" by (rule demo_replica_end(1))
  then show "pm_segments demo_follower = pm_segments demo_replica" "pm_log_end_offset demo_follower = 2"
    using r by (simp_all add: demo_follower_def apply_fetch_response_def Let_def)
qed

definition demo_acks :: ReplicationState where
  "demo_acks = update_replica_watermark 7 ''t'' 0 ''b'' 1 \<lparr>rm_watermarks = [], rm_ack_time = []\<rparr>"

lemma demo_replicated_reach:
  "\<exists>c. replica_group_reach demo_crc demo_view ''t'' 0 c \<and> cl_leader c = demo_leader \<and> cl_state c = demo_acks \<and>
     pm_segments (fo_partition (cl_follower c 2)) = pm_segments demo_replica"
proof -
  obtain r where p: "produce_append demo_crc demo_io True demo_request demo_empty =
      (fst (produce_append demo_crc demo_io True demo_request demo_empty), r)" by (metis prod.collapse)
  have 1: "replica_group_reach demo_crc demo_view ''t'' 0 (demo_group\<lparr>cl_leader := fst (produce_append demo_crc demo_io True demo_request demo_empty)\<rparr>)"
    by (rule append [OF demo_group_reach demo_request_ok, of demo_io True _ r])
      (use p demo_room in \<open>simp_all add: demo_group_def demo_empty_def demo_io_def\<close>)
  define c2 where "c2 = demo_group\<lparr>cl_leader := demo_leader\<rparr>"
  have 2: "replica_group_reach demo_crc demo_view ''t'' 0 c2"
    using isr [OF 1, of 1 0 "[1, 2]" "[1, 2]"] by (simp add: c2_def demo_leader_def)
  have size: "length (log_image (log_batches demo_crc (pm_segments demo_leader))) \<le> U64_MAX"
    using demo_image_small demo_leader_sel by simp
  define c3 where "c3 = c2\<lparr>cl_follower := (cl_follower c2)(2 := \<lparr>fo_partition = demo_empty, fo_durable_fetch_offset = 0, fo_synced = 0,
      fo_response = Some demo_first_response\<rparr>)\<rparr>"
  have 3: "replica_group_reach demo_crc demo_view ''t'' 0 c3"
    using fetch [OF 2, of 2 True demo_empty 0 0 0 "cl_state c2" demo_first_response] size demo_leader_sel
    by (simp add: c2_def c3_def demo_group_def next_fetch_offset_def demo_empty_def handle_replication_fetch_def demo_first_response_def)
  define c4 where "c4 = c3\<lparr>cl_follower := (cl_follower c3)(2 := (cl_follower c3 2)\<lparr>fo_partition := demo_follower, fo_response := None\<rparr>)\<rparr>"
  have "follower_room demo_ios demo_leader demo_empty"
    using demo_leader_sel demo_empty_log by (simp add: follower_room_def demo_config_def demo_ios_def demo_append_io_def)
  then have 4: "replica_group_reach demo_crc demo_view ''t'' 0 c4"
    unfolding c4_def
    by (intro applied [OF 3, of 2 demo_first_response demo_ios True True Replaced demo_follower
        "snd (apply_fetch_response demo_crc demo_ios True True Replaced demo_first_response demo_empty)"])
      (simp_all add: c3_def c2_def demo_follower_def)
  let ?F = "fst (flush_durable True demo_follower)"
  have nf: "next_fetch_offset True 0 demo_follower = (?F, Some 2)"
    using demo_follower_sel by (simp add: next_fetch_offset_def flush_durable_def)
  let ?req = "\<lparr>rf_follower_node_id = 2, rf_topic = ''t'', rf_partition = 0, rf_fetch_offset = 2, rf_max_bytes = 0\<rparr>"
  let ?resp = "snd (handle_replication_fetch demo_view True 7 ?req (Some demo_leader) (cl_state c4))"
  have h: "handle_replication_fetch demo_view True 7 ?req (Some demo_leader) (cl_state c4) = (demo_acks, ?resp)"
    by (simp add: handle_replication_fetch_def Let_def demo_view_def get_broker_address_def demo_acks_def c4_def c3_def c2_def demo_group_def)
  have "replica_group_reach demo_crc demo_view ''t'' 0 (c4\<lparr>cl_state := demo_acks, cl_follower := (cl_follower c4)(2 :=
      \<lparr>fo_partition = ?F, fo_durable_fetch_offset = 2, fo_synced = max 2 (fo_synced (cl_follower c4 2)), fo_response = Some ?resp\<rparr>)\<rparr>)"
    by (rule fetch [OF 4, where synced = True and now = 7 and max_bytes = 0])
      (use nf h size in \<open>simp_all add: c4_def c3_def c2_def\<close>)
  moreover have "cl_leader c4 = demo_leader" by (simp add: c4_def c3_def c2_def)
  ultimately show ?thesis using demo_follower_sel(1) by (intro exI) (auto simp: flush_sel)
qed

theorem acked_write_survives_witness:
  "\<exists>c rest. replica_group_reach demo_crc demo_view ''t'' 0 c \<and> (1, [1, 2]) \<in> set (cl_acked c) \<and>
     [demo_produced] = log_batches demo_crc (pm_segments (fo_partition (cl_follower c 2))) @ rest \<and> rest = []"
proof -
  obtain c where c: "replica_group_reach demo_crc demo_view ''t'' 0 c" "cl_leader c = demo_leader" "cl_state c = demo_acks"
    "pm_segments (fo_partition (cl_follower c 2)) = pm_segments demo_replica" using demo_replicated_reach by blast
  have "isr_poll demo_view demo_acks ''t'' 0 1 [1, 2] = IsrAcked"
    by (simp add: isr_poll_def demo_view_def get_broker_address_def peer_acked_def replica_watermark_def demo_acks_def
        update_replica_watermark_def)
  then have d: "commit_produced demo_view True (cl_state c) ''t'' 0 True Replaced 1 (cl_leader c) =
      (fst (commit_produced demo_view True (cl_state c) ''t'' 0 True Replaced 1 (cl_leader c)), CommitDone)"
    using c(2,3) demo_leader_sel
    by (simp add: commit_produced_def Let_def advance_committed_hw_def add64_def)
  define c' where "c' = c\<lparr>cl_leader := fst (commit_produced demo_view True (cl_state c) ''t'' 0 True Replaced 1 (cl_leader c)),
      cl_acked := (1, [1, 2]) # cl_acked c\<rparr>"
  have r: "replica_group_reach demo_crc demo_view ''t'' 0 c'"
    using commit [OF c(1) d] c(2) demo_leader_sel(4) by (simp add: c'_def demo_view_def)
  have "pm_segments (cl_leader c') = pm_segments demo_written"
    using c(2,3) demo_leader_sel \<open>isr_poll demo_view demo_acks ''t'' 0 1 [1, 2] = IsrAcked\<close>
    by (simp add: c'_def commit_produced_def Let_def case_prod_unfold)
  then obtain rest where "[demo_produced] = log_batches demo_crc (pm_segments (fo_partition (cl_follower c' 2))) @ rest"
    "\<forall>b\<in>set rest. 1 < rb_base_offset b"
    using acked_write_survives [of demo_crc, OF demo_crc_less _ r, of 1 "[1, 2]" 2] demo_written_log(1)
    by (auto simp: demo_view_def c'_def)
  moreover from this have "rest = []" using demo_produced_sel(1) by (cases "log_batches demo_crc (pm_segments (fo_partition (cl_follower c' 2)))") auto
  moreover have "(1, [1, 2]) \<in> set (cl_acked c')" by (simp add: c'_def)
  ultimately show ?thesis using r by blast
qed

end
