(* ===== verification/Spec2Isabelle.thy ===== *)
theory Spec2Isabelle
  imports Share_State Consumer_Offsets Acl Election_Progress Coordinator Indexes Transactions Assignors Wire_Responses
    Cluster_Metadata Data_Replication
begin

text \<open>
  \<^bold>\<open>Bifrox\<close> is a log-structured message broker. Producers append record batches to partitions,
  consumers read them in groups, brokers replicate partitions and elect a controller that owns
  the cluster metadata. This development models the parts of the broker that decide: who may do
  what, who leads, which member owns which records, and what of that survives a restart.

  \<^bold>\<open>Parts and theories.\<close>

  \<^item> \<open>Prelude\<close>: machine arithmetic with its wrap-around, big-endian integers, UTF-8
    strings, ordered maps and sets, the binary search of the standard library.
  \<^item> \<open>Codec\<close>: the length-prefixed strings of \<^verbatim>\<open>src/protocol/wire.rs\<close> and the locale
    \<open>prefix_codec\<close>, the contract of a self-delimiting field.
  \<^item> \<open>Record_Stream\<close>: the two nested loops with which the broker reads a growing buffer
    (state logs at start-up, frames on a connection), over the parser of one record. The locale
    \<open>stream_parser\<close> states that more input never changes a verdict; \<open>stream_codec\<close> adds
    that an encoded record parses back. It is interpreted for the consumer-offset log, the
    share-state log and the inter-node frames. Also the steps in which a log is replaced by its
    compacted copy, each of which can fail or be the last before a crash.
  \<^item> \<open>Share_Partition\<close> (\<^verbatim>\<open>src/server/share/partition.rs\<close>): leases of record batches in a
    share group. The state is a map of batches and an index of expiry timers, as in the code;
    a per-offset view is the specification. Lemmas: a well-formedness invariant of every
    operation, exclusive delivery, acknowledgement as a per-offset function with splitting,
    exact expiry, the delivery ceiling, snapshots.
  \<^item> \<open>Share_State\<close> (\<^verbatim>\<open>src/server/share/manager.rs\<close>): the manager of share partitions
    with its checksummed state log, write failures, compaction and restart. Lemmas: while no
    write was torn and no compaction was cut short, a restart recovers every partition; recovery
    does not depend on the chunking of the file; the grouping of acquired records loses nothing.
    Two lemmas show what a torn record and a crash inside a compaction lose.
  \<^item> \<open>Consumer_Offsets\<close> (\<^verbatim>\<open>src/consumer_group.rs\<close>): committed offsets and their log.
    Lemmas: the last commit of every key is what is fetched and what a restart recovers, as
    long as no write failed part way and no compaction was cut short; what each of these loses,
    and that a commit can be lost to a compaction that succeeds, are lemmas too.
  \<^item> \<open>Ip_Address\<close>, \<open>Acl\<close> (\<^verbatim>\<open>src/server/listener.rs\<close>, \<^verbatim>\<open>src/server/acl.rs\<close>,
    \<open>authorize\<close> of \<^verbatim>\<open>src/server/engine.rs\<close>): address ranges on words, the bucketed rule
    store against the plain set of rules, and the wildcard loop, which is shown to end and to
    compute the meaning of the pattern.
  \<^item> \<open>Envelope\<close> (\<^verbatim>\<open>src/replication/envelope.rs\<close>, \<^verbatim>\<open>src/replication/grpc.rs\<close>, payloads
    of \<^verbatim>\<open>src/replication/mod.rs\<close>, \<open>PayloadReader\<close> of \<^verbatim>\<open>src/server/handler.rs\<close>): frames
    between brokers. Lemmas: frames survive any segmentation, errors mean what the receive loop
    takes them for, extensions are additive.
  \<^item> \<open>Consensus\<close> (\<^verbatim>\<open>src/replication/consensus.rs\<close>, \<^verbatim>\<open>src/durable.rs\<close>, the vote handler
    and the election loop): the controller as a state machine with its file, and a cluster of
    them as an inductive step relation. Lemmas: election safety, one vote per term over
    crashes and failed writes. \<open>Election_Progress\<close> adds the other half: from every
    reachable state an election can complete when a majority is willing to vote.
  \<^item> \<open>Coordinator\<close> (\<^verbatim>\<open>src/server/coordinator.rs\<close>): consumer groups. Lemmas: exclusive
    partition ownership, consistent leadership and static slots, fencing of old generations.
  \<^item> \<open>Indexes\<close> (\<^verbatim>\<open>src/segment/index.rs\<close>, \<^verbatim>\<open>src/segment/timeindex.rs\<close>,
    \<^verbatim>\<open>src/segment/txnindex.rs\<close>): the files of fixed-width entries beside a segment, under
    the locale \<open>entry_file\<close>, interpreted for each of the three. Lemmas: the binary search is
    a scan, files survive a crash inside an append, the aborted ranges are a set; and, under
    Limits, what a torn entry does to the appends after it and what equal timestamps do to a
    lookup.
  \<^item> \<open>Transactions\<close> (\<^verbatim>\<open>src/server/transaction.rs\<close>): the transaction manager as a
    sequence of operations. Lemmas: the last stable offset guards every open transaction and is
    a scan while operations come in order, fenced producers stay fenced, eviction sheds idle
    producers, log records round trip; under Limits, two ways in which a pin is leaked.
  \<^item> \<open>Assignors\<close> (\<^verbatim>\<open>src/consumer.rs\<close>): how a group leader divides partitions. Lemmas:
    every strategy is fair, the sticky one keeps fair assignments, a cooperative rebalance has
    no moment with two owners; the level loop ends because the sum of squared loads falls.
  \<^item> \<open>Wire_Types\<close>, \<open>Wire_Requests\<close> (\<^verbatim>\<open>src/protocol/wire.rs\<close>): the command codes, the
    envelope with its tagged fields, the body of every request, and forwarding. Lemmas: the
    verdict of the decoder on a buffer is stable under further input, so the requests of a
    connection are those of the byte stream however it is cut (the locale \<open>stream_parser\<close>
    interpreted for the connection loop of \<^verbatim>\<open>src/server/handler.rs\<close>); a forwarded request decodes
    to the same request, unless it brought tags of forwarding itself.
  \<^item> \<open>Client_Requests\<close> (\<^verbatim>\<open>src/client.rs\<close>): the building of every request of the client library.
    Lemmas: the broker reads back every request, and a pipelined sequence in order.
  \<^item> \<open>Wire_Responses\<close> (\<^verbatim>\<open>src/protocol/wire.rs\<close>, \<^verbatim>\<open>src/client.rs\<close>): responses in both framings, the
    window of outstanding requests and the pipelined exchange, the body of a share fetch.
    Lemmas: answers are matched to requests for every window, relayed responses look direct,
    share fetches round trip.
  \<^item> \<open>Record_Batch\<close> (\<^verbatim>\<open>src/protocol/batch.rs\<close>, \<^verbatim>\<open>src/segment/entry.rs\<close>): record batches, the
    entries of the log, and the body of a fetch response with the client's filter. Lemmas:
    what a producer sends is what a consumer reads; committed readers see exactly the stable
    and not aborted records.
  \<^item> \<open>Cluster_Metadata\<close> (\<^verbatim>\<open>src/replication/metadata.rs\<close>): the records of the metadata log.
    Lemmas: every record reads back as written, older layouts still decode.
  \<^item> \<open>Segment_Log\<close> (\<^verbatim>\<open>src/segment/log.rs\<close>, \<^verbatim>\<open>src/segment/manager.rs\<close>,
    \<^verbatim>\<open>src/segment/mmap.rs\<close>): the log of a partition as files with their indexes: the recovery
    scan, rotation, the appends of a leader and of a replica, truncation, the framing walk of a
    fetch, lookups by time, trimming and retention, with the names of the files that were removed
    from the directory. \<open>Log_Refinement\<close> states what such a log
    stands for, a list of batches with consecutive offset ranges, and shows that appending,
    rotating and truncating files is appending to and filtering that list. \<open>Log_Fetch\<close> shows
    that the framing walk, which reads prefixes of entries through a sliding window, returns
    exactly a run of whole batches. \<open>Log_Recovery\<close> shows that the recovery scan finds the batches
    that were written, for every cutting of the file into reads and every torn end, and that no live
    segment loses its files as long as batches fit a segment (and how one does otherwise).
  \<^item> \<open>Partition_Log\<close> (\<^verbatim>\<open>src/server/partition.rs\<close>): the partition over its log, with the
    committed watermark and its checkpoint, the idempotent producers and replication. Lemmas:
    offsets are contiguous in every reachable state, a crash loses nothing committed, a
    committed fetch is exact, a retry is not written again while the partition stays open, a replica
    stays a prefix of its leader and catches up, truncation keeps a prefix. The reachable states
    (\<open>partition_life\<close>) leave out failing writes of the offset index and truncations that fail after
    their cut, both of which break the log.
  \<^item> \<open>Data_Replication\<close> (\<^verbatim>\<open>src/replication/mod.rs\<close>, \<open>handle_replication_fetch\<close> of
    \<^verbatim>\<open>src/server/handler.rs\<close>, the wait for the in-sync replicas and the commit of
    \<^verbatim>\<open>src/server/engine.rs\<close>): a leader and its followers as an inductive step relation over the
    partitions, with responses on their way and follower crashes. Lemma: with
    \<open>min.insync.replicas\<close> above 1, an acknowledged write is on every replica that was in sync, in every
    later state.

  \<^bold>\<open>How the code is rendered.\<close> A struct is a record with the fields of the source, an enum a
  datatype, a method a function from the state to the new state and the result; a lock section
  is one step. Unsigned integers are natural numbers, and every operation that can overflow in
  the release build is written with its wrap-around or saturation. Files are byte lists, a write
  succeeds or leaves a prefix (\<open>write_result\<close>, \<open>disk_io\<close>), removing a segment file succeeds; panics and
  errors are values.
  Clocks, random ids and the results of reads from other components are arguments. Checksums,
  compression codecs and the fetch from the log are parameters; what the theorems need of them are hypotheses.

  \<^bold>\<open>Bounds.\<close> Loops are structural or have a termination proof; the wildcard loop is a
  \<open>partial_function\<close> shown to return on every input. No fuel is used. Election theorems
  count the steps of a history and assume fewer than \<open>2\<^sup>6\<^sup>4\<close> of them, which is what keeps
  terms from wrapping. The theorems on logs assume offsets below \<open>2\<^sup>6\<^sup>4\<close> and segments of fewer than
  \<open>2\<^sup>3\<^sup>2\<close> offsets and bytes, the width of an index entry.

  \<^bold>\<open>Not modelled.\<close> Compaction of segments and its recovery after a crash, the compression codecs,
  most response bodies and the dispatch of requests, the changes of the in-sync set and of partition leaders,
  the polling client, SCRAM, quotas, metrics and configuration parsing. Sockets,
  TLS and process start-up are pure I/O.
\<close>

end
